(* ===== verification/Prelude.thy ===== *)
theory Prelude
  imports Main "HOL-Library.Word"
begin

text \<open>
  Shared vocabulary of the development: bytes and machine words, the outcome of a Go call
  (a value, an error, or a run-time panic), the checked slice and index reads of Go, the
  little- and big-endian codecs of \<open>encoding/binary\<close>, the reader and writer sides of
  \<open>io\<close>, and the locales through which the codecs and writers of the components are
  reasoned about.
\<close>

unbundle bit_operations_syntax

section \<open>Types\<close>

type_synonym byte = "8 word"
type_synonym u16 = "16 word"
type_synonym u32 = "32 word"
type_synonym u64 = "64 word"
type_synonym bytes = "byte list"

text \<open>
  A Go function that returns \<open>(T, error)\<close> either returns a value, returns a non-nil error,
  or panics (an index or a slice expression out of range). Panics are values here, so that
  panic freedom is a theorem and not an assumption.
\<close>

datatype ('e, 'a) outcome = Ret 'a | Fail 'e | Panic

named_theorems go_simps \<open>evaluation of the outcome combinators under their bounds\<close>
named_theorems codec_simps \<open>fixed-width encoders and decoders\<close>

fun bind :: "('e, 'a) outcome \<Rightarrow> ('a \<Rightarrow> ('e, 'b) outcome) \<Rightarrow> ('e, 'b) outcome" where
  "bind (Ret x) f = f x"
| "bind (Fail e) f = Fail e"
| "bind Panic f = Panic"

text \<open>Wrapping an error with \<open>fmt.Errorf("...: %w", err)\<close>.\<close>

fun map_err :: "('e \<Rightarrow> 'f) \<Rightarrow> ('e, 'a) outcome \<Rightarrow> ('f, 'a) outcome" where
  "map_err h (Ret x) = Ret x"
| "map_err h (Fail e) = Fail (h e)"
| "map_err h Panic = Panic"

text \<open>An early return guarded by a condition: \<open>if c { return err }\<close>.\<close>

definition fail_if :: "bool \<Rightarrow> 'e \<Rightarrow> ('e, 'a) outcome \<Rightarrow> ('e, 'a) outcome" where
  "fail_if c e k = (if c then Fail e else k)"

lemma bind_eq_Ret_iff [simp]: "bind m f = Ret y \<longleftrightarrow> (\<exists>x. m = Ret x \<and> f x = Ret y)"
  by (cases m) auto

lemma bind_eq_Panic_iff: "bind m f = Panic \<longleftrightarrow> m = Panic \<or> (\<exists>x. m = Ret x \<and> f x = Panic)"
  by (cases m) auto

lemma bind_assoc: "bind (bind m f) g = bind m (\<lambda>x. bind (f x) g)"
  by (cases m) auto

lemma map_err_eq_Ret_iff [simp]: "map_err h m = Ret x \<longleftrightarrow> m = Ret x"
  by (cases m) auto

lemma map_err_eq_Panic_iff [simp]: "map_err h m = Panic \<longleftrightarrow> m = Panic"
  by (cases m) auto

lemma fail_if_eq_Ret_iff [simp]: "fail_if c e k = Ret x \<longleftrightarrow> \<not> c \<and> k = Ret x"
  by (simp add: fail_if_def)

lemma fail_if_eq_Panic_iff [simp]: "fail_if c e k = Panic \<longleftrightarrow> \<not> c \<and> k = Panic"
  by (simp add: fail_if_def)

lemma fail_if_False [simp]: "fail_if False e k = k"
  by (simp add: fail_if_def)

lemma fail_if_True [simp]: "fail_if True e k = Fail e"
  by (simp add: fail_if_def)

lemma bind_cong [fundef_cong]:
  "m = m' \<Longrightarrow> (\<And>x. m' = Ret x \<Longrightarrow> f x = f' x) \<Longrightarrow> bind m f = bind m' f'"
  by (cases m') auto

lemma fail_if_cong [fundef_cong]:
  "c = c' \<Longrightarrow> e = e' \<Longrightarrow> (\<not> c' \<Longrightarrow> k = k') \<Longrightarrow> fail_if c e k = fail_if c' e' k'"
  by (simp add: fail_if_def)

lemma bind_no_panic:
  "m \<noteq> Panic \<Longrightarrow> (\<And>x. m = Ret x \<Longrightarrow> f x \<noteq> Panic) \<Longrightarrow> bind m f \<noteq> Panic"
  by (cases m) auto

text \<open>A loop that computes one value per element and returns at the first error.\<close>

fun traverse :: "('a \<Rightarrow> ('e, 'b) outcome) \<Rightarrow> 'a list \<Rightarrow> ('e, 'b list) outcome" where
  "traverse f [] = Ret []"
| "traverse f (x # xs) = bind (f x) (\<lambda>y. bind (traverse f xs) (\<lambda>ys. Ret (y # ys)))"

lemma traverse_eq_Ret_iff:
  "traverse f xs = Ret ys \<longleftrightarrow> length ys = length xs \<and> (\<forall>i < length xs. f (xs ! i) = Ret (ys ! i))"
proof (induction xs arbitrary: ys)
  case (Cons x xs)
  then show ?case by (cases ys) (auto simp: All_less_Suc2)
qed auto

lemma traverse_Ret_map: "(\<And>x. x \<in> set xs \<Longrightarrow> f x = Ret (g x)) \<Longrightarrow> traverse f xs = Ret (map g xs)"
  by (induction xs) auto

lemma traverse_no_panic: "(\<And>x. x \<in> set xs \<Longrightarrow> f x \<noteq> Panic) \<Longrightarrow> traverse f xs \<noteq> Panic"
  by (induction xs) (auto simp: bind_eq_Panic_iff)

section \<open>Checked reads\<close>

text \<open>
  \<open>index xs i\<close> is Go's \<open>xs[i]\<close> and \<open>subslice xs lo hi\<close> is \<open>xs[lo:hi]\<close>: both panic out of
  range. (Go admits \<open>hi\<close> up to the capacity; the model is stricter and panics beyond the
  length, so panic freedom here implies panic freedom there.)
\<close>

definition index :: "'a list \<Rightarrow> nat \<Rightarrow> ('e, 'a) outcome" where
  "index xs i = (if i < length xs then Ret (xs ! i) else Panic)"

definition subslice :: "'a list \<Rightarrow> nat \<Rightarrow> nat \<Rightarrow> ('e, 'a list) outcome" where
  "subslice xs lo hi =
     (if lo \<le> hi \<and> hi \<le> length xs then Ret (take (hi - lo) (drop lo xs)) else Panic)"

lemma index_in [go_simps]: "i < length xs \<Longrightarrow> index xs i = Ret (xs ! i)"
  by (simp add: index_def)

lemma subslice_in [go_simps]:
  "lo \<le> hi \<Longrightarrow> hi \<le> length xs \<Longrightarrow> subslice xs lo hi = Ret (take (hi - lo) (drop lo xs))"
  by (simp add: subslice_def)

lemma index_eq_Ret_iff: "index xs i = Ret x \<longleftrightarrow> i < length xs \<and> x = xs ! i"
  by (auto simp: index_def)

lemma subslice_eq_Ret_iff:
  "subslice xs lo hi = Ret ys \<longleftrightarrow> lo \<le> hi \<and> hi \<le> length xs \<and> ys = take (hi - lo) (drop lo xs)"
  by (auto simp: subslice_def)

lemma index_eq_Panic_iff: "index xs i = Panic \<longleftrightarrow> length xs \<le> i"
  by (auto simp: index_def)

lemma subslice_eq_Panic_iff: "subslice xs lo hi = Panic \<longleftrightarrow> \<not> (lo \<le> hi \<and> hi \<le> length xs)"
  by (auto simp: subslice_def)

lemma index_neq_Fail [simp]: "index xs i \<noteq> Fail e"
  by (simp add: index_def)

lemma subslice_neq_Fail [simp]: "subslice xs lo hi \<noteq> Fail e"
  by (simp add: subslice_def)

section \<open>Fixed-width integers on the wire\<close>

definition put_le16 :: "u16 \<Rightarrow> bytes" where
  "put_le16 w = [ucast w, ucast (drop_bit 8 w)]"

definition put_be16 :: "u16 \<Rightarrow> bytes" where
  "put_be16 w = [ucast (drop_bit 8 w), ucast w]"

definition put_le32 :: "u32 \<Rightarrow> bytes" where
  "put_le32 w = [ucast w, ucast (drop_bit 8 w), ucast (drop_bit 16 w), ucast (drop_bit 24 w)]"

definition join_le16 :: "byte \<Rightarrow> byte \<Rightarrow> u16" where
  "join_le16 a b = ucast a OR push_bit 8 (ucast b)"

definition join_le32 :: "byte \<Rightarrow> byte \<Rightarrow> byte \<Rightarrow> byte \<Rightarrow> u32" where
  "join_le32 a b c d =
     ucast a OR push_bit 8 (ucast b) OR push_bit 16 (ucast c) OR push_bit 24 (ucast d)"

text \<open>\<open>binary.LittleEndian.Uint16(xs)\<close> and its kin panic on a short slice.\<close>

fun le16 :: "bytes \<Rightarrow> ('e, u16) outcome" where
  "le16 (a # b # _) = Ret (join_le16 a b)"
| "le16 _ = Panic"

fun be16 :: "bytes \<Rightarrow> ('e, u16) outcome" where
  "be16 (a # b # _) = Ret (join_le16 b a)"
| "be16 _ = Panic"

fun le32 :: "bytes \<Rightarrow> ('e, u32) outcome" where
  "le32 (a # b # c # d # _) = Ret (join_le32 a b c d)"
| "le32 _ = Panic"

lemma le16_take_drop [go_simps]:
  assumes "2 \<le> n" "k + 2 \<le> length xs"
  shows "le16 (take n (drop k xs)) = Ret (join_le16 (xs ! k) (xs ! (k + 1)))"
    and "le16 (drop k xs) = Ret (join_le16 (xs ! k) (xs ! (k + 1)))"
    and "be16 (take n (drop k xs)) = Ret (join_le16 (xs ! (k + 1)) (xs ! k))"
    and "be16 (drop k xs) = Ret (join_le16 (xs ! (k + 1)) (xs ! k))"
proof -
  have d: "drop k xs = xs ! k # xs ! (k + 1) # drop (k + 2) xs"
    using assms by (simp add: Cons_nth_drop_Suc)
  have t: "take n (a # b # ys) = a # b # take (n - 2) ys" for a b ys
    using assms(1) by (cases n; cases "n - 1") auto
  show "le16 (take n (drop k xs)) = Ret (join_le16 (xs ! k) (xs ! (k + 1)))"
    and "le16 (drop k xs) = Ret (join_le16 (xs ! k) (xs ! (k + 1)))"
    and "be16 (take n (drop k xs)) = Ret (join_le16 (xs ! (k + 1)) (xs ! k))"
    and "be16 (drop k xs) = Ret (join_le16 (xs ! (k + 1)) (xs ! k))"
    unfolding d t by simp_all
qed

lemma le32_take_drop [go_simps]:
  assumes "4 \<le> n" "k + 4 \<le> length xs"
  shows "le32 (take n (drop k xs))
     = Ret (join_le32 (xs ! k) (xs ! (k + 1)) (xs ! (k + 2)) (xs ! (k + 3)))"
    and "le32 (drop k xs)
     = Ret (join_le32 (xs ! k) (xs ! (k + 1)) (xs ! (k + 2)) (xs ! (k + 3)))"
proof -
  have d: "drop k xs = xs ! k # xs ! (k + 1) # xs ! (k + 2) # xs ! (k + 3) # drop (k + 4) xs"
    using assms by (simp add: Cons_nth_drop_Suc numeral_nat)
  have t: "take n (a # b # c # e # ys) = a # b # c # e # take (n - 4) ys" for a b c e ys
    using assms(1) by (auto simp: numeral_nat take_Cons' not_le)
  show "le32 (take n (drop k xs))
     = Ret (join_le32 (xs ! k) (xs ! (k + 1)) (xs ! (k + 2)) (xs ! (k + 3)))"
    and "le32 (drop k xs)
     = Ret (join_le32 (xs ! k) (xs ! (k + 1)) (xs ! (k + 2)) (xs ! (k + 3)))"
    unfolding d t by simp_all
qed

lemma length_put_le16 [simp]: "length (put_le16 w) = 2"
  by (simp add: put_le16_def)

lemma length_put_be16 [simp]: "length (put_be16 w) = 2"
  by (simp add: put_be16_def)

lemma length_put_le32 [simp]: "length (put_le32 w) = 4"
  by (simp add: put_le32_def)

lemma join_le16_split [simp, codec_simps]:
  "join_le16 (ucast (w :: u16)) (ucast (drop_bit 8 w)) = w"
  by (rule bit_word_eqI) (auto simp: join_le16_def bit_simps)

lemma join_le32_split [simp, codec_simps]:
  "join_le32 (ucast (w :: u32)) (ucast (drop_bit 8 w)) (ucast (drop_bit 16 w))
     (ucast (drop_bit 24 w)) = w"
proof (rule bit_word_eqI)
  fix n assume "n < LENGTH(32)"
  then consider "n < 8" | "8 \<le> n" "n < 16" | "16 \<le> n" "n < 24" | "24 \<le> n" "n < 32"
    by force
  then show "bit (join_le32 (ucast w) (ucast (drop_bit 8 w)) (ucast (drop_bit 16 w))
     (ucast (drop_bit 24 w))) n = bit w n"
    by cases (auto simp: join_le32_def bit_simps)
qed

lemma split_join_le16 [simp, codec_simps]: "put_le16 (join_le16 a b) = [a, b]"
proof -
  have "ucast (join_le16 a b) = a"
    by (rule bit_word_eqI) (auto simp: join_le16_def bit_simps)
  moreover have "ucast (drop_bit 8 (join_le16 a b)) = b"
    by (rule bit_word_eqI) (auto simp: join_le16_def bit_simps dest: bit_imp_le_length)
  ultimately show ?thesis by (simp add: put_le16_def)
qed

lemma split_join_be16 [simp, codec_simps]: "put_be16 (join_le16 a b) = [b, a]"
  using split_join_le16 [of a b] by (simp add: put_be16_def put_le16_def)

lemma split_join_le32 [simp, codec_simps]: "put_le32 (join_le32 a b c d) = [a, b, c, d]"
proof -
  have "ucast (join_le32 a b c d) = a"
    by (rule bit_word_eqI) (auto simp: join_le32_def bit_simps)
  moreover have "ucast (drop_bit 8 (join_le32 a b c d)) = b"
    by (rule bit_word_eqI) (auto simp: join_le32_def bit_simps dest: bit_imp_le_length)
  moreover have "ucast (drop_bit 16 (join_le32 a b c d)) = c"
    by (rule bit_word_eqI) (auto simp: join_le32_def bit_simps dest: bit_imp_le_length)
  moreover have "ucast (drop_bit 24 (join_le32 a b c d)) = d"
    by (rule bit_word_eqI) (auto simp: join_le32_def bit_simps dest: bit_imp_le_length)
  ultimately show ?thesis by (simp add: put_le32_def)
qed

lemma le16_put [simp, codec_simps]: "le16 (put_le16 w @ rest) = Ret w"
  by (simp add: put_le16_def)

lemma be16_put [simp, codec_simps]: "be16 (put_be16 w @ rest) = Ret w"
  by (simp add: put_be16_def)

lemma le32_put [simp, codec_simps]: "le32 (put_le32 w @ rest) = Ret w"
  by (simp add: put_le32_def)

lemma unat_join_le16: "unat (join_le16 a b) = unat a + 256 * unat b"
proof -
  have "join_le16 a b = ucast a + push_bit 8 (ucast b)"
    unfolding join_le16_def
    by (rule disjunctive_add [symmetric]) (auto simp: bit_simps dest: bit_imp_le_length)
  moreover have ab: "unat a < 256" "unat b < 256"
    using unsigned_less [of a] unsigned_less [of b] by simp_all
  moreover have "unat (ucast a :: u16) = unat a" "unat (ucast b :: u16) = unat b"
    using ab by (simp_all add: unsigned_ucast_eq take_bit_nat_eq_self_iff)
  ultimately show ?thesis
    by (simp add: unat_word_ariths push_bit_eq_mult)
qed

lemma unat_byte_lt [simp]: "unat (b :: byte) < 256"
  using unsigned_less [of b] by simp

lemma unat_ucast_byte [simp]:
  "unat (ucast (b :: byte) :: u16) = unat b" "unat (ucast (b :: byte) :: u32) = unat b"
  using unat_byte_lt [of b]
  by (simp_all add: unsigned_ucast_eq take_bit_nat_eq_self_iff del: unat_byte_lt)

lemma ucast_byte_eq_0_iff [simp]:
  "(ucast (b :: byte) :: u16) = 0 \<longleftrightarrow> b = 0" "(ucast (b :: byte) :: u32) = 0 \<longleftrightarrow> b = 0"
  by (simp_all add: word_unat_eq_iff [of "ucast b"] flip: unat_eq_zero)

lemma unat_byte_le: "unat (b :: byte) \<le> 255"
  using unat_byte_lt [of b] by linarith

lemma unat_of_nat_byte: "n < 256 \<Longrightarrow> unat (of_nat n :: byte) = n"
  by (simp add: unat_of_nat take_bit_nat_eq_self_iff)

lemma unat_of_nat_u16: "n < 65536 \<Longrightarrow> unat (of_nat n :: u16) = n"
  by (simp add: unat_of_nat take_bit_nat_eq_self_iff)

lemma unat_of_nat_u32: "n < 2 ^ 32 \<Longrightarrow> unat (of_nat n :: u32) = n"
  by (simp add: unat_of_nat take_bit_nat_eq_self_iff)

lemma unat_u16_lt [simp]: "unat (w :: u16) < 65536"
  using unsigned_less [of w] by simp

lemma unat_u32_lt [simp]: "unat (w :: u32) < 4294967296"
  using unsigned_less [of w] by simp

lemma length_le_1: "length xs = Suc 0 \<longleftrightarrow> (\<exists>x. xs = [x])"
  by (cases xs) auto

lemma take_snoc_nth: "length xs = Suc n \<Longrightarrow> take n xs @ [xs ! n] = xs"
  by (metis lessI order_refl take_Suc_conv_app_nth take_all)

lemma nat_and_0x7F: "(n :: nat) AND 0x7F = n mod 128"
proof -
  have "n AND mask 7 = n mod 2 ^ 7" by (simp add: take_bit_eq_mod flip: take_bit_eq_mask)
  then show ?thesis by (simp add: mask_eq_exp_minus_1)
qed

lemma nat_and_0x80_eq_0: "n < 256 \<Longrightarrow> (n :: nat) AND 0x80 = 0 \<longleftrightarrow> n < 128"
proof -
  assume n: "n < 256"
  have "(128 :: nat) = 2 ^ 7" by simp
  then have "n AND 0x80 = 0 \<longleftrightarrow> \<not> bit n 7"
    by (simp only: and_exp_eq_0_iff_not_bit)
  also have "\<dots> \<longleftrightarrow> n < 128"
    using n by (cases "n < 128") (auto simp: bit_iff_odd div_nat_eqI [where q = 1])
  finally show ?thesis .
qed

lemma nat_push8_or: "x < 256 \<Longrightarrow> push_bit 8 (l :: nat) OR x = l * 256 + x"
proof -
  assume x: "x < 256"
  have "\<not> bit x n" if "8 \<le> n" for n
  proof -
    have "x < 2 ^ n" using x power_increasing [OF that, of "2 :: nat"] by simp
    then show ?thesis by (simp add: bit_iff_odd)
  qed
  then have "push_bit 8 l OR x = push_bit 8 l + x"
    by (intro disjunctive_add [symmetric]) (auto simp: bit_simps)
  then show ?thesis by (simp add: push_bit_eq_mult)
qed

text \<open>\<open>binary.LittleEndian.Uint32(data[k:k+4])\<close> and its value inside the slice.\<close>

definition u32_at :: "bytes \<Rightarrow> nat \<Rightarrow> ('e, u32) outcome" where
  "u32_at data k = bind (subslice data k (k + 4)) le32"

definition rd32 :: "bytes \<Rightarrow> nat \<Rightarrow> u32" where
  "rd32 data k = join_le32 (data ! k) (data ! (k + 1)) (data ! (k + 2)) (data ! (k + 3))"

lemma u32_at_in [go_simps]: "k + 4 \<le> length data \<Longrightarrow> u32_at data k = Ret (rd32 data k)"
  using le32_take_drop(1) [of 4 k data] by (simp add: u32_at_def subslice_def rd32_def)

lemma rd32_skip [codec_simps]: "length xs \<le> k \<Longrightarrow> rd32 (xs @ ys) k = rd32 ys (k - length xs)"
  by (simp add: rd32_def nth_append Suc_diff_le)

lemma rd32_put [codec_simps]: "rd32 (put_le32 w @ ys) 0 = w" "rd32 (put_le32 w) 0 = w"
  by (simp_all add: rd32_def put_le32_def)

lemma drop_rd32: "k + 4 \<le> length data \<Longrightarrow> drop k data = put_le32 (rd32 data k) @ drop (k + 4) data"
proof -
  assume "k + 4 \<le> length data"
  then have "drop k data = data ! k # data ! (k + 1) # data ! (k + 2) # data ! (k + 3) # drop (k + 4) data"
    by (simp add: Cons_nth_drop_Suc numeral_nat)
  then show ?thesis by (simp add: rd32_def)
qed

section \<open>Reading a finite stream\<close>

text \<open>
  \<open>read_full n s\<close> is \<open>io.ReadFull\<close> into a buffer of \<open>n\<close> bytes from a reader whose remaining
  bytes are \<open>s\<close> and which then reports \<open>io.EOF\<close>: the bytes read, the rest of the stream,
  and the error (\<open>EOF\<close> when nothing was read, \<open>ErrUnexpectedEOF\<close> when the stream ended
  inside the buffer).
\<close>

datatype io_error = EOF | ErrUnexpectedEOF

definition read_full :: "nat \<Rightarrow> bytes \<Rightarrow> bytes \<times> bytes \<times> io_error option" where
  "read_full n s =
     (if n \<le> length s then (take n s, drop n s, None)
      else if s = [] then ([], [], Some EOF)
      else (s, [], Some ErrUnexpectedEOF))"

lemma read_full_append [simp]:
  "length xs = n \<Longrightarrow> read_full n (xs @ rest) = (xs, rest, None)"
  by (simp add: read_full_def)

lemma read_full_None:
  "read_full n s = (xs, rest, None) \<longleftrightarrow> s = xs @ rest \<and> length xs = n"
  by (auto simp: read_full_def split: if_splits)

section \<open>Writers\<close>

text \<open>
  An \<open>io.Writer\<close> is a function on the state of the sink: it is given a buffer and returns
  the new state, the byte count it reports and an error. The locale states the contract of
  \<open>io.Writer\<close> (the count is within the buffer, exactly that prefix has reached the sink, a
  short count comes with an error).
\<close>

type_synonym ('w, 'x) go_writer = "'w \<Rightarrow> bytes \<Rightarrow> 'w \<times> int \<times> 'x option"

datatype 'x write_error = WriterError 'x | InvalidWriteCount int nat | ErrShortWrite

locale io_writer =
  fixes wr :: "('w, 'x) go_writer"
    and sink :: "'w \<Rightarrow> bytes"
  assumes count_nonneg: "wr s p = (s', n, e) \<Longrightarrow> 0 \<le> n"
    and count_le: "wr s p = (s', n, e) \<Longrightarrow> n \<le> int (length p)"
    and sink_write: "wr s p = (s', n, e) \<Longrightarrow> sink s' = sink s @ take (nat n) p"
    and short_error: "wr s p = (s', n, e) \<Longrightarrow> n < int (length p) \<Longrightarrow> e \<noteq> None"

text \<open>\<open>bytes.Buffer\<close>: a writer that always takes the whole buffer.\<close>

definition buffer_write :: "(bytes, unit) go_writer" where
  "buffer_write s p = (s @ p, int (length p), None)"

interpretation buffer: io_writer buffer_write "\<lambda>s. s"
  by unfold_locales (auto simp: buffer_write_def)

section \<open>Self-delimiting items and sequences of them\<close>

text \<open>
  The contract between an item codec and the loop that decodes a sequence of items: an
  emitted item is consumed exactly, whatever follows it, and the sequence decoder peels one
  item at a time. The QMI and the BER TLV sequences are both instances.
\<close>

locale item_sequence =
  fixes emit :: "'a \<Rightarrow> bytes"
    and consume :: "bytes \<Rightarrow> ('e, 'a \<times> nat) outcome"
    and valid :: "'a \<Rightarrow> bool"
    and parse :: "bytes \<Rightarrow> ('e, 'a list) outcome"
  assumes consume_emit: "valid x \<Longrightarrow> consume (emit x @ rest) = Ret (x, length (emit x))"
    and emit_nonempty: "valid x \<Longrightarrow> emit x \<noteq> []"
    and parse_Nil: "parse [] = Ret []"
    and parse_step: "bs \<noteq> [] \<Longrightarrow>
          parse bs = bind (consume bs) (\<lambda>(x, n). bind (parse (drop n bs)) (\<lambda>xs. Ret (x # xs)))"
begin

lemma parse_emit_append:
  assumes "list_all valid xs"
  shows "parse (concat (map emit xs) @ rest) = bind (parse rest) (\<lambda>ys. Ret (xs @ ys))"
  using assms
proof (induction xs)
  case Nil
  then show ?case by (cases "parse rest") simp_all
next
  case (Cons x xs)
  then have "emit x \<noteq> []" and c: "consume (emit x @ concat (map emit xs) @ rest) = Ret (x, length (emit x))"
    by (simp_all add: emit_nonempty consume_emit)
  with Cons show ?case
    by (cases "parse rest") (simp_all add: parse_step [of "emit x @ concat (map emit xs) @ rest"])
qed

lemma parse_emit: "list_all valid xs \<Longrightarrow> parse (concat (map emit xs)) = Ret xs"
  using parse_emit_append [of xs "[]"] by (simp add: parse_Nil)

lemma emit_inj:
  assumes "list_all valid xs" "list_all valid ys"
    and "concat (map emit xs) = concat (map emit ys)"
  shows "xs = ys"
  using assms by (metis outcome.inject(1) parse_emit)

end

text \<open>A decoder whose accepted inputs are exactly the encodings: no two byte strings mean the same.\<close>

locale canonical_item_sequence = item_sequence +
  assumes consume_canonical:
    "consume bs = Ret (x, n) \<Longrightarrow> valid x \<and> n \<le> length bs \<and> emit x = take n bs"
begin

lemma parse_canonical: "parse bs = Ret xs \<Longrightarrow> list_all valid xs \<and> concat (map emit xs) = bs"
proof (induction xs arbitrary: bs)
  case Nil
  then show ?case
    by (cases "bs = []") (auto simp: parse_step)
next
  case (Cons x xs)
  then have "bs \<noteq> []" by (auto simp: parse_Nil)
  with Cons.prems obtain n where c: "consume bs = Ret (x, n)" and r: "parse (drop n bs) = Ret xs"
    by (auto simp: parse_step)
  from Cons.IH [OF r] consume_canonical [OF c] show ?case by simp
qed

lemma parse_iff: "parse bs = Ret xs \<longleftrightarrow> list_all valid xs \<and> concat (map emit xs) = bs"
  using parse_canonical parse_emit by blast

end

section \<open>Nibbles\<close>

lemma and_mask_small: "unat (x :: byte) < 2 ^ n \<Longrightarrow> x AND mask n = x"
proof -
  assume "unat x < 2 ^ n"
  then have "take_bit n x = x" by (simp add: word_unat_eq_iff take_bit_nat_eq_self_iff unsigned_take_bit_eq)
  then show ?thesis by (simp add: take_bit_eq_mask)
qed

lemma nibble_pair:
  assumes "a AND mask 4 = a" "b AND mask 4 = (b :: byte)"
  shows "(a OR push_bit 4 b) AND 0x0F = a" "drop_bit 4 (a OR push_bit 4 b) AND 0x0F = b"
proof -
  have m: "(0x0F :: byte) = mask 4" by (simp add: mask_eq_exp_minus_1)
  have a: "bit a n \<Longrightarrow> n < 4" for n using arg_cong [OF assms(1), of "\<lambda>x. bit x n"] by (simp add: bit_simps)
  have b: "bit b n \<Longrightarrow> n < 4" for n using arg_cong [OF assms(2), of "\<lambda>x. bit x n"] by (simp add: bit_simps)
  show "(a OR push_bit 4 b) AND 0x0F = a" unfolding m
    by (rule bit_word_eqI) (auto simp: bit_simps dest: a)
  show "drop_bit 4 (a OR push_bit 4 b) AND 0x0F = b" unfolding m
    by (rule bit_word_eqI) (auto simp: bit_simps dest: a b)
qed

lemma nibble_join:
  assumes "a AND mask 4 = a" "b AND mask 4 = (b :: byte)"
  shows "(push_bit 4 b OR a) AND 0x0F = a" "drop_bit 4 (push_bit 4 b OR a) = b"
proof -
  have a: "bit a n \<Longrightarrow> n < 4" for n using arg_cong [OF assms(1), of "\<lambda>x. bit x n"] by (simp add: bit_simps)
  have b: "bit b n \<Longrightarrow> n < 4" for n using arg_cong [OF assms(2), of "\<lambda>x. bit x n"] by (simp add: bit_simps)
  show "(push_bit 4 b OR a) AND 0x0F = a" using nibble_pair(1) [OF assms] by (simp add: or.commute)
  show "drop_bit 4 (push_bit 4 b OR a) = b"
    by (rule bit_word_eqI) (auto simp: bit_simps dest: a b)
qed

end
