(* ===== verification/Apdu.thy ===== *)
theory Apdu
  imports Prelude
begin

text \<open>
  APDU requests and responses (\<^verbatim>\<open>apdu/request.go\<close>, \<^verbatim>\<open>apdu/response.go\<close>): the
  ISO 7816 short command layout, its decoder, and the status-word accessors of a response.
  A Go byte slice is a list: a nil slice and an empty one are not told apart.
\<close>

section \<open>Requests\<close>

record Request =
  CLA :: byte
  INS :: byte
  P1 :: byte
  P2 :: byte
  Data :: bytes
  Le :: "byte option"

datatype 'x request_write_error = DataTooLong nat | SinkError 'x | SinkShortWrite

datatype request_error = RequestTooShort nat | RequestTruncated nat nat | RequestTrailing nat

definition maxShortCommandData :: nat where
  "maxShortCommandData = 255"

text \<open>The bytes that \<open>WriteTo\<close> collects in its buffer.\<close>

definition request_buffer :: "Request \<Rightarrow> bytes" where
  "request_buffer r =
     [CLA r, INS r, P1 r, P2 r]
     @ (if length (Data r) > 0 then of_nat (length (Data r)) # Data r else [])
     @ (case Le r of Some le \<Rightarrow> [le] | None \<Rightarrow> [])"

text \<open>
  \<open>bytes.Buffer.WriteTo\<close>: one \<open>Write\<close> of the whole buffer; a count beyond the buffer
  panics, a short count without an error is \<open>io.ErrShortWrite\<close>.
\<close>

definition buffer_WriteTo ::
  "('w, 'x) go_writer \<Rightarrow> bytes \<Rightarrow> 'w \<Rightarrow> ('f, 'w \<times> int \<times> 'x request_write_error option) outcome" where
  "buffer_WriteTo w buf s =
     (if buf = [] then Ret (s, 0, None)
      else case w s buf of (s', n, e) \<Rightarrow>
        if n > int (length buf) then Panic
        else Ret (s', n,
          (case e of Some x \<Rightarrow> Some (SinkError x)
           | None \<Rightarrow> if n \<noteq> int (length buf) then Some SinkShortWrite else None)))"

definition request_WriteTo ::
  "('w, 'x) go_writer \<Rightarrow> Request \<Rightarrow> 'w \<Rightarrow> ('f, 'w \<times> int \<times> 'x request_write_error option) outcome" where
  "request_WriteTo w r s =
     (if length (Data r) > maxShortCommandData then Ret (s, 0, Some (DataTooLong (length (Data r))))
      else buffer_WriteTo w (request_buffer r) s)"

definition request_MarshalBinary :: "Request \<Rightarrow> (unit request_write_error, bytes) outcome" where
  "request_MarshalBinary r =
     bind (request_WriteTo buffer_write r [])
       (\<lambda>(apdu, n, e). case e of Some err \<Rightarrow> Fail err | None \<Rightarrow> Ret apdu)"

definition request_UnmarshalBinary :: "bytes \<Rightarrow> (request_error, Request) outcome" where
  "request_UnmarshalBinary data =
     fail_if (length data < 4) (RequestTooShort (length data))
       (bind (index data 0) (\<lambda>cla. bind (index data 1) (\<lambda>ins.
        bind (index data 2) (\<lambda>p1. bind (index data 3) (\<lambda>p2.
        bind (subslice data 4 (length data)) (\<lambda>rest.
          let r = \<lparr>CLA = cla, INS = ins, P1 = p1, P2 = p2, Data = [], Le = None\<rparr>
          in if length rest = 0 then Ret r
             else if length rest = 1 then bind (index rest 0) (\<lambda>le. Ret (r\<lparr>Le := Some le\<rparr>))
             else bind (index rest 0) (\<lambda>b. let len = unat b in
               fail_if (length rest < 1 + len) (RequestTruncated (1 + len) (length rest))
                 (bind (subslice rest 1 (1 + len)) (\<lambda>d.
                    if length rest = 1 + len then Ret (r\<lparr>Data := d\<rparr>)
                    else if length rest = 2 + len
                    then bind (index rest (1 + len)) (\<lambda>le. Ret (r\<lparr>Data := d, Le := Some le\<rparr>))
                    else Fail (RequestTrailing (length rest - (1 + len))))))))))))"

text \<open>\<open>Bytes\<close> (and its alias \<open>APDU\<close>): nil when the request cannot be encoded.\<close>

definition request_Bytes :: "Request \<Rightarrow> bytes" where
  "request_Bytes r = (case request_MarshalBinary r of Ret d \<Rightarrow> d | _ \<Rightarrow> [])"

section \<open>Responses\<close>

type_synonym Response = bytes

definition response_Data :: "Response \<Rightarrow> bytes" where
  "response_Data r = (if length r < 2 then [] else take (length r - 2) r)"

definition response_SW :: "Response \<Rightarrow> (unit, u16) outcome" where
  "response_SW r =
     (if length r < 2 then Ret 0 else bind (subslice r (length r - 2) (length r)) be16)"

definition response_SW1 :: "Response \<Rightarrow> (unit, byte) outcome" where
  "response_SW1 r = (if length r < 2 then Ret 0 else index r (length r - 2))"

definition response_SW2 :: "Response \<Rightarrow> (unit, byte) outcome" where
  "response_SW2 r = (if length r < 2 then Ret 0 else index r (length r - 1))"

definition response_OK :: "Response \<Rightarrow> bool" where
  "response_OK r \<longleftrightarrow> response_SW r = Ret 0x9000"

definition response_HasMore :: "Response \<Rightarrow> bool" where
  "response_HasMore r \<longleftrightarrow> response_SW1 r = Ret 0x61"

definition response_WriteTo ::
  "('w, 'x) go_writer \<Rightarrow> Response \<Rightarrow> 'w \<Rightarrow> 'w \<times> int \<times> 'x request_write_error option" where
  "response_WriteTo w r s =
     (case w s r of (s', n, e) \<Rightarrow>
        (s', n, (case e of Some x \<Rightarrow> Some (SinkError x)
                 | None \<Rightarrow> if n \<noteq> int (length r) then Some SinkShortWrite else None)))"

section \<open>Lemmas\<close>

lemma length_request_buffer:
  "length (request_buffer r) =
     4 + (if Data r = [] then 0 else 1 + length (Data r)) + (if Le r = None then 0 else 1)"
  by (auto simp: request_buffer_def split: option.splits)

lemma request_buffer_nonempty [simp]: "request_buffer r \<noteq> []"
  by (simp add: request_buffer_def)

lemma buffer_WriteTo_buffer:
  "buf \<noteq> [] \<Longrightarrow> buffer_WriteTo buffer_write buf s = Ret (s @ buf, int (length buf), None)"
  by (simp add: buffer_WriteTo_def buffer_write_def)

lemma request_MarshalBinary_eq:
  "request_MarshalBinary r =
     (if length (Data r) > 255 then Fail (DataTooLong (length (Data r))) else Ret (request_buffer r))"
  by (simp add: request_MarshalBinary_def request_WriteTo_def maxShortCommandData_def
      buffer_WriteTo_buffer)

text \<open>
  The decoder, with the reads evaluated: what remains of the code is its case split on the
  length of the body.
\<close>

lemma request_UnmarshalBinary_Cons4:
  "request_UnmarshalBinary (c # i # p # q # rest) =
     (let r = \<lparr>CLA = c, INS = i, P1 = p, P2 = q, Data = [], Le = None\<rparr>
      in case rest of
           [] \<Rightarrow> Ret r
         | [le] \<Rightarrow> Ret (r\<lparr>Le := Some le\<rparr>)
         | b # body \<Rightarrow>
             if length body < unat b then Fail (RequestTruncated (1 + unat b) (1 + length body))
             else if length body = unat b then Ret (r\<lparr>Data := take (unat b) body\<rparr>)
             else if length body = 1 + unat b
             then Ret (r\<lparr>Data := take (unat b) body, Le := Some (body ! unat b)\<rparr>)
             else Fail (RequestTrailing (length body - unat b)))"
  by (auto simp: request_UnmarshalBinary_def subslice_def index_def Let_def numeral_nat fail_if_def
      split: list.splits)

lemma request_UnmarshalBinary_body:
  "body \<noteq> [] \<Longrightarrow>
   request_UnmarshalBinary (c # i # p # q # b # body) =
     (if length body < unat b then Fail (RequestTruncated (1 + unat b) (1 + length body))
      else if length body = unat b
      then Ret \<lparr>CLA = c, INS = i, P1 = p, P2 = q, Data = body, Le = None\<rparr>
      else if length body = 1 + unat b
      then Ret \<lparr>CLA = c, INS = i, P1 = p, P2 = q, Data = take (unat b) body, Le = Some (body ! unat b)\<rparr>
      else Fail (RequestTrailing (length body - unat b)))"
  by (cases body) (simp_all add: request_UnmarshalBinary_Cons4 Let_def)

lemma request_UnmarshalBinary_short:
  "length data < 4 \<Longrightarrow> request_UnmarshalBinary data = Fail (RequestTooShort (length data))"
  by (simp add: request_UnmarshalBinary_def)

lemma list_ge4: "4 \<le> length xs \<Longrightarrow> \<exists>a b c d rest. xs = a # b # c # d # rest"
  by (auto simp: numeral_nat Suc_le_length_iff)

lemma request_UnmarshalBinary_buffer:
  assumes "length (Data r) \<le> 255"
  shows "request_UnmarshalBinary (request_buffer r) = Ret r"
proof -
  have "unat (of_nat (length (Data r)) :: byte) = length (Data r)"
    using assms by (simp add: unat_of_nat_byte)
  then show ?thesis
    by (cases r; cases "Data r"; cases "Le r")
       (auto simp: request_buffer_def request_UnmarshalBinary_Cons4 Let_def split: list.splits)
qed

lemma request_UnmarshalBinary_no_panic: "request_UnmarshalBinary data \<noteq> Panic"
proof (cases "length data < 4")
  case True
  then show ?thesis by (simp add: request_UnmarshalBinary_short)
next
  case False
  then obtain a b c d rest where "data = a # b # c # d # rest"
    using list_ge4 [of data] by auto
  then show ?thesis
    by (auto simp: request_UnmarshalBinary_Cons4 Let_def split: list.splits)
qed

section \<open>Properties\<close>

text \<open>Encoding a request whose data fits a short command succeeds with between 4 and 261
  bytes, and decoding those bytes gives back the very same request, for every combination of
  present and absent data and expected length.\<close>

theorem request_roundtrip:
  assumes "length (Data r) \<le> 255"
  shows "\<exists>bs. request_MarshalBinary r = Ret bs \<and> request_UnmarshalBinary bs = Ret r
           \<and> 4 \<le> length bs \<and> length bs \<le> 261"
proof (intro exI conjI)
  show "request_MarshalBinary r = Ret (request_buffer r)"
    using assms by (simp add: request_MarshalBinary_eq)
  show "request_UnmarshalBinary (request_buffer r) = Ret r"
    using assms by (rule request_UnmarshalBinary_buffer)
  show "4 \<le> length (request_buffer r)" "length (request_buffer r) \<le> 261"
    using assms by (simp_all add: length_request_buffer)
qed

theorem request_roundtrip_witness:
  "\<exists>bs. request_MarshalBinary \<lparr>CLA = 0, INS = 0xA4, P1 = 0, P2 = 4, Data = [0x3F, 0], Le = Some 0x10\<rparr> = Ret bs
     \<and> request_UnmarshalBinary bs
         = Ret \<lparr>CLA = 0, INS = 0xA4, P1 = 0, P2 = 4, Data = [0x3F, 0], Le = Some 0x10\<rparr>
     \<and> 4 \<le> length bs \<and> length bs \<le> 261"
  by (rule request_roundtrip) simp

text \<open>The request decoder is total and sound: on every byte string it returns a value or an
  error and never panics, and what it accepts re-encodes to the same bytes, with one
  exception, an explicit zero data length, which the encoder leaves out.\<close>

theorem request_UnmarshalBinary_sound:
  "request_UnmarshalBinary bs \<noteq> Panic
   \<and> (request_UnmarshalBinary bs = Ret r \<longrightarrow>
        request_MarshalBinary r = Ret bs
        \<or> (\<exists>body. bs = take 4 bs @ 0 # body \<and> length body \<le> 1
             \<and> Data r = [] \<and> request_MarshalBinary r = Ret (take 4 bs @ body)))"
proof (intro conjI impI)
  show "request_UnmarshalBinary bs \<noteq> Panic" by (rule request_UnmarshalBinary_no_panic)
  assume a: "request_UnmarshalBinary bs = Ret r"
  then have "4 \<le> length bs"
    by (cases "length bs < 4") (simp_all add: request_UnmarshalBinary_short)
  then obtain c i p q rest where bs: "bs = c # i # p # q # rest"
    using list_ge4 by blast
  show "request_MarshalBinary r = Ret bs
        \<or> (\<exists>body. bs = take 4 bs @ 0 # body \<and> length body \<le> 1
             \<and> Data r = [] \<and> request_MarshalBinary r = Ret (take 4 bs @ body))"
  proof (cases rest)
    case Nil
    with a bs show ?thesis
      by (auto simp: request_UnmarshalBinary_Cons4 request_MarshalBinary_eq request_buffer_def)
  next
    case (Cons b body)
    have b255: "unat b \<le> 255" using unat_byte_lt [of b] by linarith
    consider "body = []" | "b = 0" "body \<noteq> []" | "b \<noteq> 0" "body \<noteq> []" by blast
    then show ?thesis
    proof cases
      case 3
      then have "unat b \<noteq> 0" by (simp add: unat_eq_zero)
      with 3 a bs Cons b255 have "request_MarshalBinary r = Ret bs"
        by (auto simp: request_UnmarshalBinary_body request_MarshalBinary_eq request_buffer_def
            min_def take_snoc_nth split: if_splits)
      then show ?thesis ..
    qed (use a bs Cons in \<open>auto simp: request_UnmarshalBinary_Cons4 request_MarshalBinary_eq
          request_buffer_def Let_def length_Suc_conv split: list.splits if_splits\<close>)
  qed
qed

theorem request_UnmarshalBinary_sound_witness:
  "request_MarshalBinary \<lparr>CLA = 0, INS = 0xB0, P1 = 0, P2 = 0x20, Data = [], Le = Some 0x10\<rparr>
     = Ret [0, 0xB0, 0, 0x20, 0, 0x10]
   \<or> (\<exists>body. [0, 0xB0, 0, 0x20, 0, 0x10] = take 4 [0, 0xB0, 0, 0x20, 0, 0x10] @ 0 # body
        \<and> request_MarshalBinary \<lparr>CLA = 0, INS = 0xB0, P1 = 0, P2 = 0x20, Data = [], Le = Some 0x10\<rparr>
            = Ret (take 4 [0, 0xB0, 0, 0x20, 0, 0x10] @ body))"
  using request_UnmarshalBinary_sound
    [of "[0, 0xB0, 0, 0x20, 0, 0x10]"
        "\<lparr>CLA = 0, INS = 0xB0, P1 = 0, P2 = 0x20, Data = [], Le = Some 0x10\<rparr>"]
  by (auto simp: request_UnmarshalBinary_Cons4)

end
