(* ===== verification/Qmi_Tlv.thy ===== *)
theory Qmi_Tlv
  imports Prelude
begin

text \<open>
  QMI type-length-value items (\<^verbatim>\<open>qcom/tlv/tlv.go\<close>, \<^verbatim>\<open>qcom/tlv/wire.go\<close>): the two decoders
  (from a stream and from a byte slice), the encoder over an arbitrary \<open>io.Writer\<close>, the
  constructors and the lookup. The slice decoder is shown to accept exactly the encodings of
  well-formed items, through the canonical item sequence interface of the prelude.
\<close>

section \<open>Data\<close>

record TLV =
  tlv_Type :: byte
  tlv_Len :: u16
  tlv_Value :: bytes

type_synonym TLVs = "TLV list"

datatype tlv_error =
    TruncatedTLVHeader
  | TruncatedTLVValue
  | ReadTLVType io_error
  | ReadTLVLength io_error
  | ReadTLVValue io_error

datatype 'x tlv_write_error =
    LengthMismatch byte u16 nat
  | WriteTLVType 'x
  | WriteTLVLength 'x
  | WriteTLVValue 'x
  | TLVShortWrite

section \<open>Stream codec\<close>

text \<open>\<open>ReadFrom\<close>: the items read so far, the count of bytes read, the rest of the stream.\<close>

function tlvs_ReadFrom_loop :: "TLVs \<Rightarrow> nat \<Rightarrow> bytes \<Rightarrow> nat \<times> (tlv_error, TLVs) outcome" where
  "tlvs_ReadFrom_loop items count s =
     (case read_full 1 s of
        (t, s1, Some EOF) \<Rightarrow> (count, Ret items)
      | (t, s1, Some e) \<Rightarrow> (count, Fail (ReadTLVType e))
      | (t, s1, None) \<Rightarrow>
          (case read_full 2 s1 of
             (l, s2, Some e) \<Rightarrow> (count + 1, Fail (ReadTLVLength e))
           | (l, s2, None) \<Rightarrow>
               (case (hd t, join_le16 (l ! 0) (l ! 1)) of (typ, n) \<Rightarrow>
                 (case read_full (unat n) s2 of
                    (v, s3, Some e) \<Rightarrow> (count + 3 + length v, Fail (ReadTLVValue e))
                  | (v, s3, None) \<Rightarrow>
                      tlvs_ReadFrom_loop
                        (items @ [\<lparr>tlv_Type = typ, tlv_Len = n, tlv_Value = v\<rparr>])
                        (count + 3 + length v) s3))))"
  by pat_completeness auto
termination
  by (relation "measure (\<lambda>(items, count, s). length s)")
     (auto simp: read_full_def split: if_splits)

definition tlvs_ReadFrom :: "bytes \<Rightarrow> nat \<times> (tlv_error, TLVs) outcome" where
  "tlvs_ReadFrom s = tlvs_ReadFrom_loop [] 0 s"

fun tlvs_WriteTo ::
  "('w, 'x) go_writer \<Rightarrow> TLVs \<Rightarrow> 'w \<Rightarrow> int \<Rightarrow> 'w \<times> int \<times> 'x tlv_write_error option" where
  "tlvs_WriteTo w [] s written = (s, written, None)"
| "tlvs_WriteTo w (t # ts) s written =
     (if unat (tlv_Len t) \<noteq> length (tlv_Value t)
      then (s, written, Some (LengthMismatch (tlv_Type t) (tlv_Len t) (length (tlv_Value t))))
      else case w s [tlv_Type t] of
        (s1, _, Some x) \<Rightarrow> (s1, written, Some (WriteTLVType x))
      | (s1, _, None) \<Rightarrow>
          (case w s1 (put_le16 (tlv_Len t)) of
             (s2, _, Some x) \<Rightarrow> (s2, written + 1, Some (WriteTLVLength x))
           | (s2, _, None) \<Rightarrow>
               (case w s2 (tlv_Value t) of
                  (s3, n, Some x) \<Rightarrow> (s3, written + 3 + n, Some (WriteTLVValue x))
                | (s3, n, None) \<Rightarrow>
                    if n \<noteq> int (length (tlv_Value t))
                    then (s3, written + 3 + n, Some TLVShortWrite)
                    else tlvs_WriteTo w ts s3 (written + 3 + n))))"

section \<open>Slice codec\<close>

function tlvs_UnmarshalBinary_loop :: "TLVs \<Rightarrow> bytes \<Rightarrow> (tlv_error, TLVs) outcome" where
  "tlvs_UnmarshalBinary_loop items data =
     (if length data = 0 then Ret items
      else fail_if (length data < 3) TruncatedTLVHeader
        (bind (bind (subslice data 1 3) le16) (\<lambda>w.
           let len = unat w in
           fail_if (length data < 3 + len) TruncatedTLVValue
             (bind (index data 0) (\<lambda>t.
              bind (subslice data 3 (3 + len)) (\<lambda>v.
              bind (subslice data (3 + len) (length data)) (\<lambda>rest.
                tlvs_UnmarshalBinary_loop
                  (items @ [\<lparr>tlv_Type = t, tlv_Len = of_nat len, tlv_Value = v\<rparr>]) rest)))))))"
  by pat_completeness auto
termination
  by (relation "measure (\<lambda>(items, data). length data)") (auto simp: subslice_eq_Ret_iff)

definition tlvs_UnmarshalBinary :: "bytes \<Rightarrow> (tlv_error, TLVs) outcome" where
  "tlvs_UnmarshalBinary data = tlvs_UnmarshalBinary_loop [] data"

definition tlvs_MarshalBinary :: "TLVs \<Rightarrow> (unit tlv_write_error, bytes) outcome" where
  "tlvs_MarshalBinary ts =
     (case tlvs_WriteTo buffer_write ts [] 0 of
        (buf, _, Some e) \<Rightarrow> Fail e
      | (buf, _, None) \<Rightarrow> Ret buf)"

section \<open>Constructors and lookup\<close>

fun tlvs_Find :: "TLVs \<Rightarrow> byte \<Rightarrow> TLV option" where
  "tlvs_Find [] t = None"
| "tlvs_Find (x # xs) t = (if tlv_Type x = t then Some x else tlvs_Find xs t)"

text \<open>\<open>Bytes\<close>: the length field is \<open>uint16(len(value))\<close>, which wraps.\<close>

definition tlv_Bytes :: "byte \<Rightarrow> bytes \<Rightarrow> TLV" where
  "tlv_Bytes typ value = \<lparr>tlv_Type = typ, tlv_Len = of_nat (length value), tlv_Value = value\<rparr>"

text \<open>\<open>Uint\<close> at its three instances.\<close>

definition tlv_Uint8 :: "byte \<Rightarrow> byte \<Rightarrow> TLV" where
  "tlv_Uint8 typ v = \<lparr>tlv_Type = typ, tlv_Len = of_nat (length [v]), tlv_Value = [v]\<rparr>"

definition tlv_Uint16 :: "byte \<Rightarrow> u16 \<Rightarrow> TLV" where
  "tlv_Uint16 typ v =
     \<lparr>tlv_Type = typ, tlv_Len = of_nat (length (put_le16 v)), tlv_Value = put_le16 v\<rparr>"

definition tlv_Uint32 :: "byte \<Rightarrow> u32 \<Rightarrow> TLV" where
  "tlv_Uint32 typ v =
     \<lparr>tlv_Type = typ, tlv_Len = of_nat (length (put_le32 v)), tlv_Value = put_le32 v\<rparr>"

definition tlv_Value_of :: "TLVs \<Rightarrow> byte \<Rightarrow> bytes option" where
  "tlv_Value_of ts typ = (case tlvs_Find ts typ of None \<Rightarrow> None | Some item \<Rightarrow> Some (tlv_Value item))"

section \<open>The item view of the decoder\<close>

text \<open>One round of the decoding loop, and the bytes of one item: the specification both
  codecs are measured against.\<close>

definition tlv_emit :: "TLV \<Rightarrow> bytes" where
  "tlv_emit t = tlv_Type t # put_le16 (tlv_Len t) @ tlv_Value t"

definition tlv_valid :: "TLV \<Rightarrow> bool" where
  "tlv_valid t \<longleftrightarrow> unat (tlv_Len t) = length (tlv_Value t)"

definition tlv_consume :: "bytes \<Rightarrow> (tlv_error, TLV \<times> nat) outcome" where
  "tlv_consume data =
     fail_if (length data < 3) TruncatedTLVHeader
       (let len = unat (join_le16 (data ! 1) (data ! 2)) in
        fail_if (length data < 3 + len) TruncatedTLVValue
          (Ret (\<lparr>tlv_Type = data ! 0, tlv_Len = of_nat len, tlv_Value = take len (drop 3 data)\<rparr>,
                3 + len)))"

declare tlvs_UnmarshalBinary_loop.simps [simp del] tlvs_ReadFrom_loop.simps [simp del]

lemma length_tlv_emit [simp]: "length (tlv_emit t) = 3 + length (tlv_Value t)"
  by (simp add: tlv_emit_def)

lemma tlvs_UnmarshalBinary_loop_step:
  "data \<noteq> [] \<Longrightarrow> tlvs_UnmarshalBinary_loop items data =
     bind (tlv_consume data) (\<lambda>(x, n). tlvs_UnmarshalBinary_loop (items @ [x]) (drop n data))"
  by (cases "length data < 3")
     (simp_all add: tlvs_UnmarshalBinary_loop.simps [of items data] tlv_consume_def fail_if_def
        Let_def go_simps numeral_nat)

lemma tlv_consume_pos: "tlv_consume data = Ret (x, n) \<Longrightarrow> 0 < n \<and> n \<le> length data"
  by (auto simp: tlv_consume_def Let_def)

lemma tlvs_UnmarshalBinary_loop_acc:
  "tlvs_UnmarshalBinary_loop items data =
     bind (tlvs_UnmarshalBinary_loop [] data) (\<lambda>xs. Ret (items @ xs))"
proof (induction "length data" arbitrary: items data rule: less_induct)
  case less
  show ?case
  proof (cases "data = []")
    case True
    then show ?thesis by (simp add: tlvs_UnmarshalBinary_loop.simps)
  next
    case False
    show ?thesis
    proof (cases "tlv_consume data")
      case (Ret p)
      obtain x n where p: "p = (x, n)" by (cases p)
      with Ret False have "length (drop n data) < length data"
        by (auto dest: tlv_consume_pos)
      from less [OF this] have
        IH: "tlvs_UnmarshalBinary_loop (ys @ [x]) (drop n data)
           = bind (tlvs_UnmarshalBinary_loop [] (drop n data)) (\<lambda>xs. Ret ((ys @ [x]) @ xs))" for ys .
      from False Ret p IH [of items] IH [of "[]"] show ?thesis
        by (cases "tlvs_UnmarshalBinary_loop [] (drop n data)")
           (simp_all add: tlvs_UnmarshalBinary_loop_step)
    qed (use False in \<open>simp_all add: tlvs_UnmarshalBinary_loop_step\<close>)
  qed
qed

interpretation qmi_tlv: canonical_item_sequence tlv_emit tlv_consume tlv_valid tlvs_UnmarshalBinary
proof
  fix x rest assume "tlv_valid x"
  then have "length (tlv_Value x) = unat (tlv_Len x)" by (simp add: tlv_valid_def)
  then show "tlv_consume (tlv_emit x @ rest) = Ret (x, length (tlv_emit x))"
    by (simp add: tlv_consume_def tlv_emit_def put_le16_def fail_if_def Let_def)
next
  fix x show "tlv_emit x \<noteq> []" by (simp add: tlv_emit_def)
next
  show "tlvs_UnmarshalBinary [] = Ret []"
    by (simp add: tlvs_UnmarshalBinary_def tlvs_UnmarshalBinary_loop.simps)
next
  fix bs :: bytes assume "bs \<noteq> []"
  then show "tlvs_UnmarshalBinary bs =
      bind (tlv_consume bs) (\<lambda>(x, n). bind (tlvs_UnmarshalBinary (drop n bs)) (\<lambda>xs. Ret (x # xs)))"
    unfolding tlvs_UnmarshalBinary_def
    by (cases "tlv_consume bs")
       (simp_all add: tlvs_UnmarshalBinary_loop_step tlvs_UnmarshalBinary_loop_acc [of "[_]"]
          split: prod.splits)
next
  fix bs x n assume "tlv_consume bs = Ret (x, n)"
  then show "tlv_valid x \<and> n \<le> length bs \<and> tlv_emit x = take n bs"
    by (auto simp: tlv_consume_def tlv_valid_def tlv_emit_def Let_def not_less numeral_nat
        Suc_le_length_iff)
qed

section \<open>Encoder\<close>

lemma tlvs_WriteTo_buffer:
  "list_all tlv_valid ts \<Longrightarrow>
   tlvs_WriteTo buffer_write ts s c =
     (s @ concat (map tlv_emit ts), c + int (length (concat (map tlv_emit ts))), None)"
  by (induction ts arbitrary: s c)
     (auto simp: buffer_write_def tlv_valid_def tlv_emit_def)

lemma tlvs_WriteTo_buffer_invalid:
  "\<not> list_all tlv_valid ts \<Longrightarrow> \<exists>s' n e. tlvs_WriteTo buffer_write ts s c = (s', n, Some e)"
  by (induction ts arbitrary: s c) (auto simp: buffer_write_def tlv_valid_def)

lemma tlvs_MarshalBinary_eq_Ret_iff:
  "tlvs_MarshalBinary ts = Ret bs \<longleftrightarrow> list_all tlv_valid ts \<and> concat (map tlv_emit ts) = bs"
proof (cases "list_all tlv_valid ts")
  case True
  then show ?thesis by (simp add: tlvs_MarshalBinary_def tlvs_WriteTo_buffer)
next
  case False
  with tlvs_WriteTo_buffer_invalid [of ts "[]" 0] show ?thesis
    by (auto simp: tlvs_MarshalBinary_def)
qed

section \<open>The two decoders agree\<close>

lemma tlv_consume_no_panic [simp]: "tlv_consume data \<noteq> Panic"
  by (simp add: tlv_consume_def Let_def)

lemma tlvs_UnmarshalBinary_no_panic: "tlvs_UnmarshalBinary data \<noteq> Panic"
proof (induction "length data" arbitrary: data rule: less_induct)
  case less
  show ?case
  proof (cases "data = []")
    case True
    then show ?thesis by (simp add: qmi_tlv.parse_Nil)
  next
    case False
    have "tlvs_UnmarshalBinary (drop n data) \<noteq> Panic" if "tlv_consume data = Ret (x, n)" for x n
      using that False by (intro less) (auto dest: tlv_consume_pos)
    with False show ?thesis
      by (auto simp: qmi_tlv.parse_step bind_eq_Panic_iff)
  qed
qed

lemma tlvs_ReadFrom_loop_Nil [simp]: "tlvs_ReadFrom_loop items c [] = (c, Ret items)"
  by (subst tlvs_ReadFrom_loop.simps) (simp add: read_full_def)

text \<open>One round of the stream decoder is one round of the slice decoder.\<close>

lemma tlvs_ReadFrom_loop_Ret:
  assumes "s \<noteq> []" "tlv_consume s = Ret (x, n)"
  shows "tlvs_ReadFrom_loop items c s = tlvs_ReadFrom_loop (items @ [x]) (c + n) (drop n s)"
proof -
  from assms have "3 \<le> length s" by (simp add: tlv_consume_def)
  then obtain a b d rest where "s = a # b # d # rest"
    by (auto simp: numeral_nat Suc_le_length_iff)
  with assms(2) show ?thesis
    by (auto simp: tlvs_ReadFrom_loop.simps [of items c "a # b # d # rest"] read_full_def
        tlv_consume_def Let_def add.assoc not_less numeral_nat)
qed

lemma tlvs_ReadFrom_loop_Fail:
  assumes "s \<noteq> []" "tlv_consume s = Fail e"
  shows "\<exists>n e'. tlvs_ReadFrom_loop items c s = (n, Fail e')"
proof (cases "length s < 3")
  case True
  with assms(1) show ?thesis
    by (auto simp: tlvs_ReadFrom_loop.simps [of items c s] read_full_def neq_Nil_conv)
next
  case False
  then obtain a b d rest where "s = a # b # d # rest"
    by (auto simp: numeral_nat Suc_le_length_iff not_less)
  with assms(2) show ?thesis
    by (auto simp: tlvs_ReadFrom_loop.simps [of items c "a # b # d # rest"] read_full_def
        tlv_consume_def Let_def fail_if_def split: if_splits)
qed

lemma tlvs_ReadFrom_loop_eq:
  "(\<exists>xs. tlvs_UnmarshalBinary s = Ret xs
      \<and> tlvs_ReadFrom_loop items c s = (c + length s, Ret (items @ xs)))
   \<or> (\<exists>e e' n. tlvs_UnmarshalBinary s = Fail e \<and> tlvs_ReadFrom_loop items c s = (n, Fail e'))"
proof (induction "length s" arbitrary: s items c rule: less_induct)
  case less
  show ?case
  proof (cases "s = []")
    case True
    then show ?thesis
      by (simp add: qmi_tlv.parse_Nil)
  next
    case False
    show ?thesis
    proof (cases "tlv_consume s")
      case (Ret p)
      obtain x n where p: "p = (x, n)" by (cases p)
      with Ret have n: "0 < n" "n \<le> length s" by (auto dest: tlv_consume_pos)
      with False have "length (drop n s) < length s" by simp
      from less [OF this, of "items @ [x]" "c + n"] Ret p False n show ?thesis
        by (auto simp: tlvs_ReadFrom_loop_Ret qmi_tlv.parse_step)
    next
      case (Fail e)
      with False tlvs_ReadFrom_loop_Fail [of s e items c] show ?thesis
        by (auto simp: qmi_tlv.parse_step)
    qed simp
  qed
qed

section \<open>Properties\<close>

text \<open>The QMI TLV encoder and decoder are inverse bijections: a byte string decodes to a list
  of items if and only if that list encodes to that byte string.\<close>

theorem tlvs_codec_bijection:
  "tlvs_UnmarshalBinary bs = Ret ts \<longleftrightarrow> tlvs_MarshalBinary ts = Ret bs"
  by (simp add: qmi_tlv.parse_iff tlvs_MarshalBinary_eq_Ret_iff)

text \<open>C21: the stream decoder and the slice decoder accept the same inputs with the same items, the
  stream decoder reports exactly the length of the input, and neither ever panics.\<close>

theorem tlvs_ReadFrom_equiv_UnmarshalBinary:
  "(tlvs_ReadFrom s = (n, Ret ts) \<longleftrightarrow> tlvs_UnmarshalBinary s = Ret ts \<and> n = length s)
   \<and> snd (tlvs_ReadFrom s) \<noteq> Panic \<and> tlvs_UnmarshalBinary s \<noteq> Panic"
  using tlvs_ReadFrom_loop_eq [of s "[]" 0] tlvs_UnmarshalBinary_no_panic [of s]
  by (auto simp: tlvs_ReadFrom_def)

text \<open>A value too long for the 16-bit length field is never cut silently: the item built by
  \<open>Bytes\<close> either encodes to type, exact length and the whole value, or the encoder refuses it
  with the wrapped length in the error.\<close>

theorem tlv_Bytes_encodes_or_refuses:
  "tlvs_MarshalBinary [tlv_Bytes t v] =
     (if length v < 65536
      then Ret (t # put_le16 (of_nat (length v)) @ v)
      else Fail (LengthMismatch t (of_nat (length v)) (length v)))"
proof -
  have "unat (of_nat (length v) :: u16) = length v \<longleftrightarrow> length v < 65536"
    using unat_of_nat_u16 [of "length v"] unat_u16_lt [of "of_nat (length v)"] by linarith
  then show ?thesis
    by (simp add: tlvs_MarshalBinary_def tlv_Bytes_def buffer_write_def)
qed

end
