(* ===== verification/Ber_Tlv.thy ===== *)
theory Ber_Tlv
  imports Prelude
begin

text \<open>
  BER and COMPREHENSION-TLV items of the SIM toolkit (\<^verbatim>\<open>sim/tlv/tlv.go\<close>): the one-, two- and
  three-byte length forms, the item and sequence codecs, lookup modulo the
  comprehension-required bit, and the BER wrapper. Unlike the QMI items, several byte strings
  denote the same item (a length may be written longer than needed), so the decoder is an
  item sequence that is not canonical; re-encoding gives the shortest form.
\<close>

section \<open>Data\<close>

record Item =
  Tag :: byte
  ItemValue :: bytes

type_synonym Items = "Item list"

datatype ber_error = ErrMalformed | ErrValueTooLarge

datatype 'x ber_write_error = BerLengthError ber_error | BerSinkError 'x | BerShortWrite

definition New :: "byte \<Rightarrow> bytes \<Rightarrow> Item" where
  "New tag val = \<lparr>Tag = tag, ItemValue = val\<rparr>"

definition NewComprehension :: "byte \<Rightarrow> bytes \<Rightarrow> Item" where
  "NewComprehension tag val = (let item = New (tag AND 0x7f) val in item\<lparr>Tag := Tag item OR 0x80\<rparr>)"

definition ComprehensionTag :: "Item \<Rightarrow> byte" where
  "ComprehensionTag i = Tag i AND 0x7f"

definition ComprehensionRequired :: "Item \<Rightarrow> bool" where
  "ComprehensionRequired i \<longleftrightarrow> Tag i AND 0x80 \<noteq> 0"

section \<open>Lengths\<close>

definition marshalLength :: "nat \<Rightarrow> (ber_error, bytes) outcome" where
  "marshalLength len =
     (if len < 0x80 then Ret [of_nat len]
      else if len \<le> 0xFF then Ret [0x81, of_nat len]
      else if len \<le> 0xFFFF then Ret [0x82, of_nat (drop_bit 8 len), of_nat len]
      else Fail ErrValueTooLarge)"

definition decodeLength :: "bytes \<Rightarrow> (ber_error, nat \<times> nat) outcome" where
  "decodeLength data =
     fail_if (length data = 0) ErrMalformed
       (bind (index data 0) (\<lambda>b. let len = unat b in
          if len AND 0x80 = 0 then Ret (len, 1)
          else let count = len AND 0x7F in
            fail_if (count = 0 \<or> count > 2 \<or> length data < 1 + count) ErrMalformed
              (bind (subslice data 1 (1 + count)) (\<lambda>ds.
                 Ret (foldl (\<lambda>l d. push_bit 8 l OR unat d) 0 ds, 1 + count)))))"

section \<open>Items\<close>

definition ber_consume :: "bytes \<Rightarrow> (ber_error, Item \<times> nat) outcome" where
  "ber_consume data =
     fail_if (length data < 2) ErrMalformed
       (bind (subslice data 1 (length data)) (\<lambda>rest.
        bind (decodeLength rest) (\<lambda>(len, sz).
          let offset = 1 + sz in
          bind (subslice data offset (length data)) (\<lambda>body.
            fail_if (length body < len) ErrMalformed
              (bind (index data 0) (\<lambda>t.
               bind (subslice data offset (offset + len)) (\<lambda>v.
                 Ret (\<lparr>Tag = t, ItemValue = v\<rparr>, offset + len))))))))"

definition item_WriteTo ::
  "('w, 'x) go_writer \<Rightarrow> Item \<Rightarrow> 'w \<Rightarrow> 'w \<times> int \<times> 'x ber_write_error option" where
  "item_WriteTo w i s =
     (case marshalLength (length (ItemValue i)) of
        Ret len \<Rightarrow>
          (let encoded = [Tag i] @ len @ ItemValue i in
           case w s encoded of (s', n, e) \<Rightarrow>
             (s', n, (case e of Some x \<Rightarrow> Some (BerSinkError x)
                      | None \<Rightarrow> if n \<noteq> int (length encoded) then Some BerShortWrite else None)))
      | Fail err \<Rightarrow> (s, 0, Some (BerLengthError err))
      | Panic \<Rightarrow> (s, 0, None))"

definition item_MarshalBinary :: "Item \<Rightarrow> (unit ber_write_error, bytes) outcome" where
  "item_MarshalBinary i =
     (case item_WriteTo buffer_write i [] of (buf, _, Some e) \<Rightarrow> Fail e | (buf, _, None) \<Rightarrow> Ret buf)"

definition item_UnmarshalBinary :: "bytes \<Rightarrow> (ber_error, Item) outcome" where
  "item_UnmarshalBinary data =
     bind (ber_consume data) (\<lambda>(parsed, consumed).
       fail_if (consumed \<noteq> length data) ErrMalformed (Ret parsed))"

section \<open>Sequences\<close>

fun items_WriteTo ::
  "('w, 'x) go_writer \<Rightarrow> Items \<Rightarrow> 'w \<Rightarrow> int \<Rightarrow> 'w \<times> int \<times> 'x ber_write_error option" where
  "items_WriteTo w [] s written = (s, written, None)"
| "items_WriteTo w (i # is) s written =
     (case item_WriteTo w i s of
        (s', n, Some e) \<Rightarrow> (s', written + n, Some e)
      | (s', n, None) \<Rightarrow> items_WriteTo w is s' (written + n))"

definition items_MarshalBinary :: "Items \<Rightarrow> (unit ber_write_error, bytes) outcome" where
  "items_MarshalBinary is =
     (case items_WriteTo buffer_write is [] 0 of (buf, _, Some e) \<Rightarrow> Fail e | (buf, _, None) \<Rightarrow> Ret buf)"

lemma ber_consume_pos: "ber_consume data = Ret (x, n) \<Longrightarrow> 0 < n \<and> n \<le> length data"
  by (auto simp: ber_consume_def Let_def subslice_eq_Ret_iff split: prod.splits)

function items_UnmarshalBinary_loop :: "Items \<Rightarrow> bytes \<Rightarrow> (ber_error, Items) outcome" where
  "items_UnmarshalBinary_loop parsed data =
     (if length data > 0
      then bind (ber_consume data) (\<lambda>p. case p of (item, consumed) \<Rightarrow>
             bind (subslice data consumed (length data)) (\<lambda>rest.
               items_UnmarshalBinary_loop (parsed @ [item]) rest))
      else Ret parsed)"
  by pat_completeness auto
termination
  by (relation "measure (\<lambda>(parsed, data). length data)")
     (auto simp: subslice_eq_Ret_iff dest: ber_consume_pos)

definition items_UnmarshalBinary :: "bytes \<Rightarrow> (ber_error, Items) outcome" where
  "items_UnmarshalBinary data = items_UnmarshalBinary_loop [] data"

text \<open>\<open>ReadFrom\<close> on a finite stream: \<open>io.ReadAll\<close> returns all of it.\<close>

definition items_ReadFrom :: "bytes \<Rightarrow> nat \<times> (ber_error, Items) outcome" where
  "items_ReadFrom s = (length s, items_UnmarshalBinary s)"

fun items_Find_loop :: "Items \<Rightarrow> byte \<Rightarrow> Item option" where
  "items_Find_loop [] tag = None"
| "items_Find_loop (i # is) tag = (if ComprehensionTag i = tag then Some i else items_Find_loop is tag)"

definition items_Find :: "Items \<Rightarrow> byte \<Rightarrow> Item option" where
  "items_Find is tag = items_Find_loop is (tag AND 0x7f)"

definition items_All :: "Items \<Rightarrow> byte \<Rightarrow> Items" where
  "items_All is tag = filter (\<lambda>i. ComprehensionTag i = tag AND 0x7f) is"

definition WrapBER :: "byte \<Rightarrow> bytes \<Rightarrow> (ber_error, bytes) outcome" where
  "WrapBER tag val = bind (marshalLength (length val)) (\<lambda>len. Ret ([tag] @ len @ val))"

definition UnwrapBER :: "bytes \<Rightarrow> (ber_error, byte \<times> bytes) outcome" where
  "UnwrapBER data =
     fail_if (length data < 2) ErrMalformed
       (bind (subslice data 1 (length data)) (\<lambda>rest.
        bind (decodeLength rest) (\<lambda>(len, sz).
          let offset = 1 + sz in
          bind (subslice data offset (length data)) (\<lambda>body.
            fail_if (length body < len) ErrMalformed
              (fail_if (length data \<noteq> offset + len) ErrMalformed
                (bind (index data 0) (\<lambda>t.
                 bind (subslice data offset (offset + len)) (\<lambda>v. Ret (t, v)))))))))"

section \<open>Lengths decode to what was encoded\<close>

lemma marshalLength_no_panic [simp]: "marshalLength n \<noteq> Panic"
  by (simp add: marshalLength_def)

lemma decodeLength_no_panic [simp]: "decodeLength data \<noteq> Panic"
  by (auto simp: decodeLength_def Let_def go_simps split: if_splits)

lemma marshalLength_bounds:
  "marshalLength n = Ret len \<Longrightarrow> n \<le> 65535 \<and> 1 \<le> length len \<and> length len \<le> 3"
  by (auto simp: marshalLength_def split: if_splits)

lemma marshalLength_ok: "n \<le> 65535 \<Longrightarrow> \<exists>len. marshalLength n = Ret len"
  by (simp add: marshalLength_def)

lemma decodeLength_short_form:
  "unat b < 128 \<Longrightarrow> decodeLength (b # rest) = Ret (unat b, 1)"
  by (simp add: decodeLength_def index_def nat_and_0x80_eq_0 Let_def)

lemma decodeLength_long_form:
  assumes "128 \<le> unat b"
  shows "decodeLength (b # rest) =
     (if unat b = 0x81 \<and> 1 \<le> length rest then Ret (unat (rest ! 0), 2)
      else if unat b = 0x82 \<and> 2 \<le> length rest
      then Ret (unat (rest ! 0) * 256 + unat (rest ! 1), 3)
      else Fail ErrMalformed)"
proof -
  have n: "unat b AND 0x80 \<noteq> 0" using assms by (simp add: nat_and_0x80_eq_0)
  have c: "unat b AND 0x7F = unat b - 128"
    using assms unat_byte_le [of b] by (simp add: nat_and_0x7F le_mod_geq)
  have "decodeLength (b # rest) =
      fail_if (unat b - 128 = 0 \<or> unat b - 128 > 2 \<or> length rest < unat b - 128) ErrMalformed
        (Ret (foldl (\<lambda>l d. push_bit 8 l OR unat d) 0 (take (unat b - 128) rest), 1 + (unat b - 128)))"
    using n by (simp add: decodeLength_def index_def subslice_def Let_def c fail_if_def)
  moreover have "unat b - 128 = 0 \<or> unat b - 128 > 2 \<or> unat b = 0x81 \<or> unat b = 0x82"
    using assms by arith
  ultimately show ?thesis
    using assms
    by (cases rest; cases "tl rest") (auto simp: fail_if_def nat_push8_or)
qed

lemma decodeLength_marshalLength:
  assumes "marshalLength n = Ret len"
  shows "decodeLength (len @ rest) = Ret (n, length len)"
proof -
  consider "n < 128" "len = [of_nat n]" | "128 \<le> n" "n < 256" "len = [0x81, of_nat n]"
    | "256 \<le> n" "n < 65536" "len = [0x82, of_nat (n div 256), of_nat n]"
    using assms by (auto simp: marshalLength_def drop_bit_eq_div split: if_splits)
  then show ?thesis
  proof cases
    case 1
    then show ?thesis by (simp add: decodeLength_short_form unat_of_nat_byte)
  next
    case 2
    then show ?thesis by (simp add: decodeLength_long_form unat_of_nat_byte)
  next
    case 3
    then have "unat (of_nat (n div 256) :: byte) * 256 + unat (of_nat n :: byte) = n"
      by (simp add: unat_of_nat take_bit_eq_mod)
    with 3 show ?thesis by (simp add: decodeLength_long_form)
  qed
qed

lemma decodeLength_bounds:
  assumes "decodeLength data = Ret (n, sz)"
  shows "n \<le> 65535 \<and> 1 \<le> sz \<and> sz \<le> length data
    \<and> (\<exists>len. marshalLength n = Ret len \<and> length len \<le> sz)"
proof (cases data)
  case Nil
  with assms show ?thesis by (simp add: decodeLength_def)
next
  case (Cons b rest)
  show ?thesis
  proof (cases "unat b < 128")
    case True
    with assms Cons show ?thesis
      by (auto simp: decodeLength_short_form marshalLength_def)
  next
    case False
    with assms Cons unat_byte_le [of "rest ! 0"] unat_byte_le [of "rest ! 1"] show ?thesis
      by (auto simp: decodeLength_long_form marshalLength_def split: if_splits)
  qed
qed

section \<open>Items and sequences\<close>

definition ber_valid :: "Item \<Rightarrow> bool" where
  "ber_valid i \<longleftrightarrow> length (ItemValue i) \<le> 65535"

definition ber_emit :: "Item \<Rightarrow> bytes" where
  "ber_emit i = Tag i # (case marshalLength (length (ItemValue i)) of Ret len \<Rightarrow> len | _ \<Rightarrow> []) @ ItemValue i"

lemma item_WriteTo_buffer:
  "item_WriteTo buffer_write i s =
     (if ber_valid i then (s @ ber_emit i, int (length (ber_emit i)), None)
      else (s, 0, Some (BerLengthError ErrValueTooLarge)))"
  by (simp add: item_WriteTo_def ber_valid_def ber_emit_def marshalLength_def buffer_write_def Let_def)

lemma items_WriteTo_buffer:
  "list_all ber_valid is \<Longrightarrow>
   items_WriteTo buffer_write is s c =
     (s @ concat (map ber_emit is), c + int (length (concat (map ber_emit is))), None)"
  by (induction "is" arbitrary: s c) (auto simp: item_WriteTo_buffer)

lemma items_WriteTo_buffer_invalid:
  "\<not> list_all ber_valid is \<Longrightarrow>
   \<exists>s' n. items_WriteTo buffer_write is s c = (s', n, Some (BerLengthError ErrValueTooLarge))"
  by (induction "is" arbitrary: s c) (auto simp: item_WriteTo_buffer)

lemma items_MarshalBinary_eq:
  "items_MarshalBinary is =
     (if list_all ber_valid is then Ret (concat (map ber_emit is))
      else Fail (BerLengthError ErrValueTooLarge))"
proof (cases "list_all ber_valid is")
  case False
  with items_WriteTo_buffer_invalid [of "is" "[]" 0] show ?thesis
    by (auto simp: items_MarshalBinary_def)
qed (simp add: items_MarshalBinary_def items_WriteTo_buffer)

lemma ber_consume_emit:
  assumes "ber_valid i"
  shows "ber_consume (ber_emit i @ rest) = Ret (i, length (ber_emit i))"
proof -
  from assms obtain len where m: "marshalLength (length (ItemValue i)) = Ret len"
    using marshalLength_ok unfolding ber_valid_def by blast
  have "1 \<le> length len" using marshalLength_bounds [OF m] by simp
  then show ?thesis
    by (cases i)
       (use m decodeLength_marshalLength [OF m, of "ItemValue i @ rest"] in
         \<open>auto simp: ber_consume_def ber_emit_def Let_def subslice_def index_def\<close>)
qed

lemma ber_consume_no_panic [simp]: "ber_consume data \<noteq> Panic"
  by (auto simp: ber_consume_def Let_def bind_eq_Panic_iff subslice_eq_Panic_iff subslice_eq_Ret_iff
      index_eq_Panic_iff split: prod.splits dest: decodeLength_bounds)

lemma ber_consume_sound:
  assumes "ber_consume data = Ret (i, n)"
  shows "ber_valid i \<and> length (ber_emit i) \<le> n \<and> n \<le> length data"
  using assms
  by (auto simp: ber_consume_def Let_def subslice_eq_Ret_iff index_eq_Ret_iff ber_valid_def ber_emit_def
      split: prod.splits dest!: decodeLength_bounds)

declare items_UnmarshalBinary_loop.simps [simp del]

lemma items_UnmarshalBinary_loop_Nil [simp]: "items_UnmarshalBinary_loop items [] = Ret items"
  by (simp add: items_UnmarshalBinary_loop.simps)

lemma items_UnmarshalBinary_loop_step:
  assumes "data \<noteq> []"
  shows "items_UnmarshalBinary_loop items data =
     bind (ber_consume data) (\<lambda>(x, n). items_UnmarshalBinary_loop (items @ [x]) (drop n data))"
  using assms
  by (cases "ber_consume data")
     (auto simp: items_UnmarshalBinary_loop.simps [of items data] go_simps dest: ber_consume_pos)

lemma items_UnmarshalBinary_loop_acc:
  "items_UnmarshalBinary_loop items data =
     bind (items_UnmarshalBinary_loop [] data) (\<lambda>xs. Ret (items @ xs))"
proof (induction "length data" arbitrary: items data rule: less_induct)
  case less
  show ?case
  proof (cases "data = [] \<or> (\<forall>p. ber_consume data \<noteq> Ret p)")
    case True
    then show ?thesis
      by (cases "ber_consume data"; cases "data = []") (auto simp: items_UnmarshalBinary_loop_step)
  next
    case False
    then obtain x n where c: "ber_consume data = Ret (x, n)" and ne: "data \<noteq> []" by auto
    then have "length (drop n data) < length data" by (auto dest: ber_consume_pos)
    from less [OF this] have
      IH: "items_UnmarshalBinary_loop (ys @ [x]) (drop n data)
         = bind (items_UnmarshalBinary_loop [] (drop n data)) (\<lambda>xs. Ret ((ys @ [x]) @ xs))" for ys .
    from c ne IH [of items] IH [of "[]"] show ?thesis
      by (cases "items_UnmarshalBinary_loop [] (drop n data)")
         (simp_all add: items_UnmarshalBinary_loop_step)
  qed
qed

interpretation ber: item_sequence ber_emit ber_consume ber_valid items_UnmarshalBinary
proof
  fix x rest assume "ber_valid x"
  then show "ber_consume (ber_emit x @ rest) = Ret (x, length (ber_emit x))"
    by (rule ber_consume_emit)
next
  fix x show "ber_emit x \<noteq> []" by (simp add: ber_emit_def)
next
  show "items_UnmarshalBinary [] = Ret []" by (simp add: items_UnmarshalBinary_def)
next
  fix bs :: bytes assume "bs \<noteq> []"
  then show "items_UnmarshalBinary bs =
      bind (ber_consume bs) (\<lambda>(x, n). bind (items_UnmarshalBinary (drop n bs)) (\<lambda>xs. Ret (x # xs)))"
    unfolding items_UnmarshalBinary_def
    by (cases "ber_consume bs")
       (simp_all add: items_UnmarshalBinary_loop_step items_UnmarshalBinary_loop_acc [of "[_]"]
          split: prod.splits)
qed

lemma items_UnmarshalBinary_no_panic: "items_UnmarshalBinary data \<noteq> Panic"
proof (induction "length data" arbitrary: data rule: less_induct)
  case less
  show ?case
  proof (cases "data = []")
    case False
    have "items_UnmarshalBinary (drop n data) \<noteq> Panic" if "ber_consume data = Ret (x, n)" for x n
      using that False by (intro less) (auto dest: ber_consume_pos)
    with False show ?thesis by (auto simp: ber.parse_step bind_eq_Panic_iff)
  qed (simp add: ber.parse_Nil)
qed

lemma items_UnmarshalBinary_normal_form:
  "items_UnmarshalBinary bs = Ret xs \<Longrightarrow>
   list_all ber_valid xs \<and> length (concat (map ber_emit xs)) \<le> length bs"
proof (induction xs arbitrary: bs)
  case (Cons x xs)
  then have "bs \<noteq> []" by (auto simp: ber.parse_Nil)
  with Cons.prems obtain n where c: "ber_consume bs = Ret (x, n)"
    and r: "items_UnmarshalBinary (drop n bs) = Ret xs"
    by (auto simp: ber.parse_step)
  from Cons.IH [OF r] ber_consume_sound [OF c] show ?case by auto
qed simp

lemma item_WriteTo_eq_WrapBER:
  "WrapBER t v = (if ber_valid (New t v) then Ret (ber_emit (New t v)) else Fail ErrValueTooLarge)"
  by (simp add: WrapBER_def ber_valid_def ber_emit_def New_def marshalLength_def)

lemma UnwrapBER_eq_item_UnmarshalBinary:
  "UnwrapBER data = bind (item_UnmarshalBinary data) (\<lambda>i. Ret (Tag i, ItemValue i))"
  by (cases "decodeLength (drop 1 data)")
     (auto simp: UnwrapBER_def item_UnmarshalBinary_def ber_consume_def Let_def fail_if_def
        subslice_def index_def split: prod.splits)

lemma item_UnmarshalBinary_emit: "ber_valid i \<Longrightarrow> item_UnmarshalBinary (ber_emit i) = Ret i"
  using ber.consume_emit [of i "[]"] by (simp add: item_UnmarshalBinary_def)

lemma comprehension_bit_idem:
  fixes t :: byte
  shows "((t AND 0x7f) OR 0x80) AND 0x7f = t AND 0x7f" and "((t AND 0x7f) OR 0x80) AND 0x80 \<noteq> 0"
  by (simp_all add: bit.conj_disj_distrib2 and.assoc)

lemma items_Find_loop_filter:
  "items_Find_loop is t =
     (case filter (\<lambda>i. ComprehensionTag i = t) is of [] \<Rightarrow> None | i # _ \<Rightarrow> Some i)"
  by (induction "is") auto

section \<open>Properties\<close>

text \<open>A sequence of SIM toolkit items encodes exactly when every value has at most 65535 bytes,
  and then decodes to the same sequence; otherwise the encoder reports the oversized value.\<close>

theorem items_codec_roundtrip:
  "if list_all (\<lambda>i. length (ItemValue i) \<le> 65535) is
   then \<exists>bs. items_MarshalBinary is = Ret bs \<and> items_UnmarshalBinary bs = Ret is
   else items_MarshalBinary is = Fail (BerLengthError ErrValueTooLarge)"
proof -
  have "ber_valid = (\<lambda>i. length (ItemValue i) \<le> 65535)"
    by (simp add: fun_eq_iff ber_valid_def)
  then show ?thesis
    using ber.parse_emit [of "is"] by (simp add: items_MarshalBinary_eq)
qed

text \<open>The item decoder never panics on any input, and what it accepts can always be re-encoded,
  in a form that is no longer than the input and decodes to the same items.\<close>

theorem items_UnmarshalBinary_normalises:
  "items_UnmarshalBinary bs \<noteq> Panic
   \<and> (items_UnmarshalBinary bs = Ret is \<longrightarrow>
        (\<exists>bs'. items_MarshalBinary is = Ret bs' \<and> length bs' \<le> length bs
           \<and> items_UnmarshalBinary bs' = Ret is))"
  using items_UnmarshalBinary_no_panic [of bs] items_UnmarshalBinary_normal_form [of bs "is"]
    ber.parse_emit [of "is"]
  by (auto simp: items_MarshalBinary_eq)

theorem items_UnmarshalBinary_normalises_witness:
  "items_UnmarshalBinary [0x85, 0x82, 0, 1, 0x41] \<noteq> Panic
   \<and> items_UnmarshalBinary [0x85, 0x82, 0, 1, 0x41] = Ret [\<lparr>Tag = 0x85, ItemValue = [0x41]\<rparr>]
   \<and> (\<exists>bs'. items_MarshalBinary [\<lparr>Tag = 0x85, ItemValue = [0x41]\<rparr>] = Ret bs'
        \<and> length bs' \<le> length [0x85 :: byte, 0x82, 0, 1, 0x41]
        \<and> items_UnmarshalBinary bs' = Ret [\<lparr>Tag = 0x85, ItemValue = [0x41]\<rparr>])"
proof -
  have "items_UnmarshalBinary [0x85, 0x82, 0, 1, 0x41] = Ret [\<lparr>Tag = 0x85, ItemValue = [0x41]\<rparr>]"
    by code_simp
  then show ?thesis
    using items_UnmarshalBinary_normalises
      [of "[0x85, 0x82, 0, 1, 0x41]" "[\<lparr>Tag = 0x85, ItemValue = [0x41]\<rparr>]"]
    by blast
qed

text \<open>The BER wrapper and unwrapper are inverse on every value of at most 65535 bytes, and the
  wrapper refuses a longer one.\<close>

theorem UnwrapBER_WrapBER:
  "bind (WrapBER t v) UnwrapBER =
     (if length v \<le> 65535 then Ret (t, v) else Fail ErrValueTooLarge)"
proof (cases "length v \<le> 65535")
  case True
  then have "ber_valid (New t v)" by (simp add: ber_valid_def New_def)
  then show ?thesis
    using True item_UnmarshalBinary_emit [of "New t v"]
    by (simp add: item_WriteTo_eq_WrapBER UnwrapBER_eq_item_UnmarshalBinary New_def)
qed (simp add: WrapBER_def marshalLength_def)

text \<open>Lookup ignores the comprehension-required bit on both sides: \<open>Find\<close> is the first element
  of \<open>All\<close>, and an item built with \<open>NewComprehension\<close> carries the bit and is found under its
  plain tag.\<close>

theorem items_Find_first_of_All:
  "items_Find is t = (case items_All is t of [] \<Rightarrow> None | i # _ \<Rightarrow> Some i)
   \<and> items_Find (NewComprehension t v # is) t = Some (NewComprehension t v)
   \<and> ComprehensionRequired (NewComprehension t v)
   \<and> ComprehensionTag (NewComprehension t v) = t AND 0x7f"
  by (simp add: items_Find_def items_All_def items_Find_loop_filter NewComprehension_def New_def
      ComprehensionTag_def ComprehensionRequired_def comprehension_bit_idem)

end
