(* ===== verification/Qmi_Wire.thy ===== *)
theory Qmi_Wire
  imports Qmi_Tlv
begin

text \<open>
  The QMUX wire format (\<^verbatim>\<open>qcom/qmi/response.go\<close> and the encoder of
  \<^verbatim>\<open>qcom/qmi/transport.go\<close>): QMUX header, QMI control and service headers, frame reading,
  request encoding and response decoding. The decoder is shown to accept exactly the frames
  of a reference layout.
\<close>

section \<open>Messages (\<^verbatim>\<open>qcom/types.go\<close>)\<close>

type_synonym ServiceType = u32
type_synonym MessageType = byte
type_synonym MessageID = u16

definition ServiceControl :: ServiceType where "ServiceControl = 0x00"
definition MessageTypeRequest :: MessageType where "MessageTypeRequest = 0x00"
definition MessageTypeResponse :: MessageType where "MessageTypeResponse = 0x02"
definition MessageTypeIndication :: MessageType where "MessageTypeIndication = 0x04"
definition controlMessageTypeResponse :: MessageType where "controlMessageTypeResponse = 0x01"
definition controlMessageTypeIndication :: MessageType where "controlMessageTypeIndication = 0x02"

definition QMUXIfType :: byte where "QMUXIfType = 0x01"
definition QMUXControlFlagRequest :: byte where "QMUXControlFlagRequest = 0x00"

definition MaxQMUXControlTLVLength :: nat where "MaxQMUXControlTLVLength = 0xffff - (1 + 5) - 6"
definition MaxQMUXServiceTLVLength :: nat where "MaxQMUXServiceTLVLength = 0xffff - (1 + 5) - 7"

record Request =
  rq_Service :: ServiceType
  rq_ClientID :: byte
  rq_TransactionID :: u16
  rq_MessageID :: MessageID
  rq_Timeout :: int
  rq_TLVs :: TLVs

text \<open>\<open>qcom.Response\<close> and \<open>qcom.Indication\<close> have the same fields.\<close>

record Message =
  m_Service :: ServiceType
  m_ClientID :: byte
  m_TransactionID :: u16
  m_MessageID :: MessageID
  m_TLVs :: TLVs

record QMUXHeader =
  IfType :: byte
  QLength :: u16
  ControlFlags :: byte
  QServiceType :: byte
  QClientID :: byte

text \<open>\<open>qmi.Response\<close> embeds the QMUX header.\<close>

record WireResponse = QMUXHeader +
  w_TransactionID :: u16
  w_MessageID :: MessageID
  w_MessageType :: MessageType
  w_MessageLength :: u16
  w_TLVs :: TLVs

definition wire_service :: "('a) QMUXHeader_scheme \<Rightarrow> ServiceType" where
  "wire_service h = ucast (QServiceType h)"

definition qcomResponse :: "WireResponse \<Rightarrow> Message" where
  "qcomResponse r =
     \<lparr>m_Service = wire_service r, m_ClientID = QClientID r, m_TransactionID = w_TransactionID r,
      m_MessageID = w_MessageID r, m_TLVs = w_TLVs r\<rparr>"

definition qcomIndication :: "WireResponse \<Rightarrow> Message" where
  "qcomIndication r =
     \<lparr>m_Service = wire_service r, m_ClientID = QClientID r, m_TransactionID = w_TransactionID r,
      m_MessageID = w_MessageID r, m_TLVs = w_TLVs r\<rparr>"

definition isResponse :: "WireResponse \<Rightarrow> bool" where
  "isResponse r =
     (if wire_service r = ServiceControl then w_MessageType r = controlMessageTypeResponse
      else w_MessageType r = MessageTypeResponse)"

definition isIndication :: "WireResponse \<Rightarrow> bool" where
  "isIndication r =
     (if wire_service r = ServiceControl then w_MessageType r = controlMessageTypeIndication
      else w_MessageType r = MessageTypeIndication)"

section \<open>Decoding\<close>

datatype wire_error =
    WireTooShort nat
  | ReadQMUXHeader io_error
  | UnexpectedQMUXMarker byte
  | QMUXLengthMismatch nat nat
  | ReadControlHeader io_error
  | ReadServiceHeader io_error
  | UnexpectedControlMessageType byte
  | UnexpectedServiceMessageType byte
  | QMITLVLengthMismatch nat nat
  | WireTLVs tlv_error
  | FrameInvalidLength
  | FrameRead io_error

text \<open>\<open>binary.Read\<close> of the fixed-size header structs, little endian, fields in order.\<close>

definition read_QMUXHeader :: "bytes \<Rightarrow> QMUXHeader" where
  "read_QMUXHeader h =
     \<lparr>IfType = h ! 0, QLength = join_le16 (h ! 1) (h ! 2), ControlFlags = h ! 3,
      QServiceType = h ! 4, QClientID = h ! 5\<rparr>"

text \<open>The four fields of \<open>Header[uint8]\<close> and \<open>Header[uint16]\<close>: type, transaction, message,
  length; the 8-bit transaction of a control header is widened as the decoder does.\<close>

definition read_ControlHeader :: "bytes \<Rightarrow> MessageType \<times> u16 \<times> MessageID \<times> u16" where
  "read_ControlHeader h =
     (h ! 0, ucast (h ! 1), join_le16 (h ! 2) (h ! 3), join_le16 (h ! 4) (h ! 5))"

definition read_ServiceHeader :: "bytes \<Rightarrow> MessageType \<times> u16 \<times> MessageID \<times> u16" where
  "read_ServiceHeader h =
     (h ! 0, join_le16 (h ! 1) (h ! 2), join_le16 (h ! 3) (h ! 4), join_le16 (h ! 5) (h ! 6))"

text \<open>The decoder after the QMI header: message type check, length check, TLVs.\<close>

definition response_UnmarshalBinary_body ::
  "bytes \<Rightarrow> QMUXHeader \<Rightarrow> (MessageType \<times> u16 \<times> MessageID \<times> u16) \<Rightarrow> bytes \<Rightarrow> (wire_error, WireResponse) outcome" where
  "response_UnmarshalBinary_body data h qmi remaining =
     (case qmi of (mtype, txn, mid, mlen) \<Rightarrow>
       let r = \<lparr>IfType = IfType h, QLength = QLength h, ControlFlags = ControlFlags h,
                QServiceType = QServiceType h, QClientID = QClientID h, w_TransactionID = txn,
                w_MessageID = mid, w_MessageType = mtype, w_MessageLength = mlen, w_TLVs = []\<rparr>
       in fail_if (wire_service r = ServiceControl \<and> \<not> isResponse r \<and> \<not> isIndication r)
            (UnexpectedControlMessageType mtype)
           (fail_if (wire_service r \<noteq> ServiceControl
                     \<and> mtype \<noteq> MessageTypeResponse \<and> mtype \<noteq> MessageTypeIndication)
              (UnexpectedServiceMessageType mtype)
            (fail_if (length remaining \<noteq> unat mlen)
               (QMITLVLengthMismatch (length remaining) (unat mlen))
             (if mlen > 0
              then bind (subslice data (length data - unat mlen) (length data)) (\<lambda>tail.
                   bind (map_err WireTLVs (tlvs_UnmarshalBinary tail)) (\<lambda>ts.
                     Ret (r\<lparr>w_TLVs := ts\<rparr>)))
              else Ret r))))"

definition response_UnmarshalBinary :: "bytes \<Rightarrow> (wire_error, WireResponse) outcome" where
  "response_UnmarshalBinary data =
     fail_if (length data < 12) (WireTooShort (length data))
       (case read_full 6 data of
          (hb, rest, Some e) \<Rightarrow> Fail (ReadQMUXHeader e)
        | (hb, rest, None) \<Rightarrow>
            let h = read_QMUXHeader hb in
            fail_if (IfType h \<noteq> QMUXIfType) (UnexpectedQMUXMarker (IfType h))
             (fail_if (length data \<noteq> unat (QLength h) + 1)
                (QMUXLengthMismatch (length data) (unat (QLength h) + 1))
              (if wire_service h = ServiceControl
               then (case read_full 6 rest of
                       (qb, remaining, Some e) \<Rightarrow> Fail (ReadControlHeader e)
                     | (qb, remaining, None) \<Rightarrow>
                         response_UnmarshalBinary_body data h (read_ControlHeader qb) remaining)
               else (case read_full 7 rest of
                       (qb, remaining, Some e) \<Rightarrow> Fail (ReadServiceHeader e)
                     | (qb, remaining, None) \<Rightarrow>
                         response_UnmarshalBinary_body data h (read_ServiceHeader qb) remaining))))"

text \<open>\<open>readFrame\<close>: the frame or the error, the count of bytes read, and the rest of the stream.\<close>

definition readFrame :: "bytes \<Rightarrow> (wire_error, bytes) outcome \<times> nat \<times> bytes" where
  "readFrame s =
     (case read_full 3 s of
        (header, s1, Some e) \<Rightarrow> (Fail (FrameRead e), length header, s1)
      | (header, s1, None) \<Rightarrow>
          let len = unat (join_le16 (header ! 1) (header ! 2)) + 1 in
          if len < length header then (Fail FrameInvalidLength, length header, s1)
          else (case read_full (len - length header) s1 of
                  (body, s2, Some e) \<Rightarrow> (Fail (FrameRead e), length header + length body, s2)
                | (body, s2, None) \<Rightarrow> (Ret (header @ body), length header + length body, s2)))"

definition response_ReadFrom :: "bytes \<Rightarrow> (wire_error, WireResponse) outcome \<times> nat \<times> bytes" where
  "response_ReadFrom s =
     (case readFrame s of (frame, n, rest) \<Rightarrow> (bind frame response_UnmarshalBinary, n, rest))"

section \<open>Encoding\<close>

datatype request_error =
    ServiceExceeds8Bit ServiceType
  | ControlClientIDNotZero byte
  | TransactionIDZero
  | ControlTransactionIDTooLarge u16
  | MarshalTLVs "unit tlv_write_error"
  | TLVsTooLong nat nat

definition validateRequest :: "Request \<Rightarrow> request_error option" where
  "validateRequest req =
     (if rq_Service req > 0xFF then Some (ServiceExceeds8Bit (rq_Service req))
      else if rq_Service req = ServiceControl \<and> rq_ClientID req \<noteq> 0
      then Some (ControlClientIDNotZero (rq_ClientID req))
      else if rq_TransactionID req = 0 then Some TransactionIDZero
      else if rq_Service req = ServiceControl \<and> rq_TransactionID req > 0xFF
      then Some (ControlTransactionIDTooLarge (rq_TransactionID req))
      else None)"

text \<open>The QMI header and payload that go into the \<open>sdu\<close> buffer.\<close>

definition request_sdu :: "Request \<Rightarrow> bytes \<Rightarrow> bytes" where
  "request_sdu req payload =
     (if rq_Service req = ServiceControl
      then [MessageTypeRequest, ucast (rq_TransactionID req)]
      else MessageTypeRequest # put_le16 (rq_TransactionID req))
     @ put_le16 (rq_MessageID req) @ put_le16 (of_nat (length payload)) @ payload"

definition marshalRequest :: "Request \<Rightarrow> (request_error, bytes) outcome" where
  "marshalRequest req =
     (case validateRequest req of Some e \<Rightarrow> Fail e | None \<Rightarrow>
        bind (map_err MarshalTLVs (tlvs_MarshalBinary (rq_TLVs req))) (\<lambda>payload.
          let maxPayloadLength =
                (if rq_Service req = ServiceControl then MaxQMUXControlTLVLength
                 else MaxQMUXServiceTLVLength) in
          fail_if (length payload > maxPayloadLength) (TLVsTooLong (length payload) maxPayloadLength)
            (let sdu = request_sdu req payload
             in Ret ([QMUXIfType] @ put_le16 (of_nat (length sdu + 5))
                     @ [QMUXControlFlagRequest, ucast (rq_Service req), rq_ClientID req] @ sdu))))"

section \<open>Reference layout\<close>

text \<open>The bytes of a QMUX message, field by field, and when a decoded value denotes one.\<close>

definition qmi_header :: "WireResponse \<Rightarrow> bytes" where
  "qmi_header r =
     (if wire_service r = ServiceControl then [w_MessageType r, ucast (w_TransactionID r)]
      else w_MessageType r # put_le16 (w_TransactionID r))
     @ put_le16 (w_MessageID r) @ put_le16 (w_MessageLength r)"

definition wire_layout :: "WireResponse \<Rightarrow> bytes" where
  "wire_layout r =
     [IfType r] @ put_le16 (QLength r) @ [ControlFlags r, QServiceType r, QClientID r]
     @ qmi_header r @ concat (map tlv_emit (w_TLVs r))"

definition wire_wf :: "WireResponse \<Rightarrow> bool" where
  "wire_wf r \<longleftrightarrow>
     IfType r = QMUXIfType \<and> unat (QLength r) + 1 = length (wire_layout r)
     \<and> (isResponse r \<or> isIndication r)
     \<and> (wire_service r = ServiceControl \<longrightarrow> w_TransactionID r \<le> 0xFF)
     \<and> unat (w_MessageLength r) = length (concat (map tlv_emit (w_TLVs r)))
     \<and> list_all tlv_valid (w_TLVs r)"

section \<open>The decoder accepts exactly the reference layout\<close>


lemma isResponse_TLVs [simp]: "isResponse (r\<lparr>w_TLVs := ts\<rparr>) = isResponse r"
  by (simp add: isResponse_def wire_service_def)

lemma isIndication_TLVs [simp]: "isIndication (r\<lparr>w_TLVs := ts\<rparr>) = isIndication r"
  by (simp add: isIndication_def wire_service_def)

lemma response_UnmarshalBinary_body_Ret_iff:
  assumes "data = pre @ remaining"
  shows "response_UnmarshalBinary_body data h (mtype, txn, mid, mlen) remaining = Ret r \<longleftrightarrow>
    (let r0 = \<lparr>IfType = IfType h, QLength = QLength h, ControlFlags = ControlFlags h,
                QServiceType = QServiceType h, QClientID = QClientID h, w_TransactionID = txn,
                w_MessageID = mid, w_MessageType = mtype, w_MessageLength = mlen, w_TLVs = []\<rparr>
     in (isResponse r0 \<or> isIndication r0) \<and> length remaining = unat mlen
        \<and> (\<exists>ts. tlvs_UnmarshalBinary remaining = Ret ts \<and> r = r0\<lparr>w_TLVs := ts\<rparr>))"
proof -
  have "subslice data (length data - unat mlen) (length data) = Ret remaining"
    if "length remaining = unat mlen"
    using assms that by (simp add: subslice_def)
  moreover have "remaining = []" if "length remaining = unat mlen" "\<not> 0 < mlen"
    using that by (simp add: word_neq_0_conv [symmetric])
  ultimately show ?thesis
    by (auto simp: response_UnmarshalBinary_body_def Let_def isResponse_def isIndication_def
        wire_service_def qmi_tlv.parse_Nil)
qed

lemma response_UnmarshalBinary_body_no_panic:
  assumes "data = pre @ remaining"
  shows "response_UnmarshalBinary_body data h q remaining \<noteq> Panic"
  using assms tlvs_UnmarshalBinary_no_panic
  by (auto simp: response_UnmarshalBinary_body_def Let_def bind_eq_Panic_iff subslice_eq_Panic_iff
      subslice_eq_Ret_iff split: prod.splits if_splits)

lemma list6E: "6 \<le> length xs \<Longrightarrow> \<exists>a b c d e f ys. xs = a # b # c # d # e # f # ys"
  by (auto simp: numeral_nat Suc_le_length_iff)

lemma response_UnmarshalBinary_control:
  assumes "e = 0"
  shows "response_UnmarshalBinary (a # b # c # d # e # f # t # x # m # m' # l # l' # rem) =
     (let data = a # b # c # d # e # f # t # x # m # m' # l # l' # rem;
          h = \<lparr>IfType = a, QLength = join_le16 b c, ControlFlags = d, QServiceType = e, QClientID = f\<rparr> in
      fail_if (a \<noteq> QMUXIfType) (UnexpectedQMUXMarker a)
       (fail_if (length data \<noteq> unat (join_le16 b c) + 1)
          (QMUXLengthMismatch (length data) (unat (join_le16 b c) + 1))
         (response_UnmarshalBinary_body data h (t, ucast x, join_le16 m m', join_le16 l l') rem)))"
  using assms
  by (simp add: response_UnmarshalBinary_def read_full_def read_QMUXHeader_def read_ControlHeader_def
      wire_service_def ServiceControl_def Let_def)


lemma response_UnmarshalBinary_service:
  assumes "e \<noteq> 0"
  shows "response_UnmarshalBinary (a # b # c # d # e # f # t # x # x' # m # m' # l # l' # rem) =
     (let data = a # b # c # d # e # f # t # x # x' # m # m' # l # l' # rem;
          h = \<lparr>IfType = a, QLength = join_le16 b c, ControlFlags = d, QServiceType = e, QClientID = f\<rparr> in
      fail_if (a \<noteq> QMUXIfType) (UnexpectedQMUXMarker a)
       (fail_if (length data \<noteq> unat (join_le16 b c) + 1)
          (QMUXLengthMismatch (length data) (unat (join_le16 b c) + 1))
         (response_UnmarshalBinary_body data h
            (t, join_le16 x x', join_le16 m m', join_le16 l l') rem)))"
  using assms
  by (simp add: response_UnmarshalBinary_def read_full_def read_QMUXHeader_def read_ServiceHeader_def
      wire_service_def ServiceControl_def Let_def)

text \<open>Every input is too short, a control frame, a service frame, or a service frame cut in its
  header.\<close>

lemma response_UnmarshalBinary_cases:
  obtains (short) "length data < 12"
  | (control) a b c d f t x m m' l l' rem
      where "data = a # b # c # d # 0 # f # t # x # m # m' # l # l' # rem"
  | (service) a b c d e f t x x' m m' l l' rem
      where "e \<noteq> 0" "data = a # b # c # d # e # f # t # x # x' # m # m' # l # l' # rem"
  | (cut) "length data = 12" "data ! 4 \<noteq> 0"
proof (cases "length data < 12")
  case False
  then obtain a b c d e f t x m m' l l' rem
    where d: "data = a # b # c # d # e # f # t # x # m # m' # l # l' # rem"
    by (auto simp: numeral_nat Suc_le_length_iff not_less)
  show thesis
  proof (cases "e = 0")
    case True
    with d control show thesis by blast
  next
    case False
    with d service cut show thesis by (cases rem) (auto simp: numeral_nat)
  qed
qed (use short in blast)

lemma response_UnmarshalBinary_cut:
  assumes "length data = 12" "data ! 4 \<noteq> 0"
  shows "\<exists>e. response_UnmarshalBinary data = Fail e"
  using assms
  by (simp add: response_UnmarshalBinary_def read_full_def read_QMUXHeader_def wire_service_def
      ServiceControl_def Let_def fail_if_def)

lemma response_UnmarshalBinary_no_panic: "response_UnmarshalBinary data \<noteq> Panic"
proof (cases data rule: response_UnmarshalBinary_cases)
  case short
  then show ?thesis by (simp add: response_UnmarshalBinary_def)
next
  case (control a b c d f t x m m' l l' rem)
  then show ?thesis
    using response_UnmarshalBinary_body_no_panic
      [of data "[a, b, c, d, 0, f, t, x, m, m', l, l']" rem]
    by (simp add: response_UnmarshalBinary_control Let_def)
next
  case (service a b c d e f t x x' m m' l l' rem)
  then show ?thesis
    using response_UnmarshalBinary_body_no_panic
      [of data "[a, b, c, d, e, f, t, x, x', m, m', l, l']" rem]
    by (simp add: response_UnmarshalBinary_service Let_def)
next
  case cut
  then show ?thesis by (auto dest: response_UnmarshalBinary_cut)
qed

lemma wire_service_0_iff: "wire_service r = ServiceControl \<longleftrightarrow> QServiceType r = 0"
  by (simp add: wire_service_def ServiceControl_def)

lemma wire_layout_nonempty: "12 \<le> length (wire_layout r)"
  by (simp add: wire_layout_def qmi_header_def)

lemma put_le16_Cons: "put_le16 w = [ucast w, ucast (drop_bit 8 w)]"
  by (fact put_le16_def)

lemma control_txn_narrow: "w \<le> 0xFF \<Longrightarrow> ucast (ucast (w :: u16) :: byte) = w"
proof -
  assume "w \<le> 0xFF"
  then have "unat w < 256" by (simp add: word_le_nat_alt)
  then have "unat (ucast w :: byte) = unat w" by (simp add: unsigned_ucast_eq take_bit_nat_eq_self_iff)
  then show ?thesis by (simp add: word_unat_eq_iff)
qed

lemma control_txn_le [simp]: "(ucast (x :: byte) :: u16) \<le> 0xFF"
  using unat_byte_le [of x] by (simp add: word_le_nat_alt)

lemma ucast_ucast_byte_u16 [simp]: "ucast (ucast (x :: byte) :: u16) = x"
  by (rule bit_word_eqI) (auto simp: bit_simps)

lemma response_UnmarshalBinary_layout:
  assumes "wire_wf r"
  shows "response_UnmarshalBinary (wire_layout r) = Ret r"
proof -
  let ?tl = "concat (map tlv_emit (w_TLVs r))"
  have p: "tlvs_UnmarshalBinary ?tl = Ret (w_TLVs r)"
    using assms by (intro qmi_tlv.parse_emit) (simp add: wire_wf_def)
  show ?thesis
  proof (cases "QServiceType r = 0")
    case True
    with assms p show ?thesis
      by (cases r)
         (auto simp: wire_layout_def qmi_header_def put_le16_def wire_service_0_iff wire_wf_def
            response_UnmarshalBinary_control Let_def control_txn_narrow
            response_UnmarshalBinary_body_Ret_iff [where pre = "_ # _ # _ # _ # _ # _ # _ # _ # _ # _ # _ # [_]"]
            isResponse_def isIndication_def)
  next
    case False
    with assms p show ?thesis
      by (cases r)
         (auto simp: wire_layout_def qmi_header_def put_le16_def wire_service_0_iff wire_wf_def
            response_UnmarshalBinary_service Let_def
            response_UnmarshalBinary_body_Ret_iff [where pre = "_ # _ # _ # _ # _ # _ # _ # _ # _ # _ # _ # _ # [_]"]
            isResponse_def isIndication_def)
  qed
qed

lemma response_UnmarshalBinary_sound:
  assumes "response_UnmarshalBinary data = Ret r"
  shows "wire_wf r \<and> wire_layout r = data"
proof (cases data rule: response_UnmarshalBinary_cases)
  case short
  with assms show ?thesis by (simp add: response_UnmarshalBinary_def)
next
  case (control a b c d f t x m m' l l' rem)
  with assms show ?thesis
    by (auto simp: response_UnmarshalBinary_control Let_def qmi_tlv.parse_iff
        response_UnmarshalBinary_body_Ret_iff [where pre = "[a, b, c, d, 0, f, t, x, m, m', l, l']"]
        wire_wf_def wire_layout_def qmi_header_def wire_service_0_iff isResponse_def isIndication_def)
next
  case (service a b c d e f t x x' m m' l l' rem)
  with assms show ?thesis
    by (auto simp: response_UnmarshalBinary_service Let_def qmi_tlv.parse_iff
        response_UnmarshalBinary_body_Ret_iff [where pre = "[a, b, c, d, e, f, t, x, x', m, m', l, l']"]
        wire_wf_def wire_layout_def qmi_header_def wire_service_0_iff isResponse_def isIndication_def)
next
  case cut
  with assms show ?thesis by (auto dest: response_UnmarshalBinary_cut)
qed

section \<open>Frames\<close>

lemma readFrame_framed:
  assumes "frame = i # a # b # body" "unat (join_le16 a b) + 1 = length frame"
  shows "readFrame (frame @ rest) = (Ret frame, length frame, rest)"
  using assms by (simp add: readFrame_def read_full_def Let_def numeral_nat)

lemma readFrame_Ret:
  assumes "readFrame s = (Ret frame, n, rest)"
  shows "s = frame @ rest \<and> n = length frame \<and> 3 \<le> length frame
    \<and> unat (join_le16 (frame ! 1) (frame ! 2)) + 1 = length frame"
  using assms
  by (auto simp: readFrame_def Let_def read_full_None nth_append split: prod.splits option.splits if_splits)

lemma length_request_sdu:
  "length (request_sdu req payload) = (if rq_Service req = ServiceControl then 6 else 7) + length payload"
  by (simp add: request_sdu_def)

lemma marshalRequest_eq_Ret_iff:
  "marshalRequest req = Ret pkt \<longleftrightarrow>
     validateRequest req = None
     \<and> list_all tlv_valid (rq_TLVs req)
     \<and> (let payload = concat (map tlv_emit (rq_TLVs req)); sdu = request_sdu req payload
        in length payload \<le> (if rq_Service req = ServiceControl then 65523 else 65522)
           \<and> pkt = [QMUXIfType] @ put_le16 (of_nat (length sdu + 5))
                  @ [QMUXControlFlagRequest, ucast (rq_Service req), rq_ClientID req] @ sdu)"
  by (auto simp: marshalRequest_def Let_def tlvs_MarshalBinary_eq_Ret_iff MaxQMUXControlTLVLength_def
      MaxQMUXServiceTLVLength_def not_less split: option.splits)

lemma marshalRequest_no_panic: "marshalRequest req \<noteq> Panic"
  by (auto simp: marshalRequest_def Let_def bind_eq_Panic_iff tlvs_MarshalBinary_def
      split: option.splits prod.splits)

lemma marshalRequest_frame:
  assumes "marshalRequest req = Ret pkt"
  shows "\<exists>a b body. pkt = QMUXIfType # a # b # body \<and> unat (join_le16 a b) + 1 = length pkt
    \<and> length pkt \<le> 65535"
proof -
  obtain sdu tl where pkt: "pkt = [QMUXIfType] @ put_le16 (of_nat (length sdu + 5)) @ tl @ sdu"
    and tl: "length tl = 3" and "length sdu \<le> 65529"
  proof
    let ?sdu = "request_sdu req (concat (map tlv_emit (rq_TLVs req)))"
    show "pkt = [QMUXIfType] @ put_le16 (of_nat (length ?sdu + 5))
        @ [QMUXControlFlagRequest, ucast (rq_Service req), rq_ClientID req] @ ?sdu"
      and "length ?sdu \<le> 65529"
      using assms by (simp_all add: marshalRequest_eq_Ret_iff Let_def length_request_sdu split: if_splits)
  qed simp
  moreover from this have "unat (of_nat (length sdu + 5) :: u16) = length sdu + 5"
    by (intro unat_of_nat_u16) simp
  ultimately show ?thesis by (simp add: put_le16_def)
qed

section \<open>Properties\<close>

text \<open>C6: the QMUX decoder never panics, and it accepts a byte string as a message \<open>r\<close> exactly when
  \<open>r\<close> is well formed (interface type, both length fields, message type, transaction width and
  TLV lengths all consistent) and the byte string is the reference layout of \<open>r\<close>.\<close>

theorem response_UnmarshalBinary_iff_layout:
  "response_UnmarshalBinary data \<noteq> Panic
   \<and> (response_UnmarshalBinary data = Ret r \<longleftrightarrow> wire_wf r \<and> wire_layout r = data)"
  using response_UnmarshalBinary_no_panic response_UnmarshalBinary_sound
    response_UnmarshalBinary_layout by blast

text \<open>Framing is unambiguous: whatever the encoder produces has at most 65535 bytes, carries its
  own length, and is read back whole by the frame reader, which leaves the following bytes of
  the stream untouched and reports the exact count.\<close>

theorem readFrame_marshalRequest:
  assumes "marshalRequest req = Ret pkt"
  shows "readFrame (pkt @ rest) = (Ret pkt, length pkt, rest) \<and> length pkt \<le> 65535"
  using marshalRequest_frame [OF assms] readFrame_framed [of pkt] by blast

theorem readFrame_marshalRequest_witness:
  "readFrame ([1, 0x10, 0, 0, 0, 0, 0, 1, 0x22, 0, 5, 0, 1, 2, 0, 0x0B, 0x0C] @ [1, 2])
     = (Ret [1, 0x10, 0, 0, 0, 0, 0, 1, 0x22, 0, 5, 0, 1, 2, 0, 0x0B, 0x0C],
        length [1 :: byte, 0x10, 0, 0, 0, 0, 0, 1, 0x22, 0, 5, 0, 1, 2, 0, 0x0B, 0x0C], [1, 2])
   \<and> length [1 :: byte, 0x10, 0, 0, 0, 0, 0, 1, 0x22, 0, 5, 0, 1, 2, 0, 0x0B, 0x0C] \<le> 65535"
  by (rule readFrame_marshalRequest
      [where req = "\<lparr>rq_Service = 0, rq_ClientID = 0, rq_TransactionID = 1, rq_MessageID = 0x22,
                     rq_Timeout = 0, rq_TLVs = [tlv_Bytes 1 [0x0B, 0x0C]]\<rparr>"])
     (simp add: marshalRequest_eq_Ret_iff validateRequest_def ServiceControl_def tlv_valid_def
        tlv_Bytes_def tlv_emit_def request_sdu_def put_le16_def MessageTypeRequest_def
        QMUXIfType_def QMUXControlFlagRequest_def Let_def)

text \<open>The request encoder accepts exactly the requests whose service fits eight bits, whose
  transaction is nonzero (and fits eight bits, with client zero, on the control service), whose
  items are well formed and whose payload fits the frame.\<close>

theorem marshalRequest_accepts_iff:
  "(\<exists>pkt. marshalRequest req = Ret pkt) \<longleftrightarrow>
     rq_Service req \<le> 0xFF \<and> rq_TransactionID req \<noteq> 0
     \<and> (if rq_Service req = ServiceControl then rq_ClientID req = 0 \<and> rq_TransactionID req \<le> 0xFF else True)
     \<and> list_all (\<lambda>t. unat (tlv_Len t) = length (tlv_Value t)) (rq_TLVs req)
     \<and> length (concat (map tlv_emit (rq_TLVs req)))
         \<le> (if rq_Service req = ServiceControl then 65523 else 65522)"
proof -
  have "tlv_valid = (\<lambda>t. unat (tlv_Len t) = length (tlv_Value t))"
    by (simp add: fun_eq_iff tlv_valid_def)
  then show ?thesis
    by (auto simp: marshalRequest_eq_Ret_iff validateRequest_def Let_def not_less split: if_splits)
qed

end
