(* ===== verification/Qmi_Subscription.thy ===== *)
theory Qmi_Subscription
  imports Qmi_Wire
begin

text \<open>
  One indication subscription (\<^verbatim>\<open>qcom/qmi/transport.go\<close>, type \<open>subscription\<close>): an unbounded queue
  filled by the reader, a runner goroutine that moves the queue into a channel of capacity 16,
  and a consumer. The statements between two lock or channel operations are one step, so the
  step relation has every interleaving of reader, runner, consumer and canceller.
\<close>

section \<open>State\<close>

text \<open>
  Where \<open>run\<close> stands: about to call \<open>next\<close>; in the select that sends \<open>ind\<close>; in the select
  that waits for \<open>notify\<close>; in \<open>flushBuffered\<close> before \<open>next\<close> or with an indication to send;
  returned (\<open>ch\<close> and \<open>done\<close> closed).
\<close>

datatype run_pc =
    Looping
  | Sending Message
  | Waiting_notify
  | Flushing
  | Flush_sending Message
  | Finished

record subscription =
  s_service :: ServiceType
  s_client :: byte
  s_message :: MessageID
  s_owner :: "nat option"
  s_queue :: "Message list"
  s_stopped :: bool
  s_ch :: "Message list"
  s_notify :: bool
  s_notifying :: nat
  s_cancelled :: bool
  s_pc :: run_pc

definition sub_capacity :: nat where "sub_capacity = 16"

definition newSubscription :: "ServiceType \<Rightarrow> byte \<Rightarrow> MessageID \<Rightarrow> subscription" where
  "newSubscription service clientID message =
     \<lparr>s_service = service, s_client = clientID, s_message = message, s_owner = None, s_queue = [],
      s_stopped = False, s_ch = [], s_notify = False, s_notifying = 0, s_cancelled = False,
      s_pc = Looping\<rparr>"

section \<open>Operations\<close>

definition sub_next :: "subscription \<Rightarrow> (Message \<times> subscription) option" where
  "sub_next s = (case s_queue s of [] \<Rightarrow> None | ind # rest \<Rightarrow> Some (ind, s\<lparr>s_queue := rest\<rparr>))"

text \<open>
  \<open>enqueue\<close> appends under the lock and then, unlocked, tries to put a token into \<open>notify\<close>;
  \<open>s_notifying\<close> counts the calls between the two.
\<close>

definition sub_enqueue :: "Message \<Rightarrow> subscription \<Rightarrow> subscription" where
  "sub_enqueue ind s =
     (if s_stopped s then s
      else s\<lparr>s_queue := s_queue s @ [ind], s_notifying := s_notifying s + 1\<rparr>)"

definition sub_notify :: "subscription \<Rightarrow> subscription" where
  "sub_notify s = s\<lparr>s_notify := True, s_notifying := s_notifying s - 1\<rparr>"

text \<open>
  \<open>stop\<close> marks the subscription under its lock and then cancels its context; the step relation
  below has the two effects as separate steps.
\<close>

definition sub_stop :: "subscription \<Rightarrow> subscription" where
  "sub_stop s = s\<lparr>s_stopped := True, s_cancelled := True\<rparr>"

section \<open>Interleaved execution\<close>

datatype sub_event = Accepted Message | Delivered Message | Silent

inductive sub_step :: "subscription \<Rightarrow> sub_event \<Rightarrow> subscription \<Rightarrow> bool" where
  Enqueue: "\<not> s_stopped s \<Longrightarrow> sub_step s (Accepted ind) (sub_enqueue ind s)"
| EnqueueStopped: "s_stopped s \<Longrightarrow> sub_step s Silent (sub_enqueue ind s)"
| Notify: "s_notifying s > 0 \<Longrightarrow> sub_step s Silent (sub_notify s)"
| StopMark: "sub_step s Silent (s\<lparr>s_stopped := True\<rparr>)"
| Cancel: "sub_step s Silent (s\<lparr>s_cancelled := True\<rparr>)"
| Receive: "s_ch s = ind # rest \<Longrightarrow> sub_step s (Delivered ind) (s\<lparr>s_ch := rest\<rparr>)"
| Next: "s_pc s = Looping \<Longrightarrow> sub_next s = Some (ind, s') \<Longrightarrow> sub_step s Silent (s'\<lparr>s_pc := Sending ind\<rparr>)"
| Empty: "s_pc s = Looping \<Longrightarrow> sub_next s = None \<Longrightarrow> sub_step s Silent (s\<lparr>s_pc := Waiting_notify\<rparr>)"
| Send: "s_pc s = Sending ind \<Longrightarrow> length (s_ch s) < sub_capacity
    \<Longrightarrow> sub_step s Silent (s\<lparr>s_ch := s_ch s @ [ind], s_pc := Looping\<rparr>)"
| SendCancelled: "s_pc s = Sending ind \<Longrightarrow> s_cancelled s
    \<Longrightarrow> sub_step s Silent (s\<lparr>s_pc := Flush_sending ind\<rparr>)"
| Wake: "s_pc s = Waiting_notify \<Longrightarrow> s_notify s
    \<Longrightarrow> sub_step s Silent (s\<lparr>s_notify := False, s_pc := Looping\<rparr>)"
| WaitCancelled: "s_pc s = Waiting_notify \<Longrightarrow> s_cancelled s
    \<Longrightarrow> sub_step s Silent (s\<lparr>s_pc := Flushing\<rparr>)"
| FlushNext: "s_pc s = Flushing \<Longrightarrow> sub_next s = Some (ind, s')
    \<Longrightarrow> sub_step s Silent (s'\<lparr>s_pc := Flush_sending ind\<rparr>)"
| FlushEmpty: "s_pc s = Flushing \<Longrightarrow> sub_next s = None \<Longrightarrow> sub_step s Silent (s\<lparr>s_pc := Finished\<rparr>)"
| FlushSend: "s_pc s = Flush_sending ind \<Longrightarrow> length (s_ch s) < sub_capacity
    \<Longrightarrow> sub_step s Silent (s\<lparr>s_ch := s_ch s @ [ind], s_pc := Flushing\<rparr>)"
| FlushFull: "s_pc s = Flush_sending ind \<Longrightarrow> length (s_ch s) \<ge> sub_capacity
    \<Longrightarrow> sub_step s Silent (s\<lparr>s_pc := Finished\<rparr>)"

inductive sub_run :: "subscription \<Rightarrow> sub_event list \<Rightarrow> subscription \<Rightarrow> bool" where
  Start: "sub_run s [] s"
| Step: "sub_run s tr s' \<Longrightarrow> sub_step s' e s'' \<Longrightarrow> sub_run s (tr @ [e]) s''"

fun accepted :: "sub_event list \<Rightarrow> Message list" where
  "accepted [] = []"
| "accepted (Accepted m # es) = m # accepted es"
| "accepted (_ # es) = accepted es"

fun delivered :: "sub_event list \<Rightarrow> Message list" where
  "delivered [] = []"
| "delivered (Delivered m # es) = m # delivered es"
| "delivered (_ # es) = delivered es"

text \<open>What the runner holds between the queue and the channel.\<close>

fun held :: "run_pc \<Rightarrow> Message list" where
  "held (Sending ind) = [ind]"
| "held (Flush_sending ind) = [ind]"
| "held _ = []"

lemma accepted_append [simp]: "accepted (xs @ ys) = accepted xs @ accepted ys"
  by (induction xs rule: accepted.induct) simp_all

lemma delivered_append [simp]: "delivered (xs @ ys) = delivered xs @ delivered ys"
  by (induction xs rule: delivered.induct) simp_all

lemma sub_next_eq_Some_iff:
  "sub_next s = Some (ind, s') \<longleftrightarrow> (\<exists>rest. s_queue s = ind # rest \<and> s' = s\<lparr>s_queue := rest\<rparr>)"
  by (auto simp: sub_next_def split: list.splits)

lemma sub_next_eq_None_iff: "sub_next s = None \<longleftrightarrow> s_queue s = []"
  by (auto simp: sub_next_def split: list.splits)

lemmas sub_op_defs =
  sub_enqueue_def sub_notify_def sub_stop_def sub_next_eq_Some_iff sub_next_eq_None_iff

section \<open>Invariant\<close>

text \<open>
  Relative to the trace: what was delivered, what sits in the channel, what the runner holds and
  what is queued concatenate to what was accepted, as long as the runner is alive; a finished
  runner may have dropped a tail. A runner waits for a token only if a token is there or coming
  whenever the queue is not empty. The runner stops only after a cancellation.
\<close>

definition sub_inv :: "sub_event list \<Rightarrow> subscription \<Rightarrow> bool" where
  "sub_inv tr s \<longleftrightarrow>
     length (s_ch s) \<le> sub_capacity
     \<and> (s_pc s \<noteq> Finished \<longrightarrow>
          accepted tr = delivered tr @ s_ch s @ held (s_pc s) @ s_queue s)
     \<and> (\<exists>lost. accepted tr = delivered tr @ s_ch s @ lost)
     \<and> (s_pc s = Waiting_notify \<and> s_queue s \<noteq> [] \<longrightarrow> s_notify s \<or> s_notifying s > 0)
     \<and> (s_pc s \<in> {Flushing, Finished} \<or> (\<exists>ind. s_pc s = Flush_sending ind) \<longrightarrow> s_cancelled s)"

lemma sub_inv_new: "sub_inv [] (newSubscription service clientID message)"
  by (simp add: sub_inv_def newSubscription_def)

lemma sub_inv_step: "sub_step s e s' \<Longrightarrow> sub_inv tr s \<Longrightarrow> sub_inv (tr @ [e]) s'"
  by (induction rule: sub_step.induct) (auto simp: sub_inv_def sub_op_defs)

lemma sub_inv_run:
  "sub_run s tr s' \<Longrightarrow> sub_inv [] s \<Longrightarrow> sub_inv tr s'"
  by (induction rule: sub_run.induct) (auto intro: sub_inv_step)

section \<open>Properties\<close>

text \<open>An indication subscription is a FIFO: in every interleaving of the reader, the runner, the
  consumer and a cancellation, the delivered indications are a prefix of the accepted ones, in
  order and without duplicates; while the runner is alive nothing is lost (every accepted
  indication is delivered, in the channel, held or queued); the channel never exceeds its
  capacity of 16; and a runner waiting on an empty-queue notification while the queue is not
  empty always has a token available or one about to arrive.\<close>

theorem subscription_fifo:
  assumes "sub_run (newSubscription service clientID message) tr s"
  shows "(\<exists>later. accepted tr = delivered tr @ later)
    \<and> (s_pc s \<noteq> Finished \<longrightarrow> accepted tr = delivered tr @ s_ch s @ held (s_pc s) @ s_queue s)
    \<and> (\<not> s_cancelled s \<longrightarrow> s_pc s \<noteq> Finished)
    \<and> length (s_ch s) \<le> 16
    \<and> (s_pc s = Waiting_notify \<and> s_queue s \<noteq> [] \<longrightarrow> s_notify s \<or> s_notifying s > 0)"
  using sub_inv_run [OF assms sub_inv_new] by (auto simp: sub_inv_def sub_capacity_def)

definition sample_indication :: Message where
  "sample_indication =
     \<lparr>m_Service = 3, m_ClientID = 1, m_TransactionID = 0, m_MessageID = 0x51, m_TLVs = []\<rparr>"

lemma sample_run:
  "sub_run (newSubscription 3 1 0x51) [Accepted sample_indication, Silent, Silent]
     ((newSubscription 3 1 0x51)\<lparr>s_ch := [sample_indication], s_notifying := 1\<rparr>)"
proof -
  let ?s0 = "newSubscription 3 1 0x51"
  let ?s1 = "sub_enqueue sample_indication ?s0"
  let ?s2 = "?s1\<lparr>s_queue := [], s_pc := Sending sample_indication\<rparr>"
  have "sub_run ?s0 ([] @ [Accepted sample_indication]) ?s1"
    by (rule sub_run.Step [OF sub_run.Start], rule Enqueue) (simp add: newSubscription_def)
  moreover have "sub_step ?s1 Silent ?s2"
    using Next [of ?s1 sample_indication "?s1\<lparr>s_queue := []\<rparr>"]
    by (simp add: sub_op_defs newSubscription_def)
  ultimately have "sub_run ?s0 (([] @ [Accepted sample_indication]) @ [Silent]) ?s2"
    by (rule sub_run.Step)
  moreover have "sub_step ?s2 Silent (?s0\<lparr>s_ch := [sample_indication], s_notifying := 1\<rparr>)"
    using Send [of ?s2 sample_indication]
    by (simp add: sub_op_defs newSubscription_def sub_capacity_def)
  ultimately show ?thesis using sub_run.Step by fastforce
qed

theorem subscription_fifo_witness:
  "accepted [Accepted sample_indication, Silent, Silent]
     = delivered [Accepted sample_indication, Silent, Silent] @ [sample_indication]"
  using subscription_fifo [OF sample_run] by (simp add: newSubscription_def)

end
