(* ===== verification/Qmi_Transport.thy ===== *)
theory Qmi_Transport
  imports Qmi_Subscription "HOL-Library.AList" "HOL-Library.Multiset"
begin

text \<open>
  The QMI transport core (\<^verbatim>\<open>qcom/qmi/transport.go\<close>): the table of pending transactions and its
  owners, indication subscriptions, leases of a shared core, failure and close, transaction
  numbering, the dispatch of a request up to the settlement of its write, and the full write
  loop. The mutex makes each table operation atomic; the sends on result channels happen after
  the lock is released, so they are separate steps in any order. The step relation interleaves
  all of them, and its invariant gives that no send ever blocks and no waiter is lost.
\<close>

section \<open>State\<close>

type_synonym chan = nat
type_synonym lease = nat

record messageKey =
  k_service :: ServiceType
  k_client :: byte
  k_txn :: u16
  k_message :: MessageID

datatype transport_error =
    LeaseClosed
  | TransportClosed
  | AlreadyPending
  | Marshal request_error
  | ReadingMessage wire_error
  | WritingRequest
  | UncertainAllocation ctx_error
  | ContextError ctx_error
and ctx_error = Canceled | DeadlineExceeded

datatype responseResult = Response Message | ResponseErr transport_error

text \<open>
  \<open>transportCore\<close>, with the buffered result channels (\<open>results\<close>, capacity one), the sends that
  an operation still has to perform after releasing the lock (\<open>outbox\<close>; \<open>None\<close> is the nil
  channel a missing map entry would yield), the subscriptions no longer in the table
  (\<open>detached\<close>), the closed flags of the leases, and the next fresh channel.
\<close>

record core =
  pending :: "(messageKey \<times> chan) list"
  pendingOwners :: "(messageKey \<times> lease option) list"
  subs :: "(u64 \<times> subscription) list"
  detached :: "subscription list"
  nextSub :: u64
  terminalErr :: "transport_error option"
  closed :: bool
  txn :: u32
  ctlTxn :: u32
  closedLeases :: "lease list"
  outbox :: "(chan option \<times> responseResult) list"
  results :: "(chan \<times> responseResult) list"
  nextChan :: chan

text \<open>A \<open>Transport\<close> handle: shared cores are used through leases.\<close>

record handle =
  h_shared :: bool
  h_lease :: "lease option"

definition newTransportCore :: core where
  "newTransportCore =
     \<lparr>pending = [], pendingOwners = [], subs = [], detached = [], nextSub = 0, terminalErr = None, closed = False,
      txn = 0, ctlTxn = 0, closedLeases = [], outbox = [], results = [], nextChan = 0\<rparr>"

definition lease_closed :: "handle \<Rightarrow> core \<Rightarrow> bool" where
  "lease_closed t c = (case h_lease t of None \<Rightarrow> False | Some l \<Rightarrow> l \<in> set (closedLeases c))"

section \<open>The table of pending transactions\<close>

definition addPending ::
  "handle \<Rightarrow> messageKey \<Rightarrow> chan \<Rightarrow> core \<Rightarrow> (transport_error, core) outcome" where
  "addPending t key ch c =
     (if lease_closed t c then Fail LeaseClosed
      else case terminalErr c of Some e \<Rightarrow> Fail e | None \<Rightarrow>
        if closed c then Fail TransportClosed
        else if map_of (pending c) key \<noteq> None then Fail AlreadyPending
        else Ret (c\<lparr>pending := AList.update key ch (pending c),
                     pendingOwners := AList.update key (h_lease t) (pendingOwners c)\<rparr>))"

definition removePending :: "messageKey \<Rightarrow> core \<Rightarrow> core" where
  "removePending key c =
     c\<lparr>pending := AList.delete key (pending c), pendingOwners := AList.delete key (pendingOwners c)\<rparr>"

definition expirePending :: "messageKey \<Rightarrow> chan \<Rightarrow> core \<Rightarrow> bool \<times> core" where
  "expirePending key ch c =
     (if map_of (pending c) key \<noteq> Some ch then (False, c)
      else (True, c\<lparr>pending := AList.delete key (pending c),
                     pendingOwners := AList.delete key (pendingOwners c)\<rparr>))"

definition response_key :: "Message \<Rightarrow> messageKey" where
  "response_key resp =
     \<lparr>k_service = m_Service resp,
      k_client = (if m_Service resp = ServiceControl then 0 else m_ClientID resp),
      k_txn = m_TransactionID resp, k_message = m_MessageID resp\<rparr>"

definition deliverResponse :: "Message \<Rightarrow> core \<Rightarrow> core" where
  "deliverResponse resp c =
     (let key = response_key resp in
      case map_of (pending c) key of
        None \<Rightarrow> c
      | Some ch \<Rightarrow>
          c\<lparr>pending := AList.delete key (pending c),
            pendingOwners := AList.delete key (pendingOwners c),
            outbox := outbox c @ [(Some ch, Response resp)]\<rparr>)"

section \<open>Subscriptions\<close>

definition sub_matches :: "Message \<Rightarrow> subscription \<Rightarrow> bool" where
  "sub_matches ind s \<longleftrightarrow>
     s_service s = m_Service ind \<and> s_client s = m_ClientID ind \<and> s_message s = m_MessageID ind"

definition deliverIndication :: "Message \<Rightarrow> core \<Rightarrow> core" where
  "deliverIndication ind c =
     c\<lparr>subs := map (\<lambda>(i, s). (i, if sub_matches ind s then sub_enqueue ind s else s)) (subs c)\<rparr>"

definition Indications ::
  "handle \<Rightarrow> ServiceType \<Rightarrow> byte \<Rightarrow> MessageID \<Rightarrow> core \<Rightarrow> (transport_error, u64 \<times> core) outcome" where
  "Indications t service clientID mid c =
     (if lease_closed t c then Fail LeaseClosed
      else case terminalErr c of Some e \<Rightarrow> Fail e | None \<Rightarrow>
        if closed c then Fail TransportClosed
        else let idn = nextSub c + 1;
                 sub = (newSubscription service clientID mid)\<lparr>s_owner := h_lease t\<rparr>
             in Ret (idn, c\<lparr>nextSub := idn, subs := AList.update idn sub (subs c)\<rparr>))"

definition removeFinishedSubscription :: "u64 \<Rightarrow> core \<Rightarrow> core" where
  "removeFinishedSubscription i c =
     (case map_of (subs c) i of
        Some sub \<Rightarrow>
          if s_pc sub = Finished
          then c\<lparr>subs := AList.delete i (subs c), detached := sub # detached c\<rparr> else c
      | None \<Rightarrow> c)"

definition removeSubscription :: "u64 \<Rightarrow> core \<Rightarrow> core" where
  "removeSubscription i c =
     c\<lparr>subs := AList.delete i (subs c),
       detached := (case map_of (subs c) i of Some sub \<Rightarrow> [sub_stop sub] | None \<Rightarrow> []) @ detached c\<rparr>"

section \<open>Failure, close, leases\<close>

definition fail :: "transport_error \<Rightarrow> core \<Rightarrow> core" where
  "fail e c =
     (if closed c then c
      else c\<lparr>closed := True, terminalErr := Some e, pending := [], pendingOwners := [], subs := [],
             detached := map (sub_stop \<circ> snd) (subs c) @ detached c,
             outbox := outbox c @ map (\<lambda>(k, ch). (Some ch, ResponseErr e)) (pending c)\<rparr>)"

text \<open>\<open>closeCore\<close> closes the connection (its error does not touch the state) and fails the core.\<close>

definition closeCore :: "core \<Rightarrow> core" where
  "closeCore c = fail TransportClosed c"

text \<open>
  \<open>closeLease\<close> first marks the lease (a compare-and-swap outside the lock), then sweeps the tables
  under the lock: \<open>t.pending[key]\<close> of an owned key is \<open>map_of (pending c) key\<close>, the nil channel if
  the key were missing.
\<close>

definition owned_by :: "lease \<Rightarrow> core \<Rightarrow> messageKey list" where
  "owned_by l c = map fst (filter (\<lambda>(k, owner). owner = Some l) (pendingOwners c))"

definition closeLease_mark :: "lease \<Rightarrow> core \<Rightarrow> core" where
  "closeLease_mark l c = c\<lparr>closedLeases := l # closedLeases c\<rparr>"

definition closeLease_sweep :: "lease \<Rightarrow> core \<Rightarrow> core" where
  "closeLease_sweep l c =
     (let keys = owned_by l c in
      c\<lparr>pending := filter (\<lambda>(k, ch). k \<notin> set keys) (pending c),
        pendingOwners := filter (\<lambda>(k, owner). owner \<noteq> Some l) (pendingOwners c),
        subs := filter (\<lambda>(i, s). s_owner s \<noteq> Some l) (subs c),
        detached := map (sub_stop \<circ> snd) (filter (\<lambda>(i, s). s_owner s = Some l) (subs c)) @ detached c,
        outbox := outbox c @ map (\<lambda>k. (map_of (pending c) k, ResponseErr LeaseClosed)) keys\<rparr>)"

definition closeLease :: "lease \<Rightarrow> core \<Rightarrow> core" where
  "closeLease l c =
     (if l \<in> set (closedLeases c) then c else closeLease_sweep l (closeLease_mark l c))"

section \<open>Transaction identifiers\<close>

text \<open>
  \<open>nextTransactionID\<close> draws from a 32-bit counter until the truncated value is nonzero. The
  loop ends: if one draw truncates to zero, the next one does not.
\<close>

lemma ucast_succ:
  "(ucast (n + 1 :: u32) :: byte) = ucast n + 1" "(ucast (n + 1 :: u32) :: u16) = ucast n + 1"
proof -
  have "unat (ucast (n + 1 :: u32) :: byte) = unat (ucast n + 1 :: byte)"
    by (simp add: unat_word_ariths unsigned_ucast_eq take_bit_eq_mod mod_simps mod_mod_cancel)
  then show "(ucast (n + 1 :: u32) :: byte) = ucast n + 1" by (simp add: word_unat_eq_iff)
  have "unat (ucast (n + 1 :: u32) :: u16) = unat (ucast n + 1 :: u16)"
    by (simp add: unat_word_ariths unsigned_ucast_eq take_bit_eq_mod mod_simps mod_mod_cancel)
  then show "(ucast (n + 1 :: u32) :: u16) = ucast n + 1" by (simp add: word_unat_eq_iff)
qed

function nextControlTxn :: "u32 \<Rightarrow> u16 \<times> u32" where
  "nextControlTxn n =
     (let n' = n + 1; t = (ucast n' :: byte) in
      if t \<noteq> 0 then (ucast t, n') else nextControlTxn n')"
  by pat_completeness auto
termination
  by (relation "measure (\<lambda>n. if (ucast (n + 1) :: byte) = 0 then 1 else 0)")
     (auto simp: ucast_succ)

function nextServiceTxn :: "u32 \<Rightarrow> u16 \<times> u32" where
  "nextServiceTxn n =
     (let n' = n + 1; t = (ucast n' :: u16) in
      if t \<noteq> 0 then (t, n') else nextServiceTxn n')"
  by pat_completeness auto
termination
  by (relation "measure (\<lambda>n. if (ucast (n + 1) :: u16) = 0 then 1 else 0)")
     (auto simp: ucast_succ)

declare nextControlTxn.simps [simp del] nextServiceTxn.simps [simp del]

definition nextTransactionID :: "ServiceType \<Rightarrow> core \<Rightarrow> u16 \<times> core" where
  "nextTransactionID service c =
     (if service = ServiceControl
      then (case nextControlTxn (ctlTxn c) of (t, n) \<Rightarrow> (t, c\<lparr>ctlTxn := n\<rparr>))
      else (case nextServiceTxn (txn c) of (t, n) \<Rightarrow> (t, c\<lparr>txn := n\<rparr>)))"

section \<open>Dispatch\<close>

definition MessageAllocateClientID :: MessageID where "MessageAllocateClientID = 0x0022"

definition isClientIDAllocation :: "Request \<Rightarrow> bool" where
  "isClientIDAllocation req \<longleftrightarrow>
     rq_Service req = ServiceControl \<and> rq_MessageID req = MessageAllocateClientID"

definition request_key :: "Request \<Rightarrow> messageKey" where
  "request_key req =
     \<lparr>k_service = (if rq_Service req \<noteq> ServiceControl then rq_Service req else ServiceControl),
      k_client = rq_ClientID req, k_txn = rq_TransactionID req, k_message = rq_MessageID req\<rparr>"

text \<open>\<open>Dispatch\<close> up to the registration of the pending transaction on a fresh channel.\<close>

definition dispatch_begin ::
  "handle \<Rightarrow> Request \<Rightarrow> core \<Rightarrow> (transport_error, Request \<times> bytes \<times> chan) outcome \<times> core" where
  "dispatch_begin t req c =
     (case (if h_shared t
            then (case nextTransactionID (rq_Service req) c of
                    (tid, c1) \<Rightarrow> (req\<lparr>rq_TransactionID := tid\<rparr>, c1))
            else (req, c)) of
        (req', c1) \<Rightarrow>
          (case marshalRequest req' of
             Fail e \<Rightarrow> (Fail (Marshal e), c1)
           | Panic \<Rightarrow> (Panic, c1)
           | Ret packet \<Rightarrow>
               let ch = nextChan c1; c2 = c1\<lparr>nextChan := ch + 1\<rparr> in
               (case addPending t (request_key req') ch c2 of
                  Fail e \<Rightarrow> (Fail e, c2)
                | Panic \<Rightarrow> (Panic, c2)
                | Ret c3 \<Rightarrow> (Ret (req', packet, ch), c3))))"

text \<open>
  What \<open>Dispatch\<close> does when the write of a packet of \<open>len\<close> bytes failed after \<open>written\<close>
  bytes: \<open>interrupted\<close> is \<open>writeInterruptedByContext\<close> of the write error and \<open>ctxErr\<close> the
  error of the request context. \<open>None\<close> means that the response had already been claimed and
  the dispatcher waits for it on its channel.
\<close>

definition dispatch_write_failed ::
  "Request \<Rightarrow> messageKey \<Rightarrow> chan \<Rightarrow> nat \<Rightarrow> nat \<Rightarrow> bool \<Rightarrow> ctx_error option \<Rightarrow> core
     \<Rightarrow> transport_error option \<times> core" where
  "dispatch_write_failed req key ch len written interrupted ctxErr c =
     (case expirePending key ch c of
        (False, c1) \<Rightarrow> (None, c1)
      | (True, c1) \<Rightarrow>
          (case ctxErr of
             Some e \<Rightarrow>
               if interrupted \<and> (written = 0 \<or> written = len)
               then (if written = len \<and> isClientIDAllocation req
                     then (Some (UncertainAllocation e), fail (UncertainAllocation e) c1)
                     else (Some (ContextError e), c1))
               else (Some WritingRequest, fail WritingRequest c1)
           | None \<Rightarrow> (Some WritingRequest, fail WritingRequest c1)))"

text \<open>The wait function when the request context ends before a result arrives.\<close>

definition wait_expired ::
  "Request \<Rightarrow> messageKey \<Rightarrow> chan \<Rightarrow> ctx_error \<Rightarrow> core \<Rightarrow> transport_error option \<times> core" where
  "wait_expired req key ch e c =
     (case expirePending key ch c of
        (False, c1) \<Rightarrow> (None, c1)
      | (True, c1) \<Rightarrow>
          if isClientIDAllocation req
          then (Some (UncertainAllocation e), fail (UncertainAllocation e) c1)
          else (Some (ContextError e), c1))"

section \<open>The write loop\<close>

function writeFull ::
  "('w, 'x) go_writer \<Rightarrow> 'w \<Rightarrow> bytes \<Rightarrow> int \<Rightarrow> 'w \<times> int \<times> 'x write_error option" where
  "writeFull w s p written =
     (if length p > 0 then
        (case w s p of (s', n, e) \<Rightarrow>
          if n < 0 \<or> n > int (length p)
          then (s', written,
                Some (case e of Some x \<Rightarrow> WriterError x | None \<Rightarrow> InvalidWriteCount n (length p)))
          else (case e of
                  Some x \<Rightarrow> (s', written + n, Some (WriterError x))
                | None \<Rightarrow>
                    if n = 0 then (s', written + n, Some ErrShortWrite)
                    else writeFull w s' (drop (nat n) p) (written + n)))
      else (s, written, None))"
  by pat_completeness auto
termination
  by (relation "measure (\<lambda>(w, s, p, written). length p)") auto

declare writeFull.simps [simp del]

section \<open>The read loop\<close>

text \<open>One decoded message.\<close>

definition handleMessage :: "WireResponse \<Rightarrow> core \<Rightarrow> core" where
  "handleMessage wire c =
     (if isResponse wire then deliverResponse (qcomResponse wire) c
      else if isIndication wire then deliverIndication (qcomIndication wire) c
      else c)"

lemma response_ReadFrom_shorter:
  assumes "response_ReadFrom s = (r, n, rest)"
    and "(\<exists>w. r = Ret w) \<or> (\<exists>b. r = Fail (UnexpectedServiceMessageType b))"
  shows "length rest < length s"
proof -
  obtain f where f: "readFrame s = (f, n, rest)" and r: "r = bind f response_UnmarshalBinary"
    using assms(1) by (auto simp: response_ReadFrom_def split: prod.splits)
  have "f \<noteq> Fail (UnexpectedServiceMessageType b)" for b
    using f by (auto simp: readFrame_def Let_def split: prod.splits option.splits if_splits)
  with assms(2) r obtain frame where "f = Ret frame" by (cases f) auto
  with f readFrame_Ret [of s frame n rest] show ?thesis by auto
qed

text \<open>
  \<open>readLoop\<close> on the bytes the connection will still deliver: it ends, because every turn consumes
  a frame, and the end of the stream is an error of the frame reader.
\<close>

function readLoop :: "bytes \<Rightarrow> core \<Rightarrow> core" where
  "readLoop s c =
     (case response_ReadFrom s of
        (Ret wire, n, rest) \<Rightarrow> readLoop rest (handleMessage wire c)
      | (Fail (UnexpectedServiceMessageType b), n, rest) \<Rightarrow> readLoop rest c
      | (Fail e, n, rest) \<Rightarrow> fail (ReadingMessage e) c
      | (Panic, n, rest) \<Rightarrow> c)"
  by pat_completeness auto
termination
  by (relation "measure (\<lambda>(s, c). length s)") (auto dest: response_ReadFrom_shorter [OF sym])

declare readLoop.simps [simp del]

section \<open>Lemmas: tables\<close>

lemma update_fresh: "map_of al k = None \<Longrightarrow> AList.update k v al = al @ [(k, v)]"
  by (induction al) (auto split: if_splits)

lemma map_of_Some_snd: "distinct (map fst al) \<Longrightarrow> map (Some \<circ> snd) al = map (map_of al) (map fst al)"
  by (auto simp: map_of_eq_Some_iff)

lemma mset_partition_map:
  "mset (map f xs) = mset (map f (filter (\<lambda>x. \<not> P x) xs)) + mset (map f (filter P xs))"
  by (induction xs) auto

text \<open>Taking out a set of keys splits the channels of a table into the kept and the taken.\<close>

lemma mset_split_keys:
  assumes "distinct (map fst al)" "distinct ks" "set ks \<subseteq> set (map fst al)"
  shows "mset (map (Some \<circ> snd) al)
       = mset (map (Some \<circ> snd) (filter (\<lambda>(k, v). k \<notin> set ks) al)) + mset (map (map_of al) ks)"
proof -
  let ?keys = "map fst al"
  have kept: "map (Some \<circ> snd) (filter (\<lambda>(k, v). k \<notin> set ks) al)
      = map (map_of al) (filter (\<lambda>k. k \<notin> set ks) ?keys)"
    using assms(1) by (auto simp: filter_map comp_def case_prod_unfold map_of_eq_Some_iff)
  have "mset ks = mset (filter (\<lambda>k. k \<in> set ks) ?keys)"
    using assms by (subst set_eq_iff_mset_eq_distinct [symmetric]) auto
  then have "mset (map (map_of al) ks) = mset (map (map_of al) (filter (\<lambda>k. k \<in> set ks) ?keys))"
    by (simp only: mset_map)
  moreover note mset_partition_map [of "map_of al" ?keys "\<lambda>k. k \<in> set ks"]
  ultimately show ?thesis
    by (simp only: map_of_Some_snd [OF assms(1)] kept)
qed

lemma delete_filter: "AList.delete k al = filter (\<lambda>(k', v). k' \<notin> {k}) al"
  by (auto simp: AList.delete_eq intro: filter_cong)

lemma mset_take_key:
  assumes "distinct (map fst al)" "map_of al k = Some v"
  shows "mset (map (Some \<circ> snd) al) = mset (map (Some \<circ> snd) (AList.delete k al)) + {#Some v#}"
proof -
  have "k \<in> fst ` set al" using assms(2) by (force dest: map_of_SomeD)
  then show ?thesis
    using mset_split_keys [of al "[k]"] assms(1) unfolding delete_filter by (simp add: assms(2) del: mset_filter)
qed

lemma fst_delete: "fst ` set (AList.delete k al) = fst ` set al - {k}"
  by (force simp: delete_filter)

lemma distinct_submset: "mset xs \<subseteq># mset ys \<Longrightarrow> distinct ys \<Longrightarrow> distinct xs"
  by (metis distinct_append mset_append mset_eq_imp_distinct_iff mset_subset_eq_exists_conv ex_mset)

section \<open>Invariant of the core\<close>

text \<open>Every channel the core can still send on or has sent on.\<close>

definition chans :: "core \<Rightarrow> chan option list" where
  "chans c = map (Some \<circ> snd) (pending c) @ map fst (outbox c) @ map (Some \<circ> fst) (results c)"

definition core_wf :: "core \<Rightarrow> bool" where
  "core_wf c \<longleftrightarrow>
     distinct (map fst (pending c)) \<and> distinct (map fst (pendingOwners c))
     \<and> fst ` set (pending c) = fst ` set (pendingOwners c)
     \<and> distinct (chans c) \<and> set (chans c) \<subseteq> Some ` {..<nextChan c}
     \<and> (closed c \<longrightarrow> pending c = [] \<and> pendingOwners c = [] \<and> subs c = [])
     \<and> (terminalErr c \<noteq> None \<longleftrightarrow> closed c)"

lemma core_wf_new: "core_wf newTransportCore"
  by (simp add: core_wf_def newTransportCore_def chans_def)

text \<open>Operations that move channels between the table, the outbox and the buffers, or drop some.\<close>

lemma chans_moved:
  assumes "mset (chans c') \<subseteq># mset (chans c)"
  shows "distinct (chans c) \<Longrightarrow> distinct (chans c')" "set (chans c') \<subseteq> set (chans c)"
  using distinct_submset [OF assms] set_mset_mono [OF assms] by auto

lemmas delete_facts = fst_delete AList.distinct_delete

lemma core_wf_addPending:
  assumes "core_wf c" "addPending t key ch (c\<lparr>nextChan := Suc ch\<rparr>) = Ret c'" "ch = nextChan c"
  shows "core_wf c'"
proof -
  have new: "key \<notin> fst ` set (pending c)" "\<not> closed c" "terminalErr c = None"
    and c': "c' = c\<lparr>nextChan := Suc ch, pending := pending c @ [(key, ch)],
      pendingOwners := pendingOwners c @ [(key, h_lease t)]\<rparr>"
    using assms(1,2)
    by (auto simp: addPending_def core_wf_def map_of_eq_None_iff update_fresh split: if_splits option.splits)
  have "mset (chans c') = mset (Some ch # chans c)" by (simp add: chans_def c')
  then have "distinct (chans c') = distinct (Some ch # chans c)" "set (chans c') = set (Some ch # chans c)"
    by (metis mset_eq_imp_distinct_iff, metis mset_eq_setD)
  moreover have "Some ch \<notin> set (chans c)" "set (chans c) \<subseteq> Some ` {..<Suc ch}"
    using assms(1,3) by (auto simp: core_wf_def less_Suc_eq)
  ultimately show ?thesis
    using assms(1,3) new by (auto simp: core_wf_def c')
qed

lemma chans_removePending: "mset (chans (removePending key c)) \<subseteq># mset (chans c)"
proof -
  have "mset (map (Some \<circ> snd) (AList.delete key (pending c))) \<subseteq># mset (map (Some \<circ> snd) (pending c))"
    by (simp add: delete_filter image_mset_subseteq_mono)
  then show ?thesis by (simp add: chans_def removePending_def)
qed

lemma core_wf_removePending: "core_wf c \<Longrightarrow> core_wf (removePending key c)"
  using chans_moved [OF chans_removePending [of key c]]
  by (auto simp: core_wf_def delete_facts removePending_def)

lemma expirePending_eq:
  "expirePending key ch c =
     (if map_of (pending c) key = Some ch then (True, removePending key c) else (False, c))"
  by (simp add: expirePending_def removePending_def)

lemma core_wf_expirePending: "core_wf c \<Longrightarrow> expirePending key ch c = (b, c') \<Longrightarrow> core_wf c'"
  by (auto simp: expirePending_eq core_wf_removePending split: if_splits)

lemma chans_deliverResponse: "core_wf c \<Longrightarrow> mset (chans (deliverResponse resp c)) = mset (chans c)"
  using mset_take_key [of "pending c" "response_key resp"]
  by (auto simp: core_wf_def chans_def deliverResponse_def Let_def split: option.splits)

lemma core_wf_deliverResponse: "core_wf c \<Longrightarrow> core_wf (deliverResponse resp c)"
  using chans_moved [OF subset_mset.eq_refl [OF chans_deliverResponse [of c resp]]]
  by (cases "map_of (pending c) (response_key resp)")
     (auto simp: core_wf_def deliverResponse_def Let_def delete_facts)

lemma chans_fail: "mset (chans (fail e c)) = mset (chans c)"
  by (simp add: fail_def chans_def case_prod_unfold multiset.map_comp comp_def)

lemma core_wf_fail: "core_wf c \<Longrightarrow> core_wf (fail e c)"
  using chans_moved [OF subset_mset.eq_refl [OF chans_fail [of e c]]]
  by (auto simp: core_wf_def fail_def split: if_splits)

lemma owned_by_props:
  assumes "core_wf c"
  shows "distinct (owned_by l c)" "set (owned_by l c) \<subseteq> set (map fst (pending c))"
  using assms by (auto simp: owned_by_def core_wf_def distinct_map_filter)

lemma set_owned_by: "k \<in> set (owned_by l c) \<longleftrightarrow> (k, Some l) \<in> set (pendingOwners c)"
  by (auto simp: owned_by_def image_iff)

lemma owned_by_iff:
  "core_wf c \<Longrightarrow> k \<in> set (owned_by l c) \<longleftrightarrow> map_of (pendingOwners c) k = Some (Some l)"
  by (simp add: set_owned_by core_wf_def map_of_eq_Some_iff)

lemma chans_closeLease_sweep: "core_wf c \<Longrightarrow> mset (chans (closeLease_sweep l c)) = mset (chans c)"
  using mset_split_keys [OF _ owned_by_props [of c l]]
  by (simp add: core_wf_def chans_def closeLease_sweep_def Let_def comp_def)

lemma core_wf_closeLease_sweep:
  assumes "core_wf c"
  shows "core_wf (closeLease_sweep l c)"
proof -
  let ?c' = "closeLease_sweep l c"
  note moved = chans_moved [OF subset_mset.eq_refl [OF chans_closeLease_sweep [OF assms, of l]]]
  have keys: "fst ` set (pending ?c') = fst ` set (pendingOwners ?c')"
  proof -
    have "fst ` set (pending ?c') = fst ` set (pending c) - set (owned_by l c)"
      by (force simp: closeLease_sweep_def Let_def)
    moreover have "fst ` set (pendingOwners ?c') = fst ` set (pendingOwners c) - set (owned_by l c)"
      using assms by (force simp: closeLease_sweep_def Let_def owned_by_iff core_wf_def map_of_eq_Some_iff)
    ultimately show ?thesis using assms by (simp add: core_wf_def)
  qed
  from moved assms show ?thesis
    unfolding core_wf_def keys
    by (auto simp: closeLease_sweep_def Let_def distinct_map_filter)
qed

section \<open>Lemmas: transaction numbering\<close>

lemma succ_word:
  fixes w :: "'a :: len word"
  shows "w + 1 \<noteq> 0 \<Longrightarrow> unat (w + 1) = unat w + 1 \<and> unat w < 2 ^ LENGTH('a) - 1"
    and "w + 1 = 0 \<Longrightarrow> unat w = 2 ^ LENGTH('a) - 1"
proof -
  assume "w + 1 \<noteq> 0"
  then have "unat (w + 1) = unat w + 1" using unatSuc [of w] by (simp add: add.commute)
  moreover have "unat (w + 1) < 2 ^ LENGTH('a)" by (rule unsigned_less)
  ultimately show "unat (w + 1) = unat w + 1 \<and> unat w < 2 ^ LENGTH('a) - 1" by simp
next
  assume "w + 1 = 0"
  then have "w = - 1" by (simp add: eq_neg_iff_add_eq_0)
  then show "unat w = 2 ^ LENGTH('a) - 1" by (simp add: unsigned_minus_1_eq_mask mask_eq_exp_minus_1)
qed

lemma ucast_succ_succ:
  "(ucast (2 + n :: u32) :: byte) = ucast n + 1 + 1" "(ucast (2 + n :: u32) :: u16) = ucast n + 1 + 1"
  using ucast_succ [of "n + 1"] ucast_succ [of n] by (simp_all add: add.commute)

lemma nextControlTxn_value:
  "nextControlTxn n = (t, n') \<Longrightarrow>
     unat t = unat (ucast n :: byte) mod 255 + 1 \<and> unat (ucast n' :: byte) = unat t"
  by (cases "(ucast n :: byte) + 1 = 0")
     (auto simp: nextControlTxn.simps [of n] nextControlTxn.simps [of "n + 1"] Let_def ucast_succ ucast_succ_succ
      dest: succ_word)

lemma nextServiceTxn_value:
  "nextServiceTxn n = (t, n') \<Longrightarrow>
     unat t = unat (ucast n :: u16) mod 65535 + 1 \<and> (ucast n' :: u16) = t"
  by (cases "(ucast n :: u16) + 1 = 0")
     (auto simp: nextServiceTxn.simps [of n] nextServiceTxn.simps [of "n + 1"] Let_def ucast_succ ucast_succ_succ
      dest: succ_word)

text \<open>The first \<open>k\<close> identifiers that successive calls draw for a service.\<close>

fun transactionIDs :: "nat \<Rightarrow> ServiceType \<Rightarrow> core \<Rightarrow> u16 list" where
  "transactionIDs 0 service c = []"
| "transactionIDs (Suc k) service c =
     (case nextTransactionID service c of (t, c') \<Rightarrow> t # transactionIDs k service c')"

definition txn_period :: "ServiceType \<Rightarrow> nat" where
  "txn_period service = (if service = ServiceControl then 255 else 65535)"

definition txn_seed :: "ServiceType \<Rightarrow> core \<Rightarrow> nat" where
  "txn_seed service c =
     (if service = ServiceControl then unat (ucast (ctlTxn c) :: byte) else unat (ucast (txn c) :: u16))"

lemma nextTransactionID_seed:
  "nextTransactionID service c = (t, c') \<Longrightarrow>
     unat t = txn_seed service c mod txn_period service + 1 \<and> txn_seed service c' = unat t"
  using nextControlTxn_value [of "ctlTxn c"] nextServiceTxn_value [of "txn c"]
  by (auto simp: nextTransactionID_def txn_seed_def txn_period_def split: if_splits prod.splits)

lemma transactionIDs_cyclic:
  "map unat (transactionIDs k service c)
     = map (\<lambda>i. (txn_seed service c + i) mod txn_period service + 1) [0..<k]"
proof (induction k arbitrary: c)
  case (Suc k)
  obtain t c' where n: "nextTransactionID service c = (t, c')" by fastforce
  have "(txn_seed service c' + i) mod txn_period service = (txn_seed service c + Suc i) mod txn_period service" for i
    using nextTransactionID_seed [OF n] by (metis add.assoc add_Suc_shift mod_add_left_eq plus_1_eq_Suc add.commute)
  with Suc.IH [of c'] nextTransactionID_seed [OF n] n show ?case
    by (simp add: map_upt_Suc del: upt_Suc)
qed simp

lemma inj_on_cyclic: "inj_on (\<lambda>i. (s + i) mod M + 1) {0..<M}" for s M :: nat
proof (rule inj_onI)
  fix i j assume "i \<in> {0..<M}" "j \<in> {0..<M}" "(s + i) mod M + 1 = (s + j) mod M + 1"
  then show "i = j"
  proof (induction i j rule: linorder_wlog)
    case (le i j)
    then have "M dvd j - i" using mod_eq_dvd_iff_nat [of "s + i" "s + j" M] by simp
    with le show ?case using dvd_imp_le [of M "j - i"] by (cases "i = j") auto
  qed simp
qed

text \<open>Transaction numbering: on every service, successive calls of \<open>nextTransactionID\<close> never
  return zero, stay within the width of the wire field (255 on the control service), and do not
  repeat an identifier within a full period of 255 (control) or 65535 (service) calls, from any
  state of the 32-bit counters, their wrap-around included.\<close>

theorem nextTransactionID_period:
  "distinct (transactionIDs (if service = ServiceControl then 255 else 65535) service c)
   \<and> 0 \<notin> set (transactionIDs k service c)
   \<and> (\<forall>t. t \<in> set (transactionIDs k ServiceControl c) \<longrightarrow> t \<le> 0xFF)"
proof -
  let ?P = "txn_period service"
  have P: "(if service = ServiceControl then 255 else 65535) = ?P" by (simp add: txn_period_def)
  have "distinct (map unat (transactionIDs ?P service c))"
    unfolding transactionIDs_cyclic distinct_map using inj_on_cyclic by simp
  moreover have "0 \<notin> set (map unat (transactionIDs k service c))"
    unfolding transactionIDs_cyclic by auto
  moreover have "unat t \<le> 255" if "t \<in> set (transactionIDs k ServiceControl c)" for t
  proof -
    have "unat t \<in> set (map unat (transactionIDs k ServiceControl c))" using that by simp
    then show ?thesis
      unfolding transactionIDs_cyclic by (auto simp: txn_period_def Suc_le_eq)
  qed
  ultimately show ?thesis
    unfolding P by (force simp: distinct_map word_le_nat_alt)
qed

theorem nextTransactionID_period_witness:
  "transactionIDs 3 ServiceControl (newTransportCore\<lparr>ctlTxn := 0xFFFFFFFE\<rparr>) = [0xFF, 1, 2]
   \<and> (0xFF :: u16) \<le> 0xFF \<and> (2 :: u16) \<le> 0xFF"
proof -
  have draws: "transactionIDs 3 ServiceControl (newTransportCore\<lparr>ctlTxn := 0xFFFFFFFE\<rparr>) = [0xFF, 1, 2]"
    by (simp add: numeral_3_eq_3 nextTransactionID_def nextControlTxn.simps newTransportCore_def Let_def)
  with nextTransactionID_period [of _ _ 3] show ?thesis
    by (metis insert_iff list.simps(15))
qed

section \<open>Dispatch and delivery\<close>

lemma dispatch_begin_Ret:
  assumes "dispatch_begin t req c = (Ret (req', packet, ch), c')"
  shows "marshalRequest req' = Ret packet" "ch = nextChan c" "req' = req\<lparr>rq_TransactionID := rq_TransactionID req'\<rparr>"
    "\<exists>c1. addPending t (request_key req') ch (c1\<lparr>nextChan := Suc ch\<rparr>) = Ret c' \<and> nextChan c1 = ch
       \<and> pending c1 = pending c \<and> pendingOwners c1 = pendingOwners c \<and> outbox c1 = outbox c
       \<and> results c1 = results c \<and> closed c1 = closed c \<and> terminalErr c1 = terminalErr c \<and> subs c1 = subs c"
  using assms
  by (auto simp: dispatch_begin_def nextTransactionID_def Let_def
      split: if_splits prod.splits outcome.splits)

lemma addPending_Ret:
  assumes "addPending t key ch c = Ret c'"
  shows "map_of (pending c) key = None" "pending c' = pending c @ [(key, ch)]" "outbox c' = outbox c"
    "pendingOwners c' = AList.update key (h_lease t) (pendingOwners c)" "nextChan c' = nextChan c"
    "results c' = results c" "\<not> closed c" "\<not> lease_closed t c"
  using assms by (auto simp: addPending_def update_fresh split: if_splits option.splits)

text \<open>A response answers a request when it echoes service, transaction and message, and the client
  except on the control service, whose client field is ignored.\<close>

definition answers :: "Message \<Rightarrow> Request \<Rightarrow> bool" where
  "answers resp req \<longleftrightarrow>
     m_Service resp = rq_Service req \<and> m_TransactionID resp = rq_TransactionID req
     \<and> m_MessageID resp = rq_MessageID req
     \<and> (rq_Service req \<noteq> ServiceControl \<longrightarrow> m_ClientID resp = rq_ClientID req)"

lemma answers_key:
  assumes "marshalRequest req = Ret packet"
  shows "answers resp req \<longleftrightarrow> response_key resp = request_key req"
proof -
  have "rq_Service req = ServiceControl \<Longrightarrow> rq_ClientID req = 0"
    using assms by (auto simp: marshalRequest_eq_Ret_iff validateRequest_def split: if_splits)
  then show ?thesis by (auto simp: answers_def response_key_def request_key_def)
qed

text \<open>C22: a response reaches the transaction it answers and no other: after a request was
  dispatched, a response is sent to its channel exactly when it echoes the request; the
  transaction is then removed, and all transactions that were pending before are untouched.
  Any other response leaves the new transaction pending.\<close>

theorem dispatch_response_routed:
  assumes "dispatch_begin t req c = (Ret (req', packet, ch), c')"
    and "core_wf c"
  shows "if answers resp req'
     then outbox (deliverResponse resp c') = outbox c @ [(Some ch, Response resp)]
          \<and> pending (deliverResponse resp c') = pending c
     else map_of (pending (deliverResponse resp c')) (request_key req') = Some ch
          \<and> (Some ch, Response resp) \<notin> set (outbox (deliverResponse resp c'))"
proof -
  note d = dispatch_begin_Ret [OF assms(1)]
  obtain c1 where a: "addPending t (request_key req') ch (c1\<lparr>nextChan := Suc ch\<rparr>) = Ret c'"
    and c1: "pending c1 = pending c" "outbox c1 = outbox c"
    using d(4) by blast
  note p = addPending_Ret [OF a, simplified c1]
  have k: "answers resp req' \<longleftrightarrow> response_key resp = request_key req'" by (rule answers_key [OF d(1)])
  have fresh: "Some ch \<notin> set (chans c)" using assms(2) d(2) by (auto simp: core_wf_def)
  have del: "AList.delete (request_key req') (pending c) = pending c"
    using p(1) by (simp add: c1 AList.delete_idem map_of_eq_None_iff)
  show ?thesis
  proof (cases "answers resp req'")
    case True
    then have "map_of (pending c') (response_key resp) = Some ch"
      using p(1,2) c1 k by (simp add: map_add_def)
    with True del show ?thesis
      using p(2,3) c1 k by (simp add: deliverResponse_def Let_def AList.delete_eq)
  next
    case False
    have "map_of (pending (deliverResponse resp c')) (request_key req') = Some ch"
      using p(1,2) c1 k False
      by (auto simp: deliverResponse_def Let_def AList.delete_conv' map_add_def split: option.splits)
    moreover have "(Some ch, Response resp) \<notin> set (outbox (deliverResponse resp c'))"
      using fresh p(2,3) c1 k False
      by (force simp: deliverResponse_def Let_def chans_def map_of_eq_None_iff
          dest: map_of_SomeD split: option.splits)
    ultimately show ?thesis using False by simp
  qed
qed

definition sample_handle :: handle where
  "sample_handle = \<lparr>h_shared = True, h_lease = Some 7\<rparr>"

definition sample_request :: Request where
  "sample_request =
     \<lparr>rq_Service = 3, rq_ClientID = 1, rq_TransactionID = 1, rq_MessageID = 0x20, rq_Timeout = 0,
      rq_TLVs = []\<rparr>"

definition sample_core :: core where
  "sample_core =
     newTransportCore\<lparr>pending := [(request_key sample_request, 0)],
       pendingOwners := [(request_key sample_request, Some 7)], txn := 1, nextChan := 1\<rparr>"

definition sample_response :: Message where
  "sample_response =
     \<lparr>m_Service = 3, m_ClientID = 1, m_TransactionID = 1, m_MessageID = 0x20, m_TLVs = []\<rparr>"

lemma sample_dispatch:
  "dispatch_begin sample_handle sample_request newTransportCore
     = (Ret (sample_request, [1, 0x0C, 0, 0, 3, 1, 0, 1, 0, 0x20, 0, 0, 0], 0), sample_core)"
proof -
  have m: "marshalRequest sample_request = Ret [1, 0x0C, 0, 0, 3, 1, 0, 1, 0, 0x20, 0, 0, 0]"
    by (simp add: sample_request_def marshalRequest_eq_Ret_iff validateRequest_def ServiceControl_def
        request_sdu_def put_le16_def MessageTypeRequest_def QMUXIfType_def QMUXControlFlagRequest_def Let_def)
  moreover have "nextTransactionID 3 newTransportCore = (1, newTransportCore\<lparr>txn := 1\<rparr>)"
    by (simp add: nextTransactionID_def nextServiceTxn.simps newTransportCore_def ServiceControl_def)
  moreover have "sample_request\<lparr>rq_TransactionID := 1\<rparr> = sample_request"
    "rq_Service sample_request = 3"
    by (simp_all add: sample_request_def)
  ultimately show ?thesis
    by (simp add: dispatch_begin_def sample_handle_def addPending_def lease_closed_def
        sample_core_def newTransportCore_def)
qed

theorem dispatch_response_routed_witness:
  "outbox (deliverResponse sample_response sample_core) = [(Some 0, Response sample_response)]
   \<and> pending (deliverResponse sample_response sample_core) = []"
proof -
  have "answers sample_response sample_request"
    by (simp add: answers_def sample_response_def sample_request_def)
  with dispatch_response_routed [OF sample_dispatch core_wf_new, of sample_response] show ?thesis
    by (simp add: newTransportCore_def)
qed

section \<open>Failed and interrupted requests\<close>

lemma closed_fail [simp]: "closed (fail e c)"
  by (simp add: fail_def)


text \<open>Waiting for a response ends in one of three ways: the response had been claimed and is on
  its way; the transaction expires and is removed; or, for a client-ID allocation whose outcome
  is unknown, the core is closed and every pending request is failed with the same error.\<close>

theorem wait_expired_safe:
  "case wait_expired req key ch e c of
     (None, c') \<Rightarrow> c' = c \<and> map_of (pending c) key \<noteq> Some ch
   | (Some err, c') \<Rightarrow>
       map_of (pending c) key = Some ch
       \<and> (if isClientIDAllocation req
          then closed c' \<and> (closed c \<or> pending c' = []
                 \<and> outbox c' = outbox c @ map (\<lambda>(k, ch'). (Some ch', ResponseErr err)) (AList.delete key (pending c)))
          else c' = removePending key c \<and> err = ContextError e)"
  by (auto simp: wait_expired_def expirePending_eq fail_def removePending_def)

section \<open>Leases\<close>

lemma map_of_filter_key: "map_of (filter (\<lambda>(k, v). P k) al) k = (if P k then map_of al k else None)"
  by (induction al) auto

lemma owned_by_closeLease_sweep:
  "owned_by l' (closeLease_sweep l c) = (if l' = l then [] else owned_by l' c)"
proof -
  have "filter (\<lambda>(k, owner). owner = Some l') (filter (\<lambda>(k, owner). owner \<noteq> Some l) al)
      = (if l' = l then [] else filter (\<lambda>(k, owner). owner = Some l') al)"
    for al :: "(messageKey \<times> lease option) list"
    by (induction al) auto
  then show ?thesis by (simp add: owned_by_def closeLease_sweep_def Let_def)
qed

lemma owned_by_mark [simp]:
  "owned_by l' (closeLease_mark l c) = owned_by l' c" "owned_by l' (c\<lparr>closedLeases := ls\<rparr>) = owned_by l' c"
  by (simp_all add: owned_by_def closeLease_mark_def)

text \<open>Closing a lease is isolated: every transaction and subscription of that lease leaves the
  tables, each of its waiters gets exactly the lease-closed error, its subscriptions are
  stopped, nothing of any other owner changes, and the lease admits no further request.\<close>

theorem closeLease_isolated:
  assumes "core_wf c" "l \<notin> set (closedLeases c)"
  shows "map_of (pending (closeLease l c)) k
         = (if map_of (pendingOwners c) k = Some (Some l) then None else map_of (pending c) k)
    \<and> (\<forall>l'. l' \<noteq> l \<longrightarrow> owned_by l' (closeLease l c) = owned_by l' c) \<and> owned_by l (closeLease l c) = []
    \<and> outbox (closeLease l c)
       = outbox c @ map (\<lambda>k. (map_of (pending c) k, ResponseErr LeaseClosed)) (owned_by l c)
    \<and> (\<forall>k. k \<in> set (owned_by l c) \<longrightarrow> map_of (pending c) k \<noteq> None)
    \<and> subs (closeLease l c) = filter (\<lambda>(i, s). s_owner s \<noteq> Some l) (subs c)
    \<and> addPending \<lparr>h_shared = True, h_lease = Some l\<rparr> k ch (closeLease l c) = Fail LeaseClosed"
proof -
  have "map_of (pending c) k \<noteq> None" if "k \<in> set (owned_by l c)" for k
    using that owned_by_props(2) [OF assms(1), of l] by (auto simp: map_of_eq_None_iff)
  moreover have "map_of (pending (closeLease l c)) k
      = (if map_of (pendingOwners c) k = Some (Some l) then None else map_of (pending c) k)"
    using assms(2) by (simp add: closeLease_def closeLease_sweep_def Let_def map_of_filter_key
        owned_by_iff [OF assms(1)] closeLease_mark_def [of l c, THEN arg_cong [where f = pending]])
  ultimately show ?thesis
    using assms
    by (simp add: closeLease_def owned_by_closeLease_sweep)
       (simp add: closeLease_sweep_def closeLease_mark_def Let_def addPending_def lease_closed_def)
qed

lemma core_wf_sample: "core_wf sample_core"
  by (simp add: core_wf_def sample_core_def newTransportCore_def chans_def)

theorem closeLease_isolated_witness:
  "map_of (pending (closeLease 7 sample_core)) (request_key sample_request) = None
   \<and> outbox (closeLease 7 sample_core) = [(Some 0, ResponseErr LeaseClosed)]
   \<and> owned_by 7 sample_core \<noteq> []"
proof -
  have "7 \<notin> set (closedLeases sample_core)" by (simp add: sample_core_def newTransportCore_def)
  from closeLease_isolated [OF core_wf_sample this] show ?thesis
    by (simp add: sample_core_def newTransportCore_def owned_by_def)
qed

section \<open>The read loop\<close>

lemma response_ReadFrom_layout:
  assumes "wire_wf r"
  shows "response_ReadFrom (wire_layout r @ rest) = (Ret r, length (wire_layout r), rest)"
proof -
  obtain a b body where "wire_layout r = IfType r # a # b # body" "join_le16 a b = QLength r"
    by (simp add: wire_layout_def put_le16_def)
  then have "readFrame (wire_layout r @ rest) = (Ret (wire_layout r), length (wire_layout r), rest)"
    using assms by (intro readFrame_framed) (auto simp: wire_wf_def)
  with response_UnmarshalBinary_layout [OF assms] show ?thesis by (simp add: response_ReadFrom_def)
qed

lemma readLoop_messages:
  "list_all wire_wf ms \<Longrightarrow>
     readLoop (concat (map wire_layout ms) @ rest) c = readLoop rest (fold handleMessage ms c)"
  by (induction ms arbitrary: c)
     (simp_all add: readLoop.simps [of "wire_layout _ @ _"] response_ReadFrom_layout)

lemma readLoop_Nil: "readLoop [] c = fail (ReadingMessage (FrameRead EOF)) c"
  by (simp add: readLoop.simps [of "[]"] response_ReadFrom_def readFrame_def read_full_def)

lemma core_wf_deliverIndication: "core_wf c \<Longrightarrow> core_wf (deliverIndication ind c)"
  by (simp add: core_wf_def deliverIndication_def chans_def)

lemma core_wf_handleMessage: "core_wf c \<Longrightarrow> core_wf (handleMessage w c)"
  by (simp add: handleMessage_def core_wf_deliverResponse core_wf_deliverIndication)

lemma response_ReadFrom_no_panic: "response_ReadFrom s \<noteq> (Panic, n, rest)"
  using response_UnmarshalBinary_no_panic
  by (auto simp: response_ReadFrom_def readFrame_def bind_eq_Panic_iff Let_def
      split: prod.splits option.splits if_splits)

lemma readLoop_closes: "core_wf c \<Longrightarrow> core_wf (readLoop s c) \<and> closed (readLoop s c)"
proof (induction s c rule: readLoop.induct)
  case (1 s c)
  obtain r n rest where r: "response_ReadFrom s = (r, n, rest)" by (cases "response_ReadFrom s")
  show ?case
  proof (cases r)
    case (Ret w)
    with 1 r show ?thesis by (simp add: readLoop.simps [of s] core_wf_handleMessage)
  next
    case (Fail e)
    with 1 r show ?thesis
      by (cases e) (simp_all add: readLoop.simps [of s] core_wf_fail)
  next
    case Panic
    with r response_ReadFrom_no_panic show ?thesis by simp
  qed
qed

text \<open>C30: the read loop: well-formed messages arriving back to back are all handled, in order, each
  exactly once, with whatever follows them processed next; the loop always ends (the end of the
  stream is an error of the reader), and from a well-formed core it ends with the core closed,
  well formed and without any pending transaction, so that no waiter outlives the reader.\<close>

theorem readLoop_delivers:
  assumes "list_all wire_wf ms" "core_wf c"
  shows "readLoop (concat (map wire_layout ms) @ rest) c = readLoop rest (fold handleMessage ms c)
    \<and> readLoop (concat (map wire_layout ms)) c
        = fail (ReadingMessage (FrameRead EOF)) (fold handleMessage ms c)
    \<and> closed (readLoop rest c) \<and> pending (readLoop rest c) = [] \<and> subs (readLoop rest c) = []"
  using readLoop_messages [OF assms(1), of rest] readLoop_messages [OF assms(1), of "[]"]
    readLoop_closes [OF assms(2), of rest]
  by (simp add: readLoop_Nil core_wf_def)

definition sample_wire :: WireResponse where
  "sample_wire =
     \<lparr>IfType = 1, QLength = 12, ControlFlags = 0x80, QServiceType = 3, QClientID = 1,
      w_TransactionID = 1, w_MessageID = 0x20, w_MessageType = 2, w_MessageLength = 0, w_TLVs = []\<rparr>"

theorem readLoop_delivers_witness:
  "readLoop (wire_layout sample_wire) sample_core
     = fail (ReadingMessage (FrameRead EOF)) (handleMessage sample_wire sample_core)
   \<and> outbox (handleMessage sample_wire sample_core) = [(Some 0, Response sample_response)]"
proof -
  have "list_all wire_wf [sample_wire]"
    by (simp add: sample_wire_def wire_wf_def wire_layout_def qmi_header_def put_le16_def QMUXIfType_def
        isResponse_def wire_service_def ServiceControl_def MessageTypeResponse_def)
  from readLoop_delivers [OF this core_wf_sample] show ?thesis
    by (simp add: handleMessage_def isResponse_def sample_wire_def wire_service_def ServiceControl_def
        MessageTypeResponse_def qcomResponse_def deliverResponse_def response_key_def sample_core_def
        request_key_def sample_request_def newTransportCore_def sample_response_def Let_def)
qed

section \<open>The write loop\<close>

context io_writer
begin

lemma writeFull_prefix:
  "writeFull wr s p w = (s', n, e) \<Longrightarrow>
     \<exists>k \<le> length p. n = w + int k \<and> sink s' = sink s @ take k p \<and> (e = None \<longrightarrow> k = length p)"
proof (induction "length p" arbitrary: s p w rule: less_induct)
  case less
  show ?case
  proof (cases "p = []")
    case True
    with less.prems show ?thesis by (auto simp: writeFull.simps [of _ _ "[]"])
  next
    case False
    obtain s1 n1 e1 where w1: "wr s p = (s1, n1, e1)" by (cases "wr s p")
    note laws = count_nonneg [OF w1] count_le [OF w1] sink_write [OF w1]
    show ?thesis
    proof (cases "e1 = None \<and> n1 \<noteq> 0")
      case True
      then have "writeFull wr s1 (drop (nat n1) p) (w + n1) = (s', n, e)"
        using less.prems False w1 laws by (simp add: writeFull.simps [of wr s p])
      from less.hyps [OF _ this] obtain k where "k \<le> length p - nat n1" "n = w + n1 + int k"
        "sink s' = sink s1 @ take k (drop (nat n1) p)" "e = None \<longrightarrow> k = length p - nat n1"
        using True False laws(1) by auto
      with laws show ?thesis
        by (intro exI [of _ "nat n1 + k"]) (auto simp: take_add)
    next
      case stop: False
      with less.prems False w1 laws have "s' = s1" "n = w + n1" "e \<noteq> None"
        by (auto simp: writeFull.simps [of wr s p] split: option.splits if_splits)
      with laws show ?thesis by (intro exI [of _ "nat n1"]) auto
    qed
  qed
qed

end

text \<open>The write loop, on any writer that obeys the \<open>io.Writer\<close> contract: the bytes that
  reached the writer are exactly a prefix of the packet, the reported count is the length of
  that prefix, and a nil error means that the whole packet was written. So \<open>written == 0\<close> and
  \<open>written == len(packet)\<close> in \<open>Dispatch\<close> mean that nothing and everything was sent.\<close>

theorem writeFull_counts_what_was_sent:
  assumes "io_writer wr sink" "writeFull wr s p 0 = (s', n, e)"
  shows "0 \<le> n \<and> n \<le> int (length p) \<and> sink s' = sink s @ take (nat n) p
    \<and> (e = None \<longrightarrow> n = int (length p))"
  using io_writer.writeFull_prefix [OF assms] by auto

theorem writeFull_counts_what_was_sent_witness:
  "writeFull buffer_write [9] [1, 2, 3] 0 = ([9, 1, 2, 3], 3, None)
   \<and> [9, 1, 2, 3] = [9] @ take (nat 3) [1, 2, 3 :: byte]"
proof -
  have w: "writeFull buffer_write [9] [1, 2, 3] 0 = ([9, 1, 2, 3], 3, None)"
    by (simp add: writeFull.simps buffer_write_def)
  with writeFull_counts_what_was_sent [OF buffer.io_writer_axioms w] show ?thesis by simp
qed

end
