(* ===== verification/Qmi_Concurrency.thy ===== *)
theory Qmi_Concurrency
  imports Qmi_Transport
begin

text \<open>
  Concurrent use of one QMI transport core (\<^verbatim>\<open>qcom/qmi/transport.go\<close>): any number of callers of
  \<open>Dispatch\<close>, the reader, lease closers and failures, interleaved at the granularity of the
  critical sections and channel operations. The step relation has one rule per atomic step;
  \<open>ok\<close> restricts which keys a caller may register, so that the guarantees can be stated with and
  without a discipline on transaction keys.
\<close>

section \<open>Callers and steps\<close>

text \<open>
  A caller after \<open>addPending\<close>: before or during its write; after the write, in the select of the
  wait function; or blocked on its result channel because its transaction was already claimed.
\<close>

datatype phase = Prewriting | Awaiting | Claimed

record sys =
  co :: core
  clients :: "(chan \<times> Request \<times> phase) list"

definition init_sys :: sys where
  "init_sys = \<lparr>co = newTransportCore, clients = []\<rparr>"

definition set_phase :: "chan \<Rightarrow> phase \<Rightarrow> (chan \<times> Request \<times> phase) list \<Rightarrow> (chan \<times> Request \<times> phase) list" where
  "set_phase ch p cls = map (\<lambda>(ch', req, q). (ch', req, if ch' = ch then p else q)) cls"

definition drop_client :: "chan \<Rightarrow> (chan \<times> Request \<times> phase) list \<Rightarrow> (chan \<times> Request \<times> phase) list" where
  "drop_client ch cls = filter (\<lambda>x. fst x \<noteq> ch) cls"

text \<open>What a caller does with the verdict of an expired write or wait.\<close>

definition settle ::
  "chan \<Rightarrow> transport_error option \<Rightarrow> (chan \<times> Request \<times> phase) list \<Rightarrow> (chan \<times> Request \<times> phase) list" where
  "settle ch r cls = (case r of None \<Rightarrow> set_phase ch Claimed cls | Some e \<Rightarrow> drop_client ch cls)"

inductive sys_step :: "(sys \<Rightarrow> messageKey \<Rightarrow> bool) \<Rightarrow> sys \<Rightarrow> sys \<Rightarrow> bool" for ok where
  Dispatch: "dispatch_begin t req (co s) = (Ret (req', packet, ch), c') \<Longrightarrow> ok s (request_key req')
    \<Longrightarrow> sys_step ok s (s\<lparr>co := c', clients := clients s @ [(ch, req', Prewriting)]\<rparr>)"
| DispatchError: "dispatch_begin t req (co s) = (Fail e, c') \<Longrightarrow> sys_step ok s (s\<lparr>co := c'\<rparr>)"
| Abort: "(ch, req, Prewriting) \<in> set (clients s)
    \<Longrightarrow> sys_step ok s (s\<lparr>co := removePending (request_key req) (co s), clients := drop_client ch (clients s)\<rparr>)"
| Written: "(ch, req, Prewriting) \<in> set (clients s)
    \<Longrightarrow> sys_step ok s (s\<lparr>clients := set_phase ch Awaiting (clients s)\<rparr>)"
| WriteFailed: "(ch, req, Prewriting) \<in> set (clients s)
    \<Longrightarrow> dispatch_write_failed req (request_key req) ch len written interrupted ctxErr (co s) = (r, c')
    \<Longrightarrow> sys_step ok s (s\<lparr>co := c', clients := settle ch r (clients s)\<rparr>)"
| WaitExpired: "(ch, req, Awaiting) \<in> set (clients s)
    \<Longrightarrow> wait_expired req (request_key req) ch e (co s) = (r, c')
    \<Longrightarrow> sys_step ok s (s\<lparr>co := c', clients := settle ch r (clients s)\<rparr>)"
| Receive: "(ch, req, p) \<in> set (clients s) \<Longrightarrow> p \<noteq> Prewriting \<Longrightarrow> map_of (results (co s)) ch = Some r
    \<Longrightarrow> sys_step ok s (s\<lparr>co := (co s)\<lparr>results := AList.delete ch (results (co s))\<rparr>,
          clients := drop_client ch (clients s)\<rparr>)"
| Send: "outbox (co s) = xs @ (Some ch, r) # ys \<Longrightarrow> ch \<notin> fst ` set (results (co s))
    \<Longrightarrow> sys_step ok s (s\<lparr>co := (co s)\<lparr>outbox := xs @ ys, results := (ch, r) # results (co s)\<rparr>\<rparr>)"
| Deliver: "sys_step ok s (s\<lparr>co := deliverResponse resp (co s)\<rparr>)"
| Indicate: "sys_step ok s (s\<lparr>co := deliverIndication ind (co s)\<rparr>)"
| Fail: "sys_step ok s (s\<lparr>co := fail e (co s)\<rparr>)"
| LeaseMark: "sys_step ok s (s\<lparr>co := closeLease_mark l (co s)\<rparr>)"
| LeaseSweep: "l \<in> set (closedLeases (co s)) \<Longrightarrow> sys_step ok s (s\<lparr>co := closeLease_sweep l (co s)\<rparr>)"
| Subscribe: "Indications t service clientID mid (co s) = Ret (i, c') \<Longrightarrow> sys_step ok s (s\<lparr>co := c'\<rparr>)"
| Unsubscribe: "sys_step ok s (s\<lparr>co := removeSubscription i (co s)\<rparr>)"
| Unsubscribed: "sys_step ok s (s\<lparr>co := removeFinishedSubscription i (co s)\<rparr>)"

inductive sys_steps :: "(sys \<Rightarrow> messageKey \<Rightarrow> bool) \<Rightarrow> sys \<Rightarrow> sys \<Rightarrow> bool" for ok where
  Refl: "sys_steps ok s s"
| Step: "sys_steps ok s s' \<Longrightarrow> sys_step ok s' s'' \<Longrightarrow> sys_steps ok s s''"

text \<open>Any key, and only keys that no live caller uses.\<close>

definition any_key :: "sys \<Rightarrow> messageKey \<Rightarrow> bool" where
  "any_key s k = True"

definition unused_key :: "sys \<Rightarrow> messageKey \<Rightarrow> bool" where
  "unused_key s k \<longleftrightarrow> k \<notin> (\<lambda>(ch, req, p). request_key req) ` set (clients s)"

section \<open>Channels\<close>

text \<open>Operations on the core create no channel but the next fresh one.\<close>

definition chans_grow :: "core \<Rightarrow> core \<Rightarrow> bool" where
  "chans_grow c c' \<longleftrightarrow>
     core_wf c' \<and> nextChan c \<le> nextChan c' \<and> (\<forall>ch < nextChan c. Some ch \<in> set (chans c') \<longrightarrow> Some ch \<in> set (chans c))"

lemma chans_grow_trans: "chans_grow c c' \<Longrightarrow> chans_grow c' c'' \<Longrightarrow> chans_grow c c''"
  by (auto simp: chans_grow_def intro: less_le_trans)

lemma chans_grow_same:
  "core_wf c' \<Longrightarrow> nextChan c' = nextChan c \<Longrightarrow> set (chans c') \<subseteq> set (chans c) \<Longrightarrow> chans_grow c c'"
  by (auto simp: chans_grow_def)

lemma chans_grow_moved:
  "core_wf c' \<Longrightarrow> nextChan c' = nextChan c \<Longrightarrow> mset (chans c') \<subseteq># mset (chans c) \<Longrightarrow> chans_grow c c'"
  by (simp add: chans_grow_same chans_moved(2))

lemma chans_grow_ops:
  assumes "core_wf c"
  shows "chans_grow c c" "chans_grow c (removePending k c)" "chans_grow c (deliverResponse resp c)"
    "chans_grow c (fail e c)" "chans_grow c (closeLease_sweep l c)" "chans_grow c (closeLease_mark l c)"
    "chans_grow c (deliverIndication ind c)" "chans_grow c (removeSubscription i c)"
    "chans_grow c (removeFinishedSubscription i c)"
  using assms core_wf_removePending [OF assms] core_wf_deliverResponse [OF assms] core_wf_fail [OF assms]
    core_wf_closeLease_sweep [OF assms]
  by (auto intro!: chans_grow_moved
      simp: chans_removePending chans_deliverResponse chans_fail chans_closeLease_sweep)
     (auto simp: removePending_def deliverResponse_def fail_def closeLease_sweep_def closeLease_mark_def
        deliverIndication_def removeSubscription_def removeFinishedSubscription_def Let_def chans_def
        core_wf_def split: option.splits)

lemma chans_grow_fields:
  assumes "core_wf c" "pending c' = pending c" "pendingOwners c' = pendingOwners c" "outbox c' = outbox c"
    "results c' = results c" "closed c' = closed c" "terminalErr c' = terminalErr c"
    "closed c \<longrightarrow> subs c' = []" "nextChan c \<le> nextChan c'"
  shows "chans_grow c c'"
proof -
  have "chans c' = chans c" using assms by (simp add: chans_def)
  moreover have "set (chans c) \<subseteq> Some ` {..<nextChan c'}" using assms(1,9) by (force simp: core_wf_def)
  ultimately show ?thesis using assms by (simp add: chans_grow_def core_wf_def)
qed

lemma dispatch_begin_Fail:
  assumes "dispatch_begin t req c = (Fail e, c')"
  shows "pending c' = pending c \<and> pendingOwners c' = pendingOwners c \<and> outbox c' = outbox c
    \<and> results c' = results c \<and> closed c' = closed c \<and> terminalErr c' = terminalErr c
    \<and> subs c' = subs c \<and> nextChan c \<le> nextChan c'"
  using assms
  by (auto simp: dispatch_begin_def nextTransactionID_def Let_def
      split: if_splits prod.splits outcome.splits)

lemma chans_grow_dispatch_begin:
  assumes "core_wf c" "dispatch_begin t req c = (r, c')"
  shows "chans_grow c c'"
proof (cases r)
  case (Ret x)
  then obtain req' packet ch where d: "dispatch_begin t req c = (Ret (req', packet, ch), c')"
    using assms(2) by (cases x) auto
  then obtain c1 where a: "addPending t (request_key req') ch (c1\<lparr>nextChan := Suc ch\<rparr>) = Ret c'"
    and c1: "nextChan c1 = ch" "pending c1 = pending c" "pendingOwners c1 = pendingOwners c" "outbox c1 = outbox c"
      "results c1 = results c" "closed c1 = closed c" "terminalErr c1 = terminalErr c" "subs c1 = subs c"
    and ch: "ch = nextChan c"
    using dispatch_begin_Ret [OF d] by blast
  have "core_wf c1" using assms(1) c1 ch by (simp add: core_wf_def chans_def)
  from core_wf_addPending [OF this a] c1 have "core_wf c'" by simp
  moreover have "chans c' = map (Some \<circ> snd) (pending c) @ [Some ch] @ map fst (outbox c) @ map (Some \<circ> fst) (results c)"
    using addPending_Ret [OF a] c1 by (simp add: chans_def)
  ultimately show ?thesis
    using addPending_Ret(5) [OF a] c1 ch by (auto simp: chans_grow_def chans_def)
next
  case (Fail e)
  with assms(2) dispatch_begin_Fail [of t req c e c'] have
    "pending c' = pending c \<and> pendingOwners c' = pendingOwners c \<and> outbox c' = outbox c
     \<and> results c' = results c \<and> closed c' = closed c \<and> terminalErr c' = terminalErr c
     \<and> subs c' = subs c \<and> nextChan c \<le> nextChan c'" by simp
  then show ?thesis
    using assms(1) by (intro chans_grow_fields) (simp_all add: core_wf_def)
next
  case Panic
  with assms show ?thesis
    by (auto simp: dispatch_begin_def addPending_def marshalRequest_no_panic Let_def
        split: if_splits prod.splits outcome.splits option.splits)
qed

lemma dispatch_write_failed_cases:
  assumes "dispatch_write_failed req key ch len written interrupted ctxErr c = (r, c')"
  obtains "r = None" "c' = c" "map_of (pending c) key \<noteq> Some ch"
  | e where "r \<noteq> None" "c' = removePending key c \<or> c' = fail e (removePending key c)"
  using assms by (auto simp: dispatch_write_failed_def expirePending_eq split: option.splits if_splits)

lemma wait_expired_cases:
  assumes "wait_expired req key ch x c = (r, c')"
  obtains "r = None" "c' = c" "map_of (pending c) key \<noteq> Some ch"
  | e where "r \<noteq> None" "c' = removePending key c \<or> c' = fail e (removePending key c)"
  using assms by (auto simp: wait_expired_def expirePending_eq split: if_splits)

lemma chans_grow_settled:
  assumes "core_wf c" "c' = c \<or> c' = removePending key c \<or> c' = fail e (removePending key c)"
  shows "chans_grow c c'"
  using assms chans_grow_ops core_wf_removePending chans_grow_trans by metis

lemma chans_grow_Send:
  assumes "core_wf c" "outbox c = xs @ (Some ch, r) # ys"
  shows "chans_grow c (c\<lparr>outbox := xs @ ys, results := (ch, r) # results c\<rparr>)"
proof -
  let ?c' = "c\<lparr>outbox := xs @ ys, results := (ch, r) # results c\<rparr>"
  have m: "mset (chans ?c') = mset (chans c)" using assms(2) by (simp add: chans_def)
  then have "core_wf ?c'"
    using assms(1) chans_moved [OF subset_mset.eq_refl [OF m]] by (auto simp: core_wf_def)
  with m show ?thesis by (simp add: chans_grow_moved)
qed

lemma chans_grow_Receive:
  assumes "core_wf c"
  shows "chans_grow c (c\<lparr>results := AList.delete ch (results c)\<rparr>)"
proof -
  let ?c' = "c\<lparr>results := AList.delete ch (results c)\<rparr>"
  have m: "mset (chans ?c') \<subseteq># mset (chans c)"
    by (simp add: chans_def delete_filter image_mset_subseteq_mono)
  then have "core_wf ?c'"
    using assms(1) chans_moved [OF m] by (auto simp: core_wf_def)
  with m show ?thesis by (simp add: chans_grow_moved)
qed

lemma chans_grow_Indications:
  "core_wf c \<Longrightarrow> Indications t service clientID mid c = Ret (i, c') \<Longrightarrow> chans_grow c c'"
  by (rule chans_grow_fields) (auto simp: Indications_def Let_def split: if_splits option.splits)

text \<open>Every step keeps the core well formed and invents no old channel.\<close>

lemma sys_step_grow:
  assumes "sys_step ok s s'" "core_wf (co s)"
  shows "chans_grow (co s) (co s')"
  using assms
proof (induction rule: sys_step.induct)
  case (WriteFailed ch req s len written interrupted ctxErr r c')
  then show ?case
    by (auto elim!: dispatch_write_failed_cases intro: chans_grow_settled)
next
  case (WaitExpired ch req s e r c')
  then show ?case
    by (auto elim!: wait_expired_cases intro: chans_grow_settled)
qed (auto intro: chans_grow_ops chans_grow_dispatch_begin chans_grow_Send chans_grow_Receive
    chans_grow_Indications)

lemma sys_steps_core_wf: "sys_steps ok s s' \<Longrightarrow> core_wf (co s) \<Longrightarrow> core_wf (co s')"
  by (induction rule: sys_steps.induct) (auto dest: sys_step_grow simp: chans_grow_def)

lemma core_wf_init: "core_wf (co init_sys)"
  by (simp add: init_sys_def core_wf_new)

section \<open>No caller is lost\<close>

text \<open>A result for the channel is on its way or has arrived.\<close>

definition inflight :: "chan \<Rightarrow> core \<Rightarrow> bool" where
  "inflight ch c \<longleftrightarrow> Some ch \<in> fst ` set (outbox c) \<or> ch \<in> fst ` set (results c)"

definition held_by :: "messageKey \<Rightarrow> chan \<Rightarrow> core \<Rightarrow> bool" where
  "held_by k ch c \<longleftrightarrow> map_of (pending c) k = Some ch \<or> inflight ch c"

lemma inflight_mono:
  "set (outbox c) \<subseteq> set (outbox c') \<Longrightarrow> results c' = results c \<Longrightarrow> inflight ch c \<Longrightarrow> inflight ch c'"
  by (auto simp: inflight_def)

lemma inflight_ops:
  assumes "inflight ch c"
  shows "inflight ch (removePending k c)" "inflight ch (deliverResponse resp c)" "inflight ch (fail e c)"
    "inflight ch (closeLease_sweep l c)"
  by (rule inflight_mono [OF _ _ assms],
      auto simp: removePending_def deliverResponse_def fail_def closeLease_sweep_def Let_def split: option.splits)+

lemma held_by_deliverResponse: "held_by k ch c \<Longrightarrow> held_by k ch (deliverResponse resp c)"
  unfolding held_by_def
  by (auto intro: inflight_ops)
     (auto simp: inflight_def deliverResponse_def Let_def AList.delete_conv' split: option.splits)

lemma held_by_fail: "held_by k ch c \<Longrightarrow> held_by k ch (fail e c)"
  unfolding held_by_def
  by (auto intro: inflight_ops)
     (force simp: inflight_def fail_def dest: map_of_SomeD split: if_splits)

lemma held_by_closeLease_sweep: "held_by k ch c \<Longrightarrow> held_by k ch (closeLease_sweep l c)"
  unfolding held_by_def
  by (auto intro: inflight_ops)
     (force simp: inflight_def closeLease_sweep_def Let_def map_of_filter_key)

lemma held_by_removePending: "held_by k ch c \<Longrightarrow> k' \<noteq> k \<Longrightarrow> held_by k ch (removePending k' c)"
  unfolding held_by_def
  by (auto simp: inflight_def removePending_def AList.delete_conv')

lemma held_by_fields:
  "held_by k ch c \<Longrightarrow> pending c' = pending c \<Longrightarrow> outbox c' = outbox c \<Longrightarrow> results c' = results c \<Longrightarrow> held_by k ch c'"
  by (simp add: held_by_def inflight_def)

lemma held_by_dispatch_begin:
  assumes "dispatch_begin t req c = (Ret (req', packet, ch'), c')" "held_by k ch c"
  shows "held_by k ch c'"
proof -
  obtain c1 where a: "addPending t (request_key req') ch' (c1\<lparr>nextChan := Suc ch'\<rparr>) = Ret c'"
    and c1: "pending c1 = pending c" "outbox c1 = outbox c" "results c1 = results c"
    using dispatch_begin_Ret(4) [OF assms(1)] by blast
  with addPending_Ret [OF a] assms(2) show "held_by k ch c'"
    by (auto simp: held_by_def inflight_def map_add_def split: option.splits)
qed

lemma held_by_new:
  assumes "dispatch_begin t req c = (Ret (req', packet, ch'), c')"
  shows "held_by (request_key req') ch' c'"
proof -
  obtain c1 where a: "addPending t (request_key req') ch' (c1\<lparr>nextChan := Suc ch'\<rparr>) = Ret c'"
    using dispatch_begin_Ret(4) [OF assms(1)] by blast
  with addPending_Ret [OF a] show ?thesis
    by (auto simp: held_by_def map_add_def split: option.splits)
qed

lemmas held_by_ops =
  held_by_deliverResponse held_by_fail held_by_closeLease_sweep held_by_removePending

definition client_ok :: "core \<Rightarrow> chan \<times> Request \<times> phase \<Rightarrow> bool" where
  "client_ok c x \<longleftrightarrow>
     (case x of (ch, req, p) \<Rightarrow>
        ch < nextChan c \<and> (if p = Claimed then inflight ch c else held_by (request_key req) ch c))"

definition client_key :: "chan \<times> Request \<times> phase \<Rightarrow> messageKey" where
  "client_key x = request_key (fst (snd x))"

definition live_inv :: "sys \<Rightarrow> bool" where
  "live_inv s \<longleftrightarrow>
     core_wf (co s) \<and> distinct (map fst (clients s)) \<and> distinct (map client_key (clients s))
     \<and> (\<forall>x \<in> set (clients s). client_ok (co s) x)"

lemma client_ok_mono:
  assumes "client_ok c x" "chans_grow c c'"
    and "held_by (client_key x) (fst x) c \<Longrightarrow> held_by (client_key x) (fst x) c'"
    and "inflight (fst x) c \<Longrightarrow> inflight (fst x) c'"
  shows "client_ok c' x"
  using assms by (auto simp: client_ok_def client_key_def chans_grow_def)

lemma live_inv_core:
  assumes "live_inv s" "chans_grow (co s) c'"
    and "\<And>k ch. held_by k ch (co s) \<Longrightarrow> held_by k ch c'"
    and "\<And>ch. inflight ch (co s) \<Longrightarrow> inflight ch c'"
  shows "live_inv (s\<lparr>co := c'\<rparr>)"
  using assms by (auto simp: live_inv_def chans_grow_def intro: client_ok_mono)

lemma live_inv_drop:
  assumes "live_inv s" "(ch, req, p) \<in> set (clients s)" "chans_grow (co s) c'"
    and "\<And>k ch'. k \<noteq> request_key req \<Longrightarrow> ch' \<noteq> ch \<Longrightarrow> held_by k ch' (co s) \<Longrightarrow> held_by k ch' c'"
    and "\<And>ch'. ch' \<noteq> ch \<Longrightarrow> inflight ch' (co s) \<Longrightarrow> inflight ch' c'"
  shows "live_inv (s\<lparr>co := c', clients := drop_client ch (clients s)\<rparr>)"
proof -
  have "client_ok c' x" if x: "x \<in> set (clients s)" "fst x \<noteq> ch" for x
  proof (rule client_ok_mono [OF _ assms(3)])
    show "client_ok (co s) x" using assms(1) x by (simp add: live_inv_def)
    have "client_key x \<noteq> client_key (ch, req, p)"
      using assms(1,2) x inj_onD [of client_key "set (clients s)" x "(ch, req, p)"]
      by (auto simp: live_inv_def distinct_map)
    then have "client_key x \<noteq> request_key req" by (simp add: client_key_def)
    then show "held_by (client_key x) (fst x) (co s) \<Longrightarrow> held_by (client_key x) (fst x) c'"
      using assms(4) x(2) by blast
  qed (use assms(5) x(2) in blast)
  then show ?thesis
    using assms(1,3) by (auto simp: live_inv_def drop_client_def distinct_map_filter chans_grow_def)
qed

lemma map_set_phase [simp]:
  "map fst (set_phase ch p cls) = map fst cls" "map client_key (set_phase ch p cls) = map client_key cls"
  by (simp_all add: set_phase_def client_key_def case_prod_unfold)

lemma live_inv_phase:
  assumes "live_inv s" "(ch, req, q) \<in> set (clients s)" "client_ok (co s) (ch, req, p)"
  shows "live_inv (s\<lparr>clients := set_phase ch p (clients s)\<rparr>)"
proof -
  have "client_ok (co s) y" if "y \<in> set (set_phase ch p (clients s))" for y
  proof -
    from that obtain ch' req' q' where y: "y = (ch', req', if ch' = ch then p else q')"
      and m: "(ch', req', q') \<in> set (clients s)" by (auto simp: set_phase_def)
    show ?thesis
    proof (cases "ch' = ch")
      case True
      with assms(1,2) m have "req' = req"
        using inj_onD [of fst "set (clients s)" "(ch', req', q')" "(ch, req, q)"]
        by (auto simp: live_inv_def distinct_map)
      with True assms(3) y show ?thesis by simp
    next
      case False
      with assms(1) m y show ?thesis by (auto simp: live_inv_def)
    qed
  qed
  with assms(1) show ?thesis by (simp add: live_inv_def)
qed

lemma live_inv_settle:
  assumes "live_inv s" "(ch, req, q) \<in> set (clients s)" "q \<noteq> Claimed"
    and "r = None \<and> c' = co s \<and> map_of (pending (co s)) (request_key req) \<noteq> Some ch
       \<or> r \<noteq> None \<and> (c' = removePending (request_key req) (co s)
            \<or> c' = fail e (removePending (request_key req) (co s)))"
  shows "live_inv (s\<lparr>co := c', clients := settle ch r (clients s)\<rparr>)"
  using assms(4)
proof (elim disjE conjE)
  assume r: "r = None" "c' = co s" "map_of (pending (co s)) (request_key req) \<noteq> Some ch"
  have "client_ok (co s) (ch, req, q)" using assms(1,2) by (auto simp: live_inv_def)
  with r(3) assms(3) have "client_ok (co s) (ch, req, Claimed)" by (simp add: client_ok_def held_by_def)
  from live_inv_phase [OF assms(1,2) this] r show ?thesis by (simp add: settle_def)
next
  let ?c1 = "removePending (request_key req) (co s)"
  assume r: "r \<noteq> None" "c' = ?c1"
  have "chans_grow (co s) ?c1" using assms(1) by (auto simp: live_inv_def intro: chans_grow_settled)
  with r show ?thesis
    by (auto simp: settle_def intro!: live_inv_drop [OF assms(1,2)] intro: held_by_ops inflight_ops)
next
  let ?c2 = "fail e (removePending (request_key req) (co s))"
  assume r: "r \<noteq> None" "c' = ?c2"
  have "chans_grow (co s) ?c2" using assms(1) by (auto simp: live_inv_def intro: chans_grow_settled)
  with r show ?thesis
    by (auto simp: settle_def intro!: live_inv_drop [OF assms(1,2)]
        held_by_fail held_by_removePending inflight_ops(1,3))
qed

lemma live_inv_dispatch:
  assumes "live_inv s" "dispatch_begin t req (co s) = (Ret (req', packet, ch), c')"
    "unused_key s (request_key req')"
  shows "live_inv (s\<lparr>co := c', clients := clients s @ [(ch, req', Prewriting)]\<rparr>)"
proof -
  have g: "chans_grow (co s) c'"
    using assms(1,2) chans_grow_dispatch_begin by (auto simp: live_inv_def)
  have ch: "ch = nextChan (co s)" by (rule dispatch_begin_Ret(2) [OF assms(2)])
  have "inflight x c'" if "inflight x (co s)" for x
    using that dispatch_begin_Ret(4) [OF assms(2)] addPending_Ret(3,6) by (fastforce simp: inflight_def)
  from live_inv_core [OF assms(1) g held_by_dispatch_begin [OF assms(2)] this]
  have i: "live_inv (s\<lparr>co := c'\<rparr>)" .
  have "nextChan c' = Suc ch"
    using dispatch_begin_Ret(4) [OF assms(2)] by (auto dest: addPending_Ret(5))
  then have new: "client_ok c' (ch, req', Prewriting)"
    using held_by_new [OF assms(2)] by (simp add: client_ok_def)
  have "ch \<notin> fst ` set (clients s)" "request_key req' \<notin> client_key ` set (clients s)"
    using assms(1,3) ch by (auto simp: live_inv_def client_ok_def unused_key_def client_key_def image_iff)
  with i new show ?thesis by (auto simp: live_inv_def client_key_def)
qed

lemma inflight_Receive: "ch' \<noteq> ch \<Longrightarrow> inflight ch' (c\<lparr>results := AList.delete ch (results c)\<rparr>) = inflight ch' c"
  by (auto simp: inflight_def fst_delete)

lemma inflight_Send:
  "outbox c = xs @ (Some ch, r) # ys
    \<Longrightarrow> inflight ch' (c\<lparr>outbox := xs @ ys, results := (ch, r) # results c\<rparr>) = inflight ch' c"
  by (auto simp: inflight_def)

lemma live_inv_ops:
  assumes "live_inv s"
  shows "live_inv (s\<lparr>co := deliverResponse resp (co s)\<rparr>)" "live_inv (s\<lparr>co := fail e (co s)\<rparr>)"
    "live_inv (s\<lparr>co := closeLease_sweep l (co s)\<rparr>)" "live_inv (s\<lparr>co := closeLease_mark l (co s)\<rparr>)"
    "live_inv (s\<lparr>co := deliverIndication ind (co s)\<rparr>)" "live_inv (s\<lparr>co := removeSubscription i (co s)\<rparr>)"
    "live_inv (s\<lparr>co := removeFinishedSubscription i (co s)\<rparr>)"
proof -
  have wf: "core_wf (co s)" using assms by (simp add: live_inv_def)
  note grow = live_inv_core [OF assms chans_grow_ops(3) [OF wf]] live_inv_core [OF assms chans_grow_ops(4) [OF wf]]
    live_inv_core [OF assms chans_grow_ops(5) [OF wf]] live_inv_core [OF assms chans_grow_ops(6) [OF wf]]
    live_inv_core [OF assms chans_grow_ops(7) [OF wf]] live_inv_core [OF assms chans_grow_ops(8) [OF wf]]
    live_inv_core [OF assms chans_grow_ops(9) [OF wf]]
  show "live_inv (s\<lparr>co := deliverResponse resp (co s)\<rparr>)" "live_inv (s\<lparr>co := fail e (co s)\<rparr>)"
    "live_inv (s\<lparr>co := closeLease_sweep l (co s)\<rparr>)"
    by (rule grow; simp add: held_by_ops inflight_ops)+
  show "live_inv (s\<lparr>co := closeLease_mark l (co s)\<rparr>)"
    "live_inv (s\<lparr>co := deliverIndication ind (co s)\<rparr>)" "live_inv (s\<lparr>co := removeSubscription i (co s)\<rparr>)"
    "live_inv (s\<lparr>co := removeFinishedSubscription i (co s)\<rparr>)"
    by (rule grow; simp add: held_by_def inflight_def deliverIndication_def closeLease_mark_def
        removeSubscription_def removeFinishedSubscription_def split: option.splits)+
qed

lemma live_inv_step:
  assumes "sys_step unused_key s s'" "live_inv s"
  shows "live_inv s'"
  using assms
proof (induction rule: sys_step.induct)
  case (Dispatch t req s req' packet ch c')
  then show ?case by (simp add: live_inv_dispatch)
next
  case (DispatchError t req s e c')
  then have "chans_grow (co s) c'" using chans_grow_dispatch_begin by (auto simp: live_inv_def)
  with DispatchError show ?case
    using dispatch_begin_Fail [OF DispatchError(1)]
    by (intro live_inv_core) (auto simp: held_by_def inflight_def)
next
  case (Abort ch req s)
  then have "live_inv (s\<lparr>co := removePending (request_key req) (co s), clients := settle ch (Some AlreadyPending) (clients s)\<rparr>)"
    by (intro live_inv_settle) auto
  then show ?case by (simp add: settle_def)
next
  case (Written ch req s)
  then have "client_ok (co s) (ch, req, Prewriting)" by (auto simp: live_inv_def)
  then have "client_ok (co s) (ch, req, Awaiting)" by (simp add: client_ok_def)
  with Written show ?case by (blast intro: live_inv_phase)
next
  case (WriteFailed ch req s len written interrupted ctxErr r c')
  show ?case
    by (rule dispatch_write_failed_cases [OF WriteFailed(2)];
        rule live_inv_settle [OF WriteFailed(3,1)]; blast)
next
  case (WaitExpired ch req s e r c')
  show ?case
    by (rule wait_expired_cases [OF WaitExpired(2)];
        rule live_inv_settle [OF WaitExpired(3,1)]; blast)
next
  case (Receive ch req p s r)
  then show ?case
    by (intro live_inv_drop) (auto simp: live_inv_def held_by_def inflight_Receive intro: chans_grow_Receive)
next
  case (Send s xs ch r ys)
  then show ?case
    by (intro live_inv_core) (auto simp: live_inv_def held_by_def inflight_Send intro: chans_grow_Send)
next
  case (Subscribe t service clientID mid s i c')
  then have "chans_grow (co s) c'" by (auto simp: live_inv_def intro: chans_grow_Indications)
  with Subscribe show ?case
    by (intro live_inv_core) (auto simp: Indications_def held_by_def inflight_def Let_def
        split: if_splits option.splits)
qed (simp_all add: live_inv_ops)

lemma live_inv_steps: "sys_steps unused_key s s' \<Longrightarrow> live_inv s \<Longrightarrow> live_inv s'"
  by (induction rule: sys_steps.induct) (auto intro: live_inv_step)

lemma live_inv_init: "live_inv init_sys"
  using core_wf_init by (simp add: live_inv_def init_sys_def)

section \<open>Properties\<close>

text \<open>C2: no send on a result channel ever blocks, whatever keys callers use and however the steps
  interleave: every send that an operation still has to perform goes to a non-nil channel whose
  one-element buffer is empty, no two of them go to the same channel, and a channel with a send
  outstanding is no longer in the table.\<close>

theorem result_sends_never_block:
  assumes "sys_steps any_key init_sys s"
  shows "(\<forall>x r. (x, r) \<in> set (outbox (co s)) \<longrightarrow>
            (\<exists>ch. x = Some ch \<and> ch \<notin> fst ` set (results (co s)) \<and> ch \<notin> snd ` set (pending (co s))))
    \<and> distinct (map fst (outbox (co s)))"
proof -
  have "core_wf (co s)" using sys_steps_core_wf [OF assms core_wf_init] .
  then have d: "distinct (chans (co s))" and r: "set (chans (co s)) \<subseteq> Some ` {..<nextChan (co s)}"
    by (simp_all add: core_wf_def)
  have "\<exists>ch. x = Some ch \<and> ch \<notin> fst ` set (results (co s)) \<and> ch \<notin> snd ` set (pending (co s))"
    if "(x, e) \<in> set (outbox (co s))" for x e
  proof -
    have x: "x \<in> fst ` set (outbox (co s))" using that by force
    then obtain ch where "x = Some ch" using r by (auto simp: chans_def)
    with x d show ?thesis by (force simp: chans_def)
  qed
  with d show ?thesis by (auto simp: chans_def)
qed

text \<open>C1: no caller is lost, as long as no caller registers a key that a live caller still uses:
  in every interleaving, a caller that blocks on its result channel has a result in its buffer or
  about to be sent, and any other live caller either has its transaction pending under its own
  channel (so a response, a failure or a lease close reaches it) or has a result on the way.\<close>

theorem no_caller_lost:
  assumes "sys_steps unused_key init_sys s" "(ch, req, p) \<in> set (clients s)"
  shows "(p = Claimed \<longrightarrow> inflight ch (co s))
    \<and> (map_of (pending (co s)) (request_key req) = Some ch \<or> inflight ch (co s))"
  using live_inv_steps [OF assms(1) live_inv_init] assms(2)
  by (auto simp: live_inv_def client_ok_def held_by_def split: if_splits)

section \<open>Reused keys\<close>

text \<open>A caller blocked on a channel that nothing will ever send on.\<close>

definition dead :: "chan \<Rightarrow> Request \<Rightarrow> sys \<Rightarrow> bool" where
  "dead ch req s \<longleftrightarrow>
     (ch, req, Claimed) \<in> set (clients s) \<and> ch < nextChan (co s) \<and> Some ch \<notin> set (chans (co s))
     \<and> core_wf (co s) \<and> distinct (map fst (clients s))
     \<and> fst ` set (clients s) \<subseteq> {..<nextChan (co s)}"

lemma dead_clients:
  assumes "sys_step ok s s'" "dead ch req s"
  shows "(ch, req, Claimed) \<in> set (clients s') \<and> distinct (map fst (clients s'))
    \<and> fst ` set (clients s') \<subseteq> {..<nextChan (co s')}"
proof -
  have grow: "nextChan (co s) \<le> nextChan (co s')"
    using sys_step_grow [OF assms(1)] assms(2) by (simp add: dead_def chans_grow_def)
  have uniq: "ch' \<noteq> ch" if "(ch', r, q) \<in> set (clients s)" "q \<noteq> Claimed" for ch' r q
    using assms(2) that inj_onD [of fst "set (clients s)" "(ch', r, q)" "(ch, req, Claimed)"]
    by (auto simp: dead_def distinct_map)
  have res: "ch' \<noteq> ch" if "map_of (results (co s)) ch' = Some r" for ch' r
    using assms(2) that by (force simp: dead_def chans_def dest: map_of_SomeD)
  have dr: "(ch, req, Claimed) \<in> set (drop_client ch' (clients s)) \<and> distinct (map fst (drop_client ch' (clients s)))
      \<and> fst ` set (drop_client ch' (clients s)) \<subseteq> {..<nextChan (co s')}" if "ch' \<noteq> ch" for ch'
    using assms(2) that grow by (auto simp: dead_def drop_client_def distinct_map_filter)
  have ph: "(ch, req, Claimed) \<in> set (set_phase ch' q (clients s)) \<and> distinct (map fst (set_phase ch' q (clients s)))
      \<and> fst ` set (set_phase ch' q (clients s)) \<subseteq> {..<nextChan (co s')}" if "ch' \<noteq> ch" for ch' q
    using assms(2) that grow by (force simp: dead_def set_phase_def case_prod_unfold comp_def)
  have dist: "distinct (map fst (clients s))" using assms(2) by (simp add: dead_def)
  have same: "clients s' = clients s \<Longrightarrow> ?thesis"
    using assms(2) grow by (force simp: dead_def)
  from assms(1) show ?thesis
  proof cases
    case (Dispatch t rq rq' packet ch' c')
    then have "ch' = nextChan (co s)" "nextChan c' = Suc ch'"
      using dispatch_begin_Ret(2,4) [OF Dispatch(2)] by (auto dest: addPending_Ret(5))
    with Dispatch assms(2) show ?thesis by (force simp: dead_def)
  next
    case (WriteFailed ch' rq len written interrupted ctxErr r c')
    with uniq dr ph dist show ?thesis by (simp add: settle_def split: option.splits)
  next
    case (WaitExpired ch' rq e r c')
    with uniq dr ph dist show ?thesis by (simp add: settle_def split: option.splits)
  next
    case (Abort ch' rq)
    with uniq dr show ?thesis by simp
  next
    case (Written ch' rq)
    with uniq ph dist show ?thesis by simp
  next
    case (Receive ch' rq q r)
    with res dr show ?thesis by simp
  qed (use same in simp_all)
qed

lemma dead_step: "sys_step ok s s' \<Longrightarrow> dead ch req s \<Longrightarrow> dead ch req s'"
  using sys_step_grow [of ok s s'] dead_clients [of ok s s' ch req]
  by (auto simp: dead_def chans_grow_def)

lemma dead_steps: "sys_steps ok s s' \<Longrightarrow> dead ch req s \<Longrightarrow> dead ch req s'"
  by (induction rule: sys_steps.induct) (auto intro: dead_step)


text \<open>
  A concrete run. Caller A registers a key and waits for the write gate; a response with that key
  arrives and claims A's transaction; caller B registers the same key; A's context ends before its
  write, and its \<open>removePending\<close> deletes B's entry, because it deletes by key and not by channel.
\<close>

definition plain_handle :: handle where
  "plain_handle = \<lparr>h_shared = False, h_lease = None\<rparr>"

abbreviation "sample_key \<equiv> request_key sample_request"

definition run_core :: "(messageKey \<times> chan) list \<Rightarrow> (chan option \<times> responseResult) list \<Rightarrow> nat \<Rightarrow> core" where
  "run_core ps out n =
     newTransportCore\<lparr>pending := ps, pendingOwners := map (\<lambda>(k, ch). (k, None)) ps, outbox := out, nextChan := n\<rparr>"

lemma marshal_sample: "\<exists>packet. marshalRequest sample_request = Ret packet"
  by (simp add: sample_request_def marshalRequest_eq_Ret_iff validateRequest_def ServiceControl_def Let_def)

lemma run_dispatch:
  "\<exists>packet. dispatch_begin plain_handle sample_request (run_core [] out n)
     = (Ret (sample_request, packet, n), run_core [(sample_key, n)] out (Suc n))"
  using marshal_sample
  by (auto simp: dispatch_begin_def plain_handle_def addPending_def lease_closed_def run_core_def
      newTransportCore_def Let_def)

lemma run_deliver:
  "deliverResponse sample_response (run_core [(sample_key, ch)] out n)
     = run_core [] (out @ [(Some ch, Response sample_response)]) n"
proof -
  have "response_key sample_response = sample_key"
    by (simp add: response_key_def request_key_def sample_response_def sample_request_def ServiceControl_def)
  then show ?thesis by (simp add: deliverResponse_def run_core_def newTransportCore_def Let_def)
qed

lemma run_dispatch_step:
  "sys_step any_key \<lparr>co = run_core [] out n, clients = cls\<rparr>
     \<lparr>co = run_core [(sample_key, n)] out (Suc n), clients = cls @ [(n, sample_request, Prewriting)]\<rparr>"
proof -
  obtain packet where "dispatch_begin plain_handle sample_request (co \<lparr>co = run_core [] out n, clients = cls\<rparr>)
     = (Ret (sample_request, packet, n), run_core [(sample_key, n)] out (Suc n))"
    using run_dispatch by auto
  from sys_step.Dispatch [OF this, of any_key] show ?thesis by (simp add: any_key_def)
qed

definition claimed_state :: sys where
  "claimed_state =
     \<lparr>co = run_core [] [(Some 0, Response sample_response)] 1, clients = [(0, sample_request, Prewriting)]\<rparr>"

definition stuck_state :: sys where
  "stuck_state =
     \<lparr>co = run_core [] [(Some 0, Response sample_response)] 2, clients = [(1, sample_request, Claimed)]\<rparr>"

lemma claimed_reachable: "sys_steps any_key init_sys claimed_state"
proof -
  have init: "init_sys = \<lparr>co = run_core [] [] 0, clients = []\<rparr>"
    by (simp add: init_sys_def run_core_def newTransportCore_def)
  have "sys_steps any_key init_sys \<lparr>co = run_core [(sample_key, 0)] [] 1, clients = [(0, sample_request, Prewriting)]\<rparr>"
    using sys_steps.Step [OF sys_steps.Refl run_dispatch_step [of "[]" 0 "[]"]] by (simp add: init)
  from sys_steps.Step [OF this sys_step.Deliver [where resp = sample_response]] show ?thesis
    by (simp add: run_deliver claimed_state_def)
qed

lemma stuck_reachable: "sys_steps any_key claimed_state stuck_state"
proof -
  let ?out = "[(Some 0, Response sample_response)]"
  let ?A = "(0, sample_request, Prewriting)"
  have "sys_steps any_key claimed_state
      \<lparr>co = run_core [(sample_key, 1)] ?out 2, clients = [?A, (1, sample_request, Prewriting)]\<rparr>"
    using sys_steps.Step [OF sys_steps.Refl run_dispatch_step [of ?out 1 "[?A]"]]
    by (simp add: claimed_state_def numeral_2_eq_2)
  from sys_steps.Step [OF this sys_step.Abort [of 0 sample_request]]
  have "sys_steps any_key claimed_state
      \<lparr>co = run_core [] ?out 2, clients = [(1, sample_request, Prewriting)]\<rparr>"
    by (simp add: removePending_def run_core_def newTransportCore_def drop_client_def)
  from sys_steps.Step [OF this sys_step.Written [of 1 sample_request]]
  have "sys_steps any_key claimed_state
      \<lparr>co = run_core [] ?out 2, clients = [(1, sample_request, Awaiting)]\<rparr>"
    by (simp add: set_phase_def)
  moreover have "wait_expired sample_request sample_key 1 DeadlineExceeded (run_core [] ?out 2) = (None, run_core [] ?out 2)"
    by (simp add: wait_expired_def expirePending_def run_core_def newTransportCore_def)
  ultimately show ?thesis
    using sys_steps.Step [OF _ sys_step.WaitExpired [of 1 sample_request]]
    by (fastforce simp: settle_def set_phase_def stuck_state_def)
qed

lemma sys_steps_trans: "sys_steps ok s' s'' \<Longrightarrow> sys_steps ok s s' \<Longrightarrow> sys_steps ok s s''"
  by (induction rule: sys_steps.induct) (auto intro: sys_steps.Step)

lemma dead_stuck: "dead 1 sample_request stuck_state"
  by (simp add: dead_def stuck_state_def run_core_def newTransportCore_def chans_def core_wf_def)

text \<open>Without that discipline a caller can be lost: there is a reachable state in which a caller
  whose context has ended is blocked on its result channel, and in every continuation it stays
  blocked and its channel stays empty. The cause is \<open>removePending\<close>, which deletes the entry of
  a key even when the entry belongs to another caller.\<close>

theorem reused_key_loses_caller:
  "\<exists>s ch req. sys_steps any_key init_sys s
     \<and> (\<forall>s'. sys_steps any_key s s' \<longrightarrow>
          (ch, req, Claimed) \<in> set (clients s') \<and> ch \<notin> fst ` set (results (co s')))"
proof -
  have "(1, sample_request, Claimed) \<in> set (clients s') \<and> 1 \<notin> fst ` set (results (co s'))"
    if "sys_steps any_key stuck_state s'" for s'
    using dead_steps [OF that dead_stuck] by (force simp: dead_def chans_def)
  with sys_steps_trans [OF stuck_reachable claimed_reachable] show ?thesis by blast
qed

theorem reused_key_loses_caller_witness:
  "\<exists>s ch req. sys_steps any_key init_sys s \<and> (ch, req, Claimed) \<in> set (clients s)
     \<and> ch \<notin> fst ` set (results (co s))"
  using reused_key_loses_caller sys_steps.Refl by blast

theorem result_sends_never_block_witness:
  "(Some 0, Response sample_response) \<in> set (outbox (co claimed_state))
   \<and> 0 \<notin> fst ` set (results (co claimed_state))"
proof -
  have "(Some 0, Response sample_response) \<in> set (outbox (co claimed_state))"
    by (simp add: claimed_state_def run_core_def)
  with result_sends_never_block [OF claimed_reachable] show ?thesis by blast
qed

theorem no_caller_lost_witness:
  "map_of (pending sample_core) sample_key = Some 0 \<or> inflight 0 sample_core"
proof -
  have "sys_step unused_key init_sys \<lparr>co = sample_core, clients = [(0, sample_request, Prewriting)]\<rparr>"
    using sys_step.Dispatch [of sample_handle sample_request init_sys sample_request _ 0 sample_core unused_key]
      sample_dispatch
    by (simp add: init_sys_def unused_key_def)
  from no_caller_lost [OF sys_steps.Step [OF sys_steps.Refl this], of 0 sample_request Prewriting]
  show ?thesis by simp
qed

end
