(* ===== verification/Qmi_Pool.thy ===== *)
theory Qmi_Pool
  imports Qmi_Wire
begin

text \<open>
  The pool of directly opened QMI devices (\<^verbatim>\<open>qcom/qmi/pool.go\<close>): one entry per device key, shared by
  reference-counted leases, opened and closed outside the pool lock. Each critical section and
  each dial, initialisation and connection close is one step, so that acquirers, releasers and
  failing cores interleave freely. The device key (a cleaned path with its symbolic links
  resolved) is the argument of the operations; the dialer and the initialisation are the
  nondeterministic outcomes of their steps.
\<close>

section \<open>State\<close>

text \<open>A transport core as the pool sees it: usable, failed by itself, or closed by the pool.\<close>

datatype core_status = Usable | Failed | Core_closed

text \<open>An entry; \<open>e_key\<close> is a ghost field, the key it was inserted under.\<close>

record directEntry =
  e_key :: string
  e_core :: "nat option"
  e_opening :: bool
  e_closed :: bool
  e_refs :: int
  e_closing :: bool

text \<open>
  \<open>core_entry\<close> is a ghost field, the entry a core was dialed for. The threads inside the pool between two critical sections: openers that hold a fresh entry,
  and closers that have marked an entry and are closing its core.
\<close>

datatype open_pc = Dialing | Initialising nat | InitFailed nat
datatype close_pc = CloseCore | Discard

record pool =
  entries :: "string \<Rightarrow> nat option"
  store :: "nat \<Rightarrow> directEntry"
  nextEntry :: nat
  core_stat :: "nat \<Rightarrow> core_status option"
  core_entry :: "nat \<Rightarrow> nat"
  nextCore :: nat
  leases :: "(string \<times> nat) list"
  openers :: "(string \<times> nat \<times> open_pc) list"
  closers :: "(string \<times> nat \<times> close_pc) list"
  channel_panic :: bool

definition newEntry :: "string \<Rightarrow> directEntry" where
  "newEntry key =
     \<lparr>e_key = key, e_core = None, e_opening = False, e_closed = False, e_refs = 0, e_closing = False\<rparr>"

definition init_pool :: pool where
  "init_pool =
     \<lparr>entries = (\<lambda>_. None), store = (\<lambda>_. newEntry []), nextEntry = 0, core_stat = (\<lambda>_. None),
      core_entry = (\<lambda>_. 0), nextCore = 0, leases = [], openers = [], closers = [],
      channel_panic = False\<rparr>"

text \<open>\<open>e_opening\<close> and \<open>e_closed\<close> say that the channel of that name is closed; closing a closed
  channel panics.\<close>

definition close_opening :: "nat \<Rightarrow> pool \<Rightarrow> pool" where
  "close_opening e p =
     p\<lparr>channel_panic := channel_panic p \<or> e_opening (store p e), store := (store p)(e := (store p e)\<lparr>e_opening := True\<rparr>)\<rparr>"

definition close_closed :: "nat \<Rightarrow> pool \<Rightarrow> pool" where
  "close_closed e p =
     p\<lparr>channel_panic := channel_panic p \<or> e_closed (store p e), store := (store p)(e := (store p e)\<lparr>e_closed := True\<rparr>)\<rparr>"

definition directCoreAvailable :: "nat \<Rightarrow> pool \<Rightarrow> bool" where
  "directCoreAvailable c p \<longleftrightarrow> core_stat p c = Some Usable"

definition closeCore_of :: "nat \<Rightarrow> pool \<Rightarrow> pool" where
  "closeCore_of c p = p\<lparr>core_stat := (core_stat p)(c \<mapsto> Core_closed)\<rparr>"

section \<open>Operations\<close>

text \<open>
  The critical section at the head of the loop in \<open>acquire\<close>: wait for a closing or an opening
  entry, lease a usable core, mark a stale entry for discarding, or insert a fresh entry and
  become its opener.
\<close>

datatype acquired = WaitClosed nat | WaitOpening nat | Leased nat | Stale nat | Opener nat

definition acquire_enter :: "string \<Rightarrow> pool \<Rightarrow> acquired \<times> pool" where
  "acquire_enter key p =
     (case entries p key of
        Some e \<Rightarrow>
          if e_closing (store p e) then (WaitClosed e, p)
          else (case e_core (store p e) of
                  Some c \<Rightarrow>
                    if directCoreAvailable c p
                    then (Leased c,
                          p\<lparr>store := (store p)(e := (store p e)\<lparr>e_refs := e_refs (store p e) + 1\<rparr>),
                            leases := (key, c) # leases p\<rparr>)
                    else (Stale e,
                          p\<lparr>store := (store p)(e := (store p e)\<lparr>e_closing := True\<rparr>),
                            closers := (key, e, CloseCore) # closers p\<rparr>)
                | None \<Rightarrow> (WaitOpening e, p))
      | None \<Rightarrow>
          let e = nextEntry p in
          (Opener e,
           p\<lparr>entries := (entries p)(key \<mapsto> e), store := (store p)(e := newEntry key), nextEntry := e + 1,
             openers := (key, e, Dialing) # openers p\<rparr>))"

text \<open>The opener: \<open>Dial\<close> fails or gives a core; initialisation fails (the core is closed, then the
  entry discarded) or succeeds (the entry is published with one reference).\<close>

definition discard_opening :: "string \<Rightarrow> nat \<Rightarrow> open_pc \<Rightarrow> pool \<Rightarrow> pool" where
  "discard_opening key e pc p =
     (let p1 = close_closed e (close_opening e (p\<lparr>entries := (entries p)(key := None)\<rparr>))
      in p1\<lparr>openers := remove1 (key, e, pc) (openers p1)\<rparr>)"

definition dialed :: "string \<Rightarrow> nat \<Rightarrow> pool \<Rightarrow> pool" where
  "dialed key e p =
     p\<lparr>core_stat := (core_stat p)(nextCore p \<mapsto> Usable),
       core_entry := (core_entry p)(nextCore p := e), nextCore := nextCore p + 1,
       openers := (key, e, Initialising (nextCore p)) # remove1 (key, e, Dialing) (openers p)\<rparr>"

definition init_failed :: "string \<Rightarrow> nat \<Rightarrow> nat \<Rightarrow> pool \<Rightarrow> pool" where
  "init_failed key e c p =
     closeCore_of c (p\<lparr>openers := (key, e, InitFailed c) # remove1 (key, e, Initialising c) (openers p)\<rparr>)"

definition publish :: "string \<Rightarrow> nat \<Rightarrow> nat \<Rightarrow> pool \<Rightarrow> pool" where
  "publish key e c p =
     (let p1 = close_opening e (p\<lparr>store := (store p)(e := (store p e)\<lparr>e_core := Some c, e_refs := 1\<rparr>)\<rparr>)
      in p1\<lparr>leases := (key, c) # leases p1, openers := remove1 (key, e, Initialising c) (openers p1)\<rparr>)"

text \<open>\<open>release\<close>, called once per lease: the last reference marks the entry and becomes its closer.\<close>

definition release :: "string \<Rightarrow> nat \<Rightarrow> pool \<Rightarrow> pool" where
  "release key c p =
     (let p0 = p\<lparr>leases := remove1 (key, c) (leases p)\<rparr> in
      case entries p key of
        None \<Rightarrow> p0
      | Some e \<Rightarrow>
          if e_core (store p e) \<noteq> Some c \<or> e_closing (store p e) then p0
          else let refs = e_refs (store p e) - 1 in
            if refs > 0
            then p0\<lparr>store := (store p)(e := (store p e)\<lparr>e_refs := refs\<rparr>)\<rparr>
            else p0\<lparr>store := (store p)(e := (store p e)\<lparr>e_refs := refs, e_closing := True\<rparr>),
                    closers := (key, e, CloseCore) # closers p\<rparr>)"

text \<open>\<open>closeEntry\<close>: close the core, then discard the entry if it is still the current one.\<close>

definition closeEntry_core :: "string \<Rightarrow> nat \<Rightarrow> pool \<Rightarrow> pool" where
  "closeEntry_core key e p =
     (let p1 = p\<lparr>closers := (key, e, Discard) # remove1 (key, e, CloseCore) (closers p)\<rparr>
      in case e_core (store p e) of Some c \<Rightarrow> closeCore_of c p1 | None \<Rightarrow> p1)"

definition closeEntry_discard :: "string \<Rightarrow> nat \<Rightarrow> pool \<Rightarrow> pool" where
  "closeEntry_discard key e p =
     (let p1 = p\<lparr>closers := remove1 (key, e, Discard) (closers p)\<rparr>
      in if entries p key = Some e then close_closed e (p1\<lparr>entries := (entries p)(key := None)\<rparr>) else p1)"

inductive pool_step :: "pool \<Rightarrow> pool \<Rightarrow> bool" where
  Acquire: "acquire_enter key p = (r, p') \<Longrightarrow> pool_step p p'"
| DialFailed: "(key, e, Dialing) \<in> set (openers p) \<Longrightarrow> pool_step p (discard_opening key e Dialing p)"
| Dialed: "(key, e, Dialing) \<in> set (openers p) \<Longrightarrow> pool_step p (dialed key e p)"
| InitFailed: "(key, e, Initialising c) \<in> set (openers p) \<Longrightarrow> pool_step p (init_failed key e c p)"
| InitDiscard: "(key, e, InitFailed c) \<in> set (openers p)
    \<Longrightarrow> pool_step p (discard_opening key e (InitFailed c) p)"
| Publish: "(key, e, Initialising c) \<in> set (openers p) \<Longrightarrow> pool_step p (publish key e c p)"
| Release: "(key, c) \<in> set (leases p) \<Longrightarrow> pool_step p (release key c p)"
| CloseEntryCore: "(key, e, CloseCore) \<in> set (closers p) \<Longrightarrow> pool_step p (closeEntry_core key e p)"
| CloseEntryDiscard: "(key, e, Discard) \<in> set (closers p) \<Longrightarrow> pool_step p (closeEntry_discard key e p)"
| CoreFails: "core_stat p c = Some Usable
    \<Longrightarrow> pool_step p (p\<lparr>core_stat := (core_stat p)(c \<mapsto> Failed)\<rparr>)"

inductive pool_reachable :: "pool \<Rightarrow> bool" where
  Init: "pool_reachable init_pool"
| Step: "pool_reachable p \<Longrightarrow> pool_step p p' \<Longrightarrow> pool_reachable p'"

section \<open>Invariant\<close>

text \<open>The number of threads that work on an entry.\<close>

definition n_threads :: "nat \<Rightarrow> (string \<times> nat \<times> 'pc) list \<Rightarrow> nat" where
  "n_threads e ts = length (filter (\<lambda>t. fst (snd t) = e) ts)"

lemma n_threads_Nil [simp]: "n_threads e [] = 0"
  by (simp add: n_threads_def)

lemma n_threads_Cons [simp]:
  "n_threads e (t # ts) = (if fst (snd t) = e then 1 else 0) + n_threads e ts"
  by (simp add: n_threads_def)

lemma n_threads_remove1:
  "t \<in> set ts \<Longrightarrow> n_threads e (remove1 t ts) = n_threads e ts - (if fst (snd t) = e then 1 else 0)"
proof (induction ts)
  case (Cons u ts)
  have "0 < n_threads (fst (snd t)) ts" if "t \<in> set ts" using that by (auto simp: n_threads_def filter_empty_conv)
  with Cons show ?case by auto
qed simp

lemma n_threads_pos: "(k, e, pc) \<in> set ts \<Longrightarrow> 0 < n_threads e ts"
  by (force simp: n_threads_def filter_empty_conv)

lemma n_threads_ex: "n_threads e ts = 1 \<Longrightarrow> \<exists>k pc. (k, e, pc) \<in> set ts"
proof (induction ts)
  case (Cons t ts)
  then show ?case by (cases t) (auto split: if_splits)
qed simp

lemma n_threads_unique:
  "n_threads e ts \<le> 1 \<Longrightarrow> (k, e, pc) \<in> set ts \<Longrightarrow> (k', e, pc') \<in> set ts \<Longrightarrow> k' = k \<and> pc' = pc"
proof (induction ts)
  case (Cons t ts)
  then show ?case using n_threads_pos [of k e pc ts] n_threads_pos [of k' e pc' ts] by (cases t) (auto split: if_splits)
qed simp

text \<open>
  A current entry (the one its key maps to) is neither closed nor abandoned: it has one opener as
  long as it has no core, and one closer once it is marked. Any other entry has no thread.
\<close>

definition current :: "pool \<Rightarrow> nat \<Rightarrow> bool" where
  "current p e \<longleftrightarrow> entries p (e_key (store p e)) = Some e"

definition entry_inv :: "pool \<Rightarrow> nat \<Rightarrow> bool" where
  "entry_inv p e \<longleftrightarrow>
     (if current p e
      then e < nextEntry p \<and> \<not> e_closed (store p e)
           \<and> n_threads e (openers p) = (if e_core (store p e) = None then 1 else 0)
           \<and> n_threads e (closers p) = (if e_closing (store p e) then 1 else 0)
           \<and> (e_core (store p e) = None \<longrightarrow> \<not> e_closing (store p e) \<and> \<not> e_opening (store p e))
      else n_threads e (openers p) = 0 \<and> n_threads e (closers p) = 0)"

definition keys_inv :: "pool \<Rightarrow> bool" where
  "keys_inv p \<longleftrightarrow>
     (\<forall>k e. entries p k = Some e \<longrightarrow> e_key (store p e) = k)
     \<and> (\<forall>t \<in> set (openers p). fst t = e_key (store p (fst (snd t))))
     \<and> (\<forall>t \<in> set (closers p). fst t = e_key (store p (fst (snd t))))"

definition threads_inv :: "pool \<Rightarrow> bool" where
  "threads_inv p \<longleftrightarrow> keys_inv p \<and> (\<forall>e. entry_inv p e) \<and> \<not> channel_panic p"

lemma opener_facts:
  assumes "threads_inv p" "(k, e, pc) \<in> set (openers p)"
  shows "entries p k = Some e" "e_key (store p e) = k" "e_core (store p e) = None" "\<not> e_opening (store p e)"
    "\<not> e_closed (store p e)" "\<not> e_closing (store p e)" "n_threads e (openers p) = 1"
    "n_threads e (closers p) = 0" "e < nextEntry p"
proof -
  have k: "e_key (store p e) = k" using assms by (force simp: threads_inv_def keys_inv_def)
  have "entry_inv p e" "0 < n_threads e (openers p)"
    using assms n_threads_pos by (auto simp: threads_inv_def)
  with k show "entries p k = Some e" "e_key (store p e) = k" "e_core (store p e) = None" "\<not> e_opening (store p e)"
    "\<not> e_closed (store p e)" "\<not> e_closing (store p e)" "n_threads e (openers p) = 1"
    "n_threads e (closers p) = 0" "e < nextEntry p"
    by (auto simp: entry_inv_def current_def split: if_splits)
qed

lemma closer_facts:
  assumes "threads_inv p" "(k, e, pc) \<in> set (closers p)"
  shows "entries p k = Some e" "e_key (store p e) = k" "e_core (store p e) \<noteq> None"
    "\<not> e_closed (store p e)" "e_closing (store p e)" "n_threads e (openers p) = 0"
    "n_threads e (closers p) = 1" "e < nextEntry p"
proof -
  have k: "e_key (store p e) = k" using assms by (force simp: threads_inv_def keys_inv_def)
  have "entry_inv p e" "0 < n_threads e (closers p)"
    using assms n_threads_pos by (auto simp: threads_inv_def)
  with k show "entries p k = Some e" "e_key (store p e) = k" "e_core (store p e) \<noteq> None"
    "\<not> e_closed (store p e)" "e_closing (store p e)" "n_threads e (openers p) = 0"
    "n_threads e (closers p) = 1" "e < nextEntry p"
    by (auto simp: entry_inv_def current_def split: if_splits)
qed

lemma entry_facts:
  assumes "threads_inv p" "entries p k = Some e"
  shows "e_key (store p e) = k" "\<not> e_closed (store p e)" "e < nextEntry p"
    "n_threads e (openers p) = (if e_core (store p e) = None then 1 else 0)"
    "n_threads e (closers p) = (if e_closing (store p e) then 1 else 0)"
proof -
  have k: "e_key (store p e) = k" using assms by (simp add: threads_inv_def keys_inv_def)
  moreover have "entry_inv p e" using assms by (simp add: threads_inv_def)
  ultimately show "e_key (store p e) = k" "\<not> e_closed (store p e)" "e < nextEntry p"
    "n_threads e (openers p) = (if e_core (store p e) = None then 1 else 0)"
    "n_threads e (closers p) = (if e_closing (store p e) then 1 else 0)"
    using assms(2) by (simp_all add: entry_inv_def current_def)
qed

lemmas pool_op_defs =
  discard_opening_def dialed_def init_failed_def publish_def release_def closeEntry_core_def
  closeEntry_discard_def closeCore_of_def close_opening_def close_closed_def Let_def

lemma acquire_enter_cases:
  assumes "acquire_enter key p = (r, p')"
  obtains (wait) "p' = p"
  | (leased) e c where "entries p key = Some e" "\<not> e_closing (store p e)" "e_core (store p e) = Some c"
      "directCoreAvailable c p" "r = Leased c"
      "p' = p\<lparr>store := (store p)(e := (store p e)\<lparr>e_refs := e_refs (store p e) + 1\<rparr>),
              leases := (key, c) # leases p\<rparr>"
  | (stale) e c where "entries p key = Some e" "\<not> e_closing (store p e)" "e_core (store p e) = Some c"
      "\<not> directCoreAvailable c p"
      "p' = p\<lparr>store := (store p)(e := (store p e)\<lparr>e_closing := True\<rparr>),
              closers := (key, e, CloseCore) # closers p\<rparr>"
  | (fresh) "entries p key = None"
      "p' = p\<lparr>entries := (entries p)(key \<mapsto> nextEntry p), store := (store p)(nextEntry p := newEntry key),
              nextEntry := nextEntry p + 1, openers := (key, nextEntry p, Dialing) # openers p\<rparr>"
proof (cases "entries p key")
  case None
  with assms fresh show ?thesis by (simp add: acquire_enter_def Let_def)
next
  case (Some e)
  show ?thesis
  proof (cases "e_closing (store p e) \<or> e_core (store p e) = None")
    case True
    with assms Some wait show ?thesis by (auto simp: acquire_enter_def split: if_splits)
  next
    case False
    then obtain c where "e_core (store p e) = Some c" "\<not> e_closing (store p e)" by auto
    with assms Some leased stale show ?thesis
      by (cases "directCoreAvailable c p") (auto simp: acquire_enter_def)
  qed
qed

lemma release_cases:
  obtains "release key c p = p\<lparr>leases := remove1 (key, c) (leases p)\<rparr>"
      "\<And>e. entries p key = Some e \<Longrightarrow> e_core (store p e) = Some c \<Longrightarrow> e_closing (store p e)"
  | e where "entries p key = Some e" "e_core (store p e) = Some c" "\<not> e_closing (store p e)"
      "e_refs (store p e) - 1 > 0"
      "release key c p = p\<lparr>leases := remove1 (key, c) (leases p),
         store := (store p)(e := (store p e)\<lparr>e_refs := e_refs (store p e) - 1\<rparr>)\<rparr>"
  | e where "entries p key = Some e" "e_core (store p e) = Some c" "\<not> e_closing (store p e)"
      "e_refs (store p e) - 1 \<le> 0"
      "release key c p = p\<lparr>leases := remove1 (key, c) (leases p),
         store := (store p)(e := (store p e)\<lparr>e_refs := e_refs (store p e) - 1, e_closing := True\<rparr>),
         closers := (key, e, CloseCore) # closers p\<rparr>"
proof (cases "entries p key")
  case None
  with that(1) show ?thesis by (simp add: release_def)
next
  case (Some e)
  show ?thesis
  proof (cases "e_core (store p e) \<noteq> Some c \<or> e_closing (store p e)")
    case True
    with Some that(1) show ?thesis by (auto simp: release_def)
  next
    case False
    with Some that(2,3) [of e] show ?thesis
      by (cases "e_refs (store p e) - 1 > 0") (simp_all add: release_def)
  qed
qed

text \<open>A step that touches one entry and its key keeps the invariant if it keeps it for that entry.\<close>

lemma threads_inv_local:
  assumes inv: "threads_inv p"
    and st: "\<And>x. x \<noteq> e \<Longrightarrow> store p' x = store p x" "e_key (store p' e) = key"
    and en: "\<And>k. k \<noteq> key \<Longrightarrow> entries p' k = entries p k" "entries p key \<in> {None, Some e}" "entries p' key \<in> {None, Some e}"
    and old: "e = nextEntry p \<or> e_key (store p e) = key"
    and th: "\<And>x. x \<noteq> e \<Longrightarrow> n_threads x (openers p') = n_threads x (openers p)"
      "\<And>x. x \<noteq> e \<Longrightarrow> n_threads x (closers p') = n_threads x (closers p)"
      "\<And>t. t \<in> set (openers p') \<Longrightarrow> t \<in> set (openers p) \<or> fst t = key \<and> fst (snd t) = e"
      "\<And>t. t \<in> set (closers p') \<Longrightarrow> t \<in> set (closers p) \<or> fst t = key \<and> fst (snd t) = e"
    and nx: "nextEntry p \<le> nextEntry p'" and new: "entry_inv p' e" "\<not> channel_panic p'"
  shows "threads_inv p'"
proof -
  have key_e: "k = key" if "entries p k = Some e" for k
    using old entry_facts [OF inv that] that by auto
  have ents: "e_key (store p' x) = k" if "entries p' k = Some x" for k x
  proof (cases "k = key")
    case True
    with that en(3) st(2) show ?thesis by auto
  next
    case False
    then have "entries p k = Some x" "x \<noteq> e" using that en(1) key_e by auto
    with entry_facts(1) [OF inv, of k x] st(1) show ?thesis by simp
  qed
  have opn: "fst t = e_key (store p' (fst (snd t)))" if "t \<in> set (openers p')" for t
    using th(3) [OF that] st old opener_facts(2,9) [OF inv]
    by (cases t, cases "fst (snd t) = e") (auto, blast+)
  have cls: "fst t = e_key (store p' (fst (snd t)))" if "t \<in> set (closers p')" for t
    using th(4) [OF that] st old closer_facts(2,8) [OF inv]
    by (cases t, cases "fst (snd t) = e") (auto, blast+)
  have "entry_inv p' x" if "x \<noteq> e" for x
  proof -
    have i: "entry_inv p x" using inv by (simp add: threads_inv_def)
    have "current p' x = current p x"
      using en that st(1) [OF that] by (cases "e_key (store p x) = key") (auto simp: current_def)
    with i show ?thesis
      using st(1) [OF that] th(1,2) [OF that] nx by (auto simp: entry_inv_def split: if_splits)
  qed
  with new have "entry_inv p' x" for x by (cases "x = e") auto
  with ents opn cls new(2) show ?thesis by (auto simp: threads_inv_def keys_inv_def)
qed

lemma threads_inv_frame:
  "threads_inv (p\<lparr>leases := ls\<rparr>) = threads_inv p" "threads_inv (p\<lparr>core_stat := cs\<rparr>) = threads_inv p"
  by (simp_all add: threads_inv_def keys_inv_def entry_inv_def current_def)

lemma threads_inv_step:
  assumes "pool_step p p'" "threads_inv p"
  shows "threads_inv p'"
  using assms
proof (induction rule: pool_step.induct)
  case (Acquire key p r p')
  from Acquire(1) show ?case
  proof (cases rule: acquire_enter_cases)
    case wait
    with Acquire show ?thesis by simp
  next
    case (leased e c)
    with entry_facts [OF Acquire(2) leased(1)] show ?thesis
      by (intro threads_inv_local [OF Acquire(2), where e = e and key = key])
         (use Acquire(2) in \<open>auto simp: entry_inv_def current_def threads_inv_def\<close>)
  next
    case (stale e c)
    with entry_facts [OF Acquire(2) stale(1)] show ?thesis
      by (intro threads_inv_local [OF Acquire(2), where e = e and key = key])
         (use Acquire(2) in \<open>auto simp: entry_inv_def current_def threads_inv_def\<close>)
  next
    case fresh
    let ?e = "nextEntry p"
    have "entry_inv p ?e" using Acquire(2) by (simp add: threads_inv_def)
    then have "n_threads ?e (openers p) = 0" "n_threads ?e (closers p) = 0"
      by (auto simp: entry_inv_def split: if_splits)
    with fresh show ?thesis
      by (intro threads_inv_local [OF Acquire(2), where e = ?e and key = key])
         (use Acquire(2) in \<open>auto simp: entry_inv_def current_def threads_inv_def newEntry_def\<close>)
  qed
next
  case (DialFailed key e p)
  with opener_facts [OF DialFailed(2,1)] show ?case
    by (intro threads_inv_local [OF DialFailed(2), where e = e and key = key])
       (auto simp: pool_op_defs entry_inv_def current_def n_threads_remove1 threads_inv_def dest: notin_set_remove1)
next
  case (InitDiscard key e c p)
  with opener_facts [OF InitDiscard(2,1)] show ?case
    by (intro threads_inv_local [OF InitDiscard(2), where e = e and key = key])
       (auto simp: pool_op_defs entry_inv_def current_def n_threads_remove1 threads_inv_def dest: notin_set_remove1)
next
  case (Dialed key e p)
  with opener_facts [OF Dialed(2,1)] show ?case
    by (intro threads_inv_local [OF Dialed(2), where e = e and key = key])
       (auto simp: pool_op_defs entry_inv_def current_def n_threads_remove1 threads_inv_def dest: notin_set_remove1)
next
  case (InitFailed key e c p)
  with opener_facts [OF InitFailed(2,1)] show ?case
    by (intro threads_inv_local [OF InitFailed(2), where e = e and key = key])
       (auto simp: pool_op_defs entry_inv_def current_def n_threads_remove1 threads_inv_def dest: notin_set_remove1)
next
  case (Publish key e c p)
  with opener_facts [OF Publish(2,1)] show ?case
    by (intro threads_inv_local [OF Publish(2), where e = e and key = key])
       (auto simp: pool_op_defs entry_inv_def current_def n_threads_remove1 threads_inv_def dest: notin_set_remove1)
next
  case (Release key c p)
  show ?case
  proof (cases rule: release_cases [of key c p])
    case 1
    from Release(2) show ?thesis by (simp only: 1(1) threads_inv_frame)
  next
    case (2 e)
    with entry_facts [OF Release(2) 2(1)] show ?thesis
      by (intro threads_inv_local [OF Release(2), where e = e and key = key])
         (use Release(2) in \<open>auto simp: entry_inv_def current_def threads_inv_def\<close>)
  next
    case (3 e)
    with entry_facts [OF Release(2) 3(1)] show ?thesis
      by (intro threads_inv_local [OF Release(2), where e = e and key = key])
         (use Release(2) in \<open>auto simp: entry_inv_def current_def threads_inv_def\<close>)
  qed
next
  case (CloseEntryCore key e p)
  with closer_facts [OF CloseEntryCore(2,1)] show ?case
    by (intro threads_inv_local [OF CloseEntryCore(2), where e = e and key = key])
       (auto simp: pool_op_defs entry_inv_def current_def n_threads_remove1 threads_inv_def
          dest: notin_set_remove1 split: option.splits)
next
  case (CloseEntryDiscard key e p)
  with closer_facts [OF CloseEntryDiscard(2,1)] show ?case
    by (intro threads_inv_local [OF CloseEntryDiscard(2), where e = e and key = key])
       (auto simp: pool_op_defs entry_inv_def current_def n_threads_remove1 threads_inv_def dest: notin_set_remove1)
next
  case (CoreFails p c)
  then show ?case by (simp only: threads_inv_frame)
qed

section \<open>Cores and leases\<close>

text \<open>An entry with a core: counted while published, and once marked, either unleased or failed.\<close>

definition published_inv :: "pool \<Rightarrow> nat \<Rightarrow> nat \<Rightarrow> bool" where
  "published_inv p e c \<longleftrightarrow>
     core_entry p c = e \<and> c < nextCore p
     \<and> (current p e \<longrightarrow>
          (if e_closing (store p e)
           then (e_key (store p e), c) \<in> set (leases p) \<longrightarrow> core_stat p c \<noteq> Some Usable
           else e_refs (store p e) = int (count_list (leases p) (e_key (store p e), c))
                \<and> (e_key (store p e), c) \<in> set (leases p) \<and> core_stat p c \<noteq> Some Core_closed))"

definition opener_inv :: "pool \<Rightarrow> nat \<Rightarrow> nat \<Rightarrow> bool" where
  "opener_inv p e c \<longleftrightarrow>
     core_entry p c = e \<and> c < nextCore p \<and> core_stat p c \<noteq> Some Core_closed \<and> c \<notin> snd ` set (leases p)"

text \<open>A core whose connection is open belongs to the current entry of its key.\<close>

definition conn_inv :: "pool \<Rightarrow> nat \<Rightarrow> bool" where
  "conn_inv p c \<longleftrightarrow>
     (let e = core_entry p c in
      current p e \<and> (e_core (store p e) = Some c \<or> (e_key (store p e), e, Initialising c) \<in> set (openers p)))"

definition conn_open :: "pool \<Rightarrow> nat \<Rightarrow> bool" where
  "conn_open p c \<longleftrightarrow> core_stat p c = Some Usable \<or> core_stat p c = Some Failed"

definition cores_inv :: "pool \<Rightarrow> bool" where
  "cores_inv p \<longleftrightarrow>
     (\<forall>e c. e_core (store p e) = Some c \<longrightarrow> published_inv p e c)
     \<and> (\<forall>k e c. (k, e, Initialising c) \<in> set (openers p) \<longrightarrow> opener_inv p e c)
     \<and> (\<forall>k e c. (k, e, Discard) \<in> set (closers p) \<and> e_core (store p e) = Some c \<longrightarrow> core_stat p c = Some Core_closed)
     \<and> (\<forall>c. conn_open p c \<longrightarrow> conn_inv p c)
     \<and> (\<forall>c. core_stat p c = None \<longleftrightarrow> nextCore p \<le> c)
     \<and> snd ` set (leases p) \<subseteq> {..<nextCore p}"

lemma cores_invD:
  assumes "cores_inv p"
  shows "e_core (store p e) = Some c \<Longrightarrow> published_inv p e c"
    "(k, e, Initialising c) \<in> set (openers p) \<Longrightarrow> opener_inv p e c"
    "(k, e, Discard) \<in> set (closers p) \<Longrightarrow> e_core (store p e) = Some c \<Longrightarrow> core_stat p c = Some Core_closed"
    "conn_open p c \<Longrightarrow> conn_inv p c" "core_stat p c = None \<longleftrightarrow> nextCore p \<le> c"
    "x \<in> set (leases p) \<Longrightarrow> snd x < nextCore p"
  using assms by (auto simp: cores_inv_def)

lemma cores_invI:
  assumes "\<And>e c. e_core (store p e) = Some c \<Longrightarrow> published_inv p e c"
    "\<And>k e c. (k, e, Initialising c) \<in> set (openers p) \<Longrightarrow> opener_inv p e c"
    "\<And>k e c. (k, e, Discard) \<in> set (closers p) \<Longrightarrow> e_core (store p e) = Some c \<Longrightarrow> core_stat p c = Some Core_closed"
    "\<And>c. conn_open p c \<Longrightarrow> conn_inv p c" "\<And>c. core_stat p c = None \<longleftrightarrow> nextCore p \<le> c"
    "\<And>x. x \<in> set (leases p) \<Longrightarrow> snd x < nextCore p"
  shows "cores_inv p"
  using assms by (auto simp: cores_inv_def)

lemma count_list_remove1: "x \<in> set xs \<Longrightarrow> count_list (remove1 x xs) y = count_list xs y - (if x = y then 1 else 0)"
  by (induction xs) (auto simp: count_list_0_iff)

lemma current_key: "threads_inv p \<Longrightarrow> entries p k = Some e \<Longrightarrow> current p e"
  by (simp add: current_def entry_facts(1))

lemma cores_inv_fresh:
  assumes "threads_inv p" "cores_inv p" "entries p key = None"
  shows "cores_inv (p\<lparr>entries := (entries p)(key \<mapsto> nextEntry p), store := (store p)(nextEntry p := newEntry key),
              nextEntry := nextEntry p + 1, openers := (key, nextEntry p, Dialing) # openers p\<rparr>)"
    (is "cores_inv ?p'")
proof (rule cores_invI)
  have cur: "current ?p' e = current p e" if "e \<noteq> nextEntry p" for e
    using that assms(3) by (auto simp: current_def)
  have notcur: "\<not> current p (nextEntry p)"
    using assms(1) entry_facts(3) [OF assms(1)] by (auto simp: current_def)
  show "published_inv ?p' e c" if "e_core (store ?p' e) = Some c" for e c
    using that cores_invD(1) [OF assms(2)] cur
    by (auto simp: published_inv_def newEntry_def split: if_splits)
  show "opener_inv ?p' e c" if "(k, e, Initialising c) \<in> set (openers ?p')" for k e c
    using that cores_invD(2) [OF assms(2)] by (auto simp: opener_inv_def)
  show "conn_inv ?p' c" if "conn_open ?p' c" for c
    using that cores_invD(4) [OF assms(2), of c] cur notcur
    by (cases "core_entry p c = nextEntry p") (auto simp: conn_inv_def conn_open_def Let_def)
qed (use assms(1) closer_facts(8) [OF assms(1)] cores_invD(3,5,6) [OF assms(2)] in \<open>auto split: if_splits simp: newEntry_def\<close>)

lemma published_core:
  assumes "cores_inv p" "e_core (store p e) = Some c"
  shows "core_entry p c = e" "c < nextCore p"
  using cores_invD(1) [OF assms] by (auto simp: published_inv_def)

lemma opener_core:
  assumes "cores_inv p" "(k, e, Initialising c) \<in> set (openers p)"
  shows "core_entry p c = e" "c < nextCore p" "core_stat p c \<noteq> Some Core_closed" "c \<notin> snd ` set (leases p)"
  using cores_invD(2) [OF assms] by (auto simp: opener_inv_def)

lemma published_not_opening:
  assumes "threads_inv p" "cores_inv p" "e_core (store p e) = Some c" "(k, e', Initialising c) \<in> set (openers p)"
  shows False
  using published_core(1) [OF assms(2,3)] opener_core(1) [OF assms(2,4)] opener_facts(3) [OF assms(1,4)] assms(3)
  by simp

lemma cores_inv_leased:
  assumes "threads_inv p" "cores_inv p" "entries p key = Some e" "\<not> e_closing (store p e)"
    "e_core (store p e) = Some c"
  shows "cores_inv (p\<lparr>store := (store p)(e := (store p e)\<lparr>e_refs := e_refs (store p e) + 1\<rparr>),
              leases := (key, c) # leases p\<rparr>)" (is "cores_inv ?p'")
proof (rule cores_invI)
  note e = entry_facts(1) [OF assms(1,3)]
  have cur: "current ?p' x = current p x" for x by (simp add: current_def)
  show "published_inv ?p' x y" if "e_core (store ?p' x) = Some y" for x y
  proof (cases "x = e")
    case True
    with that assms(5) have "y = c" by simp
    with True cores_invD(1) [OF assms(2,5)] assms(4) e current_key [OF assms(1,3)] show ?thesis
      unfolding published_inv_def cur by simp
  next
    case False
    with that have x: "e_core (store p x) = Some y" by simp
    then have "y \<noteq> c" using published_core(1) [OF assms(2)] assms(5) False by blast
    with False cores_invD(1) [OF assms(2) x] show ?thesis unfolding published_inv_def cur by simp
  qed
  show "opener_inv ?p' x y" if "(k, x, Initialising y) \<in> set (openers ?p')" for k x y
    using that cores_invD(2) [OF assms(2), of k x y] published_not_opening [OF assms(1,2,5), of k x]
    by (auto simp: opener_inv_def)
  show "conn_inv ?p' y" if "conn_open ?p' y" for y
    using that cores_invD(4) [OF assms(2), of y] unfolding conn_inv_def cur Let_def by (auto simp: conn_open_def)
  show "snd x < nextCore ?p'" if "x \<in> set (leases ?p')" for x
    using that cores_invD(6) [OF assms(2), of x] published_core(2) [OF assms(2,5)] by auto
qed (use cores_invD(3,5) [OF assms(2)] in \<open>auto split: if_splits\<close>)

lemma cores_inv_mark:
  assumes "threads_inv p" "cores_inv p" "entries p key = Some e" "\<not> e_closing (store p e)"
    "e_core (store p e) = Some c" "set ls \<subseteq> set (leases p)"
    and ls: "\<And>y. snd y \<noteq> c \<Longrightarrow> count_list ls y = count_list (leases p) y"
    and "(key, c) \<in> set ls \<Longrightarrow> core_stat p c \<noteq> Some Usable"
  shows "cores_inv (p\<lparr>leases := ls, store := (store p)(e := (store p e)\<lparr>e_refs := r, e_closing := True\<rparr>),
              closers := (key, e, CloseCore) # closers p\<rparr>)" (is "cores_inv ?p'")
proof (rule cores_invI)
  note e = entry_facts(1) [OF assms(1,3)]
  have cur: "current ?p' x = current p x" for x by (simp add: current_def)
  have mem: "(k, y) \<in> set ls \<longleftrightarrow> (k, y) \<in> set (leases p)" if "y \<noteq> c" for k y
    using ls [of "(k, y)"] that by (metis count_list_0_iff snd_conv)
  show "published_inv ?p' x y" if "e_core (store ?p' x) = Some y" for x y
  proof (cases "x = e")
    case True
    with that assms(5) have "y = c" by simp
    with True published_core [OF assms(2,5)] assms(8) e show ?thesis
      unfolding published_inv_def cur by simp
  next
    case False
    with that have x: "e_core (store p x) = Some y" by simp
    then have "y \<noteq> c" using published_core(1) [OF assms(2)] assms(5) False by blast
    with False cores_invD(1) [OF assms(2) x] show ?thesis
      unfolding published_inv_def cur by (simp add: ls mem)
  qed
  show "opener_inv ?p' x y" if "(k, x, Initialising y) \<in> set (openers ?p')" for k x y
    using that cores_invD(2) [OF assms(2), of k x y] assms(6) by (auto simp: opener_inv_def)
  show "conn_inv ?p' y" if "conn_open ?p' y" for y
    using that cores_invD(4) [OF assms(2), of y] unfolding conn_inv_def cur Let_def by (auto simp: conn_open_def)
qed (use cores_invD(3,5,6) [OF assms(2)] assms(6) in \<open>auto split: if_splits\<close>)

lemma cores_inv_unref:
  assumes "threads_inv p" "cores_inv p" "entries p key = Some e" "\<not> e_closing (store p e)"
    "e_core (store p e) = Some c" "e_refs (store p e) - 1 > 0" "(key, c) \<in> set (leases p)"
  shows "cores_inv (p\<lparr>leases := remove1 (key, c) (leases p),
         store := (store p)(e := (store p e)\<lparr>e_refs := e_refs (store p e) - 1\<rparr>)\<rparr>)" (is "cores_inv ?p'")
proof (rule cores_invI)
  note e = entry_facts(1) [OF assms(1,3)]
  note count = count_list_remove1 [OF assms(7)]
  have cur: "current ?p' x = current p x" for x by (simp add: current_def)
  have sub: "set (remove1 (key, c) (leases p)) \<subseteq> set (leases p)" by (rule set_remove1_subset)
  show "published_inv ?p' x y" if "e_core (store ?p' x) = Some y" for x y
  proof (cases "x = e")
    case True
    with that assms(5) have y: "y = c" by simp
    have refs: "e_refs (store p e) = int (count_list (leases p) (key, c))"
      using cores_invD(1) [OF assms(2,5)] assms(4) e current_key [OF assms(1,3)] by (simp add: published_inv_def)
    then have "count_list (remove1 (key, c) (leases p)) (key, c) \<noteq> 0" using assms(6) by (simp add: count)
    then have "(key, c) \<in> set (remove1 (key, c) (leases p))" by (metis count_notin)
    with True y refs cores_invD(1) [OF assms(2,5)] assms(4,6) e current_key [OF assms(1,3)] show ?thesis
      unfolding published_inv_def cur by (simp add: count of_nat_diff)
  next
    case False
    with that have x: "e_core (store p x) = Some y" by simp
    then have "y \<noteq> c" using published_core(1) [OF assms(2)] assms(5) False by blast
    with False cores_invD(1) [OF assms(2) x] show ?thesis
      unfolding published_inv_def cur by (simp add: count in_set_remove1)
  qed
  show "opener_inv ?p' x y" if "(k, x, Initialising y) \<in> set (openers ?p')" for k x y
    using that cores_invD(2) [OF assms(2), of k x y] sub by (auto simp: opener_inv_def)
  show "conn_inv ?p' y" if "conn_open ?p' y" for y
    using that cores_invD(4) [OF assms(2), of y] unfolding conn_inv_def cur Let_def by (auto simp: conn_open_def)
qed (use cores_invD(3,5,6) [OF assms(2)] set_remove1_subset [of "(key, c)" "leases p"] in \<open>auto split: if_splits\<close>)

lemma cores_inv_release:
  assumes "threads_inv p" "cores_inv p" "(key, c) \<in> set (leases p)"
  shows "cores_inv (release key c p)"
proof (cases rule: release_cases [of key c p])
  case 1
  note count = count_list_remove1 [OF assms(3)]
  have sub: "set (remove1 (key, c) (leases p)) \<subseteq> set (leases p)" by (rule set_remove1_subset)
  show ?thesis unfolding 1(1)
  proof (rule cores_invI)
    let ?p' = "p\<lparr>leases := remove1 (key, c) (leases p)\<rparr>"
    have cur: "current ?p' x = current p x" for x by (simp add: current_def)
    show "published_inv ?p' x y" if "e_core (store ?p' x) = Some y" for x y
    proof -
      have x: "e_core (store p x) = Some y" using that by simp
      have "e_closing (store p x)" if "current p x" "y = c" "e_key (store p x) = key"
        using 1(2) [of x] that x by (simp add: current_def)
      then show ?thesis
        using cores_invD(1) [OF assms(2) x] sub
        unfolding published_inv_def cur by (auto simp: count in_set_remove1)
    qed
    show "opener_inv ?p' x y" if "(k, x, Initialising y) \<in> set (openers ?p')" for k x y
      using that cores_invD(2) [OF assms(2), of k x y] sub by (auto simp: opener_inv_def)
    show "conn_inv ?p' y" if "conn_open ?p' y" for y
      using that cores_invD(4) [OF assms(2), of y] unfolding conn_inv_def cur Let_def by (auto simp: conn_open_def)
  qed (use cores_invD(3,5,6) [OF assms(2)] sub in \<open>auto\<close>)
next
  case (2 e)
  with cores_inv_unref [OF assms(1,2) 2(1,3,2,4) assms(3)] show ?thesis by simp
next
  case (3 e)
  have "(key, c) \<notin> set (remove1 (key, c) (leases p))"
  proof -
    have "e_refs (store p e) = int (count_list (leases p) (key, c))"
      using cores_invD(1) [OF assms(2) 3(2)] 3(3) entry_facts(1) [OF assms(1) 3(1)] current_key [OF assms(1) 3(1)]
      by (simp add: published_inv_def)
    with 3(4) have "count_list (remove1 (key, c) (leases p)) (key, c) = 0"
      by (simp add: count_list_remove1 [OF assms(3)])
    then show ?thesis by (metis count_list_0_iff)
  qed
  moreover have "count_list (remove1 (key, c) (leases p)) y = count_list (leases p) y" if "snd y \<noteq> c" for y
    using that by (auto simp: count_list_remove1 [OF assms(3)])
  ultimately show ?thesis
    unfolding 3(5) using cores_inv_mark [OF assms(1,2) 3(1,3,2) set_remove1_subset] by blast
qed

lemma opener_unique:
  assumes "threads_inv p" "(k, e, pc) \<in> set (openers p)" "(k', e, pc') \<in> set (openers p)"
  shows "pc' = pc"
  using n_threads_unique [OF _ assms(2,3)] opener_facts(7) [OF assms(1,2)] by simp

lemma opener_rest:
  assumes "threads_inv p" "(key, e, pc) \<in> set (openers p)" "(k, x, pc') \<in> set (remove1 (key, e, pc) (openers p))"
  shows "(k, x, pc') \<in> set (openers p)" "x \<noteq> e"
proof -
  show "(k, x, pc') \<in> set (openers p)" using assms(3) by (meson notin_set_remove1)
  show "x \<noteq> e"
  proof
    assume "x = e"
    then have "n_threads e (remove1 (key, e, pc) (openers p)) > 0" using assms(3) n_threads_pos by fastforce
    with opener_facts(7) [OF assms(1,2)] show False by (simp add: n_threads_remove1 [OF assms(2)])
  qed
qed

text \<open>Dropping the current entry of a key that holds no open connection.\<close>

lemma cores_inv_discard:
  assumes "threads_inv p" "cores_inv p" "entries p key = Some e"
    and none: "\<And>c. conn_open p c \<Longrightarrow> core_entry p c \<noteq> e"
    and p': "entries p' = (entries p)(key := None)" "\<And>x. x \<noteq> e \<Longrightarrow> store p' x = store p x"
      "e_core (store p' e) = e_core (store p e)" "e_key (store p' e) = e_key (store p e)"
      "core_stat p' = core_stat p" "core_entry p' = core_entry p" "nextCore p' = nextCore p" "leases p' = leases p"
      "set (openers p') \<subseteq> set (openers p)" "set (closers p') \<subseteq> set (closers p)"
      "\<And>t. t \<in> set (openers p) \<Longrightarrow> fst (snd t) \<noteq> e \<Longrightarrow> t \<in> set (openers p')"
  shows "cores_inv p'"
proof (rule cores_invI)
  have cur: "current p' x \<longleftrightarrow> current p x \<and> x \<noteq> e" for x
    using assms(3) p'(1,2,4) entry_facts(1) [OF assms(1,3)] by (cases "x = e") (auto simp: current_def)
  have core: "e_core (store p' x) = e_core (store p x)" "e_key (store p' x) = e_key (store p x)" for x
    using p'(2,3,4) by (cases "x = e"; simp)+
  show "published_inv p' x y" if "e_core (store p' x) = Some y" for x y
    using cores_invD(1) [OF assms(2), of x y] that core(1) p'(2) [of x] cur [of x]
    by (cases "x = e") (auto simp: published_inv_def p'(5-8) core)
  show "opener_inv p' x y" if "(k, x, Initialising y) \<in> set (openers p')" for k x y
    using cores_invD(2) [OF assms(2) subsetD [OF p'(9) that]] by (simp add: opener_inv_def p'(5-8))
  show "core_stat p' y = Some Core_closed" if "(k, x, Discard) \<in> set (closers p')" "e_core (store p' x) = Some y" for k x y
    using cores_invD(3) [OF assms(2) subsetD [OF p'(10) that(1)], of y] that(2) by (simp add: core p'(5))
  show "conn_inv p' y" if "conn_open p' y" for y
  proof -
    have o: "conn_open p y" using that by (simp add: conn_open_def p'(5))
    from cores_invD(4) [OF assms(2) o] none [OF o] show ?thesis
      using p'(11) by (auto simp: conn_inv_def Let_def cur core p'(6))
  qed
qed (use cores_invD(5,6) [OF assms(2)] in \<open>simp_all add: p'(5-8)\<close>)

lemma cores_inv_discard_opening:
  assumes "threads_inv p" "cores_inv p" "(key, e, pc) \<in> set (openers p)" "\<And>c. pc \<noteq> Initialising c"
  shows "cores_inv (discard_opening key e pc p)"
proof (rule cores_inv_discard [OF assms(1,2) opener_facts(1) [OF assms(1,3)]])
  fix c assume "conn_open p c"
  from cores_invD(4) [OF assms(2) this] show "core_entry p c \<noteq> e"
    using opener_facts(2,3) [OF assms(1,3)] opener_unique [OF assms(1,3)] assms(4)
    by (auto simp: conn_inv_def Let_def)
qed (use set_remove1_subset [of "(key, e, pc)" "openers p"] in
    \<open>auto simp: discard_opening_def close_opening_def close_closed_def Let_def in_set_remove1\<close>)

lemma cores_inv_closeEntry_discard:
  assumes "threads_inv p" "cores_inv p" "(key, e, Discard) \<in> set (closers p)"
  shows "cores_inv (closeEntry_discard key e p)"
proof (rule cores_inv_discard [OF assms(1,2) closer_facts(1) [OF assms(1,3)]])
  fix c assume o: "conn_open p c"
  show "core_entry p c \<noteq> e"
  proof
    assume e: "core_entry p c = e"
    have "e_core (store p e) \<noteq> Some c" using cores_invD(3) [OF assms(2,3)] o by (auto simp: conn_open_def)
    with cores_invD(4) [OF assms(2) o] e have "(e_key (store p e), e, Initialising c) \<in> set (openers p)"
      by (simp add: conn_inv_def Let_def)
    with closer_facts(6) [OF assms(1,3)] n_threads_pos show False by fastforce
  qed
qed (use set_remove1_subset [of "(key, e, Discard)" "closers p"] closer_facts(1) [OF assms(1,3)] in
    \<open>auto simp: closeEntry_discard_def close_closed_def Let_def\<close>)

lemma cores_inv_dialed:
  assumes "threads_inv p" "cores_inv p" "(key, e, Dialing) \<in> set (openers p)"
  shows "cores_inv (dialed key e p)" (is "cores_inv ?p'")
proof (rule cores_invI)
  let ?n = "nextCore p"
  note o = opener_facts [OF assms(1,3)]
  have cur: "current ?p' x = current p x" for x by (simp add: current_def dialed_def)
  have sub: "set (remove1 (key, e, Dialing) (openers p)) \<subseteq> set (openers p)" by (rule set_remove1_subset)
  show "published_inv ?p' x y" if "e_core (store ?p' x) = Some y" for x y
  proof -
    have x: "e_core (store p x) = Some y" using that by (simp add: dialed_def)
    from published_core [OF assms(2) x] cores_invD(1) [OF assms(2) x] show ?thesis
      unfolding published_inv_def cur by (auto simp: dialed_def)
  qed
  show "opener_inv ?p' x y" if "(k, x, Initialising y) \<in> set (openers ?p')" for k x y
    using that cores_invD(2) [OF assms(2), of k x y] cores_invD(6) [OF assms(2)] sub
    by (fastforce simp: opener_inv_def dialed_def)
  show "core_stat ?p' y = Some Core_closed" if "(k, x, Discard) \<in> set (closers ?p')" "e_core (store ?p' x) = Some y" for k x y
    using that cores_invD(3) [OF assms(2), of k x y] published_core(2) [OF assms(2), of x y]
    by (auto simp: dialed_def)
  show "conn_inv ?p' y" if "conn_open ?p' y" for y
  proof (cases "y = ?n")
    case True
    with o(1,2) show ?thesis by (simp add: conn_inv_def Let_def dialed_def current_def)
  next
    case False
    then have "conn_open p y" using that by (simp add: conn_open_def dialed_def)
    from cores_invD(4) [OF assms(2) this] False show ?thesis
      unfolding conn_inv_def cur Let_def by (auto simp: dialed_def in_set_remove1)
  qed
  show "core_stat ?p' y = None \<longleftrightarrow> nextCore ?p' \<le> y" for y
    using cores_invD(5) [OF assms(2), of y] by (auto simp: dialed_def)
  show "snd x < nextCore ?p'" if "x \<in> set (leases ?p')" for x
    using that cores_invD(6) [OF assms(2), of x] by (simp add: dialed_def)
qed

lemma cores_inv_init_failed:
  assumes "threads_inv p" "cores_inv p" "(key, e, Initialising c) \<in> set (openers p)"
  shows "cores_inv (init_failed key e c p)" (is "cores_inv ?p'")
proof (rule cores_invI)
  note o = opener_facts [OF assms(1,3)] and oc = opener_core [OF assms(2,3)]
  have cur: "current ?p' x = current p x" for x by (simp add: current_def init_failed_def closeCore_of_def)
  have other: "(k, x, Initialising c) \<notin> set (openers p)" if "x \<noteq> e" for k x
    using opener_core(1) [OF assms(2), of k x c] oc(1) that by auto
  show "published_inv ?p' x y" if "e_core (store ?p' x) = Some y" for x y
  proof -
    have x: "e_core (store p x) = Some y" using that by (simp add: init_failed_def closeCore_of_def)
    have "y \<noteq> c" using published_not_opening [OF assms(1,2) x] assms(3) by blast
    with cores_invD(1) [OF assms(2) x] show ?thesis
      unfolding published_inv_def cur by (auto simp: init_failed_def closeCore_of_def)
  qed
  show "opener_inv ?p' x y" if "(k, x, Initialising y) \<in> set (openers ?p')" for k x y
  proof -
    have "(k, x, Initialising y) \<in> set (remove1 (key, e, Initialising c) (openers p))"
      using that by (simp add: init_failed_def closeCore_of_def)
    note m = opener_rest [OF assms(1,3) this]
    then have "y \<noteq> c" using other by blast
    with cores_invD(2) [OF assms(2) m(1)] show ?thesis
      by (auto simp: opener_inv_def init_failed_def closeCore_of_def)
  qed
  show "core_stat ?p' y = Some Core_closed" if "(k, x, Discard) \<in> set (closers ?p')" "e_core (store ?p' x) = Some y" for k x y
    using that cores_invD(3) [OF assms(2), of k x y] by (simp add: init_failed_def closeCore_of_def)
  show "conn_inv ?p' y" if "conn_open ?p' y" for y
  proof -
    have y: "y \<noteq> c" "conn_open p y"
      using that by (auto simp: conn_open_def init_failed_def closeCore_of_def split: if_splits)
    from cores_invD(4) [OF assms(2) y(2)] y(1) show ?thesis
      unfolding conn_inv_def cur Let_def by (auto simp: init_failed_def closeCore_of_def in_set_remove1)
  qed
  show "core_stat ?p' y = None \<longleftrightarrow> nextCore ?p' \<le> y" for y
    using cores_invD(5) [OF assms(2), of y] oc(2) by (auto simp: init_failed_def closeCore_of_def)
  show "snd x < nextCore ?p'" if "x \<in> set (leases ?p')" for x
    using that cores_invD(6) [OF assms(2), of x] by (simp add: init_failed_def closeCore_of_def)
qed

lemma cores_inv_publish:
  assumes "threads_inv p" "cores_inv p" "(key, e, Initialising c) \<in> set (openers p)"
  shows "cores_inv (publish key e c p)" (is "cores_inv ?p'")
proof (rule cores_invI)
  note o = opener_facts [OF assms(1,3)] and oc = opener_core [OF assms(2,3)]
  have cur: "current ?p' x = current p x" for x
    by (simp add: current_def publish_def close_opening_def Let_def)
  show "published_inv ?p' x y" if "e_core (store ?p' x) = Some y" for x y
  proof (cases "x = e")
    case True
    then have y: "y = c" using that by (simp add: publish_def close_opening_def Let_def)
    have "count_list (leases p) (key, c) = 0"
      using oc(4) by (force simp: count_list_0_iff)
    with True y o oc current_key [OF assms(1) o(1)] show ?thesis
      unfolding published_inv_def cur by (auto simp: publish_def close_opening_def Let_def)
  next
    case False
    then have x: "e_core (store p x) = Some y" using that by (simp add: publish_def close_opening_def Let_def)
    then have "y \<noteq> c" using published_not_opening [OF assms(1,2) x] assms(3) by blast
    with cores_invD(1) [OF assms(2) x] False show ?thesis
      unfolding published_inv_def cur by (auto simp: publish_def close_opening_def Let_def)
  qed
  show "opener_inv ?p' x y" if "(k, x, Initialising y) \<in> set (openers ?p')" for k x y
  proof -
    have "(k, x, Initialising y) \<in> set (remove1 (key, e, Initialising c) (openers p))"
      using that by (simp add: publish_def close_opening_def Let_def)
    note m = opener_rest [OF assms(1,3) this]
    then have "y \<noteq> c" using opener_core(1) [OF assms(2) m(1)] oc(1) by blast
    with cores_invD(2) [OF assms(2) m(1)] show ?thesis
      by (auto simp: opener_inv_def publish_def close_opening_def Let_def)
  qed
  show "core_stat ?p' y = Some Core_closed" if "(k, x, Discard) \<in> set (closers ?p')" "e_core (store ?p' x) = Some y" for k x y
  proof -
    have m: "(k, x, Discard) \<in> set (closers p)" using that by (simp add: publish_def close_opening_def Let_def)
    then have "x \<noteq> e" using closer_facts(3) [OF assms(1)] o(3) by blast
    with that m cores_invD(3) [OF assms(2), of k x y] show ?thesis
      by (simp add: publish_def close_opening_def Let_def)
  qed
  show "conn_inv ?p' y" if "conn_open ?p' y" for y
  proof -
    have "conn_open p y" using that by (simp add: conn_open_def publish_def close_opening_def Let_def)
    from cores_invD(4) [OF assms(2) this] o(3) show ?thesis
      using opener_unique [OF assms(1,3)] oc(1)
      unfolding conn_inv_def cur Let_def
      by (cases "y = c") (auto simp: publish_def close_opening_def Let_def in_set_remove1)
  qed
  show "snd x < nextCore ?p'" if "x \<in> set (leases ?p')" for x
    using that cores_invD(6) [OF assms(2), of x] oc(2) by (auto simp: publish_def close_opening_def Let_def)
qed (use cores_invD(5) [OF assms(2)] in \<open>simp add: publish_def close_opening_def Let_def\<close>)

lemma cores_inv_closeEntry_core:
  assumes "threads_inv p" "cores_inv p" "(key, e, CloseCore) \<in> set (closers p)"
  shows "cores_inv (closeEntry_core key e p)" (is "cores_inv ?p'")
proof (rule cores_invI)
  obtain c where c: "e_core (store p e) = Some c" using closer_facts(3) [OF assms(1,3)] by auto
  have p': "?p' = closeCore_of c (p\<lparr>closers := (key, e, Discard) # remove1 (key, e, CloseCore) (closers p)\<rparr>)"
    by (simp add: closeEntry_core_def c)
  note pc = published_core [OF assms(2) c]
  have cur: "current ?p' x = current p x" for x by (simp add: current_def p' closeCore_of_def)
  have sub: "set (remove1 (key, e, CloseCore) (closers p)) \<subseteq> set (closers p)" by (rule set_remove1_subset)
  show "published_inv ?p' x y" if "e_core (store ?p' x) = Some y" for x y
  proof -
    have x: "e_core (store p x) = Some y" using that by (simp add: p' closeCore_of_def)
    have "x = e" if "y = c" using published_core(1) [OF assms(2) x] pc(1) that by simp
    with cores_invD(1) [OF assms(2) x] closer_facts(5) [OF assms(1,3)] show ?thesis
      unfolding published_inv_def cur by (auto simp: p' closeCore_of_def)
  qed
  show "opener_inv ?p' x y" if "(k, x, Initialising y) \<in> set (openers ?p')" for k x y
    using that cores_invD(2) [OF assms(2), of k x y] published_not_opening [OF assms(1,2) c, of k x]
    by (auto simp: opener_inv_def p' closeCore_of_def)
  show "core_stat ?p' y = Some Core_closed" if "(k, x, Discard) \<in> set (closers ?p')" "e_core (store ?p' x) = Some y" for k x y
    using that cores_invD(3) [OF assms(2), of k x y] sub c by (auto simp: p' closeCore_of_def)
  show "conn_inv ?p' y" if "conn_open ?p' y" for y
  proof -
    have y: "y \<noteq> c" "conn_open p y"
      using that by (auto simp: conn_open_def p' closeCore_of_def split: if_splits)
    from cores_invD(4) [OF assms(2) y(2)] show ?thesis
      unfolding conn_inv_def cur Let_def by (simp add: p' closeCore_of_def)
  qed
  show "core_stat ?p' y = None \<longleftrightarrow> nextCore ?p' \<le> y" for y
    using cores_invD(5) [OF assms(2), of y] pc(2) by (auto simp: p' closeCore_of_def)
  show "snd x < nextCore ?p'" if "x \<in> set (leases ?p')" for x
    using that cores_invD(6) [OF assms(2), of x] by (simp add: p' closeCore_of_def)
qed

lemma cores_inv_fails:
  assumes "cores_inv p" "core_stat p c = Some Usable"
  shows "cores_inv (p\<lparr>core_stat := (core_stat p)(c \<mapsto> Failed)\<rparr>)" (is "cores_inv ?p'")
proof (rule cores_invI)
  have cur: "current ?p' x = current p x" for x by (simp add: current_def)
  show "published_inv ?p' x y" if "e_core (store ?p' x) = Some y" for x y
    using that cores_invD(1) [OF assms(1), of x y] unfolding published_inv_def cur by auto
  show "opener_inv ?p' x y" if "(k, x, Initialising y) \<in> set (openers ?p')" for k x y
    using that cores_invD(2) [OF assms(1), of k x y] by (auto simp: opener_inv_def)
  show "core_stat ?p' y = Some Core_closed" if "(k, x, Discard) \<in> set (closers ?p')" "e_core (store ?p' x) = Some y" for k x y
    using that cores_invD(3) [OF assms(1), of k x y] assms(2) by auto
  show "conn_inv ?p' y" if "conn_open ?p' y" for y
  proof -
    have "conn_open p y" using that assms(2) by (auto simp: conn_open_def split: if_splits)
    from cores_invD(4) [OF assms(1) this] show ?thesis unfolding conn_inv_def cur Let_def by simp
  qed
  show "core_stat ?p' y = None \<longleftrightarrow> nextCore ?p' \<le> y" for y
    using cores_invD(5) [OF assms(1), of y] assms(2) by auto
qed (use cores_invD(6) [OF assms(1)] in simp)

lemma cores_inv_step:
  assumes "pool_step p p'" "threads_inv p" "cores_inv p"
  shows "cores_inv p'"
  using assms
proof (induction rule: pool_step.induct)
  case (Acquire key p r p')
  from Acquire(1) show ?case
  proof (cases rule: acquire_enter_cases)
    case wait
    with Acquire show ?thesis by simp
  next
    case (leased e c)
    with Acquire cores_inv_leased show ?thesis by simp
  next
    case (stale e c)
    then have "core_stat p c \<noteq> Some Usable" by (simp add: directCoreAvailable_def)
    with cores_inv_mark [OF Acquire(2,3) stale(1,2,3), of "leases p" "e_refs (store p e)"] stale show ?thesis by simp
  next
    case fresh
    with Acquire cores_inv_fresh show ?thesis by simp
  qed
qed (auto intro: cores_inv_discard_opening cores_inv_dialed cores_inv_init_failed cores_inv_publish
      cores_inv_release cores_inv_closeEntry_core cores_inv_closeEntry_discard cores_inv_fails)

section \<open>Leases and waiters\<close>

text \<open>
  A lease names the core of an entry under that entry's key; an entry that is no longer current
  has both channels closed, and an entry with a core has been announced.
\<close>

definition lease_inv :: "pool \<Rightarrow> bool" where
  "lease_inv p \<longleftrightarrow>
     (\<forall>k c. (k, c) \<in> set (leases p) \<longrightarrow>
        (let e = core_entry p c in e < nextEntry p \<and> e_core (store p e) = Some c \<and> e_key (store p e) = k))
     \<and> (\<forall>e < nextEntry p. (\<not> current p e \<longrightarrow> e_opening (store p e) \<and> e_closed (store p e))
          \<and> (e_core (store p e) \<noteq> None \<longrightarrow> e_opening (store p e)))"

lemma lease_inv_same:
  assumes "lease_inv p" "set (leases p') \<subseteq> set (leases p)" "core_entry p' = core_entry p"
    "nextEntry p' = nextEntry p"
    "\<And>x. e_core (store p' x) = e_core (store p x) \<and> e_key (store p' x) = e_key (store p x)
       \<and> (e_opening (store p x) \<longrightarrow> e_opening (store p' x)) \<and> (e_closed (store p x) \<longrightarrow> e_closed (store p' x))
       \<and> (\<not> current p' x \<longrightarrow> \<not> current p x \<or> e_opening (store p' x) \<and> e_closed (store p' x))"
  shows "lease_inv p'"
proof -
  have "e < nextEntry p \<and> e_core (store p' e) = Some c \<and> e_key (store p' e) = k"
    if "(k, c) \<in> set (leases p')" "e = core_entry p c" for k c e
    using assms(1,2) assms(5) [of e] that by (force simp: lease_inv_def Let_def)
  moreover have "(\<not> current p' e \<longrightarrow> e_opening (store p' e) \<and> e_closed (store p' e))
      \<and> (e_core (store p' e) \<noteq> None \<longrightarrow> e_opening (store p' e))" if "e < nextEntry p" for e
    using assms(1) assms(5) [of e] that by (auto simp: lease_inv_def)
  ultimately show ?thesis by (simp add: lease_inv_def Let_def assms(3,4))
qed

lemma lease_inv_discard:
  assumes "lease_inv p" "threads_inv p" "entries p key = Some e" "entries p' = (entries p)(key := None)"
    "leases p' = leases p" "core_entry p' = core_entry p" "nextEntry p' = nextEntry p"
    "\<And>x. x \<noteq> e \<Longrightarrow> store p' x = store p x" "e_core (store p' e) = e_core (store p e)"
    "e_key (store p' e) = e_key (store p e)" "e_opening (store p' e)" "e_closed (store p' e)"
  shows "lease_inv p'"
proof (rule lease_inv_same [OF assms(1)])
  fix x
  show "e_core (store p' x) = e_core (store p x) \<and> e_key (store p' x) = e_key (store p x)
       \<and> (e_opening (store p x) \<longrightarrow> e_opening (store p' x)) \<and> (e_closed (store p x) \<longrightarrow> e_closed (store p' x))
       \<and> (\<not> current p' x \<longrightarrow> \<not> current p x \<or> e_opening (store p' x) \<and> e_closed (store p' x))"
  proof (cases "x = e")
    case False
    with assms(8) [OF False] assms(3,4) show ?thesis by (auto simp: current_def split: if_splits)
  qed (use assms in simp)
qed (use assms in simp_all)

lemma lease_inv_fresh:
  assumes "lease_inv p" "entries p key = None"
  shows "lease_inv (p\<lparr>entries := (entries p)(key \<mapsto> nextEntry p), store := (store p)(nextEntry p := newEntry key),
              nextEntry := nextEntry p + 1, openers := (key, nextEntry p, Dialing) # openers p\<rparr>)" (is "lease_inv ?p'")
proof -
  have cur: "current ?p' e = current p e" if "e < nextEntry p" for e
    using that assms(2) by (auto simp: current_def)
  have "\<not> current ?p' e \<longrightarrow> e_opening (store ?p' e) \<and> e_closed (store ?p' e)"
    "e_core (store ?p' e) \<noteq> None \<longrightarrow> e_opening (store ?p' e)" if "e < nextEntry ?p'" for e
    using that assms(1) cur [of e]
    by (cases "e = nextEntry p"; simp add: lease_inv_def newEntry_def less_Suc_eq; simp add: current_def)+
  moreover have "e < nextEntry ?p' \<and> e_core (store ?p' e) = Some c \<and> e_key (store ?p' e) = k"
    if "(k, c) \<in> set (leases p)" "e = core_entry p c" for k c e
  proof -
    have "e < nextEntry p \<and> e_core (store p e) = Some c \<and> e_key (store p e) = k"
      using assms(1) that by (simp add: lease_inv_def Let_def)
    then show ?thesis by simp
  qed
  ultimately show ?thesis by (simp add: lease_inv_def Let_def)
qed

lemma lease_inv_step:
  assumes "pool_step p p'" "threads_inv p" "cores_inv p" "lease_inv p"
  shows "lease_inv p'"
  using assms
proof (induction rule: pool_step.induct)
  case (Acquire key p r p')
  from Acquire(1) show ?case
  proof (cases rule: acquire_enter_cases)
    case wait
    with Acquire show ?thesis by simp
  next
    case (leased e c)
    note e = entry_facts [OF Acquire(2) leased(1)] published_core [OF Acquire(3) leased(3)]
    have "lease_inv (p\<lparr>store := (store p)(e := (store p e)\<lparr>e_refs := e_refs (store p e) + 1\<rparr>)\<rparr>)"
      by (rule lease_inv_same [OF Acquire(4)]) (auto simp: current_def)
    then show ?thesis unfolding leased(6) lease_inv_def current_def Let_def using e leased(3) by simp
  next
    case (stale e c)
    show ?thesis unfolding stale(5) by (rule lease_inv_same [OF Acquire(4)]) (auto simp: current_def)
  next
    case fresh
    with Acquire lease_inv_fresh show ?thesis by simp
  qed
next
  case (DialFailed key e p)
  note o = opener_facts(1) [OF DialFailed(2,1)]
  show ?case
    by (rule lease_inv_discard [OF DialFailed(4,2) o]) (simp_all add: pool_op_defs)
next
  case (InitDiscard key e c p)
  note o = opener_facts(1) [OF InitDiscard(2,1)]
  show ?case
    by (rule lease_inv_discard [OF InitDiscard(4,2) o]) (simp_all add: pool_op_defs)
next
  case (Dialed key e p)
  have "core_entry (dialed key e p) c = core_entry p c" if "(k, c) \<in> set (leases p)" for k c
    using cores_invD(6) [OF Dialed(3) that] by (simp add: dialed_def)
  with Dialed(4) show ?case by (simp add: lease_inv_def current_def Let_def dialed_def)
next
  case (InitFailed key e c p)
  show ?case by (rule lease_inv_same [OF InitFailed(4)]) (auto simp: pool_op_defs current_def)
next
  case (Publish key e c p)
  note o = opener_facts [OF Publish(2,1)] and oc = opener_core [OF Publish(3,1)]
  have other: "core_entry p c' \<noteq> e" if "(k, c') \<in> set (leases p)" for k c'
    using Publish(4) that o(3) by (force simp: lease_inv_def Let_def)
  have "x < nextEntry p \<and> e_core (store (publish key e c p) x) = Some c' \<and> e_key (store (publish key e c p) x) = k"
    if "(k, c') \<in> set (leases (publish key e c p))" "x = core_entry p c'" for k c' x
  proof (cases "(k, c') = (key, c)")
    case True
    with that o oc show ?thesis by (simp add: pool_op_defs)
  next
    case False
    then have "(k, c') \<in> set (leases p)" using that by (auto simp: pool_op_defs)
    with other [OF this] Publish(4) that(2) show ?thesis by (simp add: pool_op_defs lease_inv_def)
  qed
  moreover have "current (publish key e c p) x = current p x" for x
    by (simp add: current_def pool_op_defs)
  ultimately show ?case using Publish(4) by (simp add: lease_inv_def Let_def) (simp add: pool_op_defs)
next
  case (Release key c p)
  show ?case
    by (cases rule: release_cases [of key c p])
       (rule lease_inv_same [OF Release(4)], use set_remove1_subset [of "(key, c)" "leases p"] in
         \<open>auto simp: current_def\<close>)+
next
  case (CloseEntryCore key e p)
  show ?case
    by (rule lease_inv_same [OF CloseEntryCore(4)]) (auto simp: pool_op_defs current_def split: option.splits)
next
  case (CloseEntryDiscard key e p)
  note o = closer_facts(1,3) [OF CloseEntryDiscard(2,1)]
  have "e_opening (store p e)"
    using CloseEntryDiscard(4) o(2) closer_facts(8) [OF CloseEntryDiscard(2,1)] by (simp add: lease_inv_def)
  then show ?case
    by (intro lease_inv_discard [OF CloseEntryDiscard(4,2) o(1)]) (simp_all add: pool_op_defs o(1))
next
  case (CoreFails p c)
  show ?case by (rule lease_inv_same [OF CoreFails(4)]) (auto simp: current_def)
qed

section \<open>Properties\<close>

lemma pool_inv_reachable: "pool_reachable p \<Longrightarrow> threads_inv p \<and> cores_inv p \<and> lease_inv p"
proof (induction rule: pool_reachable.induct)
  case Init
  show ?case
    by (simp add: init_pool_def threads_inv_def keys_inv_def entry_inv_def current_def cores_inv_def
        lease_inv_def conn_open_def newEntry_def)
next
  case (Step p p')
  then show ?case using threads_inv_step cores_inv_step lease_inv_step by blast
qed

text \<open>The connection that a device key holds: its opener's or its published entry's core.\<close>

definition conn_at :: "pool \<Rightarrow> string \<Rightarrow> nat \<Rightarrow> bool" where
  "conn_at p k c \<longleftrightarrow>
     (\<exists>e. (k, e, Initialising c) \<in> set (openers p))
     \<or> (\<exists>e. entries p k = Some e \<and> e_core (store p e) = Some c)"

lemma conn_at_entry:
  assumes "threads_inv p" "cores_inv p" "conn_at p k c"
  shows "entries p k = Some (core_entry p c)"
  using assms(3) opener_facts(1) [OF assms(1)] opener_core(1) [OF assms(2)] published_core(1) [OF assms(2)]
  by (auto simp: conn_at_def)

lemma conn_at_unique:
  assumes "threads_inv p" "cores_inv p" "conn_at p k c" "conn_at p k c'"
  shows "c = c'"
proof -
  have e: "core_entry p c' = core_entry p c"
    using conn_at_entry [OF assms(1,2,3)] conn_at_entry [OF assms(1,2,4)] by simp
  show ?thesis
  proof (cases "e_core (store p (core_entry p c))")
    case None
    with assms e conn_at_entry [OF assms(1,2)] obtain x x'
      where "(k, x, Initialising c) \<in> set (openers p)" "(k, x', Initialising c') \<in> set (openers p)"
      by (fastforce simp: conn_at_def)
    then show ?thesis
      using opener_unique [OF assms(1)] opener_core(1) [OF assms(2)] e by (metis open_pc.inject(1))
  next
    case (Some d)
    have "y = d" if "conn_at p k y" "core_entry p y = core_entry p c" for y
      using that Some conn_at_entry [OF assms(1,2) that(1)] opener_facts(3) [OF assms(1)] opener_core(1) [OF assms(2)]
      by (fastforce simp: conn_at_def)
    with assms(3,4) e show ?thesis by blast
  qed
qed

text \<open>C20: the pool never opens a device twice: in every reachable state each open connection is held
  by exactly one device key, through the opener or the published entry of that key, and a key
  holds at most one connection, however acquires, releases and failures interleave.\<close>

theorem pool_one_connection_per_device:
  assumes "pool_reachable p"
  shows "(conn_open p c \<longrightarrow> (\<exists>!k. conn_at p k c)) \<and> (conn_at p k c \<and> conn_at p k c' \<longrightarrow> c = c')"
proof -
  have inv: "threads_inv p" "cores_inv p" using pool_inv_reachable [OF assms] by auto
  have "conn_at p (e_key (store p (core_entry p c))) c" if "conn_open p c"
    using cores_invD(4) [OF inv(2) that] by (auto simp: conn_inv_def conn_at_def current_def Let_def)
  moreover have "k = k'" if "conn_at p k c" "conn_at p k' c" for k k'
    using conn_at_entry [OF inv that(1)] conn_at_entry [OF inv that(2)] entry_facts(1) [OF inv(1)] by metis
  ultimately show ?thesis using conn_at_unique [OF inv] by blast
qed

text \<open>C34: a lease protects a working core: in every reachable state, a leased core that has not failed
  by itself is published under the key of the lease, is not being closed, and its reference
  count is the number of its live leases; so the pool closes a core only when its last lease is
  released or after the core has failed.\<close>

theorem pool_lease_keeps_core:
  assumes "pool_reachable p" "(k, c) \<in> set (leases p)" "core_stat p c = Some Usable"
  shows "\<exists>e. entries p k = Some e \<and> e_core (store p e) = Some c \<and> \<not> e_closing (store p e)
     \<and> e_refs (store p e) = int (count_list (leases p) (k, c)) \<and> (\<forall>pc. (k, e, pc) \<notin> set (closers p))"
proof -
  have inv: "threads_inv p" "cores_inv p" "lease_inv p" using pool_inv_reachable [OF assms(1)] by auto
  let ?e = "core_entry p c"
  have l: "e_core (store p ?e) = Some c" "e_key (store p ?e) = k"
    using inv(3) assms(2) by (auto simp: lease_inv_def Let_def)
  have cur: "current p ?e"
    using cores_invD(4) [OF inv(2), of c] assms(3) by (auto simp: conn_open_def conn_inv_def Let_def)
  with cores_invD(1) [OF inv(2) l(1)] l assms(2,3)
  have "\<not> e_closing (store p ?e)" "e_refs (store p ?e) = int (count_list (leases p) (k, c))"
    by (auto simp: published_inv_def split: if_splits)
  moreover from this(1) have "(k, ?e, pc) \<notin> set (closers p)" for pc using closer_facts(5) [OF inv(1)] by blast
  moreover have "entries p k = Some ?e" using cur l(2) by (simp add: current_def)
  ultimately show ?thesis using l(1) by blast
qed

text \<open>No acquirer waits for nothing and no channel is closed twice: in every reachable state no
  close of a closed channel has happened; an entry whose \<open>opening\<close> channel is still open has an
  opener at work, and a marked entry whose \<open>closed\<close> channel is still open has a closer at work.\<close>

theorem pool_waiters_are_served:
  assumes "pool_reachable p" "e < nextEntry p"
  shows "\<not> channel_panic p
    \<and> (\<not> e_opening (store p e) \<longrightarrow> (\<exists>k pc. (k, e, pc) \<in> set (openers p)))
    \<and> (e_closing (store p e) \<and> \<not> e_closed (store p e) \<longrightarrow> (\<exists>k pc. (k, e, pc) \<in> set (closers p)))"
proof -
  have inv: "threads_inv p" "cores_inv p" "lease_inv p" using pool_inv_reachable [OF assms(1)] by auto
  have i: "entry_inv p e" and panic: "\<not> channel_panic p" using inv(1) by (auto simp: threads_inv_def)
  have "n_threads e (openers p) = 1" if "\<not> e_opening (store p e)"
  proof -
    have "current p e" "e_core (store p e) = None" using inv(3) assms(2) that by (auto simp: lease_inv_def)
    with i show ?thesis by (simp add: entry_inv_def)
  qed
  moreover have "n_threads e (closers p) = 1" if "e_closing (store p e)" "\<not> e_closed (store p e)"
  proof -
    have "current p e" using inv(3) assms(2) that(2) by (auto simp: lease_inv_def)
    with i that(1) show ?thesis by (simp add: entry_inv_def)
  qed
  ultimately show ?thesis using panic n_threads_ex by metis
qed

section \<open>A sample run\<close>

definition sample_pool :: pool where
  "sample_pool = publish ''d'' 0 0 (dialed ''d'' 0 (snd (acquire_enter ''d'' init_pool)))"

lemma sample_pool_reachable: "pool_reachable sample_pool"
proof -
  let ?p1 = "snd (acquire_enter ''d'' init_pool)"
  have "pool_reachable ?p1"
    by (rule Step [OF Init], rule Acquire [where key = "''d''"]) (rule surjective_pairing)
  moreover have "(''d'', 0, Dialing) \<in> set (openers ?p1)"
    by (simp add: acquire_enter_def init_pool_def Let_def)
  ultimately have "pool_reachable (dialed ''d'' 0 ?p1)" using Step Dialed by blast
  moreover have "(''d'', 0, Initialising 0) \<in> set (openers (dialed ''d'' 0 ?p1))"
    by (simp add: acquire_enter_def init_pool_def dialed_def Let_def)
  ultimately show ?thesis unfolding sample_pool_def using Step Publish by blast
qed

lemma sample_pool_eval:
  "core_stat sample_pool 0 = Some Usable" "entries sample_pool ''d'' = Some 0" "e_core (store sample_pool 0) = Some 0"
  "leases sample_pool = [(''d'', 0)]" "nextEntry sample_pool = 1" "e_opening (store sample_pool 0)"
  by (simp_all add: sample_pool_def acquire_enter_def init_pool_def dialed_def publish_def close_opening_def
      newEntry_def Let_def)

theorem pool_one_connection_per_device_witness: "\<exists>!k. conn_at sample_pool k 0"
  using pool_one_connection_per_device [OF sample_pool_reachable, of 0] sample_pool_eval
  by (simp add: conn_open_def)

theorem pool_lease_keeps_core_witness: "\<not> e_closing (store sample_pool 0) \<and> e_refs (store sample_pool 0) = 1"
  using pool_lease_keeps_core [OF sample_pool_reachable, of "''d''" 0] sample_pool_eval by simp

theorem pool_waiters_are_served_witness: "0 < nextEntry sample_pool \<and> \<not> channel_panic sample_pool"
  using pool_waiters_are_served [OF sample_pool_reachable, of 0] sample_pool_eval by simp

end
