(* ===== verification/Utf16.thy ===== *)
theory Utf16
  imports Prelude
begin

text \<open>
  Text as the Go program handles it: a string is its list of runes, and \<open>unicode/utf16\<close> converts
  runes to and from 16-bit code units, replacing what has no representation by U+FFFD.
\<close>

type_synonym rune = nat

definition replacement :: rune where "replacement = 0xFFFD"

definition valid_rune :: "rune \<Rightarrow> bool" where
  "valid_rune r \<longleftrightarrow> r < 0xD800 \<or> 0xE000 \<le> r \<and> r \<le> 0x10FFFF"

text \<open>\<open>utf16.Encode\<close>.\<close>

definition utf16_encode_rune :: "rune \<Rightarrow> u16 list" where
  "utf16_encode_rune r =
     (if r < 0xD800 \<or> 0xE000 \<le> r \<and> r < 0x10000 then [of_nat r]
      else if 0x10000 \<le> r \<and> r \<le> 0x10FFFF
      then [of_nat (0xD800 + (r - 0x10000) div 0x400), of_nat (0xDC00 + (r - 0x10000) mod 0x400)]
      else [of_nat replacement])"

definition utf16_encode :: "rune list \<Rightarrow> u16 list" where
  "utf16_encode rs = concat (map utf16_encode_rune rs)"

text \<open>\<open>utf16.Decode\<close>.\<close>

definition is_high :: "u16 \<Rightarrow> bool" where "is_high u \<longleftrightarrow> 0xD800 \<le> unat u \<and> unat u < 0xDC00"
definition is_low :: "u16 \<Rightarrow> bool" where "is_low u \<longleftrightarrow> 0xDC00 \<le> unat u \<and> unat u < 0xE000"

definition utf16_pair :: "u16 \<Rightarrow> u16 \<Rightarrow> rune" where
  "utf16_pair u v = (unat u - 0xD800) * 0x400 + (unat v - 0xDC00) + 0x10000"

fun utf16_decode :: "u16 list \<Rightarrow> rune list" where
  "utf16_decode [] = []"
| "utf16_decode [u] = [if is_high u \<or> is_low u then replacement else unat u]"
| "utf16_decode (u # v # us) =
     (if \<not> is_high u \<and> \<not> is_low u then unat u # utf16_decode (v # us)
      else if is_high u \<and> is_low v then utf16_pair u v # utf16_decode us
      else replacement # utf16_decode (v # us))"

lemma utf16_encode_rune_cases:
  assumes "valid_rune r"
  obtains u where "utf16_encode_rune r = [u]" "\<not> is_high u" "\<not> is_low u"
  | u v where "utf16_encode_rune r = [u, v]" "is_high u" "is_low v"
proof (cases "r < 0x10000")
  case True
  then have "unat (of_nat r :: u16) = r" by (intro unat_of_nat_u16) simp
  with True assms that(1) [of "of_nat r"] show ?thesis
    by (auto simp: is_high_def is_low_def valid_rune_def utf16_encode_rune_def)
next
  case False
  let ?x = "r - 0x10000"
  from False assms have r: "0x10000 \<le> r" "r \<le> 0x10FFFF" by (auto simp: valid_rune_def)
  then have q: "?x div 0x400 < 0x400" "?x mod 0x400 < 0x400" by (auto simp: less_mult_imp_div_less)
  let ?u = "of_nat (0xD800 + ?x div 0x400) :: u16" and ?v = "of_nat (0xDC00 + ?x mod 0x400) :: u16"
  have "unat ?u = 0xD800 + ?x div 0x400" "unat ?v = 0xDC00 + ?x mod 0x400"
    using q by (intro unat_of_nat_u16; simp)+
  then have "is_high ?u" "is_low ?v" using q by (auto simp: is_high_def is_low_def)
  moreover have "utf16_encode_rune r = [?u, ?v]" using r by (simp add: utf16_encode_rune_def)
  ultimately show ?thesis by (rule that(2) [rotated])
qed

lemma high_low_disjoint: "is_high u \<Longrightarrow> \<not> is_low u"
  by (simp add: is_high_def is_low_def)

lemma utf16_encode_Cons: "utf16_encode (r # t) = utf16_encode_rune r @ utf16_encode t"
  by (simp add: utf16_encode_def)

lemma utf16_decode_unit:
  "\<not> is_high u \<Longrightarrow> \<not> is_low u \<Longrightarrow> utf16_decode (u # us) = unat u # utf16_decode us"
  by (cases us) auto

lemma utf16_decode_rune:
  assumes "valid_rune r"
  shows "utf16_decode (utf16_encode_rune r @ us) = r # utf16_decode us"
proof (cases "r < 0x10000")
  case True
  then have "unat (of_nat r :: u16) = r" by (intro unat_of_nat_u16) simp
  with True assms show ?thesis
    by (auto simp: utf16_encode_rune_def valid_rune_def utf16_decode_unit is_high_def is_low_def)
next
  case False
  let ?x = "r - 0x10000"
  from False assms have r: "0x10000 \<le> r" "r \<le> 0x10FFFF" by (auto simp: valid_rune_def)
  then have q: "?x div 0x400 < 0x400" "?x mod 0x400 < 0x400" by (auto simp: less_mult_imp_div_less)
  let ?u = "of_nat (0xD800 + ?x div 0x400) :: u16" and ?v = "of_nat (0xDC00 + ?x mod 0x400) :: u16"
  have u: "unat ?u = 0xD800 + ?x div 0x400" "unat ?v = 0xDC00 + ?x mod 0x400"
    using q by (intro unat_of_nat_u16; simp)+
  then have "is_high ?u" "is_low ?v" "utf16_pair ?u ?v = r"
    using q r by (auto simp: is_high_def is_low_def utf16_pair_def)
  moreover have "utf16_encode_rune r = [?u, ?v]" using r by (simp add: utf16_encode_rune_def)
  ultimately show ?thesis by simp
qed

lemma utf16_roundtrip: "list_all valid_rune rs \<Longrightarrow> utf16_decode (utf16_encode rs) = rs"
  by (induction rs) (simp_all add: utf16_encode_def utf16_decode_rune)

lemma utf16_decode_valid: "list_all valid_rune (utf16_decode us)"
proof (induction us rule: utf16_decode.induct)
  case (2 u)
  then show ?case using unat_u16_lt [of u] by (auto simp: valid_rune_def replacement_def is_high_def is_low_def simp del: unat_u16_lt)
next
  case (3 u v us)
  then show ?case using unat_u16_lt [of u]
    by (auto simp: valid_rune_def replacement_def is_high_def is_low_def utf16_pair_def simp del: unat_u16_lt)
qed simp

end
