(* ===== verification/Mbim_Wire.thy ===== *)
theory Mbim_Wire
  imports Utf16
begin

text \<open>
  The data-buffer layer of MBIM information elements (\<^verbatim>\<open>mbim/wire.go\<close>): offset/size references into a
  payload, the table of references with its padded data area, and UTF-16 strings. Lengths are
  truncated to 32 bits where the code does, and slice expressions may panic, so panic freedom is
  proved for every input length.
\<close>

section \<open>References\<close>

record valueRef =
  offset :: u32
  ref_size :: u32

datatype ref_error =
    ReferenceTableTruncated
  | ReferenceTruncated
  | ZeroOffsetNonzeroSize
  | ValueTruncated
  | ValueBeforeDataBuffer
  | ValueNotAligned
  | DataBufferBeyondPayload
  | ReferenceOverlaps nat
  | ReferenceSparse nat
  | PaddingTruncated
  | TrailingData
  | AtReference nat ref_error
  | StringTooLong nat u32 u32
  | OddUTF16Length
  | StringBuffersOverlap

abbreviation len32 :: "bytes \<Rightarrow> u32" where
  "len32 data \<equiv> of_nat (length data)"

definition readOffsetSizeRef :: "bytes \<Rightarrow> u32 \<Rightarrow> (ref_error, valueRef) outcome" where
  "readOffsetSizeRef data fieldOffset =
     fail_if (fieldOffset > len32 data \<or> 8 > len32 data - fieldOffset) ReferenceTruncated
       (bind (subslice data (unat fieldOffset) (unat (fieldOffset + 4))) (\<lambda>a. bind (le32 a) (\<lambda>off.
        bind (subslice data (unat (fieldOffset + 4)) (unat (fieldOffset + 8))) (\<lambda>b. bind (le32 b) (\<lambda>sz.
          Ret \<lparr>offset = off, ref_size = sz\<rparr>)))))"

definition readSizeOffsetRef :: "bytes \<Rightarrow> u32 \<Rightarrow> (ref_error, valueRef) outcome" where
  "readSizeOffsetRef data fieldOffset =
     fail_if (fieldOffset > len32 data \<or> 8 > len32 data - fieldOffset) ReferenceTruncated
       (bind (subslice data (unat fieldOffset) (unat (fieldOffset + 4))) (\<lambda>a. bind (le32 a) (\<lambda>sz.
        bind (subslice data (unat (fieldOffset + 4)) (unat (fieldOffset + 8))) (\<lambda>b. bind (le32 b) (\<lambda>off.
          Ret \<lparr>offset = off, ref_size = sz\<rparr>)))))"

definition ref_validate :: "valueRef \<Rightarrow> bytes \<Rightarrow> (ref_error, unit) outcome" where
  "ref_validate r base =
     (if offset r = 0
      then fail_if (ref_size r \<noteq> 0) ZeroOffsetNonzeroSize (Ret ())
      else fail_if (offset r > len32 base \<or> ref_size r > len32 base - offset r) ValueTruncated (Ret ()))"

definition validateDataBuffer :: "valueRef \<Rightarrow> bytes \<Rightarrow> u32 \<Rightarrow> (ref_error, unit) outcome" where
  "validateDataBuffer r base dataStart =
     bind (ref_validate r base) (\<lambda>_.
       fail_if (ref_size r \<noteq> 0 \<and> offset r < dataStart) ValueBeforeDataBuffer
         (fail_if (unat (offset r) mod 4 \<noteq> 0) ValueNotAligned (Ret ())))"

definition ref_bytes :: "valueRef \<Rightarrow> bytes \<Rightarrow> (ref_error, bytes) outcome" where
  "ref_bytes r base =
     (if offset r = 0 \<and> ref_size r = 0 then Ret []
      else subslice base (unat (offset r)) (unat (offset r + ref_size r)))"

section \<open>Padded data buffers\<close>

definition align4 :: "nat \<Rightarrow> nat" where
  "align4 n = (n + 3) div 4 * 4"

text \<open>The loop \<open>for len(data)%4 != 0 { data = append(data, 0) }\<close>.\<close>

definition pad4 :: "bytes \<Rightarrow> bytes" where
  "pad4 data = data @ replicate (align4 (length data) - length data) 0"

definition padTo4Bytes :: "bytes \<Rightarrow> bytes" where
  "padTo4Bytes data = data @ replicate (align4 (length data) - length data) 0"

text \<open>\<open>binary.LittleEndian.PutUint32(data[at:at+4], v)\<close> for an offset inside the slice.\<close>

definition put_at :: "bytes \<Rightarrow> nat \<Rightarrow> bytes \<Rightarrow> bytes" where
  "put_at data at bs = take at data @ bs @ drop (at + length bs) data"

fun appendOffsetSize_loop :: "nat \<Rightarrow> bytes \<Rightarrow> bytes list \<Rightarrow> bytes" where
  "appendOffsetSize_loop entryOffset data [] = data"
| "appendOffsetSize_loop entryOffset data (element # elements) =
     (let data1 = (if length element \<noteq> 0
                   then put_at (put_at data entryOffset (put_le32 (len32 data)))
                          (entryOffset + 4) (put_le32 (len32 element))
                   else data)
      in appendOffsetSize_loop (entryOffset + 8) (pad4 (data1 @ element)) elements)"

definition appendOffsetSizeElements :: "bytes \<Rightarrow> bytes list \<Rightarrow> bytes" where
  "appendOffsetSizeElements header elements =
     appendOffsetSize_loop (length header) (header @ replicate (length elements * 8) 0) elements"

definition appendRefValue :: "bytes \<Rightarrow> nat \<Rightarrow> bytes \<Rightarrow> bytes" where
  "appendRefValue data fieldOffset v =
     (if length v = 0 then data
      else pad4 (put_at (put_at data fieldOffset (put_le32 (len32 data))) (fieldOffset + 4) (put_le32 (len32 v)) @ v))"

text \<open>The loop of \<open>dataBufferEnds\<close> over the remaining references, with the running ends.\<close>

fun dataBufferEnds_loop ::
  "bytes \<Rightarrow> u32 \<Rightarrow> nat \<Rightarrow> nat \<Rightarrow> nat \<Rightarrow> valueRef list \<Rightarrow> (ref_error, nat \<times> nat) outcome" where
  "dataBufferEnds_loop base dataStart i payloadEnd nextOffset [] = Ret (payloadEnd, nextOffset)"
| "dataBufferEnds_loop base dataStart i payloadEnd nextOffset (r # refs) =
     bind (map_err (AtReference i) (validateDataBuffer r base dataStart)) (\<lambda>_.
       if ref_size r = 0 then dataBufferEnds_loop base dataStart (i + 1) payloadEnd nextOffset refs
       else let off = unat (offset r) in
         fail_if (off < nextOffset) (ReferenceOverlaps i)
          (fail_if (off > nextOffset) (ReferenceSparse i)
            (let pe = off + unat (ref_size r)
             in dataBufferEnds_loop base dataStart (i + 1) pe
                  (if pe mod 4 \<noteq> 0 then pe + (4 - pe mod 4) else pe) refs)))"

definition dataBufferEnds :: "bytes \<Rightarrow> u32 \<Rightarrow> valueRef list \<Rightarrow> (ref_error, nat \<times> nat) outcome" where
  "dataBufferEnds base dataStart refs =
     fail_if (unat dataStart > length base) DataBufferBeyondPayload
       (dataBufferEnds_loop base dataStart 0 (unat dataStart) (unat dataStart) refs)"

definition validateDataBufferRefs :: "bytes \<Rightarrow> u32 \<Rightarrow> valueRef list \<Rightarrow> (ref_error, unit) outcome" where
  "validateDataBufferRefs base dataStart refs =
     bind (dataBufferEnds base dataStart refs) (\<lambda>(_, paddedEnd).
       fail_if (paddedEnd > length base) PaddingTruncated
         (fail_if (paddedEnd < length base) TrailingData (Ret ())))"

definition validateRecordDataBufferRefs :: "bytes \<Rightarrow> u32 \<Rightarrow> valueRef list \<Rightarrow> (ref_error, unit) outcome" where
  "validateRecordDataBufferRefs base dataStart refs =
     bind (dataBufferEnds base dataStart refs) (\<lambda>(payloadEnd, paddedEnd).
       if length base = payloadEnd \<or> length base = paddedEnd then Ret ()
       else fail_if (length base < paddedEnd) PaddingTruncated (Fail TrailingData))"

definition offsetSizeRefs :: "bytes \<Rightarrow> u32 \<Rightarrow> u32 \<Rightarrow> (ref_error, valueRef list) outcome" where
  "offsetSizeRefs data tableOffset count =
     fail_if (tableOffset > len32 data \<or> count > (len32 data - tableOffset) div 8) ReferenceTableTruncated
       (bind (traverse (\<lambda>i. map_err (AtReference i) (readOffsetSizeRef data (tableOffset + of_nat i * 8)))
                [0..<unat count]) (\<lambda>refs.
        bind (validateDataBufferRefs data (tableOffset + count * 8) refs) (\<lambda>_. Ret refs)))"

definition byteArrayRef :: "bytes \<Rightarrow> bytes \<Rightarrow> u32 \<Rightarrow> u32 \<Rightarrow> (ref_error, bytes) outcome" where
  "byteArrayRef base data fieldOffset dataStart =
     bind (readOffsetSizeRef data fieldOffset) (\<lambda>r.
     bind (validateDataBufferRefs base dataStart [r]) (\<lambda>_. ref_bytes r base))"

section \<open>Strings\<close>

fun utf16RawUnits :: "bytes \<Rightarrow> u16 list" where
  "utf16RawUnits (a # b # raw) = join_le16 a b # utf16RawUnits raw"
| "utf16RawUnits _ = []"

definition utf16RawString :: "bytes \<Rightarrow> (ref_error, rune list) outcome" where
  "utf16RawString raw =
     fail_if (length raw mod 2 \<noteq> 0) OddUTF16Length (Ret (utf16_decode (utf16RawUnits raw)))"

definition utf16String :: "bytes \<Rightarrow> valueRef \<Rightarrow> (ref_error, rune list) outcome" where
  "utf16String data r =
     bind (ref_validate r data) (\<lambda>_.
       if ref_size r = 0 then Ret []
       else bind (subslice data (unat (offset r)) (unat (offset r + ref_size r))) utf16RawString)"

definition utf16Bytes :: "rune list \<Rightarrow> bytes" where
  "utf16Bytes s = concat (map put_le16 (utf16_encode s))"

fun validateUTF16Refs_loop :: "bytes \<Rightarrow> u32 \<Rightarrow> bool \<Rightarrow> valueRef list \<Rightarrow> (ref_error, unit) outcome" where
  "validateUTF16Refs_loop base previousEnd sawString [] = Ret ()"
| "validateUTF16Refs_loop base previousEnd sawString (r # refs) =
     bind (ref_validate r base) (\<lambda>_.
       fail_if (unat (ref_size r) mod 2 \<noteq> 0) OddUTF16Length
         (if offset r = 0 then validateUTF16Refs_loop base previousEnd sawString refs
          else fail_if (sawString \<and> offset r < previousEnd) StringBuffersOverlap
                 (validateUTF16Refs_loop base (offset r + ref_size r) True refs)))"

definition validateUTF16Refs :: "bytes \<Rightarrow> valueRef list \<Rightarrow> (ref_error, unit) outcome" where
  "validateUTF16Refs base refs = validateUTF16Refs_loop base 0 False refs"

definition contextStringMaximumSizes :: "u32 list" where
  "contextStringMaximumSizes = [200, 510, 510]"

fun validateContextStringRefSizes_loop :: "nat \<Rightarrow> u32 list \<Rightarrow> valueRef list \<Rightarrow> (ref_error, unit) outcome" where
  "validateContextStringRefSizes_loop i [] refs = Ret ()"
| "validateContextStringRefSizes_loop i (m # ms) refs =
     bind (index refs i) (\<lambda>r.
       fail_if (ref_size r > m) (StringTooLong i (ref_size r) m)
         (validateContextStringRefSizes_loop (i + 1) ms refs))"

definition validateContextStringRefSizes :: "valueRef list \<Rightarrow> (ref_error, unit) outcome" where
  "validateContextStringRefSizes refs = validateContextStringRefSizes_loop 0 contextStringMaximumSizes refs"

definition validateContextStringRefs :: "bytes \<Rightarrow> u32 \<Rightarrow> valueRef list \<Rightarrow> (ref_error, unit) outcome" where
  "validateContextStringRefs base dataStart refs =
     bind (validateContextStringRefSizes refs) (\<lambda>_.
     bind (validateDataBufferRefs base dataStart refs) (\<lambda>_. validateUTF16Refs base refs))"

definition validateRecordContextStringRefs :: "bytes \<Rightarrow> u32 \<Rightarrow> valueRef list \<Rightarrow> (ref_error, unit) outcome" where
  "validateRecordContextStringRefs base dataStart refs =
     bind (validateContextStringRefSizes refs) (\<lambda>_.
     bind (validateRecordDataBufferRefs base dataStart refs) (\<lambda>_. validateUTF16Refs base refs))"

section \<open>Lemmas: bounds\<close>

lemma unat_len32_le: "unat (len32 data) \<le> length data"
  by (simp add: unat_of_nat take_bit_nat_less_eq_self)

lemma unat_len32: "length data < 2 ^ 32 \<Longrightarrow> unat (len32 data) = length data"
  by (rule unat_of_nat_u32)

text \<open>The overflow-free form of the guards \<open>a > n || b > n - a\<close>.\<close>

lemma in_range:
  fixes a b n :: u32
  assumes "\<not> (a > n \<or> b > n - a)"
  shows "unat (a + b) = unat a + unat b" "unat a + unat b \<le> unat n"
proof -
  have a: "a \<le> n" "b \<le> n - a" using assms by auto
  then have "unat b \<le> unat n - unat a" by (simp add: word_le_nat_alt unat_sub)
  moreover have "unat a \<le> unat n" using a(1) by (simp add: word_le_nat_alt)
  ultimately show le: "unat a + unat b \<le> unat n" by simp
  have "unat n < 2 ^ 32" using unat_u32_lt [of n] by simp
  then have "unat a + unat b < 2 ^ 32" by (rule le_less_trans [OF le])
  then show "unat (a + b) = unat a + unat b" by (simp add: unat_word_ariths)
qed

lemma reference_range:
  assumes "\<not> (fieldOffset > len32 data \<or> 8 > len32 data - fieldOffset)"
  shows "unat (fieldOffset + 4) = unat fieldOffset + 4" "unat (fieldOffset + 8) = unat fieldOffset + 8"
    "unat fieldOffset + 8 \<le> length data"
proof -
  note r = in_range [OF assms]
  have "unat fieldOffset + 8 \<le> unat (len32 data)" using r(2) by simp
  then show "unat fieldOffset + 8 \<le> length data" using unat_len32_le [of data] by linarith
  show "unat (fieldOffset + 8) = unat fieldOffset + 8" using r(1) by simp
  have "unat fieldOffset + 8 < 2 ^ 32"
    using r(2) unat_u32_lt [of "len32 data"] by (simp del: unat_u32_lt)
  then show "unat (fieldOffset + 4) = unat fieldOffset + 4" by (simp add: unat_word_ariths)
qed

lemma readOffsetSizeRef_in:
  assumes "\<not> (fieldOffset > len32 data \<or> 8 > len32 data - fieldOffset)"
  shows "readOffsetSizeRef data fieldOffset =
    (let k = unat fieldOffset in
     Ret \<lparr>offset = join_le32 (data ! k) (data ! (k + 1)) (data ! (k + 2)) (data ! (k + 3)),
          ref_size = join_le32 (data ! (k + 4)) (data ! (k + 5)) (data ! (k + 6)) (data ! (k + 7))\<rparr>)"
proof -
  let ?k = "unat fieldOffset"
  note r = reference_range [OF assms]
  have "le32 (take 4 (drop ?k data)) = Ret (join_le32 (data ! ?k) (data ! (?k + 1)) (data ! (?k + 2)) (data ! (?k + 3)))"
    using le32_take_drop(1) [of 4 ?k data] r(3) by simp
  moreover have "le32 (take 4 (drop (?k + 4) data))
      = Ret (join_le32 (data ! (?k + 4)) (data ! (?k + 5)) (data ! (?k + 6)) (data ! (?k + 7)))"
    using le32_take_drop(1) [of 4 "?k + 4" data] r(3) by (simp add: add.commute)
  ultimately show ?thesis
    using assms r(3) by (simp add: readOffsetSizeRef_def fail_if_def subslice_def r(1,2) Let_def)
qed

lemma readOffsetSizeRef_no_panic: "readOffsetSizeRef data fieldOffset \<noteq> Panic"
  using readOffsetSizeRef_in [where fieldOffset = fieldOffset and data = data]
  by (cases "fieldOffset > len32 data \<or> 8 > len32 data - fieldOffset")
     (simp add: readOffsetSizeRef_def, simp add: Let_def)

lemma ref_validate_bytes:
  assumes "ref_validate r base = Ret ()"
  shows "unat (offset r + ref_size r) = unat (offset r) + unat (ref_size r)"
    "unat (offset r) + unat (ref_size r) \<le> length base"
    "ref_bytes r base = Ret (take (unat (ref_size r)) (drop (unat (offset r)) base))"
proof -
  have "unat (offset r + ref_size r) = unat (offset r) + unat (ref_size r)
      \<and> unat (offset r) + unat (ref_size r) \<le> length base"
  proof (cases "offset r = 0")
    case True
    with assms show ?thesis by (simp add: ref_validate_def)
  next
    case False
    with assms have g: "\<not> (offset r > len32 base \<or> ref_size r > len32 base - offset r)"
      by (simp add: ref_validate_def)
    show ?thesis using in_range [OF g] unat_len32_le [of base] by simp
  qed
  then show "unat (offset r + ref_size r) = unat (offset r) + unat (ref_size r)"
    "unat (offset r) + unat (ref_size r) \<le> length base"
    "ref_bytes r base = Ret (take (unat (ref_size r)) (drop (unat (offset r)) base))"
    by (auto simp: ref_bytes_def subslice_def)
qed

lemma ref_validate_no_panic [simp]: "ref_validate r base \<noteq> Panic"
  by (simp add: ref_validate_def)

lemma validateDataBuffer_no_panic [simp]: "validateDataBuffer r base dataStart \<noteq> Panic"
  by (simp add: validateDataBuffer_def bind_eq_Panic_iff)

lemma dataBufferEnds_loop_no_panic: "dataBufferEnds_loop base dataStart i pe n refs \<noteq> Panic"
  by (induction refs arbitrary: i pe n) (auto simp: bind_eq_Panic_iff Let_def)

lemma validateDataBufferRefs_no_panic: "validateDataBufferRefs base dataStart refs \<noteq> Panic"
  using dataBufferEnds_loop_no_panic
  by (auto simp: validateDataBufferRefs_def dataBufferEnds_def bind_eq_Panic_iff split: prod.splits)

lemma offsetSizeRefs_no_panic: "offsetSizeRefs data tableOffset count \<noteq> Panic"
proof -
  have "traverse (\<lambda>i. map_err (AtReference i) (readOffsetSizeRef data (tableOffset + of_nat i * 8))) [0..<unat count] \<noteq> Panic"
    by (rule traverse_no_panic) (simp add: readOffsetSizeRef_no_panic)
  then show ?thesis
    using validateDataBufferRefs_no_panic by (auto simp: offsetSizeRefs_def bind_eq_Panic_iff)
qed

section \<open>Accepted tables tile the data buffer\<close>

lemma padded_end: "(if pe mod 4 \<noteq> 0 then pe + (4 - pe mod 4) else pe) = align4 pe" for pe :: nat
  unfolding align4_def by presburger

lemma align4_facts: "n \<le> align4 n" "align4 n mod 4 = 0" "n mod 4 = 0 \<Longrightarrow> align4 n = n"
  "n mod 4 = 0 \<Longrightarrow> align4 (n + m) = n + align4 m" "n mod 4 = 0 \<Longrightarrow> (n + align4 m) mod 4 = 0"
  unfolding align4_def by presburger+

text \<open>Consecutive values, each starting where the padding of the previous one ends.\<close>

fun tiles :: "nat \<Rightarrow> valueRef list \<Rightarrow> nat \<Rightarrow> bool" where
  "tiles n [] m \<longleftrightarrow> n = m"
| "tiles n (r # refs) m \<longleftrightarrow>
     (if ref_size r = 0 then tiles n refs m
      else unat (offset r) = n \<and> tiles (align4 (n + unat (ref_size r))) refs m)"

lemma dataBufferEnds_loop_Cons:
  "dataBufferEnds_loop base dataStart i pe n (r # refs) =
     bind (map_err (AtReference i) (validateDataBuffer r base dataStart)) (\<lambda>_.
       if ref_size r = 0 then dataBufferEnds_loop base dataStart (i + 1) pe n refs
       else fail_if (unat (offset r) < n) (ReferenceOverlaps i)
          (fail_if (unat (offset r) > n) (ReferenceSparse i)
            (dataBufferEnds_loop base dataStart (i + 1) (unat (offset r) + unat (ref_size r))
               (align4 (unat (offset r) + unat (ref_size r))) refs)))"
  by (simp only: dataBufferEnds_loop.simps Let_def padded_end)

declare dataBufferEnds_loop.simps(2) [simp del]

lemma dataBufferEnds_loop_tiles:
  "dataBufferEnds_loop base dataStart i pe n refs = Ret (pe', n') \<Longrightarrow>
     tiles n refs n' \<and> list_all (\<lambda>r. validateDataBuffer r base dataStart = Ret ()) refs"
  by (induction refs arbitrary: i pe n) (auto simp: dataBufferEnds_loop_Cons split: if_splits)

lemma tiles_ge: "tiles n refs m \<Longrightarrow> n \<le> m"
proof (induction refs arbitrary: n)
  case (Cons r refs)
  show ?case
  proof (cases "ref_size r = 0")
    case False
    with Cons.prems have "tiles (align4 (n + unat (ref_size r))) refs m" by simp
    from Cons.IH [OF this] align4_facts(1) [of "n + unat (ref_size r)"] show ?thesis by linarith
  qed (use Cons in auto)
qed simp

lemma tiles_bounds:
  assumes "tiles n refs m" "r \<in> set refs" "ref_size r \<noteq> 0"
  shows "n \<le> unat (offset r) \<and> unat (offset r) + unat (ref_size r) \<le> m"
  using assms
proof (induction refs arbitrary: n)
  case (Cons s refs)
  show ?case
  proof (cases "ref_size s = 0")
    case False
    let ?e = "align4 (n + unat (ref_size s))"
    have e: "n + unat (ref_size s) \<le> ?e" by (rule align4_facts(1))
    from False Cons.prems have s: "unat (offset s) = n" "tiles ?e refs m" by simp_all
    show ?thesis
    proof (cases "r = s")
      case True
      with s e tiles_ge [OF s(2)] show ?thesis by simp
    next
      case False
      with Cons.IH [OF s(2)] Cons.prems e show ?thesis by auto
    qed
  qed (use Cons in auto)
qed simp

lemma tiles_ordered:
  assumes "tiles n refs m" "i < j" "j < length refs" "ref_size (refs ! i) \<noteq> 0" "ref_size (refs ! j) \<noteq> 0"
  shows "unat (offset (refs ! i)) + unat (ref_size (refs ! i)) \<le> unat (offset (refs ! j))"
  using assms
proof (induction refs arbitrary: n i j)
  case (Cons r refs)
  show ?case
  proof (cases i)
    case 0
    with Cons.prems have r: "unat (offset r) = n" "tiles (align4 (n + unat (ref_size r))) refs m" by simp_all
    have "refs ! (j - 1) \<in> set refs" "(r # refs) ! j = refs ! (j - 1)"
      using Cons.prems 0 by (auto simp: nth_Cons')
    with tiles_bounds [OF r(2), of "refs ! (j - 1)"] Cons.prems 0 r(1) align4_facts(1) [of "n + unat (ref_size r)"]
    show ?thesis by simp
  next
    case (Suc i')
    then obtain j' where "j = Suc j'" using Cons.prems by (cases j) auto
    with Cons Suc show ?thesis by (auto split: if_splits)
  qed
qed simp

lemma validateDataBufferRefs_tiles:
  assumes "validateDataBufferRefs base dataStart refs = Ret ()"
  shows "tiles (unat dataStart) refs (length base)"
    "\<And>r. r \<in> set refs \<Longrightarrow> validateDataBuffer r base dataStart = Ret ()"
proof -
  obtain pe n where e: "dataBufferEnds base dataStart refs = Ret (pe, n)" and "n = length base"
    using assms by (auto simp: validateDataBufferRefs_def split: prod.splits)
  then have "dataBufferEnds_loop base dataStart 0 (unat dataStart) (unat dataStart) refs = Ret (pe, length base)"
    by (simp add: dataBufferEnds_def)
  from dataBufferEnds_loop_tiles [OF this]
  show "tiles (unat dataStart) refs (length base)"
    "\<And>r. r \<in> set refs \<Longrightarrow> validateDataBuffer r base dataStart = Ret ()"
    by (auto simp: list_all_iff)
qed

section \<open>Round trip of reference tables\<close>

fun ref_table :: "nat \<Rightarrow> bytes list \<Rightarrow> valueRef list" where
  "ref_table off [] = []"
| "ref_table off (e # es) =
     (if e = [] then \<lparr>offset = 0, ref_size = 0\<rparr> else \<lparr>offset = of_nat off, ref_size = len32 e\<rparr>)
     # ref_table (off + length (pad4 e)) es"

definition entry_bytes :: "valueRef \<Rightarrow> bytes" where
  "entry_bytes r = put_le32 (offset r) @ put_le32 (ref_size r)"

lemma length_pad4 [simp]: "length (pad4 e) = align4 (length e)"
  using align4_facts(1) [of "length e"] by (simp add: pad4_def)

lemma pad4_Nil [simp]: "pad4 [] = []"
  by (simp add: pad4_def align4_def)

lemma pad4_append: "length xs mod 4 = 0 \<Longrightarrow> pad4 (xs @ e) = xs @ pad4 e"
  by (simp add: pad4_def align4_facts(4))

lemma length_entry_bytes [simp]: "length (entry_bytes r) = 8"
  by (simp add: entry_bytes_def)

lemma length_ref_table [simp]: "length (ref_table off es) = length es"
  by (induction es arbitrary: off) auto

lemma put_at_append: "length bs = length mid \<Longrightarrow> put_at (pre @ mid @ post) (length pre) bs = pre @ bs @ post"
  by (simp add: put_at_def)

lemma appendOffsetSize_loop_eq:
  assumes "length T mod 4 = 0" "length B mod 4 = 0"
  shows "appendOffsetSize_loop (length T) (T @ replicate (length es * 8) 0 @ B) es
     = T @ concat (map entry_bytes (ref_table (length T + length es * 8 + length B) es)) @ B @ concat (map pad4 es)"
  using assms
proof (induction es arbitrary: T B)
  case (Cons e es)
  let ?Z = "replicate (length es * 8) (0 :: byte)"
  let ?off = "length T + length (e # es) * 8 + length B"
  let ?r = "if e = [] then \<lparr>offset = 0, ref_size = 0\<rparr> else \<lparr>offset = of_nat ?off, ref_size = len32 e\<rparr>"
  let ?data = "T @ replicate (length (e # es) * 8) 0 @ B"
  have z: "?data = T @ replicate 4 0 @ replicate 4 0 @ ?Z @ B"
    by (simp add: append_assoc [symmetric] replicate_add [symmetric] del: append_assoc)
  have r0: "entry_bytes \<lparr>offset = 0, ref_size = 0\<rparr> = replicate 8 0"
    by (simp add: entry_bytes_def put_le32_def numeral_nat)
  have len: "len32 ?data = of_nat ?off" by simp
  let ?d1 = "if length e \<noteq> 0 then put_at (put_at ?data (length T) (put_le32 (len32 ?data))) (length T + 4) (put_le32 (len32 e)) else ?data"
  have put: "put_at (put_at ?data (length T) (put_le32 (len32 ?data))) (length T + 4) (put_le32 (len32 e))
      = T @ put_le32 (of_nat ?off) @ put_le32 (len32 e) @ ?Z @ B"
  proof -
    have "put_at ?data (length T) (put_le32 (len32 ?data)) = T @ put_le32 (of_nat ?off) @ replicate 4 0 @ ?Z @ B"
      unfolding len unfolding z by (rule put_at_append) simp
    moreover have "put_at ((T @ put_le32 (of_nat ?off)) @ replicate 4 0 @ ?Z @ B)
        (length (T @ put_le32 (of_nat ?off))) (put_le32 (len32 e))
        = (T @ put_le32 (of_nat ?off)) @ put_le32 (len32 e) @ ?Z @ B"
      by (rule put_at_append) simp
    ultimately show ?thesis by simp
  qed
  have "?data = T @ replicate 8 0 @ ?Z @ B"
    by (simp add: append_assoc [symmetric] replicate_add [symmetric] del: append_assoc)
  then have d1: "?d1 = (T @ entry_bytes ?r) @ ?Z @ B"
  proof (cases "e = []")
    case True
    then have "?d1 = ?data" "?r = \<lparr>offset = 0, ref_size = 0\<rparr>" by simp_all
    with r0 \<open>?data = T @ replicate 8 0 @ ?Z @ B\<close> show ?thesis by (simp only: append_assoc)
  next
    case False
    then have "?r = \<lparr>offset = of_nat ?off, ref_size = len32 e\<rparr>" "length e \<noteq> 0" by simp_all
    with put show ?thesis by (simp only: entry_bytes_def valueRef.simps append_assoc not_False_eq_True if_True)
  qed
  have "length ((T @ entry_bytes ?r) @ ?Z @ B) mod 4 = 0" using Cons.prems by (simp add: mod_simps) presburger
  from pad4_append [OF this, of e] d1
  have p: "pad4 (?d1 @ e) = (T @ entry_bytes ?r) @ ?Z @ (B @ pad4 e)" by simp
  have "length (T @ entry_bytes ?r) mod 4 = 0" "length (B @ pad4 e) mod 4 = 0"
    using Cons.prems align4_facts(2) [of "length e"] by (simp_all, presburger+)
  note ih = Cons.IH [OF this]
  have "appendOffsetSize_loop (length T) ?data (e # es) = appendOffsetSize_loop (length T + 8) (pad4 (?d1 @ e)) es"
    by (simp only: appendOffsetSize_loop.simps Let_def)
  also have "length T + 8 = length (T @ entry_bytes ?r)" by simp
  also note p
  also note ih
  finally show ?case by (simp add: algebra_simps)
qed simp

lemma appendOffsetSizeElements_eq:
  assumes "length header mod 4 = 0"
  shows "appendOffsetSizeElements header es
     = header @ concat (map entry_bytes (ref_table (length header + length es * 8) es)) @ concat (map pad4 es)"
  using appendOffsetSize_loop_eq [OF assms, of "[]" es] by (simp add: appendOffsetSizeElements_def)

lemma length_entries [simp]: "length (concat (map entry_bytes rs)) = length rs * 8"
  by (induction rs) auto

lemma drop_entries:
  "i < length rs \<Longrightarrow> drop (i * 8) (concat (map entry_bytes rs)) = entry_bytes (rs ! i) @ concat (map entry_bytes (drop (Suc i) rs))"
proof (induction rs arbitrary: i)
  case (Cons r rs)
  then show ?case by (cases i) auto
qed simp

lemma readOffsetSizeRef_entry:
  assumes "drop (unat k) data = entry_bytes r @ rest" "unat k + 8 \<le> length data" "length data < 2 ^ 32"
  shows "readOffsetSizeRef data k = Ret r"
proof -
  have len: "unat (len32 data) = length data" using assms(3) by (rule unat_len32)
  have k: "k \<le> len32 data" using assms(2) len by (simp add: word_le_nat_alt)
  then have "unat (len32 data - k) = length data - unat k" by (simp add: unat_sub len)
  then have "8 \<le> len32 data - k" using assms(2) by (simp add: word_le_nat_alt [of 8])
  with k have g: "\<not> (k > len32 data \<or> 8 > len32 data - k)" by auto
  have n: "data ! (unat k + j) = (entry_bytes r @ rest) ! j" if "j < 8" for j
    using that assms(1,2) by (metis add_leD1 nth_drop)
  have e: "entry_bytes r @ rest = ucast (offset r) # ucast (drop_bit 8 (offset r)) # ucast (drop_bit 16 (offset r))
      # ucast (drop_bit 24 (offset r)) # ucast (ref_size r) # ucast (drop_bit 8 (ref_size r))
      # ucast (drop_bit 16 (ref_size r)) # ucast (drop_bit 24 (ref_size r)) # rest"
    by (simp add: entry_bytes_def put_le32_def)
  note d = n [of 0, unfolded e, simplified] n [of 1, unfolded e, simplified] n [of 2, unfolded e, simplified]
    n [of 3, unfolded e, simplified] n [of 4, unfolded e, simplified] n [of 5, unfolded e, simplified]
    n [of 6, unfolded e, simplified] n [of 7, unfolded e, simplified]
  show ?thesis
    using readOffsetSizeRef_in [OF g] by (simp add: Let_def d join_le32_split)
qed

lemma validateDataBuffer_entry:
  assumes "0 < off" "off + length e \<le> length data" "length data < 2 ^ 32" "unat dataStart \<le> off" "off mod 4 = 0"
  shows "validateDataBuffer \<lparr>offset = of_nat off, ref_size = len32 e\<rparr> data dataStart = Ret ()"
    "ref_bytes \<lparr>offset = of_nat off, ref_size = len32 e\<rparr> data = Ret (take (length e) (drop off data))"
proof -
  have o: "unat (of_nat off :: u32) = off" "unat (len32 e) = length e" "unat (len32 data) = length data"
    using assms by (auto intro!: unat_of_nat_u32)
  have "(of_nat off :: u32) \<noteq> 0" using o(1) assms(1) by (metis less_irrefl unat_0)
  moreover have le: "(of_nat off :: u32) \<le> len32 data" using o assms(2) by (simp add: word_le_nat_alt)
  moreover have "len32 e \<le> len32 data - of_nat off"
    using o assms(2) le by (simp add: word_le_nat_alt [of "len32 e"] unat_sub)
  moreover have "\<not> (of_nat off :: u32) < dataStart" using o assms(4) by (simp add: word_less_nat_alt)
  ultimately show v: "validateDataBuffer \<lparr>offset = of_nat off, ref_size = len32 e\<rparr> data dataStart = Ret ()"
    using assms(5) o by (auto simp: validateDataBuffer_def ref_validate_def not_less)
  then have "ref_validate \<lparr>offset = of_nat off, ref_size = len32 e\<rparr> data = Ret ()"
    by (simp add: validateDataBuffer_def)
  from ref_validate_bytes(3) [OF this] o
  show "ref_bytes \<lparr>offset = of_nat off, ref_size = len32 e\<rparr> data = Ret (take (length e) (drop off data))" by simp
qed

lemma validateDataBuffer_empty [simp]:
  "validateDataBuffer \<lparr>offset = 0, ref_size = 0\<rparr> data dataStart = Ret ()"
  "ref_bytes \<lparr>offset = 0, ref_size = 0\<rparr> data = Ret []"
  by (simp_all add: validateDataBuffer_def ref_validate_def ref_bytes_def)

lemma ref_table_accepted:
  assumes "drop off data = concat (map pad4 es)" "0 < off" "off \<le> length data" "length data < 2 ^ 32"
    "unat dataStart \<le> off" "off mod 4 = 0"
  shows "\<exists>pe'. dataBufferEnds_loop data dataStart i pe off (ref_table off es) = Ret (pe', length data)"
    and "traverse (\<lambda>r. ref_bytes r data) (ref_table off es) = Ret es"
  using assms
proof (induction es arbitrary: off i pe)
  case Nil
  { case 1 then show ?case by auto
  next case 2 then show ?case by simp }
next
  case (Cons e es)
  have split: "pad4 e = e @ replicate (align4 (length e) - length e) 0" by (simp add: pad4_def)
  {
    case (1 off i pe)
    let ?off' = "off + length (pad4 e)"
    have d': "drop ?off' data = concat (map pad4 es)"
      using arg_cong [OF 1(1), of "drop (length (pad4 e))"] by (simp add: add.commute)
    have len: "length data = ?off' + length (concat (map pad4 es))"
      using arg_cong [OF 1(1), of length] 1(3) by simp
    then have ih: "?off' \<le> length data" "?off' mod 4 = 0" "unat dataStart \<le> ?off'" "0 < ?off'"
      using 1 align4_facts(5) [of off "length e"] by simp_all
    have le: "off + length e \<le> length data" using len align4_facts(1) [of "length e"] by simp
    show ?case
    proof (cases "e = []")
      case True
      with Cons(1) [OF d' ih(4,1) 1(4) ih(3,2)] show ?thesis by (simp add: dataBufferEnds_loop_Cons)
    next
      case False
      have o: "unat (of_nat off :: u32) = off" "unat (len32 e) = length e"
        using le 1(4) by (auto intro!: unat_of_nat_u32)
      then have "len32 e \<noteq> 0" using False by (metis length_0_conv unat_0)
      with False validateDataBuffer_entry(1) [OF 1(2) le 1(4,5,6)] o align4_facts(4) [OF 1(6), of "length e"]
        Cons(1) [OF d' ih(4,1) 1(4) ih(3,2)]
      show ?thesis by (simp add: dataBufferEnds_loop_Cons)
    qed
  next
    case (2 off)
    let ?off' = "off + length (pad4 e)"
    have d': "drop ?off' data = concat (map pad4 es)"
      using arg_cong [OF 2(1), of "drop (length (pad4 e))"] by (simp add: add.commute)
    have len: "length data = ?off' + length (concat (map pad4 es))"
      using arg_cong [OF 2(1), of length] 2(3) by simp
    then have ih: "?off' \<le> length data" "?off' mod 4 = 0" "unat dataStart \<le> ?off'" "0 < ?off'"
      using 2 align4_facts(5) [of off "length e"] by simp_all
    have le: "off + length e \<le> length data" using len align4_facts(1) [of "length e"] by simp
    have "take (length e) (drop off data) = e" using 2(1) split by simp
    with validateDataBuffer_entry(2) [OF 2(2) le 2(4,5,6)] Cons(2) [OF d' ih(4,1) 2(4) ih(3,2)]
    show ?case by (cases "e = []") simp_all
  }
qed

lemma offsetSizeRefs_append:
  assumes "length header mod 4 = 0" "length (appendOffsetSizeElements header es) < 2 ^ 32"
  shows "\<exists>refs. offsetSizeRefs (appendOffsetSizeElements header es) (len32 header) (of_nat (length es)) = Ret refs
     \<and> traverse (\<lambda>r. ref_bytes r (appendOffsetSizeElements header es)) refs = Ret es"
proof (cases "es = []")
  case True
  have "length header < 2 ^ 32" using assms True by (simp add: appendOffsetSizeElements_eq [OF assms(1)])
  then show ?thesis
    using True
    by (simp add: appendOffsetSizeElements_eq [OF assms(1)] offsetSizeRefs_def validateDataBufferRefs_def
        dataBufferEnds_def unat_len32)
next
  case False
  let ?data = "appendOffsetSizeElements header es" and ?off = "length header + length es * 8"
  let ?refs = "ref_table ?off es"
  have data: "?data = header @ concat (map entry_bytes ?refs) @ concat (map pad4 es)"
    by (rule appendOffsetSizeElements_eq [OF assms(1)])
  then have dl: "length ?data = ?off + length (concat (map pad4 es))" by simp
  have h: "unat (len32 header) = length header" "unat (of_nat (length es) :: u32) = length es"
    using assms(2) dl by (auto intro!: unat_of_nat_u32)
  have lh: "len32 header \<le> len32 ?data" using h dl unat_len32 [OF assms(2)] by (simp add: word_le_nat_alt)
  then have sub: "unat (len32 ?data - len32 header) = length ?data - length header"
    using unat_len32 [OF assms(2)] h by (simp add: unat_sub)
  have cnt: "\<not> of_nat (length es) > (len32 ?data - len32 header) div 8"
    using sub h dl by (simp add: not_less word_le_nat_alt unat_div)
  have read: "readOffsetSizeRef ?data (len32 header + of_nat i * 8) = Ret (?refs ! i)" if i: "i < length es" for i
  proof (rule readOffsetSizeRef_entry)
    have k: "unat (len32 header + of_nat i * 8) = length header + i * 8"
      using i assms(2) dl h unat_of_nat_u32 [of "length header + i * 8"] by (simp add: mult.commute)
    show "drop (unat (len32 header + of_nat i * 8)) ?data
        = entry_bytes (?refs ! i) @ concat (map entry_bytes (drop (Suc i) ?refs)) @ concat (map pad4 es)"
      using i drop_entries [of i ?refs] unfolding k data by simp
    show "unat (len32 header + of_nat i * 8) + 8 \<le> length ?data" using i dl unfolding k by simp
  qed (rule assms(2))
  have tr: "traverse (\<lambda>i. map_err (AtReference i) (readOffsetSizeRef ?data (len32 header + of_nat i * 8)))
      [0..<unat (of_nat (length es) :: u32)] = Ret ?refs"
    by (simp add: traverse_eq_Ret_iff h read)
  have "(of_nat ?off :: u32) = len32 header + of_nat (length es) * 8" by simp
  then have start: "unat (len32 header + of_nat (length es) * 8 :: u32) = ?off"
    using dl assms(2) unat_of_nat_u32 [of ?off] by simp
  have "drop ?off ?data = concat (map pad4 es)" "0 < ?off" "?off mod 4 = 0" "?off \<le> length ?data"
    using data dl False assms(1) by (simp_all, presburger)
  note acc = ref_table_accepted [OF this(1,2,4) assms(2) _ this(3)]
  from acc(1) [of "len32 header + of_nat (length es) * 8" 0 ?off] acc(2) [of 0] show ?thesis
    using lh cnt tr start dl
    by (auto simp: offsetSizeRefs_def validateDataBufferRefs_def dataBufferEnds_def not_less)
qed

text \<open>A table of offset/size references written by \<open>appendOffsetSizeElements\<close> after an aligned
  header is accepted by \<open>offsetSizeRefs\<close>, and its references give back exactly the elements, in
  order, the empty ones included, for every payload below 4 GiB.\<close>

theorem offsetSizeRefs_roundtrip:
  assumes "length header mod 4 = 0" "length (appendOffsetSizeElements header es) < 2 ^ 32"
  shows "\<exists>refs. offsetSizeRefs (appendOffsetSizeElements header es) (len32 header) (of_nat (length es)) = Ret refs
     \<and> traverse (\<lambda>r. ref_bytes r (appendOffsetSizeElements header es)) refs = Ret es"
  using assms by (rule offsetSizeRefs_append)

theorem offsetSizeRefs_roundtrip_witness:
  "\<exists>refs. offsetSizeRefs (appendOffsetSizeElements [1, 0, 0, 0] [[7, 8, 9], [], [5]]) 4 3 = Ret refs
     \<and> traverse (\<lambda>r. ref_bytes r (appendOffsetSizeElements [1, 0, 0, 0] [[7, 8, 9], [], [5]])) refs
         = Ret [[7, 8, 9], [], [5]]"
  using offsetSizeRefs_roundtrip [of "[1, 0, 0, 0]" "[[7, 8, 9], [], [5]]"]
  by (simp add: appendOffsetSizeElements_eq align4_def)

text \<open>An accepted reference table is safe to use: the decoder never panics on any payload, and
  when it accepts, it returns the declared number of references, reading each of them cannot
  panic and yields exactly the declared size, every nonempty value lies between the table and
  the end of the payload, and nonempty values are in order and do not overlap.\<close>

theorem offsetSizeRefs_sound:
  "offsetSizeRefs data tableOffset count \<noteq> Panic
   \<and> (offsetSizeRefs data tableOffset count = Ret refs \<longrightarrow>
        length refs = unat count
        \<and> (\<forall>r. r \<in> set refs \<longrightarrow> (\<exists>v. ref_bytes r data = Ret v \<and> length v = unat (ref_size r)))
        \<and> (\<forall>r. r \<in> set refs \<and> ref_size r \<noteq> 0 \<longrightarrow>
             unat tableOffset + unat count * 8 \<le> unat (offset r)
             \<and> unat (offset r) + unat (ref_size r) \<le> length data)
        \<and> (\<forall>i j. i < j \<and> j < length refs \<and> ref_size (refs ! i) \<noteq> 0 \<and> ref_size (refs ! j) \<noteq> 0 \<longrightarrow>
             unat (offset (refs ! i)) + unat (ref_size (refs ! i)) \<le> unat (offset (refs ! j))))"
proof (rule conjI [OF offsetSizeRefs_no_panic], rule impI)
  assume a: "offsetSizeRefs data tableOffset count = Ret refs"
  let ?start = "tableOffset + count * 8"
  from a have guard: "tableOffset \<le> len32 data" "count \<le> (len32 data - tableOffset) div 8"
    and len: "length refs = unat count" and v: "validateDataBufferRefs data ?start refs = Ret ()"
    by (auto simp: offsetSizeRefs_def traverse_eq_Ret_iff not_less)
  note t = validateDataBufferRefs_tiles [OF v]
  have "unat count \<le> unat (len32 data - tableOffset) div 8" using guard(2) by (simp add: word_le_nat_alt unat_div)
  then have c8: "unat count * 8 \<le> unat (len32 data - tableOffset)" by linarith
  have "unat (len32 data - tableOffset) < 2 ^ 32" using unat_u32_lt by simp
  then have "unat count * 8 < 2 ^ 32" by (rule le_less_trans [OF c8])
  then have m: "unat (count * 8) = unat count * 8" by (simp add: unat_word_ariths)
  have "\<not> (tableOffset > len32 data \<or> count * 8 > len32 data - tableOffset)"
    using guard(1) c8 m by (auto simp: word_less_nat_alt [of "len32 data - tableOffset"])
  from in_range(1) [OF this] m have start: "unat ?start = unat tableOffset + unat count * 8" by simp
  have "\<exists>w. ref_bytes r data = Ret w \<and> length w = unat (ref_size r)" if "r \<in> set refs" for r
  proof -
    have "ref_validate r data = Ret ()" using t(2) [OF that] by (simp add: validateDataBuffer_def)
    from ref_validate_bytes [OF this] show ?thesis by auto
  qed
  with len start tiles_bounds [OF t(1)] tiles_ordered [OF t(1)] show
    "length refs = unat count
        \<and> (\<forall>r. r \<in> set refs \<longrightarrow> (\<exists>v. ref_bytes r data = Ret v \<and> length v = unat (ref_size r)))
        \<and> (\<forall>r. r \<in> set refs \<and> ref_size r \<noteq> 0 \<longrightarrow>
             unat tableOffset + unat count * 8 \<le> unat (offset r)
             \<and> unat (offset r) + unat (ref_size r) \<le> length data)
        \<and> (\<forall>i j. i < j \<and> j < length refs \<and> ref_size (refs ! i) \<noteq> 0 \<and> ref_size (refs ! j) \<noteq> 0 \<longrightarrow>
             unat (offset (refs ! i)) + unat (ref_size (refs ! i)) \<le> unat (offset (refs ! j)))"
    by (auto simp: start)
qed

theorem offsetSizeRefs_sound_witness:
  "\<exists>refs. offsetSizeRefs (appendOffsetSizeElements [1, 0, 0, 0] [[7, 8, 9]]) 4 1 = Ret refs \<and> length refs = 1"
proof -
  have "\<exists>refs. offsetSizeRefs (appendOffsetSizeElements [1, 0, 0, 0] [[7, 8, 9]]) 4 1 = Ret refs"
    using offsetSizeRefs_append [of "[1, 0, 0, 0]" "[[7, 8, 9]]"]
    by (auto simp: appendOffsetSizeElements_eq align4_def)
  then show ?thesis
    using offsetSizeRefs_sound [of "appendOffsetSizeElements [1, 0, 0, 0] [[7, 8, 9]]" 4 1] by auto
qed

section \<open>Strings\<close>

lemma utf16RawUnits_bytes: "utf16RawUnits (concat (map put_le16 us)) = us"
  by (induction us) (simp_all add: put_le16_def)

lemma length_put_units [simp]: "length (concat (map put_le16 us)) = 2 * length us"
  by (induction us) simp_all

lemma utf16RawString_Bytes: "list_all valid_rune s \<Longrightarrow> utf16RawString (utf16Bytes s) = Ret s"
  by (simp add: utf16RawString_def utf16Bytes_def utf16RawUnits_bytes utf16_roundtrip)

lemma utf16String_no_panic: "utf16String data r \<noteq> Panic"
proof -
  have "subslice data (unat (offset r)) (unat (offset r + ref_size r)) \<noteq> Panic" if "ref_validate r data = Ret ()"
    using ref_validate_bytes(1,2) [OF that] by (simp add: subslice_def)
  then show ?thesis by (auto simp: utf16String_def utf16RawString_def bind_eq_Panic_iff)
qed

text \<open>MBIM strings: every text of Unicode scalar values (surrogate pairs included) survives being
  encoded as UTF-16LE, stored at an aligned place of a payload and read back through its
  reference; and reading a string through any reference never panics.\<close>

theorem utf16String_roundtrip:
  assumes "list_all valid_rune s" "data = pre @ utf16Bytes s @ post" "0 < length pre" "length data < 2 ^ 32"
  shows "utf16String data \<lparr>offset = len32 pre, ref_size = len32 (utf16Bytes s)\<rparr> = Ret s
    \<and> utf16String any r \<noteq> Panic"
proof -
  have o: "unat (len32 pre) = length pre" "unat (len32 (utf16Bytes s)) = length (utf16Bytes s)"
    "unat (len32 data) = length data"
    using assms(2,4) unat_len32 [OF assms(4)] by (auto intro!: unat_of_nat_u32 simp del: of_nat_add)
  have fits: "length pre + length (utf16Bytes s) \<le> length data" using assms(2) by simp
  have "len32 pre \<noteq> 0" using o(1) assms(3) by (metis less_irrefl unat_0)
  moreover have le: "len32 pre \<le> len32 data" using o fits by (simp add: word_le_nat_alt)
  moreover have "len32 (utf16Bytes s) \<le> len32 data - len32 pre"
    using fits by (simp add: word_le_nat_alt [of "len32 (utf16Bytes s)"] unat_sub [OF le] o)
  ultimately have v: "ref_validate \<lparr>offset = len32 pre, ref_size = len32 (utf16Bytes s)\<rparr> data = Ret ()"
    by (auto simp: ref_validate_def not_less)
  have "subslice data (length pre) (length pre + length (utf16Bytes s)) = Ret (utf16Bytes s)"
    by (simp add: subslice_def assms(2))
  moreover have "s = []" if "len32 (utf16Bytes s) = 0"
  proof -
    have "utf16Bytes s = []" using that o(2) by (metis length_0_conv unat_0)
    then have "utf16RawString [] = Ret s" using utf16RawString_Bytes [OF assms(1)] by simp
    then show ?thesis by (simp add: utf16RawString_def)
  qed
  ultimately show ?thesis
    using v ref_validate_bytes(1) [OF v] o utf16RawString_Bytes [OF assms(1)] utf16String_no_panic
    by (auto simp: utf16String_def)
qed

theorem utf16String_roundtrip_witness:
  "utf16String [0, 0, 0, 0, 0x3D, 0xD8, 0, 0xDE] \<lparr>offset = 4, ref_size = 4\<rparr> = Ret [0x1F600]"
proof -
  have "list_all valid_rune [0x1F600]" "utf16Bytes [0x1F600] = [0x3D, 0xD8, 0, 0xDE]"
    by (simp_all add: valid_rune_def utf16Bytes_def utf16_encode_def utf16_encode_rune_def put_le16_def)
  with utf16String_roundtrip [of "[0x1F600]" _ "[0, 0, 0, 0]" "[]"] show ?thesis by simp
qed

end
