(* ===== verification/Mbim_Protocol.thy ===== *)
theory Mbim_Protocol
  imports Mbim_Wire
begin

text \<open>
  MBIM messages (\<^verbatim>\<open>mbim/protocol.go\<close>): the command and request encoders, the frame reader, the decoders
  of command responses and indications, and what a failed status still carries. Decoders read
  with checked slices, so their panic freedom is a theorem.
\<close>

section \<open>Messages\<close>

type_synonym MessageType = u32
type_synonym Status = u32

definition MessageTypeOpen :: MessageType where "MessageTypeOpen = 0x00000001"
definition MessageTypeClose :: MessageType where "MessageTypeClose = 0x00000002"
definition MessageTypeCommand :: MessageType where "MessageTypeCommand = 0x00000003"
definition MessageTypeHostError :: MessageType where "MessageTypeHostError = 0x00000004"
definition MessageTypeOpenDone :: MessageType where "MessageTypeOpenDone = 0x80000001"
definition MessageTypeCloseDone :: MessageType where "MessageTypeCloseDone = 0x80000002"
definition MessageTypeCommandDone :: MessageType where "MessageTypeCommandDone = 0x80000003"
definition MessageTypeFunctionError :: MessageType where "MessageTypeFunctionError = 0x80000004"
definition MessageTypeIndicateStatus :: MessageType where "MessageTypeIndicateStatus = 0x80000007"

lemmas message_type_defs =
  MessageTypeOpen_def MessageTypeClose_def MessageTypeCommand_def MessageTypeHostError_def
  MessageTypeOpenDone_def MessageTypeCloseDone_def MessageTypeCommandDone_def
  MessageTypeFunctionError_def MessageTypeIndicateStatus_def

definition StatusNone :: Status where "StatusNone = 0"
definition StatusAuthSyncFailure :: Status where "StatusAuthSyncFailure = 36"
definition StatusMatchingPDUSessionFound :: Status where "StatusMatchingPDUSessionFound = 200"

record Command =
  cmd_FragmentTotal :: u32
  cmd_FragmentCurrent :: u32
  cmd_ServiceID :: bytes
  cmd_CommandID :: u32
  cmd_CommandType :: u32
  cmd_Data :: bytes
  cmd_marshalErr :: "string option"

text \<open>The command of a request: a \<open>Command\<close>, or the encoding of one of the other bodies.\<close>

datatype request_command = CommandBody Command | OtherBody bytes

record Request =
  rq_MessageType :: MessageType
  rq_TransactionID :: u32
  rq_Command :: request_command

record CommandResponse =
  cr_MessageType :: MessageType
  cr_MessageLength :: u32
  cr_TransactionID :: u32
  cr_FragmentTotal :: u32
  cr_FragmentCurrent :: u32
  cr_ServiceID :: bytes
  cr_CommandID :: u32
  cr_Status :: Status
  cr_ResponseLength :: u32
  cr_ResponseBuffer :: bytes

record Indication =
  in_MessageType :: MessageType
  in_MessageLength :: u32
  in_TransactionID :: u32
  in_FragmentTotal :: u32
  in_FragmentCurrent :: u32
  in_ServiceID :: bytes
  in_CommandID :: u32
  in_InformationLength :: u32
  in_InformationBuffer :: bytes

record commandDoneHeader =
  cdh_ServiceID :: bytes
  cdh_CommandID :: u32
  cdh_Status :: Status

datatype mbim_error =
    TooShort nat
  | UnexpectedMessageType MessageType
  | HeaderLengthMismatch u32 nat
  | BadStatusLength nat
  | UnsupportedFragment u32 u32
  | BodyLengthMismatch u32 nat
  | NonzeroTransaction u32
  | StatusError Status
  | ProtocolErr u32
  | DecodeError
  | CommandError string
  | FrameTooShort u32
  | FrameTooLong u32
  | FrameIO io_error

section \<open>Encoders\<close>

definition command_MarshalBinary :: "Command \<Rightarrow> (mbim_error, bytes) outcome" where
  "command_MarshalBinary c =
     (case cmd_marshalErr c of Some e \<Rightarrow> Fail (CommandError e) | None \<Rightarrow>
        let paddedDataLength = align4 (length (cmd_Data c)) in
        Ret (put_le32 (cmd_FragmentTotal c) @ put_le32 (cmd_FragmentCurrent c) @ cmd_ServiceID c
             @ put_le32 (cmd_CommandID c) @ put_le32 (cmd_CommandType c)
             @ put_le32 (of_nat paddedDataLength) @ cmd_Data c
             @ replicate (paddedDataLength - length (cmd_Data c)) 0))"

definition request_body :: "request_command \<Rightarrow> (mbim_error, bytes) outcome" where
  "request_body b = (case b of CommandBody c \<Rightarrow> command_MarshalBinary c | OtherBody bs \<Rightarrow> Ret bs)"

definition request_MarshalBinary :: "Request \<Rightarrow> (mbim_error, bytes) outcome" where
  "request_MarshalBinary r =
     bind (request_body (rq_Command r)) (\<lambda>command.
       Ret (put_le32 (rq_MessageType r) @ put_le32 (of_nat (12 + length command))
            @ put_le32 (rq_TransactionID r) @ command))"

definition expectedCommand :: "Request \<Rightarrow> (bytes \<times> u32) option" where
  "expectedCommand r =
     (case rq_Command r of
        CommandBody c \<Rightarrow> if rq_MessageType r \<noteq> MessageTypeCommand then None
                         else Some (cmd_ServiceID c, cmd_CommandID c)
      | OtherBody bs \<Rightarrow> None)"

definition responseMessageType :: "MessageType \<Rightarrow> MessageType option" where
  "responseMessageType t =
     (if t = MessageTypeOpen then Some MessageTypeOpenDone
      else if t = MessageTypeClose then Some MessageTypeCloseDone
      else if t = MessageTypeCommand then Some MessageTypeCommandDone
      else None)"

section \<open>Frames\<close>

definition maxFrameLength :: nat where "maxFrameLength = 2 * 1024 * 1024"

definition readFrame :: "bytes \<Rightarrow> (mbim_error, bytes) outcome \<times> bytes" where
  "readFrame s =
     (case read_full 12 s of
        (header, s1, Some e) \<Rightarrow> (Fail (FrameIO e), s1)
      | (header, s1, None) \<Rightarrow>
          let len = rd32 header 4 in
          if unat len < 12 then (Fail (FrameTooShort len), s1)
          else if unat len > maxFrameLength then (Fail (FrameTooLong len), s1)
          else (case read_full (unat len - 12) s1 of
                  (body, s2, Some e) \<Rightarrow> (Fail (FrameIO e), s2)
                | (body, s2, None) \<Rightarrow> (Ret (header @ body), s2)))"

section \<open>Decoders\<close>

definition commandDoneHeader_UnmarshalBinary :: "bytes \<Rightarrow> (mbim_error, commandDoneHeader) outcome" where
  "commandDoneHeader_UnmarshalBinary data =
     fail_if (length data < 48) (TooShort (length data))
       (bind (u32_at data 0) (\<lambda>mt. fail_if (mt \<noteq> MessageTypeCommandDone) (UnexpectedMessageType mt)
       (bind (u32_at data 4) (\<lambda>ml. fail_if (ml \<noteq> len32 data) (HeaderLengthMismatch ml (length data))
       (bind (subslice data 20 36) (\<lambda>svc. bind (u32_at data 36) (\<lambda>cid. bind (u32_at data 40) (\<lambda>st.
         Ret \<lparr>cdh_ServiceID = svc, cdh_CommandID = cid, cdh_Status = st\<rparr>))))))))"

text \<open>
  The response decoders fill the receiver before they report an error, and callers use the filled
  fields; they return the receiver together with the error. \<open>rsp\<close> is the attached response
  decoder, if any.
\<close>

type_synonym response_decoder = "(bytes \<Rightarrow> (mbim_error, unit) outcome) option"

definition finish :: "response_decoder \<Rightarrow> bytes \<Rightarrow> CommandResponse \<Rightarrow> (mbim_error, CommandResponse \<times> mbim_error option) outcome" where
  "finish rsp buf r =
     (if cr_Status r \<noteq> StatusNone then Ret (r, Some (StatusError (cr_Status r)))
      else case rsp of
        None \<Rightarrow> Ret (r, None)
      | Some decode \<Rightarrow>
          (case decode buf of Ret _ \<Rightarrow> Ret (r, None) | Fail e \<Rightarrow> Ret (r, Some e) | Panic \<Rightarrow> Panic))"

definition unmarshalStatusDone ::
  "response_decoder \<Rightarrow> bytes \<Rightarrow> CommandResponse \<Rightarrow> (mbim_error, CommandResponse \<times> mbim_error option) outcome" where
  "unmarshalStatusDone rsp data r =
     (if length data \<noteq> 16 then Ret (r, Some (BadStatusLength (length data)))
      else bind (u32_at data 12) (\<lambda>st. finish rsp [] (r\<lparr>cr_Status := st\<rparr>)))"

definition unmarshalCommandDone ::
  "response_decoder \<Rightarrow> bytes \<Rightarrow> CommandResponse \<Rightarrow> (mbim_error, CommandResponse \<times> mbim_error option) outcome" where
  "unmarshalCommandDone rsp data r =
     (if length data < 48 then Ret (r, Some (TooShort (length data)))
      else bind (u32_at data 12) (\<lambda>ft. bind (u32_at data 16) (\<lambda>fc. bind (subslice data 20 36) (\<lambda>svc.
           bind (u32_at data 36) (\<lambda>cid. bind (u32_at data 40) (\<lambda>st.
             let r1 = r\<lparr>cr_FragmentTotal := ft, cr_FragmentCurrent := fc, cr_ServiceID := svc,
                        cr_CommandID := cid, cr_Status := st\<rparr> in
             if ft \<noteq> 1 \<or> fc \<noteq> 0 then Ret (r1, Some (UnsupportedFragment fc ft))
             else bind (u32_at data 44) (\<lambda>rl.
               let r2 = r1\<lparr>cr_ResponseLength := rl\<rparr> in
               if unat rl \<noteq> length data - 48 then Ret (r2, Some (BodyLengthMismatch rl (length data - 48)))
               else bind (subslice data 48 (unat (48 + rl))) (\<lambda>buf.
                 finish rsp buf (r2\<lparr>cr_ResponseBuffer := buf\<rparr>)))))))))"

definition unmarshalFunctionError ::
  "bytes \<Rightarrow> CommandResponse \<Rightarrow> (mbim_error, CommandResponse \<times> mbim_error option) outcome" where
  "unmarshalFunctionError data r =
     (if length data \<noteq> 16 then Ret (r, Some (BadStatusLength (length data)))
      else bind (u32_at data 12) (\<lambda>e. Ret (r, Some (ProtocolErr e))))"

definition zeroResponse :: CommandResponse where
  "zeroResponse =
     \<lparr>cr_MessageType = 0, cr_MessageLength = 0, cr_TransactionID = 0, cr_FragmentTotal = 0,
      cr_FragmentCurrent = 0, cr_ServiceID = replicate 16 0, cr_CommandID = 0, cr_Status = 0,
      cr_ResponseLength = 0, cr_ResponseBuffer = []\<rparr>"

definition response_UnmarshalBinary ::
  "response_decoder \<Rightarrow> bytes \<Rightarrow> (mbim_error, CommandResponse \<times> mbim_error option) outcome" where
  "response_UnmarshalBinary rsp data =
     (if length data < 12 then Ret (zeroResponse, Some (TooShort (length data)))
      else bind (u32_at data 0) (\<lambda>mt. bind (u32_at data 4) (\<lambda>ml. bind (u32_at data 8) (\<lambda>tid.
        let r = zeroResponse\<lparr>cr_MessageType := mt, cr_MessageLength := ml, cr_TransactionID := tid\<rparr> in
        if ml \<noteq> len32 data then Ret (r, Some (HeaderLengthMismatch ml (length data)))
        else if mt = MessageTypeOpenDone \<or> mt = MessageTypeCloseDone then unmarshalStatusDone rsp data r
        else if mt = MessageTypeCommandDone then unmarshalCommandDone rsp data r
        else if mt = MessageTypeFunctionError then unmarshalFunctionError data r
        else Ret (r, Some (UnexpectedMessageType mt))))))"

definition indication_UnmarshalBinary :: "bytes \<Rightarrow> (mbim_error, Indication) outcome" where
  "indication_UnmarshalBinary data =
     fail_if (length data < 44) (TooShort (length data))
      (bind (u32_at data 0) (\<lambda>mt. fail_if (mt \<noteq> MessageTypeIndicateStatus) (UnexpectedMessageType mt)
      (bind (u32_at data 4) (\<lambda>ml. bind (u32_at data 8) (\<lambda>tid.
       fail_if (ml \<noteq> len32 data) (HeaderLengthMismatch ml (length data))
      (fail_if (tid \<noteq> 0) (NonzeroTransaction tid)
      (bind (u32_at data 12) (\<lambda>ft. bind (u32_at data 16) (\<lambda>fc.
       fail_if (ft \<noteq> 1 \<or> fc \<noteq> 0) (UnsupportedFragment fc ft)
      (bind (subslice data 20 36) (\<lambda>svc. bind (u32_at data 36) (\<lambda>cid. bind (u32_at data 40) (\<lambda>il.
       fail_if (unat il \<noteq> length data - 44) (BodyLengthMismatch il (length data - 44))
      (bind (subslice data 44 (unat (44 + il))) (\<lambda>buf.
       Ret \<lparr>in_MessageType = mt, in_MessageLength = ml, in_TransactionID = tid, in_FragmentTotal = ft,
            in_FragmentCurrent = fc, in_ServiceID = svc, in_CommandID = cid,
            in_InformationLength = il, in_InformationBuffer = buf\<rparr>)))))))))))))))"

section \<open>Status responses\<close>

definition ServiceBasicConnect :: bytes where
  "ServiceBasicConnect =
     [0xA2, 0x89, 0xCC, 0x33, 0xBC, 0xBB, 0x8B, 0x4F, 0xB6, 0xB0, 0x13, 0x3E, 0xC2, 0xAA, 0xE6, 0xDF]"

definition statusCarriesResponse :: "Request \<Rightarrow> Status \<Rightarrow> bytes \<Rightarrow> bool" where
  "statusCarriesResponse r st data =
     (if st = StatusAuthSyncFailure \<or> st = StatusMatchingPDUSessionFound then True
      else if length data = 0 then False
      else case rq_Command r of
        OtherBody bs \<Rightarrow> False
      | CommandBody c \<Rightarrow>
          if cmd_ServiceID c \<noteq> ServiceBasicConnect then False
          else cmd_CommandID c \<in> {0x00000004, 0x00000009, 0x0000000A, 0x0000000C, 0x0000000E})"

section \<open>Reference layouts\<close>

definition indication_layout :: "Indication \<Rightarrow> bytes" where
  "indication_layout i =
     put_le32 (in_MessageType i) @ put_le32 (in_MessageLength i) @ put_le32 (in_TransactionID i)
     @ put_le32 (in_FragmentTotal i) @ put_le32 (in_FragmentCurrent i) @ in_ServiceID i
     @ put_le32 (in_CommandID i) @ put_le32 (in_InformationLength i) @ in_InformationBuffer i"

definition indication_wf :: "Indication \<Rightarrow> bool" where
  "indication_wf i \<longleftrightarrow>
     in_MessageType i = MessageTypeIndicateStatus
     \<and> in_MessageLength i = of_nat (44 + length (in_InformationBuffer i))
     \<and> in_TransactionID i = 0 \<and> in_FragmentTotal i = 1 \<and> in_FragmentCurrent i = 0
     \<and> length (in_ServiceID i) = 16 \<and> unat (in_InformationLength i) = length (in_InformationBuffer i)"

definition commandDone_layout :: "CommandResponse \<Rightarrow> bytes" where
  "commandDone_layout r =
     put_le32 (cr_MessageType r) @ put_le32 (cr_MessageLength r) @ put_le32 (cr_TransactionID r)
     @ put_le32 (cr_FragmentTotal r) @ put_le32 (cr_FragmentCurrent r) @ cr_ServiceID r
     @ put_le32 (cr_CommandID r) @ put_le32 (cr_Status r) @ put_le32 (cr_ResponseLength r)
     @ cr_ResponseBuffer r"

definition commandDone_wf :: "CommandResponse \<Rightarrow> bool" where
  "commandDone_wf r \<longleftrightarrow>
     cr_MessageType r = MessageTypeCommandDone
     \<and> cr_MessageLength r = of_nat (48 + length (cr_ResponseBuffer r))
     \<and> cr_FragmentTotal r = 1 \<and> cr_FragmentCurrent r = 0
     \<and> length (cr_ServiceID r) = 16 \<and> unat (cr_ResponseLength r) = length (cr_ResponseBuffer r)"

section \<open>Lemmas\<close>

lemma drop_svc: "36 \<le> length data \<Longrightarrow> drop 20 data = take 16 (drop 20 data) @ drop 36 data"
  using append_take_drop_id [of 16 "drop 20 data"] by simp

lemma rd32_fields:
  assumes "length svc = 16"
  shows "rd32 (put_le32 a @ put_le32 b @ put_le32 c @ put_le32 d @ put_le32 e @ svc @ put_le32 f @ put_le32 g @ rest) 0 = a"
    "rd32 (put_le32 a @ put_le32 b @ put_le32 c @ put_le32 d @ put_le32 e @ svc @ put_le32 f @ put_le32 g @ rest) 4 = b"
    "rd32 (put_le32 a @ put_le32 b @ put_le32 c @ put_le32 d @ put_le32 e @ svc @ put_le32 f @ put_le32 g @ rest) 8 = c"
    "rd32 (put_le32 a @ put_le32 b @ put_le32 c @ put_le32 d @ put_le32 e @ svc @ put_le32 f @ put_le32 g @ rest) 12 = d"
    "rd32 (put_le32 a @ put_le32 b @ put_le32 c @ put_le32 d @ put_le32 e @ svc @ put_le32 f @ put_le32 g @ rest) 16 = e"
    "rd32 (put_le32 a @ put_le32 b @ put_le32 c @ put_le32 d @ put_le32 e @ svc @ put_le32 f @ put_le32 g @ rest) 36 = f"
    "rd32 (put_le32 a @ put_le32 b @ put_le32 c @ put_le32 d @ put_le32 e @ svc @ put_le32 f @ put_le32 g @ rest) 40 = g"
  using assms by (simp_all add: codec_simps)

text \<open>The common 44-byte head of command responses and indications.\<close>

lemma split_head:
  assumes "44 \<le> length data"
  shows "data = put_le32 (rd32 data 0) @ put_le32 (rd32 data 4) @ put_le32 (rd32 data 8) @ put_le32 (rd32 data 12)
     @ put_le32 (rd32 data 16) @ take 16 (drop 20 data) @ put_le32 (rd32 data 36) @ put_le32 (rd32 data 40)
     @ drop 44 data"
proof -
  have "drop 0 data = put_le32 (rd32 data 0) @ drop 4 data" "drop 4 data = put_le32 (rd32 data 4) @ drop 8 data"
    "drop 8 data = put_le32 (rd32 data 8) @ drop 12 data" "drop 12 data = put_le32 (rd32 data 12) @ drop 16 data"
    "drop 16 data = put_le32 (rd32 data 16) @ drop 20 data" "drop 36 data = put_le32 (rd32 data 36) @ drop 40 data"
    "drop 40 data = put_le32 (rd32 data 40) @ drop 44 data"
    using assms drop_rd32 [of 0 data] drop_rd32 [of 4 data] drop_rd32 [of 8 data] drop_rd32 [of 12 data]
      drop_rd32 [of 16 data] drop_rd32 [of 36 data] drop_rd32 [of 40 data] by simp_all
  moreover have "drop 20 data = take 16 (drop 20 data) @ drop 36 data" using assms by (intro drop_svc) simp
  ultimately show ?thesis by simp
qed

lemma svc_subslice:
  "36 \<le> length data \<Longrightarrow> subslice data 20 36 = Ret (take 16 (drop 20 data))"
  by (simp add: subslice_def)

text \<open>The sum of a header length and a 32-bit body length, computed at 32 bits, wraps only beyond 4 GiB.\<close>

lemma body_end:
  assumes "unat (w :: u32) = n - k" "k \<le> n" "n < 2 ^ 32"
  shows "unat (of_nat k + w) = n"
  using assms by (simp add: unat_word_ariths unat_of_nat take_bit_nat_eq_self_iff)

lemmas body_end_44 = body_end [where k = 44, simplified] and body_end_48 = body_end [where k = 48, simplified]

lemma indication_UnmarshalBinary_eq:
  assumes "44 \<le> length data" "length data < 2 ^ 32"
  shows "indication_UnmarshalBinary data =
     fail_if (rd32 data 0 \<noteq> MessageTypeIndicateStatus) (UnexpectedMessageType (rd32 data 0))
      (fail_if (rd32 data 4 \<noteq> len32 data) (HeaderLengthMismatch (rd32 data 4) (length data))
      (fail_if (rd32 data 8 \<noteq> 0) (NonzeroTransaction (rd32 data 8))
      (fail_if (rd32 data 12 \<noteq> 1 \<or> rd32 data 16 \<noteq> 0) (UnsupportedFragment (rd32 data 16) (rd32 data 12))
      (fail_if (unat (rd32 data 40) \<noteq> length data - 44) (BodyLengthMismatch (rd32 data 40) (length data - 44))
      (Ret \<lparr>in_MessageType = rd32 data 0, in_MessageLength = rd32 data 4, in_TransactionID = rd32 data 8,
            in_FragmentTotal = rd32 data 12, in_FragmentCurrent = rd32 data 16,
            in_ServiceID = take 16 (drop 20 data), in_CommandID = rd32 data 36,
            in_InformationLength = rd32 data 40, in_InformationBuffer = drop 44 data\<rparr>)))))"
  using assms body_end_44 [of "rd32 data 40" "length data"]
  by (simp add: indication_UnmarshalBinary_def u32_at_in svc_subslice fail_if_def subslice_def)

lemma indication_UnmarshalBinary_no_panic: "length data < 2 ^ 32 \<Longrightarrow> indication_UnmarshalBinary data \<noteq> Panic"
  by (cases "length data < 44") (simp add: indication_UnmarshalBinary_def, simp add: indication_UnmarshalBinary_eq)

text \<open>On byte strings below 4 GiB the indication decoder never panics, and it accepts a byte string as an indication exactly
  when that indication is well formed (type, both lengths, zero transaction, a single fragment)
  and the byte string is its reference layout.\<close>

theorem indication_UnmarshalBinary_iff_layout:
  assumes small: "length data < 2 ^ 32"
  shows "indication_UnmarshalBinary data \<noteq> Panic
   \<and> (indication_UnmarshalBinary data = Ret i \<longleftrightarrow> indication_wf i \<and> indication_layout i = data)"
proof (rule conjI [OF indication_UnmarshalBinary_no_panic [OF small]], rule iffI)
  assume a: "indication_UnmarshalBinary data = Ret i"
  then have len: "44 \<le> length data"
    by (cases "length data < 44") (simp_all add: indication_UnmarshalBinary_def)
  from a len small show "indication_wf i \<and> indication_layout i = data"
    using split_head [OF len]
    by (auto simp: indication_UnmarshalBinary_eq indication_wf_def indication_layout_def)
next
  assume a: "indication_wf i \<and> indication_layout i = data"
  then have svc: "length (in_ServiceID i) = 16" and data: "data = indication_layout i" by (auto simp: indication_wf_def)
  have len: "length data = 44 + length (in_InformationBuffer i)" using svc by (simp add: data indication_layout_def)
  have "take 16 (drop 20 data) = in_ServiceID i" "drop 44 data = in_InformationBuffer i"
    using svc by (simp_all add: data indication_layout_def)
  moreover note rd32_fields [OF svc, of "in_MessageType i" "in_MessageLength i" "in_TransactionID i"
      "in_FragmentTotal i" "in_FragmentCurrent i" "in_CommandID i" "in_InformationLength i" "in_InformationBuffer i",
      folded indication_layout_def, folded data]
  ultimately show "indication_UnmarshalBinary data = Ret i"
    using a len small by (simp add: indication_UnmarshalBinary_eq indication_wf_def)
qed

definition sample_indication :: Indication where
  "sample_indication =
     \<lparr>in_MessageType = MessageTypeIndicateStatus, in_MessageLength = 46, in_TransactionID = 0,
      in_FragmentTotal = 1, in_FragmentCurrent = 0, in_ServiceID = ServiceBasicConnect, in_CommandID = 11,
      in_InformationLength = 2, in_InformationBuffer = [7, 8]\<rparr>"

theorem indication_UnmarshalBinary_iff_layout_witness:
  "indication_UnmarshalBinary (indication_layout sample_indication) = Ret sample_indication"
proof -
  have "length (indication_layout sample_indication) < 2 ^ 32"
    by (simp add: indication_layout_def sample_indication_def ServiceBasicConnect_def)
  from indication_UnmarshalBinary_iff_layout [OF this, of sample_indication] show ?thesis
    by (simp add: indication_wf_def sample_indication_def ServiceBasicConnect_def)
qed

section \<open>Command responses\<close>

lemma commandResponse_no_panic:
  assumes "length data < 2 ^ 32" "\<And>decode buf. rsp = Some decode \<Longrightarrow> decode buf \<noteq> Panic"
  shows "response_UnmarshalBinary rsp data \<noteq> Panic"
proof -
  have f: "finish rsp buf r \<noteq> Panic" for buf r
    using assms(2) by (auto simp: finish_def split: option.splits outcome.splits)
  have "unmarshalStatusDone rsp data r \<noteq> Panic" for r
    using f by (auto simp: unmarshalStatusDone_def u32_at_in)
  moreover have "unmarshalCommandDone rsp data r \<noteq> Panic" for r
    using f assms(1) body_end_48 [of "rd32 data 44" "length data"]
    by (auto simp: unmarshalCommandDone_def u32_at_in svc_subslice subslice_def Let_def)
  moreover have "unmarshalFunctionError data r \<noteq> Panic" for r
    by (auto simp: unmarshalFunctionError_def u32_at_in)
  ultimately show ?thesis by (auto simp: response_UnmarshalBinary_def u32_at_in Let_def)
qed

lemma unmarshalCommandDone_eq:
  assumes "48 \<le> length data" "length data < 2 ^ 32"
  shows "unmarshalCommandDone rsp data r =
     (let r1 = r\<lparr>cr_FragmentTotal := rd32 data 12, cr_FragmentCurrent := rd32 data 16,
                cr_ServiceID := take 16 (drop 20 data), cr_CommandID := rd32 data 36, cr_Status := rd32 data 40\<rparr> in
      if rd32 data 12 \<noteq> 1 \<or> rd32 data 16 \<noteq> 0 then Ret (r1, Some (UnsupportedFragment (rd32 data 16) (rd32 data 12)))
      else let r2 = r1\<lparr>cr_ResponseLength := rd32 data 44\<rparr> in
        if unat (rd32 data 44) \<noteq> length data - 48
        then Ret (r2, Some (BodyLengthMismatch (rd32 data 44) (length data - 48)))
        else finish rsp (drop 48 data) (r2\<lparr>cr_ResponseBuffer := drop 48 data\<rparr>))"
  using assms body_end_48 [of "rd32 data 44" "length data"]
  by (simp add: unmarshalCommandDone_def u32_at_in svc_subslice subslice_def Let_def)

definition status_error :: "CommandResponse \<Rightarrow> mbim_error option" where
  "status_error r = (if cr_Status r = StatusNone then None else Some (StatusError (cr_Status r)))"

lemma status_error_cases: "status_error r = None \<or> (\<exists>s. status_error r = Some (StatusError s))"
  by (simp add: status_error_def)

lemma done_types_distinct:
  "MessageTypeCommandDone \<noteq> MessageTypeOpenDone" "MessageTypeCommandDone \<noteq> MessageTypeCloseDone"
  by (simp_all add: message_type_defs)

lemma commandDone_sound:
  assumes "response_UnmarshalBinary None data = Ret (r, e)" "cr_MessageType r = MessageTypeCommandDone"
    "e = None \<or> (\<exists>s. e = Some (StatusError s))"
    and small: "length data < 2 ^ 32"
  shows "commandDone_wf r \<and> commandDone_layout r = data \<and> e = status_error r"
proof -
  have len12: "12 \<le> length data" using assms(1,3) by (auto simp: response_UnmarshalBinary_def split: if_splits)
  then have d: "response_UnmarshalBinary None data =
      (let r = zeroResponse\<lparr>cr_MessageType := rd32 data 0, cr_MessageLength := rd32 data 4, cr_TransactionID := rd32 data 8\<rparr> in
        if rd32 data 4 \<noteq> len32 data then Ret (r, Some (HeaderLengthMismatch (rd32 data 4) (length data)))
        else if rd32 data 0 = MessageTypeOpenDone \<or> rd32 data 0 = MessageTypeCloseDone then unmarshalStatusDone None data r
        else if rd32 data 0 = MessageTypeCommandDone then unmarshalCommandDone None data r
        else if rd32 data 0 = MessageTypeFunctionError then unmarshalFunctionError data r
        else Ret (r, Some (UnexpectedMessageType (rd32 data 0))))"
    by (simp add: response_UnmarshalBinary_def u32_at_in Let_def)
  have keep: "cr_MessageType r' = cr_MessageType r0"
    if "unmarshalStatusDone None data r0 = Ret (r', e') \<or> unmarshalFunctionError data r0 = Ret (r', e')" for r0 r' e'
    using that by (auto simp: unmarshalStatusDone_def unmarshalFunctionError_def finish_def u32_at_in split: if_splits)
  let ?r = "zeroResponse\<lparr>cr_MessageType := rd32 data 0, cr_MessageLength := rd32 data 4, cr_TransactionID := rd32 data 8\<rparr>"
  have c4: "rd32 data 4 = len32 data"
    using assms(1,3) unfolding d by (cases "rd32 data 4 = len32 data") (auto simp: Let_def)
  have mt: "rd32 data 0 = MessageTypeCommandDone"
  proof (rule ccontr)
    assume "rd32 data 0 \<noteq> MessageTypeCommandDone"
    with c4 have "unmarshalStatusDone None data ?r = Ret (r, e) \<or> unmarshalFunctionError data ?r = Ret (r, e)
        \<or> (?r, Some (UnexpectedMessageType (rd32 data 0))) = (r, e)"
      using assms(1) unfolding d by (simp add: Let_def split: if_split_asm)
    with keep [of ?r r e] assms(3) have "cr_MessageType r = rd32 data 0" by auto
    with assms(2) \<open>rd32 data 0 \<noteq> MessageTypeCommandDone\<close> show False by simp
  qed
  have c: "unmarshalCommandDone None data ?r = Ret (r, e)"
    using assms(1) c4 mt unfolding d by (simp add: Let_def done_types_distinct)
  have len: "48 \<le> length data"
    using c assms(3) by (cases "length data < 48") (auto simp: unmarshalCommandDone_def)
  have "drop 44 data = put_le32 (rd32 data 44) @ drop 48 data" using drop_rd32 [of 44 data] len by simp
  with split_head [of data] len have "data = put_le32 (rd32 data 0) @ put_le32 (rd32 data 4) @ put_le32 (rd32 data 8)
     @ put_le32 (rd32 data 12) @ put_le32 (rd32 data 16) @ take 16 (drop 20 data) @ put_le32 (rd32 data 36)
     @ put_le32 (rd32 data 40) @ put_le32 (rd32 data 44) @ drop 48 data" by simp
  note layout = this
  have f: "rd32 data 12 = 1" "rd32 data 16 = 0" "unat (rd32 data 44) = length data - 48"
    using c assms(3) by (auto simp: unmarshalCommandDone_eq [OF len small] Let_def split: if_split_asm)
  then have r: "r = ?r\<lparr>cr_FragmentTotal := rd32 data 12, cr_FragmentCurrent := rd32 data 16,
                cr_ServiceID := take 16 (drop 20 data), cr_CommandID := rd32 data 36, cr_Status := rd32 data 40,
                cr_ResponseLength := rd32 data 44, cr_ResponseBuffer := drop 48 data\<rparr>"
    and e: "e = status_error r"
    using c by (auto simp: unmarshalCommandDone_eq [OF len small] Let_def finish_def status_error_def split: if_split_asm)
  have "commandDone_layout r = data" unfolding r commandDone_layout_def using layout by simp
  moreover have "commandDone_wf r" unfolding r commandDone_wf_def using f mt c4 len by simp
  ultimately show ?thesis using e by simp
qed

lemma commandDone_complete:
  assumes "commandDone_wf r" "commandDone_layout r = data" and small: "length data < 2 ^ 32"
  shows "response_UnmarshalBinary None data = Ret (r, status_error r)"
proof -
  have svc: "length (cr_ServiceID r) = 16" and data: "data = commandDone_layout r"
    using assms by (auto simp: commandDone_wf_def)
  have len: "length data = 48 + length (cr_ResponseBuffer r)" using svc by (simp add: data commandDone_layout_def)
  have f: "take 16 (drop 20 data) = cr_ServiceID r" "drop 48 data = cr_ResponseBuffer r" "rd32 data 44 = cr_ResponseLength r"
    using svc by (simp_all add: data commandDone_layout_def codec_simps)
  note rd = rd32_fields [OF svc, of "cr_MessageType r" "cr_MessageLength r" "cr_TransactionID r"
      "cr_FragmentTotal r" "cr_FragmentCurrent r" "cr_CommandID r" "cr_Status r" "put_le32 (cr_ResponseLength r) @ cr_ResponseBuffer r",
      folded commandDone_layout_def, folded data]
  from assms(1) len f rd small show ?thesis
    by (simp add: response_UnmarshalBinary_def u32_at_in unmarshalCommandDone_eq commandDone_wf_def finish_def
        status_error_def message_type_defs Let_def zeroResponse_def)
qed

text \<open>On byte strings below 4 GiB the command response decoder never panics, and it takes a byte string for a command response, successful or with a modem status, exactly when
  the response is well formed and the byte string is its reference layout; the status becomes
  the error.\<close>

theorem response_UnmarshalBinary_commandDone:
  assumes small: "length data < 2 ^ 32"
  shows "response_UnmarshalBinary None data \<noteq> Panic
   \<and> (response_UnmarshalBinary None data = Ret (r, e) \<and> cr_MessageType r = MessageTypeCommandDone
        \<and> (e = None \<or> (\<exists>s. e = Some (StatusError s)))
      \<longleftrightarrow> commandDone_wf r \<and> commandDone_layout r = data \<and> e = status_error r)"
proof (intro conjI iffI)
  show "response_UnmarshalBinary None data \<noteq> Panic" using small by (intro commandResponse_no_panic) simp_all
qed (use commandDone_sound [of data r e] commandDone_complete [of r data] small status_error_cases [of r] in
      \<open>auto simp only: commandDone_wf_def\<close>)

definition sample_commandDone :: CommandResponse where
  "sample_commandDone =
     \<lparr>cr_MessageType = MessageTypeCommandDone, cr_MessageLength = 49, cr_TransactionID = 3, cr_FragmentTotal = 1,
      cr_FragmentCurrent = 0, cr_ServiceID = ServiceBasicConnect, cr_CommandID = 4, cr_Status = 9,
      cr_ResponseLength = 1, cr_ResponseBuffer = [5]\<rparr>"

theorem response_UnmarshalBinary_commandDone_witness:
  "response_UnmarshalBinary None (commandDone_layout sample_commandDone) = Ret (sample_commandDone, Some (StatusError 9))"
proof -
  have "length (commandDone_layout sample_commandDone) < 2 ^ 32"
    by (simp add: commandDone_layout_def sample_commandDone_def ServiceBasicConnect_def)
  from response_UnmarshalBinary_commandDone [OF this, of sample_commandDone "Some (StatusError 9)"] show ?thesis
    by (simp add: commandDone_wf_def sample_commandDone_def ServiceBasicConnect_def status_error_def StatusNone_def)
qed

section \<open>Frames\<close>

lemma mbim_readFrame_framed:
  assumes "12 \<le> length frame" "length frame \<le> maxFrameLength" "rd32 frame 4 = of_nat (length frame)"
  shows "readFrame (frame @ rest) = (Ret frame, rest)"
proof -
  have len: "unat (rd32 frame 4) = length frame"
    using assms(2) unfolding assms(3) by (intro unat_of_nat_u32) (simp add: maxFrameLength_def)
  have "rd32 (take 12 frame) 4 = rd32 frame 4" using assms(1) by (simp add: rd32_def)
  moreover have "read_full 12 (take 12 frame @ drop 12 frame @ rest) = (take 12 frame, drop 12 frame @ rest, None)"
    using assms(1) by (intro read_full_append) simp
  then have "read_full 12 (frame @ rest) = (take 12 frame, drop 12 frame @ rest, None)"
    by (metis append.assoc append_take_drop_id)
  moreover have "read_full (length frame - 12) (drop 12 frame @ rest) = (drop 12 frame, rest, None)"
    by (intro read_full_append) simp
  ultimately show ?thesis using assms(1,2) len by (simp add: readFrame_def Let_def)
qed

lemma mbim_readFrame_Ret:
  assumes "readFrame s = (Ret frame, rest)"
  shows "s = frame @ rest" "12 \<le> length frame" "length frame \<le> maxFrameLength" "rd32 frame 4 = of_nat (length frame)"
proof -
  obtain header s1 body where h: "read_full 12 s = (header, s1, None)"
    "read_full (unat (rd32 header 4) - 12) s1 = (body, rest, None)" "frame = header @ body"
    "12 \<le> unat (rd32 header 4)" "unat (rd32 header 4) \<le> maxFrameLength"
    using assms by (auto simp: readFrame_def Let_def not_less split: prod.splits option.splits if_splits)
  then have l: "length header = 12" "length body = unat (rd32 header 4) - 12" "s = frame @ rest"
    by (auto simp: read_full_None)
  moreover have "rd32 frame 4 = rd32 header 4" using h(3) l(1) by (simp add: rd32_def nth_append)
  ultimately show "s = frame @ rest" "12 \<le> length frame" "length frame \<le> maxFrameLength"
    "rd32 frame 4 = of_nat (length frame)"
    using h by auto
qed

text \<open>MBIM framing: an encoded request that fits the frame limit is read back whole from a stream,
  leaving exactly the bytes that follow it, and any frame the reader returns is a prefix of the
  stream of 12 to 2097152 bytes that carries its own length.\<close>

theorem readFrame_request:
  assumes "request_MarshalBinary r = Ret bs" "length bs \<le> maxFrameLength"
  shows "readFrame (bs @ rest) = (Ret bs, rest)
    \<and> (readFrame s = (Ret frame, s') \<longrightarrow> s = frame @ s' \<and> 12 \<le> length frame \<and> length frame \<le> 2097152
         \<and> rd32 frame 4 = of_nat (length frame))"
proof -
  obtain c where "bs = put_le32 (rq_MessageType r) @ put_le32 (of_nat (12 + length c)) @ put_le32 (rq_TransactionID r) @ c"
    using assms(1) by (auto simp: request_MarshalBinary_def)
  then have "12 \<le> length bs" "rd32 bs 4 = of_nat (length bs)" by (simp_all add: codec_simps)
  then show ?thesis
    using mbim_readFrame_framed assms(2) mbim_readFrame_Ret [of s frame s'] by (auto simp: maxFrameLength_def)
qed

definition sample_close :: Request where
  "sample_close = \<lparr>rq_MessageType = MessageTypeClose, rq_TransactionID = 7, rq_Command = OtherBody []\<rparr>"

theorem readFrame_request_witness:
  "readFrame ([2, 0, 0, 0, 12, 0, 0, 0, 7, 0, 0, 0] @ [9]) = (Ret [2, 0, 0, 0, 12, 0, 0, 0, 7, 0, 0, 0], [9])"
proof -
  have "request_MarshalBinary sample_close = Ret [2, 0, 0, 0, 12, 0, 0, 0, 7, 0, 0, 0]"
    by (simp add: request_MarshalBinary_def sample_close_def request_body_def MessageTypeClose_def put_le32_def)
  from readFrame_request [OF this, of "[9]"] show ?thesis by (simp add: maxFrameLength_def)
qed

end
