(* ===== verification/Mbim_Fragment.thy ===== *)
theory Mbim_Fragment
  imports Mbim_Protocol "HOL-Library.AList" "HOL-Library.Sublist"
begin

text \<open>
  MBIM fragmentation: splitting a message into frames and collecting received fragments
  (\<^verbatim>\<open>mbim/fragment.go\<close>), and the receiver's table of partial messages with its deadlines
  (\<open>collectReceivedFrame\<close>, \<open>nextFragmentDeadline\<close>, \<open>resetFragmentTimer\<close>,
  \<open>expireFragmentCollectors\<close> of \<^verbatim>\<open>mbim/dispatcher.go\<close>). The table is an association list: its
  order is the order in which Go happens to iterate over the map. Times are integers (nanoseconds),
  zero standing for the zero \<open>time.Time\<close>.
\<close>

section \<open>Splitting\<close>

definition isFragmentMessage :: "MessageType \<Rightarrow> bool" where
  "isFragmentMessage t \<longleftrightarrow>
     t = MessageTypeCommand \<or> t = MessageTypeCommandDone \<or> t = MessageTypeIndicateStatus"

record fragmentedMessage =
  fm_data :: bytes
  fm_maxFrameSize :: int

datatype fragment_error =
    MessageTooShort nat
  | NoFragments MessageType
  | FragmentLengthMismatch u32 nat
  | FrameSizeTooSmall int
  | TotalZero
  | OutsideTotal u32 u32
  | NotFirst u32 u32
  | TypeMismatch MessageType MessageType
  | TransactionMismatch u32 u32
  | TotalMismatch u32 u32
  | OutOfOrder u32 u32
  | Incomplete u32 u32

definition frame_bytes :: "MessageType \<Rightarrow> u32 \<Rightarrow> u32 \<Rightarrow> u32 \<Rightarrow> bytes \<Rightarrow> bytes" where
  "frame_bytes messageType transactionID tot current chunk =
     put_le32 messageType @ put_le32 (of_nat (20 + length chunk)) @ put_le32 transactionID
     @ put_le32 tot @ put_le32 current @ chunk"

text \<open>The loop of \<open>Frames\<close>. It is entered with a positive payload size only; the guard makes the
  recursion terminate for every argument.\<close>

function frames_loop ::
  "MessageType \<Rightarrow> u32 \<Rightarrow> nat \<Rightarrow> nat \<Rightarrow> bytes \<Rightarrow> nat \<Rightarrow> nat \<Rightarrow> bytes list" where
  "frames_loop messageType transactionID tot maxPayloadSize payload current ofs =
     (if ofs < length payload \<and> 0 < maxPayloadSize then
        let fin = min (ofs + maxPayloadSize) (length payload) in
        frame_bytes messageType transactionID (of_nat tot) (of_nat current) (take (fin - ofs) (drop ofs payload))
        # frames_loop messageType transactionID tot maxPayloadSize payload (current + 1) fin
      else [])"
  by pat_completeness auto
termination by (relation "measure (\<lambda>(_, _, _, _, payload, _, ofs). length payload - ofs)") auto

declare frames_loop.simps [simp del]

definition Frames :: "fragmentedMessage \<Rightarrow> (fragment_error, bytes list) outcome" where
  "Frames m =
     (let data = fm_data m in
      if int (length data) \<le> fm_maxFrameSize m then Ret [data]
      else fail_if (length data < 20) (MessageTooShort (length data))
       (bind (u32_at data 0) (\<lambda>messageType.
        fail_if (\<not> isFragmentMessage messageType) (NoFragments messageType)
       (bind (u32_at data 4) (\<lambda>len.
        fail_if (len \<noteq> of_nat (length data)) (FragmentLengthMismatch len (length data))
       (fail_if (fm_maxFrameSize m \<le> 20) (FrameSizeTooSmall (fm_maxFrameSize m))
       (bind (u32_at data 8) (\<lambda>transactionID.
        let payload = drop 20 data;
            maxPayloadSize = nat (fm_maxFrameSize m - 20);
            tot = max 1 ((length payload + maxPayloadSize - 1) div maxPayloadSize)
        in Ret (frames_loop messageType transactionID tot maxPayloadSize payload 0 0)))))))))"

section \<open>Collecting\<close>

record fragment =
  fr_messageType :: MessageType
  fr_transactionID :: u32
  fr_total :: u32
  fr_current :: u32
  fr_payload :: bytes

definition fragment_UnmarshalBinary :: "bytes \<Rightarrow> (fragment_error, fragment) outcome" where
  "fragment_UnmarshalBinary frame =
     fail_if (length frame < 20) (MessageTooShort (length frame))
      (bind (u32_at frame 0) (\<lambda>messageType.
       fail_if (\<not> isFragmentMessage messageType) (NoFragments messageType)
      (bind (u32_at frame 4) (\<lambda>messageLength.
       fail_if (messageLength \<noteq> of_nat (length frame)) (FragmentLengthMismatch messageLength (length frame))
      (bind (u32_at frame 12) (\<lambda>tot. bind (u32_at frame 16) (\<lambda>current.
       fail_if (tot = 0) TotalZero
      (fail_if (current \<ge> tot) (OutsideTotal current tot)
      (bind (u32_at frame 8) (\<lambda>transactionID. bind (subslice frame 20 (length frame)) (\<lambda>payload.
       Ret \<lparr>fr_messageType = messageType, fr_transactionID = transactionID, fr_total = tot,
            fr_current = current, fr_payload = payload\<rparr>)))))))))))"

record fragmentCollector =
  fc_messageType :: MessageType
  fc_transactionID :: u32
  fc_total :: u32
  fc_current :: u32
  fc_payload :: bytes

definition newFragmentCollector :: "bytes \<Rightarrow> (fragment_error, fragmentCollector) outcome" where
  "newFragmentCollector frame =
     bind (fragment_UnmarshalBinary frame) (\<lambda>f.
       fail_if (fr_current f \<noteq> 0) (NotFirst (fr_current f) (fr_total f))
        (Ret \<lparr>fc_messageType = fr_messageType f, fc_transactionID = fr_transactionID f, fc_total = fr_total f,
              fc_current = fr_current f, fc_payload = fr_payload f\<rparr>))"

definition collector_add :: "fragmentCollector \<Rightarrow> bytes \<Rightarrow> (fragment_error, fragmentCollector) outcome" where
  "collector_add c frame =
     bind (fragment_UnmarshalBinary frame) (\<lambda>f.
       fail_if (fr_messageType f \<noteq> fc_messageType c) (TypeMismatch (fr_messageType f) (fc_messageType c))
      (fail_if (fr_transactionID f \<noteq> fc_transactionID c) (TransactionMismatch (fr_transactionID f) (fc_transactionID c))
      (fail_if (fr_total f \<noteq> fc_total c) (TotalMismatch (fr_total f) (fc_total c))
      (fail_if (fr_current f \<noteq> fc_current c + 1) (OutOfOrder (fr_current f) (fc_current c + 1))
      (Ret (c\<lparr>fc_current := fr_current f, fc_payload := fc_payload c @ fr_payload f\<rparr>))))))"

definition collector_complete :: "fragmentCollector \<Rightarrow> bool" where
  "collector_complete c \<longleftrightarrow> fc_current c = fc_total c - 1"

text \<open>The length of the assembled message is computed at 32 bits: beyond 4 GiB it wraps, the buffer is
  too small, and the header writes may panic.\<close>

definition collector_MarshalBinary :: "fragmentCollector \<Rightarrow> (fragment_error, bytes) outcome" where
  "collector_MarshalBinary c =
     fail_if (\<not> collector_complete c) (Incomplete (fc_current c + 1) (fc_total c))
      (let len = (of_nat (20 + length (fc_payload c)) :: u32) in
       if unat len < 20 then Panic
       else Ret (put_le32 (fc_messageType c) @ put_le32 len @ put_le32 (fc_transactionID c)
                 @ put_le32 1 @ put_le32 0 @ take (unat len - 20) (fc_payload c)))"

section \<open>The receiver's table\<close>

type_synonym gotime = int

definition fragmentTimeout :: gotime where "fragmentTimeout = 1000000000"

record fragmentKey =
  fk_messageType :: MessageType
  fk_transactionID :: u32

record incomingFragmentCollection =
  ic_collector :: fragmentCollector
  ic_deadline :: gotime

type_synonym collectors = "(fragmentKey \<times> incomingFragmentCollection) list"

type_synonym ProtocolError = u32

definition ProtocolErrorTimeoutFragment :: ProtocolError where "ProtocolErrorTimeoutFragment = 1"
definition ProtocolErrorFragmentOutOfSequence :: ProtocolError where "ProtocolErrorFragmentOutOfSequence = 2"

record fragmentFault =
  ff_transactionID :: u32
  ff_status :: ProtocolError

definition collectReceivedFrame ::
  "collectors \<Rightarrow> bytes \<Rightarrow> gotime \<Rightarrow> (fragment_error, (bytes option \<times> fragmentFault option) \<times> collectors) outcome" where
  "collectReceivedFrame collectors buf now =
     bind (u32_at buf 0) (\<lambda>messageType. bind (u32_at buf 8) (\<lambda>transactionID.
       let key = \<lparr>fk_messageType = messageType, fk_transactionID = transactionID\<rparr>;
           fault = (None, Some \<lparr>ff_transactionID = transactionID, ff_status = ProtocolErrorFragmentOutOfSequence\<rparr>)
       in case fragment_UnmarshalBinary buf of
            Panic \<Rightarrow> Panic
          | Fail e \<Rightarrow> Ret (fault, AList.delete key collectors)
          | Ret f \<Rightarrow>
              if fr_total f = 1 then Ret ((Some buf, None), collectors)
              else (case map_of collectors key of
                      None \<Rightarrow>
                        if fr_current f \<noteq> 0 then Ret (fault, collectors)
                        else (case newFragmentCollector buf of
                                Panic \<Rightarrow> Panic
                              | Fail e \<Rightarrow> Ret (fault, collectors)
                              | Ret c \<Rightarrow> Ret ((None, None),
                                  AList.update key \<lparr>ic_collector = c, ic_deadline = now + fragmentTimeout\<rparr> collectors))
                    | Some collection \<Rightarrow>
                        (case collector_add (ic_collector collection) buf of
                           Panic \<Rightarrow> Panic
                         | Fail e \<Rightarrow> Ret (fault, AList.delete key collectors)
                         | Ret c \<Rightarrow>
                             if \<not> collector_complete c
                             then Ret ((None, None),
                                  AList.update key \<lparr>ic_collector = c, ic_deadline = now + fragmentTimeout\<rparr> collectors)
                             else (case collector_MarshalBinary c of
                                     Panic \<Rightarrow> Panic
                                   | Fail e \<Rightarrow> Ret (fault, AList.delete key collectors)
                                   | Ret complete \<Rightarrow> Ret ((Some complete, None), AList.delete key collectors))))))"

fun nextFragmentDeadline_loop :: "gotime \<Rightarrow> collectors \<Rightarrow> gotime" where
  "nextFragmentDeadline_loop deadline [] = deadline"
| "nextFragmentDeadline_loop deadline ((_, collection) # rest) =
     nextFragmentDeadline_loop
       (if deadline = 0 \<or> ic_deadline collection < deadline then ic_deadline collection else deadline) rest"

definition nextFragmentDeadline :: "collectors \<Rightarrow> gotime \<times> bool" where
  "nextFragmentDeadline collectors =
     (let deadline = nextFragmentDeadline_loop 0 collectors in (deadline, deadline \<noteq> 0))"

text \<open>The delay the timer is armed with, if it is armed.\<close>

definition resetFragmentTimer :: "collectors \<Rightarrow> gotime \<Rightarrow> gotime option" where
  "resetFragmentTimer collectors now =
     (if collectors = [] then None
      else let delay = fst (nextFragmentDeadline collectors) - now in
           Some (if delay < 0 then 0 else delay))"

fun expire_loop :: "gotime \<Rightarrow> u32 list \<Rightarrow> collectors \<Rightarrow> u32 list \<times> collectors" where
  "expire_loop now seen [] = ([], [])"
| "expire_loop now seen ((key, collection) # rest) =
     (if ic_deadline collection > now
      then (let (ids, cs) = expire_loop now seen rest in (ids, (key, collection) # cs))
      else if fk_transactionID key \<in> set seen then expire_loop now seen rest
      else (let (ids, cs) = expire_loop now (fk_transactionID key # seen) rest in (fk_transactionID key # ids, cs)))"

definition expireFragmentCollectors :: "collectors \<Rightarrow> gotime \<Rightarrow> u32 list \<times> collectors" where
  "expireFragmentCollectors collectors now = expire_loop now [] collectors"

section \<open>Runs of the receiver's table\<close>

text \<open>What the receive loop feeds the table: a frame read at some time, or the timer.\<close>

datatype fragment_event = GotFrame bytes gotime | TimedOut gotime

datatype fragment_output = FrameOut fragmentKey "bytes option" "fragmentFault option" | ExpiredOut "u32 list"

definition frame_key :: "bytes \<Rightarrow> fragmentKey" where
  "frame_key buf = \<lparr>fk_messageType = rd32 buf 0, fk_transactionID = rd32 buf 8\<rparr>"

fun collect_run :: "collectors \<Rightarrow> fragment_event list \<Rightarrow> (fragment_error, fragment_output list \<times> collectors) outcome" where
  "collect_run cs [] = Ret ([], cs)"
| "collect_run cs (GotFrame buf now # evs) =
     bind (collectReceivedFrame cs buf now) (\<lambda>((complete, fault), cs').
       bind (collect_run cs' evs) (\<lambda>(outs, cs''). Ret (FrameOut (frame_key buf) complete fault # outs, cs'')))"
| "collect_run cs (TimedOut now # evs) =
     (let (ids, cs') = expireFragmentCollectors cs now in
       bind (collect_run cs' evs) (\<lambda>(outs, cs''). Ret (ExpiredOut ids # outs, cs'')))"

fun frames_for :: "fragmentKey \<Rightarrow> fragment_event list \<Rightarrow> bytes list" where
  "frames_for k [] = []"
| "frames_for k (GotFrame buf now # evs) = (if frame_key buf = k then buf # frames_for k evs else frames_for k evs)"
| "frames_for k (TimedOut now # evs) = frames_for k evs"

fun completed_for :: "fragmentKey \<Rightarrow> fragment_output list \<Rightarrow> bytes list" where
  "completed_for k [] = []"
| "completed_for k (FrameOut k' (Some buf) fault # outs) =
     (if k' = k then buf # completed_for k outs else completed_for k outs)"
| "completed_for k (_ # outs) = completed_for k outs"

fun faults_for :: "fragmentKey \<Rightarrow> fragment_output list \<Rightarrow> fragmentFault list" where
  "faults_for k [] = []"
| "faults_for k (FrameOut k' complete (Some fault) # outs) =
     (if k' = k then fault # faults_for k outs else faults_for k outs)"
| "faults_for k (_ # outs) = faults_for k outs"

text \<open>The timer does not fire at or after the deadline of the key's partial message.\<close>

fun in_time :: "fragmentKey \<Rightarrow> gotime option \<Rightarrow> fragment_event list \<Rightarrow> bool" where
  "in_time k deadline [] \<longleftrightarrow> True"
| "in_time k deadline (GotFrame buf now # evs) \<longleftrightarrow>
     in_time k (if frame_key buf = k then Some (now + fragmentTimeout) else deadline) evs"
| "in_time k deadline (TimedOut now # evs) \<longleftrightarrow>
     (case deadline of None \<Rightarrow> True | Some d \<Rightarrow> now < d) \<and> in_time k deadline evs"

fun event_frame :: "fragment_event \<Rightarrow> bytes option" where
  "event_frame (GotFrame buf now) = Some buf"
| "event_frame (TimedOut now) = None"

definition buffered :: "collectors \<Rightarrow> nat" where
  "buffered cs = (\<Sum>(k, c) \<leftarrow> cs. length (fc_payload (ic_collector c)))"

fun received :: "fragment_event list \<Rightarrow> nat" where
  "received [] = 0"
| "received (GotFrame buf now # evs) = length buf + received evs"
| "received (TimedOut now # evs) = received evs"

definition frames_readable :: "fragment_event list \<Rightarrow> bool" where
  "frames_readable evs = list_all (\<lambda>e. case e of GotFrame buf now \<Rightarrow> 12 \<le> length buf | TimedOut now \<Rightarrow> True) evs"

lemma frames_readable_simps [simp]:
  "frames_readable [] \<longleftrightarrow> True"
  "frames_readable (GotFrame buf now # evs) \<longleftrightarrow> 12 \<le> length buf \<and> frames_readable evs"
  "frames_readable (TimedOut now # evs) \<longleftrightarrow> frames_readable evs"
  by (simp_all add: frames_readable_def)

section \<open>Fragments\<close>

lemma fragment_UnmarshalBinary_no_panic: "fragment_UnmarshalBinary frame \<noteq> Panic"
  by (cases "length frame < 20")
    (simp_all add: fragment_UnmarshalBinary_def u32_at_in subslice_def fail_if_def)

lemma fragment_UnmarshalBinary_Ret:
  "fragment_UnmarshalBinary frame = Ret f \<longleftrightarrow>
     20 \<le> length frame \<and> isFragmentMessage (rd32 frame 0) \<and> rd32 frame 4 = of_nat (length frame)
     \<and> rd32 frame 12 \<noteq> 0 \<and> rd32 frame 16 < rd32 frame 12
     \<and> f = \<lparr>fr_messageType = rd32 frame 0, fr_transactionID = rd32 frame 8, fr_total = rd32 frame 12,
            fr_current = rd32 frame 16, fr_payload = drop 20 frame\<rparr>"
  by (cases "length frame < 20")
    (auto simp: fragment_UnmarshalBinary_def u32_at_in subslice_def fail_if_def not_le)

lemma frame_bytes_fields [simp]:
  "length (frame_bytes mt tid tot cur chunk) = 20 + length chunk"
  "rd32 (frame_bytes mt tid tot cur chunk) 0 = mt"
  "rd32 (frame_bytes mt tid tot cur chunk) 4 = of_nat (20 + length chunk)"
  "rd32 (frame_bytes mt tid tot cur chunk) 8 = tid"
  "rd32 (frame_bytes mt tid tot cur chunk) 12 = tot"
  "rd32 (frame_bytes mt tid tot cur chunk) 16 = cur"
  "drop 20 (frame_bytes mt tid tot cur chunk) = chunk"
  by (simp_all add: frame_bytes_def codec_simps)

lemma frame_bytes_split:
  assumes "20 \<le> length data" "rd32 data 4 = of_nat (length data)"
  shows "data = frame_bytes (rd32 data 0) (rd32 data 8) (rd32 data 12) (rd32 data 16) (drop 20 data)"
proof -
  have "drop 0 data = put_le32 (rd32 data 0) @ drop 4 data" "drop 4 data = put_le32 (rd32 data 4) @ drop 8 data"
    "drop 8 data = put_le32 (rd32 data 8) @ drop 12 data" "drop 12 data = put_le32 (rd32 data 12) @ drop 16 data"
    "drop 16 data = put_le32 (rd32 data 16) @ drop 20 data"
    using assms drop_rd32 [of 0 data] drop_rd32 [of 4 data] drop_rd32 [of 8 data] drop_rd32 [of 12 data]
      drop_rd32 [of 16 data] by simp_all
  moreover have "20 + length (drop 20 data) = length data" using assms(1) by simp
  ultimately show ?thesis using assms(2) unfolding frame_bytes_def by simp
qed

lemma newFragmentCollector_no_panic: "newFragmentCollector frame \<noteq> Panic"
  using fragment_UnmarshalBinary_no_panic by (auto simp: newFragmentCollector_def bind_eq_Panic_iff)

lemma collector_add_no_panic: "collector_add c frame \<noteq> Panic"
  using fragment_UnmarshalBinary_no_panic by (auto simp: collector_add_def bind_eq_Panic_iff)

lemma collector_MarshalBinary_complete:
  assumes "collector_complete c" "20 + length (fc_payload c) < 2 ^ 32"
  shows "collector_MarshalBinary c = Ret (frame_bytes (fc_messageType c) (fc_transactionID c) 1 0 (fc_payload c))"
proof -
  have "unat (of_nat (20 + length (fc_payload c)) :: u32) = 20 + length (fc_payload c)"
    using assms(2) by (rule unat_of_nat_u32)
  with assms(1) show ?thesis
    by (simp add: collector_MarshalBinary_def frame_bytes_def Let_def del: of_nat_add)
qed

section \<open>Frames of one key do not touch the others\<close>

text \<open>The step of the table on one key: what a received frame does to that key's entry.\<close>

lemma collectReceivedFrame_key:
  assumes "12 \<le> length buf" "collectReceivedFrame cs buf now = Ret (out, cs')"
  shows "cs' = cs \<or> cs' = AList.delete (frame_key buf) cs \<or> (\<exists>c. cs' = AList.update (frame_key buf) c cs)"
  using assms
  by (auto simp: collectReceivedFrame_def u32_at_in frame_key_def Let_def
      split: outcome.splits option.splits if_splits)

lemma collectReceivedFrame_other:
  assumes "12 \<le> length buf" "collectReceivedFrame cs buf now = Ret (out, cs')" "k \<noteq> frame_key buf"
  shows "map_of cs' k = map_of cs k"
  using collectReceivedFrame_key [OF assms(1,2)] assms(3)
  by (auto simp: AList.delete_conv' AList.update_conv')

text \<open>Expiry keeps exactly the entries whose deadline is still ahead and names each expired
  transaction once.\<close>

lemma snd_expire_loop: "snd (expire_loop now seen cs) = filter (\<lambda>(k, c). ic_deadline c > now) cs"
  by (induction now seen cs rule: expire_loop.induct) (auto simp: split_beta)

lemma fst_expire_loop:
  "set (fst (expire_loop now seen cs)) = {fk_transactionID k |k c. (k, c) \<in> set cs \<and> ic_deadline c \<le> now} - set seen
   \<and> distinct (fst (expire_loop now seen cs))"
proof (induction now seen cs rule: expire_loop.induct)
  case (2 now seen key collection rest)
  then show ?case by (cases "ic_deadline collection > now"; cases "fk_transactionID key \<in> set seen")
      (auto simp: split_beta not_less)
qed simp

lemma map_of_filter_entries:
  "distinct (map fst cs) \<Longrightarrow> map_of (filter (\<lambda>(k, c). P c) cs) k =
     (case map_of cs k of Some c \<Rightarrow> if P c then Some c else None | None \<Rightarrow> None)"
  by (induction cs) (auto simp: map_of_eq_None_iff image_iff split: option.splits)

lemma distinct_map_fst_filter: "distinct (map fst cs) \<Longrightarrow> distinct (map fst (filter P cs))"
  by (induction cs) auto

lemma buffered_delete: "buffered (AList.delete k cs) \<le> buffered cs"
  by (induction cs) (auto simp: buffered_def)

lemma buffered_update:
  "buffered (AList.update k c cs) + (case map_of cs k of Some c0 \<Rightarrow> length (fc_payload (ic_collector c0)) | None \<Rightarrow> 0)
     = buffered cs + length (fc_payload (ic_collector c))"
  by (induction cs) (auto simp: buffered_def)

lemma buffered_filter: "buffered (filter P cs) \<le> buffered cs"
  by (induction cs) (auto simp: buffered_def)

lemma collector_add_Ret:
  "collector_add c frame = Ret c' \<longleftrightarrow> (\<exists>f. fragment_UnmarshalBinary frame = Ret f \<and> fr_messageType f = fc_messageType c
     \<and> fr_transactionID f = fc_transactionID c \<and> fr_total f = fc_total c \<and> fr_current f = fc_current c + 1
     \<and> c' = c\<lparr>fc_current := fr_current f, fc_payload := fc_payload c @ fr_payload f\<rparr>)"
  by (auto simp: collector_add_def)

lemma buffered_entry: "map_of cs k = Some c \<Longrightarrow> length (fc_payload (ic_collector c)) \<le> buffered cs"
  by (induction cs) (auto simp: buffered_def split: if_splits)

lemma collectReceivedFrame_returns:
  assumes "12 \<le> length buf" "buffered cs + length buf < 2 ^ 32"
  shows "\<exists>out cs'. collectReceivedFrame cs buf now = Ret (out, cs') \<and> buffered cs' \<le> buffered cs + length buf"
proof -
  let ?k = "frame_key buf"
  have del: "buffered (AList.delete ?k cs) \<le> buffered cs + length buf"
    using buffered_delete [of ?k cs] by simp
  note step = collectReceivedFrame_def u32_at_in frame_key_def [symmetric] Let_def
  show ?thesis
  proof (cases "fragment_UnmarshalBinary buf")
    case (Ret f)
    then have f: "fr_payload f = drop 20 buf" "20 \<le> length buf" by (auto simp: fragment_UnmarshalBinary_Ret)
    show ?thesis
    proof (cases "fr_total f = 1")
      case False
      show ?thesis
      proof (cases "map_of cs ?k")
        case None
        with Ret False assms(1) f show ?thesis
          using buffered_update [of ?k _ cs] newFragmentCollector_no_panic [of buf]
          by (cases "newFragmentCollector buf") (auto simp: step newFragmentCollector_def)
      next
        case (Some col)
        have upd: "buffered (AList.update ?k \<lparr>ic_collector = c, ic_deadline = d\<rparr> cs) \<le> buffered cs + length buf"
          if "collector_add (ic_collector col) buf = Ret c" for c d
          using that buffered_update [of ?k "\<lparr>ic_collector = c, ic_deadline = d\<rparr>" cs] Some
          by (auto simp: collector_add_Ret fragment_UnmarshalBinary_Ret)
        have m: "collector_MarshalBinary c = Ret (frame_bytes (fc_messageType c) (fc_transactionID c) 1 0 (fc_payload c))"
          if "collector_add (ic_collector col) buf = Ret c" "collector_complete c" for c
          using that buffered_entry [OF Some] assms(2) f(2)
          by (intro collector_MarshalBinary_complete) (auto simp: collector_add_Ret fragment_UnmarshalBinary_Ret)
        show ?thesis
          using Ret False Some assms(1) del upd m collector_add_no_panic [of "ic_collector col" buf]
          by (cases "collector_add (ic_collector col) buf") (auto simp: step)
      qed
    qed (use Ret assms(1) in \<open>auto simp: step\<close>)
  qed (use assms(1) del fragment_UnmarshalBinary_no_panic in \<open>auto simp: step\<close>)
qed

lemma collectReceivedFrame_distinct:
  assumes "12 \<le> length buf" "collectReceivedFrame cs buf now = Ret (out, cs')" "distinct (map fst cs)"
  shows "distinct (map fst cs')"
  using collectReceivedFrame_key [OF assms(1,2)] assms(3) by (auto simp: distinct_update distinct_delete)

lemma collect_run_returns:
  "frames_readable evs \<Longrightarrow> buffered cs + received evs < 2 ^ 32 \<Longrightarrow> \<exists>outs cs'. collect_run cs evs = Ret (outs, cs')"
proof (induction cs evs rule: collect_run.induct)
  case (2 cs buf now evs)
  then obtain out cs' where c: "collectReceivedFrame cs buf now = Ret (out, cs')" "buffered cs' \<le> buffered cs + length buf"
    using collectReceivedFrame_returns [of buf cs now] by auto
  with 2 obtain r where "collect_run cs' evs = Ret r" by (cases out) fastforce
  with c show ?case by (cases out; cases r) simp
next
  case (3 cs now evs)
  have "buffered (snd (expireFragmentCollectors cs now)) \<le> buffered cs"
    by (simp add: expireFragmentCollectors_def snd_expire_loop buffered_filter)
  with 3 obtain r where "collect_run (snd (expireFragmentCollectors cs now)) evs = Ret r"
    by (cases "expireFragmentCollectors cs now") fastforce
  then show ?case by (cases r) (simp add: split_beta)
qed simp

lemma collectReceivedFrame_complete:
  assumes "12 \<le> length buf" "buffered cs + length buf < 2 ^ 32"
    and "collectReceivedFrame cs buf now = Ret ((Some b, fault), cs')"
  shows "20 \<le> length b \<and> length b \<le> buffered cs + length buf \<and> fault = None"
proof -
  have rd: "u32_at buf 0 = (Ret (rd32 buf 0) :: (fragment_error, u32) outcome)"
    "u32_at buf 8 = (Ret (rd32 buf 8) :: (fragment_error, u32) outcome)" using assms(1) by (simp_all add: u32_at_in)
  note s = assms(3) [unfolded collectReceivedFrame_def rd, simplified, folded frame_key_def, unfolded Let_def]
  obtain f where f: "fragment_UnmarshalBinary buf = Ret f" using s by (auto split: outcome.splits)
  then have b20: "20 \<le> length buf" by (simp add: fragment_UnmarshalBinary_Ret)
  show ?thesis
  proof (cases "fr_total f = 1")
    case True
    with s f b20 show ?thesis by auto
  next
    case False
    with s f obtain col c where col: "map_of cs (frame_key buf) = Some col" "collector_add (ic_collector col) buf = Ret c"
      "collector_complete c" "collector_MarshalBinary c = Ret b" "fault = None"
      by (auto split: option.splits outcome.splits if_splits)
    have "20 + length (fc_payload c) \<le> buffered cs + length buf"
      using buffered_entry [OF col(1)] col(2) b20 by (auto simp: collector_add_Ret fragment_UnmarshalBinary_Ret)
    then show ?thesis
      using collector_MarshalBinary_complete [OF col(3)] col(4,5) assms(2) by auto
  qed
qed

section \<open>Reassembly\<close>

lemma expire_map_of:
  "distinct (map fst cs) \<Longrightarrow> map_of (snd (expireFragmentCollectors cs now)) k =
     (case map_of cs k of Some c \<Rightarrow> if ic_deadline c > now then Some c else None | None \<Rightarrow> None)"
  by (simp add: expireFragmentCollectors_def snd_expire_loop map_of_filter_entries)

lemma expire_distinct:
  "distinct (map fst cs) \<Longrightarrow> distinct (map fst (snd (expireFragmentCollectors cs now)))"
  by (simp add: expireFragmentCollectors_def snd_expire_loop distinct_map_fst_filter)

text \<open>A run step, with its result: the head of a successful run.\<close>

lemma collect_run_GotFrame:
  assumes "collect_run cs (GotFrame buf now # evs) = Ret (outs, cs'')"
  obtains complete fault cs' outs' where "collectReceivedFrame cs buf now = Ret ((complete, fault), cs')"
    "collect_run cs' evs = Ret (outs', cs'')" "outs = FrameOut (frame_key buf) complete fault # outs'"
  using assms by fastforce

lemma collect_run_TimedOut:
  assumes "collect_run cs (TimedOut now # evs) = Ret (outs, cs'')"
  obtains ids outs' where "collect_run (snd (expireFragmentCollectors cs now)) evs = Ret (outs', cs'')"
    "outs = ExpiredOut ids # outs'"
  using assms by (cases "expireFragmentCollectors cs now") fastforce

lemma outputs_for_other [simp]:
  "k' \<noteq> k \<Longrightarrow> completed_for k (FrameOut k' complete fault # outs) = completed_for k outs"
  "k' \<noteq> k \<Longrightarrow> faults_for k (FrameOut k' complete fault # outs) = faults_for k outs"
  by (cases complete; simp) (cases fault; simp)

lemma quiet_run:
  "collect_run cs evs = Ret (outs, cs') \<Longrightarrow> frames_readable evs \<Longrightarrow> distinct (map fst cs) \<Longrightarrow>
   frames_for k evs = [] \<Longrightarrow> map_of cs k = None \<Longrightarrow>
   completed_for k outs = [] \<and> faults_for k outs = [] \<and> map_of cs' k = None"
proof (induction evs arbitrary: cs outs)
  case (Cons e evs)
  show ?case
  proof (cases e)
    case (GotFrame buf now)
    with Cons.prems have k: "frame_key buf \<noteq> k" "12 \<le> length buf" by (auto split: if_splits)
    obtain complete fault cs1 outs1 where s: "collectReceivedFrame cs buf now = Ret ((complete, fault), cs1)"
      "collect_run cs1 evs = Ret (outs1, cs')" "outs = FrameOut (frame_key buf) complete fault # outs1"
      using Cons.prems(1) unfolding GotFrame by (rule collect_run_GotFrame)
    have "map_of cs1 k = None" using collectReceivedFrame_other [OF k(2) s(1)] k(1) Cons.prems(5) by simp
    with Cons.IH [OF s(2)] Cons.prems GotFrame k collectReceivedFrame_distinct [OF k(2) s(1)] s(3)
    show ?thesis by simp
  next
    case (TimedOut now)
    obtain ids outs1 where s: "collect_run (snd (expireFragmentCollectors cs now)) evs = Ret (outs1, cs')"
      "outs = ExpiredOut ids # outs1"
      using Cons.prems(1) unfolding TimedOut by (rule collect_run_TimedOut)
    with Cons.IH [OF s(1)] Cons.prems TimedOut show ?thesis
      by (simp add: expire_map_of expire_distinct)
  qed
qed auto

text \<open>The receiver holds the first \<open>ofs\<close> bytes of the payload, in \<open>cur\<close> fragments.\<close>

definition holds_prefix ::
  "fragmentKey \<Rightarrow> u32 \<Rightarrow> bytes \<Rightarrow> nat \<Rightarrow> nat \<Rightarrow> collectors \<Rightarrow> gotime option \<Rightarrow> bool" where
  "holds_prefix k tot payload cur ofs cs deadline \<longleftrightarrow>
     (if cur = 0 then ofs = 0 \<and> map_of cs k = None
      else \<exists>d. deadline = Some d \<and> map_of cs k = Some
        \<lparr>ic_collector = \<lparr>fc_messageType = fk_messageType k, fc_transactionID = fk_transactionID k, fc_total = tot,
           fc_current = of_nat (cur - 1), fc_payload = take ofs payload\<rparr>, ic_deadline = d\<rparr>)"

lemma fragments_left:
  assumes "0 < n" "0 < x"
  shows "((x :: nat) + n - 1) div n = Suc ((x - min n x + n - 1) div n)"
proof (cases "n \<le> x")
  case True
  then have "x + n - 1 = (x - n + n - 1) + n" using assms by simp
  then have "(x + n - 1) div n = Suc ((x - n + n - 1) div n)" using assms(1) by (metis div_add_self2 not_less_zero Suc_eq_plus1)
  with True show ?thesis by simp
next
  case False
  with assms have "(x + n - 1) div n = 1" by (intro div_nat_eqI) simp_all
  moreover have "(n - 1) div n = 0" using assms(1) by simp
  ultimately show ?thesis using False by simp
qed

lemma fragments_le:
  assumes "0 < n"
  shows "((x :: nat) + n - 1) div n \<le> x"
proof -
  have "x \<le> x * n" using assms by simp
  then have "x + n - 1 < x * n + n" using assms by linarith
  then have "x + n - 1 < (x + 1) * n" by (simp add: algebra_simps)
  then have "(x + n - 1) div n < x + 1" by (rule less_mult_imp_div_less)
  then show ?thesis by simp
qed

lemma frame_step:
  assumes frag: "isFragmentMessage (fk_messageType k)" and tot: "2 \<le> tot" "tot < 2 ^ 32" and cur: "cur < tot"
    and buf: "buf = frame_bytes (fk_messageType k) (fk_transactionID k) (of_nat tot) (of_nat cur) chunk"
    and pre: "holds_prefix k (of_nat tot) payload cur ofs cs deadline"
    and chunk: "take ofs payload @ chunk = take fin payload"
    and size: "20 + length payload < 2 ^ 32" and last: "cur + 1 = tot \<longleftrightarrow> fin = length payload"
  shows "collectReceivedFrame cs buf now =
    (if cur + 1 = tot then Ret ((Some (frame_bytes (fk_messageType k) (fk_transactionID k) 1 0 payload), None), AList.delete k cs)
     else Ret ((None, None), AList.update k \<lparr>ic_collector = \<lparr>fc_messageType = fk_messageType k,
        fc_transactionID = fk_transactionID k, fc_total = of_nat tot, fc_current = of_nat cur, fc_payload = take fin payload\<rparr>,
        ic_deadline = now + fragmentTimeout\<rparr> cs))"
proof -
  have u: "unat (of_nat tot :: u32) = tot" "unat (of_nat cur :: u32) = cur"
    using tot cur by (auto intro!: unat_of_nat_u32)
  have t0: "(of_nat tot :: u32) \<noteq> 0" "(of_nat tot :: u32) \<noteq> 1" "(of_nat cur :: u32) < of_nat tot"
    using u tot cur by (auto simp: word_less_nat_alt dest: arg_cong [where f = unat])
  have f: "fragment_UnmarshalBinary buf = Ret \<lparr>fr_messageType = fk_messageType k, fr_transactionID = fk_transactionID k,
      fr_total = of_nat tot, fr_current = of_nat cur, fr_payload = chunk\<rparr>"
    unfolding fragment_UnmarshalBinary_Ret buf using frag t0 by simp
  have k: "\<lparr>fk_messageType = fk_messageType k, fk_transactionID = fk_transactionID k\<rparr> = k" by simp
  have rd: "u32_at buf 0 = (Ret (fk_messageType k) :: (fragment_error, u32) outcome)"
    "u32_at buf 8 = (Ret (fk_transactionID k) :: (fragment_error, u32) outcome)" by (simp_all add: buf u32_at_in)
  note step = collectReceivedFrame_def rd f k t0 Let_def
  show ?thesis
  proof (cases "cur = 0")
    case True
    with pre chunk have "map_of cs k = None" "chunk = take fin payload" by (auto simp: holds_prefix_def)
    moreover have "cur + 1 \<noteq> tot" using True tot by simp
    ultimately show ?thesis using True by (simp add: step newFragmentCollector_def)
  next
    case False
    with pre obtain d where m: "map_of cs k = Some
        \<lparr>ic_collector = \<lparr>fc_messageType = fk_messageType k, fc_transactionID = fk_transactionID k, fc_total = of_nat tot,
           fc_current = of_nat (cur - 1), fc_payload = take ofs payload\<rparr>, ic_deadline = d\<rparr>"
      by (auto simp: holds_prefix_def)
    have s: "(of_nat cur :: u32) = of_nat (cur - 1) + 1" using False by (cases cur) simp_all
    let ?c = "\<lparr>fc_messageType = fk_messageType k, fc_transactionID = fk_transactionID k, fc_total = of_nat tot,
           fc_current = of_nat cur, fc_payload = take fin payload\<rparr>"
    have a: "collector_add \<lparr>fc_messageType = fk_messageType k, fc_transactionID = fk_transactionID k, fc_total = of_nat tot,
           fc_current = of_nat (cur - 1), fc_payload = take ofs payload\<rparr> buf = Ret ?c"
      unfolding collector_add_Ret f using s chunk by simp
    have "(of_nat cur :: u32) = of_nat tot - 1 \<longleftrightarrow> (of_nat (cur + 1) :: u32) = of_nat tot" by (auto simp: algebra_simps)
    also have "\<dots> \<longleftrightarrow> cur + 1 = tot"
      using u tot cur unat_of_nat_u32 [of "cur + 1"] by (metis Suc_eq_plus1 Suc_leI le_less_trans)
    finally have c: "collector_complete ?c \<longleftrightarrow> cur + 1 = tot" by (simp add: collector_complete_def)
    show ?thesis
    proof (cases "cur + 1 = tot")
      case True
      then have "collector_MarshalBinary ?c = Ret (frame_bytes (fk_messageType k) (fk_transactionID k) 1 0 payload)"
        using c last size by (subst collector_MarshalBinary_complete) simp_all
      with True c show ?thesis by (simp add: step m a [unfolded One_nat_def])
    qed (use c in \<open>simp add: step m a [unfolded One_nat_def]\<close>)
  qed
qed

lemma reassembly_run:
  assumes frag: "isFragmentMessage (fk_messageType k)" and n: "0 < n"
    and size: "20 + length payload < 2 ^ 32" and tot: "2 \<le> tot" "tot < 2 ^ 32"
  shows "collect_run cs evs = Ret (outs, cs') \<Longrightarrow> frames_readable evs \<Longrightarrow> distinct (map fst cs) \<Longrightarrow>
    frames_for k evs = frames_loop (fk_messageType k) (fk_transactionID k) tot n payload cur ofs \<Longrightarrow>
    holds_prefix k (of_nat tot) payload cur ofs cs deadline \<Longrightarrow> in_time k deadline evs \<Longrightarrow>
    ofs < length payload \<Longrightarrow> cur + (length payload - ofs + n - 1) div n = tot \<Longrightarrow>
    completed_for k outs = [frame_bytes (fk_messageType k) (fk_transactionID k) 1 0 payload]
    \<and> faults_for k outs = [] \<and> map_of cs' k = None"
proof (induction evs arbitrary: cs outs cur ofs deadline)
  case Nil
  then show ?case using n by (simp add: frames_loop.simps [of _ _ _ _ _ cur ofs] Let_def)
next
  case (Cons e evs)
  show ?case
  proof (cases e)
    case (TimedOut now)
    obtain ids outs1 where s: "collect_run (snd (expireFragmentCollectors cs now)) evs = Ret (outs1, cs')"
      "outs = ExpiredOut ids # outs1"
      using Cons.prems(1) unfolding TimedOut by (rule collect_run_TimedOut)
    have "holds_prefix k (of_nat tot) payload cur ofs (snd (expireFragmentCollectors cs now)) deadline"
      using Cons.prems(3,5,6) TimedOut by (auto simp: holds_prefix_def expire_map_of split: if_splits)
    with Cons.IH [OF s(1)] Cons.prems TimedOut s(2) show ?thesis by (simp add: expire_distinct)
  next
    case (GotFrame buf now)
    obtain complete fault cs1 outs1 where s: "collectReceivedFrame cs buf now = Ret ((complete, fault), cs1)"
      "collect_run cs1 evs = Ret (outs1, cs')" "outs = FrameOut (frame_key buf) complete fault # outs1"
      using Cons.prems(1) unfolding GotFrame by (rule collect_run_GotFrame)
    from Cons.prems GotFrame have buf12: "12 \<le> length buf" by simp
    then have d: "distinct (map fst cs1)" using collectReceivedFrame_distinct s(1) Cons.prems(3) by blast
    show ?thesis
    proof (cases "frame_key buf = k")
      case False
      then have "map_of cs1 k = map_of cs k" using collectReceivedFrame_other [OF buf12 s(1)] by simp
      then have "holds_prefix k (of_nat tot) payload cur ofs cs1 deadline"
        using Cons.prems(5) by (simp only: holds_prefix_def)
      with Cons.IH [OF s(2) _ d] Cons.prems GotFrame s(3) False show ?thesis by simp
    next
      case True
      define fin where "fin = min (ofs + n) (length payload)"
      from Cons.prems(4) True GotFrame Cons.prems(7) n have
        buf: "buf = frame_bytes (fk_messageType k) (fk_transactionID k) (of_nat tot) (of_nat cur) (take (fin - ofs) (drop ofs payload))"
        and rest: "frames_for k evs = frames_loop (fk_messageType k) (fk_transactionID k) tot n payload (cur + 1) fin"
        by (simp_all add: frames_loop.simps [of _ _ _ _ _ cur ofs] fin_def Let_def)
      have left: "(length payload - ofs + n - 1) div n = Suc ((length payload - fin + n - 1) div n)"
        using fragments_left [OF n, of "length payload - ofs"] Cons.prems(7) by (simp add: fin_def min_def split: if_splits)
      have zero: "(length payload - fin + n - 1) div n = 0 \<longleftrightarrow> fin = length payload"
        using n by (auto simp: fin_def div_eq_0_iff)
      have cur: "cur < tot" "cur + 1 = tot \<longleftrightarrow> fin = length payload" using Cons.prems(8) left zero by linarith+
      have chunk: "take ofs payload @ take (fin - ofs) (drop ofs payload) = take fin payload"
        using Cons.prems(7) by (simp add: take_add [symmetric] fin_def)
      note step = frame_step [OF frag tot cur(1) buf Cons.prems(5) chunk size cur(2), of now]
      show ?thesis
      proof (cases "fin = length payload")
        case whole: True
        then have c1: "complete = Some (frame_bytes (fk_messageType k) (fk_transactionID k) 1 0 payload)" "fault = None"
          "cs1 = AList.delete k cs" using step s(1) cur(2) by simp_all
        have "frames_for k evs = []" using rest whole by (simp add: frames_loop.simps [of _ _ _ _ _ _ "length payload"])
        with quiet_run [OF s(2) _ d, of k] c1 Cons.prems(2) GotFrame s(3) True show ?thesis
          by (simp add: AList.delete_conv')
      next
        case False
        then have c1: "complete = None" "fault = None"
          "holds_prefix k (of_nat tot) payload (cur + 1) fin cs1 (Some (now + fragmentTimeout))"
          using step s(1) cur(2) by (auto simp: holds_prefix_def AList.update_conv')
        have "fin < length payload" using False by (simp add: fin_def)
        with Cons.IH [OF s(2) _ d rest c1(3)] c1(1,2) Cons.prems(2,6,8) GotFrame s(3) True left show ?thesis by simp
      qed
    qed
  qed
qed

text \<open>A message that fits one frame is handed on as it is.\<close>

lemma single_run:
  "collect_run cs evs = Ret (outs, cs') \<Longrightarrow> frames_readable evs \<Longrightarrow> distinct (map fst cs) \<Longrightarrow>
   frames_for (frame_key data) evs = [data] \<Longrightarrow> map_of cs (frame_key data) = None \<Longrightarrow>
   20 \<le> length data \<Longrightarrow> isFragmentMessage (rd32 data 0) \<Longrightarrow> rd32 data 4 = of_nat (length data) \<Longrightarrow>
   rd32 data 12 = 1 \<Longrightarrow> rd32 data 16 = 0 \<Longrightarrow>
   completed_for (frame_key data) outs = [data] \<and> faults_for (frame_key data) outs = []
   \<and> map_of cs' (frame_key data) = None"
proof (induction evs arbitrary: cs outs)
  case (Cons e evs)
  show ?case
  proof (cases e)
    case (TimedOut now)
    obtain ids outs1 where s: "collect_run (snd (expireFragmentCollectors cs now)) evs = Ret (outs1, cs')"
      "outs = ExpiredOut ids # outs1"
      using Cons.prems(1) unfolding TimedOut by (rule collect_run_TimedOut)
    with Cons.IH [OF s(1)] Cons.prems TimedOut show ?thesis by (simp add: expire_map_of expire_distinct)
  next
    case (GotFrame buf now)
    obtain complete fault cs1 outs1 where s: "collectReceivedFrame cs buf now = Ret ((complete, fault), cs1)"
      "collect_run cs1 evs = Ret (outs1, cs')" "outs = FrameOut (frame_key buf) complete fault # outs1"
      using Cons.prems(1) unfolding GotFrame by (rule collect_run_GotFrame)
    from Cons.prems GotFrame have buf12: "12 \<le> length buf" by simp
    then have d: "distinct (map fst cs1)" using collectReceivedFrame_distinct s(1) Cons.prems(3) by blast
    show ?thesis
    proof (cases "frame_key buf = frame_key data")
      case False
      with collectReceivedFrame_other [OF buf12 s(1)] Cons.IH [OF s(2) _ d] Cons.prems GotFrame s(3) show ?thesis by simp
    next
      case True
      with Cons.prems GotFrame have buf: "buf = data" "frames_for (frame_key data) evs = []" by auto
      have f: "fragment_UnmarshalBinary data = Ret \<lparr>fr_messageType = rd32 data 0, fr_transactionID = rd32 data 8,
          fr_total = 1, fr_current = 0, fr_payload = drop 20 data\<rparr>"
        unfolding fragment_UnmarshalBinary_Ret using Cons.prems by simp
      have "collectReceivedFrame cs data now = Ret ((Some data, None), cs)"
        using Cons.prems(6) by (simp add: collectReceivedFrame_def u32_at_in f Let_def)
      with s(1) buf(1) have "complete = Some data" "fault = None" "cs1 = cs" by auto
      with quiet_run [OF s(2) _ d buf(2)] s(3) buf(1) Cons.prems(2,5) GotFrame show ?thesis by simp
    qed
  qed
qed simp

text \<open>C11: fragmentation round trip: a message that is split by \<open>Frames\<close> and whose frames
  reach the receiver in order, interleaved in any way with frames of other messages and with
  timer expiries that come before the deadlines, is handed on exactly once, byte for byte, with
  no fault reported for it and nothing left behind; while the data in flight stays below 4 GiB
  the receiver never panics.\<close>

theorem fragment_reassembly:
  assumes frames: "Frames \<lparr>fm_data = data, fm_maxFrameSize = maxFrameSize\<rparr> = Ret fs"
    and head: "20 \<le> length data" "length data < 2 ^ 32" "isFragmentMessage (rd32 data 0)"
      "rd32 data 4 = of_nat (length data)" "rd32 data 12 = 1" "rd32 data 16 = 0"
    and evs: "frames_for (frame_key data) evs = fs" "frames_readable evs" "in_time (frame_key data) None evs"
    and cs: "distinct (map fst cs)" "map_of cs (frame_key data) = None" "buffered cs + received evs < 2 ^ 32"
  shows "\<exists>outs cs'. collect_run cs evs = Ret (outs, cs') \<and> completed_for (frame_key data) outs = [data]
    \<and> faults_for (frame_key data) outs = [] \<and> map_of cs' (frame_key data) = None"
proof -
  obtain outs cs' where run: "collect_run cs evs = Ret (outs, cs')"
    using collect_run_returns evs(2) cs(3) by blast
  let ?k = "frame_key data"
  have data: "frame_bytes (fk_messageType ?k) (fk_transactionID ?k) 1 0 (drop 20 data) = data"
    using frame_bytes_split [OF head(1,4)] head(5,6) by (simp add: frame_key_def)
  have "completed_for ?k outs = [data] \<and> faults_for ?k outs = [] \<and> map_of cs' ?k = None"
  proof (cases "int (length data) \<le> maxFrameSize")
    case True
    then have "fs = [data]" using frames by (simp add: Frames_def)
    with single_run [OF run evs(2) cs(1)] head cs(2) evs(1) show ?thesis by simp
  next
    case False
    define n where "n = nat (maxFrameSize - 20)"
    define tot where "tot = max 1 ((length (drop 20 data) + n - 1) div n)"
    have n: "0 < n" and fs: "fs = frames_loop (fk_messageType ?k) (fk_transactionID ?k) tot n (drop 20 data) 0 0"
      using frames False head(1)
      by (auto simp: Frames_def u32_at_in Let_def n_def tot_def frame_key_def fail_if_def split: if_splits)
    have "n < length (drop 20 data)" using False n by (simp add: n_def)
    then have two: "2 \<le> (length (drop 20 data) + n - 1) div n" and len: "0 < length (drop 20 data)"
      using n by (simp_all add: less_eq_div_iff_mult_less_eq)
    have le: "tot < 2 ^ 32"
      using fragments_le [OF n, of "length (drop 20 data)"] head(2) by (simp add: tot_def)
    show ?thesis
      using reassembly_run [OF _ n _ _ le run evs(2) cs(1), of ?k "drop 20 data" 0 0 None] evs fs head two len cs(2) data
      by (simp add: holds_prefix_def tot_def frame_key_def)
  qed
  with run show ?thesis by blast
qed

definition sample_fragment :: "u32 \<Rightarrow> u32 \<Rightarrow> u32 \<Rightarrow> bytes \<Rightarrow> bytes" where
  "sample_fragment = frame_bytes MessageTypeCommand"

definition sample_events :: "fragment_event list" where
  "sample_events =
     [GotFrame (sample_fragment 5 2 0 [10, 11]) 100, GotFrame (sample_fragment 6 2 1 [1]) 200, TimedOut 300,
      GotFrame (sample_fragment 5 2 1 [12]) 400]"

lemma frame_key_sample [simp]:
  "frame_key (sample_fragment tid tot cur chunk) = \<lparr>fk_messageType = MessageTypeCommand, fk_transactionID = tid\<rparr>"
  by (simp add: frame_key_def sample_fragment_def)

lemma Frames_sample:
  "Frames \<lparr>fm_data = sample_fragment 5 1 0 [10, 11, 12], fm_maxFrameSize = 22\<rparr>
     = Ret [sample_fragment 5 2 0 [10, 11], sample_fragment 5 2 1 [12]]"
  by (simp add: Frames_def sample_fragment_def u32_at_in isFragmentMessage_def Let_def)
    (simp add: frames_loop.simps [of _ _ _ 2])

theorem fragment_reassembly_witness:
  "\<exists>outs cs'. collect_run [] sample_events = Ret (outs, cs')
    \<and> completed_for \<lparr>fk_messageType = MessageTypeCommand, fk_transactionID = 5\<rparr> outs = [sample_fragment 5 1 0 [10, 11, 12]]
    \<and> faults_for \<lparr>fk_messageType = MessageTypeCommand, fk_transactionID = 5\<rparr> outs = []
    \<and> map_of cs' \<lparr>fk_messageType = MessageTypeCommand, fk_transactionID = 5\<rparr> = None"
  using fragment_reassembly [OF Frames_sample, of sample_events "[]"]
  by (simp add: sample_events_def buffered_def fragmentTimeout_def isFragmentMessage_def)
    (simp add: sample_fragment_def isFragmentMessage_def)

section \<open>What the frames and the deliveries are\<close>

lemma frames_loop_fit:
  assumes "0 < n"
  shows "ofs \<le> length payload \<Longrightarrow>
    (\<forall>f \<in> set (frames_loop mt tid tot n payload cur ofs). length f \<le> 20 + n \<and> rd32 f 4 = of_nat (length f))
    \<and> length (frames_loop mt tid tot n payload cur ofs) = (length payload - ofs + n - 1) div n
    \<and> concat (map (drop 20) (frames_loop mt tid tot n payload cur ofs)) = drop ofs payload"
  using assms
proof (induction mt tid tot n payload cur ofs rule: frames_loop.induct)
  case (1 mt tid tot n payload cur ofs)
  show ?case
  proof (cases "ofs < length payload")
    case True
    define fin where "fin = min (ofs + n) (length payload)"
    have left: "(length payload - ofs + n - 1) div n = Suc ((length payload - fin + n - 1) div n)"
      using fragments_left [OF 1(3), of "length payload - ofs"] True by (simp add: fin_def min_def split: if_splits)
    have fin: "fin \<le> length payload" "fin - ofs \<le> n" "ofs \<le> fin" using True by (auto simp: fin_def)
    then have "take (fin - ofs) (drop ofs payload) @ drop fin payload = drop ofs payload"
      by (metis append_take_drop_id drop_drop le_add_diff_inverse2)
    moreover have "frames_loop mt tid tot n payload cur ofs =
        frame_bytes mt tid (of_nat tot) (of_nat cur) (take (fin - ofs) (drop ofs payload))
        # frames_loop mt tid tot n payload (cur + 1) fin"
      using True 1(3) by (simp add: frames_loop.simps [of _ _ _ _ _ cur ofs] fin_def Let_def)
    ultimately show ?thesis using "1.IH" [OF _ fin_def _ 1(3)] True 1(3) left fin by simp
  next
    case False
    then have "frames_loop mt tid tot n payload cur ofs = []" by (simp add: frames_loop.simps [of _ _ _ _ _ cur ofs])
    with 1 False show ?thesis by simp
  qed
qed

text \<open>Every frame \<open>Frames\<close> returns fits the negotiated frame size and states its own length;
  of a message that had to be split there are as many frames as the payload needs, and their
  payloads are the message's payload in order.\<close>

theorem Frames_fit:
  assumes "Frames \<lparr>fm_data = data, fm_maxFrameSize = maxFrameSize\<rparr> = Ret fs"
  shows "list_all (\<lambda>f. int (length f) \<le> maxFrameSize) fs
    \<and> (maxFrameSize < int (length data) \<longrightarrow>
        list_all (\<lambda>f. rd32 f 4 = of_nat (length f)) fs \<and> concat (map (drop 20) fs) = drop 20 data
        \<and> length fs = (length data - 20 + nat (maxFrameSize - 20) - 1) div nat (maxFrameSize - 20))"
proof (cases "int (length data) \<le> maxFrameSize")
  case True
  then show ?thesis using assms by (auto simp: Frames_def)
next
  case False
  define n where "n = nat (maxFrameSize - 20)"
  obtain mt tid tot where fs: "fs = frames_loop mt tid tot n (drop 20 data) 0 0" and n: "0 < n"
    using assms False by (auto simp: Frames_def Let_def n_def fail_if_def split: if_splits)
  have "int (20 + n) = maxFrameSize" using n by (simp add: n_def)
  with frames_loop_fit [OF n, of 0 "drop 20 data" mt tid tot 0] fs False show ?thesis
    unfolding list_all_iff n_def [symmetric] by auto
qed

theorem Frames_fit_witness:
  "list_all (\<lambda>f. int (length f) \<le> 22) [sample_fragment 5 2 0 [10, 11], sample_fragment 5 2 1 [12]]"
  using Frames_fit [OF Frames_sample] by blast

text \<open>The fragments behind a partial or assembled message: consecutive from 0, all naming the same count.\<close>

definition in_sequence :: "u32 \<Rightarrow> bytes list \<Rightarrow> bool" where
  "in_sequence tot fs \<longleftrightarrow> (\<forall>i < length fs. rd32 (fs ! i) 12 = tot \<and> rd32 (fs ! i) 16 = of_nat i)"

definition assembled_from :: "fragmentKey \<Rightarrow> bytes list \<Rightarrow> bytes \<Rightarrow> bool" where
  "assembled_from k history buf \<longleftrightarrow>
     buf \<in> set history \<or>
     (\<exists>fs. subseq fs history \<and> in_sequence (of_nat (length fs)) fs
        \<and> buf = frame_bytes (fk_messageType k) (fk_transactionID k) 1 0 (concat (map (drop 20) fs)))"

definition entry_from :: "fragmentKey \<Rightarrow> bytes list \<Rightarrow> incomingFragmentCollection \<Rightarrow> bool" where
  "entry_from k history e \<longleftrightarrow>
     (\<exists>fs. fs \<noteq> [] \<and> subseq fs history \<and> in_sequence (fc_total (ic_collector e)) fs
        \<and> fc_messageType (ic_collector e) = fk_messageType k \<and> fc_transactionID (ic_collector e) = fk_transactionID k
        \<and> fc_current (ic_collector e) = of_nat (length fs - 1) \<and> fc_payload (ic_collector e) = concat (map (drop 20) fs))"

lemma in_sequence_snoc:
  "in_sequence tot (fs @ [f]) \<longleftrightarrow> in_sequence tot fs \<and> rd32 f 12 = tot \<and> rd32 f 16 = of_nat (length fs)"
  by (auto simp: in_sequence_def nth_append less_Suc_eq)

lemma entry_from_mono: "entry_from k h e \<Longrightarrow> entry_from k (h @ h') e"
  unfolding entry_from_def by (meson list_emb_append2 subseq_append_iff subseq_order.trans subseq_rev_drop_many)

lemma assembled_from_mono: "assembled_from k h b \<Longrightarrow> assembled_from k (h @ h') b"
  unfolding assembled_from_def by (metis Un_iff list_emb_append_mono append_Nil2 list_emb_Nil set_append subseq_order.order_refl)

lemma collect_entry:
  assumes buf: "12 \<le> length buf" "frame_key buf = k" and size: "buffered cs + length buf < 2 ^ 32"
    and step: "collectReceivedFrame cs buf now = Ret ((complete, fault), cs')"
    and entries: "\<forall>e. map_of cs k = Some e \<longrightarrow> entry_from k h e"
  shows "(\<forall>e. map_of cs' k = Some e \<longrightarrow> entry_from k (h @ [buf]) e)
    \<and> (\<forall>b. complete = Some b \<longrightarrow> assembled_from k (h @ [buf]) b)"
proof -
  have rd: "u32_at buf 0 = (Ret (fk_messageType k) :: (fragment_error, u32) outcome)"
    "u32_at buf 8 = (Ret (fk_transactionID k) :: (fragment_error, u32) outcome)"
    using buf by (auto simp: u32_at_in frame_key_def)
  have k: "\<lparr>fk_messageType = fk_messageType k, fk_transactionID = fk_transactionID k\<rparr> = k" by simp
  note s = step [unfolded collectReceivedFrame_def rd, simplified, unfolded k Let_def]
  show ?thesis
  proof (cases "fragment_UnmarshalBinary buf")
    case (Ret f)
    show ?thesis
    proof (cases "fr_total f = 1")
      case True
      with s Ret entries show ?thesis by (auto simp: assembled_from_def intro: entry_from_mono)
    next
      case False
      show ?thesis
      proof (cases "map_of cs k")
        case None
        with s Ret False buf(2) show ?thesis
          by (fastforce simp: newFragmentCollector_def fragment_UnmarshalBinary_Ret entry_from_def in_sequence_def
              frame_key_def AList.update_conv' split: if_splits outcome.splits intro!: exI [of _ "[buf]"])
      next
        case (Some e)
        then obtain fs where fs: "fs \<noteq> []" "subseq fs h" "in_sequence (fc_total (ic_collector e)) fs"
          "fc_messageType (ic_collector e) = fk_messageType k" "fc_transactionID (ic_collector e) = fk_transactionID k"
          "fc_current (ic_collector e) = of_nat (length fs - 1)" "fc_payload (ic_collector e) = concat (map (drop 20) fs)"
          using entries by (auto simp: entry_from_def)
        show ?thesis
        proof (cases "collector_add (ic_collector e) buf")
          case (Ret c)
          note c = this
          have cur: "(of_nat (length fs - 1) :: u32) + 1 = of_nat (length fs)" using fs(1) by (cases fs) simp_all
          have c': "fc_total c = fc_total (ic_collector e)" "fc_messageType c = fk_messageType k" "fc_transactionID c = fk_transactionID k"
            "fc_current c = of_nat (length fs)" "fc_payload c = concat (map (drop 20) (fs @ [buf]))"
            "in_sequence (fc_total c) (fs @ [buf])"
            "length (fc_payload c) + 20 \<le> buffered cs + length buf"
            using c fs cur buffered_entry [OF Some]
            by (auto simp: collector_add_Ret fragment_UnmarshalBinary_Ret in_sequence_snoc)
          have sub: "subseq (fs @ [buf]) (h @ [buf])" using fs(2) by simp
          have e1: "entry_from k (h @ [buf]) \<lparr>ic_collector = c, ic_deadline = d\<rparr>" for d
            unfolding entry_from_def using c' sub by (intro exI [of _ "fs @ [buf]"]) simp
          show ?thesis
          proof (cases "collector_complete c")
            case True
            then have "fc_total c = of_nat (length (fs @ [buf]))" using c'(4) by (simp add: collector_complete_def algebra_simps)
            moreover have "collector_MarshalBinary c = Ret (frame_bytes (fk_messageType k) (fk_transactionID k) 1 0 (fc_payload c))"
              using collector_MarshalBinary_complete [OF True] c' size by simp
            ultimately have "complete = Some (frame_bytes (fk_messageType k) (fk_transactionID k) 1 0 (concat (map (drop 20) (fs @ [buf]))))"
              "map_of cs' k = None" "in_sequence (of_nat (length (fs @ [buf]))) (fs @ [buf])"
              using s \<open>fragment_UnmarshalBinary buf = Ret f\<close> False Some c True c'(5,6) by (auto simp: AList.delete_conv')
            with sub have "assembled_from k (h @ [buf]) (the complete)"
              unfolding assembled_from_def by (intro disjI2 exI [of _ "fs @ [buf]"]) simp
            with \<open>complete = _\<close> \<open>map_of cs' k = None\<close> show ?thesis by simp
          qed (use s \<open>fragment_UnmarshalBinary buf = Ret f\<close> False Some c e1 in \<open>auto simp: AList.update_conv'\<close>)
        qed (use s Ret False Some in \<open>auto simp: AList.delete_conv'\<close>)
      qed
    qed
  qed (use s in \<open>auto simp: AList.delete_conv'\<close>)
qed

lemma assembled_run:
  "collect_run cs evs = Ret (outs, cs') \<Longrightarrow> frames_readable evs \<Longrightarrow> distinct (map fst cs) \<Longrightarrow>
   buffered cs + received evs < 2 ^ 32 \<Longrightarrow> (\<forall>e. map_of cs k = Some e \<longrightarrow> entry_from k h e) \<Longrightarrow>
   b \<in> set (completed_for k outs) \<Longrightarrow> assembled_from k (h @ frames_for k evs) b"
proof (induction evs arbitrary: cs outs h)
  case (Cons e evs)
  show ?case
  proof (cases e)
    case (TimedOut now)
    obtain ids outs1 where s: "collect_run (snd (expireFragmentCollectors cs now)) evs = Ret (outs1, cs')"
      "outs = ExpiredOut ids # outs1"
      using Cons.prems(1) unfolding TimedOut by (rule collect_run_TimedOut)
    have "buffered (snd (expireFragmentCollectors cs now)) \<le> buffered cs"
      by (simp add: expireFragmentCollectors_def snd_expire_loop buffered_filter)
    with Cons.prems(3-6) TimedOut s(2) Cons.IH [OF s(1), of h] Cons.prems(2) show ?thesis
      by (auto simp: expire_map_of expire_distinct split: option.splits if_splits)
  next
    case (GotFrame buf now)
    obtain complete fault cs1 outs1 where s: "collectReceivedFrame cs buf now = Ret ((complete, fault), cs1)"
      "collect_run cs1 evs = Ret (outs1, cs')" "outs = FrameOut (frame_key buf) complete fault # outs1"
      using Cons.prems(1) unfolding GotFrame by (rule collect_run_GotFrame)
    from Cons.prems GotFrame have buf12: "12 \<le> length buf" and size: "buffered cs + length buf < 2 ^ 32" by simp_all
    then have d: "distinct (map fst cs1)" using collectReceivedFrame_distinct s(1) Cons.prems(3) by blast
    have b1: "buffered cs1 + received evs < 2 ^ 32"
      using collectReceivedFrame_returns [OF buf12 size, of now] s(1) Cons.prems(4) GotFrame by auto
    show ?thesis
    proof (cases "frame_key buf = k")
      case False
      with Cons.IH [OF s(2) _ d b1, of h] collectReceivedFrame_other [OF buf12 s(1)] Cons.prems GotFrame s(3)
      show ?thesis by auto
    next
      case True
      note ce = collect_entry [OF buf12 True size s(1) Cons.prems(5)]
      have more: "assembled_from k (h @ [buf]) b \<Longrightarrow> assembled_from k (h @ frames_for k (e # evs)) b"
        using True GotFrame assembled_from_mono [of k "h @ [buf]" b "frames_for k evs"] by simp
      have "complete = Some b \<or> b \<in> set (completed_for k outs1)"
        using Cons.prems(6) s(3) True by (cases complete) auto
      then show ?thesis
        using ce more Cons.IH [OF s(2) _ d b1, of "h @ [buf]"] Cons.prems(2) GotFrame True by auto
    qed
  qed
qed simp

text \<open>C13: whatever the receiver hands on is genuine: it is one of the frames received for that
  message type and transaction, or the header of an unfragmented message followed by the payloads of
  a subsequence of the received frames that runs through fragments 0, 1, ... without gap or
  repetition up to the count all of them name; pieces of different messages never mix.\<close>

theorem completed_messages_genuine:
  assumes "collect_run [] evs = Ret (outs, cs')" "frames_readable evs" "received evs < 2 ^ 32"
    and "b \<in> set (completed_for k outs)"
  shows "assembled_from k (frames_for k evs) b"
  using assembled_run [OF assms(1,2) _ _ _ assms(4), of "[]"] assms(3) by (simp add: buffered_def)

lemma sample_events_run:
  "\<exists>outs cs'. collect_run [] sample_events = Ret (outs, cs')
    \<and> sample_fragment 5 1 0 [10, 11, 12] \<in> set (completed_for \<lparr>fk_messageType = MessageTypeCommand, fk_transactionID = 5\<rparr> outs)"
  by (intro exI conjI, code_simp)
    (simp add: sample_fragment_def frame_bytes_def put_le32_def MessageTypeCommand_def)

theorem completed_messages_genuine_witness:
  "assembled_from \<lparr>fk_messageType = MessageTypeCommand, fk_transactionID = 5\<rparr>
     [sample_fragment 5 2 0 [10, 11], sample_fragment 5 2 1 [12]] (sample_fragment 5 1 0 [10, 11, 12])"
proof -
  obtain outs cs' where "collect_run [] sample_events = Ret (outs, cs')"
    "sample_fragment 5 1 0 [10, 11, 12] \<in> set (completed_for \<lparr>fk_messageType = MessageTypeCommand, fk_transactionID = 5\<rparr> outs)"
    using sample_events_run by blast
  then show ?thesis
    using completed_messages_genuine [of sample_events outs cs' "sample_fragment 5 1 0 [10, 11, 12]"
        "\<lparr>fk_messageType = MessageTypeCommand, fk_transactionID = 5\<rparr>"]
    by (simp add: sample_events_def) (simp add: sample_fragment_def)
qed

section \<open>The fragment timer\<close>

lemma nextFragmentDeadline_loop_min:
  "(\<forall>(k, c) \<in> set cs. ic_deadline c \<noteq> 0) \<Longrightarrow> d \<noteq> 0 \<or> cs \<noteq> [] \<Longrightarrow>
   nextFragmentDeadline_loop d cs = Min ((if d = 0 then {} else {d}) \<union> ic_deadline ` snd ` set cs)"
proof (induction d cs rule: nextFragmentDeadline_loop.induct)
  case (2 d k c rest)
  let ?d = "if d = 0 \<or> ic_deadline c < d then ic_deadline c else d"
  have "?d \<noteq> 0" using 2(2) by auto
  with 2 have "nextFragmentDeadline_loop ?d rest = Min ({?d} \<union> ic_deadline ` snd ` set rest)" by auto
  also have "\<dots> = Min ((if d = 0 then {} else {d}) \<union> ic_deadline ` snd ` set ((k, c) # rest))"
    by (cases "ic_deadline ` snd ` set rest = {}") (auto simp: min_def)
  finally show ?case by simp
qed simp

text \<open>The timer is armed exactly when a partial message is held, and it is accurate: firing
  after the armed delay expires at least one of them and only those whose deadline has come, names
  every expired transaction exactly once, and leaves the others in place; no earlier firing
  expires anything (when the clock is not already past the earliest deadline).\<close>

theorem fragment_timer_accurate:
  assumes "list_all (\<lambda>(k, c). ic_deadline c \<noteq> 0) cs"
  shows "(resetFragmentTimer cs now = None \<longleftrightarrow> cs = [])
    \<and> (resetFragmentTimer cs now = Some delay \<longrightarrow>
        fst (expireFragmentCollectors cs (now + delay)) \<noteq> []
        \<and> (\<forall>t. snd (expireFragmentCollectors cs t) = filter (\<lambda>(k, c). ic_deadline c > t) cs
             \<and> distinct (fst (expireFragmentCollectors cs t))
             \<and> set (fst (expireFragmentCollectors cs t)) = (\<lambda>(k, c). fk_transactionID k) ` {(k, c) \<in> set cs. ic_deadline c \<le> t}
             \<and> (t < now + delay \<and> 0 < delay \<longrightarrow> expireFragmentCollectors cs t = ([], cs))))"
proof (cases "cs = []")
  case True
  then show ?thesis by (simp add: resetFragmentTimer_def)
next
  case False
  define m where "m = Min (ic_deadline ` snd ` set cs)"
  have next_: "fst (nextFragmentDeadline cs) = m"
    using nextFragmentDeadline_loop_min [of cs 0] assms False
    by (auto simp: nextFragmentDeadline_def m_def list_all_iff Let_def)
  have "m \<in> ic_deadline ` snd ` set cs" using False by (auto simp: m_def intro!: Min_in)
  then obtain k c where kc: "(k, c) \<in> set cs" "ic_deadline c = m" by auto
  have le: "m \<le> ic_deadline c'" if "(k', c') \<in> set cs" for k' c'
    unfolding m_def using that by (intro Min_le) force+
  have fired: "set (fst (expireFragmentCollectors cs t)) = (\<lambda>(k, c). fk_transactionID k) ` {(k, c) \<in> set cs. ic_deadline c \<le> t}"
    "distinct (fst (expireFragmentCollectors cs t))"
    "snd (expireFragmentCollectors cs t) = filter (\<lambda>(k, c). ic_deadline c > t) cs" for t
    using fst_expire_loop [of t "[]" cs] snd_expire_loop [of t "[]" cs]
    by (auto simp: expireFragmentCollectors_def image_iff)
  have early: "expireFragmentCollectors cs t = ([], cs)" if "t < m" for t
  proof (rule prod_eqI)
    have "set (fst (expireFragmentCollectors cs t)) = {}" unfolding fired(1) using le that by fastforce
    then show "fst (expireFragmentCollectors cs t) = fst ([], cs)" by simp
    show "snd (expireFragmentCollectors cs t) = snd ([], cs)"
      using fired(3) [of t] le that by (auto simp: filter_id_conv intro: less_le_trans)
  qed
  have "fst (expireFragmentCollectors cs t) \<noteq> []" if "m \<le> t" for t
  proof -
    have "fk_transactionID k \<in> set (fst (expireFragmentCollectors cs t))" using fired(1) [of t] kc that by force
    then show ?thesis by auto
  qed
  with fired early False show ?thesis by (auto simp: resetFragmentTimer_def next_ Let_def)
qed

definition sample_collectors :: collectors where
  "sample_collectors =
     [(\<lparr>fk_messageType = MessageTypeCommand, fk_transactionID = 5\<rparr>,
       \<lparr>ic_collector = \<lparr>fc_messageType = MessageTypeCommand, fc_transactionID = 5, fc_total = 2, fc_current = 0, fc_payload = [1]\<rparr>,
        ic_deadline = 40\<rparr>)]"

theorem fragment_timer_accurate_witness: "fst (expireFragmentCollectors sample_collectors (10 + 30)) \<noteq> []"
  using fragment_timer_accurate [of sample_collectors 10 30]
  by (simp add: sample_collectors_def resetFragmentTimer_def nextFragmentDeadline_def)

end
