(* ===== verification/Mbim_Dispatch.thy ===== *)
theory Mbim_Dispatch
  imports Mbim_Fragment "HOL-Library.Multiset"
begin

text \<open>
  The MBIM dispatcher (\<^verbatim>\<open>mbim/dispatcher.go\<close> and the state part of \<^verbatim>\<open>mbim/mbim.go\<close>): pending
  transactions, indication subscriptions and waiters, the bounded queue of unclaimed
  indications, the receive loop, failure, close, and the leases of a shared client. Operations
  under the mutex are atomic. Sends that an operation performs after releasing the mutex are
  entries of an outbox, performed one at a time and in any order; sends made under the mutex are
  part of the operation, and an operation whose send could not proceed has no result.
\<close>

section \<open>State\<close>

type_synonym mchan = nat
type_synonym clientLease = nat

datatype mb_error =
    ErrClientClosed
  | ErrClientLeaseClosed
  | ErrReceiverStopped
  | NilConnection
  | UnsupportedRequestType MessageType
  | TransactionPending u32
  | ReceivingMessage mbim_error
  | IndicationError mbim_error
  | ProtocolStatus ProtocolError
  | WriteFailed string
  | CtxDone

datatype mb_result = ResultData bytes | ResultErr mb_error

datatype 'a WatchResult = WatchValue 'a | WatchErr mb_error

record indicationKey =
  ik_serviceID :: bytes
  ik_commandID :: u32

record responseWaiter =
  rw_messageType :: MessageType
  rw_serviceID :: bytes
  rw_commandID :: u32
  rw_expectCommand :: bool
  rw_ch :: mchan
  rw_owner :: "clientLease option"

record indicationWaiter =
  iw_ch :: mchan
  iw_owner :: "clientLease option"

text \<open>A buffered channel of watch results.\<close>

record wchan =
  wc_cap :: nat
  wc_buf :: "Indication WatchResult list"
  wc_closed :: bool

text \<open>
  The sends left after the mutex is released: a response result; the terminal result of a
  subscription, with or without closing it; the terminal result of an indication waiter, as a
  blocking send or as a non-blocking one followed by a close.
\<close>

datatype outgoing =
    SendResult mchan mb_result
  | EndSubscription mchan mb_error
  | FailSubscription mchan mb_error
  | FailWaiter mchan mb_error
  | EndWaiter mchan mb_error

text \<open>
  \<open>clientState\<close> with the connection (present or nil), the closed leases, the channel
  buffers, the outbox and the next fresh channel.
\<close>

record clientState =
  cs_conn :: bool
  cs_txn :: u32
  cs_closed :: bool
  cs_closing :: bool
  cs_receiverStarted :: bool
  cs_receiverErr :: "mb_error option"
  cs_pending :: "(u32 \<times> responseWaiter) list"
  cs_subs :: "(indicationKey \<times> (mchan \<times> clientLease option) list) list"
  cs_waiters :: "(indicationKey \<times> indicationWaiter list) list"
  cs_indications :: "(indicationKey \<times> Indication list) list"
  cs_closedLeases :: "clientLease list"
  cs_results :: "mchan \<Rightarrow> mb_result list"
  cs_watch :: "mchan \<Rightarrow> wchan"
  cs_outbox :: "outgoing list"
  cs_next :: mchan

definition newClientState :: clientState where
  "newClientState =
     \<lparr>cs_conn = True, cs_txn = 0, cs_closed = False, cs_closing = False, cs_receiverStarted = False,
      cs_receiverErr = None, cs_pending = [], cs_subs = [], cs_waiters = [], cs_indications = [],
      cs_closedLeases = [], cs_results = (\<lambda>_. []), cs_watch = (\<lambda>_. \<lparr>wc_cap = 0, wc_buf = [], wc_closed = False\<rparr>),
      cs_outbox = [], cs_next = 0\<rparr>"

definition leaseClosed :: "clientLease option \<Rightarrow> clientState \<Rightarrow> bool" where
  "leaseClosed lease c = (case lease of None \<Rightarrow> False | Some l \<Rightarrow> l \<in> set (cs_closedLeases c))"

definition maxQueuedIndications :: nat where "maxQueuedIndications = 32"

section \<open>Starting and closing\<close>

definition ensureReceiverLocked :: "clientLease option \<Rightarrow> bool \<Rightarrow> clientState \<Rightarrow> (mb_error, clientState) outcome" where
  "ensureReceiverLocked lease allowClosing c =
     (if leaseClosed lease c then Fail ErrClientLeaseClosed
      else if cs_closed c then Fail ErrClientClosed
      else if cs_closing c \<and> \<not> allowClosing then Fail ErrClientClosed
      else case cs_receiverErr c of
        Some e \<Rightarrow> Fail e
      | None \<Rightarrow>
          if cs_receiverStarted c then Ret c
          else if \<not> cs_conn c then Fail NilConnection
          else Ret (c\<lparr>cs_receiverStarted := True\<rparr>))"

definition beginClose :: "clientState \<Rightarrow> bool \<times> clientState" where
  "beginClose c = (if cs_closed c \<or> cs_closing c then (False, c) else (True, c\<lparr>cs_closing := True\<rparr>))"

definition finishClose :: "clientState \<Rightarrow> clientState" where
  "finishClose c = c\<lparr>cs_closed := True\<rparr>"

definition mb_nextTransactionID :: "clientState \<Rightarrow> u32 \<times> clientState" where
  "mb_nextTransactionID c = (cs_txn c + 1, c\<lparr>cs_txn := cs_txn c + 1\<rparr>)"

section \<open>Responses\<close>

definition registerResponse ::
  "clientLease option \<Rightarrow> Request \<Rightarrow> bool \<Rightarrow> clientState \<Rightarrow> (mb_error, mchan) outcome \<times> clientState" where
  "registerResponse lease request allowClosing c =
     (case responseMessageType (rq_MessageType request) of
        None \<Rightarrow> (Fail (UnsupportedRequestType (rq_MessageType request)), c)
      | Some messageType \<Rightarrow>
          (case ensureReceiverLocked lease allowClosing c of
             Panic \<Rightarrow> (Panic, c)
           | Fail e \<Rightarrow> (Fail e, c)
           | Ret c1 \<Rightarrow>
               if map_of (cs_pending c1) (rq_TransactionID request) \<noteq> None
               then (Fail (TransactionPending (rq_TransactionID request)), c1)
               else
                 let ch = cs_next c1;
                     (serviceID, commandID, expectCommand) =
                       (case expectedCommand request of Some (s, i) \<Rightarrow> (s, i, True) | None \<Rightarrow> (replicate 16 0, 0, False));
                     waiter = \<lparr>rw_messageType = messageType, rw_serviceID = serviceID, rw_commandID = commandID,
                               rw_expectCommand = expectCommand, rw_ch = ch, rw_owner = lease\<rparr>
                 in (Ret ch, c1\<lparr>cs_pending := AList.update (rq_TransactionID request) waiter (cs_pending c1),
                               cs_results := (cs_results c1)(ch := []), cs_next := ch + 1\<rparr>)))"

definition unregisterResponse :: "u32 \<Rightarrow> mchan \<Rightarrow> clientState \<Rightarrow> clientState" where
  "unregisterResponse transactionID ch c =
     (case map_of (cs_pending c) transactionID of
        Some waiter \<Rightarrow> if rw_ch waiter = ch then c\<lparr>cs_pending := AList.delete transactionID (cs_pending c)\<rparr> else c
      | None \<Rightarrow> c)"

definition failResponse :: "u32 \<Rightarrow> mb_error \<Rightarrow> clientState \<Rightarrow> clientState" where
  "failResponse transactionID err c =
     (case map_of (cs_pending c) transactionID of
        Some waiter \<Rightarrow> c\<lparr>cs_pending := AList.delete transactionID (cs_pending c),
                         cs_outbox := cs_outbox c @ [SendResult (rw_ch waiter) (ResultErr err)]\<rparr>
      | None \<Rightarrow> c)"

definition waiter_matches :: "responseWaiter \<Rightarrow> MessageType \<Rightarrow> bytes \<Rightarrow> (mbim_error, bool) outcome" where
  "waiter_matches w messageType data =
     (if messageType \<noteq> rw_messageType w \<and> messageType \<noteq> MessageTypeFunctionError then Ret False
      else if messageType \<noteq> MessageTypeCommandDone \<or> \<not> rw_expectCommand w then Ret True
      else case commandDoneHeader_UnmarshalBinary data of
             Panic \<Rightarrow> Panic
           | Fail e \<Rightarrow> Ret True
           | Ret header \<Rightarrow> Ret (cdh_ServiceID header = rw_serviceID w \<and> cdh_CommandID header = rw_commandID w))"

definition mb_deliverResponse :: "MessageType \<Rightarrow> bytes \<Rightarrow> clientState \<Rightarrow> (mbim_error, clientState) outcome" where
  "mb_deliverResponse messageType data c =
     bind (u32_at data 8) (\<lambda>transactionID.
       case map_of (cs_pending c) transactionID of
         None \<Rightarrow> Ret c
       | Some waiter \<Rightarrow>
           bind (waiter_matches waiter messageType data) (\<lambda>ok.
             if \<not> ok then Ret c
             else Ret (c\<lparr>cs_pending := AList.delete transactionID (cs_pending c),
                         cs_outbox := cs_outbox c @ [SendResult (rw_ch waiter) (ResultData data)]\<rparr>)))"

section \<open>Stopping the receiver and closing a lease\<close>

definition stopReceiver :: "mb_error \<Rightarrow> clientState \<Rightarrow> clientState" where
  "stopReceiver err c =
     c\<lparr>cs_receiverErr := (case cs_receiverErr c of None \<Rightarrow> Some err | Some e \<Rightarrow> Some e),
       cs_pending := [], cs_subs := [], cs_waiters := [], cs_receiverStarted := False,
       cs_outbox := cs_outbox c
         @ map (\<lambda>(tid, w). SendResult (rw_ch w) (ResultErr err)) (cs_pending c)
         @ concat (map (\<lambda>(key, set). map (\<lambda>(ch, owner). EndSubscription ch err) set) (cs_subs c))
         @ concat (map (\<lambda>(key, set). map (\<lambda>w. EndWaiter (iw_ch w) err) set) (cs_waiters c))\<rparr>"

definition mb_closeLease :: "clientLease option \<Rightarrow> clientState \<Rightarrow> clientState" where
  "mb_closeLease lease c =
     (case lease of
        None \<Rightarrow> c
      | Some l \<Rightarrow>
          if l \<in> set (cs_closedLeases c) then c
          else c\<lparr>cs_closedLeases := l # cs_closedLeases c,
                 cs_pending := filter (\<lambda>(tid, w). rw_owner w \<noteq> Some l) (cs_pending c),
                 cs_subs := filter (\<lambda>(key, set). set \<noteq> [])
                   (map (\<lambda>(key, set). (key, filter (\<lambda>(ch, owner). owner \<noteq> Some l) set)) (cs_subs c)),
                 cs_waiters := filter (\<lambda>(key, set). set \<noteq> [])
                   (map (\<lambda>(key, set). (key, filter (\<lambda>w. iw_owner w \<noteq> Some l) set)) (cs_waiters c)),
                 cs_outbox := cs_outbox c
                   @ map (\<lambda>(tid, w). SendResult (rw_ch w) (ResultErr ErrClientLeaseClosed))
                       (filter (\<lambda>(tid, w). rw_owner w = Some l) (cs_pending c))
                   @ concat (map (\<lambda>(key, set). map (\<lambda>(ch, owner). FailSubscription ch ErrClientLeaseClosed)
                       (filter (\<lambda>(ch, owner). owner = Some l) set)) (cs_subs c))
                   @ concat (map (\<lambda>(key, set). map (\<lambda>w. FailWaiter (iw_ch w) ErrClientLeaseClosed)
                       (filter (\<lambda>w. iw_owner w = Some l) set)) (cs_waiters c))\<rparr>)"

section \<open>Channels of watch results\<close>

text \<open>A send that may block: no result when the buffer is full, or when the channel is closed
  (a panic). Without a receiver at hand the send needs room in the buffer.\<close>

definition chan_send :: "Indication WatchResult \<Rightarrow> wchan \<Rightarrow> wchan option" where
  "chan_send r ch =
     (if wc_closed ch \<or> wc_cap ch \<le> length (wc_buf ch) then None else Some (ch\<lparr>wc_buf := wc_buf ch @ [r]\<rparr>))"

text \<open>Three non-blocking selects: send; else drop the oldest; send again. The send panics on a
  closed channel.\<close>

definition deliverWatchResult :: "Indication WatchResult \<Rightarrow> wchan \<Rightarrow> wchan option" where
  "deliverWatchResult r ch =
     (if wc_closed ch then None
      else if length (wc_buf ch) < wc_cap ch then Some (ch\<lparr>wc_buf := wc_buf ch @ [r]\<rparr>)
      else let buf = tl (wc_buf ch) in
           Some (ch\<lparr>wc_buf := (if length buf < wc_cap ch then buf @ [r] else buf)\<rparr>))"

text \<open>One send of the outbox.\<close>

definition perform :: "outgoing \<Rightarrow> clientState \<Rightarrow> clientState option" where
  "perform m c =
     (case m of
        SendResult ch r \<Rightarrow>
          if cs_results c ch = [] then Some (c\<lparr>cs_results := (cs_results c)(ch := [r])\<rparr>) else None
      | EndSubscription ch e \<Rightarrow>
          map_option (\<lambda>w. c\<lparr>cs_watch := (cs_watch c)(ch := w\<lparr>wc_closed := True\<rparr>)\<rparr>)
            (deliverWatchResult (WatchErr e) (cs_watch c ch))
      | FailSubscription ch e \<Rightarrow>
          map_option (\<lambda>w. c\<lparr>cs_watch := (cs_watch c)(ch := w)\<rparr>) (deliverWatchResult (WatchErr e) (cs_watch c ch))
      | FailWaiter ch e \<Rightarrow>
          map_option (\<lambda>w. c\<lparr>cs_watch := (cs_watch c)(ch := w)\<rparr>) (chan_send (WatchErr e) (cs_watch c ch))
      | EndWaiter ch e \<Rightarrow>
          if wc_closed (cs_watch c ch) then None
          else Some (c\<lparr>cs_watch := (cs_watch c)(ch :=
            (case chan_send (WatchErr e) (cs_watch c ch) of Some w \<Rightarrow> w | None \<Rightarrow> cs_watch c ch)\<lparr>wc_closed := True\<rparr>)\<rparr>))"

section \<open>Indications\<close>

definition indication_key :: "Indication \<Rightarrow> indicationKey" where
  "indication_key i = \<lparr>ik_serviceID = in_ServiceID i, ik_commandID = in_CommandID i\<rparr>"

definition entries :: "('k \<times> 'v list) list \<Rightarrow> 'k \<Rightarrow> 'v list" where
  "entries al key = (case map_of al key of Some vs \<Rightarrow> vs | None \<Rightarrow> [])"

definition set_entries :: "'k \<Rightarrow> 'v list \<Rightarrow> ('k \<times> 'v list) list \<Rightarrow> ('k \<times> 'v list) list" where
  "set_entries key vs al = (if vs = [] then AList.delete key al else AList.update key vs al)"

definition queueIndicationLocked :: "indicationKey \<Rightarrow> Indication \<Rightarrow> clientState \<Rightarrow> clientState" where
  "queueIndicationLocked key indication c =
     (let queue = entries (cs_indications c) key @ [indication];
          queue = (if length queue > maxQueuedIndications
                   then drop (length queue - maxQueuedIndications) queue else queue)
      in c\<lparr>cs_indications := AList.update key queue (cs_indications c)\<rparr>)"

fun deliver_all :: "Indication WatchResult \<Rightarrow> mchan list \<Rightarrow> (mchan \<Rightarrow> wchan) \<Rightarrow> (mchan \<Rightarrow> wchan) option" where
  "deliver_all r [] w = Some w"
| "deliver_all r (ch # chs) w =
     (case deliverWatchResult r (w ch) of None \<Rightarrow> None | Some wc \<Rightarrow> deliver_all r chs (w(ch := wc)))"

definition publishIndication :: "Indication \<Rightarrow> clientState \<Rightarrow> clientState option" where
  "publishIndication indication c =
     (let key = indication_key indication;
          subs = entries (cs_subs c) key;
          waiters = entries (cs_waiters c) key
      in if subs = [] \<and> waiters = [] then Some (queueIndicationLocked key indication c)
         else (case deliver_all (WatchValue indication) (map fst subs) (cs_watch c) of
                 None \<Rightarrow> None
               | Some w \<Rightarrow>
                   (case waiters of
                      [] \<Rightarrow> Some (c\<lparr>cs_watch := w\<rparr>)
                    | waiter # rest \<Rightarrow>
                        map_option (\<lambda>wc. c\<lparr>cs_watch := w(iw_ch waiter := wc), cs_waiters := set_entries key rest (cs_waiters c)\<rparr>)
                          (chan_send (WatchValue indication) (w (iw_ch waiter))))))"

text \<open>\<open>nextIndication\<close> up to the wait: a queued indication, an error, or a new waiter.\<close>

datatype next_result = Queued Indication | NextFailed mb_error | Waiting mchan

definition nextIndication :: "clientLease option \<Rightarrow> indicationKey \<Rightarrow> clientState \<Rightarrow> next_result \<times> clientState" where
  "nextIndication lease key c =
     (if leaseClosed lease c then (NextFailed ErrClientLeaseClosed, c)
      else if cs_closed c \<or> cs_closing c then (NextFailed ErrClientClosed, c)
      else case entries (cs_indications c) key of
        i # rest \<Rightarrow> (Queued i, c\<lparr>cs_indications := set_entries key rest (cs_indications c)\<rparr>)
      | [] \<Rightarrow>
          (case cs_receiverErr c of
             Some e \<Rightarrow> (NextFailed e, c)
           | None \<Rightarrow>
               (case ensureReceiverLocked lease False c of
                  Ret c1 \<Rightarrow>
                    let ch = cs_next c1 in
                    (Waiting ch,
                     c1\<lparr>cs_waiters := AList.update key (entries (cs_waiters c1) key @ [\<lparr>iw_ch = ch, iw_owner = lease\<rparr>]) (cs_waiters c1),
                        cs_watch := (cs_watch c1)(ch := \<lparr>wc_cap = 1, wc_buf = [], wc_closed = False\<rparr>), cs_next := ch + 1\<rparr>)
                | Fail e \<Rightarrow> (NextFailed e, c)
                | Panic \<Rightarrow> (NextFailed ErrReceiverStopped, c))))"

text \<open>\<open>cancelIndicationWaiter\<close>: leave the queue of waiters, or take a result already delivered.\<close>

definition cancelIndicationWaiter ::
  "indicationKey \<Rightarrow> mchan \<Rightarrow> clientState \<Rightarrow> Indication WatchResult option \<times> clientState" where
  "cancelIndicationWaiter key ch c =
     (let waiters = entries (cs_waiters c) key in
      if ch \<in> iw_ch ` set waiters
      then (None, c\<lparr>cs_waiters := set_entries key
              (takeWhile (\<lambda>w. iw_ch w \<noteq> ch) waiters @ tl (dropWhile (\<lambda>w. iw_ch w \<noteq> ch) waiters)) (cs_waiters c)\<rparr>)
      else case wc_buf (cs_watch c ch) of
             [] \<Rightarrow> (None, c)
           | r # rest \<Rightarrow> (Some r, c\<lparr>cs_watch := (cs_watch c)(ch := (cs_watch c ch)\<lparr>wc_buf := rest\<rparr>)\<rparr>))"

fun send_all :: "Indication WatchResult list \<Rightarrow> wchan \<Rightarrow> wchan option" where
  "send_all [] ch = Some ch"
| "send_all (r # rs) ch = (case chan_send r ch of None \<Rightarrow> None | Some ch' \<Rightarrow> send_all rs ch')"

text \<open>The channel, and whether there is something to unsubscribe. The replay is sent under the
  mutex, before the caller has the channel.\<close>

definition subscribeIndication ::
  "clientLease option \<Rightarrow> indicationKey \<Rightarrow> clientState \<Rightarrow> ((mb_error, mchan) outcome \<times> clientState) option" where
  "subscribeIndication lease key c =
     (if leaseClosed lease c then Some (Fail ErrClientLeaseClosed, c)
      else if cs_closed c \<or> cs_closing c then Some (Fail ErrClientClosed, c)
      else let queued = entries (cs_indications c) key; ch = cs_next c in
        case cs_receiverErr c of
          Some e \<Rightarrow>
            if queued = [] then Some (Fail e, c)
            else map_option (\<lambda>wc. (Ret ch, c\<lparr>cs_watch := (cs_watch c)(ch := wc\<lparr>wc_closed := True\<rparr>),
                    cs_indications := AList.delete key (cs_indications c), cs_next := ch + 1\<rparr>))
                   (send_all (map WatchValue queued @ [WatchErr e]) \<lparr>wc_cap = length queued + 1, wc_buf = [], wc_closed = False\<rparr>)
        | None \<Rightarrow>
            (case ensureReceiverLocked lease False c of
               Panic \<Rightarrow> None
             | Fail e \<Rightarrow> Some (Fail e, c)
             | Ret c1 \<Rightarrow>
                 map_option (\<lambda>wc. (Ret ch,
                     c1\<lparr>cs_subs := AList.update key (AList.update ch lease (entries (cs_subs c1) key)) (cs_subs c1),
                        cs_watch := (cs_watch c1)(ch := wc),
                        cs_indications := AList.delete key (cs_indications c1), cs_next := ch + 1\<rparr>))
                   (send_all (map WatchValue queued) \<lparr>wc_cap = maxQueuedIndications, wc_buf = [], wc_closed = False\<rparr>)))"

definition unsubscribeIndication :: "indicationKey \<Rightarrow> mchan \<Rightarrow> clientState \<Rightarrow> clientState" where
  "unsubscribeIndication key ch c =
     (case map_of (cs_subs c) key of
        None \<Rightarrow> c
      | Some subs \<Rightarrow> c\<lparr>cs_subs := set_entries key (AList.delete ch subs) (cs_subs c)\<rparr>)"

section \<open>The receive loop\<close>

text \<open>\<open>wr\<close> is the error of the write of the host error message, if it fails.\<close>

definition sendOneWay :: "clientLease option \<Rightarrow> mb_error option \<Rightarrow> clientState \<Rightarrow> mb_error option" where
  "sendOneWay lease wr c =
     (if leaseClosed lease c then Some ErrClientLeaseClosed
      else if cs_closed c \<or> cs_closing c then Some ErrClientClosed
      else if \<not> cs_conn c then Some NilConnection
      else wr)"

definition reportFragmentError ::
  "clientLease option \<Rightarrow> u32 \<Rightarrow> ProtocolError \<Rightarrow> mb_error option \<Rightarrow> clientState \<Rightarrow> bool \<times> clientState" where
  "reportFragmentError lease transactionID status wr c =
     (let c1 = failResponse transactionID (ProtocolStatus status) c in
      case sendOneWay lease wr c1 of
        Some e \<Rightarrow> (False, stopReceiver e c1)
      | None \<Rightarrow> (True, c1))"

text \<open>One pass of \<open>receive\<close> on a read frame: whether the loop goes on, the state, the table.\<close>

definition receive_message :: "MessageType \<Rightarrow> bytes \<Rightarrow> clientState \<Rightarrow> (mbim_error, bool \<times> clientState) outcome option" where
  "receive_message messageType buf c =
     (if messageType = MessageTypeOpenDone \<or> messageType = MessageTypeCloseDone
         \<or> messageType = MessageTypeCommandDone \<or> messageType = MessageTypeFunctionError
      then Some (bind (mb_deliverResponse messageType buf c) (\<lambda>c1. Ret (True, c1)))
      else if messageType = MessageTypeIndicateStatus
      then (case indication_UnmarshalBinary buf of
              Panic \<Rightarrow> Some Panic
            | Fail e \<Rightarrow> Some (Ret (False, stopReceiver (IndicationError e) c))
            | Ret indication \<Rightarrow> map_option (\<lambda>c1. Ret (True, c1)) (publishIndication indication c))
      else Some (Ret (True, c)))"

definition receive_frame ::
  "clientLease option \<Rightarrow> bytes \<Rightarrow> gotime \<Rightarrow> mb_error option \<Rightarrow> clientState \<times> collectors
     \<Rightarrow> (mbim_error, bool \<times> clientState \<times> collectors) outcome option" where
  "receive_frame lease buf now wr st =
     (case st of (c, cs) \<Rightarrow>
      case u32_at buf 0 of
        Panic \<Rightarrow> Some Panic
      | Fail e \<Rightarrow> Some (Fail e)
      | Ret messageType \<Rightarrow>
          if isFragmentMessage messageType
          then (case collectReceivedFrame cs buf now of
                  Panic \<Rightarrow> Some Panic
                | Fail e \<Rightarrow> Some Panic
                | Ret ((complete, fault), cs1) \<Rightarrow>
                    (case fault of
                       Some f \<Rightarrow>
                         (case reportFragmentError lease (ff_transactionID f) (ff_status f) wr c of
                            (go, c1) \<Rightarrow> Some (Ret (go, c1, cs1)))
                     | None \<Rightarrow>
                         (case complete of
                            None \<Rightarrow> Some (Ret (True, c, cs1))
                          | Some buf1 \<Rightarrow>
                              (case u32_at buf1 0 of
                                 Ret messageType1 \<Rightarrow>
                                   map_option (\<lambda>r. bind r (\<lambda>(go, c1). Ret (go, c1, cs1))) (receive_message messageType1 buf1 c)
                               | Fail e \<Rightarrow> Some (Fail e)
                               | Panic \<Rightarrow> Some Panic))))
          else map_option (\<lambda>r. bind r (\<lambda>(go, c1). Ret (go, c1, cs))) (receive_message messageType buf c))"

fun report_expired :: "clientLease option \<Rightarrow> (u32 \<times> mb_error option) list \<Rightarrow> clientState \<Rightarrow> bool \<times> clientState" where
  "report_expired lease [] c = (True, c)"
| "report_expired lease ((transactionID, wr) # rest) c =
     (case reportFragmentError lease transactionID ProtocolErrorTimeoutFragment wr c of
        (False, c1) \<Rightarrow> (False, c1)
      | (True, c1) \<Rightarrow> report_expired lease rest c1)"

text \<open>The timer case of the loop; \<open>wrs\<close> are the outcomes of the writes, one per transaction.\<close>

definition receive_timeout ::
  "clientLease option \<Rightarrow> gotime \<Rightarrow> (u32 \<Rightarrow> mb_error option) \<Rightarrow> clientState \<times> collectors \<Rightarrow> bool \<times> clientState \<times> collectors" where
  "receive_timeout lease now wrs st =
     (case st of (c, cs) \<Rightarrow>
      case expireFragmentCollectors cs now of (ids, cs1) \<Rightarrow>
      case report_expired lease (map (\<lambda>i. (i, wrs i)) ids) c of (go, c1) \<Rightarrow> (go, c1, cs1))"

text \<open>The error case of the loop.\<close>

definition receive_error :: "mbim_error \<Rightarrow> clientState \<Rightarrow> clientState" where
  "receive_error e c = stopReceiver (ReceivingMessage e) c"

section \<open>Channel tokens\<close>

text \<open>
  A token is an obligation to send on a channel: every pending transaction, waiting
  indication reader, subscription and outbox entry holds the token of its channel.
\<close>

fun result_token :: "outgoing \<Rightarrow> mchan list" where
  "result_token (SendResult ch r) = [ch]"
| "result_token _ = []"

fun waiter_token :: "outgoing \<Rightarrow> mchan list" where
  "waiter_token (FailWaiter ch e) = [ch]"
| "waiter_token (EndWaiter ch e) = [ch]"
| "waiter_token _ = []"

fun sub_token :: "outgoing \<Rightarrow> mchan list" where
  "sub_token (EndSubscription ch e) = [ch]"
| "sub_token (FailSubscription ch e) = [ch]"
| "sub_token _ = []"

definition values_of :: "('v \<Rightarrow> mchan) \<Rightarrow> ('k \<times> 'v list) list \<Rightarrow> mchan multiset" where
  "values_of f al = (\<Sum>(k, vs) \<leftarrow> al. mset (map f vs))"

definition rtokens :: "clientState \<Rightarrow> mchan multiset" where
  "rtokens c = mset (map (rw_ch \<circ> snd) (cs_pending c)) + mset (concat (map result_token (cs_outbox c)))"

definition wtokens :: "clientState \<Rightarrow> mchan multiset" where
  "wtokens c = values_of iw_ch (cs_waiters c) + mset (concat (map waiter_token (cs_outbox c)))"

definition stokens :: "clientState \<Rightarrow> mchan multiset" where
  "stokens c = values_of fst (cs_subs c) + mset (concat (map sub_token (cs_outbox c)))"

definition single :: "'a multiset \<Rightarrow> bool" where
  "single M \<longleftrightarrow> (\<forall>x. count M x \<le> 1)"

definition waiter_ready :: "wchan \<Rightarrow> bool" where
  "waiter_ready w \<longleftrightarrow> \<not> wc_closed w \<and> wc_buf w = [] \<and> wc_cap w = 1"

definition sub_ready :: "wchan \<Rightarrow> bool" where
  "sub_ready w \<longleftrightarrow> \<not> wc_closed w \<and> length (wc_buf w) \<le> wc_cap w \<and> wc_cap w = maxQueuedIndications"

definition queues_bounded :: "clientState \<Rightarrow> bool" where
  "queues_bounded c \<longleftrightarrow> (\<forall>(k, q) \<in> set (cs_indications c). length q \<le> maxQueuedIndications)"

definition mb_inv :: "clientState \<Rightarrow> bool" where
  "mb_inv c \<longleftrightarrow>
     single (rtokens c) \<and> single (wtokens c + stokens c)
     \<and> (\<forall>ch \<in># rtokens c + wtokens c + stokens c. ch < cs_next c)
     \<and> (\<forall>ch \<in># rtokens c. cs_results c ch = [])
     \<and> (\<forall>ch \<in># wtokens c. waiter_ready (cs_watch c ch))
     \<and> (\<forall>ch \<in># stokens c. sub_ready (cs_watch c ch))
     \<and> queues_bounded c"

lemma single_mono: "single M \<Longrightarrow> N \<subseteq># M \<Longrightarrow> single N"
  unfolding single_def by (meson le_trans mset_subset_eq_count)

lemma single_add: "single M \<Longrightarrow> x \<notin># M \<Longrightarrow> single (add_mset x M)"
  by (auto simp: single_def not_in_iff)

lemma mb_invI:
  assumes "single (rtokens c)" "single (wtokens c + stokens c)"
    and "\<And>ch. ch \<in># rtokens c \<Longrightarrow> ch < cs_next c \<and> cs_results c ch = []"
    and "\<And>ch. ch \<in># wtokens c \<Longrightarrow> ch < cs_next c \<and> waiter_ready (cs_watch c ch)"
    and "\<And>ch. ch \<in># stokens c \<Longrightarrow> ch < cs_next c \<and> sub_ready (cs_watch c ch)"
    and "queues_bounded c"
  shows "mb_inv c"
  using assms by (auto simp: mb_inv_def)

lemma mb_invD:
  assumes "mb_inv c"
  shows "single (rtokens c)" "single (wtokens c + stokens c)"
    and "ch \<in># rtokens c \<Longrightarrow> ch < cs_next c \<and> cs_results c ch = []"
    and "ch \<in># wtokens c \<Longrightarrow> ch < cs_next c \<and> waiter_ready (cs_watch c ch)"
    and "ch \<in># stokens c \<Longrightarrow> ch < cs_next c \<and> sub_ready (cs_watch c ch)"
    and "queues_bounded c"
  using assms by (auto simp: mb_inv_def)

text \<open>Operations that only pass tokens on, or drop some, keep the invariant.\<close>

lemma mb_inv_tokens:
  assumes "mb_inv c" "rtokens c' \<subseteq># rtokens c" "wtokens c' \<subseteq># wtokens c" "stokens c' \<subseteq># stokens c"
    and "cs_results c' = cs_results c" "cs_watch c' = cs_watch c" "cs_next c' = cs_next c" "queues_bounded c'"
  shows "mb_inv c'"
proof -
  have "single (wtokens c' + stokens c')"
    by (rule single_mono [OF _ subset_mset.add_mono [OF assms(3,4)]]) (use assms(1) in \<open>simp add: mb_inv_def\<close>)
  moreover have "single (rtokens c')" using single_mono [OF _ assms(2)] assms(1) by (simp add: mb_inv_def)
  ultimately show ?thesis
    using assms(5-8) mb_invD(3-5) [OF assms(1)] assms(2-4) [THEN mset_subset_eqD] by (intro mb_invI) simp_all
qed

lemma values_of_Nil [simp]: "values_of f [] = {#}"
  by (simp add: values_of_def)

lemma values_of_Cons [simp]: "values_of f ((k, vs) # al) = mset (map f vs) + values_of f al"
  by (simp add: values_of_def)

lemma values_of_update:
  "values_of f (AList.update k vs al) + mset (map f (entries al k)) = values_of f al + mset (map f vs)"
  by (induction al) (auto simp: entries_def ac_simps split: option.splits)

lemma values_of_delete: "values_of f (AList.delete k al) + mset (map f (entries al k)) \<subseteq># values_of f al"
proof (induction al)
  case (Cons kv al)
  obtain k' vs where [simp]: "kv = (k', vs)" by force
  have "values_of f (AList.delete k al) \<subseteq># values_of f al"
    using Cons by (meson mset_subset_eq_add_left subset_mset.order_trans)
  with Cons show ?case
    by (auto simp: entries_def ac_simps intro: subset_mset.add_mono)
qed (simp add: entries_def)

lemma values_of_set_entries:
  assumes "mset (map f vs) + M \<subseteq># mset (map f (entries al k))"
  shows "values_of f (set_entries k vs al) + M \<subseteq># values_of f al"
proof (cases "vs = []")
  case True
  with assms have "values_of f (set_entries k vs al) + M \<subseteq># values_of f (AList.delete k al) + mset (map f (entries al k))"
    by (simp add: set_entries_def)
  then show ?thesis using values_of_delete by (rule subset_mset.order_trans)
next
  case False
  then have "values_of f (set_entries k vs al) + mset (map f (entries al k)) = values_of f al + mset (map f vs)"
    using values_of_update [of f k vs al] by (simp add: set_entries_def)
  then have "values_of f (set_entries k vs al) + mset (map f (entries al k)) + M \<subseteq># values_of f al + mset (map f (entries al k))"
    using assms by (simp add: ac_simps)
  then show ?thesis by (metis add.assoc add.commute subset_mset.add_le_cancel_left)
qed

lemma entries_values: "v \<in> set (entries al k) \<Longrightarrow> f v \<in># values_of f al"
  by (induction al) (auto simp: entries_def split: if_splits)

lemma mset_delete: "map_of al k = Some v \<Longrightarrow> add_mset (f v) (mset (map (f \<circ> snd) (AList.delete k al))) \<subseteq># mset (map (f \<circ> snd) al)"
proof (induction al)
  case (Cons kv al)
  have "mset (map (f \<circ> snd) (AList.delete k al)) \<subseteq># mset (map (f \<circ> snd) al)"
    by (simp add: AList.delete_eq image_mset_subseteq_mono multiset_filter_subset mset_filter)
  with Cons show ?case by (auto simp: insert_subset_eq_iff add_mset_commute comp_def)
qed simp

lemma mset_delete_subset: "mset (map (f \<circ> snd) (AList.delete k al)) \<subseteq># mset (map (f \<circ> snd) al)"
  by (simp add: AList.delete_eq image_mset_subseteq_mono multiset_filter_subset mset_filter)

section \<open>Each operation keeps the invariant\<close>

lemmas token_defs = rtokens_def wtokens_def stokens_def

text \<open>Allocating a fresh channel, with or without a token for it.\<close>

lemma subset_add_mset: "M \<subseteq># N \<Longrightarrow> M \<subseteq># add_mset x N"
  unfolding subseteq_mset_def by (auto intro: le_SucI)

lemma in_add_mset_subset: "M \<subseteq># add_mset n N \<Longrightarrow> x \<in># M \<Longrightarrow> x = n \<or> x \<in># N"
  by (drule (1) mset_subset_eqD) simp

lemma mb_inv_fresh_result:
  assumes inv: "mb_inv c" and n: "cs_next c' = cs_next c + 1" and q: "queues_bounded c'"
    and r: "rtokens c' \<subseteq># add_mset (cs_next c) (rtokens c)" "cs_results c' = (cs_results c)(cs_next c := [])"
    and w: "wtokens c' = wtokens c" "stokens c' = stokens c" "cs_watch c' = cs_watch c"
  shows "mb_inv c'"
proof -
  have "cs_next c \<notin># rtokens c" using inv by (auto simp: mb_inv_def)
  with inv have "single (add_mset (cs_next c) (rtokens c))" by (auto simp: mb_inv_def intro: single_add)
  then have "single (rtokens c')" using r(1) by (rule single_mono)
  then show ?thesis
  proof (rule mb_invI)
    show "ch < cs_next c' \<and> cs_results c' ch = []" if "ch \<in># rtokens c'" for ch
      using in_add_mset_subset [OF r(1) that] mb_invD(3) [OF inv, of ch] n r(2) by auto
  qed (use mb_invD [OF inv] n q w in \<open>auto intro: less_SucI\<close>)
qed

lemma mb_inv_fresh_watch:
  assumes inv: "mb_inv c" and n: "cs_next c' = cs_next c + 1" and q: "queues_bounded c'"
    and r: "rtokens c' = rtokens c" "cs_results c' = cs_results c" "cs_watch c' = (cs_watch c)(cs_next c := w)"
    and ws: "wtokens c' \<subseteq># add_mset (cs_next c) (wtokens c)" "stokens c' \<subseteq># add_mset (cs_next c) (stokens c)"
      "wtokens c' + stokens c' \<subseteq># add_mset (cs_next c) (wtokens c + stokens c)"
    and ready: "cs_next c \<in># wtokens c' \<Longrightarrow> waiter_ready w" "cs_next c \<in># stokens c' \<Longrightarrow> sub_ready w"
  shows "mb_inv c'"
proof -
  have "cs_next c \<notin># wtokens c + stokens c" using inv by (auto simp: mb_inv_def)
  with inv have "single (add_mset (cs_next c) (wtokens c + stokens c))" by (auto simp: mb_inv_def intro: single_add)
  then have "single (wtokens c' + stokens c')" using ws(3) by (rule single_mono)
  with mb_invD(1) [OF inv] show ?thesis unfolding r(1) [symmetric]
  proof (rule mb_invI)
    show "ch < cs_next c' \<and> waiter_ready (cs_watch c' ch)" if "ch \<in># wtokens c'" for ch
      using in_add_mset_subset [OF ws(1) that] mb_invD(4) [OF inv, of ch] n r(3) ready(1) that by auto
    show "ch < cs_next c' \<and> sub_ready (cs_watch c' ch)" if "ch \<in># stokens c'" for ch
      using in_add_mset_subset [OF ws(2) that] mb_invD(5) [OF inv, of ch] n r(3) ready(2) that by auto
  qed (use mb_invD [OF inv] n q r in \<open>auto intro: less_SucI\<close>)
qed

lemma ensureReceiverLocked_Ret:
  assumes "ensureReceiverLocked lease ac c = Ret c1"
  shows "c1 = c \<or> c1 = c\<lparr>cs_receiverStarted := True\<rparr>"
  using assms by (auto simp: ensureReceiverLocked_def split: if_splits option.splits)

lemma inv_receiverStarted [simp]: "mb_inv (c\<lparr>cs_receiverStarted := b\<rparr>) \<longleftrightarrow> mb_inv c"
  by (simp add: mb_inv_def token_defs queues_bounded_def)

lemma ensureReceiverLocked_inv: "ensureReceiverLocked lease ac c = Ret c1 \<Longrightarrow> mb_inv c \<Longrightarrow> mb_inv c1"
  by (auto dest: ensureReceiverLocked_Ret)

lemma mset_update_fresh:
  "map_of al k = None \<Longrightarrow> mset (map (f \<circ> snd) (AList.update k v al)) = add_mset (f v) (mset (map (f \<circ> snd) al))"
  by (induction al) (auto split: if_splits)

lemma registerResponse_inv:
  assumes "registerResponse lease request ac c = (r, c')" "mb_inv c"
  shows "mb_inv c'"
proof (cases "responseMessageType (rq_MessageType request)")
  case None
  then show ?thesis using assms by (simp add: registerResponse_def)
next
  case (Some mt)
  show ?thesis
  proof (cases "ensureReceiverLocked lease ac c")
    case (Ret c1)
    have i1: "mb_inv c1" using ensureReceiverLocked_inv [OF Ret assms(2)] .
    show ?thesis
    proof (cases "map_of (cs_pending c1) (rq_TransactionID request)")
      case None
      obtain s i x where
        c': "c' = c1\<lparr>cs_pending := AList.update (rq_TransactionID request)
               \<lparr>rw_messageType = mt, rw_serviceID = s, rw_commandID = i, rw_expectCommand = x,
                rw_ch = cs_next c1, rw_owner = lease\<rparr> (cs_pending c1),
               cs_results := (cs_results c1)(cs_next c1 := []), cs_next := cs_next c1 + 1\<rparr>"
        using assms(1) Some Ret None by (auto simp: registerResponse_def Let_def split: prod.splits)
      show ?thesis
        by (rule mb_inv_fresh_result [OF i1])
          (use i1 in \<open>simp_all add: c' token_defs mset_update_fresh [OF None] queues_bounded_def mb_inv_def
              del: mset_map\<close>)
    qed (use assms Some Ret i1 in \<open>simp add: registerResponse_def\<close>)
  qed (use assms Some in \<open>simp_all add: registerResponse_def\<close>)
qed

lemma mb_inv_bounded: "mb_inv c \<Longrightarrow> queues_bounded c"
  by (simp add: mb_inv_def)

lemma queues_bounded_cong: "cs_indications c' = cs_indications c \<Longrightarrow> queues_bounded c' = queues_bounded c"
  by (simp add: queues_bounded_def)

lemma unregisterResponse_inv: "mb_inv c \<Longrightarrow> mb_inv (unregisterResponse tid ch c)"
  by (rule mb_inv_tokens, assumption)
    (auto simp: unregisterResponse_def token_defs mset_delete_subset simp del: mset_map
      split: option.splits intro: mb_inv_bounded queues_bounded_cong [THEN iffD2])

text \<open>Sending a pending transaction's result later.\<close>

lemma inv_resolve:
  assumes "mb_inv c" "map_of (cs_pending c) tid = Some w"
  shows "mb_inv (c\<lparr>cs_pending := AList.delete tid (cs_pending c), cs_outbox := cs_outbox c @ [SendResult (rw_ch w) r]\<rparr>)"
  using assms(1)
proof (rule mb_inv_tokens)
  let ?c = "c\<lparr>cs_pending := AList.delete tid (cs_pending c), cs_outbox := cs_outbox c @ [SendResult (rw_ch w) r]\<rparr>"
  have "rtokens ?c = add_mset (rw_ch w) (mset (map (rw_ch \<circ> snd) (AList.delete tid (cs_pending c))))
      + mset (concat (map result_token (cs_outbox c)))" by (simp add: rtokens_def)
  then show "rtokens ?c \<subseteq># rtokens c"
    using subset_mset.add_right_mono [OF mset_delete [OF assms(2), of rw_ch]] by (simp add: rtokens_def del: mset_map)
qed (use mb_inv_bounded [OF assms(1)] in \<open>simp_all add: wtokens_def stokens_def queues_bounded_def\<close>)

lemma failResponse_inv: "mb_inv c \<Longrightarrow> mb_inv (failResponse tid e c)"
  by (auto simp: failResponse_def intro: inv_resolve split: option.split)

lemma mb_deliverResponse_inv: "mb_deliverResponse mt data c = Ret c' \<Longrightarrow> mb_inv c \<Longrightarrow> mb_inv c'"
  by (auto simp: mb_deliverResponse_def intro: inv_resolve split: option.splits if_splits)

lemma concat_tokens_map [simp]:
  "concat (map (\<lambda>x. [f x]) xs) = map f xs" "concat (map (\<lambda>x. []) xs) = []"
  by (induction xs) simp_all

text \<open>What the outbox entries of \<open>stopReceiver\<close> and \<open>mb_closeLease\<close> hold.\<close>

lemma stop_tokens:
  fixes ss :: "(indicationKey \<times> (mchan \<times> clientLease option) list) list"
    and ws :: "(indicationKey \<times> indicationWaiter list) list"
  shows "concat (map result_token (map (\<lambda>(tid, w). SendResult (rw_ch w) r) ps)) = map (rw_ch \<circ> snd) ps"
  "concat (map waiter_token (map (\<lambda>(tid, w). SendResult (rw_ch w) r) ps)) = []"
  "concat (map sub_token (map (\<lambda>(tid, w). SendResult (rw_ch w) r) ps)) = []"
  "mset (concat (map sub_token (concat (map (\<lambda>(key, set). map (\<lambda>(ch, owner). EndSubscription ch e) set) ss)))) = values_of fst ss"
  "concat (map result_token (concat (map (\<lambda>(key, set). map (\<lambda>(ch, owner). EndSubscription ch e) set) ss))) = []"
  "concat (map waiter_token (concat (map (\<lambda>(key, set). map (\<lambda>(ch, owner). EndSubscription ch e) set) ss))) = []"
  "mset (concat (map waiter_token (concat (map (\<lambda>(key, set). map (\<lambda>w. EndWaiter (iw_ch w) e) set) ws)))) = values_of iw_ch ws"
  "concat (map result_token (concat (map (\<lambda>(key, set). map (\<lambda>w. EndWaiter (iw_ch w) e) set) ws))) = []"
  "concat (map sub_token (concat (map (\<lambda>(key, set). map (\<lambda>w. EndWaiter (iw_ch w) e) set) ws))) = []"
proof -
  show "concat (map result_token (map (\<lambda>(tid, w). SendResult (rw_ch w) r) ps)) = map (rw_ch \<circ> snd) ps"
    "concat (map waiter_token (map (\<lambda>(tid, w). SendResult (rw_ch w) r) ps)) = []"
    "concat (map sub_token (map (\<lambda>(tid, w). SendResult (rw_ch w) r) ps)) = []"
    by (induction ps) auto
  have sub: "concat (map sub_token (map (\<lambda>(ch, owner). EndSubscription ch e) set)) = map fst set"
    "concat (map result_token (map (\<lambda>(ch, owner). EndSubscription ch e) set)) = []"
    "concat (map waiter_token (map (\<lambda>(ch, owner). EndSubscription ch e) set)) = []" for set :: "(mchan \<times> clientLease option) list"
    by (induction set) auto
  show "mset (concat (map sub_token (concat (map (\<lambda>(key, set). map (\<lambda>(ch, owner). EndSubscription ch e) set) ss)))) = values_of fst ss"
    "concat (map result_token (concat (map (\<lambda>(key, set). map (\<lambda>(ch, owner). EndSubscription ch e) set) ss))) = []"
    "concat (map waiter_token (concat (map (\<lambda>(key, set). map (\<lambda>(ch, owner). EndSubscription ch e) set) ss))) = []"
    by (induction ss) (auto simp: sub simp del: map_map)
  have wait: "concat (map waiter_token (map (\<lambda>w. EndWaiter (iw_ch w) e) set)) = map iw_ch set"
    "concat (map result_token (map (\<lambda>w. EndWaiter (iw_ch w) e) set)) = []"
    "concat (map sub_token (map (\<lambda>w. EndWaiter (iw_ch w) e) set)) = []" for set :: "indicationWaiter list"
    by (induction set) auto
  show "mset (concat (map waiter_token (concat (map (\<lambda>(key, set). map (\<lambda>w. EndWaiter (iw_ch w) e) set) ws)))) = values_of iw_ch ws"
    "concat (map result_token (concat (map (\<lambda>(key, set). map (\<lambda>w. EndWaiter (iw_ch w) e) set) ws))) = []"
    "concat (map sub_token (concat (map (\<lambda>(key, set). map (\<lambda>w. EndWaiter (iw_ch w) e) set) ws))) = []"
    by (induction ws) (auto simp: wait simp del: map_map)
qed

lemma stopReceiver_inv:
  assumes "mb_inv c"
  shows "mb_inv (stopReceiver e c)"
  using assms
  by (rule mb_inv_tokens)
    (simp_all add: stopReceiver_def token_defs stop_tokens ac_simps queues_bounded_cong mb_inv_bounded [OF assms]
      del: mset_map map_map)

lemma partition_values:
  "values_of f (filter (\<lambda>(key, set). set \<noteq> []) (map (\<lambda>(key, set). (key, filter P set)) al))
     + values_of f (map (\<lambda>(key, set). (key, filter (\<lambda>x. \<not> P x) set)) al) = values_of f al"
proof (induction al)
  case (Cons kv al)
  have "mset (map f vs) = mset (map f (filter P vs)) + mset (map f (filter (\<lambda>x. \<not> P x) vs))" for vs
    by (induction vs) auto
  with Cons show ?case by (cases kv) (auto simp: ac_simps filter_empty_conv)
qed simp

lemma lease_tokens:
  fixes ss :: "(indicationKey \<times> (mchan \<times> clientLease option) list) list"
    and ws :: "(indicationKey \<times> indicationWaiter list) list"
  shows "mset (concat (map sub_token (concat (map (\<lambda>(key, set). map (\<lambda>(ch, owner). FailSubscription ch e)
           (filter (\<lambda>(ch, owner). owner = Some l) set)) ss))))
       = values_of fst (map (\<lambda>(key, set). (key, filter (\<lambda>x. \<not> (case x of (ch, owner) \<Rightarrow> owner \<noteq> Some l)) set)) ss)"
    "concat (map result_token (concat (map (\<lambda>(key, set). map (\<lambda>(ch, owner). FailSubscription ch e)
           (filter (\<lambda>(ch, owner). owner = Some l) set)) ss))) = []"
    "concat (map waiter_token (concat (map (\<lambda>(key, set). map (\<lambda>(ch, owner). FailSubscription ch e)
           (filter (\<lambda>(ch, owner). owner = Some l) set)) ss))) = []"
    "mset (concat (map waiter_token (concat (map (\<lambda>(key, set). map (\<lambda>w. FailWaiter (iw_ch w) e)
           (filter (\<lambda>w. iw_owner w = Some l) set)) ws))))
       = values_of iw_ch (map (\<lambda>(key, set). (key, filter (\<lambda>w. \<not> iw_owner w \<noteq> Some l) set)) ws)"
    "concat (map result_token (concat (map (\<lambda>(key, set). map (\<lambda>w. FailWaiter (iw_ch w) e)
           (filter (\<lambda>w. iw_owner w = Some l) set)) ws))) = []"
    "concat (map sub_token (concat (map (\<lambda>(key, set). map (\<lambda>w. FailWaiter (iw_ch w) e)
           (filter (\<lambda>w. iw_owner w = Some l) set)) ws))) = []"
proof -
  have sub: "concat (map sub_token (map (\<lambda>(ch, owner). FailSubscription ch e) set)) = map fst set"
    "concat (map result_token (map (\<lambda>(ch, owner). FailSubscription ch e) set)) = []"
    "concat (map waiter_token (map (\<lambda>(ch, owner). FailSubscription ch e) set)) = []" for set :: "(mchan \<times> clientLease option) list"
    by (induction set) auto
  have f: "filter (\<lambda>(ch, owner). owner = Some l) set = filter (\<lambda>x. \<not> (case x of (ch, owner) \<Rightarrow> owner \<noteq> Some l)) set"
    for set :: "(mchan \<times> clientLease option) list" by (rule filter_cong) auto
  show "mset (concat (map sub_token (concat (map (\<lambda>(key, set). map (\<lambda>(ch, owner). FailSubscription ch e)
           (filter (\<lambda>(ch, owner). owner = Some l) set)) ss))))
       = values_of fst (map (\<lambda>(key, set). (key, filter (\<lambda>x. \<not> (case x of (ch, owner) \<Rightarrow> owner \<noteq> Some l)) set)) ss)"
    "concat (map result_token (concat (map (\<lambda>(key, set). map (\<lambda>(ch, owner). FailSubscription ch e)
           (filter (\<lambda>(ch, owner). owner = Some l) set)) ss))) = []"
    "concat (map waiter_token (concat (map (\<lambda>(key, set). map (\<lambda>(ch, owner). FailSubscription ch e)
           (filter (\<lambda>(ch, owner). owner = Some l) set)) ss))) = []"
    by (induction ss) (auto simp: sub f simp del: map_map)
  have wait: "concat (map waiter_token (map (\<lambda>w. FailWaiter (iw_ch w) e) set)) = map iw_ch set"
    "concat (map result_token (map (\<lambda>w. FailWaiter (iw_ch w) e) set)) = []"
    "concat (map sub_token (map (\<lambda>w. FailWaiter (iw_ch w) e) set)) = []" for set :: "indicationWaiter list"
    by (induction set) auto
  show "mset (concat (map waiter_token (concat (map (\<lambda>(key, set). map (\<lambda>w. FailWaiter (iw_ch w) e)
           (filter (\<lambda>w. iw_owner w = Some l) set)) ws))))
       = values_of iw_ch (map (\<lambda>(key, set). (key, filter (\<lambda>w. \<not> iw_owner w \<noteq> Some l) set)) ws)"
    "concat (map result_token (concat (map (\<lambda>(key, set). map (\<lambda>w. FailWaiter (iw_ch w) e)
           (filter (\<lambda>w. iw_owner w = Some l) set)) ws))) = []"
    "concat (map sub_token (concat (map (\<lambda>(key, set). map (\<lambda>w. FailWaiter (iw_ch w) e)
           (filter (\<lambda>w. iw_owner w = Some l) set)) ws))) = []"
    by (induction ws) (auto simp: wait simp del: map_map)
qed

lemma partition_pending:
  "mset (map (f \<circ> snd) (filter (\<lambda>(k, w). P w) al)) + mset (map (f \<circ> snd) (filter (\<lambda>(k, w). \<not> P w) al)) = mset (map (f \<circ> snd) al)"
  by (induction al) auto

lemma mb_closeLease_inv:
  assumes "mb_inv c"
  shows "mb_inv (mb_closeLease lease c)"
proof (cases "lease = None \<or> the lease \<in> set (cs_closedLeases c)")
  case True
  then show ?thesis using assms by (auto simp: mb_closeLease_def split: option.split)
next
  case False
  then obtain l where l: "lease = Some l" "l \<notin> set (cs_closedLeases c)" by auto
  note p = partition_pending [of rw_ch "\<lambda>w. rw_owner w \<noteq> Some l" "cs_pending c", simplified not_not]
  note w = partition_values [of iw_ch "\<lambda>w. iw_owner w \<noteq> Some l" "cs_waiters c"]
  note s = partition_values [of fst "\<lambda>(ch, owner). owner \<noteq> Some l" "cs_subs c"]
  from assms show ?thesis
  proof (rule mb_inv_tokens)
    show "rtokens (mb_closeLease lease c) \<subseteq># rtokens c"
      using p l by (simp add: mb_closeLease_def rtokens_def stop_tokens lease_tokens ac_simps del: mset_map map_map)
    show "wtokens (mb_closeLease lease c) \<subseteq># wtokens c"
      using w l by (simp add: mb_closeLease_def wtokens_def stop_tokens lease_tokens ac_simps del: mset_map map_map)
    show "stokens (mb_closeLease lease c) \<subseteq># stokens c"
      using s l by (simp add: mb_closeLease_def stokens_def stop_tokens lease_tokens ac_simps del: mset_map map_map)
  qed (use l mb_inv_bounded [OF assms] in \<open>simp_all add: mb_closeLease_def queues_bounded_def\<close>)
qed

text \<open>Operations that also send.\<close>

lemma mb_inv_sent:
  assumes "mb_inv c" "rtokens c' \<subseteq># rtokens c" "wtokens c' \<subseteq># wtokens c" "stokens c' \<subseteq># stokens c"
    and "\<And>ch. ch \<in># rtokens c' \<Longrightarrow> cs_results c' ch = cs_results c ch"
    and "\<And>ch. ch \<in># wtokens c' \<Longrightarrow> cs_watch c' ch = cs_watch c ch"
    and "\<And>ch. ch \<in># stokens c' \<Longrightarrow> cs_watch c' ch = cs_watch c ch \<or> sub_ready (cs_watch c' ch)"
    and "cs_next c' = cs_next c" "queues_bounded c'"
  shows "mb_inv c'"
proof -
  have s: "single (wtokens c' + stokens c')"
    by (rule single_mono [OF _ subset_mset.add_mono [OF assms(3,4)]]) (use mb_invD(2) [OF assms(1)] in simp)
  have "single (rtokens c')" using single_mono [OF mb_invD(1) [OF assms(1)] assms(2)] .
  then show ?thesis using s
  proof (rule mb_invI)
    show "ch < cs_next c' \<and> cs_results c' ch = []" if "ch \<in># rtokens c'" for ch
      using mb_invD(3) [OF assms(1) mset_subset_eqD [OF assms(2) that]] assms(5) [OF that] assms(8) by simp
    show "ch < cs_next c' \<and> waiter_ready (cs_watch c' ch)" if "ch \<in># wtokens c'" for ch
      using mb_invD(4) [OF assms(1) mset_subset_eqD [OF assms(3) that]] assms(6) [OF that] assms(8) by simp
    show "ch < cs_next c' \<and> sub_ready (cs_watch c' ch)" if "ch \<in># stokens c'" for ch
      using mb_invD(5) [OF assms(1) mset_subset_eqD [OF assms(4) that]] assms(7) [OF that] assms(8) by auto
  qed (use assms(9) in simp)
qed

lemma single_disjoint: "single M \<Longrightarrow> add_mset x N \<subseteq># M \<Longrightarrow> x \<notin># N"
  by (metis count_add_mset le_trans mset_subset_eq_count not_in_iff not_less_eq_eq single_def Suc_le_mono One_nat_def le_zero_eq)

lemma deliverWatchResult_ready:
  assumes "sub_ready w"
  shows "\<exists>w'. deliverWatchResult r w = Some w' \<and> sub_ready w'"
  using assms by (auto simp: deliverWatchResult_def sub_ready_def maxQueuedIndications_def Let_def)

lemma deliver_all_ready:
  "\<forall>ch \<in> set chs. sub_ready (w ch) \<Longrightarrow>
   \<exists>w'. deliver_all r chs w = Some w' \<and> (\<forall>ch. ch \<notin> set chs \<longrightarrow> w' ch = w ch) \<and> (\<forall>ch \<in> set chs. sub_ready (w' ch))"
proof (induction chs arbitrary: w)
  case (Cons ch chs)
  then obtain wc where wc: "deliverWatchResult r (w ch) = Some wc" "sub_ready wc"
    using deliverWatchResult_ready by (metis list.set_intros(1))
  have "\<forall>x \<in> set chs. sub_ready ((w(ch := wc)) x)" using Cons.prems wc(2) by simp
  from Cons.IH [OF this] obtain w' where w': "deliver_all r chs (w(ch := wc)) = Some w'"
    "\<forall>x. x \<notin> set chs \<longrightarrow> w' x = (w(ch := wc)) x" "\<forall>x \<in> set chs. sub_ready (w' x)" by blast
  have "sub_ready (w' ch)" using w'(2,3) wc(2) by (cases "ch \<in> set chs") simp_all
  then show ?case using w' wc(1) by (intro exI [of _ w']) simp
qed simp

lemma queueIndicationLocked_bounded: "queues_bounded c \<Longrightarrow> queues_bounded (queueIndicationLocked k i c)"
proof -
  assume q: "queues_bounded c"
  have "set (AList.update k q' al) \<subseteq> insert (k, q') (set al)" for q' :: "Indication list" and al
    by (induction al) auto
  then show ?thesis using q
    by (fastforce simp: queues_bounded_def queueIndicationLocked_def Let_def split: if_splits)
qed

lemma publishIndication_ok:
  assumes inv: "mb_inv c"
  shows "\<exists>c'. publishIndication i c = Some c' \<and> mb_inv c'"
proof -
  let ?k = "indication_key i"
  let ?subs = "entries (cs_subs c) ?k" and ?ws = "entries (cs_waiters c) ?k"
  have "\<forall>ch \<in> set (map fst ?subs). sub_ready (cs_watch c ch)"
    using entries_values [of _ "cs_subs c" ?k fst] mb_invD(5) [OF inv] by (fastforce simp: stokens_def)
  from deliver_all_ready [OF this, of "WatchValue i"] obtain w where
    w: "deliver_all (WatchValue i) (map fst ?subs) (cs_watch c) = Some w"
      "\<forall>ch. ch \<notin> set (map fst ?subs) \<longrightarrow> w ch = cs_watch c ch" "\<forall>ch \<in> set (map fst ?subs). sub_ready (w ch)" by blast
  have sub: "ch \<in> set (map fst ?subs) \<Longrightarrow> ch \<in># stokens c" for ch
    using entries_values [of _ "cs_subs c" ?k fst] by (auto simp: stokens_def)
  have apart: "ch \<in># wtokens c \<Longrightarrow> ch \<notin># stokens c" for ch
    using mb_invD(2) [OF inv] by (auto simp: single_def dest!: spec [of _ ch] simp flip: count_greater_zero_iff)
  show ?thesis
  proof (cases "?subs = [] \<and> ?ws = []")
    case True
    have "mb_inv (queueIndicationLocked ?k i c)"
      using inv by (rule mb_inv_tokens)
        (simp_all add: token_defs queueIndicationLocked_bounded [OF mb_inv_bounded [OF inv]],
         simp_all add: queueIndicationLocked_def Let_def)
    with True show ?thesis by (simp add: publishIndication_def Let_def)
  next
    case False
    note pub = publishIndication_def Let_def False w(1)
    show ?thesis
    proof (cases ?ws)
      case Nil
      have "mb_inv (c\<lparr>cs_watch := w\<rparr>)"
        using inv
      proof (rule mb_inv_sent)
        show "cs_watch (c\<lparr>cs_watch := w\<rparr>) ch = cs_watch c ch" if "ch \<in># wtokens (c\<lparr>cs_watch := w\<rparr>)" for ch
          using w(2) sub apart [of ch] that by (auto simp: wtokens_def)
        show "cs_watch (c\<lparr>cs_watch := w\<rparr>) ch = cs_watch c ch \<or> sub_ready (cs_watch (c\<lparr>cs_watch := w\<rparr>) ch)" for ch
          using w(2,3) by (cases "ch \<in> set (map fst ?subs)") auto
      qed (use mb_inv_bounded [OF inv] in \<open>simp_all add: token_defs queues_bounded_def\<close>)
      with Nil False w(1) show ?thesis by (auto simp: publishIndication_def Let_def)
    next
      case (Cons x rest)
      let ?ch = "iw_ch x"
      have x: "?ch \<in># wtokens c" using entries_values [of x "cs_waiters c" ?k iw_ch] Cons by (simp add: wtokens_def)
      then have wch: "w ?ch = cs_watch c ?ch" using w(2) sub apart by blast
      then have "waiter_ready (w ?ch)" using mb_invD(4) [OF inv x] by simp
      then have send: "chan_send (WatchValue i) (w ?ch) = Some ((w ?ch)\<lparr>wc_buf := [WatchValue i]\<rparr>)"
        by (simp add: chan_send_def waiter_ready_def)
      let ?c = "c\<lparr>cs_watch := w(?ch := (w ?ch)\<lparr>wc_buf := [WatchValue i]\<rparr>), cs_waiters := set_entries ?k rest (cs_waiters c)\<rparr>"
      have "values_of iw_ch (set_entries ?k rest (cs_waiters c)) + {#?ch#} \<subseteq># values_of iw_ch (cs_waiters c)"
        by (rule values_of_set_entries) (simp add: Cons)
      then have wt: "add_mset ?ch (wtokens ?c) \<subseteq># wtokens c"
        unfolding wtokens_def by (simp add: subset_mset.add_right_mono flip: add_mset_add_single add_mset_add_mset_same_iff union_mset_add_mset_left)
      then have wsub: "wtokens ?c \<subseteq># wtokens c" by (metis subset_add_mset subset_mset.order_refl subset_mset.order_trans)
      have "single (wtokens c)" using single_mono [OF mb_invD(2) [OF inv]] by simp
      then have nx: "?ch \<notin># wtokens ?c" using wt by (rule single_disjoint)
      have st: "stokens ?c = stokens c" by (simp add: stokens_def)
      have "mb_inv ?c"
        using inv _ wsub
      proof (rule mb_inv_sent)
        show "cs_watch ?c ch = cs_watch c ch" if "ch \<in># wtokens ?c" for ch
          using w(2) sub apart [of ch] mset_subset_eqD [OF wsub that] nx that by auto
        show "cs_watch ?c ch = cs_watch c ch \<or> sub_ready (cs_watch ?c ch)" if "ch \<in># stokens ?c" for ch
          using w(2,3) apart [OF x] that st by (cases "ch \<in> set (map fst ?subs)") auto
      qed (use mb_inv_bounded [OF inv] in \<open>simp_all add: rtokens_def stokens_def queues_bounded_def\<close>)
      with Cons False w(1) send show ?thesis by (auto simp: publishIndication_def Let_def)
    qed
  qed
qed

lemma entries_bounded: "queues_bounded c \<Longrightarrow> length (entries (cs_indications c) k) \<le> maxQueuedIndications"
  by (auto simp: queues_bounded_def entries_def split: option.split dest: map_of_SomeD)

lemma set_update_subset: "set (AList.update k v al) \<subseteq> insert (k, v) (set al)"
  by (induction al) auto

lemma queues_bounded_set_entries:
  assumes "queues_bounded c" "length q \<le> maxQueuedIndications"
  shows "queues_bounded (c\<lparr>cs_indications := set_entries k q (cs_indications c)\<rparr>)"
  using assms set_update_subset [of k q "cs_indications c"]
  by (fastforce simp: queues_bounded_def set_entries_def AList.delete_eq)

lemma nextIndication_inv:
  assumes "nextIndication lease k c = (r, c')" and inv: "mb_inv c"
  shows "mb_inv c'"
proof (cases "entries (cs_indications c) k")
  case (Cons i rest)
  have "length rest \<le> maxQueuedIndications" using entries_bounded [OF mb_inv_bounded [OF inv], of k] Cons by simp
  then have "queues_bounded (c\<lparr>cs_indications := set_entries k rest (cs_indications c)\<rparr>)"
    by (rule queues_bounded_set_entries [OF mb_inv_bounded [OF inv]])
  then have "mb_inv (c\<lparr>cs_indications := set_entries k rest (cs_indications c)\<rparr>)"
    by (intro mb_inv_tokens [OF inv]) (simp_all add: token_defs)
  with assms Cons show ?thesis by (auto simp: nextIndication_def split: if_splits)
next
  case Nil
  show ?thesis
  proof (cases "\<exists>c1. ensureReceiverLocked lease False c = Ret c1 \<and> c' \<noteq> c")
    case True
    then obtain c1 where c1: "ensureReceiverLocked lease False c = Ret c1" "c' \<noteq> c" by auto
    let ?ch = "cs_next c1"
    from assms(1) Nil c1 have c': "c' = c1\<lparr>cs_waiters := AList.update k (entries (cs_waiters c1) k @ [\<lparr>iw_ch = ?ch, iw_owner = lease\<rparr>]) (cs_waiters c1),
        cs_watch := (cs_watch c1)(?ch := \<lparr>wc_cap = 1, wc_buf = [], wc_closed = False\<rparr>), cs_next := ?ch + 1\<rparr>"
      by (auto simp: nextIndication_def Let_def split: if_splits option.splits)
    have i1: "mb_inv c1" using ensureReceiverLocked_inv [OF c1(1) inv] .
    have "values_of iw_ch (AList.update k (entries (cs_waiters c1) k @ [\<lparr>iw_ch = ?ch, iw_owner = lease\<rparr>]) (cs_waiters c1))
        = add_mset ?ch (values_of iw_ch (cs_waiters c1))"
      using values_of_update [of iw_ch k "entries (cs_waiters c1) k @ [\<lparr>iw_ch = ?ch, iw_owner = lease\<rparr>]" "cs_waiters c1"]
      by simp
    then have wt: "wtokens c' = add_mset ?ch (wtokens c1)" by (simp add: c' wtokens_def)
    have st: "stokens c' = stokens c1" "rtokens c' = rtokens c1" by (simp_all add: c' stokens_def rtokens_def)
    have "?ch \<notin># stokens c1" using mb_invD(5) [OF i1, of ?ch] by auto
    then show ?thesis
      by (intro mb_inv_fresh_watch [OF i1, of c' "\<lparr>wc_cap = 1, wc_buf = [], wc_closed = False\<rparr>"])
        (use mb_inv_bounded [OF i1] in \<open>simp_all add: wt st waiter_ready_def subset_add_mset, simp_all add: c' queues_bounded_def\<close>)
  next
    case False
    with assms Nil have "c' = c"
      by (auto simp: nextIndication_def Let_def split: if_splits option.splits outcome.splits)
    with inv show ?thesis by simp
  qed
qed

lemma cancelIndicationWaiter_inv:
  assumes "cancelIndicationWaiter k ch c = (r, c')" and inv: "mb_inv c"
    and owned: "ch \<notin># stokens c"
  shows "mb_inv c'"
proof -
  let ?ws = "entries (cs_waiters c) k"
  let ?rest = "takeWhile (\<lambda>w. iw_ch w \<noteq> ch) ?ws @ tl (dropWhile (\<lambda>w. iw_ch w \<noteq> ch) ?ws)"
  have "mset ?rest \<subseteq># mset ?ws"
  proof -
    have "mset (tl xs) \<subseteq># mset xs" for xs :: "indicationWaiter list" by (cases xs) (simp_all add: subset_add_mset)
    then have "mset ?rest \<subseteq># mset (takeWhile (\<lambda>w. iw_ch w \<noteq> ch) ?ws @ dropWhile (\<lambda>w. iw_ch w \<noteq> ch) ?ws)"
      unfolding mset_append by (rule subset_mset.add_left_mono)
    then show ?thesis unfolding takeWhile_dropWhile_id .
  qed
  then have "image_mset iw_ch (mset ?rest) \<subseteq># image_mset iw_ch (mset ?ws)" by (rule image_mset_subseteq_mono)
  then have "values_of iw_ch (set_entries k ?rest (cs_waiters c)) + {#} \<subseteq># values_of iw_ch (cs_waiters c)"
    by (intro values_of_set_entries) simp
  then have left: "mb_inv (c\<lparr>cs_waiters := set_entries k ?rest (cs_waiters c)\<rparr>)"
    by (intro mb_inv_tokens [OF inv]) (use mb_inv_bounded [OF inv] in \<open>simp_all add: token_defs queues_bounded_def\<close>)
  have taken: "mb_inv (c\<lparr>cs_watch := (cs_watch c)(ch := x)\<rparr>)" if "wc_buf (cs_watch c ch) \<noteq> []" for x
  proof -
    have "ch \<notin># wtokens c" using mb_invD(4) [OF inv, of ch] that by (auto simp: waiter_ready_def)
    with inv owned show ?thesis
      by (intro mb_inv_sent [OF inv]) (use mb_inv_bounded [OF inv] in \<open>auto simp: token_defs queues_bounded_def\<close>)
  qed
  show ?thesis using assms(1) left taken inv
    by (auto simp: cancelIndicationWaiter_def Let_def split: if_splits list.splits)
qed

lemma send_all_room:
  "\<not> wc_closed ch \<Longrightarrow> length (wc_buf ch) + length rs \<le> wc_cap ch \<Longrightarrow>
   send_all rs ch = Some (ch\<lparr>wc_buf := wc_buf ch @ rs\<rparr>)"
  by (induction rs arbitrary: ch) (simp_all add: chan_send_def)

lemma unsubscribeIndication_inv:
  assumes inv: "mb_inv c"
  shows "mb_inv (unsubscribeIndication k ch c)"
proof (cases "map_of (cs_subs c) k")
  case (Some ss)
  have "values_of fst (set_entries k (AList.delete ch ss) (cs_subs c)) + {#} \<subseteq># values_of fst (cs_subs c)"
    by (rule values_of_set_entries)
      (simp add: entries_def Some AList.delete_eq mset_filter image_mset_subseteq_mono multiset_filter_subset)
  with Some show ?thesis
    by (intro mb_inv_tokens [OF inv])
      (use mb_inv_bounded [OF inv] in \<open>simp_all add: unsubscribeIndication_def token_defs queues_bounded_def\<close>)
qed (use inv in \<open>simp add: unsubscribeIndication_def\<close>)

lemma queues_bounded_delete: "queues_bounded c \<Longrightarrow> queues_bounded (c\<lparr>cs_indications := AList.delete k (cs_indications c)\<rparr>)"
  by (auto simp: queues_bounded_def AList.delete_eq)

lemma mset_fst_update_fresh: "k \<notin> fst ` set al \<Longrightarrow> mset (map fst (AList.update k v al)) = add_mset k (mset (map fst al))"
  by (induction al) auto

lemma subscribeIndication_ok:
  assumes inv: "mb_inv c"
  shows "\<exists>r c'. subscribeIndication lease k c = Some (r, c') \<and> mb_inv c'"
proof (cases "leaseClosed lease c \<or> cs_closed c \<or> cs_closing c")
  case True
  then show ?thesis using inv by (auto simp: subscribeIndication_def)
next
  case False
  let ?q = "entries (cs_indications c) k" and ?n = "cs_next c"
  have lenq: "length ?q \<le> maxQueuedIndications" using entries_bounded [OF mb_inv_bounded [OF inv]] .
  have bounded: "queues_bounded (c\<lparr>cs_indications := AList.delete k (cs_indications c)\<rparr>)"
    using queues_bounded_delete [OF mb_inv_bounded [OF inv]] .
  show ?thesis
  proof (cases "cs_receiverErr c")
    case (Some e)
    have send: "send_all (map WatchValue ?q @ [WatchErr e]) \<lparr>wc_cap = length ?q + 1, wc_buf = [], wc_closed = False\<rparr>
        = Some \<lparr>wc_cap = length ?q + 1, wc_buf = map WatchValue ?q @ [WatchErr e], wc_closed = False\<rparr>"
      by (subst send_all_room) simp_all
    let ?c = "c\<lparr>cs_watch := (cs_watch c)(?n := \<lparr>wc_cap = length ?q + 1, wc_buf = map WatchValue ?q @ [WatchErr e], wc_closed = True\<rparr>),
        cs_indications := AList.delete k (cs_indications c), cs_next := ?n + 1\<rparr>"
    have "?n \<notin># wtokens c" "?n \<notin># stokens c" using mb_invD(4) [OF inv, of ?n] mb_invD(5) [OF inv, of ?n] by auto
    then have "mb_inv ?c"
      by (intro mb_inv_fresh_watch [OF inv]) (use bounded in \<open>auto simp: token_defs subset_add_mset queues_bounded_def\<close>)
    then show ?thesis using False Some inv send by (auto simp: subscribeIndication_def Let_def)
  next
    case None
    show ?thesis
    proof (cases "ensureReceiverLocked lease False c")
      case (Ret c1)
      have i1: "mb_inv c1" using ensureReceiverLocked_inv [OF Ret inv] .
      have same: "cs_next c1 = ?n" "cs_indications c1 = cs_indications c"
        using ensureReceiverLocked_Ret [OF Ret] by auto
      let ?w = "\<lparr>wc_cap = maxQueuedIndications, wc_buf = map WatchValue ?q, wc_closed = False\<rparr>"
      have send: "send_all (map WatchValue ?q) \<lparr>wc_cap = maxQueuedIndications, wc_buf = [], wc_closed = False\<rparr> = Some ?w"
        by (subst send_all_room) (use lenq in simp_all)
      let ?ss = "AList.update ?n lease (entries (cs_subs c1) k)"
      let ?c = "c1\<lparr>cs_subs := AList.update k ?ss (cs_subs c1), cs_watch := (cs_watch c1)(?n := ?w),
          cs_indications := AList.delete k (cs_indications c1), cs_next := ?n + 1\<rparr>"
      have fresh: "?n \<notin># wtokens c1" "?n \<notin># stokens c1"
        using mb_invD(4) [OF i1, of ?n] mb_invD(5) [OF i1, of ?n] same(1) by auto
      then have "?n \<notin> fst ` set (entries (cs_subs c1) k)"
        using entries_values [of _ "cs_subs c1" k fst] by (auto simp: stokens_def)
      then have "mset (map fst ?ss) = add_mset ?n (mset (map fst (entries (cs_subs c1) k)))" by (rule mset_fst_update_fresh)
      then have "values_of fst (AList.update k ?ss (cs_subs c1)) = add_mset ?n (values_of fst (cs_subs c1))"
        using values_of_update [of fst k ?ss "cs_subs c1"] by simp
      then have st: "stokens ?c = add_mset ?n (stokens c1)" "wtokens ?c = wtokens c1" "rtokens ?c = rtokens c1"
        by (simp_all add: token_defs)
      have "mb_inv ?c"
      proof (rule mb_inv_fresh_watch [OF i1, of _ ?w])
        show "queues_bounded ?c" using bounded same by (simp add: queues_bounded_def)
        show "sub_ready ?w" using lenq by (simp add: sub_ready_def)
      qed (use st fresh same in \<open>simp_all add: subset_add_mset\<close>)
      then show ?thesis using False None Ret send by (auto simp: subscribeIndication_def Let_def)
    next
      case (Fail e)
      then show ?thesis using False None inv by (auto simp: subscribeIndication_def Let_def)
    next
      case Panic
      then show ?thesis by (auto simp: ensureReceiverLocked_def split: if_splits option.splits)
    qed
  qed
qed

lemma perform_ok:
  assumes inv: "mb_inv c" and out: "cs_outbox c = l @ m # r"
  shows "\<exists>c'. perform m (c\<lparr>cs_outbox := l @ r\<rparr>) = Some c' \<and> mb_inv c'"
proof -
  let ?c = "c\<lparr>cs_outbox := l @ r\<rparr>"
  have rt: "rtokens c = mset (result_token m) + rtokens ?c" and wt: "wtokens c = mset (waiter_token m) + wtokens ?c"
    and st: "stokens c = mset (sub_token m) + stokens ?c"
    by (simp_all add: token_defs out ac_simps)
  have i0: "mb_inv ?c"
    by (rule mb_inv_tokens [OF inv]) (use rt wt st mb_inv_bounded [OF inv] in \<open>simp_all add: queues_bounded_def\<close>)
  have single: "single (mset (result_token m) + rtokens ?c)"
    "single (mset (waiter_token m) + wtokens ?c + (mset (sub_token m) + stokens ?c))"
    using mb_invD(1,2) [OF inv] by (simp_all only: rt wt st)
  have watch: "mb_inv (?c\<lparr>cs_watch := (cs_watch ?c)(ch := w)\<rparr>)"
    if "ch \<notin># wtokens ?c" "ch \<notin># stokens ?c" for ch w
    by (rule mb_inv_sent [OF i0]) (use that mb_inv_bounded [OF i0] in \<open>auto simp: token_defs queues_bounded_def\<close>)
  show ?thesis
  proof (cases m)
    case (SendResult ch x)
    have "ch \<notin># rtokens ?c" using single(1) SendResult by (intro single_disjoint [of "add_mset ch (rtokens ?c)"]) simp_all
    then have "mb_inv (?c\<lparr>cs_results := (cs_results ?c)(ch := [x])\<rparr>)"
      by (intro mb_inv_sent [OF i0]) (use mb_inv_bounded [OF i0] in \<open>auto simp: token_defs queues_bounded_def\<close>)
    moreover have "cs_results c ch = []" using mb_invD(3) [OF inv, of ch] rt SendResult by simp
    ultimately show ?thesis using SendResult by (simp add: perform_def)
  next
    case (EndSubscription ch e)
    have "ch \<notin># wtokens ?c + stokens ?c" using single(2) EndSubscription by (intro single_disjoint [OF single(2)]) simp
    then have n: "ch \<notin># wtokens ?c" "ch \<notin># stokens ?c" by auto
    have "sub_ready (cs_watch c ch)" using mb_invD(5) [OF inv, of ch] st EndSubscription by simp
    then obtain w where "deliverWatchResult (WatchErr e) (cs_watch c ch) = Some w" using deliverWatchResult_ready by blast
    with watch [OF n] EndSubscription show ?thesis by (simp add: perform_def)
  next
    case (FailSubscription ch e)
    have "ch \<notin># wtokens ?c + stokens ?c" using single(2) FailSubscription by (intro single_disjoint [OF single(2)]) simp
    then have n: "ch \<notin># wtokens ?c" "ch \<notin># stokens ?c" by auto
    have "sub_ready (cs_watch c ch)" using mb_invD(5) [OF inv, of ch] st FailSubscription by simp
    then obtain w where "deliverWatchResult (WatchErr e) (cs_watch c ch) = Some w" using deliverWatchResult_ready by blast
    with watch [OF n] FailSubscription show ?thesis by (simp add: perform_def)
  next
    case (FailWaiter ch e)
    have "ch \<notin># wtokens ?c + stokens ?c" using single(2) FailWaiter by (intro single_disjoint [OF single(2)]) simp
    then have n: "ch \<notin># wtokens ?c" "ch \<notin># stokens ?c" by auto
    have "waiter_ready (cs_watch c ch)" using mb_invD(4) [OF inv, of ch] wt FailWaiter by simp
    then show ?thesis using watch [OF n] FailWaiter by (simp add: perform_def chan_send_def waiter_ready_def)
  next
    case (EndWaiter ch e)
    have "ch \<notin># wtokens ?c + stokens ?c" using single(2) EndWaiter by (intro single_disjoint [OF single(2)]) simp
    then have n: "ch \<notin># wtokens ?c" "ch \<notin># stokens ?c" by auto
    have "waiter_ready (cs_watch c ch)" using mb_invD(4) [OF inv, of ch] wt EndWaiter by simp
    then show ?thesis using watch [OF n] EndWaiter by (simp add: perform_def waiter_ready_def)
  qed
qed

section \<open>Interleavings\<close>

text \<open>
  Every interleaving of the callers, the receiver and the goroutines that still have to send:
  each operation is one step, an outbox entry may be performed at any later time, and the
  readers take from their channels whenever they like. A caller cancels only a waiter channel
  it was given, which has capacity one.
\<close>

inductive mb_step :: "clientState \<Rightarrow> clientState \<Rightarrow> bool" where
  register: "registerResponse lease request ac c = (res, c') \<Longrightarrow> mb_step c c'"
| unregister: "mb_step c (unregisterResponse tid ch c)"
| fails: "mb_step c (failResponse tid e c)"
| deliver: "mb_deliverResponse mt data c = Ret c' \<Longrightarrow> mb_step c c'"
| stops: "mb_step c (stopReceiver e c)"
| close_lease: "mb_step c (mb_closeLease lease c)"
| close_begin: "mb_step c (snd (beginClose c))"
| close_end: "mb_step c (finishClose c)"
| transaction: "mb_step c (snd (mb_nextTransactionID c))"
| publish: "publishIndication i c = Some c' \<Longrightarrow> mb_step c c'"
| next_indication: "nextIndication lease k c = (res, c') \<Longrightarrow> mb_step c c'"
| cancel: "wc_cap (cs_watch c ch) = 1 \<Longrightarrow> cancelIndicationWaiter k ch c = (res, c') \<Longrightarrow> mb_step c c'"
| subscribe: "subscribeIndication lease k c = Some (res, c') \<Longrightarrow> mb_step c c'"
| unsubscribe: "mb_step c (unsubscribeIndication k ch c)"
| sends: "cs_outbox c = l @ m # r \<Longrightarrow> perform m (c\<lparr>cs_outbox := l @ r\<rparr>) = Some c' \<Longrightarrow> mb_step c c'"
| take_result: "cs_results c ch = x # xs \<Longrightarrow> mb_step c (c\<lparr>cs_results := (cs_results c)(ch := xs)\<rparr>)"
| take_watch: "wc_buf (cs_watch c ch) = x # xs \<Longrightarrow>
    mb_step c (c\<lparr>cs_watch := (cs_watch c)(ch := (cs_watch c ch)\<lparr>wc_buf := xs\<rparr>)\<rparr>)"

lemma mb_inv_flags [simp]:
  "mb_inv (c\<lparr>cs_closing := b\<rparr>) = mb_inv c" "mb_inv (c\<lparr>cs_closed := b\<rparr>) = mb_inv c" "mb_inv (c\<lparr>cs_txn := n\<rparr>) = mb_inv c"
  by (simp_all add: mb_inv_def token_defs queues_bounded_def)

lemma mb_step_inv:
  assumes "mb_step c c'" "mb_inv c"
  shows "mb_inv c'"
  using assms
proof cases
  case (cancel ch k res)
  have "ch \<notin># stokens c"
    using mb_invD(5) [OF assms(2), of ch] cancel(1) by (auto simp: sub_ready_def maxQueuedIndications_def)
  then show ?thesis using cancelIndicationWaiter_inv [OF cancel(2) assms(2)] by simp
next
  case (take_result ch x xs)
  then have "ch \<notin># rtokens c" using mb_invD(3) [OF assms(2), of ch] by auto
  then show ?thesis unfolding take_result(1)
    by (intro mb_inv_sent [OF assms(2)]) (use mb_inv_bounded [OF assms(2)] in \<open>auto simp: token_defs queues_bounded_def\<close>)
next
  case (take_watch ch x xs)
  then have w: "ch \<notin># wtokens c" using mb_invD(4) [OF assms(2), of ch] by (auto simp: waiter_ready_def)
  have "ch \<in># stokens c \<Longrightarrow> sub_ready ((cs_watch c ch)\<lparr>wc_buf := xs\<rparr>)"
    using mb_invD(5) [OF assms(2), of ch] take_watch(2) by (simp add: sub_ready_def)
  with w show ?thesis unfolding take_watch(1)
    by (intro mb_inv_sent [OF assms(2)]) (use mb_inv_bounded [OF assms(2)] in \<open>auto simp: token_defs queues_bounded_def\<close>)
next
  case (publish i)
  then show ?thesis using publishIndication_ok [OF assms(2), of i] by auto
next
  case (subscribe lease k res)
  then show ?thesis using subscribeIndication_ok [OF assms(2), of lease k] by auto
next
  case (sends l m r)
  then show ?thesis using perform_ok [OF assms(2) sends(1)] by auto
qed (auto intro: registerResponse_inv unregisterResponse_inv failResponse_inv mb_deliverResponse_inv stopReceiver_inv
      mb_closeLease_inv nextIndication_inv unsubscribeIndication_inv
    simp: beginClose_def finishClose_def mb_nextTransactionID_def)

lemma mb_inv_new: "mb_inv newClientState"
  by (simp add: mb_inv_def newClientState_def token_defs single_def queues_bounded_def)

lemma mb_steps_inv: "mb_step\<^sup>*\<^sup>* newClientState c \<Longrightarrow> mb_inv c"
  by (induction rule: rtranclp_induct) (auto intro: mb_inv_new mb_step_inv)

text \<open>C8: in every interleaving of callers, receiver, cancellations, lease closes and failures, no
  send of the dispatcher ever blocks or hits a closed channel: the deferred results can be sent in
  any order, publishing an indication (which sends while holding the mutex) always completes,
  and so does the replay of a new subscription; the queue of unclaimed indications of any key never
  exceeds 32.\<close>

theorem mbim_sends_never_block:
  assumes "mb_step\<^sup>*\<^sup>* newClientState c"
  shows "(cs_outbox c = l @ m # r \<longrightarrow> perform m (c\<lparr>cs_outbox := l @ r\<rparr>) \<noteq> None)
    \<and> publishIndication i c \<noteq> None \<and> subscribeIndication lease k c \<noteq> None
    \<and> length (entries (cs_indications c) k) \<le> 32"
proof -
  note inv = mb_steps_inv [OF assms]
  have "length (entries (cs_indications c) k) \<le> 32"
    using entries_bounded [OF mb_inv_bounded [OF inv]] by (simp add: maxQueuedIndications_def)
  moreover have "cs_outbox c = l @ m # r \<longrightarrow> perform m (c\<lparr>cs_outbox := l @ r\<rparr>) \<noteq> None"
    using perform_ok [OF inv] by fastforce
  ultimately show ?thesis
    using publishIndication_ok [OF inv, of i] subscribeIndication_ok [OF inv, of lease k] by auto
qed

definition sample_waiting :: clientState where
  "sample_waiting = snd (nextIndication None \<lparr>ik_serviceID = ServiceBasicConnect, ik_commandID = 11\<rparr> newClientState)"

definition sample_stopping :: clientState where
  "sample_stopping = stopReceiver ErrReceiverStopped sample_waiting"

theorem mbim_sends_never_block_witness:
  "cs_outbox sample_stopping = [EndWaiter 0 ErrReceiverStopped]
   \<and> perform (EndWaiter 0 ErrReceiverStopped) (sample_stopping\<lparr>cs_outbox := []\<rparr>) \<noteq> None"
proof -
  have "mb_step newClientState sample_waiting"
    unfolding sample_waiting_def by (rule mb_step.next_indication) (rule prod.collapse [symmetric])
  moreover have "mb_step sample_waiting sample_stopping" unfolding sample_stopping_def by (rule mb_step.stops)
  ultimately have r: "mb_step\<^sup>*\<^sup>* newClientState sample_stopping" by simp
  have o: "cs_outbox sample_stopping = [EndWaiter 0 ErrReceiverStopped]"
    by (simp add: sample_stopping_def sample_waiting_def stopReceiver_def nextIndication_def newClientState_def
        leaseClosed_def entries_def ensureReceiverLocked_def Let_def)
  with mbim_sends_never_block [OF r, of "[]" "EndWaiter 0 ErrReceiverStopped" "[]"] show ?thesis by simp
qed

section \<open>Behaviour of the operations\<close>

lemma commandDoneHeader_no_panic: "commandDoneHeader_UnmarshalBinary data \<noteq> Panic"
  by (cases "length data < 48")
    (simp_all add: commandDoneHeader_UnmarshalBinary_def u32_at_in svc_subslice fail_if_def)

lemma waiter_matches_Ret: "\<exists>b. waiter_matches w mt data = Ret b"
  using commandDoneHeader_no_panic [of data] by (auto simp: waiter_matches_def split: outcome.split)

lemma mb_deliverResponse_returns: "12 \<le> length data \<Longrightarrow> \<exists>c'. mb_deliverResponse mt data c = Ret c'"
  using waiter_matches_Ret [of _ mt data]
  by (auto simp: mb_deliverResponse_def u32_at_in split: option.split) metis

lemma receive_message_ok:
  assumes "12 \<le> length buf" "length buf < 2 ^ 32" "mb_inv c"
  shows "\<exists>go c'. receive_message mt buf c = Some (Ret (go, c')) \<and> mb_inv c'"
proof -
  obtain c1 where d: "mb_deliverResponse mt buf c = Ret c1" using mb_deliverResponse_returns [OF assms(1)] by blast
  have "\<exists>go c'. (case indication_UnmarshalBinary buf of
              Panic \<Rightarrow> Some Panic
            | Fail e \<Rightarrow> Some (Ret (False, stopReceiver (IndicationError e) c))
            | Ret indication \<Rightarrow> map_option (\<lambda>c1. Ret (True, c1)) (publishIndication indication c)) = Some (Ret (go, c')) \<and> mb_inv c'"
  proof (cases "indication_UnmarshalBinary buf")
    case (Ret i)
    then show ?thesis using publishIndication_ok [OF assms(3), of i] by auto
  qed (use indication_UnmarshalBinary_no_panic [OF assms(2)] stopReceiver_inv [OF assms(3)] in auto)
  then show ?thesis using d mb_deliverResponse_inv [OF d assms(3)] assms(3) by (auto simp: receive_message_def)
qed

lemma reportFragmentError_inv: "mb_inv c \<Longrightarrow> mb_inv (snd (reportFragmentError lease tid st wr c))"
  by (auto simp: reportFragmentError_def Let_def intro: failResponse_inv stopReceiver_inv split: option.split)

text \<open>C10: the receive loop is total: on any frame the frame reader can return, while less than 4 GiB
  of fragments are held, one pass neither panics nor blocks, whatever the frame contains and
  whether or not the host error can be written; it keeps the dispatcher's invariant, and so does
  the timer case.\<close>

theorem receive_frame_total:
  assumes inv: "mb_inv c" and buf: "12 \<le> length buf" and size: "buffered cs + length buf < 2 ^ 32"
  shows "(\<exists>go c' cs'. receive_frame lease buf now wr (c, cs) = Some (Ret (go, c', cs')) \<and> mb_inv c')
    \<and> mb_inv (fst (snd (receive_timeout lease now wrs (c, cs))))"
proof (rule conjI)
  have mt: "u32_at buf 0 = (Ret (rd32 buf 0) :: (mbim_error, u32) outcome)" using buf by (simp add: u32_at_in)
  show "\<exists>go c' cs'. receive_frame lease buf now wr (c, cs) = Some (Ret (go, c', cs')) \<and> mb_inv c'"
  proof (cases "isFragmentMessage (rd32 buf 0)")
    case False
    then show ?thesis using receive_message_ok [OF buf _ inv, of "rd32 buf 0"] size mt by (auto simp: receive_frame_def)
  next
    case True
    obtain complete fault cs1 where col: "collectReceivedFrame cs buf now = Ret ((complete, fault), cs1)"
      using collectReceivedFrame_returns [OF buf size, of now] by auto
    note step = receive_frame_def mt True col
    show ?thesis
    proof (cases fault)
      case (Some f)
      then show ?thesis using reportFragmentError_inv [OF inv, of lease "ff_transactionID f" "ff_status f" wr]
        by (auto simp: step split: prod.split)
    next
      case None
      show ?thesis
      proof (cases complete)
        case (Some b)
        have b: "20 \<le> length b" "length b < 2 ^ 32"
          using collectReceivedFrame_complete [OF buf size, of now b fault cs1] col Some size by auto
        then have "u32_at b 0 = (Ret (rd32 b 0) :: (mbim_error, u32) outcome)" by (simp add: u32_at_in)
        then show ?thesis using receive_message_ok [OF _ b(2) inv, of "rd32 b 0"] b(1) None Some by (auto simp: step)
      qed (use None inv in \<open>auto simp: step\<close>)
    qed
  qed
  have "mb_inv (snd (report_expired lease ids c))" for ids
    using inv
  proof (induction ids arbitrary: c)
    case (Cons x ids)
    then show ?case
      using reportFragmentError_inv [of c lease "fst x" ProtocolErrorTimeoutFragment "snd x"]
      by (cases x) (auto split: prod.split bool.split)
  qed simp
  then show "mb_inv (fst (snd (receive_timeout lease now wrs (c, cs))))"
    by (auto simp: receive_timeout_def split: prod.split) (metis snd_conv)
qed

theorem receive_frame_total_witness:
  "\<exists>go c' cs'. receive_frame None (indication_layout sample_indication) 5 None (newClientState, []) = Some (Ret (go, c', cs'))"
  using receive_frame_total [OF mb_inv_new, of "indication_layout sample_indication" "[]" None 5 None]
  by (simp add: indication_layout_def sample_indication_def ServiceBasicConnect_def buffered_def) blast

lemma commandDoneHeader_layout:
  assumes "commandDone_wf r"
  shows "commandDoneHeader_UnmarshalBinary (commandDone_layout r) =
    Ret \<lparr>cdh_ServiceID = cr_ServiceID r, cdh_CommandID = cr_CommandID r, cdh_Status = cr_Status r\<rparr>"
proof -
  define data where "data = commandDone_layout r"
  have svc: "length (cr_ServiceID r) = 16" using assms by (simp add: commandDone_wf_def)
  have len: "length data = 48 + length (cr_ResponseBuffer r)" using svc by (simp add: data_def commandDone_layout_def)
  have s: "take 16 (drop 20 data) = cr_ServiceID r" using svc by (simp add: data_def commandDone_layout_def)
  note rd = rd32_fields [OF svc, of "cr_MessageType r" "cr_MessageLength r" "cr_TransactionID r"
      "cr_FragmentTotal r" "cr_FragmentCurrent r" "cr_CommandID r" "cr_Status r" "put_le32 (cr_ResponseLength r) @ cr_ResponseBuffer r",
      folded commandDone_layout_def, folded data_def]
  from assms len s rd show ?thesis unfolding data_def [symmetric]
    by (simp add: commandDoneHeader_UnmarshalBinary_def u32_at_in svc_subslice commandDone_wf_def)
qed

lemma commandDone_layout_tid: "length (cr_ServiceID r) = 16 \<Longrightarrow> 12 \<le> length (commandDone_layout r) \<and> rd32 (commandDone_layout r) 8 = cr_TransactionID r"
  by (simp add: commandDone_layout_def codec_simps)

lemma registerResponse_command:
  assumes "registerResponse lease req ac c = (Ret ch, c1)" "rq_MessageType req = MessageTypeCommand" "rq_Command req = CommandBody cmd"
  shows "map_of (cs_pending c1) (rq_TransactionID req) = Some
    \<lparr>rw_messageType = MessageTypeCommandDone, rw_serviceID = cmd_ServiceID cmd, rw_commandID = cmd_CommandID cmd,
     rw_expectCommand = True, rw_ch = ch, rw_owner = lease\<rparr>"
  using assms
  by (auto simp: registerResponse_def responseMessageType_def expectedCommand_def message_type_defs Let_def AList.update_conv'
      split: outcome.splits if_splits)

text \<open>C23: end-to-end routing of command responses: after a command request is registered, a well-formed
  command response with its transaction identifier is handed to that request's channel exactly when
  it names the same service and command, which also retires the transaction; a response for
  another command leaves the dispatcher as it was, and so does one for a transaction that is not
  pending.\<close>

theorem command_response_routed:
  assumes "registerResponse lease req ac c = (Ret ch, c1)" "rq_MessageType req = MessageTypeCommand" "rq_Command req = CommandBody cmd"
    and "commandDone_wf resp"
  shows "(cr_TransactionID resp = rq_TransactionID req \<longrightarrow>
      mb_deliverResponse MessageTypeCommandDone (commandDone_layout resp) c1 =
       Ret (if cr_ServiceID resp = cmd_ServiceID cmd \<and> cr_CommandID resp = cmd_CommandID cmd
            then c1\<lparr>cs_pending := AList.delete (rq_TransactionID req) (cs_pending c1),
                    cs_outbox := cs_outbox c1 @ [SendResult ch (ResultData (commandDone_layout resp))]\<rparr>
            else c1))
    \<and> (map_of (cs_pending c1) (cr_TransactionID resp) = None \<longrightarrow>
      mb_deliverResponse MessageTypeCommandDone (commandDone_layout resp) c1 = Ret c1)"
  using registerResponse_command [OF assms(1-3)] commandDoneHeader_layout [OF assms(4)]
    commandDone_layout_tid [of resp] assms(4)
  by (auto simp: mb_deliverResponse_def u32_at_in waiter_matches_def commandDone_wf_def)

definition sample_command :: Request where
  "sample_command =
     \<lparr>rq_MessageType = MessageTypeCommand, rq_TransactionID = 3,
      rq_Command = CommandBody \<lparr>cmd_FragmentTotal = 1, cmd_FragmentCurrent = 0, cmd_ServiceID = ServiceBasicConnect,
        cmd_CommandID = 4, cmd_CommandType = 0, cmd_Data = [], cmd_marshalErr = None\<rparr>\<rparr>"

theorem command_response_routed_witness:
  "mb_deliverResponse MessageTypeCommandDone (commandDone_layout sample_commandDone) (snd (registerResponse None sample_command False newClientState))
   = Ret ((snd (registerResponse None sample_command False newClientState))\<lparr>cs_pending := [],
       cs_outbox := [SendResult 0 (ResultData (commandDone_layout sample_commandDone))]\<rparr>)"
proof -
  have reg: "registerResponse None sample_command False newClientState = (Ret 0, snd (registerResponse None sample_command False newClientState))"
    by (simp add: registerResponse_def sample_command_def responseMessageType_def message_type_defs ensureReceiverLocked_def
        newClientState_def leaseClosed_def expectedCommand_def Let_def)
  have p: "cs_outbox (snd (registerResponse None sample_command False newClientState)) = []"
    "AList.delete 3 (cs_pending (snd (registerResponse None sample_command False newClientState))) = []"
    by (simp_all add: registerResponse_def sample_command_def responseMessageType_def message_type_defs ensureReceiverLocked_def
        newClientState_def leaseClosed_def expectedCommand_def Let_def)
  show ?thesis
    using command_response_routed [OF reg, of _ sample_commandDone] p
    by (simp add: sample_command_def sample_commandDone_def commandDone_wf_def ServiceBasicConnect_def)
qed

text \<open>C40: when the receiver stops, every pending request, waiting indication reader and subscriber is
  sent the error, no table keeps an entry, and the client stays failed: the first such error is
  what later requests and subscriptions get, and a reader gets it once the indications received
  before are used up.\<close>

theorem stopReceiver_fails_everyone:
  assumes "\<not> leaseClosed lease c" "\<not> cs_closed c" "\<not> cs_closing c"
    and "responseMessageType (rq_MessageType req) \<noteq> None"
  shows "cs_pending (stopReceiver e c) = [] \<and> cs_subs (stopReceiver e c) = [] \<and> cs_waiters (stopReceiver e c) = []
    \<and> set (cs_outbox (stopReceiver e c)) = set (cs_outbox c)
        \<union> (\<lambda>(tid, w). SendResult (rw_ch w) (ResultErr e)) ` set (cs_pending c)
        \<union> {EndSubscription ch e |ch k ss owner. (k, ss) \<in> set (cs_subs c) \<and> (ch, owner) \<in> set ss}
        \<union> {EndWaiter (iw_ch w) e |w k ws. (k, ws) \<in> set (cs_waiters c) \<and> w \<in> set ws}
    \<and> fst (registerResponse lease req ac (stopReceiver e c)) = Fail (case cs_receiverErr c of None \<Rightarrow> e | Some e0 \<Rightarrow> e0)
    \<and> fst (nextIndication lease k (stopReceiver e c)) =
        (case entries (cs_indications c) k of
           [] \<Rightarrow> NextFailed (case cs_receiverErr c of None \<Rightarrow> e | Some e0 \<Rightarrow> e0) | i # rest \<Rightarrow> Queued i)"
proof (intro conjI)
  let ?s = "stopReceiver e c"
  have err: "cs_receiverErr ?s = Some (case cs_receiverErr c of None \<Rightarrow> e | Some e0 \<Rightarrow> e0)"
    by (simp add: stopReceiver_def split: option.split)
  have flags: "leaseClosed lease ?s = leaseClosed lease c" "cs_closed ?s = cs_closed c" "cs_closing ?s = cs_closing c"
    "cs_indications ?s = cs_indications c" by (simp_all add: stopReceiver_def leaseClosed_def split: option.split)
  show "fst (registerResponse lease req ac ?s) = Fail (case cs_receiverErr c of None \<Rightarrow> e | Some e0 \<Rightarrow> e0)"
    using assms(4) by (auto simp: registerResponse_def ensureReceiverLocked_def err flags assms(1-3))
  show "fst (nextIndication lease k ?s) = (case entries (cs_indications c) k of
           [] \<Rightarrow> NextFailed (case cs_receiverErr c of None \<Rightarrow> e | Some e0 \<Rightarrow> e0) | i # rest \<Rightarrow> Queued i)"
    by (simp add: nextIndication_def err flags assms(1-3) split: list.split)
  have subs: "set (concat (map (\<lambda>(key, set). map (\<lambda>(ch, owner). EndSubscription ch e) set) (cs_subs c)))
      = {EndSubscription ch e |ch k ss owner. (k, ss) \<in> set (cs_subs c) \<and> (ch, owner) \<in> set ss}" by force
  have waiters: "set (concat (map (\<lambda>(key, set). map (\<lambda>w. EndWaiter (iw_ch w) e) set) (cs_waiters c)))
      = {EndWaiter (iw_ch w) e |w k ws. (k, ws) \<in> set (cs_waiters c) \<and> w \<in> set ws}" by force
  show "set (cs_outbox ?s) = set (cs_outbox c)
        \<union> (\<lambda>(tid, w). SendResult (rw_ch w) (ResultErr e)) ` set (cs_pending c)
        \<union> {EndSubscription ch e |ch k ss owner. (k, ss) \<in> set (cs_subs c) \<and> (ch, owner) \<in> set ss}
        \<union> {EndWaiter (iw_ch w) e |w k ws. (k, ws) \<in> set (cs_waiters c) \<and> w \<in> set ws}"
    unfolding subs [symmetric] waiters [symmetric] by (simp add: stopReceiver_def Un_assoc)
qed (simp_all add: stopReceiver_def)

theorem stopReceiver_fails_everyone_witness:
  "fst (registerResponse None sample_command False (stopReceiver ErrReceiverStopped sample_waiting)) = Fail ErrReceiverStopped
   \<and> set (cs_outbox (stopReceiver ErrReceiverStopped sample_waiting)) = {EndWaiter 0 ErrReceiverStopped}"
proof -
  have s: "\<not> leaseClosed None sample_waiting" "\<not> cs_closed sample_waiting" "\<not> cs_closing sample_waiting"
    "cs_receiverErr sample_waiting = None" "cs_pending sample_waiting = []" "cs_subs sample_waiting = []" "cs_outbox sample_waiting = []"
    "cs_waiters sample_waiting = [(\<lparr>ik_serviceID = ServiceBasicConnect, ik_commandID = 11\<rparr>, [\<lparr>iw_ch = 0, iw_owner = None\<rparr>])]"
    by (simp_all add: sample_waiting_def nextIndication_def newClientState_def leaseClosed_def entries_def ensureReceiverLocked_def Let_def)
  have m: "responseMessageType (rq_MessageType sample_command) \<noteq> None" by (simp add: sample_command_def responseMessageType_def)
  show ?thesis
    using stopReceiver_fails_everyone [OF s(1-3) m, of ErrReceiverStopped False "\<lparr>ik_serviceID = [], ik_commandID = 0\<rparr>"] s by auto
qed

text \<open>The tables restricted to what the leases other than \<open>l\<close> own.\<close>

definition others_pending :: "clientLease \<Rightarrow> clientState \<Rightarrow> u32 \<rightharpoonup> responseWaiter" where
  "others_pending l c tid =
     (case map_of (cs_pending c) tid of Some w \<Rightarrow> if rw_owner w = Some l then None else Some w | None \<Rightarrow> None)"

lemma map_of_filter_values:
  "distinct (map fst al) \<Longrightarrow> map_of (filter (\<lambda>(k, v). P v) al) k =
     (case map_of al k of Some v \<Rightarrow> if P v then Some v else None | None \<Rightarrow> None)"
  by (induction al) (auto simp: map_of_eq_None_iff image_iff split: option.splits)

lemma entries_filtered:
  assumes "distinct (map fst al)"
  shows "entries (filter (\<lambda>(key, set). set \<noteq> []) (map (\<lambda>(key, set). (key, filter P set)) al)) k = filter P (entries al k)"
proof -
  have "distinct (map fst (map (\<lambda>(key, set). (key, filter P set)) al))" using assms by (simp add: comp_def split_def)
  then have "map_of (filter (\<lambda>(key, set). set \<noteq> []) (map (\<lambda>(key, set). (key, filter P set)) al)) k =
     (case map_of (map (\<lambda>(key, set). (key, filter P set)) al) k of Some v \<Rightarrow> if v \<noteq> [] then Some v else None | None \<Rightarrow> None)"
    by (rule map_of_filter_values)
  then show ?thesis by (simp add: entries_def map_of_map split: option.split)
qed

text \<open>Closing a lease of a shared client concerns that lease alone: every request, subscription and
  reader it owns is sent the lease-closed error and leaves the tables; those of all other leases
  and of the client itself stay exactly as they were, in order; the closed lease can register
  nothing any more and closing it again does nothing.\<close>

theorem mb_closeLease_isolated:
  assumes "l \<notin> set (cs_closedLeases c)"
    and "distinct (map fst (cs_pending c))" "distinct (map fst (cs_subs c))" "distinct (map fst (cs_waiters c))"
  shows "map_of (cs_pending (mb_closeLease (Some l) c)) tid = others_pending l c tid
    \<and> entries (cs_subs (mb_closeLease (Some l) c)) k = filter (\<lambda>(ch, owner). owner \<noteq> Some l) (entries (cs_subs c) k)
    \<and> entries (cs_waiters (mb_closeLease (Some l) c)) k = filter (\<lambda>w. iw_owner w \<noteq> Some l) (entries (cs_waiters c) k)
    \<and> (\<lambda>(tid, w). SendResult (rw_ch w) (ResultErr ErrClientLeaseClosed)) ` {(tid, w) \<in> set (cs_pending c). rw_owner w = Some l}
        \<subseteq> set (cs_outbox (mb_closeLease (Some l) c))
    \<and> {FailSubscription ch ErrClientLeaseClosed |ch key ss. (key, ss) \<in> set (cs_subs c) \<and> (ch, Some l) \<in> set ss}
        \<subseteq> set (cs_outbox (mb_closeLease (Some l) c))
    \<and> {FailWaiter (iw_ch w) ErrClientLeaseClosed |w key ws. (key, ws) \<in> set (cs_waiters c) \<and> w \<in> set ws \<and> iw_owner w = Some l}
        \<subseteq> set (cs_outbox (mb_closeLease (Some l) c))
    \<and> ensureReceiverLocked (Some l) ac (mb_closeLease (Some l) c) = Fail ErrClientLeaseClosed
    \<and> mb_closeLease (Some l) (mb_closeLease (Some l) c) = mb_closeLease (Some l) c"
proof (intro conjI)
  let ?s = "mb_closeLease (Some l) c"
  note close = mb_closeLease_def assms(1)
  have "map_of (filter (\<lambda>(tid, w). rw_owner w \<noteq> Some l) (cs_pending c)) tid = others_pending l c tid"
    using map_of_filter_values [OF assms(2), of "\<lambda>w. rw_owner w \<noteq> Some l" tid]
    by (simp add: others_pending_def split: option.splits)
  then show "map_of (cs_pending ?s) tid = others_pending l c tid" by (simp add: close)
  show "entries (cs_subs ?s) k = filter (\<lambda>(ch, owner). owner \<noteq> Some l) (entries (cs_subs c) k)"
    using entries_filtered [OF assms(3)] by (simp add: close)
  show "entries (cs_waiters ?s) k = filter (\<lambda>w. iw_owner w \<noteq> Some l) (entries (cs_waiters c) k)"
    using entries_filtered [OF assms(4)] by (simp add: close)
  show "(\<lambda>(tid, w). SendResult (rw_ch w) (ResultErr ErrClientLeaseClosed)) ` {(tid, w) \<in> set (cs_pending c). rw_owner w = Some l}
        \<subseteq> set (cs_outbox ?s)" by (auto simp: close)
  show "{FailSubscription ch ErrClientLeaseClosed |ch key ss. (key, ss) \<in> set (cs_subs c) \<and> (ch, Some l) \<in> set ss} \<subseteq> set (cs_outbox ?s)"
    by (simp add: close) force
  show "{FailWaiter (iw_ch w) ErrClientLeaseClosed |w key ws. (key, ws) \<in> set (cs_waiters c) \<and> w \<in> set ws \<and> iw_owner w = Some l}
        \<subseteq> set (cs_outbox ?s)" by (simp add: close) force
  show "ensureReceiverLocked (Some l) ac ?s = Fail ErrClientLeaseClosed"
    by (simp add: ensureReceiverLocked_def leaseClosed_def close)
  show "mb_closeLease (Some l) ?s = ?s" by (simp add: close)
qed

definition sample_leased :: clientState where
  "sample_leased = snd (nextIndication (Some 1) \<lparr>ik_serviceID = ServiceBasicConnect, ik_commandID = 11\<rparr> sample_waiting)"

theorem mb_closeLease_isolated_witness:
  "entries (cs_waiters (mb_closeLease (Some 1) sample_leased)) \<lparr>ik_serviceID = ServiceBasicConnect, ik_commandID = 11\<rparr>
    = [\<lparr>iw_ch = 0, iw_owner = None\<rparr>]"
proof -
  have s: "cs_closedLeases sample_leased = []" "cs_pending sample_leased = []" "cs_subs sample_leased = []"
    "cs_waiters sample_leased = [(\<lparr>ik_serviceID = ServiceBasicConnect, ik_commandID = 11\<rparr>,
        [\<lparr>iw_ch = 0, iw_owner = None\<rparr>, \<lparr>iw_ch = 1, iw_owner = Some 1\<rparr>])]"
    by (simp_all add: sample_leased_def sample_waiting_def nextIndication_def newClientState_def leaseClosed_def entries_def
        ensureReceiverLocked_def Let_def)
  show ?thesis
    using mb_closeLease_isolated [of 1 sample_leased 0 "\<lparr>ik_serviceID = ServiceBasicConnect, ik_commandID = 11\<rparr>" False]
    by (simp add: s entries_def)
qed

section \<open>The queue of unclaimed indications\<close>

text \<open>The specification: per key, a queue that keeps its newest 32 entries and is read from the front.\<close>

definition keep_newest :: "nat \<Rightarrow> 'a list \<Rightarrow> 'a list" where
  "keep_newest n xs = drop (length xs - n) xs"

fun publish_all :: "Indication list \<Rightarrow> clientState \<Rightarrow> clientState option" where
  "publish_all [] c = Some c"
| "publish_all (i # is) c = (case publishIndication i c of None \<Rightarrow> None | Some c' \<Rightarrow> publish_all is c')"

lemma keep_newest_snoc: "keep_newest n (keep_newest n xs @ ys) = keep_newest n (xs @ ys)"
  by (simp add: keep_newest_def) (metis (no_types, lifting) add.commute diff_diff_left diff_le_self drop_append drop_drop le_add_diff_inverse2
      length_append length_drop nat_le_linear diff_is_0_eq drop_0)

fun read_all :: "nat \<Rightarrow> clientLease option \<Rightarrow> indicationKey \<Rightarrow> clientState \<Rightarrow> next_result list \<times> clientState" where
  "read_all 0 lease k c = ([], c)"
| "read_all (Suc n) lease k c =
     (case nextIndication lease k c of (r, c1) \<Rightarrow> case read_all n lease k c1 of (rs, c2) \<Rightarrow> (r # rs, c2))"

lemma entries_set_entries: "entries (set_entries k vs al) k' = (if k' = k then vs else entries al k')"
  by (simp add: set_entries_def entries_def AList.delete_conv' AList.update_conv')

lemma queueIndicationLocked_entries:
  "entries (cs_indications (queueIndicationLocked k i c)) k' =
     (if k' = k then keep_newest 32 (entries (cs_indications c) k @ [i]) else entries (cs_indications c) k')"
  by (simp add: queueIndicationLocked_def entries_def AList.update_conv' Let_def keep_newest_def maxQueuedIndications_def)

lemma publish_all_unclaimed:
  assumes "cs_subs c = []" "cs_waiters c = []" "queues_bounded c"
  shows "\<exists>c'. publish_all is c = Some c' \<and> cs_subs c' = [] \<and> cs_waiters c' = [] \<and> queues_bounded c'
    \<and> leaseClosed lease c' = leaseClosed lease c \<and> cs_closed c' = cs_closed c \<and> cs_closing c' = cs_closing c
    \<and> (\<forall>k. entries (cs_indications c') k
          = keep_newest 32 (entries (cs_indications c) k @ filter (\<lambda>i. indication_key i = k) is))"
  using assms
proof (induction "is" arbitrary: c)
  case Nil
  then show ?case using entries_bounded [OF Nil(3)] by (simp add: keep_newest_def maxQueuedIndications_def)
next
  case (Cons i "is")
  let ?c = "queueIndicationLocked (indication_key i) i c"
  have p: "publishIndication i c = Some ?c" using Cons.prems by (simp add: publishIndication_def entries_def)
  have f: "cs_subs ?c = []" "cs_waiters ?c = []" "leaseClosed lease ?c = leaseClosed lease c" "cs_closed ?c = cs_closed c"
    "cs_closing ?c = cs_closing c"
    using Cons.prems by (simp_all add: queueIndicationLocked_def Let_def leaseClosed_def split: option.split)
  from Cons.IH [OF f(1,2) queueIndicationLocked_bounded [OF Cons.prems(3)]] obtain c' where
    c': "publish_all is ?c = Some c'" "cs_subs c' = []" "cs_waiters c' = []" "queues_bounded c'"
      "leaseClosed lease c' = leaseClosed lease ?c" "cs_closed c' = cs_closed ?c" "cs_closing c' = cs_closing ?c"
      "\<And>k. entries (cs_indications c') k
          = keep_newest 32 (entries (cs_indications ?c) k @ filter (\<lambda>i. indication_key i = k) is)" by auto
  have "entries (cs_indications c') k = keep_newest 32 (entries (cs_indications c) k @ filter (\<lambda>i. indication_key i = k) (i # is))" for k
    unfolding c'(8) queueIndicationLocked_entries
    using keep_newest_snoc [of 32 "entries (cs_indications c) k @ [i]" "filter (\<lambda>i. indication_key i = k) is"] by simp
  with c' p f show ?case by auto
qed

lemma read_all_queued:
  assumes "\<not> leaseClosed lease c" "\<not> cs_closed c" "\<not> cs_closing c"
  shows "length q = n \<Longrightarrow> entries (cs_indications c) k = q @ rest \<Longrightarrow>
    fst (read_all n lease k c) = map Queued q \<and> entries (cs_indications (snd (read_all n lease k c))) k = rest"
  using assms
proof (induction n arbitrary: c q)
  case (Suc n)
  then obtain i q' where q: "q = i # q'" "length q' = n" by (cases q) auto
  let ?c = "c\<lparr>cs_indications := set_entries k (q' @ rest) (cs_indications c)\<rparr>"
  have nx: "nextIndication lease k c = (Queued i, ?c)" using Suc.prems q by (simp add: nextIndication_def)
  have "leaseClosed lease ?c = leaseClosed lease c" by (simp add: leaseClosed_def split: option.split)
  with Suc.IH [of q' ?c] Suc.prems q nx show ?case by (simp add: entries_set_entries split_def)
qed simp

text \<open>C15: refinement of the specification queue: while nobody listens, publishing any sequence of
  indications (of any keys) leaves for each key the newest 32 of what was queued and published
  for that key, in arrival order, and reading that many times returns exactly them, in that
  order.\<close>

theorem indication_queue_refines:
  assumes "cs_subs c = []" "cs_waiters c = []" "queues_bounded c"
    and "\<not> leaseClosed lease c" "\<not> cs_closed c" "\<not> cs_closing c"
    and "q = keep_newest 32 (entries (cs_indications c) k @ filter (\<lambda>i. indication_key i = k) is)"
  shows "\<exists>c'. publish_all is c = Some c' \<and> entries (cs_indications c') k = q
    \<and> fst (read_all (length q) lease k c') = map Queued q"
proof -
  obtain c' where c': "publish_all is c = Some c'" "leaseClosed lease c' = leaseClosed lease c" "cs_closed c' = cs_closed c"
    "cs_closing c' = cs_closing c" "entries (cs_indications c') k = q"
    using publish_all_unclaimed [OF assms(1-3), of "is" lease] assms(7) by auto
  then have "fst (read_all (length q) lease k c') = map Queued q"
    using read_all_queued [of lease c' q "length q" k "[]"] assms(4-6) by simp
  with c' show ?thesis by blast
qed

theorem indication_queue_refines_witness:
  "\<exists>c'. publish_all (replicate 40 sample_indication) newClientState = Some c'
    \<and> fst (read_all 32 None (indication_key sample_indication) c') = replicate 32 (Queued sample_indication)"
proof -
  have "filter (\<lambda>i. indication_key i = indication_key sample_indication) (replicate 40 sample_indication) = replicate 40 sample_indication"
    by (simp add: filter_id_conv)
  then show ?thesis
    using indication_queue_refines [of newClientState None "replicate 32 sample_indication" "indication_key sample_indication" "replicate 40 sample_indication"]
    by (auto simp: newClientState_def queues_bounded_def leaseClosed_def keep_newest_def entries_def)
qed

end
