(* ===== verification/Utf8.thy ===== *)
theory Utf8
  imports Utf16
begin

text \<open>
  UTF-8 as \<open>unicode/utf8\<close> and the string conversions of Go define it: encoding of a rune, decoding of
  the first rune of a byte string with the accepted ranges of the second byte, validity, and
  \<open>strings.TrimSpace\<close>. On valid strings, bytes and runes are in bijection.
\<close>

section \<open>Encoding and decoding\<close>

definition utf8_encode_rune :: "rune \<Rightarrow> bytes" where
  "utf8_encode_rune r =
     (let r = (if valid_rune r then r else replacement) in
      if r < 0x80 then [of_nat r]
      else if r < 0x800 then [of_nat (0xC0 + r div 0x40), of_nat (0x80 + r mod 0x40)]
      else if r < 0x10000 then [of_nat (0xE0 + r div 0x1000), of_nat (0x80 + r div 0x40 mod 0x40), of_nat (0x80 + r mod 0x40)]
      else [of_nat (0xF0 + r div 0x40000), of_nat (0x80 + r div 0x1000 mod 0x40), of_nat (0x80 + r div 0x40 mod 0x40),
            of_nat (0x80 + r mod 0x40)])"

definition utf8_encode :: "rune list \<Rightarrow> bytes" where
  "utf8_encode s = concat (map utf8_encode_rune s)"

definition in_range :: "nat \<Rightarrow> nat \<Rightarrow> byte \<Rightarrow> bool" where
  "in_range lo hi b \<longleftrightarrow> lo \<le> unat b \<and> unat b \<le> hi"

text \<open>The first rune and its width; \<open>None\<close> where \<open>DecodeRune\<close> returns \<open>(RuneError, 1)\<close> for a bad byte.\<close>

fun utf8_DecodeRune :: "bytes \<Rightarrow> (rune \<times> nat) option" where
  "utf8_DecodeRune [] = None"
| "utf8_DecodeRune (a # rest) =
     (if unat a < 0x80 then Some (unat a, 1)
      else if in_range 0xC2 0xDF a then
        (case rest of
           b # _ \<Rightarrow> if in_range 0x80 0xBF b then Some ((unat a - 0xC0) * 0x40 + (unat b - 0x80), 2) else None
         | _ \<Rightarrow> None)
      else if in_range 0xE0 0xEF a then
        (case rest of
           b # c # _ \<Rightarrow>
             if in_range (if unat a = 0xE0 then 0xA0 else 0x80) (if unat a = 0xED then 0x9F else 0xBF) b \<and> in_range 0x80 0xBF c
             then Some ((unat a - 0xE0) * 0x1000 + (unat b - 0x80) * 0x40 + (unat c - 0x80), 3) else None
         | _ \<Rightarrow> None)
      else if in_range 0xF0 0xF4 a then
        (case rest of
           b # c # d # _ \<Rightarrow>
             if in_range (if unat a = 0xF0 then 0x90 else 0x80) (if unat a = 0xF4 then 0x8F else 0xBF) b
                \<and> in_range 0x80 0xBF c \<and> in_range 0x80 0xBF d
             then Some ((unat a - 0xF0) * 0x40000 + (unat b - 0x80) * 0x1000 + (unat c - 0x80) * 0x40 + (unat d - 0x80), 4) else None
         | _ \<Rightarrow> None)
      else None)"

lemma utf8_DecodeRune_width: "utf8_DecodeRune bs = Some (r, n) \<Longrightarrow> 0 < n \<and> n \<le> length bs"
  by (cases bs) (auto split: if_splits list.splits)

lemmas utf8_DecodeRune_Cons = utf8_DecodeRune.simps(2)

declare utf8_DecodeRune.simps(2) [simp del]

text \<open>The runes of a byte string with the bytes each stands for, as \<open>range\<close> yields them.\<close>

function utf8_segments :: "bytes \<Rightarrow> (rune option \<times> bytes) list" where
  "utf8_segments bs =
     (case bs of
        [] \<Rightarrow> []
      | b # rest \<Rightarrow>
          (case utf8_DecodeRune bs of
             Some (r, n) \<Rightarrow> (Some r, take n bs) # utf8_segments (drop n bs)
           | None \<Rightarrow> (None, [b]) # utf8_segments rest))"
  by pat_completeness auto
termination
  by (relation "measure length") (auto dest: utf8_DecodeRune_width)

declare utf8_segments.simps [simp del]

lemma utf8_segments_Nil [simp]: "utf8_segments [] = []"
  by (simp add: utf8_segments.simps)

lemma utf8_segments_Some:
  "utf8_DecodeRune bs = Some (r, n) \<Longrightarrow> utf8_segments bs = (Some r, take n bs) # utf8_segments (drop n bs)"
  by (cases bs) (simp, subst utf8_segments.simps, simp)

lemma utf8_segments_None: "utf8_DecodeRune (b # bs) = None \<Longrightarrow> utf8_segments (b # bs) = (None, [b]) # utf8_segments bs"
  by (subst utf8_segments.simps) simp

definition utf8_runes :: "bytes \<Rightarrow> rune list" where
  "utf8_runes bs = map (\<lambda>(r, _). case r of Some r \<Rightarrow> r | None \<Rightarrow> replacement) (utf8_segments bs)"

definition utf8_Valid :: "bytes \<Rightarrow> bool" where
  "utf8_Valid bs = list_all (\<lambda>(r, _). r \<noteq> None) (utf8_segments bs)"

section \<open>Trimming\<close>

definition IsSpace :: "rune \<Rightarrow> bool" where
  "IsSpace r \<longleftrightarrow> r \<in> {0x09, 0x0A, 0x0B, 0x0C, 0x0D, 0x20, 0x85, 0xA0, 0x1680, 0x2028, 0x2029, 0x202F, 0x205F, 0x3000}
     \<or> 0x2000 \<le> r \<and> r \<le> 0x200A"

definition space_segment :: "rune option \<times> bytes \<Rightarrow> bool" where
  "space_segment s = (case fst s of Some r \<Rightarrow> IsSpace r | None \<Rightarrow> False)"

text \<open>\<open>strings.TrimSpace\<close>. The right end is scanned backwards in Go; UTF-8 is self-synchronising, so the
  runes found from the left are the same.\<close>

definition TrimSpace :: "bytes \<Rightarrow> bytes" where
  "TrimSpace bs = concat (map snd (rev (dropWhile space_segment (rev (dropWhile space_segment (utf8_segments bs))))))"

section \<open>Bytes and runes are in bijection on valid strings\<close>

lemma byte_of_nat: "n < 256 \<Longrightarrow> unat (of_nat n :: byte) = n"
  by (rule unat_of_nat_byte) simp

lemma base64_digits:
  fixes r :: nat
  shows "r = r div 0x1000 * 0x1000 + r div 0x40 mod 0x40 * 0x40 + r mod 0x40"
    "r = r div 0x40000 * 0x40000 + r div 0x1000 mod 0x40 * 0x1000 + r div 0x40 mod 0x40 * 0x40 + r mod 0x40"
proof -
  have d: "r div 0x1000 = r div 0x40 div 0x40" "r div 0x40000 = r div 0x40 div 0x40 div 0x40" by (simp_all add: div_mult2_eq [symmetric])
  have m: "q = q div 0x40 * 0x40 + q mod 0x40" for q :: nat by simp
  show "r = r div 0x1000 * 0x1000 + r div 0x40 mod 0x40 * 0x40 + r mod 0x40"
    unfolding d using m [of r] m [of "r div 0x40"] by linarith
  show "r = r div 0x40000 * 0x40000 + r div 0x1000 mod 0x40 * 0x1000 + r div 0x40 mod 0x40 * 0x40 + r mod 0x40"
    unfolding d using m [of r] m [of "r div 0x40"] m [of "r div 0x40 div 0x40"] by linarith
qed

lemma utf8_decode_encode:
  assumes "valid_rune r"
  shows "utf8_DecodeRune (utf8_encode_rune r @ rest) = Some (r, length (utf8_encode_rune r))"
proof -
  consider "r < 0x80" | "0x80 \<le> r" "r < 0x800" | "0x800 \<le> r" "r < 0x10000" | "0x10000 \<le> r" "r \<le> 0x10FFFF"
    using assms by (force simp: valid_rune_def)
  then show ?thesis
  proof cases
    case 1
    then show ?thesis using assms by (simp add: utf8_encode_rune_def byte_of_nat utf8_DecodeRune_Cons)
  next
    case 2
    define a b where "a = r div 0x40" and "b = r mod 0x40"
    have ab: "r = a * 0x40 + b" "b < 0x40" "2 \<le> a" "a < 0x20" using 2 by (auto simp: a_def b_def less_mult_imp_div_less)
    have "utf8_encode_rune r = [of_nat (0xC0 + a), of_nat (0x80 + b)]" using 2 assms by (simp add: utf8_encode_rune_def a_def b_def)
    moreover have "unat (of_nat (0xC0 + a) :: byte) = 0xC0 + a" "unat (of_nat (0x80 + b) :: byte) = 0x80 + b"
      using ab by (intro byte_of_nat; simp)+
    ultimately show ?thesis using ab by (simp add: utf8_DecodeRune_Cons in_range_def del: of_nat_add)
  next
    case 3
    define a b c where "a = r div 0x1000" and "b = r div 0x40 mod 0x40" and "c = r mod 0x40"
    have abc: "r = a * 0x1000 + b * 0x40 + c" "c < 0x40" "b < 0x40" "a < 0x10"
      using 3 base64_digits(1) [of r] by (simp_all add: a_def b_def c_def less_mult_imp_div_less)
    have "utf8_encode_rune r = [of_nat (0xE0 + a), of_nat (0x80 + b), of_nat (0x80 + c)]"
      using 3 assms by (simp add: utf8_encode_rune_def a_def b_def c_def)
    moreover have "unat (of_nat (0xE0 + a) :: byte) = 0xE0 + a" "unat (of_nat (0x80 + b) :: byte) = 0x80 + b"
      "unat (of_nat (0x80 + c) :: byte) = 0x80 + c"
      using abc by (intro byte_of_nat; simp)+
    moreover have "a = 0 \<Longrightarrow> 0x20 \<le> b" "a = 0xD \<Longrightarrow> b < 0x20" using abc 3 assms by (auto simp: valid_rune_def)
    ultimately show ?thesis using abc by (auto simp: utf8_DecodeRune_Cons in_range_def simp del: of_nat_add)
  next
    case 4
    define a b c d where "a = r div 0x40000" and "b = r div 0x1000 mod 0x40" and "c = r div 0x40 mod 0x40" and "d = r mod 0x40"
    have abcd: "r = a * 0x40000 + b * 0x1000 + c * 0x40 + d" "d < 0x40" "c < 0x40" "b < 0x40" "a < 5"
      using 4 base64_digits(2) [of r] by (simp_all add: a_def b_def c_def d_def less_mult_imp_div_less)
    have "utf8_encode_rune r = [of_nat (0xF0 + a), of_nat (0x80 + b), of_nat (0x80 + c), of_nat (0x80 + d)]"
      using 4 assms by (simp add: utf8_encode_rune_def a_def b_def c_def d_def)
    moreover have "unat (of_nat (0xF0 + a) :: byte) = 0xF0 + a" "unat (of_nat (0x80 + b) :: byte) = 0x80 + b"
      "unat (of_nat (0x80 + c) :: byte) = 0x80 + c" "unat (of_nat (0x80 + d) :: byte) = 0x80 + d"
      using abcd by (intro byte_of_nat; simp)+
    moreover have "a = 0 \<Longrightarrow> 0x10 \<le> b" "a = 4 \<Longrightarrow> b < 0x10" using abcd 4 by auto
    ultimately show ?thesis using abcd by (auto simp: utf8_DecodeRune_Cons in_range_def simp del: of_nat_add)
  qed
qed

lemma div_mod_64: "b < 0x40 \<Longrightarrow> (a * 0x40 + b) div 0x40 = a" "b < 0x40 \<Longrightarrow> (a * 0x40 + b) mod 0x40 = (b :: nat)"
  by simp_all

lemma utf8_encode_decode:
  assumes "utf8_DecodeRune bs = Some (r, n)"
  shows "valid_rune r \<and> utf8_encode_rune r = take n bs"
proof -
  obtain a rest where bs: "bs = a # rest" using assms by (cases bs) auto
  consider "unat a < 0x80" | "in_range 0xC2 0xDF a" | "in_range 0xE0 0xEF a" | "in_range 0xF0 0xF4 a"
    using assms by (auto simp: bs utf8_DecodeRune_Cons split: if_splits)
  then show ?thesis
  proof cases
    case 1
    then show ?thesis using assms by (auto simp: bs utf8_DecodeRune_Cons utf8_encode_rune_def valid_rune_def)
  next
    case 2
    with assms obtain b rest' where b: "rest = b # rest'" "in_range 0x80 0xBF b" "n = 2"
      and r: "r = (unat a - 0xC0) * 0x40 + (unat b - 0x80)"
      by (auto simp: bs utf8_DecodeRune_Cons in_range_def split: if_splits list.splits)
    define x y where "x = unat a - 0xC0" and "y = unat b - 0x80"
    have xy: "unat a = 0xC0 + x" "unat b = 0x80 + y" "2 \<le> x" "x < 0x20" "y < 0x40"
      using 2 b(2) by (auto simp: in_range_def x_def y_def)
    have "r = x * 0x40 + y" using r by (simp add: x_def y_def)
    moreover from this xy have "r div 0x40 = x" "r mod 0x40 = y" "0x80 \<le> r" "r < 0x800" by simp_all
    ultimately have "utf8_encode_rune r = [of_nat (unat a), of_nat (unat b)]" "valid_rune r"
      by (simp_all add: utf8_encode_rune_def valid_rune_def xy del: of_nat_add)
    then show ?thesis using b by (simp add: bs)
  next
    case 3
    with assms obtain b c rest' where b: "rest = b # c # rest'" "in_range (if unat a = 0xE0 then 0xA0 else 0x80) (if unat a = 0xED then 0x9F else 0xBF) b"
      "in_range 0x80 0xBF c" "n = 3" and r: "r = (unat a - 0xE0) * 0x1000 + (unat b - 0x80) * 0x40 + (unat c - 0x80)"
      by (auto simp: bs utf8_DecodeRune_Cons in_range_def split: if_splits list.splits)
    define x y z where "x = unat a - 0xE0" and "y = unat b - 0x80" and "z = unat c - 0x80"
    have xy: "unat a = 0xE0 + x" "unat b = 0x80 + y" "unat c = 0x80 + z" "x < 0x10" "y < 0x40" "z < 0x40" "x = 0 \<Longrightarrow> 0x20 \<le> y" "x = 0xD \<Longrightarrow> y < 0x20"
      using 3 b(2,3) by (auto simp: in_range_def x_def y_def z_def split: if_splits)
    have r': "r = (x * 0x40 + y) * 0x40 + z" using r by (simp add: x_def y_def z_def)
    have q: "r div 0x40 = x * 0x40 + y" "r mod 0x40 = z" unfolding r' using xy by (simp_all only: div_mod_64)
    have "r div 0x40 div 0x40 = x" "r div 0x40 mod 0x40 = y" "r mod 0x40 = z" unfolding q using xy by (simp_all only: div_mod_64)
    moreover from this have "r div 0x1000 = x" using div_mult2_eq [of r "0x40" "0x40"] by simp
    moreover have "0x800 \<le> r" by (cases "x = 0") (use r' xy in auto)
    moreover have "r < 0x10000" using r' xy by simp
    moreover have "valid_rune r"
    proof -
      consider "x < 13" | "x = 13" | "13 < x" by linarith
      then show ?thesis by cases (use r' xy in \<open>auto simp: valid_rune_def\<close>)
    qed
    ultimately have "utf8_encode_rune r = [of_nat (unat a), of_nat (unat b), of_nat (unat c)]" "valid_rune r"
      by (simp_all add: utf8_encode_rune_def xy del: of_nat_add)
    then show ?thesis using b by (simp add: bs)
  next
    case 4
    with assms obtain b c d rest' where b: "rest = b # c # d # rest'" "in_range (if unat a = 0xF0 then 0x90 else 0x80) (if unat a = 0xF4 then 0x8F else 0xBF) b"
      "in_range 0x80 0xBF c" "in_range 0x80 0xBF d" "n = 4"
      and r: "r = (unat a - 0xF0) * 0x40000 + (unat b - 0x80) * 0x1000 + (unat c - 0x80) * 0x40 + (unat d - 0x80)"
      by (auto simp: bs utf8_DecodeRune_Cons in_range_def split: if_splits list.splits)
    define x y z w where "x = unat a - 0xF0" and "y = unat b - 0x80" and "z = unat c - 0x80" and "w = unat d - 0x80"
    have xy: "unat a = 0xF0 + x" "unat b = 0x80 + y" "unat c = 0x80 + z" "unat d = 0x80 + w" "x \<le> 4" "y < 0x40" "z < 0x40" "w < 0x40"
      "x = 0 \<Longrightarrow> 0x10 \<le> y" "x = 4 \<Longrightarrow> y < 0x10"
      using 4 b(2,3,4) by (auto simp: in_range_def x_def y_def z_def w_def split: if_splits)
    have r': "r = ((x * 0x40 + y) * 0x40 + z) * 0x40 + w" using r by (simp add: x_def y_def z_def w_def)
    have q: "r div 0x40 = (x * 0x40 + y) * 0x40 + z" "r mod 0x40 = w" unfolding r' using xy by (simp_all only: div_mod_64)
    have q2: "r div 0x40 div 0x40 = x * 0x40 + y" "r div 0x40 mod 0x40 = z" unfolding q using xy by (simp_all only: div_mod_64)
    have q3: "r div 0x40 div 0x40 div 0x40 = x" "r div 0x40 div 0x40 mod 0x40 = y" unfolding q2 using xy by (simp_all only: div_mod_64)
    have "r div 0x1000 = r div 0x40 div 0x40" "r div 0x40000 = r div 0x40 div 0x40 div 0x40" by (simp_all add: div_mult2_eq [symmetric])
    then have "r div 0x40000 = x" "r div 0x1000 mod 0x40 = y" "r div 0x40 mod 0x40 = z" "r mod 0x40 = w"
      using q q2 q3 by simp_all
    moreover have "0x10000 \<le> r" by (cases "x = 0") (use r' xy in auto)
    moreover have "r \<le> 0x10FFFF" by (cases "x = 4") (use r' xy in auto)
    moreover from calculation have "valid_rune r" by (simp add: valid_rune_def)
    ultimately have "utf8_encode_rune r = [of_nat (unat a), of_nat (unat b), of_nat (unat c), of_nat (unat d)]" "valid_rune r"
      by (simp_all add: utf8_encode_rune_def xy del: of_nat_add)
    then show ?thesis using b by (simp add: bs)
  qed
qed

lemma utf8_segments_encode:
  "list_all valid_rune s \<Longrightarrow> utf8_segments (utf8_encode s) = map (\<lambda>r. (Some r, utf8_encode_rune r)) s"
proof (induction s)
  case (Cons r s)
  have d: "utf8_DecodeRune (utf8_encode_rune r @ utf8_encode s) = Some (r, length (utf8_encode_rune r))"
    using Cons.prems by (simp add: utf8_decode_encode)
  have "utf8_segments (utf8_encode_rune r @ utf8_encode s) = (Some r, utf8_encode_rune r) # utf8_segments (utf8_encode s)"
    using utf8_segments_Some [OF d] by simp
  with Cons show ?case by (simp add: utf8_encode_def)
qed (simp add: utf8_encode_def)

lemma utf8_Valid_encode: "list_all valid_rune s \<Longrightarrow> utf8_Valid (utf8_encode s) \<and> utf8_runes (utf8_encode s) = s"
  by (simp add: utf8_Valid_def utf8_runes_def utf8_segments_encode list_all_iff comp_def)

lemma utf8_Valid_runes: "utf8_Valid bs \<Longrightarrow> list_all valid_rune (utf8_runes bs) \<and> utf8_encode (utf8_runes bs) = bs"
proof (induction "length bs" arbitrary: bs rule: less_induct)
  case less
  show ?case
  proof (cases bs)
    case (Cons b rest)
    obtain r n where d: "utf8_DecodeRune bs = Some (r, n)"
      using less.prems by (cases "utf8_DecodeRune bs") (auto simp: utf8_Valid_def utf8_segments_None Cons)
    have step: "utf8_segments bs = (Some r, take n bs) # utf8_segments (drop n bs)"
      by (rule utf8_segments_Some [OF d])
    have "length (drop n bs) < length bs" using utf8_DecodeRune_width [OF d] by auto
    moreover have "utf8_Valid (drop n bs)" using less.prems step by (simp add: utf8_Valid_def)
    ultimately have "list_all valid_rune (utf8_runes (drop n bs)) \<and> utf8_encode (utf8_runes (drop n bs)) = drop n bs"
      by (rule less.hyps)
    moreover have "utf8_runes bs = r # utf8_runes (drop n bs)" using step by (simp add: utf8_runes_def)
    ultimately show ?thesis using utf8_encode_decode [OF d] by (simp add: utf8_encode_def)
  qed (simp add: utf8_runes_def utf8_encode_def)
qed

lemma utf8_bijection:
  "utf8_Valid bs \<and> utf8_runes bs = s \<longleftrightarrow> list_all valid_rune s \<and> utf8_encode s = bs"
  using utf8_Valid_encode utf8_Valid_runes by blast

text \<open>Trimming a string with no white space at its ends.\<close>

lemma TrimSpace_id:
  assumes "list_all valid_rune s" "s = [] \<or> \<not> IsSpace (hd s) \<and> \<not> IsSpace (last s)"
  shows "TrimSpace (utf8_encode s) = utf8_encode s"
proof (cases "s = []")
  case False
  let ?f = "\<lambda>r. (Some r, utf8_encode_rune r)"
  have "dropWhile space_segment (map ?f s) = map ?f s" using False assms(2) by (cases s) (simp_all add: space_segment_def)
  moreover have "dropWhile space_segment (rev (map ?f s)) = rev (map ?f s)"
    using False assms(2) by (cases s rule: rev_cases) (simp_all add: space_segment_def)
  ultimately show ?thesis 
    unfolding TrimSpace_def utf8_segments_encode [OF assms(1)] by (simp add: comp_def utf8_encode_def)
qed (simp add: TrimSpace_def utf8_encode_def)

end
