(* ===== verification/Sms_Text.thy ===== *)
theory Sms_Text
  imports Utf8
begin

text \<open>
  The text codecs of SMS (\<^verbatim>\<open>modem/sms/text.go\<close> and the GSM 7-bit tables of \<^verbatim>\<open>modem/sms/pdu.go\<close>): unpacked
  septets of the GSM default alphabet with its extension table, UCS-2 and UTF-16 in either byte
  order. A Go string is the list of its runes; a string that is not valid UTF-8 is a list with
  an invalid rune.
\<close>

section \<open>The GSM 7-bit default alphabet\<close>

definition gsm7DefaultDecode :: "rune list" where
  "gsm7DefaultDecode =
     [0x40, 0xA3, 0x24, 0xA5, 0xE8, 0xE9, 0xF9, 0xEC, 0xF2, 0xC7, 0x0A, 0xD8, 0xF8, 0x0D, 0xC5, 0xE5,
      0x394, 0x5F, 0x3A6, 0x393, 0x39B, 0x3A9, 0x3A0, 0x3A8, 0x3A3, 0x398, 0x39E, 0x00, 0xC6, 0xE6, 0xDF, 0xC9,
      0x20, 0x21, 0x22, 0x23, 0xA4, 0x25, 0x26, 0x27, 0x28, 0x29, 0x2A, 0x2B, 0x2C, 0x2D, 0x2E, 0x2F,
      0x30, 0x31, 0x32, 0x33, 0x34, 0x35, 0x36, 0x37, 0x38, 0x39, 0x3A, 0x3B, 0x3C, 0x3D, 0x3E, 0x3F,
      0xA1, 0x41, 0x42, 0x43, 0x44, 0x45, 0x46, 0x47, 0x48, 0x49, 0x4A, 0x4B, 0x4C, 0x4D, 0x4E, 0x4F,
      0x50, 0x51, 0x52, 0x53, 0x54, 0x55, 0x56, 0x57, 0x58, 0x59, 0x5A, 0xC4, 0xD6, 0xD1, 0xDC, 0xA7,
      0xBF, 0x61, 0x62, 0x63, 0x64, 0x65, 0x66, 0x67, 0x68, 0x69, 0x6A, 0x6B, 0x6C, 0x6D, 0x6E, 0x6F,
      0x70, 0x71, 0x72, 0x73, 0x74, 0x75, 0x76, 0x77, 0x78, 0x79, 0x7A, 0xE4, 0xF6, 0xF1, 0xFC, 0xE0]"

definition gsm7DefaultEncode :: "rune \<Rightarrow> byte option" where
  "gsm7DefaultEncode =
     map_of (rev (filter (\<lambda>(r, v). r \<noteq> 0) (zip gsm7DefaultDecode (map of_nat [0..<128]))))"

definition gsm7ExtensionTable :: "(byte \<times> rune) list" where
  "gsm7ExtensionTable =
     [(0x0A, 0x0C), (0x14, 0x5E), (0x28, 0x7B), (0x29, 0x7D), (0x2F, 0x5C),
      (0x3C, 0x5B), (0x3D, 0x7E), (0x3E, 0x5D), (0x40, 0x7C), (0x65, 0x20AC)]"

definition gsm7ExtensionDecode :: "byte \<Rightarrow> rune option" where
  "gsm7ExtensionDecode = map_of gsm7ExtensionTable"

definition gsm7ExtensionEncode :: "rune \<Rightarrow> byte option" where
  "gsm7ExtensionEncode = map_of (map (\<lambda>(v, r). (r, v)) gsm7ExtensionTable)"

definition encodeGSM7Rune :: "rune \<Rightarrow> bytes option" where
  "encodeGSM7Rune r =
     (case gsm7DefaultEncode r of
        Some v \<Rightarrow> Some [v]
      | None \<Rightarrow> (case gsm7ExtensionEncode r of Some v \<Rightarrow> Some [0x1B, v] | None \<Rightarrow> None))"

datatype text_error =
    NotRepresentable rune
  | NotASeptet byte
  | TrailingEscape
  | InvalidUTF8
  | OutsideUCS2 rune
  | OddLength
  | SurrogateUnit
  | UnpairedHigh
  | UnpairedLow

fun gsm7_MarshalBinary :: "rune list \<Rightarrow> (text_error, bytes) outcome" where
  "gsm7_MarshalBinary [] = Ret []"
| "gsm7_MarshalBinary (r # t) =
     (case encodeGSM7Rune r of
        None \<Rightarrow> Fail (NotRepresentable r)
      | Some encoded \<Rightarrow> bind (gsm7_MarshalBinary t) (\<lambda>rest. Ret (encoded @ rest)))"

text \<open>The decoding loop, with the flag \<open>escaped\<close>.\<close>

fun gsm7_loop :: "bool \<Rightarrow> bytes \<Rightarrow> (text_error, rune list) outcome" where
  "gsm7_loop escaped [] = (if escaped then Fail TrailingEscape else Ret [])"
| "gsm7_loop escaped (v # septets) =
     (if v > 0x7F then Fail (NotASeptet v)
      else if escaped then
        (let r = (case gsm7ExtensionDecode v of Some r \<Rightarrow> r | None \<Rightarrow> gsm7DefaultDecode ! unat v);
             r = (if v = 0x1B then 0x20 else r)
         in bind (gsm7_loop False septets) (\<lambda>t. Ret (r # t)))
      else if v = 0x1B then gsm7_loop True septets
      else bind (gsm7_loop False septets) (\<lambda>t. Ret (gsm7DefaultDecode ! unat v # t)))"

definition gsm7_UnmarshalBinary :: "bytes \<Rightarrow> (text_error, rune list) outcome" where
  "gsm7_UnmarshalBinary septets = gsm7_loop False septets"

section \<open>UCS-2 and UTF-16\<close>

datatype byte_order = BigEndian | LittleEndian

definition PutUint16 :: "byte_order \<Rightarrow> u16 \<Rightarrow> bytes" where
  "PutUint16 order w = (case order of BigEndian \<Rightarrow> put_be16 w | LittleEndian \<Rightarrow> put_le16 w)"

fun units16 :: "byte_order \<Rightarrow> bytes \<Rightarrow> u16 list" where
  "units16 order (a # b # data) =
     (case order of BigEndian \<Rightarrow> join_le16 b a | LittleEndian \<Rightarrow> join_le16 a b) # units16 order data"
| "units16 order _ = []"

definition utf8_ValidString :: "rune list \<Rightarrow> bool" where
  "utf8_ValidString s = list_all valid_rune s"

fun marshalUCS2_loop :: "byte_order \<Rightarrow> rune list \<Rightarrow> (text_error, bytes) outcome" where
  "marshalUCS2_loop order [] = Ret []"
| "marshalUCS2_loop order (r # t) =
     (if r > 0xFFFF \<or> r \<ge> 0xD800 \<and> r \<le> 0xDFFF then Fail (OutsideUCS2 r)
      else bind (marshalUCS2_loop order t) (\<lambda>rest. Ret (PutUint16 order (of_nat r) @ rest)))"

definition marshalUCS2 :: "byte_order \<Rightarrow> rune list \<Rightarrow> (text_error, bytes) outcome" where
  "marshalUCS2 order value = fail_if (\<not> utf8_ValidString value) InvalidUTF8 (marshalUCS2_loop order value)"

definition unmarshalUCS2 :: "byte_order \<Rightarrow> bytes \<Rightarrow> (text_error, rune list) outcome" where
  "unmarshalUCS2 order data =
     fail_if (length data mod 2 \<noteq> 0) OddLength
       (traverse (\<lambda>unit. if unit \<ge> 0xD800 \<and> unit \<le> 0xDFFF then Fail SurrogateUnit else Ret (unat unit)) (units16 order data))"

definition marshalUTF16 :: "byte_order \<Rightarrow> rune list \<Rightarrow> (text_error, bytes) outcome" where
  "marshalUTF16 order value =
     fail_if (\<not> utf8_ValidString value) InvalidUTF8 (Ret (concat (map (PutUint16 order) (utf16_encode value))))"

fun checkSurrogates :: "u16 list \<Rightarrow> (text_error, unit) outcome" where
  "checkSurrogates [] = Ret ()"
| "checkSurrogates (unit # units) =
     (if unit \<ge> 0xD800 \<and> unit \<le> 0xDBFF then
        (case units of
           [] \<Rightarrow> Fail UnpairedHigh
         | v # rest \<Rightarrow> if v < 0xDC00 \<or> v > 0xDFFF then Fail UnpairedHigh else checkSurrogates rest)
      else if unit \<ge> 0xDC00 \<and> unit \<le> 0xDFFF then Fail UnpairedLow
      else checkSurrogates units)"

definition unmarshalUTF16 :: "byte_order \<Rightarrow> bytes \<Rightarrow> (text_error, rune list) outcome" where
  "unmarshalUTF16 order data =
     fail_if (length data mod 2 \<noteq> 0) OddLength
       (bind (checkSurrogates (units16 order data)) (\<lambda>_. Ret (utf16_decode (units16 order data))))"

section \<open>The text types\<close>

text \<open>\<open>MarshalText\<close> and \<open>UnmarshalText\<close> of GSM7 and UCS2 convert to and from UTF-8 and check that the
  binary encoder accepts the text; those of UTF16 check UTF-8 alone.\<close>

definition marshalText :: "(rune list \<Rightarrow> (text_error, bytes) outcome) \<Rightarrow> rune list \<Rightarrow> (text_error, bytes) outcome" where
  "marshalText marshal t = bind (marshal t) (\<lambda>_. Ret (utf8_encode t))"

definition unmarshalText :: "(rune list \<Rightarrow> (text_error, bytes) outcome) \<Rightarrow> bytes \<Rightarrow> (text_error, rune list) outcome" where
  "unmarshalText marshal data =
     fail_if (\<not> utf8_Valid data) InvalidUTF8
       (let decoded = utf8_runes data in bind (marshal decoded) (\<lambda>_. Ret decoded))"

definition gsm7_MarshalText where "gsm7_MarshalText = marshalText gsm7_MarshalBinary"
definition gsm7_UnmarshalText where "gsm7_UnmarshalText = unmarshalText gsm7_MarshalBinary"

definition ucs2_MarshalBinary where "ucs2_MarshalBinary = marshalUCS2 BigEndian"
definition ucs2_UnmarshalBinary where "ucs2_UnmarshalBinary = unmarshalUCS2 BigEndian"
definition ucs2_MarshalText where "ucs2_MarshalText = marshalText ucs2_MarshalBinary"
definition ucs2_UnmarshalText where "ucs2_UnmarshalText = unmarshalText ucs2_MarshalBinary"

definition ucs2le_MarshalBinary where "ucs2le_MarshalBinary = marshalUCS2 LittleEndian"
definition ucs2le_UnmarshalBinary where "ucs2le_UnmarshalBinary = unmarshalUCS2 LittleEndian"
definition ucs2le_MarshalText where "ucs2le_MarshalText = marshalText ucs2le_MarshalBinary"
definition ucs2le_UnmarshalText where "ucs2le_UnmarshalText = unmarshalText ucs2le_MarshalBinary"

definition utf16_MarshalBinary where "utf16_MarshalBinary = marshalUTF16 BigEndian"
definition utf16_UnmarshalBinary where "utf16_UnmarshalBinary = unmarshalUTF16 BigEndian"
definition utf16le_MarshalBinary where "utf16le_MarshalBinary = marshalUTF16 LittleEndian"
definition utf16le_UnmarshalBinary where "utf16le_UnmarshalBinary = unmarshalUTF16 LittleEndian"

text \<open>Both byte orders of UTF16 have the same textual form.\<close>

definition utf16_MarshalText :: "rune list \<Rightarrow> (text_error, bytes) outcome" where
  "utf16_MarshalText t = fail_if (\<not> utf8_ValidString t) InvalidUTF8 (Ret (utf8_encode t))"

definition utf16_UnmarshalText :: "bytes \<Rightarrow> (text_error, rune list) outcome" where
  "utf16_UnmarshalText data = fail_if (\<not> utf8_Valid data) InvalidUTF8 (Ret (utf8_runes data))"

definition utf16le_MarshalText where "utf16le_MarshalText = utf16_MarshalText"
definition utf16le_UnmarshalText where "utf16le_UnmarshalText = utf16_UnmarshalText"

section \<open>Lemmas\<close>

lemma length_gsm7DefaultDecode: "length gsm7DefaultDecode = 128"
  by (simp add: gsm7DefaultDecode_def)

lemma gsm7_escape_entry: "gsm7DefaultDecode ! 27 = 0"
  by (simp add: gsm7DefaultDecode_def)

lemma gsm7DefaultEncode_Some:
  assumes "gsm7DefaultEncode r = Some v"
  shows "unat v < 128 \<and> v \<noteq> 0x1B \<and> gsm7DefaultDecode ! unat v = r"
proof -
  have "(r, v) \<in> set (filter (\<lambda>(r, v). r \<noteq> 0) (zip gsm7DefaultDecode (map of_nat [0..<128])))"
    using map_of_SomeD [OF assms [unfolded gsm7DefaultEncode_def]] by simp
  then obtain n where n: "n < 128" "r = gsm7DefaultDecode ! n" "v = of_nat n" "r \<noteq> 0"
    by (auto simp: in_set_zip length_gsm7DefaultDecode)
  then have u: "unat v = n" by (simp add: unat_of_nat_byte)
  moreover have "v \<noteq> 0x1B"
  proof
    assume "v = 0x1B"
    then have "n = 27" using u by simp
    then show False using n gsm7_escape_entry by simp
  qed
  ultimately show ?thesis using n by simp
qed

lemma gsm7ExtensionEncode_Some:
  assumes "gsm7ExtensionEncode r = Some v"
  shows "v \<le> 0x7F \<and> v \<noteq> 0x1B \<and> gsm7ExtensionDecode v = Some r"
  using map_of_SomeD [OF assms [unfolded gsm7ExtensionEncode_def]]
  by (auto simp: gsm7ExtensionTable_def gsm7ExtensionDecode_def)

lemma byte_le_0x7F: "(v :: byte) \<le> 0x7F \<longleftrightarrow> unat v < 128"
  by (simp add: word_le_nat_alt) linarith

lemma encodeGSM7Rune_septets: "encodeGSM7Rune r = Some e \<Longrightarrow> e \<noteq> [] \<and> length e \<le> 2 \<and> list_all (\<lambda>v. v \<le> 0x7F) e"
  by (auto simp: encodeGSM7Rune_def byte_le_0x7F dest!: gsm7DefaultEncode_Some gsm7ExtensionEncode_Some split: option.splits)

lemma encodeGSM7Rune_valid:
  assumes "encodeGSM7Rune r = Some e"
  shows "valid_rune r"
proof -
  have "list_all valid_rune gsm7DefaultDecode" by (simp add: gsm7DefaultDecode_def valid_rune_def)
  moreover have "r \<in> set gsm7DefaultDecode" if "gsm7DefaultEncode r = Some v" for v
    using gsm7DefaultEncode_Some [OF that] nth_mem [of "unat v" gsm7DefaultDecode] by (auto simp: length_gsm7DefaultDecode)
  moreover have "valid_rune r" if "gsm7ExtensionEncode r = Some v" for v
    using map_of_SomeD [OF that [unfolded gsm7ExtensionEncode_def]] by (auto simp: gsm7ExtensionTable_def valid_rune_def)
  ultimately show ?thesis using assms by (auto simp: encodeGSM7Rune_def list_all_iff split: option.splits)
qed

lemma gsm7_loop_rune:
  assumes "encodeGSM7Rune r = Some e"
  shows "gsm7_loop False (e @ rest) = bind (gsm7_loop False rest) (\<lambda>t. Ret (r # t))"
proof (cases "gsm7DefaultEncode r")
  case (Some v)
  note d = gsm7DefaultEncode_Some [OF Some]
  have "v \<le> 0x7F" using d by (simp add: byte_le_0x7F)
  moreover have "e = [v]" using Some assms by (simp add: encodeGSM7Rune_def)
  ultimately show ?thesis using d by (simp add: not_le [symmetric])
next
  case None
  then obtain v where v: "gsm7ExtensionEncode r = Some v" "e = [0x1B, v]" using assms by (auto simp: encodeGSM7Rune_def split: option.splits)
  from gsm7ExtensionEncode_Some [OF v(1)] v(2) show ?thesis by (simp add: not_le [symmetric] Let_def)
qed

lemma gsm7_Marshal_Unmarshal:
  "gsm7_MarshalBinary t = Ret bs \<Longrightarrow> gsm7_loop False bs = Ret t \<and> list_all (\<lambda>v. v \<le> 0x7F) bs"
proof (induction t arbitrary: bs)
  case (Cons r t)
  then obtain e rest where e: "encodeGSM7Rune r = Some e" "gsm7_MarshalBinary t = Ret rest" "bs = e @ rest"
    by (auto split: option.splits)
  with Cons.IH [OF e(2)] gsm7_loop_rune [OF e(1)] encodeGSM7Rune_septets [OF e(1)] show ?case by simp
qed simp

text \<open>GSM 7-bit text: every text the encoder accepts decodes to itself, and what the encoder
  produces are septets. Decoding any septets that do not end in an escape succeeds, and no decoding
  panics.\<close>

theorem gsm7_roundtrip:
  "(gsm7_MarshalBinary t = Ret bs \<longrightarrow> gsm7_UnmarshalBinary bs = Ret t \<and> list_all (\<lambda>v. v \<le> 0x7F) bs)
   \<and> (list_all (\<lambda>v. v \<le> 0x7F) septets \<and> (septets = [] \<or> last septets \<noteq> 0x1B) \<longrightarrow> (\<exists>s. gsm7_UnmarshalBinary septets = Ret s))
   \<and> gsm7_UnmarshalBinary septets \<noteq> Panic"
proof (intro conjI impI)
  assume "gsm7_MarshalBinary t = Ret bs"
  then show "gsm7_UnmarshalBinary bs = Ret t" "list_all (\<lambda>v. v \<le> 0x7F) bs"
    using gsm7_Marshal_Unmarshal by (simp_all add: gsm7_UnmarshalBinary_def)
next
  have "list_all (\<lambda>v. v \<le> 0x7F) septets \<Longrightarrow> septets = [] \<and> \<not> escaped \<or> septets \<noteq> [] \<and> last septets \<noteq> 0x1B \<Longrightarrow>
      \<exists>s. gsm7_loop escaped septets = Ret s" for escaped
    by (induction escaped septets rule: gsm7_loop.induct) (auto simp: not_le [symmetric] Let_def split: if_splits)
  moreover assume "list_all (\<lambda>v. v \<le> 0x7F) septets \<and> (septets = [] \<or> last septets \<noteq> 0x1B)"
  ultimately show "\<exists>s. gsm7_UnmarshalBinary septets = Ret s" by (auto simp: gsm7_UnmarshalBinary_def)
next
  have "gsm7_loop escaped septets \<noteq> Panic" for escaped
    by (induction escaped septets rule: gsm7_loop.induct) (auto simp: bind_eq_Panic_iff Let_def)
  then show "gsm7_UnmarshalBinary septets \<noteq> Panic" by (simp add: gsm7_UnmarshalBinary_def)
qed

theorem gsm7_roundtrip_witness:
  "gsm7_UnmarshalBinary [0x41, 0x1B, 0x65] = Ret [0x41, 0x20AC]"
proof -
  have "gsm7_MarshalBinary [0x41, 0x20AC] = Ret [0x41, 0x1B, 0x65]"
    by (simp add: encodeGSM7Rune_def gsm7DefaultEncode_def gsm7DefaultDecode_def gsm7ExtensionEncode_def
        gsm7ExtensionTable_def upt_rec)
  with gsm7_roundtrip [of "[0x41, 0x20AC]" "[0x41, 0x1B, 0x65]" "[]"] show ?thesis by simp
qed

section \<open>UCS-2 and UTF-16 are inverse pairs\<close>

lemma units16_Put: "units16 order (concat (map (PutUint16 order) us)) = us"
proof (induction us)
  case (Cons u us)
  have "units16 order (PutUint16 order u @ rest) = u # units16 order rest" for rest
    by (cases order) (simp_all add: PutUint16_def put_be16_def put_le16_def)
  with Cons show ?case by simp
qed simp

lemma Put_units16: "length data mod 2 = 0 \<Longrightarrow> concat (map (PutUint16 order) (units16 order data)) = data"
  by (induction order data rule: units16.induct) (auto simp: PutUint16_def split: byte_order.split)

lemma length_concat_Put: "length (concat (map (PutUint16 order) us)) = 2 * length us"
  by (induction us) (auto simp: PutUint16_def split: byte_order.split)

lemma unit_of_nat: "r \<le> 0xFFFF \<Longrightarrow> unat (of_nat r :: u16) = r"
  by (intro unat_of_nat_u16) simp

lemma surrogate_iff: "(0xD800 \<le> (u :: u16) \<and> u \<le> 0xDFFF) = (0xD800 \<le> unat u \<and> unat u \<le> 0xDFFF)"
  by (simp add: word_le_nat_alt)

lemma marshalUCS2_loop_Ret:
  "marshalUCS2_loop order s = Ret data \<longleftrightarrow>
     list_all (\<lambda>r. r \<le> 0xFFFF \<and> \<not> (0xD800 \<le> r \<and> r \<le> 0xDFFF)) s \<and> data = concat (map (\<lambda>r. PutUint16 order (of_nat r)) s)"
  by (induction s arbitrary: data) auto

text \<open>UCS-2 in either byte order is a bijection between the texts of the basic multilingual plane
  without surrogates and the even-length byte strings without surrogate units: decoding accepts
  bytes as a text exactly when encoding that text gives those bytes.\<close>

lemma ucs2_bijection: "unmarshalUCS2 order data = Ret s \<longleftrightarrow> marshalUCS2 order s = Ret data"
proof
  assume a: "unmarshalUCS2 order data = Ret s"
  let ?us = "units16 order data"
  from a have len: "length data mod 2 = 0" "length s = length ?us"
    and u: "\<forall>i < length ?us. \<not> (0xD800 \<le> ?us ! i \<and> ?us ! i \<le> 0xDFFF) \<and> unat (?us ! i) = s ! i"
    by (auto simp: unmarshalUCS2_def traverse_eq_Ret_iff split: if_splits)
  have s: "s = map unat ?us" using len(2) u by (intro nth_equalityI) auto
  have "\<not> (0xD800 \<le> unat v \<and> unat v \<le> 0xDFFF)" if "v \<in> set ?us" for v
    using that u unfolding in_set_conv_nth surrogate_iff by metis
  moreover have "unat v \<le> 0xFFFF" for v :: u16 using unat_u16_lt [of v] by linarith
  ultimately have ok: "list_all (\<lambda>r. r \<le> 0xFFFF \<and> \<not> (0xD800 \<le> r \<and> r \<le> 0xDFFF)) s"
    unfolding s list_all_iff set_map by blast
  moreover have "map (\<lambda>r. PutUint16 order (of_nat r)) s = map (PutUint16 order) ?us" by (simp add: s)
  then have "concat (map (\<lambda>r. PutUint16 order (of_nat r)) s) = data" using Put_units16 [OF len(1), of order] by simp
  moreover have "utf8_ValidString s" using ok by (auto simp: utf8_ValidString_def valid_rune_def list_all_iff)
  ultimately show "marshalUCS2 order s = Ret data" by (simp add: marshalUCS2_def marshalUCS2_loop_Ret)
next
  assume "marshalUCS2 order s = Ret data"
  then have ok: "list_all (\<lambda>r. r \<le> 0xFFFF \<and> \<not> (0xD800 \<le> r \<and> r \<le> 0xDFFF)) s"
    and data: "data = concat (map (PutUint16 order) (map of_nat s))"
    by (auto simp: marshalUCS2_def marshalUCS2_loop_Ret comp_def)
  have "unat (of_nat r :: u16) = r" if "r \<in> set s" for r using ok that by (auto simp: list_all_iff intro: unit_of_nat)
  with ok show "unmarshalUCS2 order data = Ret s"
    unfolding unmarshalUCS2_def data units16_Put
    by (auto simp: traverse_eq_Ret_iff length_concat_Put surrogate_iff list_all_iff simp del: map_map)
qed

lemma high_iff: "(0xD800 \<le> (u :: u16) \<and> u \<le> 0xDBFF) = is_high u"
  by (auto simp: word_le_nat_alt is_high_def)

lemma low_iff: "(0xDC00 \<le> (u :: u16) \<and> u \<le> 0xDFFF) = is_low u" "(v < 0xDC00 \<or> v > 0xDFFF) = (\<not> is_low (v :: u16))"
  by (auto simp: word_le_nat_alt word_less_nat_alt is_low_def)

lemma encode_pair: "is_high u \<Longrightarrow> is_low v \<Longrightarrow> utf16_encode_rune (utf16_pair u v) = [u, v]"
proof -
  assume h: "is_high u" "is_low v"
  define a b where "a = unat u - 0xD800" and "b = unat v - 0xDC00"
  have ab: "a < 0x400" "b < 0x400" "unat u = 0xD800 + a" "unat v = 0xDC00 + b"
    using h by (auto simp: a_def b_def is_high_def is_low_def)
  then have "utf16_pair u v = 0x10000 + (a * 0x400 + b)" by (simp add: utf16_pair_def)
  moreover have "(a * 0x400 + b) div 0x400 = a" "(a * 0x400 + b) mod 0x400 = b" using ab by simp_all
  moreover have "a * 0x400 + b < 0x100000" using ab by simp
  ultimately have "utf16_encode_rune (utf16_pair u v) = [of_nat (0xD800 + a), of_nat (0xDC00 + b)]"
    by (simp add: utf16_encode_rune_def)
  then show ?thesis by (simp flip: ab(3,4))
qed

lemma encode_unit: "\<not> is_high u \<Longrightarrow> \<not> is_low u \<Longrightarrow> utf16_encode_rune (unat u) = [u]"
  using unat_u16_lt [of u] by (auto simp: utf16_encode_rune_def is_high_def is_low_def simp del: unat_u16_lt)

lemma checkSurrogates_encode_decode:
  "checkSurrogates us = Ret () \<Longrightarrow> utf16_encode (utf16_decode us) = us"
proof (induction us rule: checkSurrogates.induct)
  case (2 u units)
  show ?case
  proof (cases "is_high u")
    case True
    with 2(3) obtain v rest where v: "units = v # rest" "is_low v" "checkSurrogates rest = Ret ()"
      by (auto simp: high_iff low_iff split: list.splits if_splits)
    moreover have "utf16_encode (utf16_decode rest) = rest"
      using 2(1) [OF _ v(1) _ v(3)] True v(2) by (simp add: high_iff low_iff)
    ultimately show ?thesis using True encode_pair [OF True v(2)] by (auto simp: utf16_encode_def)
  next
    case False
    with 2(3) have "\<not> is_low u" "checkSurrogates units = Ret ()" by (auto simp: high_iff low_iff split: if_splits)
    with 2(2) False encode_unit [of u] show ?thesis by (simp add: high_iff low_iff utf16_decode_unit utf16_encode_def)
  qed
qed (simp add: utf16_encode_def)

lemma checkSurrogates_encode:
  "list_all valid_rune s \<Longrightarrow> checkSurrogates (utf16_encode s) = Ret ()"
proof (induction s)
  case (Cons r s)
  from Cons.prems have "valid_rune r" by simp
  then have "checkSurrogates (utf16_encode_rune r @ us) = checkSurrogates us" for us
    by (cases rule: utf16_encode_rune_cases) (simp_all add: high_iff low_iff)
  with Cons show ?case by (simp add: utf16_encode_def)
qed (simp add: utf16_encode_def)

lemma marshal_unmarshal_UTF16: "marshalUTF16 order s = Ret data \<Longrightarrow> unmarshalUTF16 order data = Ret s"
  by (auto simp: marshalUTF16_def utf8_ValidString_def unmarshalUTF16_def units16_Put checkSurrogates_encode utf16_roundtrip
      length_concat_Put)

text \<open>UTF-16 in either byte order is a bijection between the valid texts and the even-length byte
  strings whose surrogates are all paired: decoding accepts bytes as a text exactly when encoding
  that text gives those bytes.\<close>

lemma utf16_bijection: "unmarshalUTF16 order data = Ret s \<longleftrightarrow> marshalUTF16 order s = Ret data"
proof
  assume "unmarshalUTF16 order data = Ret s"
  then have "length data mod 2 = 0" "checkSurrogates (units16 order data) = Ret ()" "s = utf16_decode (units16 order data)"
    by (auto simp: unmarshalUTF16_def)
  then show "marshalUTF16 order s = Ret data"
    by (simp add: marshalUTF16_def utf8_ValidString_def utf16_decode_valid checkSurrogates_encode_decode Put_units16)
next
  assume "marshalUTF16 order s = Ret data"
  then show "unmarshalUTF16 order data = Ret s" by (rule marshal_unmarshal_UTF16)
qed

section \<open>The textual forms\<close>

text \<open>What every text type promises: it encodes valid text only, and decodes what it encoded. Its
  textual form is then in bijection with the texts it can encode.\<close>

locale sms_text =
  fixes marshal :: "rune list \<Rightarrow> (text_error, bytes) outcome"
    and unmarshal :: "bytes \<Rightarrow> (text_error, rune list) outcome"
  assumes marshal_valid: "marshal s = Ret bs \<Longrightarrow> utf8_ValidString s"
    and unmarshal_marshal: "marshal s = Ret bs \<Longrightarrow> unmarshal bs = Ret s"
begin

lemma text_iff: "unmarshalText marshal data = Ret s \<longleftrightarrow> marshalText marshal s = Ret data"
proof
  assume "unmarshalText marshal data = Ret s"
  then show "marshalText marshal s = Ret data"
    using utf8_bijection [of data s] by (auto simp: unmarshalText_def marshalText_def Let_def)
next
  assume "marshalText marshal s = Ret data"
  then obtain bs where "marshal s = Ret bs" "utf8_encode s = data" by (auto simp: marshalText_def)
  then show "unmarshalText marshal data = Ret s"
    using utf8_bijection [of data s] marshal_valid by (auto simp: unmarshalText_def Let_def utf8_ValidString_def)
qed

lemma transcode: "unmarshalText marshal data = Ret s \<Longrightarrow> \<exists>bs. marshal s = Ret bs \<and> unmarshal bs = Ret s"
  using unmarshal_marshal by (auto simp: unmarshalText_def Let_def)

lemma text_codec:
  "(unmarshalText marshal data = Ret s) = (marshalText marshal s = Ret data)
   \<and> (\<forall>bs. marshal s \<noteq> Ret bs \<or> unmarshal bs = Ret s)"
  using text_iff unmarshal_marshal by blast

end

interpretation gsm7: sms_text gsm7_MarshalBinary gsm7_UnmarshalBinary
proof
  show "gsm7_MarshalBinary s = Ret bs \<Longrightarrow> utf8_ValidString s" for s bs
    unfolding utf8_ValidString_def by (induction s arbitrary: bs) (auto split: option.splits dest: encodeGSM7Rune_valid)
  show "gsm7_MarshalBinary s = Ret bs \<Longrightarrow> gsm7_UnmarshalBinary bs = Ret s" for s bs
    using gsm7_Marshal_Unmarshal by (simp add: gsm7_UnmarshalBinary_def)
qed

interpretation ucs2: sms_text "marshalUCS2 order" "unmarshalUCS2 order"
  by unfold_locales (use ucs2_bijection in \<open>auto simp: marshalUCS2_def\<close>)

interpretation utf16: sms_text "marshalUTF16 order" "unmarshalUTF16 order"
  by unfold_locales (use marshal_unmarshal_UTF16 in \<open>auto simp: marshalUTF16_def\<close>)

lemma utf16_text_checks:
  "utf16_MarshalText = marshalText (marshalUTF16 order)" "utf16_UnmarshalText = unmarshalText (marshalUTF16 order)"
proof -
  show "utf16_MarshalText = marshalText (marshalUTF16 order)"
    by (auto simp: fun_eq_iff utf16_MarshalText_def marshalText_def marshalUTF16_def fail_if_def)
  have "utf8_Valid data \<Longrightarrow> utf8_ValidString (utf8_runes data)" for data
    using utf8_Valid_runes by (simp add: utf8_ValidString_def)
  then show "utf16_UnmarshalText = unmarshalText (marshalUTF16 order)"
    by (auto simp: fun_eq_iff utf16_UnmarshalText_def unmarshalText_def marshalUTF16_def fail_if_def Let_def)
qed

text \<open>The text types of SMS are lossless: for GSM7, UCS2, UCS2LE, UTF16 and UTF16LE, a UTF-8 string is
  accepted as a text exactly when that text is written as that string, and for the four 16-bit types
  a byte string is accepted as a text exactly when the text is encoded as those bytes.\<close>

theorem text_codecs_bijective:
  "(gsm7_UnmarshalText data = Ret s) = (gsm7_MarshalText s = Ret data)
   \<and> (ucs2_UnmarshalText data = Ret s) = (ucs2_MarshalText s = Ret data)
   \<and> (ucs2le_UnmarshalText data = Ret s) = (ucs2le_MarshalText s = Ret data)
   \<and> (utf16_UnmarshalText data = Ret s) = (utf16_MarshalText s = Ret data)
   \<and> (utf16le_UnmarshalText data = Ret s) = (utf16le_MarshalText s = Ret data)
   \<and> (ucs2_UnmarshalBinary data = Ret s) = (ucs2_MarshalBinary s = Ret data)
   \<and> (ucs2le_UnmarshalBinary data = Ret s) = (ucs2le_MarshalBinary s = Ret data)
   \<and> (utf16_UnmarshalBinary data = Ret s) = (utf16_MarshalBinary s = Ret data)
   \<and> (utf16le_UnmarshalBinary data = Ret s) = (utf16le_MarshalBinary s = Ret data)"
  by (simp add: gsm7_UnmarshalText_def gsm7_MarshalText_def ucs2_UnmarshalText_def ucs2_MarshalText_def
      ucs2le_UnmarshalText_def ucs2le_MarshalText_def ucs2_UnmarshalBinary_def ucs2_MarshalBinary_def
      ucs2le_UnmarshalBinary_def ucs2le_MarshalBinary_def utf16_UnmarshalBinary_def utf16_MarshalBinary_def
      utf16le_UnmarshalBinary_def utf16le_MarshalBinary_def utf16_text_checks [of BigEndian]
      utf16le_UnmarshalText_def utf16le_MarshalText_def
      gsm7.text_iff ucs2.text_iff utf16.text_iff ucs2_bijection utf16_bijection)

end
