(* ===== verification/Sms_Pdu.thy ===== *)
theory Sms_Pdu
  imports Sms_Text
begin

text \<open>
  SMS PDUs (\<^verbatim>\<open>modem/sms/pdu.go\<close>): packing of septets, semi-octet addresses, the SUBMIT encoder with
  its splitting into concatenated parts, and the decoder of DELIVER, SUBMIT and STATUS-REPORT
  PDUs. Phone numbers are byte strings, message text is a list of runes. The decoder reads with
  checked slices, so its panic freedom is a theorem.
\<close>

section \<open>Types and constants\<close>

datatype smsAlphabet = smsAlphabetGSM7 | smsAlphabetBinary | smsAlphabetUCS2

definition smsMaxUserDataOctets :: nat where "smsMaxUserDataOctets = 140"
definition smsGSM7SingleSeptets :: nat where "smsGSM7SingleSeptets = 160"
definition smsGSM7PartSeptets :: nat where "smsGSM7PartSeptets = 153"
definition smsUTF16SingleUnits :: nat where "smsUTF16SingleUnits = 70"
definition smsUTF16PartUnits :: nat where "smsUTF16PartUnits = 67"
definition smsBinaryPartOctets :: nat where "smsBinaryPartOctets = 134"

lemmas sms_limits =
  smsMaxUserDataOctets_def smsGSM7SingleSeptets_def smsGSM7PartSeptets_def smsUTF16SingleUnits_def
  smsUTF16PartUnits_def smsBinaryPartOctets_def

text \<open>The arguments of \<open>time.Date\<close>: year, month, day, hour, minute, second and zone offset.\<close>

record smsTimestamp =
  ts_year :: nat
  ts_month :: nat
  ts_day :: nat
  ts_hour :: nat
  ts_minute :: nat
  ts_second :: nat
  ts_offset :: int

datatype MessageState =
    MessageStateUnknown | MessageStateReceivedUnread | MessageStateReceivedRead
  | MessageStateStoredUnsent | MessageStateStoredSent

datatype MessageStorage = MessageStorageUnknown | MessageStorageDevice | MessageStorageSIM

record MessageRef =
  mr_Storage :: MessageStorage
  mr_ID :: u32

record Message =
  ms_ID :: u32
  ms_Refs :: "MessageRef list"
  ms_State :: MessageState
  ms_Storage :: MessageStorage
  ms_Number :: bytes
  ms_SMSC :: bytes
  ms_Text :: "rune list"
  ms_Data :: bytes
  ms_Timestamp :: "smsTimestamp option"
  ms_DeliveryReport :: bool
  ms_MessageReference :: u32
  ms_PDU :: bytes
  ms_PDUs :: "bytes list"

definition zeroMessage :: Message where
  "zeroMessage =
     \<lparr>ms_ID = 0, ms_Refs = [], ms_State = MessageStateUnknown, ms_Storage = MessageStorageUnknown,
      ms_Number = [], ms_SMSC = [], ms_Text = [], ms_Data = [], ms_Timestamp = None,
      ms_DeliveryReport = False, ms_MessageReference = 0, ms_PDU = [], ms_PDUs = []\<rparr>"

record MessageConfig =
  mc_Number :: bytes
  mc_SMSC :: bytes
  mc_Text :: "rune list"
  mc_Data :: bytes
  mc_DeliveryReport :: bool
  mc_Storage :: MessageStorage

record Part =
  pt_Message :: Message
  pt_Reference :: u16
  pt_Total :: byte
  pt_Index :: byte

datatype sms_error =
    PDUTruncated
  | SMSCTruncated
  | TPDUMissing
  | ReservedType byte
  | FixedFieldsTruncated
  | ReferenceMissing
  | PIDOrDCSMissing
  | ValidityTruncated
  | ReportTruncated
  | UserDataLengthMissing
  | UserDataTruncated
  | UDHExceeds
  | UDHLengthMissing
  | UDHTruncated
  | UDHElementTruncated
  | MultipartIndex byte byte
  | AddressTruncated
  | UCS2OddLength
  | TextError text_error

section \<open>Bits and septets\<close>

fun putBits_loop :: "nat \<Rightarrow> byte \<Rightarrow> nat list \<Rightarrow> bytes \<Rightarrow> ('e, bytes) outcome" where
  "putBits_loop ofs val [] dst = Ret dst"
| "putBits_loop ofs val (b # bits) dst =
     (if val AND push_bit b 1 \<noteq> 0
      then bind (index dst ((ofs + b) div 8)) (\<lambda>x.
             putBits_loop ofs val bits (dst[(ofs + b) div 8 := x OR push_bit ((ofs + b) mod 8) 1]))
      else putBits_loop ofs val bits dst)"

definition putBits :: "bytes \<Rightarrow> nat \<Rightarrow> byte \<Rightarrow> nat \<Rightarrow> ('e, bytes) outcome" where
  "putBits dst ofs val count = putBits_loop ofs val [0..<count] dst"

fun readBits_loop :: "bytes \<Rightarrow> nat \<Rightarrow> nat list \<Rightarrow> byte \<Rightarrow> ('e, byte) outcome" where
  "readBits_loop src ofs [] val = Ret val"
| "readBits_loop src ofs (b # bits) val =
     bind (index src ((ofs + b) div 8)) (\<lambda>x.
       readBits_loop src ofs bits (if x AND push_bit ((ofs + b) mod 8) 1 \<noteq> 0 then val OR push_bit b 1 else val))"

definition readBits :: "bytes \<Rightarrow> nat \<Rightarrow> nat \<Rightarrow> ('e, byte) outcome" where
  "readBits src ofs count = readBits_loop src ofs [0..<count] 0"

fun pack_loop :: "nat \<Rightarrow> bytes \<Rightarrow> bytes \<Rightarrow> ('e, bytes) outcome" where
  "pack_loop ofs [] dst = Ret dst"
| "pack_loop ofs (septet # septets) dst =
     bind (putBits dst ofs (septet AND 0x7F) 7) (\<lambda>dst'. pack_loop (ofs + 7) septets dst')"

definition PackSeptets :: "bytes \<Rightarrow> bytes \<Rightarrow> ('e, bytes \<times> nat) outcome" where
  "PackSeptets septets header =
     (let headerSeptets = (length header * 8 + 6) div 7;
          startBit = headerSeptets * 7;
          n = (startBit + length septets * 7 + 7) div 8
      in bind (pack_loop startBit septets (take n (header @ replicate (n - length header) 0)))
           (\<lambda>result. Ret (result, headerSeptets)))"

definition UnpackSeptets :: "bytes \<Rightarrow> nat \<Rightarrow> nat \<Rightarrow> ('e, bytes) outcome" where
  "UnpackSeptets data startBit count = traverse (\<lambda>i. readBits data (startBit + i * 7) 7) [0..<count]"

section \<open>Addresses\<close>

definition bcdNibble :: "byte \<Rightarrow> byte" where
  "bcdNibble v =
     (if 0x30 \<le> v \<and> v \<le> 0x39 then v - 0x30
      else if v = 0x2A then 0x0A
      else if v = 0x23 then 0x0B
      else if v = 0x61 \<or> v = 0x41 then 0x0C
      else if v = 0x62 \<or> v = 0x42 then 0x0D
      else if v = 0x63 \<or> v = 0x43 then 0x0E
      else 0x0F)"

fun encodeBCDDigits :: "bytes \<Rightarrow> bytes" where
  "encodeBCDDigits [] = []"
| "encodeBCDDigits [d] = [bcdNibble d OR push_bit 4 0x0F]"
| "encodeBCDDigits (d # e # ds) = (bcdNibble d OR push_bit 4 (bcdNibble e)) # encodeBCDDigits ds"

definition normalizeNumber :: "bytes \<Rightarrow> bytes \<times> bool" where
  "normalizeNumber number = (case number of c # rest \<Rightarrow> if c = 0x2B then (rest, True) else (number, False) | [] \<Rightarrow> ([], False))"

definition typeOfAddress :: "bool \<Rightarrow> byte" where
  "typeOfAddress international = (if international then 0x91 else 0x81)"

definition appendAddress :: "bytes \<Rightarrow> bytes \<Rightarrow> bytes" where
  "appendAddress dst number =
     (case normalizeNumber number of (digits, international) \<Rightarrow>
        dst @ [of_nat (length digits), typeOfAddress international] @ encodeBCDDigits digits)"

definition encodeSMSC :: "bytes \<Rightarrow> bytes" where
  "encodeSMSC number =
     (if number = [] then [0]
      else case normalizeNumber number of (digits, international) \<Rightarrow>
        let address = typeOfAddress international # encodeBCDDigits digits in of_nat (length address) # address)"

definition decodeBCDAddress :: "byte \<Rightarrow> bytes \<Rightarrow> nat \<Rightarrow> ('e, bytes) outcome" where
  "decodeBCDAddress toa data digitCount =
     bind (traverse (\<lambda>i. bind (index data (i div 2)) (\<lambda>x.
             let nibble = drop_bit (4 * (i mod 2)) x AND 0x0F in
             Ret (if nibble \<le> 9 then [0x30 + nibble] else []))) [0..<digitCount])
       (\<lambda>digits. Ret ((if toa AND 0x70 = 0x10 then [0x2B] else []) @ concat digits))"

text \<open>The text of an alphanumeric address becomes the number as a UTF-8 string.\<close>

definition readAddress :: "bytes \<Rightarrow> nat \<Rightarrow> (sms_error, bytes \<times> nat) outcome" where
  "readAddress pdu ofs =
     fail_if (length pdu - ofs < 2) AddressTruncated
      (bind (index pdu ofs) (\<lambda>count. bind (index pdu (ofs + 1)) (\<lambda>toa.
        let digitCount = unat count; ofs = ofs + 2; octets = (digitCount + 1) div 2 in
        if toa AND 0x70 = 0x50
        then fail_if (octets > length pdu - ofs) AddressTruncated
              (bind (subslice pdu ofs (ofs + octets)) (\<lambda>raw. bind (UnpackSeptets raw 0 (digitCount * 4 div 7)) (\<lambda>septets.
               bind (map_err TextError (gsm7_UnmarshalBinary septets)) (\<lambda>text.
                 Ret (utf8_encode text, ofs + octets)))))
        else fail_if (octets > length pdu - ofs) AddressTruncated
              (bind (subslice pdu ofs (ofs + octets)) (\<lambda>raw. bind (decodeBCDAddress toa raw digitCount) (\<lambda>address.
                 Ret (address, ofs + octets)))))))"

section \<open>Encoding\<close>

definition dcs_of :: "smsAlphabet \<Rightarrow> byte" where
  "dcs_of alphabet = (case alphabet of smsAlphabetBinary \<Rightarrow> 0x04 | smsAlphabetUCS2 \<Rightarrow> 0x08 | smsAlphabetGSM7 \<Rightarrow> 0)"

definition buildSubmitPDU :: "MessageConfig \<Rightarrow> smsAlphabet \<Rightarrow> bytes \<Rightarrow> bytes \<Rightarrow> ('e, bytes) outcome" where
  "buildSubmitPDU cfg alphabet data header =
     (let first = 0x01 OR (if mc_DeliveryReport cfg then 0x20 else 0) OR (if header \<noteq> [] then 0x40 else 0);
          pdu = appendAddress (encodeSMSC (mc_SMSC cfg) @ [first, 0]) (mc_Number cfg) @ [0, dcs_of alphabet]
      in if alphabet = smsAlphabetGSM7
         then bind (PackSeptets data header) (\<lambda>(packed, headerSeptets).
                Ret (pdu @ of_nat (headerSeptets + length data) # packed))
         else Ret (pdu @ of_nat (length (header @ data)) # header @ data))"

text \<open>The concatenation reference: a counter shared by all messages, its low byte never zero.\<close>

definition nextConcatReference :: "u32 \<Rightarrow> byte \<times> u32" where
  "nextConcatReference n =
     (let ref = (ucast (n + 1) :: byte) in if ref = 0 then (ucast (n + 2), n + 2) else (ref, n + 1))"

definition concat_header :: "byte \<Rightarrow> nat \<Rightarrow> nat \<Rightarrow> bytes" where
  "concat_header ref n i = [5, 0, 3, ref, of_nat n, of_nat (i + 1)]"

definition buildMultipartPDUs ::
  "MessageConfig \<Rightarrow> smsAlphabet \<Rightarrow> bytes list \<Rightarrow> u32 \<Rightarrow> ('e, bytes list) outcome \<times> u32" where
  "buildMultipartPDUs cfg alphabet chunks n =
     (case nextConcatReference n of (ref, n') \<Rightarrow>
        (traverse (\<lambda>(i, chunk). buildSubmitPDU cfg alphabet chunk (concat_header ref (length chunks) i))
           (enumerate 0 chunks), n'))"

fun splitGSM7_loop :: "nat \<Rightarrow> rune list \<Rightarrow> bytes \<Rightarrow> (text_error, bytes list) outcome" where
  "splitGSM7_loop capacity [] current = Ret (if current = [] then [] else [current])"
| "splitGSM7_loop capacity (r # t) current =
     (case encodeGSM7Rune r of
        None \<Rightarrow> Fail (NotRepresentable r)
      | Some encoded \<Rightarrow>
          if length current + length encoded > capacity
          then bind (splitGSM7_loop capacity t encoded) (\<lambda>chunks. Ret (current # chunks))
          else splitGSM7_loop capacity t (current @ encoded))"

definition splitGSM7 :: "rune list \<Rightarrow> nat \<Rightarrow> (text_error, bytes list) outcome" where
  "splitGSM7 t capacity = splitGSM7_loop capacity t []"

definition encodeGSM7PDUs :: "MessageConfig \<Rightarrow> u32 \<Rightarrow> (text_error, bytes list) outcome \<times> u32" where
  "encodeGSM7PDUs cfg n =
     (case gsm7_MarshalBinary (mc_Text cfg) of
        Fail e \<Rightarrow> (Fail e, n)
      | Panic \<Rightarrow> (Panic, n)
      | Ret septets \<Rightarrow>
          if length septets \<le> smsGSM7SingleSeptets
          then (bind (buildSubmitPDU cfg smsAlphabetGSM7 septets []) (\<lambda>pdu. Ret [pdu]), n)
          else (case splitGSM7 (mc_Text cfg) smsGSM7PartSeptets of
                  Fail e \<Rightarrow> (Fail e, n)
                | Panic \<Rightarrow> (Panic, n)
                | Ret chunks \<Rightarrow> buildMultipartPDUs cfg smsAlphabetGSM7 chunks n))"

text \<open>The length of the next UCS-2 part: a high surrogate is not left at its end.\<close>

definition ucs2_part_length :: "bytes \<Rightarrow> nat" where
  "ucs2_part_length payload =
     (let len = min (length payload) (smsUTF16PartUnits * 2) in
      if len < length payload
      then let lastUnit = join_le16 (payload ! (len - 1)) (payload ! (len - 2)) in
           if lastUnit \<ge> 0xD800 \<and> lastUnit \<le> 0xDBFF then len - 2 else len
      else len)"

function splitUCS2 :: "bytes \<Rightarrow> bytes list" where
  "splitUCS2 payload =
     (if length payload > 0
      then take (ucs2_part_length payload) payload # splitUCS2 (drop (ucs2_part_length payload) payload)
      else [])"
  by pat_completeness auto
termination
  by (relation "measure length") (auto simp: ucs2_part_length_def Let_def smsUTF16PartUnits_def min_def)

declare splitUCS2.simps [simp del]

definition encodeUCS2PDUs :: "MessageConfig \<Rightarrow> u32 \<Rightarrow> (text_error, bytes list) outcome \<times> u32" where
  "encodeUCS2PDUs cfg n =
     (case marshalUTF16 BigEndian (mc_Text cfg) of
        Fail e \<Rightarrow> (Fail e, n)
      | Panic \<Rightarrow> (Panic, n)
      | Ret payload \<Rightarrow>
          if length payload div 2 \<le> smsUTF16SingleUnits
          then (bind (buildSubmitPDU cfg smsAlphabetUCS2 payload []) (\<lambda>pdu. Ret [pdu]), n)
          else buildMultipartPDUs cfg smsAlphabetUCS2 (splitUCS2 payload) n)"

function splitBinary :: "bytes \<Rightarrow> bytes list" where
  "splitBinary data =
     (if length data > 0
      then let len = min (length data) smsBinaryPartOctets in take len data # splitBinary (drop len data)
      else [])"
  by pat_completeness auto
termination by (relation "measure length") (auto simp: smsBinaryPartOctets_def)

declare splitBinary.simps [simp del]

definition encodeBinaryPDUs :: "MessageConfig \<Rightarrow> u32 \<Rightarrow> (text_error, bytes list) outcome \<times> u32" where
  "encodeBinaryPDUs cfg n =
     (if length (mc_Data cfg) \<le> smsMaxUserDataOctets
      then (bind (buildSubmitPDU cfg smsAlphabetBinary (mc_Data cfg) []) (\<lambda>pdu. Ret [pdu]), n)
      else buildMultipartPDUs cfg smsAlphabetBinary (splitBinary (mc_Data cfg)) n)"

definition EncodePDUs :: "MessageConfig \<Rightarrow> u32 \<Rightarrow> (text_error, bytes list) outcome \<times> u32" where
  "EncodePDUs cfg n =
     (if mc_Text cfg \<noteq> []
      then (case gsm7_MarshalBinary (mc_Text cfg) of
              Ret _ \<Rightarrow> encodeGSM7PDUs cfg n
            | Fail _ \<Rightarrow> encodeUCS2PDUs cfg n
            | Panic \<Rightarrow> (Panic, n))
      else encodeBinaryPDUs cfg n)"

section \<open>Decoding\<close>

definition alphabetFromDCS :: "byte \<Rightarrow> smsAlphabet" where
  "alphabetFromDCS dcs =
     (if dcs AND 0x0C = 0x04 then smsAlphabetBinary
      else if dcs AND 0x0C = 0x08 then smsAlphabetUCS2
      else smsAlphabetGSM7)"

definition swapped :: "byte \<Rightarrow> byte \<Rightarrow> nat" where
  "swapped m octet = unat (octet AND m) * 10 + unat (drop_bit 4 octet)"

definition timestamp_UnmarshalBinary :: "bytes \<Rightarrow> (sms_error, smsTimestamp) outcome" where
  "timestamp_UnmarshalBinary v =
     (case v of
        [a, b, c, d, e, f, z] \<Rightarrow>
          let field = swapped 0x0F;
              year = (if field a \<ge> 90 then 1900 + field a else 2000 + field a);
              zone = int (swapped 0x07 z) * 15 * 60
          in Ret \<lparr>ts_year = year, ts_month = field b, ts_day = field c, ts_hour = field d, ts_minute = field e,
                  ts_second = field f, ts_offset = (if z AND 0x08 \<noteq> 0 then - zone else zone)\<rparr>
      | _ \<Rightarrow> Fail PDUTruncated)"

text \<open>The information elements of a user data header: the last concatenation element counts.\<close>

type_synonym concat_info = "u16 \<times> byte \<times> byte"

function udh_loop :: "bytes \<Rightarrow> nat \<Rightarrow> nat \<Rightarrow> concat_info \<Rightarrow> (sms_error, concat_info) outcome" where
  "udh_loop data headerLength ofs info =
     (if ofs < headerLength
      then fail_if (headerLength - ofs < 2) UDHElementTruncated
            (bind (index data ofs) (\<lambda>kind. bind (index data (ofs + 1)) (\<lambda>len.
             fail_if (unat len > headerLength - (ofs + 2)) UDHElementTruncated
              (bind (subslice data (ofs + 2) (ofs + 2 + unat len)) (\<lambda>v.
                udh_loop data headerLength (ofs + 2 + unat len)
                  (if kind = 0 \<and> len = 3 then (ucast (v ! 0), v ! 1, v ! 2)
                   else if kind = 8 \<and> len = 4 then (join_le16 (v ! 1) (v ! 0), v ! 2, v ! 3)
                   else info))))))
      else Ret info)"
  by pat_completeness auto
termination by (relation "measure (\<lambda>(data, headerLength, ofs, info). headerLength - ofs)") auto

declare udh_loop.simps [simp del]

definition unmarshalUserDataHeader :: "bytes \<Rightarrow> concat_info \<Rightarrow> (sms_error, nat \<times> concat_info) outcome" where
  "unmarshalUserDataHeader data info =
     fail_if (data = []) UDHLengthMissing
      (bind (index data 0) (\<lambda>n.
        let headerLength = unat n + 1 in
        fail_if (headerLength > length data) UDHTruncated
         (bind (udh_loop data headerLength 1 info) (\<lambda>(ref, tot, idx).
            fail_if (tot \<noteq> 0 \<and> (idx = 0 \<or> idx > tot)) (MultipartIndex idx tot)
              (Ret (headerLength, (ref, tot, idx)))))))"

definition concat_info_of :: "Part \<Rightarrow> concat_info" where
  "concat_info_of p = (pt_Reference p, pt_Total p, pt_Index p)"

definition set_concat :: "concat_info \<Rightarrow> Part \<Rightarrow> Part" where
  "set_concat info p = (case info of (ref, tot, idx) \<Rightarrow> p\<lparr>pt_Reference := ref, pt_Total := tot, pt_Index := idx\<rparr>)"

definition user_header :: "bool \<Rightarrow> bytes \<Rightarrow> concat_info \<Rightarrow> (sms_error, nat \<times> concat_info) outcome" where
  "user_header hasHeader data info = (if hasHeader then unmarshalUserDataHeader data info else Ret (0, info))"

definition unmarshalUserData :: "bytes \<Rightarrow> nat \<Rightarrow> bool \<Rightarrow> byte \<Rightarrow> Part \<Rightarrow> (sms_error, Part) outcome" where
  "unmarshalUserData pdu ofs hasHeader dcs p =
     fail_if (ofs \<ge> length pdu) UserDataLengthMissing
      (bind (index pdu ofs) (\<lambda>n.
        let len = unat n; ofs = ofs + 1; alphabet = alphabetFromDCS dcs in
        if alphabet = smsAlphabetGSM7
        then let octets = (len * 7 + 7) div 8 in
             fail_if (octets > length pdu - ofs) UserDataTruncated
              (bind (subslice pdu ofs (ofs + octets)) (\<lambda>data.
               bind (user_header hasHeader data (concat_info_of p)) (\<lambda>(headerLength, info).
                let headerSeptets = (if hasHeader then (headerLength * 8 + 6) div 7 else 0) in
                fail_if (headerSeptets > len) UDHExceeds
                 (bind (UnpackSeptets data (headerSeptets * 7) (len - headerSeptets)) (\<lambda>septets.
                  bind (map_err TextError (gsm7_UnmarshalBinary septets)) (\<lambda>text.
                   Ret (set_concat info (p\<lparr>pt_Message := (pt_Message p)\<lparr>ms_Text := text\<rparr>\<rparr>))))))))
        else fail_if (len > length pdu - ofs) UserDataTruncated
              (bind (subslice pdu ofs (ofs + len)) (\<lambda>data.
               bind (user_header hasHeader data (concat_info_of p)) (\<lambda>(headerLength, info).
               bind (subslice data headerLength (length data)) (\<lambda>payload.
                if alphabet = smsAlphabetBinary
                then Ret (set_concat info (p\<lparr>pt_Message := (pt_Message p)\<lparr>ms_Data := payload\<rparr>\<rparr>))
                else fail_if (length payload mod 2 \<noteq> 0) UCS2OddLength
                      (bind (map_err TextError (unmarshalUTF16 BigEndian payload)) (\<lambda>text.
                        Ret (set_concat info (p\<lparr>pt_Message := (pt_Message p)\<lparr>ms_Text := text\<rparr>\<rparr>)))))))))) "

definition unmarshalDeliverPDU :: "bytes \<Rightarrow> nat \<Rightarrow> byte \<Rightarrow> Part \<Rightarrow> (sms_error, Part) outcome" where
  "unmarshalDeliverPDU pdu ofs first p =
     bind (readAddress pdu ofs) (\<lambda>(number, ofs).
       fail_if (length pdu - ofs < 10) FixedFieldsTruncated
        (bind (index pdu (ofs + 1)) (\<lambda>dcs.
         bind (subslice pdu (ofs + 2) (ofs + 9)) (\<lambda>raw. bind (timestamp_UnmarshalBinary raw) (\<lambda>ts.
          unmarshalUserData pdu (ofs + 9) (first AND 0x40 \<noteq> 0) dcs
            (p\<lparr>pt_Message := (pt_Message p)\<lparr>ms_Number := number, ms_Timestamp := Some ts\<rparr>\<rparr>))))))"

definition validity_octets :: "byte \<Rightarrow> nat" where
  "validity_octets first =
     (let v = drop_bit 3 first AND 0x03 in if v = 1 then 7 else if v = 2 then 1 else if v = 3 then 7 else 0)"

definition unmarshalSubmitPDU :: "bytes \<Rightarrow> nat \<Rightarrow> byte \<Rightarrow> Part \<Rightarrow> (sms_error, Part) outcome" where
  "unmarshalSubmitPDU pdu ofs first p =
     fail_if (ofs \<ge> length pdu) ReferenceMissing
      (bind (index pdu ofs) (\<lambda>ref.
       bind (readAddress pdu (ofs + 1)) (\<lambda>(number, ofs).
        fail_if (length pdu - ofs < 2) PIDOrDCSMissing
         (bind (index pdu (ofs + 1)) (\<lambda>dcs.
          let ofs = ofs + 2 + validity_octets first in
          fail_if (ofs > length pdu) ValidityTruncated
           (unmarshalUserData pdu ofs (first AND 0x40 \<noteq> 0) dcs
             (p\<lparr>pt_Message := (pt_Message p)\<lparr>ms_MessageReference := ucast ref, ms_Number := number,
                  ms_DeliveryReport := (first AND 0x20 \<noteq> 0)\<rparr>\<rparr>)))))))"

definition unmarshalStatusReportPDU :: "bytes \<Rightarrow> nat \<Rightarrow> Part \<Rightarrow> (sms_error, Part) outcome" where
  "unmarshalStatusReportPDU pdu ofs p =
     fail_if (ofs \<ge> length pdu) ReferenceMissing
      (bind (index pdu ofs) (\<lambda>ref.
       bind (readAddress pdu (ofs + 1)) (\<lambda>(number, ofs).
        fail_if (length pdu - ofs < 15) ReportTruncated
         (bind (subslice pdu ofs (ofs + 7)) (\<lambda>raw. bind (timestamp_UnmarshalBinary raw) (\<lambda>ts.
          Ret (p\<lparr>pt_Message := (pt_Message p)\<lparr>ms_MessageReference := ucast ref, ms_DeliveryReport := True,
                 ms_Number := number, ms_Timestamp := Some ts\<rparr>\<rparr>)))))))"

definition part_UnmarshalBinary :: "bytes \<Rightarrow> (sms_error, Part) outcome" where
  "part_UnmarshalBinary pdu =
     fail_if (length pdu < 2) PDUTruncated
      (bind (index pdu 0) (\<lambda>n.
        let smscLength = unat n in
        fail_if (smscLength > length pdu - 1) SMSCTruncated
         (bind (if smscLength > 0
                then bind (index pdu 1) (\<lambda>toa. bind (subslice pdu 2 (1 + smscLength)) (\<lambda>raw.
                       decodeBCDAddress toa raw ((smscLength - 1) * 2)))
                else Ret []) (\<lambda>smsc.
          let ofs = 1 + smscLength in
          fail_if (ofs \<ge> length pdu) TPDUMissing
           (bind (index pdu ofs) (\<lambda>first.
             let p = \<lparr>pt_Message = zeroMessage\<lparr>ms_SMSC := smsc, ms_PDU := pdu, ms_PDUs := [pdu]\<rparr>,
                      pt_Reference = 0, pt_Total = 0, pt_Index = 0\<rparr>
             in if first AND 0x03 = 0 then unmarshalDeliverPDU pdu (ofs + 1) first p
                else if first AND 0x03 = 1 then unmarshalSubmitPDU pdu (ofs + 1) first p
                else if first AND 0x03 = 2 then unmarshalStatusReportPDU pdu (ofs + 1) p
                else Fail (ReservedType (first AND 0x03))))))))"

section \<open>Bits of a byte string\<close>

definition bit_at :: "bytes \<Rightarrow> nat \<Rightarrow> bool" where
  "bit_at data k = bit (data ! (k div 8)) (k mod 8)"

lemma and_push_bit_1: "((v :: byte) AND push_bit b 1 \<noteq> 0) = bit v b"
  by (simp add: push_bit_of_1 and_exp_eq_0_iff_not_bit)

lemma bit_at_update:
  assumes "j div 8 < length dst"
  shows "bit_at (dst[j div 8 := dst ! (j div 8) OR push_bit (j mod 8) 1]) k \<longleftrightarrow> bit_at dst k \<or> k = j"
proof (cases "k div 8 = j div 8")
  case True
  have "k = j \<longleftrightarrow> k mod 8 = j mod 8" using True by (metis div_mult_mod_eq)
  then show ?thesis using True assms by (auto simp: bit_at_def bit_simps)
next
  case False
  then have "k \<noteq> j" by auto
  then show ?thesis using False by (simp add: bit_at_def)
qed

lemma putBits_loop_bits:
  "(\<And>b. b \<in> set bits \<Longrightarrow> (ofs + b) div 8 < length dst) \<Longrightarrow>
   \<exists>dst'. putBits_loop ofs v bits dst = Ret dst' \<and> length dst' = length dst
     \<and> (\<forall>k. bit_at dst' k \<longleftrightarrow> bit_at dst k \<or> (\<exists>b \<in> set bits. k = ofs + b \<and> bit v b))"
proof (induction bits arbitrary: dst)
  case (Cons b bits)
  let ?j = "ofs + b"
  have j: "?j div 8 < length dst" using Cons.prems by simp
  show ?case
  proof (cases "bit v b")
    case True
    let ?d = "dst[?j div 8 := dst ! (?j div 8) OR push_bit (?j mod 8) 1]"
    have eq: "putBits_loop ofs v (b # bits) dst = putBits_loop ofs v bits ?d"
      using True j by (simp only: putBits_loop.simps and_push_bit_1 index_in bind.simps if_True)
    have upd: "bit_at ?d k \<longleftrightarrow> bit_at dst k \<or> k = ?j" for k by (rule bit_at_update [OF j])
    have "(ofs + c) div 8 < length ?d" if "c \<in> set bits" for c using Cons.prems that by simp
    from Cons.IH [OF this] show ?thesis unfolding eq upd using True by auto
  next
    case False
    then have eq: "putBits_loop ofs v (b # bits) dst = putBits_loop ofs v bits dst"
      by (simp only: putBits_loop.simps and_push_bit_1 if_False)
    have "(ofs + c) div 8 < length dst" if "c \<in> set bits" for c using Cons.prems that by simp
    from Cons.IH [OF this] show ?thesis unfolding eq using False by auto
  qed
qed simp

lemma putBits_7:
  assumes "ofs + 7 \<le> 8 * length dst"
  shows "\<exists>dst'. putBits dst ofs v 7 = Ret dst' \<and> length dst' = length dst
     \<and> (\<forall>k. bit_at dst' k \<longleftrightarrow> bit_at dst k \<or> (ofs \<le> k \<and> k < ofs + 7 \<and> bit v (k - ofs)))"
proof -
  have "(ofs + b) div 8 < length dst" if "b \<in> set [0..<7]" for b using assms that by (simp add: less_mult_imp_div_less)
  note loop = putBits_loop_bits [where bits = "[0..<7]" and v = v, OF this]
  have "(\<exists>b \<in> set [0..<7]. k = ofs + b \<and> bit v b) \<longleftrightarrow> ofs \<le> k \<and> k < ofs + 7 \<and> bit v (k - ofs)" for k
    by (auto intro!: bexI [of _ "k - ofs"])
  with loop show ?thesis by (simp add: putBits_def del: set_upt)
qed

lemma readBits_loop_bits:
  "(\<And>b. b \<in> set bits \<Longrightarrow> (ofs + b) div 8 < length src) \<Longrightarrow>
   \<exists>v'. readBits_loop src ofs bits v = Ret v' \<and> (\<forall>n. bit v' n \<longleftrightarrow> bit v n \<or> (n \<in> set bits \<and> n < 8 \<and> bit_at src (ofs + n)))"
proof (induction bits arbitrary: v)
  case (Cons b bits)
  let ?j = "ofs + b"
  have j: "?j div 8 < length src" using Cons.prems by simp
  let ?v = "if bit_at src ?j then v OR push_bit b 1 else v"
  have eq: "readBits_loop src ofs (b # bits) v = readBits_loop src ofs bits ?v"
    using j by (simp only: readBits_loop.simps index_in bind.simps and_push_bit_1 bit_at_def)
  have v: "bit ?v n \<longleftrightarrow> bit v n \<or> (n = b \<and> n < 8 \<and> bit_at src (ofs + n))" for n
    by (auto simp: bit_simps)
  have "(ofs + c) div 8 < length src" if "c \<in> set bits" for c using Cons.prems that by simp
  from Cons.IH [OF this, of ?v] show ?case unfolding eq v by auto
qed simp

lemma readBits_7:
  assumes "ofs + 7 \<le> 8 * length src" and "\<And>n. bit v n \<longleftrightarrow> n < 7 \<and> bit_at src (ofs + n)"
  shows "readBits src ofs 7 = (Ret v :: ('e, byte) outcome)"
proof -
  have "(ofs + b) div 8 < length src" if "b \<in> set [0..<7]" for b using assms(1) that by (simp add: less_mult_imp_div_less)
  from readBits_loop_bits [where bits = "[0..<7]" and v = 0, OF this] obtain w where
    w: "readBits src ofs 7 = (Ret w :: ('e, byte) outcome)" "\<forall>n. bit w n \<longleftrightarrow> n < 7 \<and> n < 8 \<and> bit_at src (ofs + n)"
    by (auto simp: readBits_def)
  have "w = v" using w(2) assms(2) by (intro bit_word_eqI) auto
  with w(1) show ?thesis by simp
qed

lemma pack_loop_bits:
  "ofs + 7 * length septets \<le> 8 * length dst \<Longrightarrow>
   \<exists>dst'. pack_loop ofs septets dst = (Ret dst' :: ('e, bytes) outcome) \<and> length dst' = length dst
     \<and> (\<forall>k. bit_at dst' k \<longleftrightarrow> bit_at dst k
          \<or> (ofs \<le> k \<and> k < ofs + 7 * length septets \<and> bit (septets ! ((k - ofs) div 7) AND 0x7F) ((k - ofs) mod 7)))"
proof (induction septets arbitrary: ofs dst)
  case (Cons s septets)
  from Cons.prems have "ofs + 7 \<le> 8 * length dst" by simp
  from putBits_7 [OF this, of "s AND 0x7F"] obtain d1
    where d1: "putBits dst ofs (s AND 0x7F) 7 = (Ret d1 :: ('e, bytes) outcome)" "length d1 = length dst"
      "\<forall>k. bit_at d1 k \<longleftrightarrow> bit_at dst k \<or> (ofs \<le> k \<and> k < ofs + 7 \<and> bit (s AND 0x7F) (k - ofs))" by blast
  from Cons.prems d1(2) have "ofs + 7 + 7 * length septets \<le> 8 * length d1" by simp
  from Cons.IH [OF this] obtain d2
    where d2: "pack_loop (ofs + 7) septets d1 = (Ret d2 :: ('e, bytes) outcome)" "length d2 = length d1"
      "\<forall>k. bit_at d2 k \<longleftrightarrow> bit_at d1 k \<or> (ofs + 7 \<le> k \<and> k < ofs + 7 + 7 * length septets
        \<and> bit (septets ! ((k - (ofs + 7)) div 7) AND 0x7F) ((k - (ofs + 7)) mod 7))" by blast
  have "bit_at d2 k \<longleftrightarrow> bit_at dst k \<or> (ofs \<le> k \<and> k < ofs + 7 * length (s # septets)
      \<and> bit ((s # septets) ! ((k - ofs) div 7) AND 0x7F) ((k - ofs) mod 7))" for k
  proof (cases "k < ofs + 7")
    case True
    then show ?thesis unfolding d2(3) [rule_format] d1(3) [rule_format] by (auto simp: not_le)
  next
    case False
    then obtain m where m: "k = ofs + 7 + m" by (metis le_add_diff_inverse not_less)
    have "(7 + m) div 7 = Suc (m div 7)" "(7 + m) mod 7 = m mod 7" by (simp_all add: div_add1_eq)
    then show ?thesis unfolding d2(3) [rule_format] d1(3) [rule_format] by (auto simp: m)
  qed
  with d1 d2 show ?case by auto
qed auto

lemma septet_bits: "(s :: byte) \<le> 0x7F \<Longrightarrow> s AND 0x7F = s"
proof -
  assume "s \<le> 0x7F"
  then have "unat s < 2 ^ 7" by (simp add: byte_le_0x7F)
  then have "take_bit 7 s = s" by (simp add: word_unat_eq_iff take_bit_nat_eq_self_iff unsigned_take_bit_eq)
  then show ?thesis by (simp add: take_bit_eq_mask mask_eq_exp_minus_1)
qed

lemma bit_septet: "(s :: byte) \<le> 0x7F \<Longrightarrow> bit s n \<Longrightarrow> n < 7"
proof -
  assume s: "s \<le> 0x7F" and b: "bit s n"
  have "bit (s AND mask 7) n" using septet_bits [OF s] b by (simp add: mask_eq_exp_minus_1)
  then show ?thesis by (simp add: bit_simps)
qed

lemma pack_unpack_lemma:
  assumes "list_all (\<lambda>s. s \<le> 0x7F) septets"
  shows "\<exists>packed. PackSeptets septets header = (Ret (packed, (length header * 8 + 6) div 7) :: ('e, bytes \<times> nat) outcome)
    \<and> length packed = ((length header * 8 + 6) div 7 * 7 + length septets * 7 + 7) div 8
    \<and> take (length header) packed = header
    \<and> UnpackSeptets packed ((length header * 8 + 6) div 7 * 7) (length septets) = (Ret septets :: ('f, bytes) outcome)"
proof -
  define start where "start = (length header * 8 + 6) div 7 * 7"
  define n where "n = (start + length septets * 7 + 7) div 8"
  define dst where "dst = header @ replicate (n - length header) (0 :: byte)"
  have start: "length header * 8 \<le> start" by (simp add: start_def)
  then have n: "start + 7 * length septets \<le> 8 * n" "length header \<le> n" by (simp_all add: n_def)
  then have dst: "length dst = n" "take n dst = dst" by (simp_all add: dst_def)
  have "start + 7 * length septets \<le> 8 * length dst" using n dst by simp
  from pack_loop_bits [OF this] obtain packed
    where p0: "pack_loop start septets dst = (Ret packed :: ('e, bytes) outcome)" and p1: "length packed = length dst" and p2:
    "\<forall>k. bit_at packed k \<longleftrightarrow> bit_at dst k
          \<or> (start \<le> k \<and> k < start + 7 * length septets \<and> bit (septets ! ((k - start) div 7) AND 0x7F) ((k - start) mod 7))"
    by blast
  note p = p0 p1 [unfolded dst(1)] p2 [rule_format]
  have low: "bit_at packed k = bit_at dst k" if "k < 8 * length header" for k using p(3) [of k] start that by auto
  have "packed ! i = header ! i" if "i < length header" for i
  proof (rule bit_word_eqI)
    fix m assume "m < LENGTH(8)"
    then have "m < 8" by simp
    then have "bit_at packed (8 * i + m) = bit_at dst (8 * i + m)" using that by (intro low) simp
    then show "bit (packed ! i) m = bit (header ! i) m" using \<open>m < 8\<close> that by (simp add: bit_at_def dst_def nth_append)
  qed
  then have head: "take (length header) packed = header" using n(2) p(2) by (intro nth_equalityI) auto
  have high: "\<not> bit_at dst k" if "start \<le> k" "k < 8 * n" for k
  proof -
    have "length header \<le> k div 8" "k div 8 < n" using start that by (auto simp: less_mult_imp_div_less)
    then show ?thesis by (simp add: bit_at_def dst_def nth_append)
  qed
  have "readBits packed (start + i * 7) 7 = (Ret (septets ! i) :: ('f, byte) outcome)" if i: "i < length septets" for i
  proof -
    have si: "septets ! i \<le> 0x7F" using assms i by (simp add: list_all_length)
    have fit: "start + i * 7 + 7 \<le> 8 * length packed" using n(1) p(2) i by simp
    have "bit (septets ! i) m \<longleftrightarrow> m < 7 \<and> bit_at packed (start + i * 7 + m)" for m
    proof (cases "m < 7")
      case True
      have "\<not> bit_at dst (start + i * 7 + m)" using fit p(2) True by (intro high) auto
      moreover have "(i * 7 + m) div 7 = i" "(i * 7 + m) mod 7 = m" using True by simp_all
      ultimately show ?thesis using p(3) [of "start + i * 7 + m"] True i septet_bits [OF si] by (simp add: add.assoc)
    qed (use bit_septet [OF si] in auto)
    with fit show ?thesis by (rule readBits_7)
  qed
  then have "UnpackSeptets packed start (length septets) = (Ret septets :: ('f, bytes) outcome)"
    by (simp add: UnpackSeptets_def traverse_eq_Ret_iff)
  moreover have "PackSeptets septets header = (Ret (packed, (length header * 8 + 6) div 7) :: ('e, bytes \<times> nat) outcome)"
    unfolding PackSeptets_def Let_def start_def [symmetric] n_def [symmetric] dst_def [symmetric] dst(2) p(1) by simp
  ultimately show ?thesis using head p(2) by (auto simp: start_def n_def)
qed

text \<open>Septet packing: for any header and any septets, packing behind the header and unpacking
  from the next septet boundary gives the septets back; the header octets stay in front unchanged,
  the packed string has the length the standard prescribes, and unpacking within the data
  never panics.\<close>

theorem pack_unpack:
  assumes "list_all (\<lambda>s. s \<le> 0x7F) septets"
  shows "\<exists>packed. PackSeptets septets header = (Ret (packed, (length header * 8 + 6) div 7) :: ('e, bytes \<times> nat) outcome)
    \<and> length packed = ((length header * 8 + 6) div 7 * 7 + length septets * 7 + 7) div 8
    \<and> take (length header) packed = header
    \<and> UnpackSeptets packed ((length header * 8 + 6) div 7 * 7) (length septets) = (Ret septets :: ('f, bytes) outcome)"
  using assms by (rule pack_unpack_lemma)

theorem pack_unpack_witness:
  "\<exists>packed. PackSeptets [0x48, 0x69, 0x21] [5, 0, 3, 1, 2, 1] = (Ret (packed, 7) :: (unit, bytes \<times> nat) outcome)
     \<and> UnpackSeptets packed 49 (length [0x48, 0x69, 0x21 :: byte]) = (Ret [0x48, 0x69, 0x21] :: (unit, bytes) outcome)"
  using pack_unpack [of "[0x48, 0x69, 0x21]" "[5, 0, 3, 1, 2, 1]"] by auto

section \<open>Semi-octet addresses\<close>

lemma bcdNibble_small: "bcdNibble v AND mask 4 = bcdNibble v"
proof (rule and_mask_small)
  show "unat (bcdNibble v) < 2 ^ 4"
  proof (cases "0x30 \<le> v \<and> v \<le> 0x39")
    case True
    then have "unat (v - 0x30) \<le> 9" by (simp add: unat_sub word_le_nat_alt) linarith
    with True show ?thesis by (simp add: bcdNibble_def)
  qed (auto simp: bcdNibble_def)
qed

definition digit :: "byte \<Rightarrow> bool" where
  "digit v = (0x30 \<le> v \<and> v \<le> 0x39)"

lemma bcdNibble_digit: "digit v \<Longrightarrow> bcdNibble v \<le> 9 \<and> 0x30 + bcdNibble v = v"
  by (auto simp: digit_def bcdNibble_def unat_sub word_le_nat_alt)

definition nibble_at :: "bytes \<Rightarrow> nat \<Rightarrow> byte" where
  "nibble_at data i = drop_bit (4 * (i mod 2)) (data ! (i div 2)) AND 0x0F"

lemma nibble_at_Cons: "nibble_at (x # xs) (Suc (Suc i)) = nibble_at xs i"
  by (simp add: nibble_at_def)

lemma nibble_at_encode:
  "i < 2 * length (encodeBCDDigits ds) \<Longrightarrow>
     nibble_at (encodeBCDDigits ds) i = (if i < length ds then bcdNibble (ds ! i) else 0x0F)"
proof (induction ds arbitrary: i rule: encodeBCDDigits.induct)
  case (2 d)
  have f: "(0x0F :: byte) AND mask 4 = 0x0F" by (simp add: mask_eq_exp_minus_1)
  from 2 consider "i = 0" | "i = 1" by fastforce
  then show ?case using nibble_pair [OF bcdNibble_small [of d] f] by cases (simp_all add: nibble_at_def)
next
  case (3 d e ds)
  note p = nibble_pair [OF bcdNibble_small [of d] bcdNibble_small [of e]]
  consider "i = 0" | "i = 1" | j where "i = Suc (Suc j)" by (metis One_nat_def not0_implies_Suc)
  then show ?case
  proof cases
    case (3 j)
    then show ?thesis using "3.IH" [of j] "3.prems" by (simp add: nibble_at_Cons)
  qed (use p in \<open>simp_all add: nibble_at_def\<close>)
qed simp

lemma length_encodeBCDDigits: "length (encodeBCDDigits ds) = (length ds + 1) div 2"
  by (induction ds rule: encodeBCDDigits.induct) auto

lemma decodeBCDAddress_eq:
  assumes "n \<le> 2 * length data"
  shows "decodeBCDAddress toa data n =
    Ret ((if toa AND 0x70 = 0x10 then [0x2B] else [])
      @ concat (map (\<lambda>i. if nibble_at data i \<le> 9 then [0x30 + nibble_at data i] else []) [0..<n]))"
  unfolding decodeBCDAddress_def
  by (subst traverse_Ret_map [where g = "\<lambda>i. if nibble_at data i \<le> 9 then [0x30 + nibble_at data i] else []"])
    (use assms in \<open>auto simp: index_def Let_def nibble_at_def\<close>)

lemma decode_encode_BCD:
  assumes "list_all digit ds" "length ds \<le> n" "n \<le> 2 * length (encodeBCDDigits ds)"
  shows "decodeBCDAddress toa (encodeBCDDigits ds) n = Ret ((if toa AND 0x70 = 0x10 then [0x2B] else []) @ ds)"
proof -
  let ?f = "\<lambda>i. if nibble_at (encodeBCDDigits ds) i \<le> 9 then [0x30 + nibble_at (encodeBCDDigits ds) i] else []"
  have lo: "?f i = [ds ! i]" if "i < length ds" for i
    using that assms nibble_at_encode [of i ds] bcdNibble_digit [of "ds ! i"] by (auto simp: list_all_length)
  have hi: "?f i = []" if "length ds \<le> i" "i < n" for i
    using that assms nibble_at_encode [of i ds] by simp
  have "[0..<n] = [0..<length ds] @ [length ds..<n]" using assms(2) by (metis le0 upt_add_eq_append le_add_diff_inverse)
  then have "concat (map ?f [0..<n]) = concat (map ?f [0..<length ds]) @ concat (map ?f [length ds..<n])" by simp
  also have "map ?f [0..<length ds] = map (\<lambda>i. [ds ! i]) [0..<length ds]" using lo by auto
  also have "map ?f [length ds..<n] = map (\<lambda>i. []) [length ds..<n]" using hi by auto
  also have "concat (map (\<lambda>i. [ds ! i]) [0..<length ds]) @ concat (map (\<lambda>i. []) [length ds..<n]) = ds"
    by (simp add: concat_map_singleton map_nth)
  finally show ?thesis unfolding decodeBCDAddress_eq [OF assms(3)] by simp
qed

end
