(* ===== verification/Sms_Roundtrip.thy ===== *)
theory Sms_Roundtrip
  imports Sms_Pdu
begin

text \<open>
  The SMS PDU codec of \<^verbatim>\<open>modem/sms/pdu.go\<close> as a whole: the decoder never panics, and what the SUBMIT
  encoder builds the decoder reads back, part by part.
\<close>

section \<open>The decoder never panics\<close>

lemma UnpackSeptets_no_panic:
  assumes "startBit + count * 7 \<le> 8 * length data"
  shows "UnpackSeptets data startBit count \<noteq> (Panic :: ('a, bytes) outcome)"
  unfolding UnpackSeptets_def
proof (rule traverse_no_panic)
  fix i assume "i \<in> set [0..<count]"
  then have "(startBit + i * 7 + b) div 8 < length data" if "b \<in> set [0..<7]" for b using assms that by auto
  then have "\<exists>v'. readBits_loop data (startBit + i * 7) [0..<7] 0 = (Ret v' :: ('a, byte) outcome)"
    using readBits_loop_bits [where bits = "[0..<7]" and v = 0 and ofs = "startBit + i * 7" and src = data] by blast
  then show "readBits data (startBit + i * 7) 7 \<noteq> (Panic :: ('a, byte) outcome)" by (auto simp: readBits_def)
qed

lemma decodeBCDAddress_no_panic: "n \<le> 2 * length data \<Longrightarrow> decodeBCDAddress toa data n \<noteq> Panic"
  by (simp add: decodeBCDAddress_eq)

lemma gsm7_Unmarshal_no_panic: "gsm7_UnmarshalBinary septets \<noteq> Panic"
proof -
  have "gsm7_loop escaped septets \<noteq> Panic" for escaped
    by (induction escaped septets rule: gsm7_loop.induct) (auto simp: bind_eq_Panic_iff Let_def)
  then show ?thesis by (simp add: gsm7_UnmarshalBinary_def)
qed

lemma checkSurrogates_no_panic: "checkSurrogates us \<noteq> Panic"
  by (induction us rule: checkSurrogates.induct) (auto split: list.splits)

lemma unmarshalUTF16_no_panic: "unmarshalUTF16 order data \<noteq> Panic"
  by (auto simp: unmarshalUTF16_def bind_eq_Panic_iff checkSurrogates_no_panic)

lemma timestamp_no_panic: "timestamp_UnmarshalBinary v \<noteq> Panic"
  by (auto simp: timestamp_UnmarshalBinary_def Let_def split: list.splits)

lemma readAddress_no_panic: "readAddress pdu ofs \<noteq> Panic"
proof -
  have "(n + 1) div 2 * 8 \<ge> n * 4 div 7 * 7" for n :: nat by linarith
  then show ?thesis
    by (auto simp: readAddress_def bind_eq_Panic_iff Let_def index_def subslice_def gsm7_Unmarshal_no_panic
        intro!: UnpackSeptets_no_panic decodeBCDAddress_no_panic)
qed

lemma readAddress_bound: "readAddress pdu ofs = Ret (number, ofs') \<Longrightarrow> ofs + 2 \<le> ofs' \<and> ofs' \<le> length pdu"
  by (auto simp: readAddress_def Let_def split: if_splits)

lemma udh_loop_no_panic: "headerLength \<le> length data \<Longrightarrow> udh_loop data headerLength ofs info \<noteq> Panic"
proof (induction "headerLength - ofs" arbitrary: ofs info rule: less_induct)
  case less
  have step: "udh_loop data headerLength (ofs + 2 + n) i \<noteq> Panic" if "ofs < headerLength" for n i
    using that less.prems by (intro less.hyps) auto
  show ?case
    by (subst udh_loop.simps) (use less.prems in \<open>auto simp: bind_eq_Panic_iff index_def subslice_def step simp del: add_2_eq_Suc'\<close>)
qed

lemma unmarshalUserDataHeader_no_panic: "unmarshalUserDataHeader data info \<noteq> Panic"
  by (auto simp: unmarshalUserDataHeader_def bind_eq_Panic_iff Let_def index_def split: prod.splits
      dest: udh_loop_no_panic [THEN notE, rotated])

lemma user_header_bound: "user_header h data info = Ret (n, info') \<Longrightarrow> n \<le> length data"
  by (auto simp: user_header_def unmarshalUserDataHeader_def Let_def split: if_splits prod.splits)

lemma user_header_no_panic: "user_header h data info \<noteq> Panic"
  by (simp add: user_header_def unmarshalUserDataHeader_no_panic)

lemma UnpackSeptets_window:
  assumes "(len * 7 + 7) div 8 \<le> length data" "s \<le> len"
  shows "UnpackSeptets data (s * 7) (len - s) \<noteq> Panic"
proof (rule UnpackSeptets_no_panic)
  have "s * 7 + (len - s) * 7 = len * 7" using assms(2) by (simp add: add_mult_distrib [symmetric])
  also have "len * 7 \<le> 8 * ((len * 7 + 7) div 8)" by linarith
  finally show "s * 7 + (len - s) * 7 \<le> 8 * length data" using assms(1) by linarith
qed

lemma unmarshalUserData_no_panic: "unmarshalUserData pdu ofs h dcs p \<noteq> Panic"
proof -
  have unpack: "UnpackSeptets (take ((len * 7 + 7) div 8) (drop (Suc ofs) pdu)) (s * 7) (len - s) \<noteq> Panic"
    if "\<not> length pdu - Suc ofs < (len * 7 + 7) div 8" "\<not> len < s" for len s
    by (rule UnpackSeptets_window) (use that in auto)
  show ?thesis
    unfolding unmarshalUserData_def Let_def
    by (auto simp: bind_eq_Panic_iff index_def subslice_eq_Ret_iff subslice_eq_Panic_iff user_header_no_panic
        gsm7_Unmarshal_no_panic unmarshalUTF16_no_panic dest: user_header_bound unpack [THEN notE] unpack [of _ 0, THEN notE, simplified]
        split: prod.splits)
qed

lemma unmarshalDeliverPDU_no_panic: "unmarshalDeliverPDU pdu ofs first p \<noteq> Panic"
  unfolding unmarshalDeliverPDU_def
  by (auto simp: bind_eq_Panic_iff readAddress_no_panic index_def subslice_eq_Panic_iff timestamp_no_panic
      unmarshalUserData_no_panic split: prod.splits dest: readAddress_bound)

lemma unmarshalSubmitPDU_no_panic: "unmarshalSubmitPDU pdu ofs first p \<noteq> Panic"
  unfolding unmarshalSubmitPDU_def
  by (auto simp: bind_eq_Panic_iff readAddress_no_panic index_def Let_def
      unmarshalUserData_no_panic split: prod.splits dest: readAddress_bound)

lemma unmarshalStatusReportPDU_no_panic: "unmarshalStatusReportPDU pdu ofs p \<noteq> Panic"
  unfolding unmarshalStatusReportPDU_def
  by (auto simp: bind_eq_Panic_iff readAddress_no_panic index_def subslice_eq_Panic_iff timestamp_no_panic
      split: prod.splits dest: readAddress_bound)

text \<open>The well-formedness of a part: it is the whole message, or its index is one of \<open>1..Total\<close>.\<close>

definition wf_part :: "Part \<Rightarrow> bool" where
  "wf_part p = (pt_Total p = 0 \<or> pt_Index p \<noteq> 0 \<and> pt_Index p \<le> pt_Total p)"

lemma user_header_range:
  "user_header h data info = Ret (n, (ref, tot, idx)) \<Longrightarrow> h \<or> fst (snd info) = 0 \<Longrightarrow> tot = 0 \<or> idx \<noteq> 0 \<and> idx \<le> tot"
  by (auto simp: user_header_def unmarshalUserDataHeader_def Let_def not_less split: if_splits prod.splits)

lemma unmarshalUserData_cases:
  assumes "unmarshalUserData pdu ofs h dcs p = Ret q"
  obtains data n info p' where "user_header h data (concat_info_of p) = Ret (n, info)" "q = set_concat info p'"
    "ms_PDU (pt_Message p') = ms_PDU (pt_Message p)"
  using assms by (auto simp: unmarshalUserData_def Let_def split: if_splits)

lemma unmarshalUserData_wf:
  assumes "unmarshalUserData pdu ofs h dcs p = Ret q" "pt_Total p = 0"
  shows "wf_part q \<and> ms_PDU (pt_Message q) = ms_PDU (pt_Message p)"
  using assms(1)
proof (cases rule: unmarshalUserData_cases)
  case (1 data n info p')
  obtain ref tot idx where info: "info = (ref, tot, idx)" by (cases info) auto
  from user_header_range [OF 1(1) [unfolded info]] assms(2) have "tot = 0 \<or> idx \<noteq> 0 \<and> idx \<le> tot"
    by (simp add: concat_info_of_def)
  with 1(2,3) info show ?thesis by (simp add: set_concat_def wf_part_def)
qed

lemma part_PDU_wf:
  assumes "pt_Total p = 0"
  shows "unmarshalDeliverPDU pdu ofs first p = Ret q \<Longrightarrow> wf_part q \<and> ms_PDU (pt_Message q) = ms_PDU (pt_Message p)"
    and "unmarshalSubmitPDU pdu ofs first p = Ret q \<Longrightarrow> wf_part q \<and> ms_PDU (pt_Message q) = ms_PDU (pt_Message p)"
    and "unmarshalStatusReportPDU pdu ofs p = Ret q \<Longrightarrow> wf_part q \<and> ms_PDU (pt_Message q) = ms_PDU (pt_Message p)"
  using assms
  by (auto simp: unmarshalDeliverPDU_def unmarshalSubmitPDU_def unmarshalStatusReportPDU_def Let_def wf_part_def [of p]
      split: prod.splits dest!: unmarshalUserData_wf) (auto simp: wf_part_def)

text \<open>C7: the SMS decoder on any input: no byte string, however short or malformed, makes it panic;
  what it accepts is a well-formed part, either a whole message or a part whose index lies in
  \<open>1..Total\<close>, and carries the bytes it was decoded from.\<close>

theorem sms_decoder_safe:
  "(case part_UnmarshalBinary pdu of
      Panic \<Rightarrow> False
    | Fail e \<Rightarrow> True
    | Ret p \<Rightarrow> wf_part p \<and> ms_PDU (pt_Message p) = pdu)"
proof -
  have "part_UnmarshalBinary pdu \<noteq> Panic"
    unfolding part_UnmarshalBinary_def Let_def
    by (auto simp: bind_eq_Panic_iff index_def subslice_eq_Ret_iff subslice_eq_Panic_iff unmarshalDeliverPDU_no_panic
        unmarshalSubmitPDU_no_panic unmarshalStatusReportPDU_no_panic decodeBCDAddress_no_panic)
  moreover have "wf_part p \<and> ms_PDU (pt_Message p) = pdu" if "part_UnmarshalBinary pdu = Ret p" for p
    using that by (auto simp: part_UnmarshalBinary_def Let_def zeroMessage_def split: if_splits dest!: part_PDU_wf [rotated])
  ultimately show ?thesis by (cases "part_UnmarshalBinary pdu") auto
qed

section \<open>What the SUBMIT encoder writes the decoder reads\<close>

text \<open>A phone number: decimal digits, with a plus sign in front when it is international.\<close>

definition phone :: "bytes \<Rightarrow> bool" where
  "phone number = list_all digit (fst (normalizeNumber number))"

lemma phone_cases:
  assumes "phone number"
  obtains ds where "number = 0x2B # ds" "list_all digit ds" "normalizeNumber number = (ds, True)"
  | "list_all digit number" "normalizeNumber number = (number, False)"
  using assms by (cases number) (auto simp: phone_def normalizeNumber_def split: if_splits)

lemma toa_bits: "typeOfAddress b AND 0x70 = (if b then 0x10 else 0)"
  by (simp add: typeOfAddress_def)

lemma decode_number:
  assumes "phone number" "normalizeNumber number = (ds, b)" "length ds \<le> n" "n \<le> 2 * length (encodeBCDDigits ds)"
  shows "decodeBCDAddress (typeOfAddress b) (encodeBCDDigits ds) n = Ret number"
  using assms(1)
proof (cases rule: phone_cases)
  case (1 es)
  with assms show ?thesis by (simp add: decode_encode_BCD toa_bits)
next
  case 2
  with assms show ?thesis by (simp add: decode_encode_BCD toa_bits)
qed

lemma length_normalizeNumber: "normalizeNumber number = (ds, b) \<Longrightarrow> length ds \<le> length number"
  by (cases number) (auto simp: normalizeNumber_def split: if_splits)

lemma readAddress_append:
  assumes "phone number" "length number \<le> 255"
  shows "readAddress (appendAddress pre number @ rest) (length pre) = Ret (number, length (appendAddress pre number))"
proof -
  obtain ds b where n: "normalizeNumber number = (ds, b)" by (cases "normalizeNumber number") auto
  have len: "unat (of_nat (length ds) :: byte) = length ds"
    using assms(2) length_normalizeNumber [OF n] by (intro unat_of_nat_byte) simp
  have "decodeBCDAddress (typeOfAddress b) (encodeBCDDigits ds) (length ds) = (Ret number :: (sms_error, bytes) outcome)"
    by (rule decode_number [OF assms(1) n]) (auto simp: length_encodeBCDDigits)
  moreover have "subslice (pre @ of_nat (length ds) # typeOfAddress b # encodeBCDDigits ds @ rest) (length pre + 2)
      (length pre + 2 + (length ds + 1) div 2) = (Ret (encodeBCDDigits ds) :: (sms_error, bytes) outcome)"
    by (simp add: subslice_eq_Ret_iff length_encodeBCDDigits)
  ultimately show ?thesis using len n
    by (auto simp: readAddress_def appendAddress_def index_def nth_append Let_def toa_bits length_encodeBCDDigits fail_if_def)
qed

definition submit_part :: "MessageConfig \<Rightarrow> bytes \<Rightarrow> Part" where
  "submit_part cfg pdu =
     \<lparr>pt_Message = zeroMessage\<lparr>ms_SMSC := mc_SMSC cfg, ms_PDU := pdu, ms_PDUs := [pdu], ms_Number := mc_Number cfg,
        ms_DeliveryReport := mc_DeliveryReport cfg\<rparr>, pt_Reference = 0, pt_Total = 0, pt_Index = 0\<rparr>"

definition first_octet :: "bool \<Rightarrow> bool \<Rightarrow> byte" where
  "first_octet report header = 0x01 OR (if report then 0x20 else 0) OR (if header then 0x40 else 0)"

lemma first_octet_bits:
  "first_octet r h AND 0x03 = 1" "(first_octet r h AND 0x40 \<noteq> 0) = h" "(first_octet r h AND 0x20 \<noteq> 0) = r"
  "validity_octets (first_octet r h) = 0"
  by (auto simp: first_octet_def validity_octets_def Let_def)

definition submit_prefix :: "MessageConfig \<Rightarrow> bool \<Rightarrow> byte \<Rightarrow> bytes" where
  "submit_prefix cfg header dcs =
     appendAddress (encodeSMSC (mc_SMSC cfg) @ [first_octet (mc_DeliveryReport cfg) header, 0]) (mc_Number cfg) @ [0, dcs]"

lemma appendAddress_append: "appendAddress dst number = dst @ appendAddress [] number"
  by (simp add: appendAddress_def split: prod.split)

lemma submit_at_tpdu:
  assumes "phone (mc_Number cfg)" "length (mc_Number cfg) \<le> 255"
    and "length pre = ofs" and "pdu = appendAddress (pre @ [first_octet (mc_DeliveryReport cfg) h, 0]) (mc_Number cfg) @ [0, dcs] @ rest"
  shows "unmarshalSubmitPDU pdu (ofs + 1) (first_octet (mc_DeliveryReport cfg) h) p =
    unmarshalUserData pdu (length pdu - length rest) h dcs
      (p\<lparr>pt_Message := (pt_Message p)\<lparr>ms_MessageReference := 0, ms_Number := mc_Number cfg, ms_DeliveryReport := mc_DeliveryReport cfg\<rparr>\<rparr>)"
proof -
  define addr where "addr = appendAddress (pre @ [first_octet (mc_DeliveryReport cfg) h, 0]) (mc_Number cfg)"
  have pdu: "pdu = addr @ [0, dcs] @ rest" using assms(4) by (simp add: addr_def)
  have addr: "addr = pre @ [first_octet (mc_DeliveryReport cfg) h, 0] @ appendAddress [] (mc_Number cfg)"
    using appendAddress_append [of "pre @ [first_octet (mc_DeliveryReport cfg) h, 0]"] by (simp add: addr_def)
  have read: "readAddress pdu (ofs + 2) = Ret (mc_Number cfg, length addr)"
    using readAddress_append [OF assms(1,2), of "pre @ [first_octet (mc_DeliveryReport cfg) h, 0]" "[0, dcs] @ rest"] assms(3)
    by (simp add: addr_def [symmetric] pdu)
  have "index pdu (ofs + 1) = (Ret 0 :: (sms_error, byte) outcome)" "ofs + 1 < length pdu" using assms(3) by (simp_all add: pdu addr index_def nth_append)
  moreover have "index pdu (length addr + 1) = (Ret dcs :: (sms_error, byte) outcome)" by (simp add: pdu index_def nth_append)
  ultimately show ?thesis using read
    by (simp add: unmarshalSubmitPDU_def first_octet_bits fail_if_def Let_def) (simp add: pdu)
qed

lemma part_of_submit:
  assumes "phone (mc_Number cfg)" "length (mc_Number cfg) \<le> 255" "phone (mc_SMSC cfg)" "length (mc_SMSC cfg) \<le> 255"
  shows "part_UnmarshalBinary (submit_prefix cfg h dcs @ rest) =
    unmarshalUserData (submit_prefix cfg h dcs @ rest) (length (submit_prefix cfg h dcs)) h dcs
      (submit_part cfg (submit_prefix cfg h dcs @ rest))"
proof -
  define pdu where "pdu = submit_prefix cfg h dcs @ rest"
  define first where "first = first_octet (mc_DeliveryReport cfg) h"
  define smsc where "smsc = encodeSMSC (mc_SMSC cfg)"
  have tail: "pdu = smsc @ first # 0 # appendAddress [] (mc_Number cfg) @ [0, dcs] @ rest"
    using appendAddress_append [of "smsc @ [first, 0]" "mc_Number cfg"]
    by (simp add: pdu_def submit_prefix_def smsc_def [symmetric] first_def [symmetric])
  obtain ds b where n: "normalizeNumber (mc_SMSC cfg) = (ds, b)" by (cases "normalizeNumber (mc_SMSC cfg)") auto
  have ds: "length ds \<le> 255" using length_normalizeNumber [OF n] assms(4) by simp
  have "\<exists>m. smsc = of_nat (length m) # m \<and> length m \<le> 255 \<and>
      (if length m > 0 then decodeBCDAddress (m ! 0) (drop 1 m) ((length m - 1) * 2) else Ret [])
       = (Ret (mc_SMSC cfg) :: (sms_error, bytes) outcome)"
  proof (cases "mc_SMSC cfg = []")
    case False
    let ?m = "typeOfAddress b # encodeBCDDigits ds"
    have "decodeBCDAddress (typeOfAddress b) (encodeBCDDigits ds) ((length ?m - 1) * 2) = (Ret (mc_SMSC cfg) :: (sms_error, bytes) outcome)"
      by (rule decode_number [OF assms(3) n]) (auto simp: length_encodeBCDDigits)
    then show ?thesis using False n ds
      by (intro exI [of _ ?m]) (simp add: smsc_def encodeSMSC_def Let_def length_encodeBCDDigits)
  qed (simp add: smsc_def encodeSMSC_def)
  then obtain m where m: "smsc = of_nat (length m) # m" "length m \<le> 255"
    "(if length m > 0 then decodeBCDAddress (m ! 0) (drop 1 m) ((length m - 1) * 2) else Ret [])
       = (Ret (mc_SMSC cfg) :: (sms_error, bytes) outcome)" by blast
  have len: "unat (of_nat (length m) :: byte) = length m" using m(2) by (intro unat_of_nat_byte) simp
  have dec: "(if length m > 0 then bind (index pdu 1) (\<lambda>toa. bind (subslice pdu 2 (1 + length m)) (\<lambda>raw.
                       decodeBCDAddress toa raw ((length m - 1) * 2))) else Ret []) = (Ret (mc_SMSC cfg) :: (sms_error, bytes) outcome)"
    using m(3) by (cases m) (simp_all add: tail m(1) index_def subslice_def fail_if_def)
  have sub: "unmarshalSubmitPDU pdu (length smsc + 1) first p =
    unmarshalUserData pdu (length pdu - length rest) h dcs
      (p\<lparr>pt_Message := (pt_Message p)\<lparr>ms_MessageReference := 0, ms_Number := mc_Number cfg, ms_DeliveryReport := mc_DeliveryReport cfg\<rparr>\<rparr>)" for p
    unfolding first_def by (rule submit_at_tpdu [OF assms(1,2) refl]) (simp add: pdu_def submit_prefix_def smsc_def)
  have idx: "index pdu 0 = Ret (of_nat (length m))" "index pdu (1 + length m) = Ret first" "length pdu \<ge> 3 + length m"
      "\<not> length pdu - 1 < length m"
    by (simp_all add: tail m(1) index_def)
  have "part_UnmarshalBinary pdu = unmarshalSubmitPDU pdu (length smsc + 1) first
     \<lparr>pt_Message = zeroMessage\<lparr>ms_SMSC := mc_SMSC cfg, ms_PDU := pdu, ms_PDUs := [pdu]\<rparr>, pt_Reference = 0, pt_Total = 0, pt_Index = 0\<rparr>"
    unfolding part_UnmarshalBinary_def Let_def idx(1) bind.simps len dec idx(2)
    using idx(3,4) by (simp add: fail_if_def first_octet_bits first_def m(1))
  then show ?thesis unfolding sub by (simp add: pdu_def submit_part_def zeroMessage_def)
qed

text \<open>The user data header of a part, and what the decoder reads from it.\<close>

definition header_reads :: "bytes \<Rightarrow> concat_info \<Rightarrow> bool" where
  "header_reads header info \<longleftrightarrow> (\<forall>d. user_header (header \<noteq> []) (header @ d) (0, 0, 0) = Ret (length header, info))"

lemma header_reads_none: "header_reads [] (0, 0, 0)"
  by (simp add: header_reads_def user_header_def)

lemma header_reads_concat:
  assumes "n \<le> 255" "i < n"
  shows "header_reads (concat_header ref n i) (ucast ref, of_nat n, of_nat (i + 1))"
proof -
  have u: "unat (of_nat n :: byte) = n" "unat (of_nat (i + 1) :: byte) = i + 1" using assms unat_of_nat_byte [of n] unat_of_nat_byte [of "i + 1"] by simp_all
  have bad: "\<not> ((of_nat (i + 1) :: byte) = 0 \<or> of_nat (i + 1) > (of_nat n :: byte))"
    using assms u by (metis Suc_eq_plus1 Suc_leI linorder_not_less unat_0 word_less_nat_alt zero_less_Suc less_numeral_extra(3))
  have "udh_loop (concat_header ref n i @ d) 6 1 info = Ret (ucast ref, of_nat n, of_nat (i + 1))" for d info
    by (subst udh_loop.simps, subst udh_loop.simps) (simp add: concat_header_def index_def subslice_def fail_if_def)
  then show ?thesis using bad
    by (simp add: header_reads_def user_header_def unmarshalUserDataHeader_def concat_header_def index_def fail_if_def Let_def)
qed

lemma userData_octets:
  assumes "header_reads header info" "length (header @ data) \<le> 255" "concat_info_of p = (0, 0, 0)" "alphabetFromDCS dcs = a" "a \<noteq> smsAlphabetGSM7"
  shows "unmarshalUserData (pre @ of_nat (length (header @ data)) # header @ data) (length pre) (header \<noteq> []) dcs p =
    (if a = smsAlphabetBinary then Ret (set_concat info (p\<lparr>pt_Message := (pt_Message p)\<lparr>ms_Data := data\<rparr>\<rparr>))
     else fail_if (length data mod 2 \<noteq> 0) UCS2OddLength
           (bind (map_err TextError (unmarshalUTF16 BigEndian data)) (\<lambda>text.
              Ret (set_concat info (p\<lparr>pt_Message := (pt_Message p)\<lparr>ms_Text := text\<rparr>\<rparr>)))))"
proof -
  define ud where "ud = header @ data"
  have u: "unat (of_nat (length ud) :: byte) = length ud" using assms(2) by (intro unat_of_nat_byte) (simp add: ud_def)
  have h: "user_header (header \<noteq> []) ud (0, 0, 0) = Ret (length header, info)" using assms(1) by (simp add: header_reads_def ud_def)
  have s: "subslice ud (length header) (length ud) = (Ret data :: (sms_error, bytes) outcome)" by (simp add: subslice_def ud_def)
  show ?thesis unfolding unmarshalUserData_def Let_def ud_def [symmetric]
    using assms(4,5) by (simp add: index_def subslice_in u h s assms(3) fail_if_def)
qed

lemma userData_septets:
  assumes "header_reads header info" "concat_info_of p = (0, 0, 0)" "alphabetFromDCS dcs = smsAlphabetGSM7"
    and "PackSeptets septets header = (Ret (packed, hs) :: ('e, bytes \<times> nat) outcome)" "list_all (\<lambda>s. s \<le> 0x7F) septets"
    and "hs + length septets \<le> 255" "gsm7_UnmarshalBinary septets = Ret text"
  shows "unmarshalUserData (pre @ of_nat (hs + length septets) # packed) (length pre) (header \<noteq> []) dcs p =
    Ret (set_concat info (p\<lparr>pt_Message := (pt_Message p)\<lparr>ms_Text := text\<rparr>\<rparr>))"
proof -
  have hs: "hs = (length header * 8 + 6) div 7" and len: "length packed = ((hs + length septets) * 7 + 7) div 8"
    and tk: "take (length header) packed = header"
    and un: "UnpackSeptets packed (hs * 7) (length septets) = (Ret septets :: (sms_error, bytes) outcome)"
    using pack_unpack_lemma [where 'e = 'e and 'f = sms_error, OF assms(5), of header] assms(4) by (auto simp: algebra_simps)
  define L where "L = hs + length septets"
  have u: "unat (of_nat L :: byte) = L" using assms(6) by (intro unat_of_nat_byte) (simp add: L_def)
  have L: "length packed = (L * 7 + 7) div 8" "L - hs = length septets" "\<not> L < hs" using len by (simp_all add: L_def)
  have h: "user_header (header \<noteq> []) packed (0, 0, 0) = Ret (length header, info)"
    using assms(1) append_take_drop_id [of "length header" packed] unfolding tk header_reads_def by metis
  have hs': "(if header \<noteq> [] then (length header * 8 + 6) div 7 else 0) = hs" using hs by auto
  show ?thesis unfolding unmarshalUserData_def Let_def L_def [symmetric]
    by (simp add: index_def subslice_in u h assms(2,3,7) fail_if_def hs' un L(2,3) L(1) [symmetric]
        del: bind_eq_Ret_iff split del: if_split)
qed

text \<open>What the user data of a PDU stands for in each alphabet, and when it fits the length octet.\<close>

definition represents :: "smsAlphabet \<Rightarrow> bytes \<Rightarrow> rune list \<Rightarrow> bytes \<Rightarrow> bool" where
  "represents alphabet payload txt dat =
     (case alphabet of
        smsAlphabetGSM7 \<Rightarrow> gsm7_MarshalBinary txt = Ret payload \<and> dat = []
      | smsAlphabetUCS2 \<Rightarrow> marshalUTF16 BigEndian txt = Ret payload \<and> dat = []
      | smsAlphabetBinary \<Rightarrow> dat = payload \<and> txt = [])"

definition fits :: "smsAlphabet \<Rightarrow> bytes \<Rightarrow> bytes \<Rightarrow> bool" where
  "fits alphabet header payload =
     (if alphabet = smsAlphabetGSM7 then (length header * 8 + 6) div 7 + length payload \<le> 255
      else length header + length payload \<le> 255)"

definition addresses_ok :: "MessageConfig \<Rightarrow> bool" where
  "addresses_ok cfg =
     (phone (mc_Number cfg) \<and> length (mc_Number cfg) \<le> 255 \<and> phone (mc_SMSC cfg) \<and> length (mc_SMSC cfg) \<le> 255)"

definition submitted :: "MessageConfig \<Rightarrow> concat_info \<Rightarrow> rune list \<Rightarrow> bytes \<Rightarrow> bytes \<Rightarrow> Part" where
  "submitted cfg info txt dat pdu =
     set_concat info ((submit_part cfg pdu)\<lparr>pt_Message := (pt_Message (submit_part cfg pdu))\<lparr>ms_Text := txt, ms_Data := dat\<rparr>\<rparr>)"

lemma alphabetFromDCS_dcs_of: "alphabetFromDCS (dcs_of a) = a"
  by (cases a) (simp_all add: dcs_of_def alphabetFromDCS_def)

lemma submit_part_info: "concat_info_of (submit_part cfg pdu) = (0, 0, 0)"
  by (simp add: concat_info_of_def submit_part_def)

lemma buildSubmitPDU_prefix:
  "buildSubmitPDU cfg a data header =
     (if a = smsAlphabetGSM7
      then bind (PackSeptets data header) (\<lambda>(packed, hs). Ret (submit_prefix cfg (header \<noteq> []) (dcs_of a) @ of_nat (hs + length data) # packed))
      else Ret (submit_prefix cfg (header \<noteq> []) (dcs_of a) @ of_nat (length (header @ data)) # header @ data))"
  by (simp add: buildSubmitPDU_def submit_prefix_def first_octet_def Let_def)

lemma submit_roundtrip:
  assumes "addresses_ok cfg" "header_reads header info" "represents a payload txt dat" "fits a header payload"
  shows "\<exists>pdu. buildSubmitPDU cfg a payload header = (Ret pdu :: ('e, bytes) outcome)
    \<and> part_UnmarshalBinary pdu = Ret (submitted cfg info txt dat pdu)"
proof (cases "a = smsAlphabetGSM7")
  case True
  let ?pre = "submit_prefix cfg (header \<noteq> []) (dcs_of a)" and ?hs = "(length header * 8 + 6) div 7"
  from assms(3) True have m: "gsm7_MarshalBinary txt = Ret payload" "dat = []" by (simp_all add: represents_def)
  then have g: "gsm7_UnmarshalBinary payload = Ret txt" "list_all (\<lambda>s. s \<le> 0x7F) payload"
    using gsm7_Marshal_Unmarshal by (auto simp: gsm7_UnmarshalBinary_def)
  obtain packed where p: "PackSeptets payload header = (Ret (packed, ?hs) :: ('e, bytes \<times> nat) outcome)"
    using pack_unpack_lemma [where 'e = 'e, OF g(2), of header] by blast
  let ?pdu = "?pre @ of_nat (?hs + length payload) # packed"
  have "buildSubmitPDU cfg a payload header = (Ret ?pdu :: ('e, bytes) outcome)" using p True by (simp add: buildSubmitPDU_prefix)
  moreover have "part_UnmarshalBinary ?pdu = unmarshalUserData ?pdu (length ?pre) (header \<noteq> []) (dcs_of a) (submit_part cfg ?pdu)"
    using assms(1) by (intro part_of_submit) (simp_all add: addresses_ok_def)
  moreover have "\<dots> = Ret (set_concat info ((submit_part cfg ?pdu)\<lparr>pt_Message := (pt_Message (submit_part cfg ?pdu))\<lparr>ms_Text := txt\<rparr>\<rparr>))"
    by (rule userData_septets [OF assms(2) submit_part_info _ p g(2) _ g(1)])
      (use True assms(4) in \<open>simp_all add: alphabetFromDCS_dcs_of fits_def\<close>)
  ultimately show ?thesis using m(2) by (auto simp: submitted_def submit_part_def zeroMessage_def)
next
  case False
  let ?pre = "submit_prefix cfg (header \<noteq> []) (dcs_of a)"
  let ?pdu = "?pre @ of_nat (length (header @ payload)) # header @ payload"
  have b: "buildSubmitPDU cfg a payload header = (Ret ?pdu :: ('e, bytes) outcome)" using False by (simp add: buildSubmitPDU_prefix)
  have "part_UnmarshalBinary ?pdu = unmarshalUserData ?pdu (length ?pre) (header \<noteq> []) (dcs_of a) (submit_part cfg ?pdu)"
    using assms(1) by (intro part_of_submit) (simp_all add: addresses_ok_def)
  also have "\<dots> = (if a = smsAlphabetBinary
      then Ret (set_concat info ((submit_part cfg ?pdu)\<lparr>pt_Message := (pt_Message (submit_part cfg ?pdu))\<lparr>ms_Data := payload\<rparr>\<rparr>))
      else fail_if (length payload mod 2 \<noteq> 0) UCS2OddLength
           (bind (map_err TextError (unmarshalUTF16 BigEndian payload)) (\<lambda>text.
              Ret (set_concat info ((submit_part cfg ?pdu)\<lparr>pt_Message := (pt_Message (submit_part cfg ?pdu))\<lparr>ms_Text := text\<rparr>\<rparr>)))))"
    by (rule userData_octets [OF assms(2)])
      (use False assms(4) in \<open>simp_all add: alphabetFromDCS_dcs_of fits_def submit_part_info\<close>)
  also have "\<dots> = Ret (submitted cfg info txt dat ?pdu)"
  proof (cases a)
    case smsAlphabetUCS2
    with assms(3) have u: "marshalUTF16 BigEndian txt = Ret payload" "dat = []" by (simp_all add: represents_def)
    have "unmarshalUTF16 BigEndian payload = Ret txt" by (rule marshal_unmarshal_UTF16 [OF u(1)])
    moreover from this have "length payload mod 2 = 0" by (auto simp: unmarshalUTF16_def)
    ultimately show ?thesis using smsAlphabetUCS2 u(2) by (simp add: submitted_def submit_part_def zeroMessage_def)
  qed (use False assms(3) in \<open>simp_all add: represents_def submitted_def submit_part_def zeroMessage_def\<close>)
  finally show ?thesis using b by blast
qed

end
