(* ===== verification/Sms_Assembler.thy ===== *)
theory Sms_Assembler
  imports Sms_Roundtrip "HOL-Library.AList" "HOL-Library.Multiset"
begin

text \<open>
  The reassembly of concatenated SMS (\<^verbatim>\<open>Assembler\<close> and \<^verbatim>\<open>Assemble\<close> of \<^verbatim>\<open>modem/sms/pdu.go\<close>) and the theorems that
  take a message from \<^verbatim>\<open>EncodePDUs\<close> through the decoder and the assembler. A Go map is an
  association list with distinct keys. The loop over the part index counts in \<open>uint8\<close>, so that it
  wraps after 255; it is modelled with fuel and shown to return within 256 iterations.
\<close>

section \<open>The assembler\<close>

record smsAssemblyKey =
  ak_number :: bytes
  ak_ref :: u16
  ak_total :: byte

type_synonym part_group = "(byte \<times> Part) list"
type_synonym Assembler = "(smsAssemblyKey \<times> part_group) list"

text \<open>Values are immutable here, so the deep copy of the slices is the message itself.\<close>

definition CloneMessage :: "Message \<Rightarrow> Message" where
  "CloneMessage message = message\<lparr>ms_PDUs := map (\<lambda>pdu. pdu) (ms_PDUs message)\<rparr>"

definition append_part :: "Message \<Rightarrow> Part \<Rightarrow> Message" where
  "append_part result current =
     result\<lparr>ms_Text := ms_Text result @ ms_Text (pt_Message current),
            ms_Data := ms_Data result @ ms_Data (pt_Message current),
            ms_PDUs := ms_PDUs result @ [ms_PDU (pt_Message current)],
            ms_Refs := ms_Refs result @ ms_Refs (pt_Message current)\<rparr>"

text \<open>The loop \<open>for index := uint8(1); index <= part.Total; index++\<close>: \<open>None\<close> when the fuel is spent,
  \<open>Some None\<close> when a part is missing, and \<open>Some (Some m)\<close> when the loop ends.\<close>

fun assemble_loop :: "nat \<Rightarrow> part_group \<Rightarrow> byte \<Rightarrow> byte \<Rightarrow> Message \<Rightarrow> Message option option" where
  "assemble_loop 0 parts tot idx result = None"
| "assemble_loop (Suc fuel) parts tot idx result =
     (if idx \<le> tot
      then (case map_of parts idx of
              None \<Rightarrow> Some None
            | Some current \<Rightarrow> assemble_loop fuel parts tot (idx + 1) (append_part result current))
      else Some (Some result))"

definition part_key :: "Part \<Rightarrow> smsAssemblyKey" where
  "part_key p = \<lparr>ak_number = ms_Number (pt_Message p), ak_ref = pt_Reference p, ak_total = pt_Total p\<rparr>"

definition group_of :: "Assembler \<Rightarrow> smsAssemblyKey \<Rightarrow> part_group" where
  "group_of a key = (case map_of a key of None \<Rightarrow> [] | Some parts \<Rightarrow> parts)"

definition group_head :: "part_group \<Rightarrow> Message" where
  "group_head parts =
     (CloneMessage (case map_of parts 1 of Some p \<Rightarrow> pt_Message p | None \<Rightarrow> zeroMessage))
       \<lparr>ms_Text := [], ms_Data := [], ms_PDU := [], ms_PDUs := [], ms_Refs := []\<rparr>"

text \<open>\<open>Add\<close> returns the message and whether it is complete, with the new state; \<open>None\<close> would be a
  call that does not return.\<close>

definition Add :: "Assembler \<Rightarrow> Part \<Rightarrow> (unit, (Message \<times> bool) \<times> Assembler) outcome option" where
  "Add a part =
     (if pt_Total part \<le> 1 then Some (Ret ((CloneMessage (pt_Message part), True), a))
      else let key = part_key part;
               parts = AList.update (pt_Index part) part (group_of a key);
               a' = AList.update key parts a
           in if length parts \<noteq> unat (pt_Total part) then Some (Ret ((zeroMessage, False), a'))
              else (case assemble_loop 256 parts (pt_Total part) 1 (group_head parts) of
                      None \<Rightarrow> None
                    | Some None \<Rightarrow> Some (Ret ((zeroMessage, False), a'))
                    | Some (Some result) \<Rightarrow>
                        Some (bind (index (ms_PDUs result) 0) (\<lambda>pdu.
                          Ret ((result\<lparr>ms_PDU := pdu\<rparr>, True), AList.delete key a')))))"

fun Assemble_loop :: "Assembler \<Rightarrow> Part list \<Rightarrow> (unit, Message list) outcome option" where
  "Assemble_loop a [] = Some (Ret [])"
| "Assemble_loop a (part # parts) =
     (case Add a part of
        None \<Rightarrow> None
      | Some (Ret ((message, complete), a')) \<Rightarrow>
          (case Assemble_loop a' parts of
             Some (Ret result) \<Rightarrow> Some (Ret (if complete then message # result else result))
           | r \<Rightarrow> r)
      | Some (Fail e) \<Rightarrow> Some (Fail e)
      | Some Panic \<Rightarrow> Some Panic)"

definition Assemble :: "Part list \<Rightarrow> (unit, Message list) outcome option" where
  "Assemble parts = Assemble_loop [] parts"

section \<open>The loop over the part index\<close>

lemma assemble_loop_None:
  "assemble_loop fuel parts tot idx result = None \<Longrightarrow> j < fuel \<Longrightarrow> idx + of_nat j \<in> dom (map_of parts)"
proof (induction fuel arbitrary: idx result j)
  case (Suc fuel)
  from Suc.prems obtain current where c: "map_of parts idx = Some current"
    and rec: "assemble_loop fuel parts tot (idx + 1) (append_part result current) = None"
    by (auto split: if_splits option.splits)
  show ?case
  proof (cases j)
    case (Suc k)
    then show ?thesis using Suc.IH [OF rec, of k] \<open>j < Suc fuel\<close> by (simp add: add.assoc)
  qed (use c in auto)
qed simp

lemma byte_UNIV: "(UNIV :: byte set) = (\<lambda>j. idx + of_nat j) ` {..<256}"
proof -
  have "w = idx + of_nat (unat (w - idx))" for w :: byte by simp
  moreover have "unat (w - idx) < 256" for w :: byte using unat_byte_lt by blast
  ultimately show ?thesis by blast
qed

lemma assemble_loop_returns:
  assumes "distinct (map fst parts)" "length parts < 256"
  shows "assemble_loop 256 parts tot idx result \<noteq> None"
proof
  assume "assemble_loop 256 parts tot idx result = None"
  from assemble_loop_None [OF this] have "(UNIV :: byte set) \<subseteq> dom (map_of parts)"
    unfolding byte_UNIV [of idx] by blast
  then have "card (UNIV :: byte set) \<le> card (dom (map_of parts))" by (intro card_mono finite_dom_map_of)
  also have "\<dots> = length parts" using assms(1) by (simp add: dom_map_of_conv_image_fst distinct_card [of "map fst parts", simplified])
  finally show False using assms(2) by (simp add: card_word)
qed

lemma assemble_loop_PDUs:
  "assemble_loop fuel parts tot idx result = Some (Some r) \<Longrightarrow> length (ms_PDUs result) \<le> length (ms_PDUs r)"
  by (induction fuel arbitrary: idx result)
    (auto simp: append_part_def split: if_splits option.splits dest!: meta_spec, fastforce)

lemma assemble_loop_nonempty:
  assumes "assemble_loop (Suc fuel) parts tot idx result = Some (Some r)" "idx \<le> tot"
  shows "ms_PDUs r \<noteq> []"
  using assms by (auto simp: append_part_def split: option.splits dest!: assemble_loop_PDUs)

lemma assemble_loop_255: "assemble_loop fuel parts 255 idx result \<noteq> Some (Some r)"
proof (induction fuel arbitrary: idx result)
  case (Suc fuel)
  have "idx \<le> 255" using unat_byte_lt [of idx] by (simp add: word_le_nat_alt del: unat_byte_lt)
  with Suc show ?case by (simp split: option.split)
qed simp

text \<open>The concatenation of the parts \<open>i\<close> to \<open>n\<close>, which the loop computes.\<close>

definition concat_parts :: "Message \<Rightarrow> (byte \<Rightarrow> Part) \<Rightarrow> nat list \<Rightarrow> Message" where
  "concat_parts result f is = foldl append_part result (map (\<lambda>i. f (of_nat i)) is)"

lemma assemble_loop_complete:
  assumes "n < 255" "\<And>i. 1 \<le> i \<Longrightarrow> i \<le> n \<Longrightarrow> map_of parts (of_nat i) = Some (f (of_nat i))"
  shows "1 \<le> i \<Longrightarrow> i \<le> n + 1 \<Longrightarrow> n + 1 - i < fuel \<Longrightarrow>
    assemble_loop fuel parts (of_nat n) (of_nat i) result = Some (Some (concat_parts result f [i..<n + 1]))"
proof (induction fuel arbitrary: i result)
  case (Suc fuel)
  have u: "unat (of_nat n :: byte) = n" "unat (of_nat i :: byte) = i"
    using assms(1) Suc.prems by (auto intro!: unat_of_nat_byte)
  then have le: "(of_nat i :: byte) \<le> of_nat n \<longleftrightarrow> i \<le> n" by (simp add: word_le_nat_alt)
  show ?case
  proof (cases "i \<le> n")
    case True
    have "assemble_loop fuel parts (of_nat n) (of_nat (i + 1)) (append_part result (f (of_nat i)))
        = Some (Some (concat_parts (append_part result (f (of_nat i))) f [i + 1..<n + 1]))"
      by (rule Suc.IH) (use True Suc.prems in auto)
    then show ?thesis using True assms(2) [of i] Suc.prems le
      by (simp add: concat_parts_def upt_conv_Cons add.commute del: upt_Suc)
  next
    case False
    then show ?thesis using le Suc.prems by (simp add: concat_parts_def)
  qed
qed simp

section \<open>Every call of Add returns\<close>

definition wf_assembler :: "Assembler \<Rightarrow> bool" where
  "wf_assembler a = (distinct (map fst a) \<and> list_all (\<lambda>(k, parts). distinct (map fst parts)) a)"

lemma wf_assembler_Nil: "wf_assembler []"
  by (simp add: wf_assembler_def)

lemma wf_group_of: "wf_assembler a \<Longrightarrow> distinct (map fst (group_of a key))"
  by (auto simp: wf_assembler_def group_of_def list_all_iff split: option.split dest!: map_of_SomeD)

lemma list_all_update: "list_all P a \<Longrightarrow> P (k, v) \<Longrightarrow> list_all P (AList.update k v a)"
  by (induction a) auto

lemma wf_update: "wf_assembler a \<Longrightarrow> distinct (map fst parts) \<Longrightarrow> wf_assembler (AList.update key parts a)"
  by (simp add: wf_assembler_def AList.distinct_update list_all_update)

lemma wf_delete: "wf_assembler a \<Longrightarrow> wf_assembler (AList.delete key a)"
  by (auto simp: wf_assembler_def AList.delete_eq list_all_iff distinct_map_filter)

lemma Add_wf:
  assumes "wf_assembler a"
  shows "\<exists>m c a'. Add a p = Some (Ret ((m, c), a')) \<and> wf_assembler a'"
proof (cases "pt_Total p \<le> 1")
  case False
  define parts where "parts = AList.update (pt_Index p) p (group_of a (part_key p))"
  define a' where "a' = AList.update (part_key p) parts a"
  have d: "distinct (map fst parts)" unfolding parts_def by (intro AList.distinct_update wf_group_of assms)
  then have wf: "wf_assembler a'" unfolding a'_def by (intro wf_update assms)
  show ?thesis
  proof (cases "length parts = unat (pt_Total p)")
    case True
    then have "length parts < 256" using unat_byte_lt by metis
    note ret = assemble_loop_returns [OF d this, of "pt_Total p" 1 "group_head parts"]
    then consider "assemble_loop 256 parts (pt_Total p) 1 (group_head parts) = Some None"
      | r where "assemble_loop 256 parts (pt_Total p) 1 (group_head parts) = Some (Some r)"
      by (cases "assemble_loop 256 parts (pt_Total p) 1 (group_head parts)") auto
    then show ?thesis
    proof cases
      case 1
      with False True wf show ?thesis by (auto simp: Add_def Let_def parts_def [symmetric] a'_def [symmetric])
    next
      case (2 r)
      have "1 \<le> pt_Total p" using False by simp
      with 2 have "ms_PDUs r \<noteq> []" using assemble_loop_nonempty [of 255] by simp
      with 2 False True wf_delete [OF wf] show ?thesis
        by (auto simp: Add_def Let_def parts_def [symmetric] a'_def [symmetric] index_def)
    qed
  qed (use False wf in \<open>auto simp: Add_def Let_def parts_def [symmetric] a'_def [symmetric]\<close>)
qed (use assms in \<open>auto simp: Add_def\<close>)

text \<open>C17: the assembler terminates: from any state with distinct keys, \<open>Add\<close> returns on every part, with
  any index and total, without a panic, and leaves distinct keys. The index of its loop is a
  \<open>uint8\<close> that wraps after 255, and the loop still ends within 256 iterations.\<close>

theorem assembler_returns:
  assumes "wf_assembler a"
  shows "\<exists>m c a'. Add a p = Some (Ret ((m, c), a')) \<and> wf_assembler a'"
  using assms by (rule Add_wf)

theorem assembler_returns_witness:
  "\<exists>m c a'. Add [] \<lparr>pt_Message = zeroMessage, pt_Reference = 7, pt_Total = 255, pt_Index = 255\<rparr> = Some (Ret ((m, c), a')) \<and> wf_assembler a'"
  by (rule assembler_returns) (rule wf_assembler_Nil)

text \<open>A message of 255 parts is never assembled: whatever parts were added before, a part with
  total 255 is not reported complete, since the loop counter wraps to 0 and finds no such part. The
  standard allows 255 parts, and the decoder and the encoder accept them.\<close>

theorem assembler_never_completes_255:
  assumes "wf_assembler a" "pt_Total p = 255"
  shows "\<exists>a'. Add a p = Some (Ret ((zeroMessage, False), a')) \<and> part_key p \<in> fst ` set a'"
proof -
  obtain m c a' where "Add a p = Some (Ret ((m, c), a'))" using Add_wf [OF assms(1)] by blast
  moreover have "\<not> (255 :: byte) \<le> 1" by (simp add: word_le_nat_alt)
  ultimately show ?thesis
    by (auto simp: Add_def Let_def assms(2) assemble_loop_255 AList.dom_update
        split: if_splits option.splits dest!: assemble_loop_255 [THEN notE])
qed

theorem assembler_never_completes_255_witness:
  "\<exists>a'. Add [] \<lparr>pt_Message = zeroMessage, pt_Reference = 7, pt_Total = 255, pt_Index = 1\<rparr> = Some (Ret ((zeroMessage, False), a'))"
  using assembler_never_completes_255 [of "[]" "\<lparr>pt_Message = zeroMessage, pt_Reference = 7, pt_Total = 255, pt_Index = 1\<rparr>"]
    wf_assembler_Nil by auto

section \<open>The order of arrival does not matter\<close>

text \<open>The message that a complete list of parts, in the order of their indexes, stands for.\<close>

definition assembled :: "Part list \<Rightarrow> Message" where
  "assembled ps =
     (pt_Message (hd ps))\<lparr>ms_Text := concat (map (\<lambda>p. ms_Text (pt_Message p)) ps),
        ms_Data := concat (map (\<lambda>p. ms_Data (pt_Message p)) ps),
        ms_PDUs := map (\<lambda>p. ms_PDU (pt_Message p)) ps,
        ms_Refs := concat (map (\<lambda>p. ms_Refs (pt_Message p)) ps)\<rparr>"

lemma foldl_append_part:
  "foldl append_part r ps =
     r\<lparr>ms_Text := ms_Text r @ concat (map (\<lambda>p. ms_Text (pt_Message p)) ps),
       ms_Data := ms_Data r @ concat (map (\<lambda>p. ms_Data (pt_Message p)) ps),
       ms_PDUs := ms_PDUs r @ map (\<lambda>p. ms_PDU (pt_Message p)) ps,
       ms_Refs := ms_Refs r @ concat (map (\<lambda>p. ms_Refs (pt_Message p)) ps)\<rparr>"
  by (induction ps arbitrary: r) (simp_all add: append_part_def)

definition keyed :: "Part list \<Rightarrow> part_group" where
  "keyed ps = map (\<lambda>p. (pt_Index p, p)) ps"

lemma update_new: "k \<notin> fst ` set al \<Longrightarrow> AList.update k v al = al @ [(k, v)]"
  by (induction al) auto

lemma keyed_snoc: "pt_Index p \<notin> pt_Index ` set qs \<Longrightarrow> AList.update (pt_Index p) p (keyed qs) = keyed (qs @ [p])"
  by (subst update_new) (auto simp: keyed_def image_image)

text \<open>A complete group: parts \<open>1..n\<close> of one message, listed by index.\<close>

definition complete_group :: "smsAssemblyKey \<Rightarrow> Part list \<Rightarrow> bool" where
  "complete_group k ps =
     (2 \<le> length ps \<and> length ps < 255 \<and> ak_total k = of_nat (length ps)
      \<and> list_all (\<lambda>p. part_key p = k) ps \<and> map pt_Index ps = map (\<lambda>i. of_nat (i + 1)) [0..<length ps])"

lemma unat_Suc_byte: "i < 255 \<Longrightarrow> unat (1 + of_nat i :: byte) = Suc i"
  using unat_of_nat_byte [of "Suc i"] by simp

lemma complete_group_distinct: "complete_group k ps \<Longrightarrow> distinct (map pt_Index ps)"
proof -
  assume "complete_group k ps"
  then have m: "map pt_Index ps = map (\<lambda>i. of_nat (i + 1)) [0..<length ps]" and n: "length ps < 255"
    by (simp_all add: complete_group_def)
  have "inj_on (\<lambda>i. of_nat (i + 1) :: byte) {0..<length ps}"
  proof (rule inj_onI)
    fix i j assume ij: "i \<in> {0..<length ps}" "j \<in> {0..<length ps}" "(of_nat (i + 1) :: byte) = of_nat (j + 1)"
    have "Suc i = unat (of_nat (i + 1) :: byte)" using ij(1) n unat_Suc_byte [of i] by simp
    also have "\<dots> = Suc j" unfolding ij(3) using ij(2) n unat_Suc_byte [of j] by simp
    finally show "i = j" by simp
  qed
  then show ?thesis unfolding m by (simp add: distinct_map)
qed

lemma complete_group_nth:
  assumes "complete_group k ps" "i < length ps"
  shows "pt_Index (ps ! i) = of_nat (Suc i)"
proof -
  have "map pt_Index ps ! i = map (\<lambda>i. of_nat (i + 1)) [0..<length ps] ! i" using assms(1) by (simp add: complete_group_def)
  with assms(2) show ?thesis by simp
qed

lemma keyed_lookup:
  assumes "complete_group k ps" "mset qs = mset ps" "1 \<le> i" "i \<le> length ps"
  shows "map_of (keyed qs) (of_nat i) = Some (ps ! (i - 1))"
proof (rule map_of_is_SomeI)
  have "mset (map pt_Index qs) = mset (map pt_Index ps)" using assms(2) by simp
  then have "distinct (map pt_Index qs)" using complete_group_distinct [OF assms(1)] mset_eq_imp_distinct_iff by blast
  then show "distinct (map fst (keyed qs))" by (simp add: keyed_def comp_def)
  have "ps ! (i - 1) \<in> set qs" using assms(3,4) mset_eq_setD [OF assms(2)] by simp
  moreover have "pt_Index (ps ! (i - 1)) = of_nat i" using complete_group_nth [OF assms(1), of "i - 1"] assms(3,4) by simp
  ultimately show "(of_nat i, ps ! (i - 1)) \<in> set (keyed qs)" by (force simp: keyed_def)
qed

lemma assemble_keyed:
  assumes g: "complete_group k ps" and m: "mset qs = mset ps"
  shows "\<exists>r. assemble_loop 256 (keyed qs) (ak_total k) 1 (group_head (keyed qs)) = Some (Some r)
    \<and> ms_PDUs r \<noteq> [] \<and> r\<lparr>ms_PDU := ms_PDUs r ! 0\<rparr> = assembled ps"
proof -
  let ?n = "length ps" and ?f = "\<lambda>b :: byte. ps ! (unat b - 1)"
  have n: "2 \<le> ?n" "?n < 255" "ak_total k = of_nat ?n" using g by (simp_all add: complete_group_def)
  have u: "unat (of_nat i :: byte) = i" if "i \<le> ?n" for i using that n by (intro unat_of_nat_byte) simp
  have f: "map_of (keyed qs) (of_nat i) = Some (?f (of_nat i))" if "1 \<le> i" "i \<le> ?n" for i
    using keyed_lookup [OF g m that] u [OF that(2)] by simp
  have "map (\<lambda>i. ?f (of_nat i)) [1..<?n + 1] = map (\<lambda>i. ps ! (i - 1)) [1..<?n + 1]"
    using u by (intro map_cong) auto
  also have "\<dots> = map (\<lambda>i. ps ! i) [0..<?n]" by (rule nth_equalityI) (auto simp del: upt_Suc)
  finally have list: "map (\<lambda>i. ?f (of_nat i)) [1..<?n + 1] = ps" by (simp add: map_nth)
  have "map_of (keyed qs) 1 = Some (ps ! 0)" using f [of 1] n by simp
  moreover have "ps \<noteq> []" using n by auto
  ultimately have head: "group_head (keyed qs) = (pt_Message (hd ps))\<lparr>ms_Text := [], ms_Data := [], ms_PDU := [], ms_PDUs := [], ms_Refs := []\<rparr>"
    by (simp add: group_head_def CloneMessage_def hd_conv_nth)
  have run: "assemble_loop 256 (keyed qs) (of_nat ?n) (of_nat 1) (group_head (keyed qs))
      = Some (Some (concat_parts (group_head (keyed qs)) ?f [1..<?n + 1]))"
    by (rule assemble_loop_complete [OF n(2) f]) (use n in auto)
  have r: "concat_parts (group_head (keyed qs)) ?f [1..<?n + 1] = foldl append_part (group_head (keyed qs)) ps"
    by (simp only: concat_parts_def list)
  define R where "R = foldl append_part (group_head (keyed qs)) ps"
  have "assemble_loop 256 (keyed qs) (ak_total k) 1 (group_head (keyed qs)) = Some (Some R)" using run by (simp only: r n(3) R_def of_nat_1)
  moreover have "ms_PDUs R = map (\<lambda>p. ms_PDU (pt_Message p)) ps" by (simp add: R_def foldl_append_part head)
  moreover from this have "R\<lparr>ms_PDU := ms_PDUs R ! 0\<rparr> = assembled ps"
    by (intro Message.equality) (use \<open>ps \<noteq> []\<close> in \<open>simp_all add: R_def foldl_append_part head assembled_def hd_conv_nth\<close>)
  ultimately show ?thesis using \<open>ps \<noteq> []\<close> by auto
qed

lemma group_of_update: "group_of (AList.update k parts a) k' = (if k = k' then parts else group_of a k')"
  by (simp add: group_of_def AList.update_conv')

lemma Assemble_loop_group:
  assumes g: "complete_group k ps"
  shows "mset (seen @ rest) = mset ps \<Longrightarrow> rest \<noteq> [] \<Longrightarrow> group_of a k = keyed seen \<Longrightarrow>
    Assemble_loop a rest = Some (Ret [assembled ps])"
proof (induction rest arbitrary: a seen)
  case (Cons p rest)
  have n: "2 \<le> length ps" "length ps < 255" "ak_total k = of_nat (length ps)" using g by (simp_all add: complete_group_def)
  have u: "unat (ak_total k) = length ps" unfolding n(3) using n(2) by (intro unat_of_nat_byte) simp
  have "p \<in> set ps" using mset_eq_setD [OF Cons.prems(1)] by auto
  then have key: "part_key p = k" using g by (auto simp: complete_group_def list_all_iff)
  then have tot: "pt_Total p = ak_total k" by (auto simp: part_key_def)
  have many: "\<not> pt_Total p \<le> 1" using n(1) u tot by (simp add: word_le_nat_alt)
  have "mset (map pt_Index (seen @ p # rest)) = mset (map pt_Index ps)" using Cons.prems(1) by (metis mset_map)
  then have "distinct (map pt_Index (seen @ p # rest))"
    using complete_group_distinct [OF g] mset_eq_imp_distinct_iff by blast
  then have upd: "AList.update (pt_Index p) p (keyed seen) = keyed (seen @ [p])" by (intro keyed_snoc) auto
  have len: "length (keyed (seen @ [p])) = length seen + 1" "length ps = length seen + 1 + length rest"
    using mset_eq_length [OF Cons.prems(1)] by (simp_all add: keyed_def)
  show ?case
  proof (cases "rest = []")
    case True
    then have m: "mset (seen @ [p]) = mset ps" using Cons.prems(1) by simp
    from assemble_keyed [OF g m] obtain r where
      r: "assemble_loop 256 (keyed (seen @ [p])) (ak_total k) 1 (group_head (keyed (seen @ [p]))) = Some (Some r)"
      "ms_PDUs r \<noteq> []" "r\<lparr>ms_PDU := ms_PDUs r ! 0\<rparr> = assembled ps" by blast
    with True many show ?thesis
      by (simp add: Add_def Let_def key Cons.prems(3) upd len tot u index_def)
  next
    case False
    let ?a = "AList.update k (keyed (seen @ [p])) a"
    have "Add a p = Some (Ret ((zeroMessage, False), ?a))"
      using many False len by (simp add: Add_def Let_def key Cons.prems(3) upd tot u)
    moreover have "Assemble_loop ?a rest = Some (Ret [assembled ps])"
      using Cons.prems(1) False by (intro Cons.IH [of "seen @ [p]"]) (simp_all add: group_of_update)
    ultimately show ?thesis by simp
  qed
qed simp

lemma Assemble_complete:
  assumes "complete_group k ps" "mset qs = mset ps"
  shows "Assemble qs = Some (Ret [assembled ps])"
proof -
  have "qs \<noteq> []" using assms by (auto simp: complete_group_def)
  then show ?thesis unfolding Assemble_def
    by (intro Assemble_loop_group [OF assms(1), where seen = "[]"]) (use assms(2) in \<open>simp_all add: group_of_def keyed_def\<close>)
qed

end
