(* ===== verification/Sms_Delivery.thy ===== *)
theory Sms_Delivery
  imports Sms_Assembler
begin

text \<open>
  A message from end to end: \<^verbatim>\<open>EncodePDUs\<close> splits it into parts of the allowed size without cutting a
  character, every part decodes, and the assembler puts the message together again from its parts
  in any order (\<^verbatim>\<open>modem/sms/pdu.go\<close>).
\<close>

section \<open>Splitting\<close>

lemma gsm7_Marshal_append:
  "gsm7_MarshalBinary s = Ret a \<Longrightarrow> gsm7_MarshalBinary t = Ret b \<Longrightarrow> gsm7_MarshalBinary (s @ t) = Ret (a @ b)"
  by (induction s arbitrary: a) (auto split: option.splits)

lemma gsm7_Marshal_no_panic: "gsm7_MarshalBinary s \<noteq> Panic"
  by (induction s) (auto simp: bind_eq_Panic_iff split: option.split)

lemma gsm7_Marshal_empty: "gsm7_MarshalBinary s = Ret [] \<Longrightarrow> s = []"
  by (cases s) (auto split: option.splits dest: encodeGSM7Rune_septets)

lemma splitGSM7_loop_pieces:
  "2 \<le> capacity \<Longrightarrow> gsm7_MarshalBinary s = Ret current \<Longrightarrow> length current \<le> capacity \<Longrightarrow> gsm7_MarshalBinary t = Ret bs \<Longrightarrow>
   \<exists>chunks ts. splitGSM7_loop capacity t current = Ret chunks \<and> concat ts = s @ t
     \<and> list_all2 (\<lambda>c x. gsm7_MarshalBinary x = Ret c \<and> length c \<le> capacity) chunks ts"
proof (induction t arbitrary: s current bs)
  case Nil
  show ?case
  proof (cases "current = []")
    case True
    with Nil gsm7_Marshal_empty show ?thesis by (auto intro!: exI [of _ "[]"])
  next
    case False
    with Nil show ?thesis by (auto intro!: exI [of _ "[s]"])
  qed
next
  case (Cons r t)
  then obtain e rest where e: "encodeGSM7Rune r = Some e" "gsm7_MarshalBinary t = Ret rest" by (auto split: option.splits)
  have len: "length e \<le> capacity" using encodeGSM7Rune_septets [OF e(1)] Cons.prems(1) by auto
  have r: "gsm7_MarshalBinary [r] = Ret e" using e(1) by simp
  show ?case
  proof (cases "length current + length e > capacity")
    case True
    from Cons.IH [OF Cons.prems(1) r len e(2)] obtain chunks ts where
      "splitGSM7_loop capacity t e = Ret chunks" "concat ts = [r] @ t"
      "list_all2 (\<lambda>c x. gsm7_MarshalBinary x = Ret c \<and> length c \<le> capacity) chunks ts" by blast
    with True e Cons.prems(2,3) show ?thesis by (intro exI [of _ "current # chunks"] exI [of _ "s # ts"]) simp
  next
    case False
    then have "length (current @ e) \<le> capacity" by simp
    from Cons.IH [OF Cons.prems(1) gsm7_Marshal_append [OF Cons.prems(2) r] this e(2)] obtain chunks ts where
      "splitGSM7_loop capacity t (current @ e) = Ret chunks" "concat ts = (s @ [r]) @ t"
      "list_all2 (\<lambda>c x. gsm7_MarshalBinary x = Ret c \<and> length c \<le> capacity) chunks ts" by blast
    with False e show ?thesis by (intro exI [of _ chunks] exI [of _ ts]) simp
  qed
qed

lemma splitGSM7_pieces:
  assumes "gsm7_MarshalBinary t = Ret bs"
  shows "\<exists>chunks ts. splitGSM7 t smsGSM7PartSeptets = Ret chunks \<and> concat ts = t
     \<and> list_all2 (\<lambda>c x. gsm7_MarshalBinary x = Ret c \<and> length c \<le> 153) chunks ts"
  using splitGSM7_loop_pieces [of 153 "[]" "[]" t bs] assms by (simp add: splitGSM7_def smsGSM7PartSeptets_def)

lemma splitBinary_pieces:
  "concat (splitBinary data) = data \<and> list_all (\<lambda>c. c \<noteq> [] \<and> length c \<le> 134) (splitBinary data)"
proof (induction data rule: splitBinary.induct)
  case (1 data)
  show ?case
  proof (cases "data = []")
    case False
    with 1 show ?thesis
      by (subst (1 2) splitBinary.simps) (auto simp: Let_def smsBinaryPartOctets_def)
  qed (simp add: splitBinary.simps [of "[]"])
qed

text \<open>UTF-16 text is cut only where the unit before the cut is not a high surrogate.\<close>

lemma utf16_cut:
  "list_all valid_rune t \<Longrightarrow> n \<le> length (utf16_encode t) \<Longrightarrow> n = 0 \<or> \<not> is_high (utf16_encode t ! (n - 1)) \<Longrightarrow>
   \<exists>t1 t2. t = t1 @ t2 \<and> take n (utf16_encode t) = utf16_encode t1 \<and> drop n (utf16_encode t) = utf16_encode t2"
proof (induction t arbitrary: n)
  case (Cons r t)
  show ?case
  proof (cases "n = 0")
    case True
    then show ?thesis by (intro exI [of _ "[]"] exI [of _ "r # t"]) (simp add: utf16_encode_def)
  next
    case False
    from Cons.prems(1) have "valid_rune r" by simp
    then have "length (utf16_encode_rune r) \<le> n"
      by (cases rule: utf16_encode_rune_cases) (use False Cons.prems(3) in \<open>cases "n = 1"; simp add: utf16_encode_Cons\<close>)+
    then obtain m where m: "n = length (utf16_encode_rune r) + m" using le_Suc_ex by blast
    have nz: "utf16_encode_rune r \<noteq> []" using \<open>valid_rune r\<close> by (cases rule: utf16_encode_rune_cases) auto
    have "\<exists>t1 t2. t = t1 @ t2 \<and> take m (utf16_encode t) = utf16_encode t1 \<and> drop m (utf16_encode t) = utf16_encode t2"
    proof (rule Cons.IH)
      show "m = 0 \<or> \<not> is_high (utf16_encode t ! (m - 1))"
        using Cons.prems(3) nz by (cases m) (auto simp: m utf16_encode_Cons nth_append)
    qed (use Cons.prems in \<open>auto simp: m utf16_encode_Cons\<close>)
    then obtain t1 t2 where "t = t1 @ t2" "take m (utf16_encode t) = utf16_encode t1" "drop m (utf16_encode t) = utf16_encode t2" by blast
    then show ?thesis by (intro exI [of _ "r # t1"] exI [of _ t2]) (simp add: utf16_encode_Cons m)
  qed
qed (simp add: utf16_encode_def)

lemma utf16_high_low:
  "list_all valid_rune t \<Longrightarrow> Suc i < length (utf16_encode t) \<Longrightarrow> is_high (utf16_encode t ! i) \<Longrightarrow> is_low (utf16_encode t ! Suc i)"
proof (induction t arbitrary: i)
  case (Cons r t)
  from Cons.prems(1) have "valid_rune r" by simp
  then show ?case
  proof (cases rule: utf16_encode_rune_cases)
    case (1 u)
    with Cons show ?thesis by (cases i) (auto simp: utf16_encode_Cons)
  next
    case (2 u v)
    then have "\<not> is_high v" using high_low_disjoint by blast
    with 2 Cons show ?thesis by (cases i rule: nat.exhaust; cases "i - 1") (auto simp: utf16_encode_Cons)
  qed
qed (simp add: utf16_encode_def)

abbreviation be16s :: "u16 list \<Rightarrow> bytes" where
  "be16s us \<equiv> concat (map (PutUint16 BigEndian) us)"

lemma length_Put: "length (PutUint16 order u) = 2"
  by (cases order) (simp_all add: PutUint16_def)

lemma be16s_unit: "i < length us \<Longrightarrow> join_le16 (be16s us ! Suc (2 * i)) (be16s us ! (2 * i)) = us ! i"
proof (induction us arbitrary: i)
  case (Cons u us)
  then show ?case by (cases i) (auto simp: PutUint16_def put_be16_def)
qed simp

lemma be16s_cut: "take (2 * n) (be16s us) = be16s (take n us)" "drop (2 * n) (be16s us) = be16s (drop n us)"
proof (induction us arbitrary: n)
  case (Cons u us)
  {
    case 1
    show ?case by (cases n) (use Cons in \<open>simp_all add: length_Put\<close>)
  next
    case 2
    show ?case by (cases n) (use Cons in \<open>simp_all add: length_Put\<close>)
  }
qed simp_all

lemma ucs2_part:
  assumes "list_all valid_rune t" "t \<noteq> []"
  defines "us \<equiv> utf16_encode t"
  shows "\<exists>n. ucs2_part_length (be16s us) = 2 * n \<and> 0 < n \<and> n \<le> 67 \<and> n \<le> length us \<and> (n = length us \<or> \<not> is_high (us ! (n - 1)))"
proof (cases "length us \<le> 67")
  case True
  have "us \<noteq> []" using assms(2) by (cases t) (auto simp: us_def utf16_encode_def utf16_encode_rune_def)
  with True show ?thesis
    by (intro exI [of _ "length us"]) (simp add: ucs2_part_length_def length_concat_Put smsUTF16PartUnits_def)
next
  case False
  then have last: "join_le16 (be16s us ! 133) (be16s us ! 132) = us ! 66" using be16s_unit [of 66 us] by simp
  have len: "ucs2_part_length (be16s us) = (if is_high (us ! 66) then 132 else 134)"
    using False last by (simp add: ucs2_part_length_def length_concat_Put smsUTF16PartUnits_def high_iff min_def)
  show ?thesis
  proof (cases "is_high (us ! 66)")
    case True
    have "is_low (us ! 66)" if "is_high (us ! 65)" using utf16_high_low [of t 65] assms(1) False that by (simp add: us_def)
    then have "\<not> is_high (us ! 65)" using True high_low_disjoint by blast
    with True False len show ?thesis by (intro exI [of _ 66]) simp
  next
    case False': False
    with False len show ?thesis by (intro exI [of _ 67]) simp
  qed
qed

lemma splitUCS2_pieces:
  "list_all valid_rune t \<Longrightarrow>
   \<exists>ts. concat ts = t \<and> list_all2 (\<lambda>c x. marshalUTF16 BigEndian x = Ret c \<and> length c \<le> 134) (splitUCS2 (be16s (utf16_encode t))) ts"
proof (induction "length t" arbitrary: t rule: less_induct)
  case less
  show ?case
  proof (cases "t = []")
    case True
    then show ?thesis by (intro exI [of _ "[]"]) (simp add: utf16_encode_def splitUCS2.simps [of "[]"])
  next
    case False
    let ?us = "utf16_encode t"
    obtain n where n: "ucs2_part_length (be16s ?us) = 2 * n" "0 < n" "n \<le> 67" "n \<le> length ?us"
      "n = length ?us \<or> \<not> is_high (?us ! (n - 1))" using ucs2_part [OF less.prems False] by blast
    have "\<exists>t1 t2. t = t1 @ t2 \<and> take n ?us = utf16_encode t1 \<and> drop n ?us = utf16_encode t2"
    proof (cases "n = length ?us")
      case True
      then show ?thesis by (intro exI [of _ t] exI [of _ "[]"]) (simp add: utf16_encode_def)
    next
      case False
      with n less.prems show ?thesis by (intro utf16_cut) auto
    qed
    then obtain t1 t2 where t: "t = t1 @ t2" "take n ?us = utf16_encode t1" "drop n ?us = utf16_encode t2" by blast
    have "length (take n ?us) = n" using n(4) by simp
    then have "utf16_encode t1 \<noteq> []" using n(2) t(2) by auto
    then have "t1 \<noteq> []" by (auto simp: utf16_encode_def)
    then have "length t2 < length t" "list_all valid_rune t2" "list_all valid_rune t1" using t(1) less.prems by auto
    from less.hyps [OF this(1,2)] obtain ts where ts: "concat ts = t2"
      "list_all2 (\<lambda>c x. marshalUTF16 BigEndian x = Ret c \<and> length c \<le> 134) (splitUCS2 (be16s (utf16_encode t2))) ts" by blast
    have "be16s ?us \<noteq> []" using n(2,4) length_concat_Put [of BigEndian ?us] by fastforce
    then have "splitUCS2 (be16s ?us) = be16s (utf16_encode t1) # splitUCS2 (be16s (utf16_encode t2))"
      by (subst splitUCS2.simps) (simp add: n(1) be16s_cut t(2,3))
    moreover have "marshalUTF16 BigEndian t1 = Ret (be16s (utf16_encode t1))"
      using \<open>list_all valid_rune t1\<close> by (simp add: marshalUTF16_def utf8_ValidString_def)
    moreover have "length (be16s (utf16_encode t1)) \<le> 134"
      using t(2) [symmetric] n(3) by (simp add: length_concat_Put)
    ultimately show ?thesis using ts t(1) by (intro exI [of _ "t1 # ts"]) simp
  qed
qed

section \<open>Encoding always fits\<close>

text \<open>The capacity of one part in the unit of its alphabet, and the length of a PDU whose user data
  is within the 140 octets of the standard: prefix, length octet, user data.\<close>

definition part_capacity :: "smsAlphabet \<Rightarrow> nat" where
  "part_capacity a = (if a = smsAlphabetGSM7 then 153 else 134)"

definition within_140 :: "MessageConfig \<Rightarrow> bytes \<Rightarrow> bool" where
  "within_140 cfg pdu = (length pdu \<le> length (submit_prefix cfg False 0) + 1 + smsMaxUserDataOctets)"

lemma length_submit_prefix: "length (submit_prefix cfg h dcs) = length (submit_prefix cfg False 0)"
  by (simp add: submit_prefix_def appendAddress_def split: prod.split)

lemma submit_fits:
  assumes "represents a payload txt dat"
    and "if a = smsAlphabetGSM7 then (length header * 8 + 6) div 7 + length payload \<le> 160 else length header + length payload \<le> 140"
  shows "\<exists>pdu. buildSubmitPDU cfg a payload header = (Ret pdu :: ('e, bytes) outcome) \<and> within_140 cfg pdu"
proof (cases "a = smsAlphabetGSM7")
  case True
  let ?hs = "(length header * 8 + 6) div 7"
  from assms(1) True have "list_all (\<lambda>s. s \<le> 0x7F) payload"
    using gsm7_Marshal_Unmarshal by (auto simp: represents_def)
  from pack_unpack_lemma [where 'e = 'e, OF this, of header] obtain packed where
    p: "PackSeptets payload header = (Ret (packed, ?hs) :: ('e, bytes \<times> nat) outcome)"
      "length packed = (?hs * 7 + length payload * 7 + 7) div 8" by blast
  have "?hs * 7 + length payload * 7 \<le> 160 * 7" using assms(2) True by simp
  then have "length packed \<le> 140" unfolding p(2) by linarith
  with p(1) True show ?thesis by (simp add: buildSubmitPDU_prefix within_140_def smsMaxUserDataOctets_def length_submit_prefix [of cfg "_ \<noteq> _"])
next
  case False
  with assms(2) show ?thesis by (simp add: buildSubmitPDU_prefix within_140_def smsMaxUserDataOctets_def length_submit_prefix [of cfg "_ \<noteq> _"])
qed

lemma length_concat_header: "length (concat_header ref n i) = 6" "concat_header ref n i \<noteq> []"
  by (simp_all add: concat_header_def)

definition piecewise :: "smsAlphabet \<Rightarrow> bytes list \<Rightarrow> (rune list \<times> bytes) list \<Rightarrow> bool" where
  "piecewise a chunks pieces = list_all2 (\<lambda>c (txt, dat). represents a c txt dat \<and> length c \<le> part_capacity a) chunks pieces"

lemma piecewise_nth:
  "piecewise a chunks pieces \<Longrightarrow> i < length chunks \<Longrightarrow>
     represents a (chunks ! i) (fst (pieces ! i)) (snd (pieces ! i)) \<and> length (chunks ! i) \<le> part_capacity a"
  by (auto simp: piecewise_def list_all2_conv_all_nth case_prod_unfold)

lemma piecewise_length: "piecewise a chunks pieces \<Longrightarrow> length pieces = length chunks"
  by (auto simp: piecewise_def dest: list_all2_lengthD)

lemma multipart_Ret_iff:
  "fst (buildMultipartPDUs cfg a chunks n) = (Ret pdus :: ('e, bytes list) outcome) \<longleftrightarrow> length pdus = length chunks
     \<and> (\<forall>i < length chunks. buildSubmitPDU cfg a (chunks ! i) (concat_header (fst (nextConcatReference n)) (length chunks) i)
           = (Ret (pdus ! i) :: ('e, bytes) outcome))"
  by (simp add: buildMultipartPDUs_def traverse_eq_Ret_iff nth_enumerate_eq split: prod.split)

lemma choose_list:
  assumes "\<And>i. i < n \<Longrightarrow> \<exists>x. P i x"
  shows "\<exists>xs. length xs = n \<and> (\<forall>i < n. P i (xs ! i))"
proof -
  from assms have "\<forall>i. \<exists>x. i < n \<longrightarrow> P i x" by blast
  then obtain f where "\<forall>i. i < n \<longrightarrow> P i (f i)" by (rule choice [THEN exE])
  then show ?thesis by (intro exI [of _ "map f [0..<n]"]) simp
qed

lemma multipart_fits:
  assumes "piecewise a chunks pieces"
  shows "\<exists>pdus. fst (buildMultipartPDUs cfg a chunks n) = (Ret pdus :: ('e, bytes list) outcome) \<and> list_all (within_140 cfg) pdus"
proof -
  let ?h = "concat_header (fst (nextConcatReference n)) (length chunks)"
  have "\<exists>pdu. buildSubmitPDU cfg a (chunks ! i) (?h i) = (Ret pdu :: ('e, bytes) outcome) \<and> within_140 cfg pdu" if "i < length chunks" for i
    using submit_fits [where 'e = 'e and header = "?h i", of a "chunks ! i" _ _ cfg] piecewise_nth [OF assms that]
    by (fastforce simp: length_concat_header part_capacity_def split: if_splits)
  then have "\<exists>pdus. length pdus = length chunks \<and> (\<forall>i < length chunks.
      buildSubmitPDU cfg a (chunks ! i) (?h i) = (Ret (pdus ! i) :: ('e, bytes) outcome) \<and> within_140 cfg (pdus ! i))"
    by (rule choose_list)
  then show ?thesis unfolding multipart_Ret_iff list_all_length by auto
qed

text \<open>What a message carries: its text, or its data when the text is empty.\<close>

definition carried_data :: "MessageConfig \<Rightarrow> bytes" where
  "carried_data cfg = (if mc_Text cfg = [] then mc_Data cfg else [])"

lemma piecewise_text:
  assumes "list_all2 (\<lambda>c x. represents a c x [] \<and> length c \<le> part_capacity a) chunks ts"
  shows "piecewise a chunks (map (\<lambda>x. (x, [])) ts)"
  using assms by (simp add: piecewise_def list_all2_map2)

lemma EncodePDUs_cases:
  assumes "utf8_ValidString (mc_Text cfg)"
  obtains (single) a payload where "EncodePDUs cfg n = (bind (buildSubmitPDU cfg a payload []) (\<lambda>pdu. Ret [pdu]), n)"
      "represents a payload (mc_Text cfg) (carried_data cfg)" "length payload \<le> (if a = smsAlphabetGSM7 then 160 else 140)"
  | (multi) a chunks pieces where "EncodePDUs cfg n = buildMultipartPDUs cfg a chunks n" "piecewise a chunks pieces"
      "concat (map fst pieces) = mc_Text cfg" "concat (map snd pieces) = carried_data cfg" "pieces \<noteq> []"
proof (cases "mc_Text cfg = []")
  case True
  show ?thesis
  proof (cases "length (mc_Data cfg) \<le> 140")
    case short: True
    with True show ?thesis
      by (intro single [of smsAlphabetBinary "mc_Data cfg"])
        (simp_all add: EncodePDUs_def encodeBinaryPDUs_def represents_def carried_data_def smsMaxUserDataOctets_def)
  next
    case False
    let ?pieces = "map (\<lambda>c. ([], c)) (splitBinary (mc_Data cfg))"
    have "concat (splitBinary (mc_Data cfg)) = mc_Data cfg" using splitBinary_pieces by blast
    then have ne: "splitBinary (mc_Data cfg) \<noteq> []" using False by auto
    have "list_all2 (\<lambda>c (txt, dat). represents smsAlphabetBinary c txt dat \<and> length c \<le> part_capacity smsAlphabetBinary)
        (splitBinary (mc_Data cfg)) ?pieces"
      using splitBinary_pieces [of "mc_Data cfg"]
      by (auto simp: list_all2_conv_all_nth represents_def part_capacity_def list_all_length)
    then show ?thesis using True False splitBinary_pieces [of "mc_Data cfg"] ne
      by (intro multi [of smsAlphabetBinary "splitBinary (mc_Data cfg)" ?pieces])
        (simp_all add: EncodePDUs_def encodeBinaryPDUs_def carried_data_def smsMaxUserDataOctets_def piecewise_def comp_def concat_eq_Nil_conv)
  qed
next
  case nonempty: False
  have dat: "carried_data cfg = []" using nonempty by (simp add: carried_data_def)
  have np: "gsm7_MarshalBinary (mc_Text cfg) \<noteq> Panic" by (rule gsm7_Marshal_no_panic)
  show ?thesis
  proof (cases "gsm7_MarshalBinary (mc_Text cfg)")
    case (Ret septets)
    have E: "EncodePDUs cfg n = encodeGSM7PDUs cfg n" using nonempty Ret by (simp add: EncodePDUs_def)
    show ?thesis
    proof (cases "length septets \<le> 160")
      case True
      with Ret dat show ?thesis
        by (intro single [of smsAlphabetGSM7 septets])
          (simp_all add: E encodeGSM7PDUs_def represents_def smsGSM7SingleSeptets_def)
    next
      case False
      obtain chunks ts where c: "splitGSM7 (mc_Text cfg) smsGSM7PartSeptets = Ret chunks" "concat ts = mc_Text cfg"
        "list_all2 (\<lambda>c x. gsm7_MarshalBinary x = Ret c \<and> length c \<le> 153) chunks ts" using splitGSM7_pieces [OF Ret] by blast
      have "piecewise smsAlphabetGSM7 chunks (map (\<lambda>x. (x, [])) ts)"
        by (rule piecewise_text) (use c(3) in \<open>simp add: represents_def part_capacity_def\<close>)
      moreover have "ts \<noteq> []" using c(2) nonempty by auto
      moreover have "EncodePDUs cfg n = buildMultipartPDUs cfg smsAlphabetGSM7 chunks n"
        using Ret False c(1) by (simp add: E encodeGSM7PDUs_def smsGSM7SingleSeptets_def)
      ultimately show ?thesis using c(2) dat by (intro multi [of smsAlphabetGSM7 chunks "map (\<lambda>x. (x, [])) ts"]) (simp_all add: comp_def concat_eq_Nil_conv)
    qed
  next
    case (Fail e)
    let ?us = "utf16_encode (mc_Text cfg)"
    have E: "EncodePDUs cfg n = encodeUCS2PDUs cfg n" using nonempty Fail by (simp add: EncodePDUs_def)
    have M: "marshalUTF16 BigEndian (mc_Text cfg) = Ret (be16s ?us)" using assms by (simp add: marshalUTF16_def)
    show ?thesis
    proof (cases "length ?us \<le> 70")
      case True
      with M dat show ?thesis
        by (intro single [of smsAlphabetUCS2 "be16s ?us"])
          (simp_all add: E encodeUCS2PDUs_def represents_def smsUTF16SingleUnits_def length_concat_Put)
    next
      case False
      obtain ts where c: "concat ts = mc_Text cfg"
        "list_all2 (\<lambda>c x. marshalUTF16 BigEndian x = Ret c \<and> length c \<le> 134) (splitUCS2 (be16s ?us)) ts"
        using splitUCS2_pieces assms by (auto simp: utf8_ValidString_def)
      have "piecewise smsAlphabetUCS2 (splitUCS2 (be16s ?us)) (map (\<lambda>x. (x, [])) ts)"
        by (rule piecewise_text) (use c(2) in \<open>simp add: represents_def part_capacity_def\<close>)
      moreover have "ts \<noteq> []" using c(1) nonempty by auto
      moreover have "EncodePDUs cfg n = buildMultipartPDUs cfg smsAlphabetUCS2 (splitUCS2 (be16s ?us)) n"
        using M False by (simp add: E encodeUCS2PDUs_def smsUTF16SingleUnits_def length_concat_Put)
      ultimately show ?thesis using c(1) dat by (intro multi [of smsAlphabetUCS2 "splitUCS2 (be16s ?us)" "map (\<lambda>x. (x, [])) ts"]) (simp_all add: comp_def concat_eq_Nil_conv)
    qed
  qed (use np in simp)
qed

lemma encode_fits:
  assumes "utf8_ValidString (mc_Text cfg)"
  shows "\<exists>pdus. fst (EncodePDUs cfg n) = Ret pdus \<and> pdus \<noteq> [] \<and> list_all (within_140 cfg) pdus"
  using assms
proof (cases rule: EncodePDUs_cases [where n = n])
  case (single a payload)
  have "\<exists>pdu. buildSubmitPDU cfg a payload [] = (Ret pdu :: (text_error, bytes) outcome) \<and> within_140 cfg pdu"
    using submit_fits [OF single(2), of "[]"] single(3) by (auto split: if_splits)
  with single(1) show ?thesis by (fastforce simp: list_all_iff)
next
  case (multi a chunks pieces)
  from multi(2,5) have "chunks \<noteq> []" using piecewise_length by fastforce
  with multipart_fits [OF multi(2), where cfg = cfg and n = n] multi(1) show ?thesis
    by (metis length_0_conv multipart_Ret_iff)
qed

lemma invalid_text_fails:
  assumes "\<not> utf8_ValidString (mc_Text cfg)"
  shows "\<exists>e. EncodePDUs cfg n = (Fail e, n)"
proof -
  have enc: "encodeGSM7Rune r = Some e \<Longrightarrow> valid_rune r" for r e
    by (rule encodeGSM7Rune_valid)
  have "gsm7_MarshalBinary s = Ret bs \<Longrightarrow> list_all valid_rune s" for s bs
    by (induction s arbitrary: bs) (auto split: option.splits dest: enc)
  then have "gsm7_MarshalBinary (mc_Text cfg) \<noteq> Ret bs" for bs using assms by (auto simp: utf8_ValidString_def)
  then obtain e where "gsm7_MarshalBinary (mc_Text cfg) = Fail e"
    using gsm7_Marshal_no_panic by (cases "gsm7_MarshalBinary (mc_Text cfg)") auto
  moreover have "mc_Text cfg \<noteq> []" using assms by (auto simp: utf8_ValidString_def)
  moreover have "marshalUTF16 BigEndian (mc_Text cfg) = Fail InvalidUTF8" using assms by (simp add: marshalUTF16_def)
  ultimately show ?thesis by (simp add: EncodePDUs_def encodeUCS2PDUs_def)
qed

text \<open>C35: encoding is total on valid text: \<open>EncodePDUs\<close> never panics, fails exactly when the text is not
  valid UTF-8, and otherwise returns at least one PDU, each with at most the 140 octets of user
  data that the standard allows, in whichever alphabet was chosen and however long the message is.\<close>

theorem encode_total:
  "(case fst (EncodePDUs cfg n) of
      Panic \<Rightarrow> False
    | Fail e \<Rightarrow> \<not> utf8_ValidString (mc_Text cfg)
    | Ret pdus \<Rightarrow> utf8_ValidString (mc_Text cfg) \<and> pdus \<noteq> [] \<and> list_all (within_140 cfg) pdus)"
proof (cases "utf8_ValidString (mc_Text cfg)")
  case True
  with encode_fits [OF True, of n] show ?thesis by auto
next
  case False
  with invalid_text_fails [OF False, of n] show ?thesis by auto
qed

section \<open>Delivery\<close>

definition delivered :: "MessageConfig \<Rightarrow> bytes list \<Rightarrow> Message \<Rightarrow> bool" where
  "delivered cfg pdus m \<longleftrightarrow>
     ms_Text m = mc_Text cfg \<and> ms_Data m = carried_data cfg \<and> ms_Number m = mc_Number cfg \<and> ms_SMSC m = mc_SMSC cfg
     \<and> ms_DeliveryReport m = mc_DeliveryReport cfg \<and> ms_PDUs m = pdus"

lemma submitted_simps:
  "ms_Text (pt_Message (submitted cfg (ref, tot, idx) txt dat pdu)) = txt"
  "ms_Data (pt_Message (submitted cfg (ref, tot, idx) txt dat pdu)) = dat"
  "ms_Number (pt_Message (submitted cfg (ref, tot, idx) txt dat pdu)) = mc_Number cfg"
  "ms_SMSC (pt_Message (submitted cfg (ref, tot, idx) txt dat pdu)) = mc_SMSC cfg"
  "ms_DeliveryReport (pt_Message (submitted cfg (ref, tot, idx) txt dat pdu)) = mc_DeliveryReport cfg"
  "ms_PDU (pt_Message (submitted cfg (ref, tot, idx) txt dat pdu)) = pdu"
  "ms_PDUs (pt_Message (submitted cfg (ref, tot, idx) txt dat pdu)) = [pdu]"
  "pt_Total (submitted cfg (ref, tot, idx) txt dat pdu) = tot"
  "pt_Index (submitted cfg (ref, tot, idx) txt dat pdu) = idx"
  "pt_Reference (submitted cfg (ref, tot, idx) txt dat pdu) = ref"
  by (simp_all add: submitted_def set_concat_def submit_part_def)

lemma Assemble_single: "pt_Total p \<le> 1 \<Longrightarrow> Assemble [p] = Some (Ret [pt_Message p])"
  by (simp add: Assemble_def Add_def CloneMessage_def)

lemma single_delivered:
  assumes "addresses_ok cfg" "represents a payload (mc_Text cfg) (carried_data cfg)" "length payload \<le> (if a = smsAlphabetGSM7 then 160 else 140)"
    and "bind (buildSubmitPDU cfg a payload []) (\<lambda>pdu. Ret [pdu]) = (Ret pdus :: ('e, bytes list) outcome)"
  shows "\<exists>parts. traverse part_UnmarshalBinary pdus = Ret parts \<and>
    (\<forall>qs. mset qs = mset parts \<longrightarrow> (\<exists>m. Assemble qs = Some (Ret [m]) \<and> delivered cfg pdus m))"
proof -
  have "fits a [] payload" using assms(3) by (simp add: fits_def split: if_splits)
  from submit_roundtrip [where 'e = 'e, OF assms(1) header_reads_none assms(2) this] assms(4)
  obtain pdu where pdu: "pdus = [pdu]" "part_UnmarshalBinary pdu = Ret (submitted cfg (0, 0, 0) (mc_Text cfg) (carried_data cfg) pdu)"
    by auto
  then show ?thesis by (auto simp: delivered_def Assemble_single submitted_simps)
qed

lemma multi_delivered:
  assumes "addresses_ok cfg" "piecewise a chunks pieces" "length chunks \<le> 254" "pieces \<noteq> []"
    and "concat (map fst pieces) = mc_Text cfg" "concat (map snd pieces) = carried_data cfg"
    and "fst (buildMultipartPDUs cfg a chunks n) = (Ret pdus :: ('e, bytes list) outcome)"
  shows "\<exists>parts. traverse part_UnmarshalBinary pdus = Ret parts \<and>
    (\<forall>qs. mset qs = mset parts \<longrightarrow> (\<exists>m. Assemble qs = Some (Ret [m]) \<and> delivered cfg pdus m))"
proof -
  define N where "N = length chunks"
  define ref :: u16 where "ref = ucast (fst (nextConcatReference n))"
  define part where "part i = submitted cfg (ref, of_nat N, of_nat (i + 1)) (fst (pieces ! i)) (snd (pieces ! i)) (pdus ! i)" for i
  define parts where "parts = map part [0..<N]"
  have N: "N \<le> 254" "0 < N" "length pieces = N" "length pdus = N"
    using assms(3,4,7) piecewise_length [OF assms(2)] by (auto simp: N_def multipart_Ret_iff)
  have dec: "part_UnmarshalBinary (pdus ! i) = Ret (part i)" if i: "i < N" for i
  proof -
    let ?h = "concat_header (fst (nextConcatReference n)) N i"
    note pc = piecewise_nth [OF assms(2), of i]
    have "fits a ?h (chunks ! i)" using pc i by (auto simp: fits_def length_concat_header part_capacity_def N_def split: if_splits)
    moreover have "header_reads ?h (ref, of_nat N, of_nat (i + 1))" unfolding ref_def using N i by (intro header_reads_concat) auto
    moreover have "buildSubmitPDU cfg a (chunks ! i) ?h = (Ret (pdus ! i) :: ('e, bytes) outcome)"
      using assms(7) i unfolding multipart_Ret_iff N_def by blast
    ultimately show ?thesis using submit_roundtrip [where 'e = 'e, OF assms(1)] pc i by (fastforce simp: part_def N_def)
  qed
  have tr: "traverse part_UnmarshalBinary pdus = Ret parts" using dec N(4) by (simp add: traverse_eq_Ret_iff parts_def)
  have lists: "concat (map (\<lambda>p. ms_Text (pt_Message p)) parts) = mc_Text cfg" "concat (map (\<lambda>p. ms_Data (pt_Message p)) parts) = carried_data cfg"
    "map (\<lambda>p. ms_PDU (pt_Message p)) parts = pdus"
  proof -
    have "map (\<lambda>p. ms_Text (pt_Message p)) parts = map fst pieces" "map (\<lambda>p. ms_Data (pt_Message p)) parts = map snd pieces"
      "map (\<lambda>p. ms_PDU (pt_Message p)) parts = pdus"
      using N by (auto intro!: nth_equalityI simp: parts_def part_def submitted_simps)
    then show "concat (map (\<lambda>p. ms_Text (pt_Message p)) parts) = mc_Text cfg" "concat (map (\<lambda>p. ms_Data (pt_Message p)) parts) = carried_data cfg"
      "map (\<lambda>p. ms_PDU (pt_Message p)) parts = pdus" using assms(5,6) by simp_all
  qed
  have "\<exists>m. Assemble qs = Some (Ret [m]) \<and> delivered cfg pdus m" if qs: "mset qs = mset parts" for qs
  proof (cases "N = 1")
    case True
    then have p: "parts = [part 0]" by (simp add: parts_def)
    with qs have "qs = [part 0]" by simp
    moreover have "pt_Total (part 0) \<le> 1" using True by (simp add: part_def submitted_simps)
    ultimately have "Assemble qs = Some (Ret [pt_Message (part 0)])" by (simp add: Assemble_single)
    moreover have "delivered cfg pdus (pt_Message (part 0))"
      using lists unfolding p by (simp add: delivered_def part_def submitted_simps)
    ultimately show ?thesis by blast
  next
    case False
    have "complete_group \<lparr>ak_number = mc_Number cfg, ak_ref = ref, ak_total = of_nat N\<rparr> parts"
      using False N by (auto simp: complete_group_def parts_def part_def part_key_def submitted_simps list_all_iff)
    from Assemble_complete [OF this qs] have "Assemble qs = Some (Ret [assembled parts])" .
    moreover have "hd parts = part 0" using N(2) by (simp add: parts_def hd_map hd_upt)
    then have "delivered cfg pdus (assembled parts)"
      using lists by (simp add: delivered_def assembled_def part_def submitted_simps)
    ultimately show ?thesis by blast
  qed
  with tr show ?thesis by blast
qed

text \<open>C4: a message arrives as it was sent: for valid text (or binary data) and addresses made of digits,
  if \<open>EncodePDUs\<close> makes at most 254 PDUs, every PDU decodes, and assembling the decoded parts in any order
  of arrival yields exactly one message, with the text, data, number, service centre and delivery
  flag that were sent and the PDUs in their order. No character is cut between two parts.\<close>

theorem sms_delivery:
  assumes "addresses_ok cfg" "utf8_ValidString (mc_Text cfg)" "EncodePDUs cfg n = (Ret pdus, n')" "length pdus \<le> 254"
  shows "\<exists>parts. traverse part_UnmarshalBinary pdus = Ret parts \<and>
    (\<forall>qs. mset qs = mset parts \<longrightarrow> (\<exists>m. Assemble qs = Some (Ret [m]) \<and> delivered cfg pdus m))"
  using assms(2)
proof (cases rule: EncodePDUs_cases [where n = n])
  case (single a payload)
  with assms(3) show ?thesis by (intro single_delivered [OF assms(1) single(2,3), where 'e = text_error]) auto
next
  case (multi a chunks pieces)
  have pdus: "fst (buildMultipartPDUs cfg a chunks n) = (Ret pdus :: (text_error, bytes list) outcome)" using assms(3) multi(1) by simp
  then have "length chunks \<le> 254" using assms(4) multipart_Ret_iff by metis
  from multi_delivered [OF assms(1) multi(2) this multi(5) multi(3,4) pdus] show ?thesis .
qed

definition example_message :: MessageConfig where
  "example_message =
     \<lparr>mc_Number = [0x2B, 0x34, 0x39, 0x31], mc_SMSC = [], mc_Text = [], mc_Data = replicate 200 0xAB, mc_DeliveryReport = True,
      mc_Storage = MessageStorageUnknown\<rparr>"

theorem sms_delivery_witness:
  "\<exists>pdus n' parts m. EncodePDUs example_message 0 = (Ret pdus, n') \<and> length pdus = 2 \<and>
     traverse part_UnmarshalBinary pdus = Ret parts \<and> Assemble (rev parts) = Some (Ret [m]) \<and> ms_Data m = replicate 200 0xAB"
proof -
  have ok: "addresses_ok example_message" "utf8_ValidString (mc_Text example_message)"
    by (simp_all add: addresses_ok_def phone_def example_message_def normalizeNumber_def digit_def utf8_ValidString_def)
  obtain pdus n' where e: "EncodePDUs example_message 0 = (Ret pdus, n')"
    using encode_fits [OF ok(2), of 0] by (cases "EncodePDUs example_message 0") auto
  have "EncodePDUs example_message 0 = buildMultipartPDUs example_message smsAlphabetBinary (splitBinary (replicate 200 0xAB)) 0"
    by (simp add: EncodePDUs_def encodeBinaryPDUs_def example_message_def smsMaxUserDataOctets_def)
  moreover have "length (splitBinary (replicate 200 (0xAB :: byte))) = 2"
    by (simp add: splitBinary.simps smsBinaryPartOctets_def Let_def)
  ultimately have len: "length pdus = 2" using e multipart_Ret_iff [where 'e = text_error] by (metis fst_conv)
  from sms_delivery [OF ok e] len obtain parts where
    "traverse part_UnmarshalBinary pdus = Ret parts"
    "\<forall>qs. mset qs = mset parts \<longrightarrow> (\<exists>m. Assemble qs = Some (Ret [m]) \<and> delivered example_message pdus m)" by auto
  moreover from this(2) obtain m where "Assemble (rev parts) = Some (Ret [m])" "delivered example_message pdus m"
    by (metis mset_rev)
  ultimately show ?thesis using e len by (auto simp: delivered_def carried_data_def example_message_def)
qed

end
