(* ===== verification/Go_Strings.thy ===== *)
theory Go_Strings
  imports Utf8
begin

text \<open>
  The parts of \<open>strings\<close>, \<open>strconv\<close> and \<open>encoding/hex\<close> that the card and AT code uses, on byte strings:
  hexadecimal, \<open>Atoi\<close>, \<open>Unquote\<close> of double-quoted strings, \<open>Cut\<close>, splitting into lines and upper case.
\<close>

section \<open>Hexadecimal strings\<close>

definition hex_upper :: "byte \<Rightarrow> byte" where
  "hex_upper n = (if n < 10 then 0x30 + n else 0x37 + n)"

definition hex_value :: "byte \<Rightarrow> byte option" where
  "hex_value c =
     (if 0x30 \<le> c \<and> c \<le> 0x39 then Some (c - 0x30)
      else if 0x41 \<le> c \<and> c \<le> 0x46 then Some (c - 0x37)
      else if 0x61 \<le> c \<and> c \<le> 0x66 then Some (c - 0x57)
      else None)"

text \<open>\<open>strings.ToUpper(hex.EncodeToString(data))\<close>.\<close>

definition hex_EncodeUpper :: "bytes \<Rightarrow> bytes" where
  "hex_EncodeUpper data = concat (map (\<lambda>b. [hex_upper (drop_bit 4 b), hex_upper (b AND 0x0F)]) data)"

fun hex_DecodeString :: "bytes \<Rightarrow> bytes option" where
  "hex_DecodeString [] = Some []"
| "hex_DecodeString [a] = None"
| "hex_DecodeString (a # b # s) =
     (case (hex_value a, hex_value b, hex_DecodeString s) of
        (Some x, Some y, Some rest) \<Rightarrow> Some ((push_bit 4 x OR y) # rest)
      | _ \<Rightarrow> None)"

lemma nibble_small: "unat (x :: byte) < 16 \<Longrightarrow> x AND mask 4 = x"
  using and_mask_small [of x 4] by simp

lemma hex_value_small: "hex_value c = Some x \<Longrightarrow> x AND mask 4 = x"
  by (rule nibble_small) (auto simp: hex_value_def word_le_nat_alt unat_sub split: if_splits)

text \<open>The characters that stand for themselves: decimal digits and upper-case letters A to F.\<close>

definition hex_canonical :: "byte \<Rightarrow> bool" where
  "hex_canonical c = (0x30 \<le> c \<and> c \<le> 0x39 \<or> 0x41 \<le> c \<and> c \<le> 0x46)"

lemma hex_upper_value: "hex_canonical c \<Longrightarrow> \<exists>x. hex_value c = Some x \<and> hex_upper x = c"
  by (auto simp: hex_canonical_def hex_value_def hex_upper_def word_le_nat_alt word_less_nat_alt unat_sub)

lemma hex_Decode_canonical:
  "list_all hex_canonical s \<Longrightarrow> length s mod 2 = 0 \<Longrightarrow> \<exists>data. hex_DecodeString s = Some data \<and> hex_EncodeUpper data = s"
proof (induction s rule: hex_DecodeString.induct)
  case (3 a b s)
  then obtain data where d: "hex_DecodeString s = Some data" "hex_EncodeUpper data = s" by auto
  obtain x y where x: "hex_value a = Some x" "hex_upper x = a" and y: "hex_value b = Some y" "hex_upper y = b"
    using hex_upper_value [of a] hex_upper_value [of b] 3(2) by auto
  note join = nibble_join [OF hex_value_small [OF y(1)] hex_value_small [OF x(1)]]
  with d x y show ?case by (simp add: hex_EncodeUpper_def)
qed (simp_all add: hex_EncodeUpper_def)

lemma length_hex_EncodeUpper: "length (hex_EncodeUpper data) = 2 * length data"
  by (induction data) (simp_all add: hex_EncodeUpper_def)

section \<open>Searching and splitting\<close>

text \<open>\<open>strings.Cut\<close> at the first occurrence of a byte: the parts before and after, and whether it occurs.\<close>

definition Cut :: "byte \<Rightarrow> bytes \<Rightarrow> bytes \<times> bytes \<times> bool" where
  "Cut c s =
     (if c \<in> set s then (takeWhile (\<lambda>x. x \<noteq> c) s, drop 1 (dropWhile (\<lambda>x. x \<noteq> c) s), True) else (s, [], False))"

definition CutPrefix :: "bytes \<Rightarrow> bytes \<Rightarrow> bytes option" where
  "CutPrefix p s = (if take (length p) s = p then Some (drop (length p) s) else None)"

fun split_on :: "byte \<Rightarrow> bytes \<Rightarrow> bytes list" where
  "split_on c [] = [[]]"
| "split_on c (x # xs) = (if x = c then [] # split_on c xs else (case split_on c xs of y # ys \<Rightarrow> (x # y) # ys | [] \<Rightarrow> [[x]]))"

text \<open>\<open>strings.ToUpper\<close> as far as a comparison with an ASCII string can tell: besides the ASCII letters, the
  dotless i (0131) and the long s (017F) have ASCII capitals.\<close>

definition upper_rune :: "rune \<Rightarrow> rune" where
  "upper_rune r = (if 0x61 \<le> r \<and> r \<le> 0x7A then r - 0x20 else if r = 0x131 then 0x49 else if r = 0x17F then 0x53 else r)"

definition ToUpper :: "bytes \<Rightarrow> rune list" where
  "ToUpper s = map upper_rune (utf8_runes s)"

section \<open>Numbers\<close>

fun Itoa :: "nat \<Rightarrow> bytes" where
  "Itoa n = (if n < 10 then [of_nat (0x30 + n)] else Itoa (n div 10) @ [of_nat (0x30 + n mod 10)])"

declare Itoa.simps [simp del]

definition digit_value :: "byte \<Rightarrow> nat" where
  "digit_value c = unat c - 0x30"

definition is_digit :: "byte \<Rightarrow> bool" where
  "is_digit c \<longleftrightarrow> 0x30 \<le> c \<and> c \<le> 0x39"

definition digits_value :: "bytes \<Rightarrow> nat" where
  "digits_value ds = foldl (\<lambda>n d. 10 * n + digit_value d) 0 ds"

text \<open>\<open>strconv.Atoi\<close> with a 64-bit \<open>int\<close>.\<close>

definition Atoi :: "bytes \<Rightarrow> int option" where
  "Atoi s =
     (let neg = (take 1 s = [0x2D]); ds = (if neg \<or> take 1 s = [0x2B] then drop 1 s else s); n = int (digits_value ds) in
      if ds = [] \<or> \<not> list_all is_digit ds then None
      else if neg then (if n \<le> 2 ^ 63 then Some (- n) else None)
      else if n < 2 ^ 63 then Some n else None)"

section \<open>Quoted strings\<close>

definition hex_number :: "bytes \<Rightarrow> nat option" where
  "hex_number s =
     (if list_all (\<lambda>c. hex_value c \<noteq> None) s
      then Some (foldl (\<lambda>n c. 16 * n + unat (the (hex_value c))) 0 s) else None)"

text \<open>\<open>strconv.UnquoteChar\<close> with the double quote as delimiter: the value, whether it is a multibyte rune, and
  the rest.\<close>

definition simple_escape :: "byte \<Rightarrow> nat option" where
  "simple_escape c =
     map_of [(0x61, 0x07), (0x62, 0x08), (0x66, 0x0C), (0x6E, 0x0A), (0x72, 0x0D), (0x74, 0x09), (0x76, 0x0B), (0x5C, 0x5C), (0x22, 0x22)] c"

definition unquote_escape :: "byte \<Rightarrow> bytes \<Rightarrow> (rune \<times> bool \<times> bytes) option" where
  "unquote_escape c s =
     (case simple_escape c of
        Some v \<Rightarrow> Some (v, False, s)
      | None \<Rightarrow>
          if c = 0x78 \<or> c = 0x75 \<or> c = 0x55 then
            (let n = (if c = 0x78 then 2 else if c = 0x75 then 4 else 8) in
             if length s < n then None
             else case hex_number (take n s) of
                 None \<Rightarrow> None
               | Some v \<Rightarrow> if c = 0x78 then Some (v, False, drop n s)
                           else if valid_rune v then Some (v, True, drop n s) else None)
          else if 0x30 \<le> c \<and> c \<le> 0x37 then
            (if length s < 2 \<or> \<not> list_all (\<lambda>d. 0x30 \<le> d \<and> d \<le> 0x37) (take 2 s) then None
             else let v = 64 * digit_value c + 8 * digit_value (s ! 0) + digit_value (s ! 1) in
               if v > 255 then None else Some (v, False, drop 2 s))
          else None)"

fun unquote_char :: "bytes \<Rightarrow> (rune \<times> bool \<times> bytes) option" where
  "unquote_char [] = None"
| "unquote_char (c # s) =
     (if c = 0x22 then None
      else if unat c \<ge> 0x80 then
        (case utf8_DecodeRune (c # s) of Some (r, n) \<Rightarrow> Some (r, True, drop n (c # s)) | None \<Rightarrow> Some (replacement, True, s))
      else if c \<noteq> 0x5C then Some (unat c, False, s)
      else (case s of [] \<Rightarrow> None | e # s' \<Rightarrow> unquote_escape e s'))"

lemma unquote_char_shorter: "unquote_char s = Some (r, m, rest) \<Longrightarrow> length rest < length s"
  by (cases s) (auto simp: unquote_escape_def Let_def split: if_splits option.splits list.splits dest: utf8_DecodeRune_width)

text \<open>The characters up to the closing quote, which has to be the last one.\<close>

function unquote_body :: "bytes \<Rightarrow> bytes option" where
  "unquote_body s =
     (case s of
        [] \<Rightarrow> None
      | c # rest \<Rightarrow>
          if c = 0x22 then (if rest = [] then Some [] else None)
          else if c = 0x0A then None
          else (case unquote_char s of
                  None \<Rightarrow> None
                | Some (r, multibyte, rest) \<Rightarrow>
                    map_option (\<lambda>out. (if r < 0x80 \<or> \<not> multibyte then [of_nat r] else utf8_encode_rune r) @ out) (unquote_body rest)))"
  by pat_completeness auto
termination
  by (relation "measure length") (auto dest: unquote_char_shorter simp del: unquote_char.simps)

declare unquote_body.simps [simp del]

definition Unquote :: "bytes \<Rightarrow> bytes option" where
  "Unquote s = (if length s < 2 then None else unquote_body (drop 1 s))"

section \<open>ASCII strings\<close>

lemma utf8_segments_ascii: "list_all (\<lambda>b. unat b < 0x80) bs \<Longrightarrow> utf8_segments bs = map (\<lambda>b. (Some (unat b), [b])) bs"
proof (induction bs)
  case (Cons b bs)
  then have "utf8_DecodeRune (b # bs) = Some (unat b, 1)" by (simp add: utf8_DecodeRune_Cons)
  from utf8_segments_Some [OF this] Cons show ?case by simp
qed simp

lemma TrimSpace_ascii:
  assumes "list_all (\<lambda>b. unat b < 0x80) bs" "bs \<noteq> []" "\<not> IsSpace (unat (hd bs))" "\<not> IsSpace (unat (last bs))"
  shows "TrimSpace bs = bs"
proof -
  let ?f = "\<lambda>b. (Some (unat b), [b])"
  have "dropWhile space_segment (map ?f bs) = map ?f bs" using assms(2,3) by (cases bs) (simp_all add: space_segment_def)
  moreover have "dropWhile space_segment (rev (map ?f bs)) = rev (map ?f bs)"
    using assms(2,4) by (cases bs rule: rev_cases) (simp_all add: space_segment_def)
  ultimately show ?thesis unfolding TrimSpace_def utf8_segments_ascii [OF assms(1)] by (simp add: comp_def)
qed

lemma TrimSpace_crlf:
  assumes "list_all (\<lambda>b. unat b < 0x80) bs" "bs \<noteq> []" "\<not> IsSpace (unat (hd bs))" "\<not> IsSpace (unat (last bs))"
  shows "TrimSpace (bs @ [0x0D, 0x0A]) = bs"
proof -
  let ?f = "\<lambda>b. (Some (unat b), [b])"
  have "list_all (\<lambda>b. unat b < 0x80) (bs @ [0x0D, 0x0A])" using assms(1) by simp
  note seg = utf8_segments_ascii [OF this]
  have "dropWhile space_segment (map ?f (bs @ [0x0D, 0x0A])) = map ?f (bs @ [0x0D, 0x0A])"
    using assms(2,3) by (cases bs) (simp_all add: space_segment_def)
  moreover have "dropWhile space_segment (rev (map ?f (bs @ [0x0D, 0x0A]))) = rev (map ?f bs)"
  proof -
    have "IsSpace 0x0D" "IsSpace 0x0A" by (simp_all add: IsSpace_def)
    then show ?thesis using assms(2,4) by (cases bs rule: rev_cases) (simp_all add: space_segment_def)
  qed
  ultimately show ?thesis unfolding TrimSpace_def seg by (simp add: comp_def)
qed

section \<open>Lemmas\<close>

lemma digit_of_nat: "n < 10 \<Longrightarrow> is_digit (of_nat (0x30 + n)) \<and> digit_value (of_nat (0x30 + n)) = n"
  using byte_of_nat [of "0x30 + n"] by (simp add: is_digit_def digit_value_def word_le_nat_alt del: of_nat_add)

lemma Itoa_digits: "Itoa n \<noteq> [] \<and> list_all is_digit (Itoa n) \<and> digits_value (Itoa n) = n"
proof (induction n rule: Itoa.induct)
  case (1 n)
  show ?case
  proof (cases "n < 10")
    case True
    then show ?thesis using digit_of_nat [OF True] by (subst (1 2 3) Itoa.simps) (simp add: digits_value_def del: of_nat_add)
  next
    case False
    have "n mod 10 < 10" by simp
    note digit_of_nat [OF this]
    with 1 False show ?thesis by (subst (1 2 3) Itoa.simps) (simp add: digits_value_def del: of_nat_add)
  qed
qed

lemma Atoi_Itoa: "n < 2 ^ 63 \<Longrightarrow> Atoi (Itoa n) = Some (int n)"
proof -
  assume "n < 2 ^ 63"
  then have "int n < 2 ^ 63" by (metis of_nat_less_iff of_nat_numeral of_nat_power)
  moreover obtain d ds where d: "Itoa n = d # ds" using Itoa_digits [of n] by (cases "Itoa n") auto
  then have "is_digit d" using Itoa_digits [of n] by simp
  then have "d \<noteq> 0x2D" "d \<noteq> 0x2B" by (auto simp: is_digit_def)
  ultimately show ?thesis using Itoa_digits [of n] d by (simp add: Atoi_def Let_def)
qed

lemma unquote_body_plain:
  "list_all (\<lambda>c. unat c < 0x80 \<and> c \<noteq> 0x22 \<and> c \<noteq> 0x5C \<and> c \<noteq> 0x0A) s \<Longrightarrow> unquote_body (s @ [0x22]) = Some s"
proof (induction s)
  case Nil
  show ?case by (simp add: unquote_body.simps)
next
  case (Cons c s)
  then show ?case by (subst unquote_body.simps) simp
qed

lemma hex_nibble:
  "unat (n :: byte) < 16 \<Longrightarrow> hex_value (hex_upper n) = Some n \<and> hex_canonical (hex_upper n)"
  by (auto simp: hex_value_def hex_upper_def hex_canonical_def word_le_nat_alt word_less_nat_alt unat_word_ariths word_unat_eq_iff unat_sub_if')

lemma unat_drop4: "unat (drop_bit 4 (b :: byte)) < 16"
proof -
  have "unat b div 16 < 16" using unat_byte_lt [of b] by linarith
  then show ?thesis by (simp add: drop_bit_eq_div unat_div)
qed

lemma unat_and15: "unat (b AND 0x0F :: byte) < 16"
proof -
  have "b AND 0x0F \<le> (0x0F :: byte)" by (rule word_and_le1)
  then show ?thesis by (simp add: word_le_nat_alt)
qed

lemma hex_Encode_Decode: "hex_DecodeString (hex_EncodeUpper data) = Some data"
proof (induction data)
  case (Cons b data)
  have "push_bit 4 (drop_bit 4 b) OR (b AND 0x0F) = b"
  proof -
    have m: "(0x0F :: byte) = mask 4" by (simp add: mask_eq_exp_minus_1)
    show ?thesis unfolding m by (rule bit_word_eqI) (auto simp: bit_simps)
  qed
  with Cons hex_nibble [OF unat_drop4 [of b]] hex_nibble [OF unat_and15 [of b]] show ?case
    by (simp add: hex_EncodeUpper_def)
qed (simp add: hex_EncodeUpper_def)

lemma hex_Encode_canonical: "list_all hex_canonical (hex_EncodeUpper data)"
  by (induction data) (simp_all add: hex_EncodeUpper_def hex_nibble [OF unat_drop4] hex_nibble [OF unat_and15])

end
