(* ===== verification/Actions.thy ===== *)
theory Actions
  imports Prelude
begin

text \<open>
  Operations that pass a state along: an action takes the state and gives an outcome with the new
  state, or \<open>None\<close> while it has not returned (its fuel ran out). Errors and panics end a sequence.
\<close>

section \<open>Actions\<close>

type_synonym ('r, 'e, 'a) action = "'r \<Rightarrow> (('e, 'a) outcome \<times> 'r) option"

definition done_with :: "'a \<Rightarrow> ('r, 'e, 'a) action" where
  "done_with x = (\<lambda>r. Some (Ret x, r))"

definition raise :: "'e \<Rightarrow> ('r, 'e, 'a) action" where
  "raise e = (\<lambda>r. Some (Fail e, r))"

definition and_then :: "('r, 'e, 'a) action \<Rightarrow> ('a \<Rightarrow> ('r, 'e, 'b) action) \<Rightarrow> ('r, 'e, 'b) action" where
  "and_then m f = (\<lambda>r.
     case m r of
       None \<Rightarrow> None
     | Some (Ret x, r') \<Rightarrow> f x r'
     | Some (Fail e, r') \<Rightarrow> Some (Fail e, r')
     | Some (Panic, r') \<Rightarrow> Some (Panic, r'))"

definition lifted :: "('f \<Rightarrow> 'e) \<Rightarrow> ('f, 'a) outcome \<Rightarrow> ('r, 'e, 'a) action" where
  "lifted h m = (\<lambda>r. Some (map_err h m, r))"

definition unless :: "bool \<Rightarrow> 'e \<Rightarrow> ('r, 'e, 'a) action \<Rightarrow> ('r, 'e, 'a) action" where
  "unless c e k = (if c then raise e else k)"

fun map_actions :: "('a \<Rightarrow> ('r, 'e, 'b) action) \<Rightarrow> 'a list \<Rightarrow> ('r, 'e, 'b list) action" where
  "map_actions f [] = done_with []"
| "map_actions f (x # xs) = and_then (f x) (\<lambda>y. and_then (map_actions f xs) (\<lambda>ys. done_with (y # ys)))"

text \<open>Going on after an error: \<open>attempt m\<close> gives the error as a value.\<close>

definition attempt :: "('r, 'e, 'a) action \<Rightarrow> ('r, 'f, ('e, 'a) outcome) action" where
  "attempt m = (\<lambda>r.
     case m r of
       None \<Rightarrow> None
     | Some (Panic, r') \<Rightarrow> Some (Panic, r')
     | Some (res, r') \<Rightarrow> Some (Ret res, r'))"

definition map_action_err :: "('e \<Rightarrow> 'f) \<Rightarrow> ('r, 'e, 'a) action \<Rightarrow> ('r, 'f, 'a) action" where
  "map_action_err h m = (\<lambda>r. map_option (\<lambda>(res, r'). (map_err h res, r')) (m r))"

definition get :: "('r, 'e, 'r) action" where
  "get r = Some (Ret r, r)"

definition modify :: "('r \<Rightarrow> 'r) \<Rightarrow> ('r, 'e, unit) action" where
  "modify f r = Some (Ret (), f r)"

text \<open>A deferred clean-up runs whatever the outcome.\<close>

definition deferring :: "('r \<Rightarrow> 'r) \<Rightarrow> ('r, 'e, 'a) action \<Rightarrow> ('r, 'e, 'a) action" where
  "deferring g m r = (case m r of None \<Rightarrow> None | Some (res, r') \<Rightarrow> Some (res, g r'))"

section \<open>Reasoning\<close>

text \<open>Partial correctness of the value, absence of panics, and return.\<close>

definition yields :: "('r, 'e, 'a) action \<Rightarrow> ('a \<Rightarrow> bool) \<Rightarrow> bool" where
  "yields m Q \<longleftrightarrow> (\<forall>r x r'. m r = Some (Ret x, r') \<longrightarrow> Q x)"

definition calm :: "('r, 'e, 'a) action \<Rightarrow> bool" where
  "calm m \<longleftrightarrow> (\<forall>r r'. m r \<noteq> Some (Panic, r'))"

definition returns :: "('r, 'e, 'a) action \<Rightarrow> bool" where
  "returns m \<longleftrightarrow> (\<forall>r. m r \<noteq> None)"

lemma yields_done: "Q x \<Longrightarrow> yields (done_with x) Q"
  by (simp add: yields_def done_with_def)

lemma yields_raise: "yields (raise e) Q"
  by (simp add: yields_def raise_def)

lemma yields_lifted: "(\<And>x. m = Ret x \<Longrightarrow> Q x) \<Longrightarrow> yields (lifted h m) Q"
  by (auto simp: yields_def lifted_def)

lemma yields_unless: "(\<not> c \<Longrightarrow> yields k Q) \<Longrightarrow> yields (unless c e k) Q"
  by (simp add: unless_def yields_raise)

lemma yields_and_then: "yields m P \<Longrightarrow> (\<And>x. P x \<Longrightarrow> yields (f x) Q) \<Longrightarrow> yields (and_then m f) Q"
  by (fastforce simp: yields_def and_then_def split: option.splits outcome.splits)

lemma yields_attempt: "yields m P \<Longrightarrow> yields (attempt m) (\<lambda>res. \<forall>x. res = Ret x \<longrightarrow> P x)"
  by (fastforce simp: yields_def attempt_def split: option.splits outcome.splits prod.splits)

lemma yields_True: "yields m (\<lambda>_. True)"
  by (simp add: yields_def)

lemma yields_map_err: "yields m Q \<Longrightarrow> yields (map_action_err h m) Q"
  by (auto simp: yields_def map_action_err_def)

lemma calm_done [simp]: "calm (done_with x)"
  by (simp add: calm_def done_with_def)

lemma calm_raise [simp]: "calm (raise e)"
  by (simp add: calm_def raise_def)

lemma calm_lifted: "m \<noteq> Panic \<Longrightarrow> calm (lifted h m)"
  by (auto simp: calm_def lifted_def)

lemma calm_unless: "(\<not> c \<Longrightarrow> calm k) \<Longrightarrow> calm (unless c e k)"
  by (simp add: unless_def)

lemma calm_and_then: "calm m \<Longrightarrow> (\<And>x. calm (f x)) \<Longrightarrow> calm (and_then m f)"
  by (fastforce simp: calm_def and_then_def split: option.splits outcome.splits prod.splits)

lemma calm_attempt: "calm m \<Longrightarrow> calm (attempt m)"
  by (fastforce simp: calm_def attempt_def split: option.splits outcome.splits prod.splits)

text \<open>Going on after an error; an attempt never gives a panic as its value.\<close>

lemma calm_after_attempt:
  assumes "calm m" "\<And>x. calm (f x)" "\<And>e. calm (g e)"
  shows "calm (and_then (attempt m) (\<lambda>res. case res of Ret x \<Rightarrow> f x | Fail e \<Rightarrow> g e | Panic \<Rightarrow> h))"
  using assms by (fastforce simp: calm_def and_then_def attempt_def split: option.splits outcome.splits prod.splits)

lemma calm_map_err: "calm m \<Longrightarrow> calm (map_action_err h m)"
  by (auto simp: calm_def map_action_err_def)

lemma returns_done [simp]: "returns (done_with x)"
  by (simp add: returns_def done_with_def)

lemma returns_raise [simp]: "returns (raise e)"
  by (simp add: returns_def raise_def)

lemma returns_lifted [simp]: "returns (lifted h m)"
  by (simp add: returns_def lifted_def)

lemma returns_unless: "(\<not> c \<Longrightarrow> returns k) \<Longrightarrow> returns (unless c e k)"
  by (simp add: unless_def)

lemma returns_and_then: "returns m \<Longrightarrow> (\<And>x. returns (f x)) \<Longrightarrow> returns (and_then m f)"
  by (fastforce simp: returns_def and_then_def split: option.splits outcome.splits prod.splits)

lemma returns_attempt: "returns m \<Longrightarrow> returns (attempt m)"
  by (fastforce simp: returns_def attempt_def split: option.splits outcome.splits prod.splits)

lemma returns_map_err: "returns m \<Longrightarrow> returns (map_action_err h m)"
  by (simp add: returns_def map_action_err_def)

lemma returnsD: "returns m \<Longrightarrow> m r \<noteq> None"
  by (simp add: returns_def)

lemma calm_map: "(\<And>x. calm (f x)) \<Longrightarrow> calm (map_actions f xs)"
  by (induction xs) (auto intro!: calm_and_then)

lemma returns_map: "(\<And>x. returns (f x)) \<Longrightarrow> returns (map_actions f xs)"
  by (induction xs) (auto intro!: returns_and_then)

lemma yields_map_length: "yields (map_actions f xs) (\<lambda>ys. length ys = length xs)"
proof (induction xs)
  case (Cons x xs)
  show ?case by (auto intro!: yields_and_then [OF yields_True] yields_and_then [OF Cons] yields_done)
qed (simp add: yields_done)

lemma and_then_done [simp]: "and_then m done_with = m"
  by (auto simp: and_then_def done_with_def fun_eq_iff split: option.splits outcome.splits prod.splits)

lemma done_and_then [simp]: "and_then (done_with x) f = f x"
  by (simp add: and_then_def done_with_def)

lemma and_then_assoc: "and_then (and_then m f) g = and_then m (\<lambda>x. and_then (f x) g)"
  by (auto simp: and_then_def fun_eq_iff split: option.splits outcome.splits prod.splits)

lemmas calm_intros = calm_done calm_raise calm_lifted calm_unless calm_and_then calm_attempt calm_map_err calm_map
lemmas returns_intros = returns_done returns_raise returns_lifted returns_unless returns_and_then returns_attempt returns_map_err returns_map

lemma and_then_Ret:
  assumes "and_then m f r = Some (Ret y, r')"
  obtains x r1 where "m r = Some (Ret x, r1)" "f x r1 = Some (Ret y, r')"
  using assms by (auto simp: and_then_def split: option.splits outcome.splits)

text \<open>Weakest preconditions over outcome and state; an action that has not returned satisfies any.\<close>

named_theorems wp_simps \<open>weakest preconditions of the action combinators\<close>

definition wp :: "('r, 'e, 'a) action \<Rightarrow> (('e, 'a) outcome \<Rightarrow> 'r \<Rightarrow> bool) \<Rightarrow> 'r \<Rightarrow> bool" where
  "wp m Q r = (case m r of None \<Rightarrow> True | Some (res, r') \<Rightarrow> Q res r')"

lemma wp_done [wp_simps]: "wp (done_with x) Q r = Q (Ret x) r"
  by (simp add: wp_def done_with_def)

lemma wp_raise [wp_simps]: "wp (raise e) Q r = Q (Fail e) r"
  by (simp add: wp_def raise_def)

lemma wp_lifted [wp_simps]: "wp (lifted h m) Q r = Q (map_err h m) r"
  by (simp add: wp_def lifted_def)

lemma wp_unless [wp_simps]: "wp (unless c e k) Q r = (if c then Q (Fail e) r else wp k Q r)"
  by (simp add: wp_def raise_def unless_def)

lemma wp_and_then [wp_simps]:
  "wp (and_then m f) Q r = wp m (\<lambda>res r'. case res of Ret x \<Rightarrow> wp (f x) Q r' | Fail e \<Rightarrow> Q (Fail e) r' | Panic \<Rightarrow> Q Panic r') r"
  by (auto simp: wp_def and_then_def split: option.splits outcome.splits prod.splits)

lemma wp_attempt [wp_simps]:
  "wp (attempt m) Q r = wp m (\<lambda>res r'. case res of Ret x \<Rightarrow> Q (Ret (Ret x)) r' | Fail e \<Rightarrow> Q (Ret (Fail e)) r' | Panic \<Rightarrow> Q Panic r') r"
  by (auto simp: wp_def attempt_def split: option.splits outcome.splits prod.splits)

lemma wp_map_err [wp_simps]: "wp (map_action_err h m) Q r = wp m (\<lambda>res. Q (map_err h res)) r"
  by (auto simp: wp_def map_action_err_def split: option.splits)

lemma wp_get [wp_simps]: "wp get Q r = Q (Ret r) r"
  by (simp add: wp_def get_def)

lemma wp_modify [wp_simps]: "wp (modify f) Q r = Q (Ret ()) (f r)"
  by (simp add: wp_def modify_def)

lemma wp_deferring [wp_simps]: "wp (deferring g m) Q r = wp m (\<lambda>res r'. Q res (g r')) r"
  by (auto simp: wp_def deferring_def split: option.splits)

lemma wp_mono: "wp m P r \<Longrightarrow> (\<And>res r'. P res r' \<Longrightarrow> Q res r') \<Longrightarrow> wp m Q r"
  by (auto simp: wp_def split: option.splits)

lemma wp_conj: "wp m P r \<Longrightarrow> wp m Q r \<Longrightarrow> wp m (\<lambda>res r'. P res r' \<and> Q res r') r"
  by (auto simp: wp_def split: option.splits)

lemma calm_wp: "(\<And>r. wp m (\<lambda>res _. res \<noteq> Panic) r) \<Longrightarrow> calm m"
  unfolding calm_def wp_def by (metis (mono_tags, lifting) case_prod_conv option.simps(5))

lemma wpD: "wp m Q r \<Longrightarrow> m r = Some (res, r') \<Longrightarrow> Q res r'"
  by (simp add: wp_def)

end
