(* ===== verification/Sim_File.thy ===== *)
theory Sim_File
  imports Go_Strings Ber_Tlv
begin

text \<open>
  The elementary files of a SIM card (\<^verbatim>\<open>sim/simfile\<close>): swapped-nibble digit strings, ICCID, IMSI,
  dialling addresses, the service centre of EF_SMSP, the service provider name, file control
  information and EF_DIR records. A Go string is its bytes.
\<close>

section \<open>Errors\<close>

datatype sim_error =
    BCDText
  | TooShort
  | NonDecimal
  | PayloadTooLong
  | EmptyPayload
  | TruncatedPayload
  | MNCLengthUnavailable
  | MNCLengthInvalid
  | AddressEmpty
  | MalformedRecord
  | OddUCS2
  | MissingValue
  | MissingDescriptor
  | DescriptorLength
  | FileLengthEncoding
  | AIDEmpty
  | MalformedResponse
  | TLVMarshal "unit ber_write_error"
  | TLVError ber_error

section \<open>BCD\<close>

definition swap_nibbles :: "byte \<Rightarrow> byte" where
  "swap_nibbles b = (drop_bit 4 b OR push_bit 4 b)"

definition TrimRight :: "byte \<Rightarrow> bytes \<Rightarrow> bytes" where
  "TrimRight c s = rev (dropWhile (\<lambda>x. x = c) (rev s))"

definition bcd_String :: "bytes \<Rightarrow> bytes" where
  "bcd_String bcd = TrimRight 0x46 (hex_EncodeUpper (map swap_nibbles bcd))"

definition bcd_UnmarshalText :: "bytes \<Rightarrow> (sim_error, bytes) outcome" where
  "bcd_UnmarshalText text =
     (let val = (if length text mod 2 \<noteq> 0 then text @ [0x46] else text) in
      case hex_DecodeString val of
        None \<Rightarrow> Fail BCDText
      | Some data \<Rightarrow> Ret (map swap_nibbles data))"

definition validateDigits :: "bytes \<Rightarrow> nat \<Rightarrow> (sim_error, unit) outcome" where
  "validateDigits val minLength =
     fail_if (length val < minLength) TooShort
      (fail_if (\<not> list_all (\<lambda>r. 0x30 \<le> r \<and> r \<le> 0x39) (utf8_runes val)) NonDecimal (Ret ()))"

section \<open>Identities\<close>

definition iccid_MarshalBinary :: "bytes \<Rightarrow> (sim_error, bytes) outcome" where
  "iccid_MarshalBinary i = fail_if (i = []) TooShort (bcd_UnmarshalText i)"

definition iccid_UnmarshalBinary :: "bytes \<Rightarrow> (sim_error, bytes) outcome" where
  "iccid_UnmarshalBinary data = (let digits = bcd_String data in fail_if (digits = []) TooShort (Ret digits))"

definition iccid_MarshalText :: "bytes \<Rightarrow> (sim_error, bytes) outcome" where
  "iccid_MarshalText i = fail_if (i = []) TooShort (bind (bcd_UnmarshalText i) (\<lambda>bcd. Ret (bcd_String bcd)))"

definition iccid_UnmarshalText :: "bytes \<Rightarrow> (sim_error, bytes) outcome" where
  "iccid_UnmarshalText text = fail_if (length text = 0) TooShort (bind (bcd_UnmarshalText text) (\<lambda>bcd. Ret (bcd_String bcd)))"

record IMSI =
  im_Digits :: bytes
  im_MCC :: bytes

definition setDigits :: "bytes \<Rightarrow> (sim_error, IMSI) outcome" where
  "setDigits digits =
     bind (validateDigits digits 6) (\<lambda>_. bind (subslice digits 0 3) (\<lambda>mcc. Ret \<lparr>im_Digits = digits, im_MCC = mcc\<rparr>))"

definition imsi_MarshalBinary :: "IMSI \<Rightarrow> (sim_error, bytes) outcome" where
  "imsi_MarshalBinary i =
     bind (validateDigits (im_Digits i) 6) (\<lambda>_.
     bind (bcd_UnmarshalText (0x39 # im_Digits i)) (\<lambda>body.
       fail_if (length body > 0xFF) PayloadTooLong (Ret (of_nat (length body) # body))))"

definition TrimPrefix :: "byte \<Rightarrow> bytes \<Rightarrow> bytes" where
  "TrimPrefix c s = (case s of x # rest \<Rightarrow> if x = c then rest else s | [] \<Rightarrow> [])"

definition imsi_UnmarshalBinary :: "bytes \<Rightarrow> (sim_error, IMSI) outcome" where
  "imsi_UnmarshalBinary data =
     fail_if (length data = 0) EmptyPayload
      (bind (index data 0) (\<lambda>n. let len = unat n in
        fail_if (length data < len + 1) TruncatedPayload
         (bind (subslice data 1 (1 + len)) (\<lambda>raw. setDigits (TrimPrefix 0x39 (bcd_String raw))))))"

definition imsi_MarshalText :: "IMSI \<Rightarrow> (sim_error, bytes) outcome" where
  "imsi_MarshalText i = bind (validateDigits (im_Digits i) 6) (\<lambda>_. Ret (im_Digits i))"

definition imsi_UnmarshalText :: "bytes \<Rightarrow> (sim_error, IMSI) outcome" where
  "imsi_UnmarshalText text = setDigits text"

text \<open>EF_AD: the length of the mobile network code.\<close>

definition ad_UnmarshalBinary :: "bytes \<Rightarrow> (sim_error, nat) outcome" where
  "ad_UnmarshalBinary data =
     fail_if (length data < 4) TruncatedPayload
      (bind (index data 3) (\<lambda>b.
        if b AND 0x0F = 0x02 \<or> b AND 0x0F = 0x03 then Ret (unat (b AND 0x0F))
        else if b AND 0x0F = 0x00 then Fail MNCLengthUnavailable
        else Fail MNCLengthInvalid))"

section \<open>Addresses\<close>

text \<open>The separators that \<open>NewReplacer\<close> removes: space, hyphen and parentheses.\<close>

definition separator :: "byte \<Rightarrow> bool" where
  "separator c \<longleftrightarrow> c \<in> {0x20, 0x2D, 0x28, 0x29}"

definition address_MarshalBinary :: "bytes \<Rightarrow> (sim_error, bytes) outcome" where
  "address_MarshalBinary a =
     (let val = TrimSpace a in
      if val = [] then Ret []
      else let intl = (hd val = 0x2B);
               tonNPI = (if intl then 0x91 else 0x81);
               val = filter (\<lambda>c. \<not> separator c) (if intl then TrimPrefix 0x2B val else val)
           in fail_if (val = []) AddressEmpty
               (bind (validateDigits val 1) (\<lambda>_. bind (bcd_UnmarshalText val) (\<lambda>body. Ret (tonNPI # body)))))"

definition address_UnmarshalBinary :: "bytes \<Rightarrow> (sim_error, bytes) outcome" where
  "address_UnmarshalBinary data =
     (if length data = 0 then Ret []
      else bind (subslice data 1 (length data)) (\<lambda>raw. let digits = bcd_String raw in
        bind (validateDigits digits 0) (\<lambda>_.
          if digits = [] then Ret []
          else bind (index data 0) (\<lambda>ton. Ret (if ton = 0x91 then 0x2B # digits else digits)))))"

text \<open>EF_SMSP: the result is the new value of the receiver, whose old value is kept when the address
  in the record is empty.\<close>

definition smsc_UnmarshalBinary :: "bytes \<Rightarrow> bytes \<Rightarrow> (sim_error, bytes) outcome" where
  "smsc_UnmarshalBinary old data =
     fail_if (length data < 28 \<or> length data - 28 + 26 > length data) MalformedRecord
      (bind (subslice data (length data - 28 + 13) (length data - 28 + 25)) (\<lambda>sca.
        if length sca < 2 then Ret []
        else bind (index sca 0) (\<lambda>n. let len = unat n in
          if len \<le> 1 \<or> len + 1 > length sca then Ret []
          else bind (index sca 1) (\<lambda>ton.
            if ton \<noteq> 0x91 then Ret []
            else bind (subslice sca 1 (len + 1)) (\<lambda>raw. bind (address_UnmarshalBinary raw) (\<lambda>address.
              Ret (if address = [] then old else address)))))))"

section \<open>Texts\<close>

definition trimFF :: "bytes \<Rightarrow> bytes" where
  "trimFF data = TrimRight 0xFF data"

fun be16_units :: "bytes \<Rightarrow> u16 list" where
  "be16_units (a # b # data) = (push_bit 8 (ucast a) OR ucast b) # be16_units data"
| "be16_units _ = []"

definition spn_UnmarshalBinary :: "bytes \<Rightarrow> (sim_error, bytes) outcome" where
  "spn_UnmarshalBinary data =
     fail_if (length data < 2) TooShort
      (bind (subslice data 1 (length data)) (\<lambda>raw.
        let data = trimFF raw in
        if length data = 0 then Ret []
        else bind (index data 0) (\<lambda>b.
          if b \<noteq> 0x80 then Ret (TrimSpace data)
          else bind (subslice data 1 (length data)) (\<lambda>data.
            fail_if (length data mod 2 \<noteq> 0) OddUCS2
             (Ret (TrimSpace (utf8_encode (utf16_decode (be16_units data)))))))))"

definition malformedTLV :: "ber_error \<Rightarrow> sim_error" where
  "malformedTLV e = (if e = ErrMalformed then MalformedResponse else TLVError e)"

definition trimFF00 :: "bytes \<Rightarrow> bytes" where
  "trimFF00 data = rev (dropWhile (\<lambda>x. x = 0xFF \<or> x = 0x00) (rev data))"

fun first_value :: "Items \<Rightarrow> bytes option" where
  "first_value [] = None"
| "first_value (item # items) = (if length (ItemValue item) = 0 then first_value items else Some (ItemValue item))"

definition text_UnmarshalBinary :: "bytes \<Rightarrow> (sim_error, bytes) outcome" where
  "text_UnmarshalBinary data =
     (let data = trimFF00 data in
      fail_if (length data = 0) EmptyPayload
       (case items_UnmarshalBinary data of
          Ret items \<Rightarrow> (case first_value items of Some v \<Rightarrow> Ret v | None \<Rightarrow> Fail MissingValue)
        | Fail e \<Rightarrow> fail_if (\<not> list_all (\<lambda>b. 0x20 \<le> b \<and> b \<le> 0x7E) data) (malformedTLV e) (Ret data)
        | Panic \<Rightarrow> Panic))"

section \<open>File control information\<close>

definition tagFCI :: byte where "tagFCI = 0x62"
definition tagFileDescriptor :: byte where "tagFileDescriptor = 0x82"
definition tagFileLength :: byte where "tagFileLength = 0x80"

record FCI =
  fci_FileStructure :: byte
  fci_FileType :: byte
  fci_RecordSize :: u16
  fci_RecordCount :: byte
  fci_FileSize :: u16

definition zeroFCI :: FCI where
  "zeroFCI = \<lparr>fci_FileStructure = 0, fci_FileType = 0, fci_RecordSize = 0, fci_RecordCount = 0, fci_FileSize = 0\<rparr>"

definition fci_MarshalBinary :: "FCI \<Rightarrow> (sim_error, bytes) outcome" where
  "fci_MarshalBinary f =
     fail_if (fci_FileStructure f = 0 \<or> fci_FileType f = 0) MissingDescriptor
      (let descriptor = (if fci_RecordSize f \<noteq> 0 \<or> fci_RecordCount f \<noteq> 0
                         then [fci_FileStructure f, fci_FileType f] @ put_be16 (fci_RecordSize f) @ [fci_RecordCount f]
                         else [fci_FileStructure f, fci_FileType f]);
           inner = \<lparr>Tag = tagFileDescriptor, ItemValue = descriptor\<rparr>
                   # (if fci_FileSize f \<noteq> 0 then [\<lparr>Tag = tagFileLength, ItemValue = put_be16 (fci_FileSize f)\<rparr>] else [])
       in bind (map_err TLVMarshal (items_MarshalBinary inner)) (\<lambda>val.
            map_err TLVMarshal (items_MarshalBinary [\<lparr>Tag = tagFCI, ItemValue = val\<rparr>])))"

fun fci_loop :: "Items \<Rightarrow> FCI \<Rightarrow> bool \<Rightarrow> (sim_error, FCI \<times> bool) outcome" where
  "fci_loop [] parsed have_desc = Ret (parsed, have_desc)"
| "fci_loop (item # items) parsed have_desc =
     (if Tag item = tagFileDescriptor then
        (case ItemValue item of
           [a, b] \<Rightarrow> fci_loop items (parsed\<lparr>fci_FileStructure := a, fci_FileType := b\<rparr>) True
         | [a, b, c, d, e] \<Rightarrow>
             fci_loop items (parsed\<lparr>fci_FileStructure := a, fci_FileType := b, fci_RecordSize := join_le16 d c, fci_RecordCount := e\<rparr>) True
         | _ \<Rightarrow> Fail DescriptorLength)
      else if Tag item = tagFileLength then
        (case ItemValue item of
           [a, b] \<Rightarrow> fci_loop items (parsed\<lparr>fci_FileSize := join_le16 b a\<rparr>) have_desc
         | _ \<Rightarrow> Fail FileLengthEncoding)
      else fci_loop items parsed have_desc)"

definition fci_UnmarshalBinary :: "bytes \<Rightarrow> (sim_error, FCI) outcome" where
  "fci_UnmarshalBinary data =
     bind (map_err malformedTLV (items_UnmarshalBinary data)) (\<lambda>top.
       case top of
         [t] \<Rightarrow>
           fail_if (Tag t \<noteq> tagFCI) MalformedResponse
            (bind (map_err malformedTLV (items_UnmarshalBinary (ItemValue t))) (\<lambda>inner.
             bind (fci_loop inner zeroFCI False) (\<lambda>(parsed, have_desc).
               fail_if (\<not> have_desc) MissingDescriptor (Ret parsed))))
       | _ \<Rightarrow> Fail MalformedResponse)"

section \<open>EF_DIR\<close>

definition tagRecord :: byte where "tagRecord = 0x61"
definition tagRecordAID :: byte where "tagRecordAID = 0x4F"
definition tagRecordLabel :: byte where "tagRecordLabel = 0x50"

record EFDirRecord =
  rec_AID :: bytes
  rec_Label :: bytes

definition efdir_MarshalBinary :: "EFDirRecord \<Rightarrow> (sim_error, bytes) outcome" where
  "efdir_MarshalBinary r =
     fail_if (length (rec_AID r) = 0) AIDEmpty
      (let inner = \<lparr>Tag = tagRecordAID, ItemValue = rec_AID r\<rparr>
                   # (if rec_Label r \<noteq> [] then [\<lparr>Tag = tagRecordLabel, ItemValue = rec_Label r\<rparr>] else [])
       in bind (map_err TLVMarshal (items_MarshalBinary inner)) (\<lambda>val.
            map_err TLVMarshal (items_MarshalBinary [\<lparr>Tag = tagRecord, ItemValue = val\<rparr>])))"

definition trimEFDirPadding :: "bytes \<Rightarrow> bytes" where
  "trimEFDirPadding data = TrimRight 0xFF data"

function efdir_loop :: "bytes \<Rightarrow> EFDirRecord \<Rightarrow> (sim_error, EFDirRecord) outcome" where
  "efdir_loop inner parsed =
     (if length (trimEFDirPadding inner) \<noteq> 0
      then bind (map_err malformedTLV (ber_consume inner)) (\<lambda>p. case p of (item, consumed) \<Rightarrow>
             bind (subslice inner consumed (length inner)) (\<lambda>rest.
               efdir_loop rest
                 (if Tag item = tagRecordAID then parsed\<lparr>rec_AID := ItemValue item\<rparr>
                  else if Tag item = tagRecordLabel then parsed\<lparr>rec_Label := ItemValue item\<rparr>
                  else parsed)))
      else Ret parsed)"
  by pat_completeness auto
termination
  by (relation "measure (\<lambda>(inner, parsed). length inner)")
     (auto simp: subslice_eq_Ret_iff dest: ber_consume_pos)

declare efdir_loop.simps [simp del]

definition efdir_UnmarshalBinary :: "bytes \<Rightarrow> (sim_error, EFDirRecord) outcome" where
  "efdir_UnmarshalBinary data =
     (if length (trimEFDirPadding data) = 0 then Ret \<lparr>rec_AID = [], rec_Label = []\<rparr>
      else bind (map_err malformedTLV (ber_consume data)) (\<lambda>(top, consumed).
        fail_if (Tag top \<noteq> tagRecord) MalformedResponse
         (bind (subslice data consumed (length data)) (\<lambda>rest.
          fail_if (length (trimEFDirPadding rest) \<noteq> 0) MalformedResponse
           (bind (efdir_loop (ItemValue top) \<lparr>rec_AID = [], rec_Label = []\<rparr>) (\<lambda>parsed.
             fail_if (length (rec_AID parsed) = 0) MalformedResponse (Ret parsed)))))))"

section \<open>Digit strings\<close>

lemma swap_swap: "swap_nibbles (swap_nibbles b) = b"
proof (rule bit_word_eqI)
  fix n assume "n < LENGTH(8)"
  moreover have "\<not> n < 4 \<Longrightarrow> 4 + (n - 4) = n" by simp
  ultimately show "bit (swap_nibbles (swap_nibbles b)) n = bit b n"
    by (cases "n < 4") (auto simp: swap_nibbles_def bit_simps)
qed

lemma bcd_text_canonical:
  assumes "list_all hex_canonical s"
  shows "\<exists>bcd. bcd_UnmarshalText s = Ret bcd \<and> length bcd = (length s + 1) div 2 \<and> bcd_String bcd = TrimRight 0x46 s"
proof -
  let ?s = "if length s mod 2 \<noteq> 0 then s @ [0x46] else s"
  have "list_all hex_canonical ?s" using assms by (auto simp: hex_canonical_def)
  moreover have "length ?s mod 2 = 0" by (simp add: mod_Suc)
  ultimately have "\<exists>data. hex_DecodeString ?s = Some data \<and> hex_EncodeUpper data = ?s" by (rule hex_Decode_canonical)
  then obtain data where d: "hex_DecodeString ?s = Some data" "hex_EncodeUpper data = ?s" by blast
  have "2 * length data = length ?s" using arg_cong [OF d(2), of length] by (simp add: length_hex_EncodeUpper)
  then have "length data = (length s + 1) div 2" by (auto split: if_splits)
  moreover have "bcd_String (map swap_nibbles data) = TrimRight 0x46 ?s"
    using d(2) by (simp add: bcd_String_def comp_def swap_swap)
  moreover have "TrimRight 0x46 ?s = TrimRight 0x46 s" by (simp add: TrimRight_def)
  moreover have "bcd_UnmarshalText s = Ret (map swap_nibbles data)" using d(1) by (simp add: bcd_UnmarshalText_def Let_def)
  ultimately show ?thesis by auto
qed

definition decimal :: "byte \<Rightarrow> bool" where
  "decimal c = (0x30 \<le> c \<and> c \<le> 0x39)"

lemma TrimRight_decimal: "list_all decimal s \<Longrightarrow> TrimRight 0x46 s = s"
proof (cases s rule: rev_cases)
  case (snoc t c)
  moreover assume "list_all decimal s"
  ultimately have "decimal c" by simp
  then have "c \<noteq> 0x46" by (auto simp: decimal_def)
  with snoc show ?thesis by (simp add: TrimRight_def)
qed (simp add: TrimRight_def)

lemma bcd_decimal:
  assumes "list_all decimal s"
  shows "\<exists>bcd. bcd_UnmarshalText s = Ret bcd \<and> length bcd = (length s + 1) div 2 \<and> bcd_String bcd = s"
proof -
  have "list_all hex_canonical s" using assms by (auto simp: list_all_iff decimal_def hex_canonical_def)
  from bcd_text_canonical [OF this] TrimRight_decimal [OF assms] show ?thesis by simp
qed

lemma decimal_ascii: "decimal c \<Longrightarrow> 0x30 \<le> unat c \<and> unat c \<le> 0x39"
  by (simp add: decimal_def word_le_nat_alt)

lemma decimal_lt: "decimal c \<Longrightarrow> unat c < 0x80"
  using decimal_ascii by fastforce

lemma validateDigits_decimal: "list_all decimal ds \<Longrightarrow> n \<le> length ds \<Longrightarrow> validateDigits ds n = Ret ()"
proof -
  assume d: "list_all decimal ds" and n: "n \<le> length ds"
  have "list_all (\<lambda>b. unat b < 0x80) ds" using d by (auto simp: list_all_iff intro: decimal_lt)
  then have "utf8_runes ds = map unat ds" by (simp add: utf8_runes_def utf8_segments_ascii comp_def)
  moreover have "list_all (\<lambda>r. 0x30 \<le> r \<and> r \<le> 0x39) (map unat ds)" using d by (auto simp: list_all_iff dest: decimal_ascii)
  ultimately show ?thesis using n by (simp add: validateDigits_def)
qed

section \<open>Properties\<close>

text \<open>Subscriber identities survive the card's encoding: a decimal digit string is stored as ICCID
  and read back unchanged, and as IMSI of 6 to 508 digits it is stored with its parity digit and read
  back with the country code in front; odd lengths are padded without adding a digit.\<close>

theorem sim_identity_roundtrip:
  assumes "list_all decimal ds" "6 \<le> length ds" "length ds \<le> 508"
  shows "\<exists>iccid imsi. iccid_MarshalBinary ds = Ret iccid \<and> iccid_UnmarshalBinary iccid = Ret ds
    \<and> imsi_MarshalBinary \<lparr>im_Digits = ds, im_MCC = mcc\<rparr> = Ret imsi
    \<and> imsi_UnmarshalBinary imsi = Ret \<lparr>im_Digits = ds, im_MCC = take 3 ds\<rparr>"
proof -
  have ne: "ds \<noteq> []" using assms(2) by auto
  obtain bcd where b: "bcd_UnmarshalText ds = Ret bcd" "bcd_String bcd = ds" using bcd_decimal [OF assms(1)] by blast
  have "list_all decimal (0x39 # ds)" using assms(1) by (simp add: decimal_def)
  from bcd_decimal [OF this] obtain body where
    body: "bcd_UnmarshalText (0x39 # ds) = Ret body" "length body = (length ds + 2) div 2" "bcd_String body = 0x39 # ds" by auto
  have len: "length body \<le> 255" using body(2) assms(3) by simp
  then have u: "unat (of_nat (length body) :: byte) = length body" by (intro unat_of_nat_byte) simp
  have "imsi_MarshalBinary \<lparr>im_Digits = ds, im_MCC = mcc\<rparr> = Ret (of_nat (length body) # body)"
    using validateDigits_decimal [OF assms(1,2)] body(1) len by (simp add: imsi_MarshalBinary_def)
  moreover have "imsi_UnmarshalBinary (of_nat (length body) # body) = Ret \<lparr>im_Digits = ds, im_MCC = take 3 ds\<rparr>"
    using validateDigits_decimal [OF assms(1,2)] assms(2) body(3)
    by (simp add: imsi_UnmarshalBinary_def index_def subslice_def u TrimPrefix_def setDigits_def)
  ultimately show ?thesis using b ne by (simp add: iccid_MarshalBinary_def iccid_UnmarshalBinary_def)
qed

theorem sim_identity_roundtrip_witness:
  "\<exists>imsi. imsi_MarshalBinary \<lparr>im_Digits = [0x32, 0x36, 0x32, 0x30, 0x31, 0x39], im_MCC = []\<rparr> = Ret imsi
    \<and> imsi_UnmarshalBinary imsi = Ret \<lparr>im_Digits = [0x32, 0x36, 0x32, 0x30, 0x31, 0x39], im_MCC = [0x32, 0x36, 0x32]\<rparr>"
  using sim_identity_roundtrip [of "[0x32, 0x36, 0x32, 0x30, 0x31, 0x39]" "[]"] by (auto simp: decimal_def)

lemma address_digits:
  assumes "list_all decimal ds" "ds \<noteq> []"
  shows "\<exists>bs. address_MarshalBinary ((if intl then [0x2B] else []) @ ds) = Ret bs
    \<and> address_UnmarshalBinary bs = Ret ((if intl then [0x2B] else []) @ ds) \<and> length bs = 1 + (length ds + 1) div 2"
proof -
  let ?a = "(if intl then [0x2B] else []) @ ds"
  have asc: "list_all (\<lambda>b. unat b < 0x80) ?a" using assms(1) by (auto simp: list_all_iff intro: decimal_lt)
  have sp: "\<not> IsSpace n" if "0x2B \<le> n" "n \<le> 0x39" for n using that by (auto simp: IsSpace_def)
  have d: "0x2B \<le> unat c \<and> unat c \<le> 0x39" if "c \<in> set ?a" for c
    using that assms(1) by (fastforce simp: list_all_iff dest: decimal_ascii split: if_splits)
  have "?a \<noteq> []" using assms(2) by simp
  then have "\<not> IsSpace (unat (hd ?a))" "\<not> IsSpace (unat (last ?a))" using d [of "hd ?a"] d [of "last ?a"] sp by (metis hd_in_set last_in_set)+
  then have "TrimSpace ?a = ?a" by (rule TrimSpace_ascii [OF asc \<open>?a \<noteq> []\<close>])
  moreover have "hd ?a = 0x2B \<longleftrightarrow> intl"
    using assms by (cases ds) (auto simp: decimal_def)
  moreover have "filter (\<lambda>c. \<not> separator c) ds = ds"
    using assms(1) by (intro filter_True) (auto simp: list_all_iff separator_def decimal_def)
  moreover obtain bcd where b: "bcd_UnmarshalText ds = Ret bcd" "bcd_String bcd = ds" "length bcd = (length ds + 1) div 2"
    using bcd_decimal [OF assms(1)] by blast
  moreover have v: "validateDigits ds 1 = Ret ()" "validateDigits ds 0 = Ret ()"
    using assms by (auto intro!: validateDigits_decimal simp: Suc_le_eq)
  ultimately have "address_MarshalBinary ?a = Ret ((if intl then 0x91 else 0x81) # bcd)"
    using assms(2) by (auto simp: address_MarshalBinary_def Let_def TrimPrefix_def)
  moreover have "address_UnmarshalBinary ((if intl then 0x91 else 0x81) # bcd) = Ret ?a"
    using assms(2) b v by (auto simp: address_UnmarshalBinary_def subslice_def index_def Let_def)
  ultimately show ?thesis using b(3) by auto
qed

text \<open>Dialling addresses: a number of decimal digits, with a plus sign in front or not, is encoded in
  the semi-octets of a card record and decoded to the same string.\<close>

theorem sim_address_roundtrip:
  assumes "list_all decimal ds" "ds \<noteq> []"
  shows "\<exists>bs. address_MarshalBinary ((if intl then [0x2B] else []) @ ds) = Ret bs
    \<and> address_UnmarshalBinary bs = Ret ((if intl then [0x2B] else []) @ ds)"
  using address_digits [OF assms] by blast

theorem sim_address_roundtrip_witness:
  "\<exists>bs. address_MarshalBinary [0x2B, 0x34, 0x39, 0x31] = Ret bs \<and> address_UnmarshalBinary bs = Ret [0x2B, 0x34, 0x39, 0x31]"
  using sim_address_roundtrip [of "[0x34, 0x39, 0x31]" True] by (simp add: decimal_def)

section \<open>Files\<close>

lemma items_roundtrip: "items_MarshalBinary is = Ret bs \<Longrightarrow> items_UnmarshalBinary bs = Ret is"
  using ber.parse_emit [of "is"] by (auto simp: items_MarshalBinary_eq split: if_splits)

lemma items_Marshal_small:
  assumes "list_all (\<lambda>i. length (ItemValue i) \<le> 127) is"
  shows "\<exists>bs. items_MarshalBinary is = Ret bs \<and> length bs = sum_list (map (\<lambda>i. 2 + length (ItemValue i)) is)"
proof -
  have "list_all ber_valid is" using assms by (auto simp: list_all_iff ber_valid_def)
  moreover have "length (ber_emit i) = 2 + length (ItemValue i)" if "i \<in> set is" for i
    using assms that by (auto simp: list_all_iff ber_emit_def marshalLength_def)
  then have "map (length \<circ> ber_emit) is = map (\<lambda>i. 2 + length (ItemValue i)) is" by auto
  then have "length (concat (map ber_emit is)) = sum_list (map (\<lambda>i. 2 + length (ItemValue i)) is)"
    by (simp add: length_concat del: map_eq_conv)
  ultimately show ?thesis by (simp add: items_MarshalBinary_eq)
qed

lemma be16_join: "put_be16 w = [a, b] \<Longrightarrow> join_le16 b a = w"
  by (auto simp: put_be16_def)

text \<open>File control information: encoding succeeds exactly for a file with structure and type, and
  decoding gives back every field, whether or not records and a file size are present.\<close>

theorem fci_roundtrip:
  "(case fci_MarshalBinary f of
      Ret bs \<Rightarrow> fci_UnmarshalBinary bs = Ret f \<and> fci_FileStructure f \<noteq> 0 \<and> fci_FileType f \<noteq> 0
    | Fail e \<Rightarrow> e = MissingDescriptor \<and> (fci_FileStructure f = 0 \<or> fci_FileType f = 0)
    | Panic \<Rightarrow> False)"
proof (cases "fci_FileStructure f = 0 \<or> fci_FileType f = 0")
  case False
  define d where "d = (if fci_RecordSize f \<noteq> 0 \<or> fci_RecordCount f \<noteq> 0
     then [fci_FileStructure f, fci_FileType f] @ put_be16 (fci_RecordSize f) @ [fci_RecordCount f]
     else [fci_FileStructure f, fci_FileType f])"
  define inner where "inner = \<lparr>Tag = tagFileDescriptor, ItemValue = d\<rparr>
     # (if fci_FileSize f \<noteq> 0 then [\<lparr>Tag = tagFileLength, ItemValue = put_be16 (fci_FileSize f)\<rparr>] else [])"
  have "list_all (\<lambda>i. length (ItemValue i) \<le> 127) inner" by (simp add: inner_def d_def)
  from items_Marshal_small [OF this] obtain val where v: "items_MarshalBinary inner = Ret val"
    "length val = sum_list (map (\<lambda>i. 2 + length (ItemValue i)) inner)" by blast
  then have "length val \<le> 127" by (simp add: inner_def d_def)
  then have "list_all (\<lambda>i. length (ItemValue i) \<le> 127) [\<lparr>Tag = tagFCI, ItemValue = val\<rparr>]" by simp
  from items_Marshal_small [OF this] obtain bs where bs: "items_MarshalBinary [\<lparr>Tag = tagFCI, ItemValue = val\<rparr>] = Ret bs" by blast
  have "fci_MarshalBinary f = Ret bs"
    unfolding fci_MarshalBinary_def Let_def d_def [symmetric] inner_def [symmetric] using False v(1) bs by simp
  moreover have "fci_loop inner zeroFCI False = Ret (f, True)"
    by (cases f) (auto simp: inner_def d_def zeroFCI_def put_be16_def tagFileDescriptor_def tagFileLength_def)
  then have "fci_UnmarshalBinary bs = Ret f"
    by (simp add: fci_UnmarshalBinary_def items_roundtrip [OF bs] items_roundtrip [OF v(1)])
  ultimately show ?thesis using False by simp
qed (simp add: fci_MarshalBinary_def)

lemma TrimRight_replicate: "TrimRight c (xs @ replicate n c) = TrimRight c xs" "TrimRight c (replicate n c) = []"
  by (simp_all add: TrimRight_def dropWhile_append)

lemma TrimRight_nonempty: "x \<in> set xs \<Longrightarrow> x \<noteq> c \<Longrightarrow> TrimRight c xs \<noteq> []"
  by (auto simp: TrimRight_def dropWhile_eq_Nil_conv)

lemma efdir_loop_Nil: "efdir_loop [] r = Ret r"
  by (subst efdir_loop.simps) (simp add: trimEFDirPadding_def TrimRight_def)

lemma efdir_loop_item:
  assumes "ber_valid i" "Tag i \<noteq> 0xFF"
  shows "efdir_loop (ber_emit i @ rest) r =
    efdir_loop rest (if Tag i = tagRecordAID then r\<lparr>rec_AID := ItemValue i\<rparr>
                     else if Tag i = tagRecordLabel then r\<lparr>rec_Label := ItemValue i\<rparr> else r)"
proof -
  have "Tag i \<in> set (ber_emit i @ rest)" by (simp add: ber_emit_def)
  then have "trimEFDirPadding (ber_emit i @ rest) \<noteq> []"
    unfolding trimEFDirPadding_def using assms(2) by (rule TrimRight_nonempty)
  then show ?thesis
    by (subst efdir_loop.simps) (simp add: ber_consume_emit [OF assms(1)] subslice_def)
qed

text \<open>EF_DIR records: an encoded record decodes to its application identifier and label, also when
  the card pads the record with any number of 0xFF bytes; a record of padding alone is an empty one.\<close>

theorem efdir_roundtrip:
  "efdir_UnmarshalBinary (replicate n 0xFF) = Ret \<lparr>rec_AID = [], rec_Label = []\<rparr>
   \<and> (case efdir_MarshalBinary r of
        Ret bs \<Rightarrow> efdir_UnmarshalBinary (bs @ replicate n 0xFF) = Ret r
      | Fail e \<Rightarrow> rec_AID r = [] \<or> length (rec_AID r) + length (rec_Label r) > 65500
      | Panic \<Rightarrow> False)"
proof -
  define a where "a = \<lparr>Tag = tagRecordAID, ItemValue = rec_AID r\<rparr>"
  define l where "l = (if rec_Label r \<noteq> [] then [\<lparr>Tag = tagRecordLabel, ItemValue = rec_Label r\<rparr>] else [])"
  define val where "val = concat (map ber_emit (a # l))"
  define top where "top = \<lparr>Tag = tagRecord, ItemValue = val\<rparr>"
  have emit_len: "length (ber_emit i) \<le> 4 + length (ItemValue i)" if "ber_valid i" for i
    using that by (auto simp: ber_emit_def ber_valid_def marshalLength_def)
  have tags: "tagRecordAID \<noteq> 0xFF" "tagRecordLabel \<noteq> 0xFF" "tagRecordLabel \<noteq> tagRecordAID" "tagRecord \<noteq> 0xFF"
    by (simp_all add: tagRecordAID_def tagRecordLabel_def tagRecord_def)
  have pad: "efdir_UnmarshalBinary (replicate n 0xFF) = Ret \<lparr>rec_AID = [], rec_Label = []\<rparr>"
    by (simp add: efdir_UnmarshalBinary_def trimEFDirPadding_def TrimRight_replicate)
  show ?thesis
  proof (cases "rec_AID r = [] \<or> \<not> list_all ber_valid (a # l) \<or> \<not> ber_valid top")
    case True
    have inv1: "length (rec_AID r) + length (rec_Label r) > 65500" if "\<not> list_all ber_valid (a # l)"
      using that by (auto simp: a_def l_def ber_valid_def split: if_splits)
    have inv2: "length (rec_AID r) + length (rec_Label r) > 65500" if "list_all ber_valid (a # l)" "\<not> ber_valid top"
      using that emit_len [of a] emit_len [of "hd l"] by (auto simp: a_def l_def top_def val_def ber_valid_def split: if_splits)
    have "rec_AID r = [] \<or> length (rec_AID r) + length (rec_Label r) > 65500" using True inv1 inv2 by blast
    moreover have "\<exists>e. efdir_MarshalBinary r = Fail e"
      using True by (auto simp: efdir_MarshalBinary_def Let_def a_def [symmetric] l_def [symmetric]
          items_MarshalBinary_eq fail_if_def val_def [symmetric, simplified] top_def [symmetric])
    ultimately show ?thesis using pad by auto
  next
    case False
    then have v: "rec_AID r \<noteq> []" "ber_valid a" "list_all ber_valid l" "ber_valid top" by auto
    have m: "efdir_MarshalBinary r = Ret (ber_emit top)"
      using v by (simp add: efdir_MarshalBinary_def Let_def a_def [symmetric] l_def [symmetric]
          items_MarshalBinary_eq val_def [symmetric, simplified] top_def [symmetric])
    have "efdir_loop val \<lparr>rec_AID = [], rec_Label = []\<rparr> = Ret r"
      using v tags by (cases r) (auto simp: val_def a_def l_def efdir_loop_item efdir_loop_Nil [simplified]
          efdir_loop_item [where rest = "[]", simplified])
    moreover have "trimEFDirPadding (ber_emit top @ replicate n 0xFF) \<noteq> []"
      unfolding trimEFDirPadding_def by (rule TrimRight_nonempty [of tagRecord]) (simp_all add: ber_emit_def top_def tags)
    ultimately have "efdir_UnmarshalBinary (ber_emit top @ replicate n 0xFF) = Ret r"
      using v by (simp add: efdir_UnmarshalBinary_def ber_consume_emit subslice_def trimEFDirPadding_def TrimRight_replicate)
         (simp add: top_def)
    with m pad show ?thesis by simp
  qed
qed

section \<open>No file content makes a decoder panic\<close>

lemma validateDigits_no_panic [simp]: "validateDigits v n \<noteq> Panic"
  by (simp add: validateDigits_def)

lemma validateDigits_length: "validateDigits v n = Ret () \<Longrightarrow> n \<le> length v"
  by (simp add: validateDigits_def)

lemma setDigits_no_panic: "setDigits ds \<noteq> Panic"
  by (auto simp: setDigits_def bind_eq_Panic_iff subslice_eq_Panic_iff dest: validateDigits_length)

lemma address_no_panic: "address_UnmarshalBinary d \<noteq> Panic"
  by (auto simp: address_UnmarshalBinary_def bind_eq_Panic_iff subslice_eq_Panic_iff Let_def index_def Suc_le_eq)

lemma fci_loop_no_panic: "fci_loop items f b \<noteq> Panic"
  by (induction items f b rule: fci_loop.induct) (auto split: list.splits)

lemma efdir_loop_no_panic: "efdir_loop inner r \<noteq> Panic"
proof (induction "length inner" arbitrary: inner r rule: less_induct)
  case less
  show ?case
    by (subst efdir_loop.simps)
      (auto simp: bind_eq_Panic_iff subslice_eq_Panic_iff subslice_eq_Ret_iff dest: ber_consume_pos intro!: less split: prod.splits)
qed

lemma iccid_no_panic: "iccid_UnmarshalBinary d \<noteq> Panic"
  by (simp add: iccid_UnmarshalBinary_def Let_def)

lemma imsi_no_panic: "imsi_UnmarshalBinary d \<noteq> Panic"
  by (auto simp: imsi_UnmarshalBinary_def bind_eq_Panic_iff index_def subslice_eq_Panic_iff Let_def setDigits_no_panic)

lemma ad_no_panic: "ad_UnmarshalBinary d \<noteq> Panic"
  by (auto simp: ad_UnmarshalBinary_def bind_eq_Panic_iff index_def split: if_splits)

lemma smsc_no_panic: "smsc_UnmarshalBinary old d \<noteq> Panic"
  by (auto simp: smsc_UnmarshalBinary_def bind_eq_Panic_iff index_def subslice_eq_Panic_iff subslice_eq_Ret_iff Let_def address_no_panic
      split: if_splits)

lemma spn_no_panic: "spn_UnmarshalBinary d \<noteq> Panic"
  by (auto simp: spn_UnmarshalBinary_def bind_eq_Panic_iff index_def subslice_eq_Panic_iff Let_def Suc_le_eq split: if_splits)

lemma text_no_panic: "text_UnmarshalBinary d \<noteq> Panic"
  by (auto simp: text_UnmarshalBinary_def Let_def items_UnmarshalBinary_no_panic split: outcome.splits option.splits)

lemma fci_no_panic: "fci_UnmarshalBinary d \<noteq> Panic"
  by (auto simp: fci_UnmarshalBinary_def bind_eq_Panic_iff items_UnmarshalBinary_no_panic fci_loop_no_panic split: list.splits prod.splits)

lemma efdir_no_panic: "efdir_UnmarshalBinary d \<noteq> Panic"
  by (auto simp: efdir_UnmarshalBinary_def bind_eq_Panic_iff subslice_eq_Panic_iff efdir_loop_no_panic split: prod.splits dest: ber_consume_pos)

text \<open>C36: robustness against the card: whatever bytes a file holds, the decoders of ICCID, IMSI, EF_AD,
  addresses, EF_SMSP, EF_SPN, text files, file control information and EF_DIR return a value or an
  error and never read out of range.\<close>

theorem sim_decoders_never_panic:
  "iccid_UnmarshalBinary d \<noteq> Panic \<and> imsi_UnmarshalBinary d \<noteq> Panic \<and> ad_UnmarshalBinary d \<noteq> Panic
   \<and> address_UnmarshalBinary d \<noteq> Panic \<and> smsc_UnmarshalBinary old d \<noteq> Panic \<and> spn_UnmarshalBinary d \<noteq> Panic
   \<and> text_UnmarshalBinary d \<noteq> Panic \<and> fci_UnmarshalBinary d \<noteq> Panic \<and> efdir_UnmarshalBinary d \<noteq> Panic"
  by (simp add: iccid_no_panic imsi_no_panic ad_no_panic address_no_panic smsc_no_panic spn_no_panic text_no_panic fci_no_panic efdir_no_panic)

end
