(* ===== verification/Sim_Command.thy ===== *)
theory Sim_Command
  imports Apdu Sim_File
begin

text \<open>
  The APDU commands of \<^verbatim>\<open>sim/command\<close>: SELECT, READ BINARY, READ RECORD, AUTHENTICATE and the toolkit
  commands with their short and extended forms, the SMS-PP download envelope, and the decoder of the
  3G authentication response.
\<close>

section \<open>Commands\<close>

type_synonym command_error = "unit request_write_error"

definition plain_request :: "byte \<Rightarrow> byte \<Rightarrow> byte \<Rightarrow> byte \<Rightarrow> bytes \<Rightarrow> byte option \<Rightarrow> Request" where
  "plain_request cla ins p1 p2 data le = \<lparr>CLA = cla, INS = ins, P1 = p1, P2 = p2, Data = data, Le = le\<rparr>"

definition selectRequest :: "byte \<Rightarrow> bytes \<Rightarrow> (command_error, bytes) outcome" where
  "selectRequest p1 val = request_MarshalBinary (plain_request 0x00 0xA4 p1 0x04 val None)"

definition selectID :: "bytes \<Rightarrow> (command_error, bytes) outcome" where "selectID i = selectRequest 0x00 i"
definition selectName :: "bytes \<Rightarrow> (command_error, bytes) outcome" where "selectName name = selectRequest 0x04 name"
definition selectPath :: "bytes \<Rightarrow> (command_error, bytes) outcome" where "selectPath path = selectRequest 0x08 path"

definition binaryRead :: "u16 \<Rightarrow> byte \<Rightarrow> (command_error, bytes) outcome" where
  "binaryRead ofs len = request_MarshalBinary (plain_request 0x00 0xB0 (ucast (drop_bit 8 ofs)) (ucast ofs) [] (Some len))"

definition recordRead :: "byte \<Rightarrow> byte \<Rightarrow> (command_error, bytes) outcome" where
  "recordRead n len = request_MarshalBinary (plain_request 0x00 0xB2 n 0x04 [] (Some len))"

definition authenticate3G :: "bytes \<Rightarrow> bytes \<Rightarrow> (command_error, bytes) outcome" where
  "authenticate3G rand autn =
     request_MarshalBinary (plain_request 0x00 0x88 0x00 0x81
       (of_nat (length rand) # rand @ of_nat (length autn) # autn) None)"

section \<open>Toolkit commands\<close>

datatype stk_error = ExtendedTooLong nat | EnvelopeEmpty | ShortError command_error

text \<open>A short APDU when data and expected length fit a byte each, an extended one otherwise.\<close>

definition stkAPDU :: "byte \<Rightarrow> bytes \<Rightarrow> u16 option \<Rightarrow> (stk_error, bytes) outcome" where
  "stkAPDU ins data le =
     (if length data \<le> 0xFF \<and> (case le of None \<Rightarrow> True | Some v \<Rightarrow> v \<le> 0xFF)
      then map_err ShortError (request_MarshalBinary (plain_request 0x80 ins 0x00 0x00 data (map_option ucast le)))
      else fail_if (length data > 0xFFFF) (ExtendedTooLong (length data))
            (Ret ([0x80, ins, 0x00, 0x00, 0x00]
              @ (if length data > 0 then [of_nat (drop_bit 8 (length data)), of_nat (length data)] @ data else [])
              @ (case le of None \<Rightarrow> [] | Some v \<Rightarrow> [ucast (drop_bit 8 v), ucast v]))))"

definition terminalProfile :: "bytes \<Rightarrow> (stk_error, bytes) outcome" where "terminalProfile data = stkAPDU 0x10 data None"
definition status_command :: "(stk_error, bytes) outcome" where "status_command = stkAPDU 0xF2 [] (Some 0)"
definition fetch :: "byte \<Rightarrow> (stk_error, bytes) outcome" where "fetch len = stkAPDU 0x12 [] (Some (ucast len))"
definition terminalResponse :: "bytes \<Rightarrow> (stk_error, bytes) outcome" where "terminalResponse data = stkAPDU 0x14 data None"

definition envelope_command :: "bytes \<Rightarrow> (stk_error, bytes) outcome" where
  "envelope_command data = fail_if (length data = 0) EnvelopeEmpty (stkAPDU 0xC2 data (Some 0))"

text \<open>Above 0xFFFF the length octets wrap.\<close>

definition appendBERLength :: "bytes \<Rightarrow> nat \<Rightarrow> bytes" where
  "appendBERLength out n =
     (if n \<le> 0x7F then out @ [of_nat n]
      else if n \<le> 0xFF then out @ [0x81, of_nat n]
      else out @ [0x82, of_nat (drop_bit 8 n), of_nat n])"

definition appendTLV :: "bytes \<Rightarrow> byte \<Rightarrow> bytes \<Rightarrow> bytes" where
  "appendTLV out tag val = appendBERLength (out @ [tag]) (length val) @ val"

datatype smspp_error = TPDUEmpty | SMSCAddress sim_error | EnvelopeError stk_error

definition smspp_Envelope :: "bytes \<Rightarrow> bytes \<Rightarrow> (smspp_error, bytes) outcome" where
  "smspp_Envelope sca tpdu =
     fail_if (length tpdu = 0) TPDUEmpty
      (bind (map_err SMSCAddress (address_MarshalBinary sca)) (\<lambda>address.
        let body = appendTLV [] 0x82 [0x83, 0x81];
            body = (if length address \<noteq> 0 then appendTLV body 0x86 address else body);
            body = appendTLV body 0x8B tpdu
        in Ret (appendBERLength [0xD1] (length body) @ body)))"

definition smspp_MarshalBinary :: "bytes \<Rightarrow> bytes \<Rightarrow> (smspp_error, bytes) outcome" where
  "smspp_MarshalBinary sca tpdu =
     bind (smspp_Envelope sca tpdu) (\<lambda>envelope. map_err EnvelopeError (envelope_command envelope))"

section \<open>Authentication responses\<close>

record Authenticate3GResult =
  ak_RES :: bytes
  ak_CK :: bytes
  ak_IK :: bytes
  ak_AUTS :: bytes
  ak_Reject :: bool

definition Successful :: "Authenticate3GResult \<Rightarrow> bool" where
  "Successful r \<longleftrightarrow> length (ak_RES r) \<noteq> 0 \<and> length (ak_CK r) \<noteq> 0 \<and> length (ak_IK r) \<noteq> 0"

definition SynchronizationFailed :: "Authenticate3GResult \<Rightarrow> bool" where
  "SynchronizationFailed r \<longleftrightarrow> length (ak_AUTS r) \<noteq> 0"

datatype aka_error = AKAIncomplete | AKATooLong | AKAAutsLength nat | AKAEmpty | AKAMissing | AKATruncated | AKAUnexpected

definition zeroAKA :: Authenticate3GResult where
  "zeroAKA = \<lparr>ak_RES = [], ak_CK = [], ak_IK = [], ak_AUTS = [], ak_Reject = False\<rparr>"

definition appendAKAChunk :: "bytes \<Rightarrow> bytes \<Rightarrow> (aka_error, bytes) outcome" where
  "appendAKAChunk out val = fail_if (length val > 0xFF) AKATooLong (Ret (out @ of_nat (length val) # val))"

definition readAKAChunk :: "bytes \<Rightarrow> (aka_error, bytes \<times> bytes) outcome" where
  "readAKAChunk data =
     fail_if (length data = 0) AKAMissing
      (bind (index data 0) (\<lambda>n. let len = unat n in
       bind (subslice data 1 (length data)) (\<lambda>data.
        fail_if (length data < len) AKATruncated
         (bind (subslice data 0 len) (\<lambda>chunk. bind (subslice data len (length data)) (\<lambda>rest. Ret (chunk, rest)))))))"

definition aka_MarshalBinary :: "Authenticate3GResult \<Rightarrow> (aka_error, bytes) outcome" where
  "aka_MarshalBinary r =
     (if length (ak_RES r) \<noteq> 0 \<or> length (ak_CK r) \<noteq> 0 \<or> length (ak_IK r) \<noteq> 0
      then fail_if (\<not> Successful r) AKAIncomplete
            (bind (appendAKAChunk [0xDB] (ak_RES r)) (\<lambda>out.
             bind (appendAKAChunk out (ak_CK r)) (\<lambda>out. appendAKAChunk out (ak_IK r))))
      else if length (ak_AUTS r) \<noteq> 0
      then fail_if (length (ak_AUTS r) \<noteq> 14) (AKAAutsLength (length (ak_AUTS r))) (appendAKAChunk [0xDC] (ak_AUTS r))
      else if ak_Reject r then Ret [0xDC, 0x00]
      else Fail AKAEmpty)"

definition aka_UnmarshalBinary :: "bytes \<Rightarrow> (aka_error, Authenticate3GResult) outcome" where
  "aka_UnmarshalBinary data =
     fail_if (length data < 1) AKAEmpty
      (bind (index data 0) (\<lambda>tag. bind (subslice data 1 (length data)) (\<lambda>payload.
        if tag = 0xDB
        then bind (readAKAChunk payload) (\<lambda>(res, payload). bind (readAKAChunk payload) (\<lambda>(ck, payload).
             bind (readAKAChunk payload) (\<lambda>(ik, _). Ret (zeroAKA\<lparr>ak_RES := res, ak_CK := ck, ak_IK := ik\<rparr>))))
        else if tag = 0xDC
        then (if length payload = 0 then Ret (zeroAKA\<lparr>ak_Reject := True\<rparr>)
              else bind (readAKAChunk payload) (\<lambda>(auts, _).
                if length auts = 0 then Ret (zeroAKA\<lparr>ak_Reject := True\<rparr>)
                else fail_if (length auts \<noteq> 14) (AKAAutsLength (length auts)) (Ret (zeroAKA\<lparr>ak_AUTS := auts\<rparr>))))
        else Fail AKAUnexpected)))"

section \<open>Authentication\<close>

lemma readAKAChunk_append:
  assumes "length v \<le> 255"
  shows "readAKAChunk (of_nat (length v) # v @ rest) = Ret (v, rest)"
proof -
  have "unat (of_nat (length v) :: byte) = length v" using assms by (intro unat_of_nat_byte) simp
  then show ?thesis by (simp add: readAKAChunk_def index_def subslice_def Let_def)
qed

lemma readAKAChunk_no_panic: "readAKAChunk d \<noteq> Panic"
  by (auto simp: readAKAChunk_def bind_eq_Panic_iff index_def subslice_eq_Panic_iff subslice_eq_Ret_iff Let_def Suc_le_eq)

text \<open>What a result means once it is encoded: an authentication vector hides the other fields, a
  resynchronisation token hides the rejection.\<close>

definition aka_normal :: "Authenticate3GResult \<Rightarrow> Authenticate3GResult" where
  "aka_normal r =
     (if ak_RES r \<noteq> [] then zeroAKA\<lparr>ak_RES := ak_RES r, ak_CK := ak_CK r, ak_IK := ak_IK r\<rparr>
      else if ak_AUTS r \<noteq> [] then zeroAKA\<lparr>ak_AUTS := ak_AUTS r\<rparr>
      else zeroAKA\<lparr>ak_Reject := True\<rparr>)"

text \<open>3G authentication responses: what the encoder produces decodes to the vector, the
  resynchronisation token or the rejection it was made of; the encoder refuses only an incomplete
  vector, an oversized field, a token that is not 14 bytes long, and an empty result. No response of
  the card makes the decoder panic, and it never reports both a vector and a failure.\<close>

theorem aka_roundtrip:
  "(case aka_MarshalBinary r of
      Ret bs \<Rightarrow> aka_UnmarshalBinary bs = Ret (aka_normal r)
    | Fail e \<Rightarrow> e = AKATooLong \<or> (e = AKAIncomplete \<and> \<not> Successful r) \<or> (\<exists>n. e = AKAAutsLength n \<and> n \<noteq> 14)
        \<or> (e = AKAEmpty \<and> r = zeroAKA)
    | Panic \<Rightarrow> False)
   \<and> (case aka_UnmarshalBinary data of
        Panic \<Rightarrow> False
      | Fail e \<Rightarrow> True
      | Ret p \<Rightarrow> \<not> (Successful p \<and> (SynchronizationFailed p \<or> ak_Reject p)) \<and> \<not> (SynchronizationFailed p \<and> ak_Reject p))"
proof
  show "case aka_MarshalBinary r of
      Ret bs \<Rightarrow> aka_UnmarshalBinary bs = Ret (aka_normal r)
    | Fail e \<Rightarrow> e = AKATooLong \<or> (e = AKAIncomplete \<and> \<not> Successful r) \<or> (\<exists>n. e = AKAAutsLength n \<and> n \<noteq> 14)
        \<or> (e = AKAEmpty \<and> r = zeroAKA)
    | Panic \<Rightarrow> False"
  proof (cases "Successful r \<and> length (ak_RES r) \<le> 255 \<and> length (ak_CK r) \<le> 255 \<and> length (ak_IK r) \<le> 255")
    case True
    then have "readAKAChunk (of_nat (length (ak_IK r)) # ak_IK r) = Ret (ak_IK r, [])"
      using readAKAChunk_append [of "ak_IK r" "[]"] by simp
    with True show ?thesis
      by (simp add: aka_MarshalBinary_def appendAKAChunk_def aka_UnmarshalBinary_def index_def subslice_def readAKAChunk_append
          aka_normal_def Successful_def)
  next
    case False
    show ?thesis
    proof (cases "ak_RES r = [] \<and> ak_CK r = [] \<and> ak_IK r = [] \<and> length (ak_AUTS r) = 14")
      case True
      then have "readAKAChunk (14 # ak_AUTS r) = Ret (ak_AUTS r, [])" using readAKAChunk_append [of "ak_AUTS r" "[]"] by simp
      with True show ?thesis
        by (auto simp: aka_MarshalBinary_def appendAKAChunk_def aka_UnmarshalBinary_def index_def subslice_def aka_normal_def)
    next
      case f2: False
      have "readAKAChunk [0] = Ret ([], [])" using readAKAChunk_append [of "[]" "[]"] by simp
      with False f2 show ?thesis
        by (cases r) (auto simp: aka_MarshalBinary_def appendAKAChunk_def aka_UnmarshalBinary_def index_def subslice_def aka_normal_def
            Successful_def zeroAKA_def fail_if_def)
    qed
  qed
  show "case aka_UnmarshalBinary data of
        Panic \<Rightarrow> False
      | Fail e \<Rightarrow> True
      | Ret p \<Rightarrow> \<not> (Successful p \<and> (SynchronizationFailed p \<or> ak_Reject p)) \<and> \<not> (SynchronizationFailed p \<and> ak_Reject p)"
  proof (cases "aka_UnmarshalBinary data")
    case Panic
    then show ?thesis
      by (auto simp: aka_UnmarshalBinary_def bind_eq_Panic_iff index_def subslice_eq_Panic_iff readAKAChunk_no_panic Suc_le_eq
          split: if_splits prod.splits)
  next
    case (Ret p)
    then show ?thesis
      by (auto simp: aka_UnmarshalBinary_def Successful_def SynchronizationFailed_def zeroAKA_def split: if_splits prod.splits)
  qed simp
qed

section \<open>The SMS-PP download envelope\<close>

lemma appendTLV_emit: "length v \<le> 65535 \<Longrightarrow> appendTLV out tag v = out @ ber_emit \<lparr>Tag = tag, ItemValue = v\<rparr>"
  by (auto simp: appendTLV_def appendBERLength_def ber_emit_def marshalLength_def)

lemma appendBERLength_wrap: "length v \<le> 65535 \<Longrightarrow> appendBERLength [tag] (length v) @ v = ber_emit (New tag v)"
  by (auto simp: appendBERLength_def ber_emit_def marshalLength_def New_def)

lemma UnwrapBER_emit: "ber_valid (New t v) \<Longrightarrow> UnwrapBER (ber_emit (New t v)) = Ret (t, v)"
  by (simp add: UnwrapBER_eq_item_UnmarshalBinary item_UnmarshalBinary_emit New_def)

text \<open>The SMS-PP download envelope: for a TPDU and a service centre number of decimal digits, the
  envelope unwraps as tag D1 and its body parses, with the toolkit's own TLV decoder, into the device
  identities, the address when there is one, and the TPDU unchanged.\<close>

theorem smspp_envelope_parses:
  assumes "tpdu \<noteq> []" "length tpdu \<le> 65000" "list_all decimal ds" "ds \<noteq> []" "length ds \<le> 200"
  shows "\<exists>env body address. smspp_Envelope ((if intl then [0x2B] else []) @ ds) tpdu = Ret env
    \<and> UnwrapBER env = Ret (0xD1, body)
    \<and> items_UnmarshalBinary body = Ret [New 0x82 [0x83, 0x81], New 0x86 address, New 0x8B tpdu]
    \<and> address_UnmarshalBinary address = Ret ((if intl then [0x2B] else []) @ ds)"
proof -
  obtain address where a: "address_MarshalBinary ((if intl then [0x2B] else []) @ ds) = Ret address"
    "address_UnmarshalBinary address = Ret ((if intl then [0x2B] else []) @ ds)" "length address = 1 + (length ds + 1) div 2"
    using address_digits [OF assms(3,4)] by blast
  define items where "items = [New 0x82 [0x83, 0x81], New 0x86 address, New 0x8B tpdu]"
  define body where "body = concat (map ber_emit items)"
  have len: "length address \<le> 200" "address \<noteq> []" using a(3) assms(5) by auto
  have valid: "list_all ber_valid items" using len assms(2) by (simp add: items_def New_def ber_valid_def)
  have "length (ber_emit i) \<le> 4 + length (ItemValue i)" if "ber_valid i" for i
    using that by (auto simp: ber_emit_def ber_valid_def marshalLength_def)
  from this [of "New 0x82 [0x83, 0x81]"] this [of "New 0x86 address"] this [of "New 0x8B tpdu"]
  have "length body \<le> 65535" using valid len assms(2) by (simp add: body_def items_def New_def)
  then have v: "ber_valid (New 0xD1 body)" by (simp add: ber_valid_def New_def)
  have "appendTLV (appendTLV (appendTLV [] 0x82 [0x83, 0x81]) 0x86 address) 0x8B tpdu = body"
    using len assms(2) by (simp add: appendTLV_emit body_def items_def New_def)
  then have "smspp_Envelope ((if intl then [0x2B] else []) @ ds) tpdu = Ret (ber_emit (New 0xD1 body))"
    using assms(1) a(1) len \<open>length body \<le> 65535\<close> by (simp add: smspp_Envelope_def Let_def appendBERLength_wrap)
  moreover have "items_UnmarshalBinary body = Ret items" using ber.parse_emit [OF valid] by (simp add: body_def)
  ultimately show ?thesis using UnwrapBER_emit [OF v] a(2) by (auto simp: items_def)
qed

theorem smspp_envelope_parses_witness:
  "\<exists>env body address. smspp_Envelope [0x2B, 0x34, 0x39] [0x40, 0x00] = Ret env \<and> UnwrapBER env = Ret (0xD1, body)
    \<and> items_UnmarshalBinary body = Ret [New 0x82 [0x83, 0x81], New 0x86 address, New 0x8B [0x40, 0x00]]"
  using smspp_envelope_parses [of "[0x40, 0x00]" "[0x34, 0x39]" True] by (auto simp: decimal_def)

end
