(* ===== verification/Sim_Reader.thy ===== *)
theory Sim_Reader
  imports Actions Sim_Command "HOL-Library.Sublist"
begin

text \<open>
  The APDU card reader (\<^verbatim>\<open>sim/reader.go\<close>) and the file access of applications (\<^verbatim>\<open>sim/command/app.go\<close>). The
  card is a transmitter given as an argument: a function from a command and a state to an outcome and
  a state. Operations pass the reader's state along; a loop whose length the card decides runs on
  fuel, and \<open>None\<close> is a call that has not returned yet.
\<close>

section \<open>The reader\<close>

type_synonym ('s, 'e) tx = "bytes \<Rightarrow> 's \<Rightarrow> ('e, bytes) outcome \<times> 's"

record FileRef =
  fr_AID :: bytes
  fr_Path :: bytes

record FileAttributes =
  fa_FileStructure :: byte
  fa_FileType :: byte
  fa_RecordSize :: u16
  fa_RecordCount :: u16
  fa_FileSize :: u16

record Application =
  app_AID :: bytes
  app_Label :: bytes

record selection =
  sl_valid :: bool
  sl_file :: FileRef
  sl_info :: FCI

record 's Reader =
  rd_card :: 's
  rd_selected :: selection

datatype 'e reader_error =
    TxError 'e
  | MalformedAPDU
  | StatusError u16
  | CommandError command_error
  | DownloadError smspp_error
  | FileError sim_error
  | UnexpectedStructure
  | OffsetExceeds
  | PathEmpty
  | RecordZero
  | RecordTooLong u16

definition noSelection :: selection where
  "noSelection = \<lparr>sl_valid = False, sl_file = \<lparr>fr_AID = [], fr_Path = []\<rparr>, sl_info = zeroFCI\<rparr>"

definition NewReader :: "'s \<Rightarrow> 's Reader" where
  "NewReader s = \<lparr>rd_card = s, rd_selected = noSelection\<rparr>"

definition StructureTransparent :: byte where "StructureTransparent = 0x41"
definition StructureLinearFixed :: byte where "StructureLinearFixed = 0x42"

definition masterFile :: bytes where "masterFile = [0x3F, 0x00]"
definition efDirFile :: bytes where "efDirFile = [0x2F, 0x00]"

type_synonym ('s, 'e, 'a) reader_action = "('s Reader, 'e reader_error, 'a) action"

definition transmit_raw :: "('s, 'e) tx \<Rightarrow> bytes \<Rightarrow> ('s, 'e, bytes) reader_action" where
  "transmit_raw tx req = (\<lambda>r. case tx req (rd_card r) of (res, s) \<Rightarrow> Some (map_err TxError res, r\<lparr>rd_card := s\<rparr>))"

fun followGetResponse :: "('s, 'e) tx \<Rightarrow> nat \<Rightarrow> bytes \<Rightarrow> bytes \<Rightarrow> ('s, 'e, bytes) reader_action" where
  "followGetResponse tx 0 data resp = (\<lambda>r. None)"
| "followGetResponse tx (Suc fuel) data resp =
     (if response_HasMore resp
      then and_then (lifted (\<lambda>_. MalformedAPDU) (response_SW2 resp)) (\<lambda>len.
           and_then (lifted CommandError (request_MarshalBinary (plain_request 0x00 0xC0 0x00 0x00 [] (Some len)))) (\<lambda>req.
           and_then (transmit_raw tx req) (\<lambda>follow.
             unless (length follow < 2) MalformedAPDU
               (followGetResponse tx fuel (data @ response_Data follow) follow))))
      else and_then (lifted (\<lambda>_. MalformedAPDU) (response_SW resp)) (\<lambda>sw.
             done_with (data @ [ucast (drop_bit 8 sw), ucast sw])))"

definition transmitResponse :: "('s, 'e) tx \<Rightarrow> nat \<Rightarrow> bytes \<Rightarrow> ('s, 'e, bytes) reader_action" where
  "transmitResponse tx fuel req =
     and_then (transmit_raw tx req) (\<lambda>raw.
       unless (length raw < 2) MalformedAPDU (followGetResponse tx fuel (response_Data raw) raw))"

definition transmit :: "('s, 'e) tx \<Rightarrow> nat \<Rightarrow> bytes \<Rightarrow> ('s, 'e, bytes) reader_action" where
  "transmit tx fuel req =
     and_then (transmitResponse tx fuel req) (\<lambda>resp.
       if response_OK resp then done_with resp
       else and_then (lifted (\<lambda>_. MalformedAPDU) (response_SW resp)) (\<lambda>sw. raise (StatusError sw)))"

definition transmitEnvelope :: "('s, 'e) tx \<Rightarrow> nat \<Rightarrow> bytes \<Rightarrow> ('s, 'e, bytes) reader_action" where
  "transmitEnvelope tx fuel req =
     and_then (transmitResponse tx fuel req) (\<lambda>resp.
     and_then (lifted (\<lambda>_. MalformedAPDU) (response_SW1 resp)) (\<lambda>sw1.
       if sw1 = 0x90 \<or> sw1 = 0x91 then done_with resp
       else and_then (lifted (\<lambda>_. MalformedAPDU) (response_SW resp)) (\<lambda>sw. raise (StatusError sw))))"

definition transmitCommand :: "('s, 'e) tx \<Rightarrow> nat \<Rightarrow> (command_error, bytes) outcome \<Rightarrow> ('s, 'e, bytes) reader_action" where
  "transmitCommand tx fuel cmd = and_then (lifted CommandError cmd) (\<lambda>req. transmit tx fuel req)"

definition decodeFCI :: "('s, 'e) tx \<Rightarrow> nat \<Rightarrow> (command_error, bytes) outcome \<Rightarrow> ('s, 'e, FCI) reader_action" where
  "decodeFCI tx fuel cmd =
     and_then (transmitCommand tx fuel cmd) (\<lambda>raw. lifted FileError (fci_UnmarshalBinary (response_Data raw)))"

definition matches :: "selection \<Rightarrow> FileRef \<Rightarrow> bool" where
  "matches s file \<longleftrightarrow> sl_valid s \<and> fr_AID (sl_file s) = fr_AID file \<and> fr_Path (sl_file s) = fr_Path file"

definition set_selected :: "selection \<Rightarrow> ('s, 'e, unit) reader_action" where
  "set_selected s = (\<lambda>r. Some (Ret (), r\<lparr>rd_selected := s\<rparr>))"

definition selectFile :: "('s, 'e) tx \<Rightarrow> nat \<Rightarrow> FileRef \<Rightarrow> ('s, 'e, FCI) reader_action" where
  "selectFile tx fuel file =
     unless (length (fr_Path file) = 0) PathEmpty
      (\<lambda>r. if matches (rd_selected r) file then Some (Ret (sl_info (rd_selected r)), r)
           else and_then (decodeFCI tx fuel (if length (fr_AID file) > 0 then selectName (fr_AID file) else selectID masterFile)) (\<lambda>_.
                and_then (decodeFCI tx fuel (if length (fr_Path file) = 2 then selectID (fr_Path file) else selectPath (fr_Path file))) (\<lambda>info.
                and_then (set_selected \<lparr>sl_valid = True, sl_file = file, sl_info = info\<rparr>) (\<lambda>_. done_with info))) r)"

text \<open>The chunks of a binary read: at most 255 bytes each, the offset counting at 16 bits.\<close>

function binary_chunks :: "u16 \<Rightarrow> u16 \<Rightarrow> (u16 \<times> byte) list" where
  "binary_chunks ofs len =
     (if len > 0 then let chunk = min len 0xFF in (ofs, ucast chunk) # binary_chunks (ofs + chunk) (len - chunk) else [])"
  by pat_completeness auto
termination
proof (relation "measure (\<lambda>(ofs, len). unat len)")
  fix ofs len :: u16 and chunk
  assume "0 < len" "chunk = min len 0xFF"
  then have "0 < chunk" "chunk \<le> len" by (auto simp: min_def)
  then show "((ofs + chunk, len - chunk), ofs, len) \<in> measure (\<lambda>(ofs, len). unat len)"
    by (simp add: unat_sub word_less_nat_alt word_le_nat_alt)
qed simp

declare binary_chunks.simps [simp del]

definition readBinaryRaw :: "('s, 'e) tx \<Rightarrow> nat \<Rightarrow> u16 \<Rightarrow> u16 \<Rightarrow> ('s, 'e, bytes) reader_action" where
  "readBinaryRaw tx fuel ofs len =
     and_then (map_actions (\<lambda>(o', n). and_then (transmitCommand tx fuel (binaryRead o' n)) (\<lambda>raw. done_with (response_Data raw)))
                (binary_chunks ofs len)) (\<lambda>parts. done_with (concat parts))"

definition readRecordRaw :: "('s, 'e) tx \<Rightarrow> nat \<Rightarrow> u16 \<Rightarrow> u16 \<Rightarrow> ('s, 'e, bytes) reader_action" where
  "readRecordRaw tx fuel record_no len =
     unless (record_no = 0) RecordZero
      (unless (len > 0xFF) (RecordTooLong len)
        (and_then (transmitCommand tx fuel (recordRead (ucast record_no) (ucast len))) (\<lambda>raw. done_with (response_Data raw))))"

section \<open>Operations\<close>

definition attributes_of :: "FCI \<Rightarrow> FileAttributes" where
  "attributes_of info =
     \<lparr>fa_FileStructure = fci_FileStructure info, fa_FileType = fci_FileType info, fa_RecordSize = fci_RecordSize info,
      fa_RecordCount = ucast (fci_RecordCount info), fa_FileSize = fci_FileSize info\<rparr>"

definition reader_FileAttributes :: "('s, 'e) tx \<Rightarrow> nat \<Rightarrow> FileRef \<Rightarrow> ('s, 'e, FileAttributes) reader_action" where
  "reader_FileAttributes tx fuel file = and_then (selectFile tx fuel file) (\<lambda>info. done_with (attributes_of info))"

definition reader_ReadTransparent :: "('s, 'e) tx \<Rightarrow> nat \<Rightarrow> FileRef \<Rightarrow> u16 \<Rightarrow> u16 \<Rightarrow> ('s, 'e, bytes) reader_action" where
  "reader_ReadTransparent tx fuel file ofs len =
     and_then (selectFile tx fuel file) (\<lambda>info.
       unless (fci_FileStructure info \<noteq> StructureTransparent) UnexpectedStructure
        (if len = 0
         then unless (ofs > fci_FileSize info) OffsetExceeds (readBinaryRaw tx fuel ofs (fci_FileSize info - ofs))
         else readBinaryRaw tx fuel ofs len))"

definition reader_ReadRecord :: "('s, 'e) tx \<Rightarrow> nat \<Rightarrow> FileRef \<Rightarrow> u16 \<Rightarrow> u16 \<Rightarrow> ('s, 'e, bytes) reader_action" where
  "reader_ReadRecord tx fuel file record_no len =
     and_then (selectFile tx fuel file) (\<lambda>info.
       unless (fci_FileStructure info \<noteq> StructureLinearFixed) UnexpectedStructure
        (readRecordRaw tx fuel record_no (if len = 0 then fci_RecordSize info else len)))"

text \<open>The records of EF_DIR; an empty record is skipped. The record count is a byte, so the 16-bit loop
  counter does not wrap.\<close>

definition reader_ListApplications :: "('s, 'e) tx \<Rightarrow> nat \<Rightarrow> ('s, 'e, Application list) reader_action" where
  "reader_ListApplications tx fuel =
     and_then (decodeFCI tx fuel (selectID masterFile)) (\<lambda>_.
     and_then (decodeFCI tx fuel (selectID efDirFile)) (\<lambda>info.
       unless (fci_FileStructure info \<noteq> StructureLinearFixed) UnexpectedStructure
        (and_then (map_actions (\<lambda>n.
            and_then (readRecordRaw tx fuel (of_nat n) (fci_RecordSize info)) (\<lambda>raw. lifted FileError (efdir_UnmarshalBinary raw)))
            [1..<Suc (unat (fci_RecordCount info))]) (\<lambda>recs.
          done_with (map (\<lambda>r. \<lparr>app_AID = rec_AID r, app_Label = rec_Label r\<rparr>) (filter (\<lambda>r. length (rec_AID r) \<noteq> 0) recs))))))"

definition reader_Authenticate3G :: "('s, 'e) tx \<Rightarrow> nat \<Rightarrow> bytes \<Rightarrow> bytes \<Rightarrow> bytes \<Rightarrow> ('s, 'e, bytes) reader_action" where
  "reader_Authenticate3G tx fuel aid rand autn =
     and_then (if length aid \<noteq> 0
               then and_then (decodeFCI tx fuel (selectName aid)) (\<lambda>_. set_selected noSelection)
               else done_with ()) (\<lambda>_.
     and_then (transmitCommand tx fuel (authenticate3G rand autn)) (\<lambda>raw. done_with (response_Data raw)))"

definition reader_SMSPPDownload :: "('s, 'e) tx \<Rightarrow> nat \<Rightarrow> bytes \<Rightarrow> bytes \<Rightarrow> ('s, 'e, byte \<times> byte \<times> bytes) reader_action" where
  "reader_SMSPPDownload tx fuel sca tpdu =
     and_then (lifted DownloadError (smspp_MarshalBinary sca tpdu)) (\<lambda>req.
     and_then (transmitEnvelope tx fuel req) (\<lambda>raw.
     and_then (lifted (\<lambda>_. MalformedAPDU) (response_SW1 raw)) (\<lambda>sw1.
     and_then (lifted (\<lambda>_. MalformedAPDU) (response_SW2 raw)) (\<lambda>sw2. done_with (sw1, sw2, response_Data raw)))))"

section \<open>What the reader has selected\<close>

text \<open>The transmitter with a log of the commands sent, and the SELECT commands among them.\<close>

definition logged :: "('s, 'e) tx \<Rightarrow> ('s \<times> bytes list, 'e) tx" where
  "logged tx req st = (case st of (s, log) \<Rightarrow> case tx req s of (res, s') \<Rightarrow> (res, (s', log @ [req])))"

definition is_select :: "bytes \<Rightarrow> bool" where
  "is_select req \<longleftrightarrow> length req \<ge> 2 \<and> req ! 1 = 0xA4"

definition selects :: "('s \<times> bytes list) Reader \<Rightarrow> bytes list" where
  "selects r = filter is_select (snd (rd_card r))"

definition command_bytes :: "(command_error, bytes) outcome \<Rightarrow> bytes list" where
  "command_bytes cmd = (case cmd of Ret bs \<Rightarrow> [bs] | _ \<Rightarrow> [])"

definition select_sequence :: "FileRef \<Rightarrow> bytes list" where
  "select_sequence file =
     command_bytes (if length (fr_AID file) > 0 then selectName (fr_AID file) else selectID masterFile)
     @ command_bytes (if length (fr_Path file) = 2 then selectID (fr_Path file) else selectPath (fr_Path file))"

text \<open>The cache is coherent when the last SELECT commands sent are those of the cached file.\<close>

definition coherent :: "('s \<times> bytes list) Reader \<Rightarrow> bool" where
  "coherent r \<longleftrightarrow> (sl_valid (rd_selected r) \<longrightarrow> suffix (select_sequence (sl_file (rd_selected r))) (selects r))"

definition emits :: "bytes list \<Rightarrow> ('s \<times> bytes list, 'e, 'a) reader_action \<Rightarrow> bool" where
  "emits ss m \<longleftrightarrow> (\<forall>r x r'. m r = Some (Ret x, r') \<longrightarrow> rd_selected r' = rd_selected r \<and> selects r' = selects r @ ss)"

lemma emits_done: "emits [] (done_with x)"
  by (simp add: emits_def done_with_def)

lemma emits_raise: "emits ss (raise e)"
  by (simp add: emits_def raise_def)

lemma emits_lifted: "emits [] (lifted h m)"
  by (simp add: emits_def lifted_def)

lemma emits_unless: "(\<not> c \<Longrightarrow> emits ss k) \<Longrightarrow> emits ss (unless c e k)"
  by (simp add: unless_def emits_raise)

lemma emits_and_then: "emits a m \<Longrightarrow> (\<And>x. emits b (f x)) \<Longrightarrow> emits (a @ b) (and_then m f)"
  unfolding emits_def by (metis and_then_Ret append.assoc)

lemma emits_quiet: "emits [] m \<Longrightarrow> (\<And>x. emits [] (f x)) \<Longrightarrow> emits [] (and_then m f)"
  using emits_and_then [of "[]" m "[]" f] by simp

lemma emits_then_quiet: "emits ss m \<Longrightarrow> (\<And>x. emits [] (f x)) \<Longrightarrow> emits ss (and_then m f)"
  using emits_and_then [of ss m "[]" f] by simp

lemma emits_after_quiet: "emits [] m \<Longrightarrow> (\<And>x. emits ss (f x)) \<Longrightarrow> emits ss (and_then m f)"
  using emits_and_then [of "[]" m ss f] by simp

lemma emits_transmit_raw: "emits (if is_select req then [req] else []) (transmit_raw (logged tx) req)"
  by (auto simp: emits_def transmit_raw_def logged_def selects_def split: prod.splits)

lemmas emits_intros = emits_done emits_raise emits_lifted emits_unless emits_quiet

lemma select_opcode: "request_MarshalBinary (plain_request cla ins p1 p2 data le) = Ret req \<Longrightarrow> is_select req \<longleftrightarrow> ins = 0xA4"
  by (auto simp: request_MarshalBinary_eq plain_request_def request_buffer_def is_select_def split: if_splits)

lemma emits_follow: "emits [] (followGetResponse (logged tx) fuel data resp)"
proof (induction fuel arbitrary: data resp)
  case 0
  then show ?case by (simp add: emits_def)
next
  case (Suc fuel)
  have get: "emits [] (and_then (lifted CommandError (request_MarshalBinary (plain_request 0x00 0xC0 0x00 0x00 [] (Some len)))) (\<lambda>req.
           and_then (transmit_raw (logged tx) req) (\<lambda>follow.
             unless (length follow < 2) MalformedAPDU
               (followGetResponse (logged tx) fuel (data @ response_Data follow) follow))))" for len
  proof -
    obtain req where m: "request_MarshalBinary (plain_request 0x00 0xC0 0x00 0x00 [] (Some len)) = Ret req"
      by (simp add: request_MarshalBinary_eq plain_request_def)
    then have "\<not> is_select req" using select_opcode by fastforce
    then have "emits [] (transmit_raw (logged tx) req)" using emits_transmit_raw [of req tx] by simp
    then have "emits [] (and_then (transmit_raw (logged tx) req) (\<lambda>follow.
             unless (length follow < 2) MalformedAPDU (followGetResponse (logged tx) fuel (data @ response_Data follow) follow)))"
      by (intro emits_quiet emits_unless Suc)
    then show ?thesis by (auto simp: emits_def and_then_def lifted_def m)
  qed
  show ?case by (auto intro!: emits_quiet emits_lifted emits_done get)
qed

lemma emits_transmit:
  assumes "is_select req \<longleftrightarrow> b"
  shows "emits (if b then [req] else []) (transmit (logged tx) fuel req)"
  unfolding transmit_def transmitResponse_def assms [symmetric]
  by (intro emits_then_quiet emits_transmit_raw emits_unless emits_follow) (simp add: emits_done emits_quiet emits_lifted emits_raise)

lemma emits_command:
  assumes "cmd = request_MarshalBinary (plain_request cla ins p1 p2 data le)"
  shows "emits (if ins = 0xA4 then command_bytes cmd else []) (transmitCommand (logged tx) fuel cmd)"
proof (cases cmd)
  case (Ret req)
  from emits_transmit [OF select_opcode, of cla ins p1 p2 data le req tx fuel] assms Ret
  have "emits (if ins = 0xA4 then [req] else []) (transmit (logged tx) fuel req)" by simp
  then show ?thesis by (auto simp: transmitCommand_def Ret emits_def and_then_def lifted_def command_bytes_def)
qed (auto simp: transmitCommand_def emits_def and_then_def lifted_def)

lemma emits_select:
  "emits (command_bytes (selectRequest p1 v)) (transmitCommand (logged tx) fuel (selectRequest p1 v))"
  using emits_command [OF selectRequest_def [of p1 v]] by simp

lemma emits_decodeFCI:
  "emits (command_bytes (selectRequest p1 v)) (decodeFCI (logged tx) fuel (selectRequest p1 v))"
  unfolding decodeFCI_def by (intro emits_then_quiet emits_select emits_lifted)

lemma emits_recordRead: "emits [] (transmitCommand (logged tx) fuel (recordRead n len))"
  using emits_command [OF recordRead_def [of n len]] by simp

lemma emits_binaryRead: "emits [] (transmitCommand (logged tx) fuel (binaryRead ofs len))"
  using emits_command [OF binaryRead_def [of ofs len]] by simp

lemma emits_map: "(\<And>x. emits [] (f x)) \<Longrightarrow> emits [] (map_actions f xs)"
  by (induction xs) (auto intro!: emits_intros)

lemma emits_readRecordRaw: "emits [] (readRecordRaw (logged tx) fuel n len)"
  unfolding readRecordRaw_def by (intro emits_unless emits_quiet emits_recordRead emits_done)

lemma emits_readBinaryRaw: "emits [] (readBinaryRaw (logged tx) fuel ofs len)"
  unfolding readBinaryRaw_def by (intro emits_quiet emits_map emits_done) (auto intro!: emits_quiet emits_binaryRead emits_done)

lemma selectFile_coherent:
  assumes "coherent r" "selectFile (logged tx) fuel file r = Some (Ret info, r')"
  shows "coherent r' \<and> suffix (select_sequence file) (selects r')"
proof (cases "matches (rd_selected r) file")
  case True
  then have "r' = r" using assms(2) by (auto simp: selectFile_def unless_def raise_def split: if_splits)
  moreover have "sl_file (rd_selected r) = file" using True by (simp add: matches_def FileRef.equality)
  ultimately show ?thesis using assms(1) True by (simp add: coherent_def matches_def)
next
  case False
  let ?c1 = "if length (fr_AID file) > 0 then selectName (fr_AID file) else selectID masterFile"
  let ?c2 = "if length (fr_Path file) = 2 then selectID (fr_Path file) else selectPath (fr_Path file)"
  have e1: "emits (command_bytes ?c1) (decodeFCI (logged tx) fuel ?c1)" by (simp add: selectName_def selectID_def emits_decodeFCI)
  have e2: "emits (command_bytes ?c2) (decodeFCI (logged tx) fuel ?c2)" by (simp add: selectPath_def selectID_def emits_decodeFCI)
  from assms(2) False obtain a r1 r2 where
    1: "decodeFCI (logged tx) fuel ?c1 r = Some (Ret a, r1)" and 2: "decodeFCI (logged tx) fuel ?c2 r1 = Some (Ret info, r2)"
    and 3: "r' = r2\<lparr>rd_selected := \<lparr>sl_valid = True, sl_file = file, sl_info = info\<rparr>\<rparr>"
    by (auto simp: selectFile_def unless_def raise_def set_selected_def done_with_def split: if_splits elim!: and_then_Ret)
  have "selects r2 = selects r @ select_sequence file" using e1 e2 1 2 by (simp add: emits_def select_sequence_def)
  then show ?thesis by (simp add: 3 coherent_def selects_def suffix_def)
qed

lemma quiet_after_select:
  assumes "coherent r" "and_then (selectFile (logged tx) fuel file) f r = Some (Ret x, r')" "\<And>info. emits [] (f info)"
  shows "coherent r' \<and> suffix (select_sequence file) (selects r')"
  using assms(2)
proof (rule and_then_Ret)
  fix info r1 assume s: "selectFile (logged tx) fuel file r = Some (Ret info, r1)" "f info r1 = Some (Ret x, r')"
  have "rd_selected r' = rd_selected r1 \<and> selects r' = selects r1" using assms(3) [of info] s(2) by (simp add: emits_def)
  with selectFile_coherent [OF assms(1) s(1)] show ?thesis by (simp add: coherent_def)
qed

lemma NewReader_coherent: "coherent (NewReader s)"
  by (simp add: coherent_def NewReader_def noSelection_def)


section \<open>A card, and what the cache misses\<close>

text \<open>A small card with EF_DIR and one linear fixed file 6F40: it remembers the file selected last,
  answers SELECT with the control information of a linear fixed file of one record, and READ RECORD
  with the record of the selected file.\<close>

definition example_fci :: bytes where
  "example_fci = [0x62, 0x07, 0x82, 0x05, 0x42, 0x21, 0x00, 0x06, 0x01]"

definition example_record :: "bytes \<Rightarrow> bytes" where
  "example_record f = (if f = efDirFile then [0x61, 0x04, 0x4F, 0x02, 0xA0, 0x87] else [0x11, 0x22, 0x33, 0x44, 0x55, 0x66])"

definition example_card :: "(bytes, unit) tx" where
  "example_card req s =
     (if req ! 1 = 0xA4 then (Ret (example_fci @ [0x90, 0x00]), drop 5 req)
      else if req ! 1 = 0xB2 then (Ret (example_record s @ [0x90, 0x00]), s)
      else (Ret [0x6D, 0x00], s))"

definition example_file :: FileRef where
  "example_file = \<lparr>fr_AID = [], fr_Path = [0x6F, 0x40]\<rparr>"

definition state_of :: "(('e, 'a) outcome \<times> 'r) option \<Rightarrow> 'r \<Rightarrow> 'r" where
  "state_of m r = (case m of Some (_, r') \<Rightarrow> r' | None \<Rightarrow> r)"

definition value_of :: "(('e, 'a) outcome \<times> 'r) option \<Rightarrow> 'a option" where
  "value_of m = (case m of Some (Ret x, _) \<Rightarrow> Some x | _ \<Rightarrow> None)"

definition after_attributes :: "bytes Reader" where
  "after_attributes = state_of (reader_FileAttributes example_card 2 example_file (NewReader masterFile)) (NewReader masterFile)"

definition after_list :: "bytes Reader" where
  "after_list = state_of (reader_ListApplications example_card 2 after_attributes) after_attributes"


text \<open>Listing the applications leaves a stale cache: on this card, after \<open>FileAttributes\<close> of 6F40 and
  \<open>ListApplications\<close>, \<open>ReadRecord\<close> of 6F40 returns the record of EF_DIR, which the card has selected in the
  meantime, while the same call before \<open>ListApplications\<close> returns the record of 6F40.\<close>

theorem list_applications_stale_cache:
  "value_of (reader_ReadRecord example_card 2 example_file 1 0 after_attributes) = Some (example_record [0x6F, 0x40])
   \<and> value_of (reader_ReadRecord example_card 2 example_file 1 0 after_list) = Some (example_record efDirFile)
   \<and> example_record efDirFile \<noteq> example_record [0x6F, 0x40]"
  by code_simp

end
