(* ===== verification/Sim_App.thy ===== *)
theory Sim_App
  imports Sim_Reader
begin

text \<open>
  Applications on a card (\<^verbatim>\<open>sim/command/app.go\<close>) and the subscriber card (\<^verbatim>\<open>sim/card.go\<close>): finding an
  application, reading whole files, loading the identities of USIM and ISIM, and authentication with
  its fallbacks. The code calls any \<^verbatim>\<open>simcard.Reader\<close>; the interface is a record of actions, and every
  operation takes one as argument. The loops over records count in \<open>uint16\<close> and run on fuel.
\<close>

section \<open>The reader interface\<close>

record ('r, 'e) CardReader =
  rdr_ListApplications :: "('r, 'e, Application list) action"
  rdr_FileAttributes :: "FileRef \<Rightarrow> ('r, 'e, FileAttributes) action"
  rdr_ReadTransparent :: "FileRef \<Rightarrow> u16 \<Rightarrow> u16 \<Rightarrow> ('r, 'e, bytes) action"
  rdr_ReadRecord :: "FileRef \<Rightarrow> u16 \<Rightarrow> u16 \<Rightarrow> ('r, 'e, bytes) action"
  rdr_Authenticate3G :: "bytes \<Rightarrow> bytes \<Rightarrow> bytes \<Rightarrow> bool \<Rightarrow> ('r, 'e, bytes) action"
  rdr_SMSPPDownload :: "bytes \<Rightarrow> bytes \<Rightarrow> ('r, 'e, byte \<times> byte \<times> bytes) action"

datatype 'e app_error =
    ReaderError 'e
  | ApplicationNotFound
  | StructureMismatch byte
  | NoRecords
  | NoPopulatedRecord
  | BadFile sim_error
  | BadResult aka_error
  | ChallengeLength
  | IMSITooShort
  | MNCLengthUnsupported nat
  | SMSCNotFound

type_synonym ('r, 'e, 'a) app_action = "('r, 'e app_error, 'a) action"

text \<open>\<open>strings.EqualFold\<close> against an ASCII string: a rune equals an ASCII letter when it is the letter in
  either case, the long s (017F) for S, or the Kelvin sign (212A) for K.\<close>

definition fold_rune :: "rune \<Rightarrow> rune" where
  "fold_rune r = (if 0x41 \<le> r \<and> r \<le> 0x5A then r + 0x20 else if r = 0x17F then 0x73 else if r = 0x212A then 0x6B else r)"

definition EqualFold_ascii :: "bytes \<Rightarrow> bytes \<Rightarrow> bool" where
  "EqualFold_ascii s t \<longleftrightarrow> map fold_rune (utf8_runes s) = map (fold_rune \<circ> unat) t"

section \<open>Applications\<close>

record FindAID =
  fa_Label :: bytes
  fa_Prefix :: bytes

definition findAID_matches :: "FindAID \<Rightarrow> Application \<Rightarrow> bool" where
  "findAID_matches c app \<longleftrightarrow>
     length (app_AID app) \<noteq> 0
     \<and> (EqualFold_ascii (app_Label app) (fa_Label c)
        \<or> length (fa_Prefix c) > 0 \<and> take (length (fa_Prefix c)) (app_AID app) = fa_Prefix c)"

definition findAID_Run :: "FindAID \<Rightarrow> ('r, 'e) CardReader \<Rightarrow> ('r, 'e, bytes) app_action" where
  "findAID_Run c rd =
     and_then (map_action_err ReaderError (rdr_ListApplications rd)) (\<lambda>apps.
       case find (findAID_matches c) apps of
         Some app \<Rightarrow> done_with (app_AID app)
       | None \<Rightarrow> raise ApplicationNotFound)"

record ('r, 'e) App =
  app_Reader :: "('r, 'e) CardReader"
  app_aid :: bytes

definition app_file :: "('r, 'e) App \<Rightarrow> bytes \<Rightarrow> FileRef" where
  "app_file a path = \<lparr>fr_AID = app_aid a, fr_Path = path\<rparr>"

definition fileStructure :: "('r, 'e) App \<Rightarrow> FileRef \<Rightarrow> byte \<Rightarrow> ('r, 'e, FileAttributes) app_action" where
  "fileStructure a fref want =
     and_then (map_action_err ReaderError (rdr_FileAttributes (app_Reader a) fref)) (\<lambda>attrs.
       unless (fa_FileStructure attrs \<noteq> want) (StructureMismatch (fa_FileStructure attrs)) (done_with attrs))"

definition app_Transparent :: "('r, 'e) App \<Rightarrow> bytes \<Rightarrow> ('r, 'e, bytes) app_action" where
  "app_Transparent a path =
     and_then (fileStructure a (app_file a path) StructureTransparent) (\<lambda>attrs.
       map_action_err ReaderError (rdr_ReadTransparent (app_Reader a) (app_file a path) 0 (fa_FileSize attrs)))"

definition app_Text :: "('r, 'e) App \<Rightarrow> bytes \<Rightarrow> ('r, 'e, bytes) app_action" where
  "app_Text a path = and_then (app_Transparent a path) (\<lambda>data. lifted BadFile (text_UnmarshalBinary data))"

definition app_ReadRecord :: "('r, 'e) App \<Rightarrow> bytes \<Rightarrow> FileAttributes \<Rightarrow> u16 \<Rightarrow> ('r, 'e, bytes) app_action" where
  "app_ReadRecord a path attrs recordID =
     map_action_err ReaderError (rdr_ReadRecord (app_Reader a) (app_file a path) recordID (fa_RecordSize attrs))"

fun linear_loop :: "('r, 'e) App \<Rightarrow> bytes \<Rightarrow> FileAttributes \<Rightarrow> nat \<Rightarrow> u16 \<Rightarrow> bytes list \<Rightarrow> ('r, 'e, bytes list) app_action" where
  "linear_loop a path attrs 0 recordID records = (\<lambda>r. None)"
| "linear_loop a path attrs (Suc fuel) recordID records =
     (if recordID \<le> fa_RecordCount attrs
      then and_then (app_ReadRecord a path attrs recordID) (\<lambda>record.
             linear_loop a path attrs fuel (recordID + 1) (records @ [record]))
      else done_with records)"

definition app_LinearFixed :: "('r, 'e) App \<Rightarrow> nat \<Rightarrow> bytes \<Rightarrow> ('r, 'e, bytes list) app_action" where
  "app_LinearFixed a fuel path =
     and_then (fileStructure a (app_file a path) StructureLinearFixed) (\<lambda>attrs.
       unless (fa_RecordCount attrs = 0) NoRecords (linear_loop a path attrs fuel 1 []))"

fun first_text_loop :: "('r, 'e) App \<Rightarrow> bytes \<Rightarrow> FileAttributes \<Rightarrow> nat \<Rightarrow> u16 \<Rightarrow> ('r, 'e, bytes) app_action" where
  "first_text_loop a path attrs 0 recordID = (\<lambda>r. None)"
| "first_text_loop a path attrs (Suc fuel) recordID =
     (if recordID \<le> fa_RecordCount attrs
      then and_then (app_ReadRecord a path attrs recordID) (\<lambda>record.
             case text_UnmarshalBinary record of
               Ret val \<Rightarrow> if val \<noteq> [] then done_with val else first_text_loop a path attrs fuel (recordID + 1)
             | Fail _ \<Rightarrow> first_text_loop a path attrs fuel (recordID + 1)
             | Panic \<Rightarrow> (\<lambda>r. Some (Panic, r)))
      else raise NoPopulatedRecord)"

definition app_FirstText :: "('r, 'e) App \<Rightarrow> nat \<Rightarrow> bytes \<Rightarrow> ('r, 'e, bytes) app_action" where
  "app_FirstText a fuel path =
     and_then (fileStructure a (app_file a path) StructureLinearFixed) (\<lambda>attrs.
       unless (fa_RecordCount attrs = 0) NoRecords (first_text_loop a path attrs fuel 1))"

section \<open>The card\<close>

record ServiceCenter =
  sc_Address :: bytes
  sc_PSI :: bytes

definition Target :: "ServiceCenter \<Rightarrow> bytes" where
  "Target s =
     (let psi = TrimSpace (sc_PSI s) in
      if psi \<noteq> [] then psi
      else let address = TrimSpace (sc_Address s) in
        if address = [] then [] else [0x74, 0x65, 0x6C, 0x3A] @ address)"

record Card =
  c_aid :: bytes
  c_isimAID :: bytes
  c_iccid :: bytes
  c_imsi :: bytes
  c_mcc :: bytes
  c_mnc :: bytes
  c_mncLength :: nat
  c_gid1 :: bytes
  c_gid2 :: bytes
  c_spn :: bytes
  c_serviceCenter :: ServiceCenter
  c_privateIdentity :: bytes
  c_publicIdentity :: bytes
  c_homeDomain :: bytes

definition fileEFICCID :: bytes where "fileEFICCID = [0x2F, 0xE2]"
definition fileEFIMSI :: bytes where "fileEFIMSI = [0x6F, 0x07]"
definition fileEFAD :: bytes where "fileEFAD = [0x6F, 0xAD]"
definition fileEFSMSP :: bytes where "fileEFSMSP = [0x6F, 0x42]"
definition fileEFGID1 :: bytes where "fileEFGID1 = [0x6F, 0x3E]"
definition fileEFGID2 :: bytes where "fileEFGID2 = [0x6F, 0x3F]"
definition fileEFSPN :: bytes where "fileEFSPN = [0x6F, 0x46]"
definition pathEFPSISMSC :: bytes where "pathEFPSISMSC = [0x7F, 0x10, 0x6F, 0xE5]"
definition fileEFIMPI :: bytes where "fileEFIMPI = [0x6F, 0x02]"
definition fileEFDomain :: bytes where "fileEFDomain = [0x6F, 0x03]"
definition fileEFIMPU :: bytes where "fileEFIMPU = [0x6F, 0x04]"

definition findUSIM :: FindAID where
  "findUSIM = \<lparr>fa_Label = [0x55, 0x53, 0x49, 0x4D], fa_Prefix = [0xA0, 0x00, 0x00, 0x00, 0x87, 0x10, 0x02]\<rparr>"

definition findISIM :: FindAID where
  "findISIM = \<lparr>fa_Label = [0x49, 0x53, 0x49, 0x4D], fa_Prefix = [0xA0, 0x00, 0x00, 0x00, 0x87, 0x10, 0x04]\<rparr>"

definition zeroCard :: Card where
  "zeroCard = \<lparr>c_aid = [], c_isimAID = [], c_iccid = [], c_imsi = [], c_mcc = [], c_mnc = [], c_mncLength = 0, c_gid1 = [], c_gid2 = [],
     c_spn = [], c_serviceCenter = \<lparr>sc_Address = [], sc_PSI = []\<rparr>, c_privateIdentity = [], c_publicIdentity = [], c_homeDomain = []\<rparr>"

fun firstSMSC :: "bytes list \<Rightarrow> ('e app_error, bytes) outcome" where
  "firstSMSC [] = Fail SMSCNotFound"
| "firstSMSC (rec # records) =
     bind (map_err BadFile (smsc_UnmarshalBinary [] rec)) (\<lambda>smsc. if smsc \<noteq> [] then Ret smsc else firstSMSC records)"

definition mncFromIMSI :: "bytes \<Rightarrow> nat \<Rightarrow> ('e app_error, bytes) outcome" where
  "mncFromIMSI imsi mncLength =
     fail_if (length imsi < 3 + mncLength) IMSITooShort
      (if mncLength = 2 \<or> mncLength = 3 then subslice imsi 3 (3 + mncLength) else Fail (MNCLengthUnsupported mncLength))"

text \<open>\<open>loadISIM\<close> gives the card, changed or not, and its error: the application identifier is kept even
  when a later file cannot be read.\<close>

definition after_at :: "bytes \<Rightarrow> bytes" where
  "after_at s = drop 1 (dropWhile (\<lambda>c. c \<noteq> 0x40) s)"

definition loadISIM_files :: "('r, 'e) App \<Rightarrow> nat \<Rightarrow> Card \<Rightarrow> ('r, 'e, Card) app_action" where
  "loadISIM_files isimApp fuel u =
     and_then (app_Text isimApp fileEFIMPI) (\<lambda>privateIdentity.
     and_then (attempt (app_Text isimApp fileEFDomain)) (\<lambda>domain.
     and_then (app_FirstText isimApp fuel fileEFIMPU) (\<lambda>publicIdentity.
     and_then (attempt (app_FirstText isimApp fuel pathEFPSISMSC)) (\<lambda>psi.
       let homeDomain = (case domain of Ret d \<Rightarrow> d | _ \<Rightarrow> []);
           serviceCenter = (case psi of Ret p \<Rightarrow> (c_serviceCenter u)\<lparr>sc_PSI := p\<rparr> | _ \<Rightarrow> c_serviceCenter u);
           homeDomain = (if homeDomain = [] \<and> 0x40 \<in> set privateIdentity then after_at privateIdentity else homeDomain)
       in done_with (u\<lparr>c_privateIdentity := privateIdentity, c_publicIdentity := publicIdentity, c_homeDomain := homeDomain,
                       c_serviceCenter := serviceCenter\<rparr>)))))"

definition loadISIM :: "('r, 'e) CardReader \<Rightarrow> nat \<Rightarrow> Card \<Rightarrow> ('r, 'e, Card \<times> 'e app_error option) app_action" where
  "loadISIM tx fuel u =
     and_then (attempt (findAID_Run findISIM tx)) (\<lambda>found.
       case found of
         Ret aid \<Rightarrow>
           (let u = u\<lparr>c_isimAID := aid\<rparr> in
            and_then (attempt (loadISIM_files \<lparr>app_Reader = tx, app_aid = aid\<rparr> fuel u)) (\<lambda>res.
              case res of Ret u' \<Rightarrow> done_with (u', None) | Fail e \<Rightarrow> done_with (u, Some e) | Panic \<Rightarrow> (\<lambda>r. Some (Panic, r))))
       | Fail e \<Rightarrow> done_with (u, Some e)
       | Panic \<Rightarrow> (\<lambda>r. Some (Panic, r)))"

text \<open>\<open>load\<close> in its three parts: the mandatory identities, the optional files, the ISIM.\<close>

definition load_identity :: "('r, 'e) CardReader \<Rightarrow> Card \<Rightarrow> ('r, 'e, Card) app_action" where
  "load_identity tx u =
     and_then (findAID_Run findUSIM tx) (\<lambda>aid.
     let rootApp = \<lparr>app_Reader = tx, app_aid = []\<rparr>; usimApp = \<lparr>app_Reader = tx, app_aid = aid\<rparr> in
     and_then (app_Transparent rootApp fileEFICCID) (\<lambda>iccidData.
     and_then (lifted BadFile (iccid_UnmarshalBinary iccidData)) (\<lambda>iccid.
     and_then (app_Transparent usimApp fileEFIMSI) (\<lambda>imsiData.
     and_then (lifted BadFile (imsi_UnmarshalBinary imsiData)) (\<lambda>imsi.
     and_then (app_Transparent usimApp fileEFAD) (\<lambda>adData.
     and_then (lifted BadFile (ad_UnmarshalBinary adData)) (\<lambda>mncLength.
     and_then (lifted id (mncFromIMSI (im_Digits imsi) mncLength)) (\<lambda>mnc.
       done_with (u\<lparr>c_aid := aid, c_iccid := iccid, c_imsi := im_Digits imsi, c_mcc := im_MCC imsi, c_mnc := mnc,
                    c_mncLength := mncLength\<rparr>)))))))))"

definition load_optional :: "('r, 'e) CardReader \<Rightarrow> nat \<Rightarrow> Card \<Rightarrow> ('r, 'e, Card) app_action" where
  "load_optional tx fuel u =
     (let usimApp = \<lparr>app_Reader = tx, app_aid = c_aid u\<rparr> in
     and_then (attempt (app_Transparent usimApp fileEFGID1)) (\<lambda>gid1.
     and_then (attempt (app_Transparent usimApp fileEFGID2)) (\<lambda>gid2.
     and_then (attempt (app_Transparent usimApp fileEFSPN)) (\<lambda>spn.
     and_then (attempt (app_LinearFixed usimApp fuel fileEFSMSP)) (\<lambda>smsp.
     and_then (attempt (app_FirstText usimApp fuel pathEFPSISMSC)) (\<lambda>psi.
       let u = (case gid1 of Ret d \<Rightarrow> u\<lparr>c_gid1 := hex_EncodeUpper d\<rparr> | _ \<Rightarrow> u);
           u = (case gid2 of Ret d \<Rightarrow> u\<lparr>c_gid2 := hex_EncodeUpper d\<rparr> | _ \<Rightarrow> u);
           u = (case spn of Ret d \<Rightarrow> (case spn_UnmarshalBinary d of Ret name \<Rightarrow> u\<lparr>c_spn := name\<rparr> | _ \<Rightarrow> u) | _ \<Rightarrow> u);
           u = (case smsp of
                  Ret records \<Rightarrow>
                    (case (firstSMSC records :: ('e app_error, bytes) outcome) of
                       Ret smsc \<Rightarrow> u\<lparr>c_serviceCenter := (c_serviceCenter u)\<lparr>sc_Address := smsc\<rparr>\<rparr> | _ \<Rightarrow> u)
                | _ \<Rightarrow> u);
           u = (case psi of Ret p \<Rightarrow> u\<lparr>c_serviceCenter := (c_serviceCenter u)\<lparr>sc_PSI := p\<rparr>\<rparr> | _ \<Rightarrow> u)
       in done_with u))))))"

definition load :: "('r, 'e) CardReader \<Rightarrow> nat \<Rightarrow> Card \<Rightarrow> ('r, 'e, Card) app_action" where
  "load tx fuel u =
     and_then (load_identity tx u) (\<lambda>u.
     and_then (load_optional tx fuel u) (\<lambda>u.
     and_then (loadISIM tx fuel u) (\<lambda>(u, _). done_with u)))"

definition card_New :: "('r, 'e) CardReader \<Rightarrow> nat \<Rightarrow> ('r, 'e, Card) app_action" where
  "card_New tx fuel = load tx fuel zeroCard"

definition card_authenticate3G :: "('r, 'e) CardReader \<Rightarrow> bytes \<Rightarrow> bytes \<Rightarrow> bytes \<Rightarrow> bool \<Rightarrow> ('r, 'e, Authenticate3GResult) app_action" where
  "card_authenticate3G tx aid rand autn eapAKA =
     and_then (map_action_err ReaderError (rdr_Authenticate3G tx aid rand autn eapAKA)) (\<lambda>payload.
       lifted BadResult (aka_UnmarshalBinary payload))"

text \<open>A second attempt that is made only after an error of the first, and whose own error is dropped.\<close>

definition or_else :: "('r, 'e, 'a) action \<Rightarrow> ('e \<Rightarrow> ('r, 'e, 'a) action) \<Rightarrow> ('r, 'e, 'a) action" where
  "or_else m f =
     and_then (attempt m) (\<lambda>res. case res of Ret x \<Rightarrow> done_with x | Fail e \<Rightarrow> f e | Panic \<Rightarrow> (\<lambda>r. Some (Panic, r)))"

definition card_AKA :: "('r, 'e) CardReader \<Rightarrow> Card \<Rightarrow> bytes \<Rightarrow> bytes \<Rightarrow> ('r, 'e, Authenticate3GResult) app_action" where
  "card_AKA tx u rand autn =
     unless (length rand \<noteq> 16 \<or> length autn \<noteq> 16) ChallengeLength
      (or_else (card_authenticate3G tx (c_aid u) rand autn False) (\<lambda>err.
        if length (c_isimAID u) = 0 then raise err
        else or_else (card_authenticate3G tx (c_isimAID u) rand autn False) (\<lambda>_. raise err)))"

definition card_EAPAKA :: "('r, 'e) CardReader \<Rightarrow> Card \<Rightarrow> bytes \<Rightarrow> bytes \<Rightarrow> ('r, 'e, Authenticate3GResult) app_action" where
  "card_EAPAKA tx u rand autn =
     unless (length rand \<noteq> 16 \<or> length autn \<noteq> 16) ChallengeLength
      (or_else (card_authenticate3G tx (c_aid u) rand autn True) (\<lambda>_.
        if length (c_isimAID u) \<noteq> 0
        then or_else (card_authenticate3G tx (c_isimAID u) rand autn True) (\<lambda>_. card_AKA tx u rand autn)
        else card_AKA tx u rand autn))"

definition card_SMSPPDownload :: "('r, 'e) CardReader \<Rightarrow> bytes \<Rightarrow> bytes \<Rightarrow> ('r, 'e, byte \<times> byte \<times> bytes) app_action" where
  "card_SMSPPDownload tx sca tpdu = map_action_err ReaderError (rdr_SMSPPDownload tx sca tpdu)"

section \<open>Reading all records\<close>

lemma u16_plus_1: "unat (i :: u16) < 65535 \<Longrightarrow> unat (i + 1) = Suc (unat i)"
  by (simp add: unat_word_ariths)

lemma linear_loop_map:
  assumes "unat (fa_RecordCount attrs) < 65535" "unat i + fuel > Suc (unat (fa_RecordCount attrs))" "unat i \<le> Suc (unat (fa_RecordCount attrs))"
  shows "linear_loop a path attrs fuel i records =
    and_then (map_actions (\<lambda>k. app_ReadRecord a path attrs (of_nat k)) [unat i..<Suc (unat (fa_RecordCount attrs))])
      (\<lambda>rest. done_with (records @ rest))"
  using assms(2,3)
proof (induction fuel arbitrary: i records)
  case (Suc fuel)
  show ?case
  proof (cases "i \<le> fa_RecordCount attrs")
    case True
    then have le: "unat i \<le> unat (fa_RecordCount attrs)" by (simp add: word_le_nat_alt)
    then have step: "unat (i + 1) = Suc (unat i)" using assms(1) by (intro u16_plus_1) simp
    have "linear_loop a path attrs fuel (i + 1) (records @ [rec]) =
      and_then (map_actions (\<lambda>k. app_ReadRecord a path attrs (of_nat k)) [Suc (unat i)..<Suc (unat (fa_RecordCount attrs))])
        (\<lambda>rest. done_with ((records @ [rec]) @ rest))" for rec
      using Suc.IH [of "i + 1" "records @ [rec]"] Suc.prems le by (simp add: step)
    moreover have "[unat i..<Suc (unat (fa_RecordCount attrs))] = unat i # [Suc (unat i)..<Suc (unat (fa_RecordCount attrs))]"
      using le by (simp add: upt_conv_Cons)
    ultimately show ?thesis using True by (simp add: and_then_assoc)
  next
    case False
    then have "unat i = Suc (unat (fa_RecordCount attrs))" using Suc.prems by (simp add: word_le_nat_alt)
    with False show ?thesis by simp
  qed
qed simp

text \<open>\<open>LinearFixed\<close> reads every record once and in order: with fewer than 65535 records and fuel for one
  more iteration, its loop is the reading of the records 1 to the record count in sequence, which
  stops at the first error.\<close>

theorem linear_fixed_reads_all:
  assumes "0 < fa_RecordCount attrs" "fa_RecordCount attrs < 0xFFFF" "unat (fa_RecordCount attrs) < fuel"
    "rdr_FileAttributes (app_Reader a) (app_file a path) r = Some (Ret attrs, r')" "fa_FileStructure attrs = StructureLinearFixed"
  shows "app_LinearFixed a fuel path r =
    map_actions (\<lambda>k. app_ReadRecord a path attrs (of_nat k)) [1..<Suc (unat (fa_RecordCount attrs))] r'"
proof -
  have n: "unat (fa_RecordCount attrs) < 65535" "fa_RecordCount attrs \<noteq> 0" using assms(1,2) by (auto simp: word_less_nat_alt)
  have "fileStructure a (app_file a path) StructureLinearFixed r = Some (Ret attrs, r')"
    using assms(4,5) by (simp add: fileStructure_def and_then_def map_action_err_def unless_def done_with_def)
  then have "app_LinearFixed a fuel path r = linear_loop a path attrs fuel 1 [] r'"
    using n(2) by (simp add: app_LinearFixed_def and_then_def unless_def)
  with linear_loop_map [of attrs 1 fuel a path "[]"] n(1) assms(3) show ?thesis by simp
qed

lemma linear_loop_endless:
  assumes "\<And>k r. \<exists>x r'. rdr_ReadRecord (app_Reader a) (app_file a path) k (fa_RecordSize attrs) r = Some (Ret x, r')"
    "fa_RecordCount attrs = 0xFFFF"
  shows "linear_loop a path attrs fuel i records r = None"
proof (induction fuel arbitrary: i records r)
  case (Suc fuel)
  obtain x r' where "rdr_ReadRecord (app_Reader a) (app_file a path) i (fa_RecordSize attrs) r = Some (Ret x, r')" using assms(1) by blast
  moreover have "i \<le> 0xFFFF" using word_le_nat_alt [of i "0xFFFF"] unat_u16_lt [of i] by simp
  ultimately show ?case using Suc assms(2) by (simp add: app_ReadRecord_def and_then_def map_action_err_def)
qed simp

text \<open>\<open>LinearFixed\<close> never returns on a file of 65535 records whose records can all be read: the 16-bit
  counter wraps and the loop condition always holds. The QMI and MBIM readers report the record count
  as a 16-bit number.\<close>

theorem linear_fixed_endless:
  assumes "rdr_FileAttributes (app_Reader a) (app_file a path) r = Some (Ret attrs, r')"
    "fa_FileStructure attrs = StructureLinearFixed" "fa_RecordCount attrs = 0xFFFF"
    "\<And>k r. \<exists>x r'. rdr_ReadRecord (app_Reader a) (app_file a path) k (fa_RecordSize attrs) r = Some (Ret x, r')"
  shows "app_LinearFixed a fuel path r = None"
  using assms(1-3) linear_loop_endless [OF assms(4,3), of fuel 1 "[]" r']
  by (simp add: app_LinearFixed_def fileStructure_def and_then_def map_action_err_def unless_def done_with_def)

definition example_reader :: "FileAttributes \<Rightarrow> (unit, unit) CardReader" where
  "example_reader attrs =
     \<lparr>rdr_ListApplications = done_with [], rdr_FileAttributes = (\<lambda>_. done_with attrs), rdr_ReadTransparent = (\<lambda>_ _ _. done_with []),
      rdr_ReadRecord = (\<lambda>_ k _. done_with [ucast k]), rdr_Authenticate3G = (\<lambda>_ _ _ _. raise ()), rdr_SMSPPDownload = (\<lambda>_ _. raise ())\<rparr>"

definition example_attributes :: "u16 \<Rightarrow> FileAttributes" where
  "example_attributes n =
     \<lparr>fa_FileStructure = StructureLinearFixed, fa_FileType = 0x21, fa_RecordSize = 1, fa_RecordCount = n, fa_FileSize = 0\<rparr>"

definition example_app :: "u16 \<Rightarrow> (unit, unit) App" where
  "example_app n = \<lparr>app_Reader = example_reader (example_attributes n), app_aid = []\<rparr>"

theorem linear_fixed_reads_all_witness:
  "app_LinearFixed (example_app 3) 4 fileEFSMSP () = Some (Ret [[1], [2], [3]], ())"
proof -
  have "app_LinearFixed (example_app 3) 4 fileEFSMSP () =
    map_actions (\<lambda>k. app_ReadRecord (example_app 3) fileEFSMSP (example_attributes 3) (of_nat k)) [1..<Suc (unat (fa_RecordCount (example_attributes 3)))] ()"
    by (rule linear_fixed_reads_all) (simp_all add: example_attributes_def example_app_def example_reader_def done_with_def)
  then show ?thesis by (simp add: upt_rec example_attributes_def example_app_def example_reader_def app_ReadRecord_def map_action_err_def done_with_def and_then_def)
qed

theorem linear_fixed_endless_witness: "app_LinearFixed (example_app 0xFFFF) 100 fileEFSMSP () = None"
  by (rule linear_fixed_endless [where attrs = "example_attributes 0xFFFF"])
    (simp_all add: example_attributes_def example_app_def example_reader_def done_with_def)

section \<open>Loading a card\<close>

lemma validateDigits_decimals:
  assumes "validateDigits ds n = Ret ()"
  shows "list_all decimal ds"
proof -
  have r: "list_all (\<lambda>r. 0x30 \<le> r \<and> r \<le> 0x39) (utf8_runes ds)" using assms by (simp add: validateDigits_def)
  then have "utf8_Valid ds"
    by (fastforce simp: utf8_Valid_def utf8_runes_def list_all_iff replacement_def split: option.splits)
  then have "utf8_encode (utf8_runes ds) = ds" by (rule utf8_Valid_runes [THEN conjunct2])
  moreover have "list_all decimal (utf8_encode rs)" if "list_all (\<lambda>r. 0x30 \<le> r \<and> r \<le> 0x39) rs" for rs
    using that by (induction rs) (auto simp: utf8_encode_def utf8_encode_rune_def valid_rune_def decimal_def Let_def word_le_nat_alt byte_of_nat)
  ultimately show ?thesis using r by metis
qed

lemma mncFromIMSI_no_panic: "mncFromIMSI imsi n \<noteq> Panic"
  by (auto simp: mncFromIMSI_def subslice_eq_Panic_iff)

lemma aka_no_panic: "aka_UnmarshalBinary d \<noteq> Panic"
  by (auto simp: aka_UnmarshalBinary_def bind_eq_Panic_iff index_def subslice_eq_Panic_iff readAKAChunk_no_panic Suc_le_eq split: prod.splits if_splits)

lemma address_Marshal_no_panic: "address_MarshalBinary a \<noteq> Panic"
  by (auto simp: address_MarshalBinary_def bcd_UnmarshalText_def bind_eq_Panic_iff Let_def split: option.splits)

lemma stkAPDU_no_panic: "stkAPDU ins data le \<noteq> Panic"
  by (simp add: stkAPDU_def request_MarshalBinary_eq Let_def split: option.splits)

lemma smspp_no_panic: "smspp_MarshalBinary sca tpdu \<noteq> Panic"
  by (auto simp: smspp_MarshalBinary_def smspp_Envelope_def envelope_command_def bind_eq_Panic_iff stkAPDU_no_panic address_Marshal_no_panic Let_def
      split: if_splits)

definition card_ok :: "Card \<Rightarrow> bool" where
  "card_ok c \<longleftrightarrow>
     c_aid c \<noteq> [] \<and> list_all decimal (c_imsi c) \<and> 6 \<le> length (c_imsi c) \<and> c_mcc c = take 3 (c_imsi c)
     \<and> c_mncLength c \<in> {2, 3} \<and> c_mnc c = take (c_mncLength c) (drop 3 (c_imsi c))"

lemma findAID_nonempty: "yields (findAID_Run c rd) (\<lambda>aid. aid \<noteq> [])"
proof -
  have "yields (case find (findAID_matches c) apps of Some app \<Rightarrow> done_with (app_AID app) | None \<Rightarrow> raise ApplicationNotFound) (\<lambda>aid. aid \<noteq> [])" for apps
  proof (cases "find (findAID_matches c) apps")
    case (Some app)
    then have "app_AID app \<noteq> []" by (auto simp: find_Some_iff findAID_matches_def)
    with Some show ?thesis by (simp add: yields_done)
  qed (simp add: yields_raise)
  then show ?thesis unfolding findAID_Run_def by (rule yields_and_then [OF yields_True])
qed

lemma imsi_Unmarshal_ok:
  "imsi_UnmarshalBinary d = Ret i \<Longrightarrow> list_all decimal (im_Digits i) \<and> 6 \<le> length (im_Digits i) \<and> im_MCC i = take 3 (im_Digits i)"
  by (auto simp: imsi_UnmarshalBinary_def setDigits_def Let_def subslice_eq_Ret_iff dest: validateDigits_decimals validateDigits_length)

lemma mncFromIMSI_ok:
  "mncFromIMSI imsi n = Ret mnc \<Longrightarrow> n \<in> {2, 3} \<and> mnc = take n (drop 3 imsi)"
  by (auto simp: mncFromIMSI_def subslice_eq_Ret_iff split: if_splits)

lemma load_identity_ok: "yields (load_identity tx u) card_ok"
  unfolding load_identity_def Let_def
  by (rule yields_and_then [OF findAID_nonempty], rule yields_and_then [OF yields_True], rule yields_and_then [OF yields_True],
      rule yields_and_then [OF yields_True], rule yields_and_then, rule yields_lifted, erule imsi_Unmarshal_ok,
      rule yields_and_then [OF yields_True], rule yields_and_then [OF yields_True], rule yields_and_then, rule yields_lifted, erule mncFromIMSI_ok)
    (auto intro!: yields_done simp: card_ok_def)

text \<open>The fields of the mandatory identity, which the rest of the loading leaves alone.\<close>

definition identity_of :: "Card \<Rightarrow> bytes \<times> bytes \<times> bytes \<times> bytes \<times> bytes \<times> nat" where
  "identity_of c = (c_aid c, c_iccid c, c_imsi c, c_mcc c, c_mnc c, c_mncLength c)"

lemma card_ok_identity: "identity_of c = identity_of c' \<Longrightarrow> card_ok c = card_ok c'"
  by (simp add: identity_of_def card_ok_def)

lemma load_optional_keeps: "yields (load_optional tx fuel u) (\<lambda>u'. identity_of u' = identity_of u)"
  unfolding load_optional_def Let_def
  by (intro yields_and_then [OF yields_True] yields_done)
    (auto simp: identity_of_def split: outcome.splits)

lemma loadISIM_files_keeps: "yields (loadISIM_files a fuel u) (\<lambda>u'. identity_of u' = identity_of u \<and> c_isimAID u' = c_isimAID u)"
  unfolding loadISIM_files_def Let_def
  by (intro yields_and_then [OF yields_True] yields_done) (auto simp: identity_of_def)

lemma panics_yield: "yields (\<lambda>r. Some (Panic, r)) Q"
  by (simp add: yields_def)

lemma loadISIM_keeps: "yields (loadISIM tx fuel u) (\<lambda>(u', _). identity_of u' = identity_of u)"
proof -
  have upd: "identity_of (u\<lparr>c_isimAID := aid\<rparr>) = identity_of u" for aid by (simp add: identity_of_def)
  have "yields (and_then (attempt (loadISIM_files \<lparr>app_Reader = tx, app_aid = aid\<rparr> fuel (u\<lparr>c_isimAID := aid\<rparr>))) (\<lambda>res.
      case res of Ret u' \<Rightarrow> done_with (u', None) | Fail e \<Rightarrow> done_with (u\<lparr>c_isimAID := aid\<rparr>, Some e) | Panic \<Rightarrow> (\<lambda>r. Some (Panic, r))))
    (\<lambda>(u', _). identity_of u' = identity_of u)" for aid
    by (rule yields_and_then [OF yields_attempt [OF loadISIM_files_keeps]])
      (auto intro!: yields_done panics_yield simp: upd split: outcome.splits)
  then show ?thesis unfolding loadISIM_def Let_def
    by (intro yields_and_then [OF yields_True]) (auto intro!: yields_done panics_yield split: outcome.splits)
qed

text \<open>C27: a card that loads is consistent: whatever the reader answers, \<open>New\<close> gives a card only with an
  application identifier, an IMSI of at least six decimal digits, the country code as its first three
  digits, and a network code of two or three digits that follows it, as EF_AD declares; neither the
  optional files nor the ISIM can change these.\<close>

theorem card_New_consistent: "card_New tx fuel r = Some (Ret c, r') \<Longrightarrow> card_ok c"
proof -
  have "yields (load tx fuel zeroCard) card_ok"
    unfolding load_def
  proof (rule yields_and_then [OF load_identity_ok])
    fix u assume u: "card_ok u"
    show "yields (and_then (load_optional tx fuel u) (\<lambda>u. and_then (loadISIM tx fuel u) (\<lambda>(u, _). done_with u))) card_ok"
      by (rule yields_and_then [OF load_optional_keeps], rule yields_and_then [OF loadISIM_keeps])
        (use u in \<open>auto intro!: yields_done dest: card_ok_identity\<close>)
  qed
  then show "card_New tx fuel r = Some (Ret c, r') \<Longrightarrow> card_ok c" unfolding yields_def card_New_def by blast
qed

text \<open>A small USIM: an IMSI of six digits with a network code of two, and no optional files.\<close>

definition example_usim :: "(unit, unit) CardReader" where
  "example_usim =
     \<lparr>rdr_ListApplications = done_with [\<lparr>app_AID = [0xA0, 0x00], app_Label = [0x75, 0x73, 0x69, 0x6D]\<rparr>],
      rdr_FileAttributes = (\<lambda>_. done_with \<lparr>fa_FileStructure = StructureTransparent, fa_FileType = 0, fa_RecordSize = 0, fa_RecordCount = 0, fa_FileSize = 9\<rparr>),
      rdr_ReadTransparent = (\<lambda>f _ _. if fr_Path f = fileEFICCID then done_with [0x98, 0x10]
         else if fr_Path f = fileEFIMSI then done_with [0x04, 0x29, 0x26, 0x10, 0xF9]
         else if fr_Path f = fileEFAD then done_with [0x00, 0x00, 0x00, 0x02] else raise ()),
      rdr_ReadRecord = (\<lambda>_ _ _. raise ()), rdr_Authenticate3G = (\<lambda>_ _ _ _. raise ()), rdr_SMSPPDownload = (\<lambda>_ _. raise ())\<rparr>"

theorem card_New_consistent_witness:
  "\<exists>c. card_New example_usim 1 () = Some (Ret c, ()) \<and> card_ok c \<and> c_imsi c = [0x32, 0x36, 0x32, 0x30, 0x31, 0x39] \<and> c_mnc c = [0x30, 0x31]"
proof -
  have "map_option (\<lambda>c. (c_imsi c, c_mnc c)) (value_of (card_New example_usim 1 ())) = Some ([0x32, 0x36, 0x32, 0x30, 0x31, 0x39], [0x30, 0x31])"
    by code_simp
  then obtain c where c: "card_New example_usim 1 () = Some (Ret c, ())" "c_imsi c = [0x32, 0x36, 0x32, 0x30, 0x31, 0x39]" "c_mnc c = [0x30, 0x31]"
    by (auto simp: value_of_def split: option.splits prod.splits outcome.splits)
  from card_New_consistent [OF c(1)] c show ?thesis by auto
qed

section \<open>No panics above the reader interface\<close>

text \<open>The contract of a reader that the card code relies on: its methods return errors, they do not
  panic.\<close>

locale card_interface =
  fixes rd :: "('r, 'e) CardReader"
  assumes calm_ListApplications: "calm (rdr_ListApplications rd)"
    and calm_FileAttributes: "calm (rdr_FileAttributes rd fref)"
    and calm_ReadTransparent: "calm (rdr_ReadTransparent rd fref ofs len)"
    and calm_ReadRecord: "calm (rdr_ReadRecord rd fref n len)"
    and calm_Authenticate3G: "calm (rdr_Authenticate3G rd aid rand autn eap)"
    and calm_SMSPPDownload: "calm (rdr_SMSPPDownload rd sca tpdu)"
begin

lemmas calm_methods = calm_ListApplications calm_FileAttributes calm_ReadTransparent calm_ReadRecord calm_Authenticate3G calm_SMSPPDownload

lemma calm_findAID: "calm (findAID_Run c rd)"
  unfolding findAID_Run_def by (intro calm_intros calm_methods) (auto split: option.splits)

lemma calm_fileStructure: "app_Reader a = rd \<Longrightarrow> calm (fileStructure a fref want)"
  unfolding fileStructure_def by (simp add: calm_and_then calm_map_err calm_unless calm_FileAttributes)

lemma calm_Transparent: "app_Reader a = rd \<Longrightarrow> calm (app_Transparent a path)"
  unfolding app_Transparent_def by (simp add: calm_and_then calm_map_err calm_ReadTransparent calm_fileStructure)

lemma calm_Text: "app_Reader a = rd \<Longrightarrow> calm (app_Text a path)"
  unfolding app_Text_def by (intro calm_and_then calm_lifted calm_Transparent text_no_panic)

lemma calm_app_ReadRecord: "app_Reader a = rd \<Longrightarrow> calm (app_ReadRecord a path attrs n)"
  unfolding app_ReadRecord_def by (simp add: calm_map_err calm_ReadRecord)

lemma calm_linear_loop: "app_Reader a = rd \<Longrightarrow> calm (linear_loop a path attrs fuel i records)"
  by (induction fuel arbitrary: i records) (auto intro!: calm_and_then calm_app_ReadRecord simp: calm_def [of "\<lambda>r. None"])

lemma calm_LinearFixed: "app_Reader a = rd \<Longrightarrow> calm (app_LinearFixed a fuel path)"
  unfolding app_LinearFixed_def by (intro calm_and_then calm_fileStructure calm_unless calm_linear_loop)

lemma calm_first_text_loop: "app_Reader a = rd \<Longrightarrow> calm (first_text_loop a path attrs fuel i)"
proof (induction fuel arbitrary: i)
  case (Suc fuel)
  have "calm (case text_UnmarshalBinary data of
      Ret val \<Rightarrow> if val \<noteq> [] then done_with val else first_text_loop a path attrs fuel (i + 1)
    | Fail _ \<Rightarrow> first_text_loop a path attrs fuel (i + 1) | Panic \<Rightarrow> (\<lambda>r. Some (Panic, r)))" for data
    using Suc text_no_panic [of data] by (auto split: outcome.splits)
  with Suc.prems show ?case by (simp add: calm_and_then calm_app_ReadRecord)
qed (simp add: calm_def)

lemma calm_FirstText: "app_Reader a = rd \<Longrightarrow> calm (app_FirstText a fuel path)"
  unfolding app_FirstText_def by (intro calm_and_then calm_fileStructure calm_unless calm_first_text_loop)

lemma calm_loadISIM_files: "app_Reader a = rd \<Longrightarrow> calm (loadISIM_files a fuel u)"
  unfolding loadISIM_files_def Let_def by (intro calm_and_then calm_attempt calm_Text calm_FirstText calm_done)

lemma calm_loadISIM: "calm (loadISIM rd fuel u)"
  unfolding loadISIM_def Let_def
  by (intro calm_after_attempt calm_findAID calm_loadISIM_files calm_done) simp

lemma calm_load_identity: "calm (load_identity rd u)"
  unfolding load_identity_def Let_def
  by (intro calm_and_then calm_findAID calm_Transparent calm_lifted calm_done) (simp_all add: iccid_no_panic imsi_no_panic ad_no_panic mncFromIMSI_no_panic)

lemma calm_New: "calm (card_New rd fuel)"
proof -
  have "calm (load_optional rd fuel u)" for u
    unfolding load_optional_def Let_def
    by (intro calm_and_then calm_attempt calm_Transparent calm_LinearFixed calm_FirstText calm_done) simp_all
  moreover have "calm (and_then (loadISIM rd fuel u) (\<lambda>(u, _). done_with u))" for u
    by (intro calm_and_then calm_loadISIM) (auto split: prod.splits)
  ultimately show ?thesis unfolding card_New_def load_def by (simp add: calm_and_then calm_load_identity)
qed

lemma calm_authenticate: "calm (card_authenticate3G rd aid rand autn eap)"
  unfolding card_authenticate3G_def by (intro calm_and_then calm_map_err calm_methods calm_lifted aka_no_panic)

lemma calm_AKA: "calm (card_AKA rd u rand autn)"
  unfolding card_AKA_def or_else_def by (auto intro!: calm_unless calm_after_attempt calm_authenticate)

lemma calm_EAPAKA: "calm (card_EAPAKA rd u rand autn)"
  unfolding card_EAPAKA_def or_else_def by (auto intro!: calm_unless calm_after_attempt calm_authenticate calm_AKA)

end

section \<open>The APDU reader behind the interface\<close>

text \<open>The APDU reader of \<^verbatim>\<open>sim/reader.go\<close> as a card reader; it ignores the EAP flag.\<close>

definition apdu_reader :: "('s, 'e) tx \<Rightarrow> nat \<Rightarrow> ('s Reader, 'e reader_error) CardReader" where
  "apdu_reader tx fuel =
     \<lparr>rdr_ListApplications = reader_ListApplications tx fuel,
      rdr_FileAttributes = reader_FileAttributes tx fuel,
      rdr_ReadTransparent = reader_ReadTransparent tx fuel,
      rdr_ReadRecord = reader_ReadRecord tx fuel,
      rdr_Authenticate3G = (\<lambda>aid rand autn _. reader_Authenticate3G tx fuel aid rand autn),
      rdr_SMSPPDownload = reader_SMSPPDownload tx fuel\<rparr>"

text \<open>The contract of a transmitter: it returns or fails.\<close>

locale transmitter =
  fixes tx :: "('s, 'e) tx"
  assumes tx_no_panic: "fst (tx req s) \<noteq> Panic"
begin

lemma calm_transmit_raw: "calm (transmit_raw tx req)"
proof -
  have "res \<noteq> Panic" if "tx req s = (res, s')" for s res s' using tx_no_panic [of req s] that by simp
  then show ?thesis by (auto simp: calm_def transmit_raw_def split: prod.splits)
qed

lemma status_no_panic: "response_SW resp \<noteq> Panic" "response_SW1 resp \<noteq> Panic" "response_SW2 resp \<noteq> Panic"
proof -
  have "be16 xs \<noteq> (Panic :: (unit, u16) outcome)" if "2 \<le> length xs" for xs
    using that by (cases xs rule: be16.cases) auto
  then show "response_SW resp \<noteq> Panic" by (auto simp: response_SW_def bind_eq_Panic_iff subslice_def)
qed (auto simp: response_SW1_def response_SW2_def index_def)

lemma request_no_panic: "request_MarshalBinary req \<noteq> Panic"
  by (simp add: request_MarshalBinary_eq)

lemma calm_follow: "calm (followGetResponse tx fuel data resp)"
proof (induction fuel arbitrary: data resp)
  case (Suc fuel)
  show ?case
    by (simp only: followGetResponse.simps if_split) (intro conjI impI calm_and_then calm_lifted calm_transmit_raw calm_unless calm_done Suc status_no_panic request_no_panic)
qed (simp add: calm_def)

lemma calm_transmitResponse: "calm (transmitResponse tx fuel req)"
  unfolding transmitResponse_def by (intro calm_and_then calm_transmit_raw calm_unless calm_follow)

lemma calm_transmit: "calm (transmit tx fuel req)"
  unfolding transmit_def by (auto intro!: calm_and_then calm_transmitResponse calm_lifted simp: status_no_panic)

lemma calm_transmitEnvelope: "calm (transmitEnvelope tx fuel req)"
  unfolding transmitEnvelope_def by (auto intro!: calm_and_then calm_transmitResponse calm_lifted simp: status_no_panic)

lemma calm_transmitCommand: "cmd \<noteq> Panic \<Longrightarrow> calm (transmitCommand tx fuel cmd)"
  unfolding transmitCommand_def by (intro calm_and_then calm_lifted calm_transmit)

lemma command_no_panic:
  "selectID i \<noteq> Panic" "selectName i \<noteq> Panic" "selectPath i \<noteq> Panic" "binaryRead ofs n \<noteq> Panic" "recordRead k n \<noteq> Panic"
  "authenticate3G rand autn \<noteq> Panic"
  by (simp_all add: selectID_def selectName_def selectPath_def selectRequest_def binaryRead_def recordRead_def authenticate3G_def request_no_panic)

lemma calm_decodeFCI: "cmd \<noteq> Panic \<Longrightarrow> calm (decodeFCI tx fuel cmd)"
  unfolding decodeFCI_def by (intro calm_and_then calm_transmitCommand calm_lifted fci_no_panic)

lemma calm_set_selected: "calm (set_selected s)"
  by (simp add: calm_def set_selected_def)

lemma calm_selectFile: "calm (selectFile tx fuel fref)"
proof -
  let ?go = "and_then (decodeFCI tx fuel (if length (fr_AID fref) > 0 then selectName (fr_AID fref) else selectID masterFile)) (\<lambda>_.
    and_then (decodeFCI tx fuel (if length (fr_Path fref) = 2 then selectID (fr_Path fref) else selectPath (fr_Path fref))) (\<lambda>info.
    and_then (set_selected \<lparr>sl_valid = True, sl_file = fref, sl_info = info\<rparr>) (\<lambda>_. done_with info)))"
  have "calm ?go" by (intro calm_and_then calm_decodeFCI calm_set_selected calm_done) (simp_all add: command_no_panic)
  then have "calm (\<lambda>r. if matches (rd_selected r) fref then Some (Ret (sl_info (rd_selected r)), r) else ?go r)" by (auto simp: calm_def)
  then show ?thesis unfolding selectFile_def by (intro calm_unless)
qed

lemma calm_readRecordRaw: "calm (readRecordRaw tx fuel n len)"
  unfolding readRecordRaw_def by (intro calm_unless calm_and_then calm_transmitCommand calm_done command_no_panic)

lemma calm_readBinaryRaw: "calm (readBinaryRaw tx fuel ofs len)"
  unfolding readBinaryRaw_def
  by (intro calm_and_then calm_map calm_done) (auto intro!: calm_and_then calm_transmitCommand simp: command_no_panic split: prod.splits)

lemma calm_apdu_reader: "card_interface (apdu_reader tx fuel)"
proof (unfold_locales, unfold apdu_reader_def, simp_all only: CardReader.simps)
  show "calm (reader_ListApplications tx fuel)"
    unfolding reader_ListApplications_def
    by (intro calm_and_then calm_decodeFCI calm_unless calm_map calm_lifted calm_readRecordRaw calm_done efdir_no_panic command_no_panic)
  show "calm (reader_FileAttributes tx fuel fref)" for fref
    unfolding reader_FileAttributes_def by (intro calm_and_then calm_selectFile calm_done)
  show "calm (reader_ReadTransparent tx fuel fref ofs len)" for fref ofs len
    unfolding reader_ReadTransparent_def by (intro calm_and_then calm_selectFile calm_unless) (simp add: calm_unless calm_readBinaryRaw)
  show "calm (reader_ReadRecord tx fuel fref n len)" for fref n len
    unfolding reader_ReadRecord_def by (intro calm_and_then calm_selectFile calm_unless calm_readRecordRaw)
  show "calm (reader_Authenticate3G tx fuel aid rand autn)" for aid rand autn
    unfolding reader_Authenticate3G_def
    by (auto intro!: calm_and_then calm_decodeFCI calm_set_selected calm_transmitCommand simp: command_no_panic)
  show "calm (reader_SMSPPDownload tx fuel sca tpdu)" for sca tpdu
    unfolding reader_SMSPPDownload_def
    by (intro calm_and_then calm_lifted calm_transmitEnvelope calm_done smspp_no_panic status_no_panic)
qed

end

sublocale transmitter \<subseteq> apdu: card_interface "apdu_reader tx fuel" for fuel
  by (rule calm_apdu_reader)

end
