(* ===== verification/At_Reader.thy ===== *)
theory At_Reader
  imports Sim_App
begin

text \<open>
  The AT reader (\<^verbatim>\<open>at/at.go\<close>, \<^verbatim>\<open>at/csim.go\<close>): APDUs carried as hexadecimal text by \<^verbatim>\<open>AT+CSIM\<close> over a serial
  port. The port, its deadlines and the context of a call are an argument, a record of functions on
  the state of the environment; \<open>bufio.Reader\<close> is modelled with its buffer and its pending error. Loops
  whose length the device decides run on fuel.
\<close>

section \<open>CSIM texts\<close>

datatype csim_error =
    RequestNil
  | NotACommand
  | SeparatorMissing
  | InvalidLength
  | InvalidQuote
  | LengthMismatch nat int
  | InvalidHex
  | StatusWordMissing
  | StatusWordUnknown
  | InvalidResponse

definition csimData_MarshalText :: "bytes \<Rightarrow> bytes" where
  "csimData_MarshalText d =
     (let hexData = hex_EncodeUpper d in Itoa (length hexData) @ [0x2C] @ [0x22] @ hexData @ [0x22])"

definition csimData_UnmarshalText :: "bytes \<Rightarrow> (csim_error, bytes) outcome" where
  "csimData_UnmarshalText body =
     (case Cut 0x2C body of (lengthField, dataField, ok) \<Rightarrow>
      bind (if ok
            then (case Atoi (TrimSpace lengthField) of
                    Some n \<Rightarrow> fail_if (n < 0) InvalidLength (Ret (n, dataField))
                  | None \<Rightarrow> Fail InvalidLength)
            else Ret (-1, body)) (\<lambda>(wantLen, hexData).
      let hexData = TrimSpace hexData in
      bind (if take 1 hexData = [0x22] then (case Unquote hexData of Some s \<Rightarrow> Ret s | None \<Rightarrow> Fail InvalidQuote) else Ret hexData) (\<lambda>hexData.
       fail_if (wantLen \<ge> 0 \<and> int (length hexData) \<noteq> wantLen) (LengthMismatch (length hexData) wantLen)
        (case hex_DecodeString hexData of Some d \<Rightarrow> Ret d | None \<Rightarrow> Fail InvalidHex))))"

text \<open>A \<^verbatim>\<open>CSIMCommand\<close> may be nil, which is not the empty command.\<close>

type_synonym CSIMCommand = "bytes option"

definition csim_command_prefix :: bytes where
  "csim_command_prefix = [0x41, 0x54, 0x2B, 0x43, 0x53, 0x49, 0x4D, 0x3D]"

definition csim_response_prefix :: bytes where
  "csim_response_prefix = [0x2B, 0x43, 0x53, 0x49, 0x4D, 0x3A]"

definition command_MarshalText :: "CSIMCommand \<Rightarrow> (csim_error, bytes) outcome" where
  "command_MarshalText c = (case c of None \<Rightarrow> Fail RequestNil | Some d \<Rightarrow> Ret (csim_command_prefix @ csimData_MarshalText d))"

definition csim_command_MarshalBinary :: "CSIMCommand \<Rightarrow> (csim_error, bytes) outcome" where
  "csim_command_MarshalBinary c = (case c of None \<Rightarrow> Fail RequestNil | Some d \<Rightarrow> Ret d)"

definition csim_command_UnmarshalBinary :: "bytes option \<Rightarrow> (csim_error, CSIMCommand) outcome" where
  "csim_command_UnmarshalBinary data = fail_if (data = None) RequestNil (Ret data)"

definition command_UnmarshalText :: "bytes \<Rightarrow> (csim_error, CSIMCommand) outcome" where
  "command_UnmarshalText text =
     (case CutPrefix csim_command_prefix (TrimSpace text) of
        None \<Rightarrow> Fail NotACommand
      | Some body \<Rightarrow>
          fail_if (0x2C \<notin> set body) SeparatorMissing (bind (csimData_UnmarshalText body) (\<lambda>d. Ret (Some d))))"

definition hasKnownStatusWord :: "bytes \<Rightarrow> (csim_error, bool) outcome" where
  "hasKnownStatusWord response =
     (if length response < 2 then Ret False
      else bind (index response (length response - 2)) (\<lambda>sw1. Ret (0x61 \<le> sw1 \<and> sw1 \<le> 0x6F \<or> 0x90 \<le> sw1 \<and> sw1 \<le> 0x9F)))"

definition unmarshalBody :: "bytes \<Rightarrow> bool \<Rightarrow> (csim_error, bytes) outcome" where
  "unmarshalBody body requireKnownStatusWord =
     bind (csimData_UnmarshalText body) (\<lambda>response.
       if requireKnownStatusWord
       then fail_if (length response < 2) StatusWordMissing
             (bind (hasKnownStatusWord response) (\<lambda>known. fail_if (\<not> known) StatusWordUnknown (Ret response)))
       else Ret response)"

fun csim_line :: "bytes list \<Rightarrow> bytes option" where
  "csim_line [] = None"
| "csim_line (line # lines) =
     (case CutPrefix csim_response_prefix (TrimSpace line) of Some body \<Rightarrow> Some body | None \<Rightarrow> csim_line lines)"

text \<open>Without a \<^verbatim>\<open>+CSIM:\<close> line, the first line that decodes to a response with a known status word.\<close>

fun bare_line :: "bytes list \<Rightarrow> (csim_error, bytes) outcome" where
  "bare_line [] = Fail InvalidResponse"
| "bare_line (line # lines) =
     (let line = TrimSpace line in
      if line = [] \<or> take 1 line = [0x2B] then bare_line lines
      else case unmarshalBody line True of Ret response \<Rightarrow> Ret response | Fail _ \<Rightarrow> bare_line lines | Panic \<Rightarrow> Panic)"

definition csim_response_UnmarshalText :: "bytes \<Rightarrow> (csim_error, bytes) outcome" where
  "csim_response_UnmarshalText raw =
     (case csim_line (split_on 0x0A raw) of
        Some body \<Rightarrow> unmarshalBody (TrimSpace body) False
      | None \<Rightarrow> bare_line (split_on 0x0A raw))"

section \<open>The port\<close>

text \<open>The environment of a call: the port, whether its deadlines can be set, and the context.\<close>

record ('s, 'e) port =
  port_Write :: "bytes \<Rightarrow> 's \<Rightarrow> (int \<times> 'e option) \<times> 's"
  port_Read :: "'s \<Rightarrow> (bytes \<times> 'e option) \<times> 's"
  port_SetWriteDeadline :: "'s \<Rightarrow> 'e option \<times> 's"
  port_SetReadDeadline :: "'s \<Rightarrow> 'e option \<times> 's"
  port_Close :: "'s \<Rightarrow> 'e option \<times> 's"
  ctx_Err :: "'s \<Rightarrow> 'e option"
  ctx_deadline_passed :: "'s \<Rightarrow> bool"
  is_timeout :: "'e \<Rightarrow> bool"

datatype 'e at_error =
    CSIMError csim_error
  | ContextError 'e
  | ContextDeadlineExceeded
  | ReaderClosed
  | DeadlineError 'e
  | WriteFailed 'e
  | WriteShort
  | ReadFailed 'e
  | ReadNoProgress
  | DeviceError bytes
  | InvalidStatusWord

record ('s, 'e) AtReader =
  at_port :: 's
  at_buf :: bytes
  at_err :: "'e at_error option"
  at_closed :: bool

type_synonym ('s, 'e, 'a) at_action = "(('s, 'e) AtReader, 'e at_error, 'a) action"

definition newReader :: "'s \<Rightarrow> ('s, 'e) AtReader" where
  "newReader s = \<lparr>at_port = s, at_buf = [], at_err = None, at_closed = False\<rparr>"

definition contextIOError :: "('s, 'e) port \<Rightarrow> 'e option \<Rightarrow> 's \<Rightarrow> 'e at_error option" where
  "contextIOError io err s =
     (case ctx_Err io s of
        Some e \<Rightarrow> Some (ContextError e)
      | None \<Rightarrow> (case err of Some e \<Rightarrow> if is_timeout io e \<and> ctx_deadline_passed io s then Some ContextDeadlineExceeded else None
                           | None \<Rightarrow> None))"

definition check_ctx :: "('s, 'e) port \<Rightarrow> ('s, 'e, unit) at_action" where
  "check_ctx io = (\<lambda>r. Some (case ctx_Err io (at_port r) of Some e \<Rightarrow> Fail (ContextError e) | None \<Rightarrow> Ret (), r))"

definition setWriteDeadline :: "('s, 'e) port \<Rightarrow> ('s, 'e, unit) at_action" where
  "setWriteDeadline io = (\<lambda>r. case port_SetWriteDeadline io (at_port r) of (err, s) \<Rightarrow>
     Some (case err of Some e \<Rightarrow> Fail (DeadlineError e) | None \<Rightarrow> Ret (), r\<lparr>at_port := s\<rparr>))"

definition setReadDeadline :: "('s, 'e) port \<Rightarrow> ('s, 'e, unit) at_action" where
  "setReadDeadline io = (\<lambda>r. case port_SetReadDeadline io (at_port r) of (err, s) \<Rightarrow>
     Some (case err of Some e \<Rightarrow> Fail (DeadlineError e) | None \<Rightarrow> Ret (), r\<lparr>at_port := s\<rparr>))"

text \<open>Writing in full: \<open>None\<close>, or the error, which is nil inside for a short write.\<close>

function at_writeFull :: "('s, 'e) port \<Rightarrow> bytes \<Rightarrow> 's \<Rightarrow> ('e option, unit) outcome \<times> 's" where
  "at_writeFull io p s =
     (if p = [] then (Ret (), s)
      else case port_Write io p s of ((n, err), s') \<Rightarrow>
        (case err of
           Some e \<Rightarrow> (Fail (Some e), s')
         | None \<Rightarrow>
             if n \<le> 0 then (Fail None, s')
             else if nat n > length p then (Panic, s')
             else at_writeFull io (drop (nat n) p) s'))"
  by pat_completeness auto
termination
  by (relation "measure (\<lambda>(io, p, s). length p)") auto

declare at_writeFull.simps [simp del]

text \<open>\<open>bufio.Reader.fill\<close> gives up after 100 empty reads; \<open>ReadString\<close> looks for the delimiter in the buffer,
  then for a pending error, then reads more.\<close>

fun fill :: "('s, 'e) port \<Rightarrow> nat \<Rightarrow> ('s, 'e) AtReader \<Rightarrow> ('s, 'e) AtReader" where
  "fill io 0 r = r\<lparr>at_err := Some ReadNoProgress\<rparr>"
| "fill io (Suc k) r =
     (case port_Read io (at_port r) of ((chunk, err), s) \<Rightarrow>
        let r = r\<lparr>at_port := s, at_buf := at_buf r @ chunk\<rparr> in
        case err of
          Some e \<Rightarrow> r\<lparr>at_err := Some (ReadFailed e)\<rparr>
        | None \<Rightarrow> if chunk \<noteq> [] then r else fill io k r)"

fun ReadString :: "('s, 'e) port \<Rightarrow> nat \<Rightarrow> ('s, 'e, bytes) at_action" where
  "ReadString io 0 r = None"
| "ReadString io (Suc fuel) r =
     (if 0x0A \<in> set (at_buf r)
      then Some (Ret (takeWhile (\<lambda>c. c \<noteq> 0x0A) (at_buf r) @ [0x0A]), r\<lparr>at_buf := drop 1 (dropWhile (\<lambda>c. c \<noteq> 0x0A) (at_buf r))\<rparr>)
      else case at_err r of
          Some e \<Rightarrow> Some (Fail e, r\<lparr>at_buf := [], at_err := None\<rparr>)
        | None \<Rightarrow> ReadString io fuel (fill io 100 r))"

definition port_error :: "'e at_error \<Rightarrow> 'e option" where
  "port_error e = (case e of ReadFailed e' \<Rightarrow> Some e' | WriteFailed e' \<Rightarrow> Some e' | _ \<Rightarrow> None)"

definition on_io_error :: "('s, 'e) port \<Rightarrow> ('s, 'e, 'a) at_action \<Rightarrow> ('s, 'e, 'a) at_action" where
  "on_io_error io m = (\<lambda>r.
     case m r of
       Some (Fail e, r') \<Rightarrow> Some (Fail (case contextIOError io (port_error e) (at_port r') of Some e' \<Rightarrow> e' | None \<Rightarrow> e), r')
     | res \<Rightarrow> res)"

fun readLine :: "('s, 'e) port \<Rightarrow> nat \<Rightarrow> bytes \<Rightarrow> ('s, 'e, bytes) at_action" where
  "readLine io 0 command = (\<lambda>r. None)"
| "readLine io (Suc fuel) command =
     and_then (setReadDeadline io) (\<lambda>_.
     and_then (on_io_error io (ReadString io (Suc fuel))) (\<lambda>line.
     and_then (check_ctx io) (\<lambda>_.
       let line = TrimSpace line in
       if line \<noteq> [] \<and> line \<noteq> command then done_with line else readLine io fuel command)))"

definition ascii :: "bytes \<Rightarrow> rune list" where
  "ascii s = map unat s"

definition line_OK :: bytes where "line_OK = [0x4F, 0x4B]"
definition line_ERROR :: bytes where "line_ERROR = [0x45, 0x52, 0x52, 0x4F, 0x52]"
definition line_CME :: bytes where "line_CME = [0x2B, 0x43, 0x4D, 0x45, 0x20, 0x45, 0x52, 0x52, 0x4F, 0x52, 0x3A]"
definition line_CMS :: bytes where "line_CMS = [0x2B, 0x43, 0x4D, 0x53, 0x20, 0x45, 0x52, 0x52, 0x4F, 0x52, 0x3A]"

definition is_ok :: "bytes \<Rightarrow> bool" where
  "is_ok line \<longleftrightarrow> ToUpper line = ascii line_OK"

definition starts_with :: "bytes \<Rightarrow> bytes \<Rightarrow> bool" where
  "starts_with p line \<longleftrightarrow> take (length p) (ToUpper line) = ascii p"

definition is_error :: "bytes \<Rightarrow> bool" where
  "is_error line \<longleftrightarrow> ToUpper line = ascii line_ERROR \<or> starts_with line_CME line \<or> starts_with line_CMS line"

definition is_csim :: "bytes \<Rightarrow> bool" where
  "is_csim line \<longleftrightarrow> starts_with csim_response_prefix line"

fun readResponse :: "('s, 'e) port \<Rightarrow> nat \<Rightarrow> bytes \<Rightarrow> bytes \<Rightarrow> ('s, 'e, bytes) at_action" where
  "readResponse io 0 command response = (\<lambda>r. None)"
| "readResponse io (Suc fuel) command response =
     and_then (readLine io (Suc fuel) command) (\<lambda>line.
       if is_ok line then (if response \<noteq> [] then done_with response else readResponse io fuel command response)
       else if is_error line then raise (DeviceError line)
       else if is_csim line then readResponse io fuel command line
       else readResponse io fuel command response)"

definition write_command :: "('s, 'e) port \<Rightarrow> bytes \<Rightarrow> ('s, 'e, unit) at_action" where
  "write_command io command = (\<lambda>r. case at_writeFull io (command @ [0x0D, 0x0A]) (at_port r) of (res, s) \<Rightarrow>
     Some (map_err (\<lambda>err. case err of Some e \<Rightarrow> WriteFailed e | None \<Rightarrow> WriteShort) res, r\<lparr>at_port := s\<rparr>))"

definition run :: "('s, 'e) port \<Rightarrow> nat \<Rightarrow> bytes \<Rightarrow> ('s, 'e, bytes) at_action" where
  "run io fuel command =
     and_then (check_ctx io) (\<lambda>_ r.
       unless (at_closed r) ReaderClosed
        (and_then (setWriteDeadline io) (\<lambda>_.
         and_then (on_io_error io (write_command io command)) (\<lambda>_.
           readResponse io fuel command []))) r)"

definition at_Transmit :: "('s, 'e) port \<Rightarrow> nat \<Rightarrow> bytes option \<Rightarrow> ('s, 'e, bytes) at_action" where
  "at_Transmit io fuel req =
     and_then (lifted CSIMError (csim_command_UnmarshalBinary req)) (\<lambda>command.
     and_then (lifted CSIMError (command_MarshalText command)) (\<lambda>textCommand.
     and_then (run io fuel textCommand) (\<lambda>text.
     and_then (lifted CSIMError (csim_response_UnmarshalText text)) (\<lambda>response.
       unless (length response < 2) InvalidStatusWord (done_with response)))))"

definition at_Close :: "('s, 'e) port \<Rightarrow> ('s, 'e, 'e option) at_action" where
  "at_Close io = (\<lambda>r.
     if at_closed r then Some (Ret None, r)
     else case port_Close io (at_port r) of (err, s) \<Rightarrow> Some (Ret err, r\<lparr>at_closed := True, at_port := s\<rparr>))"

section \<open>Texts survive the line\<close>

lemma hex_plain: "hex_canonical c \<Longrightarrow> unat c < 0x80 \<and> c \<noteq> 0x22 \<and> c \<noteq> 0x5C \<and> c \<noteq> 0x0A \<and> c \<noteq> 0x2C"
  by (auto simp: hex_canonical_def word_le_nat_alt)

lemma digit_plain: "is_digit c \<Longrightarrow> unat c < 0x80 \<and> c \<noteq> 0x2C \<and> c \<noteq> 0x0A \<and> \<not> IsSpace (unat c)"
  by (auto simp: is_digit_def word_le_nat_alt IsSpace_def)

lemma TrimSpace_Itoa: "TrimSpace (Itoa n) = Itoa n"
proof -
  have d: "Itoa n \<noteq> []" "list_all is_digit (Itoa n)" using Itoa_digits [of n] by simp_all
  then have "is_digit (hd (Itoa n))" "is_digit (last (Itoa n))" by (auto simp: list_all_iff)
  with d show ?thesis by (intro TrimSpace_ascii) (auto simp: list_all_iff dest: digit_plain)
qed

lemma csimData_roundtrip:
  assumes "2 * length d < 2 ^ 63"
  shows "csimData_UnmarshalText (csimData_MarshalText d) = Ret d"
proof -
  define h where "h = hex_EncodeUpper d"
  have h: "list_all hex_canonical h" "length h < 2 ^ 63" "hex_DecodeString h = Some d"
    using assms by (simp_all add: h_def hex_Encode_canonical length_hex_EncodeUpper hex_Encode_Decode)
  have n: "0x2C \<notin> set (Itoa (length h))" using Itoa_digits [of "length h"] by (auto simp: list_all_iff dest: digit_plain)
  have cut: "Cut 0x2C (csimData_MarshalText d) = (Itoa (length h), [0x22] @ h @ [0x22], True)"
    unfolding csimData_MarshalText_def Let_def h_def [symmetric] Cut_def using n
    by (simp add: takeWhile_append dropWhile_append)
  have trim: "TrimSpace ([0x22] @ h @ [0x22]) = [0x22] @ h @ [0x22]"
    by (rule TrimSpace_ascii) (use h(1) in \<open>auto simp: list_all_iff IsSpace_def dest: hex_plain\<close>)
  have "Unquote ([0x22] @ h @ [0x22]) = Some h"
    using unquote_body_plain [of h] h(1) by (auto simp: Unquote_def list_all_iff dest: hex_plain)
  with cut trim h(2,3) show ?thesis
    by (simp add: csimData_UnmarshalText_def TrimSpace_Itoa Atoi_Itoa Let_def)
qed

lemma csim_text_ascii:
  "list_all (\<lambda>b. unat b < 0x80) (csimData_MarshalText d) \<and> last (csimData_MarshalText d) = 0x22 \<and> 0x2C \<in> set (csimData_MarshalText d)
   \<and> 0x0A \<notin> set (csimData_MarshalText d) \<and> csimData_MarshalText d \<noteq> [] \<and> \<not> IsSpace (unat (hd (csimData_MarshalText d)))"
proof -
  define h where "h = hex_EncodeUpper d"
  have h: "list_all hex_canonical h" by (simp add: h_def hex_Encode_canonical)
  have i: "Itoa (length h) \<noteq> []" "list_all is_digit (Itoa (length h))" using Itoa_digits [of "length h"] by simp_all
  then have "is_digit (hd (Itoa (length h)))" by (auto simp: list_all_iff)
  with h i show ?thesis unfolding csimData_MarshalText_def Let_def h_def [symmetric]
    by (auto simp: list_all_iff dest: hex_plain digit_plain)
qed

lemma CutPrefix_append [simp]: "CutPrefix p (p @ s) = Some s"
  by (simp add: CutPrefix_def)

lemma split_on_none: "c \<notin> set s \<Longrightarrow> split_on c s = [s]"
  by (induction s) auto

lemma csim_trim:
  "TrimSpace (csimData_MarshalText d) = csimData_MarshalText d" "TrimSpace ([0x20] @ csimData_MarshalText d) = csimData_MarshalText d"
  "list_all (\<lambda>b. unat b < 0x80) (p @ q) \<Longrightarrow> p \<noteq> [] \<Longrightarrow> \<not> IsSpace (unat (hd p))
   \<Longrightarrow> TrimSpace (p @ q @ csimData_MarshalText d) = p @ q @ csimData_MarshalText d"
proof -
  let ?t = "csimData_MarshalText d"
  note t = csim_text_ascii [of d]
  show body: "TrimSpace ?t = ?t" using t by (intro TrimSpace_ascii) (auto simp: IsSpace_def)
  have a: "list_all (\<lambda>b. unat b < 0x80) ([0x20] @ ?t)" using t by simp
  have "IsSpace 0x20" by (simp add: IsSpace_def)
  then show "TrimSpace ([0x20] @ ?t) = ?t"
    using body t unfolding TrimSpace_def utf8_segments_ascii [OF a] utf8_segments_ascii [OF t [THEN conjunct1]]
    by (simp add: space_segment_def)
  show "TrimSpace (p @ q @ ?t) = p @ q @ ?t" if "list_all (\<lambda>b. unat b < 0x80) (p @ q)" "p \<noteq> []" "\<not> IsSpace (unat (hd p))"
    by (rule TrimSpace_ascii) (use that t in \<open>auto simp: IsSpace_def\<close>)
qed

lemma csim_response_decodes:
  assumes "2 * length d < 2 ^ 63"
  shows "csim_response_UnmarshalText (csim_response_prefix @ csimData_MarshalText d) = Ret d"
    "csim_response_UnmarshalText (csim_response_prefix @ [0x20] @ csimData_MarshalText d) = Ret d"
proof -
  let ?t = "csimData_MarshalText d"
  have "csim_response_UnmarshalText (csim_response_prefix @ q @ ?t) = Ret d" if "q = [] \<or> q = [0x20]" for q
  proof -
    have "TrimSpace (csim_response_prefix @ q @ ?t) = csim_response_prefix @ q @ ?t"
      by (rule csim_trim(3)) (use that in \<open>auto simp: csim_response_prefix_def IsSpace_def\<close>)
    moreover have "0x0A \<notin> set (csim_response_prefix @ q @ ?t)" using csim_text_ascii [of d] that by (auto simp: csim_response_prefix_def)
    moreover have "TrimSpace (q @ ?t) = ?t" using that csim_trim(1,2) by auto
    ultimately show ?thesis
      by (simp add: csim_response_UnmarshalText_def split_on_none unmarshalBody_def csimData_roundtrip [OF assms])
  qed
  from this [of "[]"] this [of "[0x20]"] show
    "csim_response_UnmarshalText (csim_response_prefix @ ?t) = Ret d" "csim_response_UnmarshalText (csim_response_prefix @ [0x20] @ ?t) = Ret d" by simp_all
qed

text \<open>\<^verbatim>\<open>AT+CSIM\<close> carries APDUs unchanged: the text of a command decodes to the command, and the text
  of a response behind \<^verbatim>\<open>+CSIM:\<close>, with a blank or not, decodes to the response; nil is refused.\<close>

theorem csim_roundtrip:
  assumes "2 * length d < 2 ^ 63"
  shows "(\<exists>t. command_MarshalText (Some d) = Ret t \<and> command_UnmarshalText t = Ret (Some d))
    \<and> csim_response_UnmarshalText (csim_response_prefix @ csimData_MarshalText d) = Ret d
    \<and> csim_response_UnmarshalText (csim_response_prefix @ [0x20] @ csimData_MarshalText d) = Ret d
    \<and> command_MarshalText None = Fail RequestNil"
proof -
  have "TrimSpace (csim_command_prefix @ [] @ csimData_MarshalText d) = csim_command_prefix @ [] @ csimData_MarshalText d"
    by (rule csim_trim(3)) (auto simp: csim_command_prefix_def IsSpace_def)
  then have "command_UnmarshalText (csim_command_prefix @ csimData_MarshalText d) = Ret (Some d)"
    using csim_text_ascii [of d] csimData_roundtrip [OF assms] by (simp add: command_UnmarshalText_def)
  with csim_response_decodes [OF assms] show ?thesis by (simp add: command_MarshalText_def)
qed

theorem csim_roundtrip_witness:
  "csim_response_UnmarshalText (csim_response_prefix @ [0x20] @ csimData_MarshalText [0x90, 0x00]) = Ret [0x90, 0x00]"
  using csim_roundtrip [of "[0x90, 0x00]"] by simp

section \<open>The exchange of lines\<close>

text \<open>What the reader makes of a list of lines, each with its newline: lines that are blank or echo the
  command are dropped, a \<^verbatim>\<open>+CSIM:\<close> line is remembered, \<^verbatim>\<open>OK\<close> ends the exchange once there is one, an error
  line ends it at once, and any other line is ignored. The result is what is returned and the lines
  that are left.\<close>

fun scan :: "bytes \<Rightarrow> bytes \<Rightarrow> bytes list \<Rightarrow> ((bytes, bytes) outcome \<times> bytes list) option" where
  "scan command response [] = None"
| "scan command response (l # ls) =
     (let line = TrimSpace l in
      if line = [] \<or> line = command then scan command response ls
      else if is_ok line then (if response \<noteq> [] then Some (Ret response, ls) else scan command response ls)
      else if is_error line then Some (Fail line, ls)
      else if is_csim line then scan command line ls
      else scan command response ls)"

text \<open>A port that works: the context is not done, deadlines are accepted, and reads give the next chunk
  of a list of chunks, none of them empty.\<close>

definition is_line :: "bytes \<Rightarrow> bool" where
  "is_line l \<longleftrightarrow> (\<exists>body. l = body @ [0x0A] \<and> 0x0A \<notin> set body)"

locale chunked_port =
  fixes io :: "('s, 'e) port" and incoming :: "'s \<Rightarrow> bytes list" and sent :: "'s \<Rightarrow> bytes"
  assumes ctx: "ctx_Err io s = None"
    and deadline: "port_SetReadDeadline io s = (None, s)" "port_SetWriteDeadline io s = (None, s)"
    and read: "incoming s = c # cs \<Longrightarrow> \<exists>s'. port_Read io s = ((c, None), s') \<and> incoming s' = cs \<and> sent s' = sent s"
    and accept: "\<exists>s'. port_Write io p s = ((int (length p), None), s') \<and> incoming s' = incoming s \<and> sent s' = sent s @ p"
begin

definition stream :: "('s, 'e) AtReader \<Rightarrow> bytes" where
  "stream r = at_buf r @ concat (incoming (at_port r))"

definition healthy :: "('s, 'e) AtReader \<Rightarrow> bool" where
  "healthy r \<longleftrightarrow> at_err r = None \<and> [] \<notin> set (incoming (at_port r))"

lemma fill_chunk:
  assumes "incoming (at_port r) = c # cs" "c \<noteq> []"
  obtains s' where "fill io 100 r = r\<lparr>at_port := s', at_buf := at_buf r @ c\<rparr>" "incoming s' = cs" "sent s' = sent (at_port r)"
proof -
  from read [OF assms(1)] obtain s' where "port_Read io (at_port r) = ((c, None), s')" "incoming s' = cs" "sent s' = sent (at_port r)" by blast
  with assms(2) that [of s'] show ?thesis by (simp add: numeral_eq_Suc)
qed

lemma ReadString_line:
  assumes "healthy r" "stream r = l @ rest" "is_line l" "length (incoming (at_port r)) < fuel"
  shows "\<exists>r'. ReadString io fuel r = Some (Ret l, r') \<and> healthy r' \<and> stream r' = rest \<and> at_closed r' = at_closed r \<and> sent (at_port r') = sent (at_port r)
    \<and> length (incoming (at_port r')) \<le> length (incoming (at_port r))"
  using assms(1,2,4)
proof (induction fuel arbitrary: r)
  case (Suc fuel)
  from assms(3) obtain body where body: "l = body @ [0x0A]" "0x0A \<notin> set body" by (auto simp: is_line_def)
  show ?case
  proof (cases "0x0A \<in> set (at_buf r)")
    case True
    then obtain ys zs where split: "at_buf r = ys @ 0x0A # zs" "0x0A \<notin> set ys" by (meson split_list_first)
    have "ys @ 0x0A # (zs @ concat (incoming (at_port r))) = body @ 0x0A # rest"
      using Suc.prems(2) body(1) split(1) by (simp add: stream_def)
    then have eq: "ys = body" "zs @ concat (incoming (at_port r)) = rest"
      using split(2) body(2) by (auto simp: append_eq_append_conv2 append_eq_Cons_conv Cons_eq_append_conv)
    have "takeWhile (\<lambda>c. c \<noteq> 0x0A) (at_buf r) = ys" "dropWhile (\<lambda>c. c \<noteq> 0x0A) (at_buf r) = 0x0A # zs"
      using split by (simp_all add: takeWhile_append dropWhile_append)
    with True eq body Suc.prems(1) show ?thesis by (simp add: healthy_def stream_def)
  next
    case False
    have "0x0A \<in> set (stream r)" using Suc.prems(2) body(1) by simp
    with False obtain c cs where c: "incoming (at_port r) = c # cs" by (cases "incoming (at_port r)") (auto simp: stream_def)
    moreover from c Suc.prems(1) have ne: "c \<noteq> []" by (auto simp: healthy_def)
    ultimately obtain s' where f: "fill io 100 r = r\<lparr>at_port := s', at_buf := at_buf r @ c\<rparr>" "incoming s' = cs" "sent s' = sent (at_port r)" by (rule fill_chunk)
    let ?r = "r\<lparr>at_port := s', at_buf := at_buf r @ c\<rparr>"
    have "healthy ?r" "stream ?r = l @ rest" "length (incoming (at_port ?r)) < fuel"
      using Suc.prems c f(2) by (auto simp: healthy_def stream_def)
    from Suc.IH [OF this] obtain r' where "ReadString io fuel ?r = Some (Ret l, r')" "healthy r'" "stream r' = rest" "at_closed r' = at_closed r \<and> sent (at_port r') = sent (at_port r)"
      "length (incoming (at_port r')) \<le> length cs" using f(2,3) by auto
    moreover have "at_err r = None" using Suc.prems(1) by (simp add: healthy_def)
    ultimately show ?thesis using False f(1) c by auto
  qed
qed simp

lemma readLine_step:
  assumes "healthy r" "stream r = l @ rest" "is_line l" "length (incoming (at_port r)) \<le> fuel"
  shows "\<exists>r'. readLine io (Suc fuel) command r =
      (if TrimSpace l \<noteq> [] \<and> TrimSpace l \<noteq> command then Some (Ret (TrimSpace l), r') else readLine io fuel command r')
    \<and> healthy r' \<and> stream r' = rest \<and> at_closed r' = at_closed r \<and> sent (at_port r') = sent (at_port r) \<and> length (incoming (at_port r')) \<le> length (incoming (at_port r))"
proof -
  from ReadString_line [OF assms(1-3), of "Suc fuel"] assms(4) obtain r' where r':
    "ReadString io (Suc fuel) r = Some (Ret l, r')" "healthy r'" "stream r' = rest" "at_closed r' = at_closed r \<and> sent (at_port r') = sent (at_port r)"
    "length (incoming (at_port r')) \<le> length (incoming (at_port r))" by (auto simp: less_Suc_eq_le)
  then show ?thesis
    by (intro exI [of _ r'])
      (simp add: and_then_def setReadDeadline_def deadline on_io_error_def check_ctx_def ctx done_with_def Let_def del: ReadString.simps)
qed

lemma readLine_lines:
  assumes "healthy r" "stream r = concat ls @ rest" "list_all is_line ls" "length ls + length (incoming (at_port r)) \<le> fuel"
    "dropWhile (\<lambda>l. TrimSpace l = [] \<or> TrimSpace l = command) ls = l # ls'"
  shows "\<exists>r'. readLine io (Suc fuel) command r = Some (Ret (TrimSpace l), r') \<and> healthy r' \<and> stream r' = concat ls' @ rest
    \<and> at_closed r' = at_closed r \<and> sent (at_port r') = sent (at_port r) \<and> length (incoming (at_port r')) \<le> length (incoming (at_port r))"
  using assms
proof (induction ls arbitrary: r fuel)
  case (Cons x xs)
  have "stream r = x @ (concat xs @ rest)" "is_line x" "length (incoming (at_port r)) \<le> fuel" using Cons.prems by simp_all
  from readLine_step [OF Cons.prems(1) this, of command] obtain r1 where r1:
    "readLine io (Suc fuel) command r =
      (if TrimSpace x \<noteq> [] \<and> TrimSpace x \<noteq> command then Some (Ret (TrimSpace x), r1) else readLine io fuel command r1)"
    "healthy r1" "stream r1 = concat xs @ rest" "at_closed r1 = at_closed r \<and> sent (at_port r1) = sent (at_port r)" "length (incoming (at_port r1)) \<le> length (incoming (at_port r))" by blast
  show ?case
  proof (cases "TrimSpace x = [] \<or> TrimSpace x = command")
    case True
    obtain fuel' where fuel: "fuel = Suc fuel'" using Cons.prems(4) by (cases fuel) auto
    have "list_all is_line xs" "length xs + length (incoming (at_port r1)) \<le> fuel'"
      "dropWhile (\<lambda>l. TrimSpace l = [] \<or> TrimSpace l = command) xs = l # ls'" using Cons.prems r1(5) True fuel by simp_all
    from Cons.IH [OF r1(2,3) this] r1 True fuel show ?thesis by auto
  next
    case False
    with Cons.prems(5) have "l = x" "ls' = xs" by simp_all
    with False r1 show ?thesis by auto
  qed
qed simp

lemma scan_drop:
  "dropWhile (\<lambda>l. TrimSpace l = [] \<or> TrimSpace l = command) ls = l # ls' \<Longrightarrow> scan command response ls = scan command response (l # ls')"
  "dropWhile (\<lambda>l. TrimSpace l = [] \<or> TrimSpace l = command) ls = [] \<Longrightarrow> scan command response ls = None"
  by (induction ls) (auto simp: Let_def split: if_splits)

lemma readResponse_scan:
  assumes "healthy r" "stream r = concat ls @ rest" "list_all is_line ls" "length ls + length (incoming (at_port r)) < fuel"
    "scan command response ls = Some (out, ls')"
  shows "\<exists>r'. readResponse io fuel command response r = Some (map_err DeviceError out, r') \<and> stream r' = concat ls' @ rest
    \<and> healthy r' \<and> at_closed r' = at_closed r \<and> sent (at_port r') = sent (at_port r)"
  using assms
proof (induction "length ls" arbitrary: ls r fuel response rule: less_induct)
  case less
  obtain l ls1 where drop: "dropWhile (\<lambda>l. TrimSpace l = [] \<or> TrimSpace l = command) ls = l # ls1"
    using scan_drop(2) [of command ls response] less.prems(5) by (cases "dropWhile (\<lambda>l. TrimSpace l = [] \<or> TrimSpace l = command) ls") auto
  obtain f where f: "fuel = Suc f" using less.prems(4) by (cases fuel) auto
  have len: "length ls1 < length ls" using length_dropWhile_le [of "\<lambda>l. TrimSpace l = [] \<or> TrimSpace l = command" ls] drop by simp
  have line: "TrimSpace l \<noteq> []" "TrimSpace l \<noteq> command" using hd_dropWhile [of "\<lambda>l. TrimSpace l = [] \<or> TrimSpace l = command" ls] drop by auto
  have all: "list_all is_line ls1" 
    using less.prems(3) set_dropWhileD [of _ "\<lambda>l. TrimSpace l = [] \<or> TrimSpace l = command" ls] unfolding drop list_all_iff by auto
  have "length ls + length (incoming (at_port r)) \<le> f" using less.prems(4) f by simp
  from readLine_lines [OF less.prems(1,2,3) this drop] obtain r1 where r1: "readLine io fuel command r = Some (Ret (TrimSpace l), r1)"
    "healthy r1" "stream r1 = concat ls1 @ rest" "at_closed r1 = at_closed r \<and> sent (at_port r1) = sent (at_port r)" "length (incoming (at_port r1)) \<le> length (incoming (at_port r))"
    unfolding f by blast
  have step: "readResponse io fuel command response r =
    (if is_ok (TrimSpace l) then (if response \<noteq> [] then done_with response else readResponse io f command response) r1
     else if is_error (TrimSpace l) then raise (DeviceError (TrimSpace l)) r1
     else if is_csim (TrimSpace l) then readResponse io f command (TrimSpace l) r1
     else readResponse io f command response r1)"
    unfolding f readResponse.simps and_then_def using r1(1) unfolding f by simp
  have sc: "scan command response (l # ls1) = Some (out, ls')" using scan_drop(1) [OF drop, of response] less.prems(5) by simp
  have fuel1: "length ls1 + length (incoming (at_port r1)) < f" using less.prems(4) len r1(5) f by simp
  note IH = less.hyps [OF len r1(2,3) all fuel1]
  show ?case
  proof (cases "is_ok (TrimSpace l) \<and> response \<noteq> [] \<or> \<not> is_ok (TrimSpace l) \<and> is_error (TrimSpace l)")
    case True
    with sc line step r1 show ?thesis by (auto simp: Let_def done_with_def raise_def)
  next
    case False
    define response' where "response' = (if \<not> is_ok (TrimSpace l) \<and> is_csim (TrimSpace l) then TrimSpace l else response)"
    have "scan command response' ls1 = Some (out, ls')" using sc line False by (auto simp: Let_def response'_def split: if_splits)
    from IH [OF this] r1(4) have "\<exists>r'. readResponse io f command response' r1 = Some (map_err DeviceError out, r') \<and> stream r' = concat ls' @ rest
      \<and> healthy r' \<and> at_closed r' = at_closed r \<and> sent (at_port r') = sent (at_port r)" by simp
    moreover have "readResponse io fuel command response r = readResponse io f command response' r1"
      using step False by (auto simp: response'_def)
    ultimately show ?thesis by simp
  qed
qed

lemma writeFull_accept: "\<exists>s'. at_writeFull io p s = (Ret (), s') \<and> incoming s' = incoming s \<and> sent s' = sent s @ p"
proof (cases "p = []")
  case False
  from accept [of p s] obtain s' where "port_Write io p s = ((int (length p), None), s')" "incoming s' = incoming s" "sent s' = sent s @ p" by blast
  with False show ?thesis by (subst at_writeFull.simps) (simp add: at_writeFull.simps [of io "[]"])
qed (simp add: at_writeFull.simps)

text \<open>An exchange gives what \<open>scan\<close> says of the incoming lines, however they are cut into chunks.\<close>

lemma run_scan:
  assumes "healthy r" "\<not> at_closed r" "stream r = concat ls @ rest" "list_all is_line ls" "length ls + length (incoming (at_port r)) < fuel"
    "scan command [] ls = Some (out, ls')"
  shows "\<exists>r'. run io fuel command r = Some (map_err DeviceError out, r') \<and> stream r' = concat ls' @ rest \<and> healthy r' \<and> \<not> at_closed r'
    \<and> sent (at_port r') = sent (at_port r) @ command @ [0x0D, 0x0A]"
proof -
  from writeFull_accept [of "command @ [0x0D, 0x0A]" "at_port r"] obtain s' where w:
    "at_writeFull io (command @ [0x0D, 0x0A]) (at_port r) = (Ret (), s')" "incoming s' = incoming (at_port r)" "sent s' = sent (at_port r) @ command @ [0x0D, 0x0A]" by blast
  have "healthy (r\<lparr>at_port := s'\<rparr>)" "stream (r\<lparr>at_port := s'\<rparr>) = concat ls @ rest"
    "length ls + length (incoming (at_port (r\<lparr>at_port := s'\<rparr>))) < fuel" using assms w(2) by (simp_all add: healthy_def stream_def)
  from readResponse_scan [OF this(1,2) assms(4) this(3) assms(6)] assms(2) w show ?thesis
    by (auto simp: run_def and_then_def check_ctx_def ctx unless_def setWriteDeadline_def deadline on_io_error_def write_command_def)
qed

text \<open>The exchange for one APDU: noise, the response, noise, the final result.\<close>

lemma Transmit_exchange:
  assumes "healthy r" "\<not> at_closed r" "stream r = concat ls @ rest" "list_all is_line ls" "length ls + length (incoming (at_port r)) < fuel"
    "scan (csim_command_prefix @ csimData_MarshalText req) [] ls = Some (Ret text, ls')"
    "csim_response_UnmarshalText text = Ret resp" "2 \<le> length resp"
  shows "\<exists>r'. at_Transmit io fuel (Some req) r = Some (Ret resp, r') \<and> stream r' = concat ls' @ rest \<and> healthy r' \<and> \<not> at_closed r'
    \<and> sent (at_port r') = sent (at_port r) @ csim_command_prefix @ csimData_MarshalText req @ [0x0D, 0x0A]"
proof -
  from run_scan [OF assms(1-6)] obtain r' where "run io fuel (csim_command_prefix @ csimData_MarshalText req) r = Some (Ret text, r')"
    "stream r' = concat ls' @ rest" "healthy r'" "\<not> at_closed r'"
    "sent (at_port r') = sent (at_port r) @ csim_command_prefix @ csimData_MarshalText req @ [0x0D, 0x0A]" by auto
  with assms(7,8) show ?thesis
    by (auto simp: at_Transmit_def and_then_def lifted_def csim_command_UnmarshalBinary_def command_MarshalText_def unless_def done_with_def)
qed

end

section \<open>A port that plays a script\<close>

text \<open>The port hands out a list of chunks, then reports a timeout; what is written is recorded. \<open>None\<close> in the
  list is a read that times out.\<close>

record script =
  sc_incoming :: "bytes option list"
  sc_sent :: bytes

definition script_port :: "(script, unit) port" where
  "script_port =
     \<lparr>port_Write = (\<lambda>p s. ((int (length p), None), s\<lparr>sc_sent := sc_sent s @ p\<rparr>)),
      port_Read = (\<lambda>s. case sc_incoming s of Some c # cs \<Rightarrow> ((c, None), s\<lparr>sc_incoming := cs\<rparr>)
                                        | None # cs \<Rightarrow> (([], Some ()), s\<lparr>sc_incoming := cs\<rparr>)
                                        | [] \<Rightarrow> (([], Some ()), s)),
      port_SetWriteDeadline = (\<lambda>s. (None, s)), port_SetReadDeadline = (\<lambda>s. (None, s)), port_Close = (\<lambda>s. (None, s)),
      ctx_Err = (\<lambda>_. None), ctx_deadline_passed = (\<lambda>_. True), is_timeout = (\<lambda>_. True)\<rparr>"

text \<open>The chunks before the first timeout.\<close>

definition chunks_of :: "script \<Rightarrow> bytes list" where
  "chunks_of s = map the (takeWhile (\<lambda>c. c \<noteq> None) (sc_incoming s))"

interpretation script: chunked_port script_port chunks_of sc_sent
proof
  fix s c cs
  assume "chunks_of s = c # cs"
  then obtain rest where "sc_incoming s = Some c # rest" "map the (takeWhile (\<lambda>c. c \<noteq> None) rest) = cs"
    unfolding chunks_of_def by (cases "sc_incoming s") (auto split: if_splits)
  then show "\<exists>s'. port_Read script_port s = ((c, None), s') \<and> chunks_of s' = cs \<and> sc_sent s' = sc_sent s"
    by (simp add: script_port_def chunks_of_def)
qed (simp_all add: script_port_def chunks_of_def)

text \<open>Lines that an exchange ignores, and the lines of the device's answer.\<close>

definition harmless :: "bytes \<Rightarrow> bool" where
  "harmless l \<longleftrightarrow> is_line l \<and> \<not> is_ok (TrimSpace l) \<and> \<not> is_error (TrimSpace l) \<and> \<not> is_csim (TrimSpace l)"

definition response_text :: "bytes \<Rightarrow> bytes" where
  "response_text resp = csim_response_prefix @ [0x20] @ csimData_MarshalText resp"

definition answer :: "bytes list \<Rightarrow> bytes \<Rightarrow> bytes list \<Rightarrow> bytes list" where
  "answer noise1 resp noise2 = noise1 @ [response_text resp @ [0x0D, 0x0A]] @ noise2 @ [line_OK @ [0x0D, 0x0A]]"

lemma scan_noise: "list_all harmless noise \<Longrightarrow> scan command response (noise @ ls) = scan command response ls"
  by (induction noise) (auto simp: harmless_def Let_def)

lemma ToUpper_ascii: "list_all (\<lambda>b. unat b < 0x80) s \<Longrightarrow> ToUpper s = map (upper_rune \<circ> unat) s"
  by (simp add: ToUpper_def utf8_runes_def utf8_segments_ascii)

lemma response_line:
  "TrimSpace (response_text resp @ [0x0D, 0x0A]) = response_text resp" "is_csim (response_text resp)"
  "\<not> is_ok (response_text resp)" "\<not> is_error (response_text resp)" "is_line (response_text resp @ [0x0D, 0x0A])" "response_text resp \<noteq> []"
  "response_text resp \<noteq> csim_command_prefix @ x"
proof -
  note t = csim_text_ascii [of resp]
  have a: "list_all (\<lambda>b. unat b < 0x80) (response_text resp)" using t by (simp add: response_text_def csim_response_prefix_def)
  show "TrimSpace (response_text resp @ [0x0D, 0x0A]) = response_text resp"
    by (rule TrimSpace_crlf) (use a t in \<open>auto simp: response_text_def csim_response_prefix_def IsSpace_def\<close>)
  note up = ToUpper_ascii [OF a]
  show "is_csim (response_text resp)" unfolding is_csim_def starts_with_def up by (simp add: response_text_def csim_response_prefix_def ascii_def upper_rune_def)
  show "\<not> is_ok (response_text resp)" unfolding is_ok_def up by (simp add: response_text_def csim_response_prefix_def ascii_def upper_rune_def line_OK_def)
  show "\<not> is_error (response_text resp)" unfolding is_error_def starts_with_def up
    by (simp add: response_text_def csim_response_prefix_def ascii_def upper_rune_def line_ERROR_def line_CME_def line_CMS_def)
  have "0x0A \<notin> set (response_text resp @ [0x0D])" using t by (auto simp: response_text_def csim_response_prefix_def)
  moreover have "response_text resp @ [0x0D, 0x0A] = (response_text resp @ [0x0D]) @ [0x0A]" by simp
  ultimately show "is_line (response_text resp @ [0x0D, 0x0A])" unfolding is_line_def by blast
qed (simp_all add: response_text_def csim_response_prefix_def csim_command_prefix_def)

lemma ok_line: "TrimSpace (line_OK @ [0x0D, 0x0A]) = line_OK" "is_ok line_OK" "is_line (line_OK @ [0x0D, 0x0A])" "line_OK \<noteq> csim_command_prefix @ x"
proof -
  have a: "list_all (\<lambda>b. unat b < 0x80) line_OK" by (simp add: line_OK_def)
  show "TrimSpace (line_OK @ [0x0D, 0x0A]) = line_OK" by (rule TrimSpace_crlf) (simp_all add: line_OK_def IsSpace_def)
  show "is_ok line_OK" unfolding is_ok_def ToUpper_ascii [OF a] by (simp add: line_OK_def ascii_def upper_rune_def)
  show "is_line (line_OK @ [0x0D, 0x0A])" unfolding is_line_def by (intro exI [of _ "line_OK @ [0x0D]"]) (simp add: line_OK_def)
qed (simp add: line_OK_def csim_command_prefix_def)

lemma scan_answer:
  assumes "list_all harmless noise1" "list_all harmless noise2"
  shows "scan (csim_command_prefix @ x) [] (answer noise1 resp noise2 @ ls) = Some (Ret (response_text resp), ls)"
proof -
  have "line_OK \<noteq> []" by (simp add: line_OK_def)
  with response_line [of resp] ok_line show ?thesis unfolding answer_def
    by (simp add: scan_noise [OF assms(1)] scan_noise [OF assms(2)] Let_def)
qed

text \<open>C9: an APDU exchange over the serial line: whatever harmless lines surround it (the echo of the command,
  blank lines, unsolicited results), and however the incoming bytes are cut into reads, \<open>Transmit\<close> writes
  exactly the \<^verbatim>\<open>AT+CSIM\<close> command line, returns exactly the response APDU of the device, and leaves the bytes
  after the final \<^verbatim>\<open>OK\<close> unread.\<close>

theorem at_transmit_exchange:
  assumes "list_all harmless noise1" "list_all harmless noise2" "2 \<le> length resp" "2 * length resp < 2 ^ 63"
    "[] \<notin> set chunks" "concat chunks = concat (answer noise1 resp noise2) @ rest"
    "length noise1 + length noise2 + length chunks + 2 < fuel"
  shows "\<exists>r'. at_Transmit script_port fuel (Some req) (newReader \<lparr>sc_incoming = map Some chunks, sc_sent = []\<rparr>) = Some (Ret resp, r')
    \<and> at_buf r' @ concat (chunks_of (at_port r')) = rest
    \<and> sc_sent (at_port r') = csim_command_prefix @ csimData_MarshalText req @ [0x0D, 0x0A]"
proof -
  let ?r = "newReader \<lparr>sc_incoming = map Some chunks, sc_sent = []\<rparr> :: (script, unit) AtReader"
  have in_eq: "chunks_of (at_port ?r) = chunks" by (simp add: chunks_of_def newReader_def takeWhile_map comp_def)
  have h: "script.healthy ?r" "\<not> at_closed ?r" using assms(5) in_eq by (simp_all add: script.healthy_def newReader_def)
  have st: "script.stream ?r = concat (answer noise1 resp noise2) @ rest" using assms(6) in_eq by (simp add: script.stream_def newReader_def)
  have lines: "list_all is_line (answer noise1 resp noise2)"
    using assms(1,2) response_line(5) ok_line(3) by (auto simp: answer_def list_all_iff harmless_def)
  have fuel: "length (answer noise1 resp noise2) + length (chunks_of (at_port ?r)) < fuel" using assms(7) unfolding in_eq by (simp add: answer_def)
  have scan: "scan (csim_command_prefix @ csimData_MarshalText req) [] (answer noise1 resp noise2) = Some (Ret (response_text resp), [])"
    using scan_answer [OF assms(1,2), of _ resp "[]"] by simp
  have dec: "csim_response_UnmarshalText (response_text resp) = Ret resp" unfolding response_text_def by (rule csim_response_decodes [OF assms(4)])
  from script.Transmit_exchange [OF h st lines fuel scan dec assms(3)] show ?thesis
    by (auto simp: script.stream_def newReader_def)
qed

lemma harmless_blank: "harmless [0x0D, 0x0A]"
proof -
  have "IsSpace 0x0D" "IsSpace 0x0A" by (simp_all add: IsSpace_def)
  then have "TrimSpace [0x0D, 0x0A] = []" by (simp add: TrimSpace_def utf8_segments_ascii space_segment_def)
  moreover have "\<not> is_ok [] \<and> \<not> is_error [] \<and> \<not> is_csim []"
    by (simp add: is_ok_def is_error_def is_csim_def starts_with_def ToUpper_def utf8_runes_def ascii_def line_OK_def line_ERROR_def line_CME_def
        line_CMS_def csim_response_prefix_def)
  ultimately show ?thesis by (auto simp: harmless_def is_line_def intro: exI [of _ "[0x0D]"])
qed

theorem at_transmit_exchange_witness:
  "\<exists>r'. at_Transmit script_port 10 (Some [0x00, 0xA4])
     (newReader \<lparr>sc_incoming = map Some [[0x0D], [0x0A] @ concat (answer [] [0x90, 0x00] []) @ [0x2B]], sc_sent = []\<rparr>) = Some (Ret [0x90, 0x00], r')
   \<and> at_buf r' @ concat (chunks_of (at_port r')) = [0x2B]
   \<and> sc_sent (at_port r') = csim_command_prefix @ csimData_MarshalText [0x00, 0xA4] @ [0x0D, 0x0A]"
  using at_transmit_exchange [of "[[0x0D, 0x0A]]" "[]" "[0x90, 0x00]" "[[0x0D], [0x0A] @ concat (answer [] [0x90, 0x00] []) @ [0x2B]]" "[0x2B]" 10 "[0x00, 0xA4]"]
  by (simp add: harmless_blank answer_def)

section \<open>A late answer\<close>

lemma writeFull_script: "at_writeFull script_port p s = (Ret (), s\<lparr>sc_sent := sc_sent s @ p\<rparr>)"
proof (cases "p = []")
  case False
  then show ?thesis by (subst at_writeFull.simps) (simp add: script_port_def at_writeFull.simps [of _ "[]"])
qed (simp add: at_writeFull.simps)

lemma readLine_timeout:
  "readLine script_port (Suc (Suc fuel)) command (newReader \<lparr>sc_incoming = None # cs, sc_sent = x\<rparr>) =
   Some (Fail ContextDeadlineExceeded, newReader \<lparr>sc_incoming = cs, sc_sent = x\<rparr>)"
proof -
  have "fill script_port (Suc k) (newReader \<lparr>sc_incoming = None # cs, sc_sent = x\<rparr>) =
    (newReader \<lparr>sc_incoming = cs, sc_sent = x\<rparr>)\<lparr>at_err := Some (ReadFailed ())\<rparr>" for k
    by (simp add: script_port_def newReader_def)
  from this [of 99] have "fill script_port 100 (newReader \<lparr>sc_incoming = None # cs, sc_sent = x\<rparr>) =
    (newReader \<lparr>sc_incoming = cs, sc_sent = x\<rparr>)\<lparr>at_err := Some (ReadFailed ())\<rparr>" by (simp del: fill.simps)
  then have "ReadString script_port (Suc (Suc fuel)) (newReader \<lparr>sc_incoming = None # cs, sc_sent = x\<rparr>) =
    Some (Fail (ReadFailed ()), newReader \<lparr>sc_incoming = cs, sc_sent = x\<rparr>)"
    by (simp add: newReader_def del: fill.simps)
  then have "on_io_error script_port (ReadString script_port (Suc (Suc fuel))) (newReader \<lparr>sc_incoming = None # cs, sc_sent = x\<rparr>) =
    Some (Fail ContextDeadlineExceeded, newReader \<lparr>sc_incoming = cs, sc_sent = x\<rparr>)"
    by (simp add: on_io_error_def contextIOError_def port_error_def script_port_def del: ReadString.simps)
  moreover have "setReadDeadline script_port r = Some (Ret (), r)" for r :: "(script, unit) AtReader"
    by (simp add: setReadDeadline_def script_port_def)
  ultimately show ?thesis by (simp add: and_then_def del: ReadString.simps)
qed

lemma timeout_call:
  "at_Transmit script_port (Suc (Suc fuel)) (Some req) (newReader \<lparr>sc_incoming = None # cs, sc_sent = x\<rparr>) =
   Some (Fail ContextDeadlineExceeded, newReader \<lparr>sc_incoming = cs, sc_sent = x @ csim_command_prefix @ csimData_MarshalText req @ [0x0D, 0x0A]\<rparr>)"
proof -
  let ?cmd = "csim_command_prefix @ csimData_MarshalText req"
  let ?r = "newReader \<lparr>sc_incoming = None # cs, sc_sent = x\<rparr> :: (script, unit) AtReader"
  have w: "on_io_error script_port (write_command script_port ?cmd) ?r = Some (Ret (), newReader \<lparr>sc_incoming = None # cs, sc_sent = x @ ?cmd @ [0x0D, 0x0A]\<rparr>)"
    by (simp add: on_io_error_def write_command_def writeFull_script newReader_def)
  have "setWriteDeadline script_port r = Some (Ret (), r)" "check_ctx script_port r = Some (Ret (), r)" for r :: "(script, unit) AtReader"
    by (simp_all add: setWriteDeadline_def check_ctx_def script_port_def)
  moreover have "\<not> at_closed ?r" by (simp add: newReader_def)
  moreover have "readResponse script_port (Suc (Suc fuel)) ?cmd [] (newReader \<lparr>sc_incoming = None # cs, sc_sent = x @ ?cmd @ [0x0D, 0x0A]\<rparr>) =
    Some (Fail ContextDeadlineExceeded, newReader \<lparr>sc_incoming = cs, sc_sent = x @ ?cmd @ [0x0D, 0x0A]\<rparr>)"
    unfolding readResponse.simps(2) and_then_def readLine_timeout by simp
  ultimately have "run script_port (Suc (Suc fuel)) ?cmd ?r = Some (Fail ContextDeadlineExceeded, newReader \<lparr>sc_incoming = cs, sc_sent = x @ ?cmd @ [0x0D, 0x0A]\<rparr>)"
    using w by (simp add: run_def and_then_def unless_def del: readResponse.simps)
  then show ?thesis
    by (simp add: at_Transmit_def and_then_def lifted_def csim_command_UnmarshalBinary_def command_MarshalText_def)
qed

text \<open>A late answer is taken for the next one: when the read of a command's answer times out and the answer
  arrives later, the next command on the reader returns it as its own response, whatever the two
  commands are: the timeout discards nothing, and nothing in the answer names its command.\<close>

theorem at_late_answer_misattributed:
  assumes "2 \<le> length resp" "2 * length resp < 2 ^ 63" "4 < fuel"
  shows "\<exists>r1 r2. at_Transmit script_port fuel (Some req1)
      (newReader \<lparr>sc_incoming = [None, Some (concat (answer [] resp []))], sc_sent = []\<rparr>) = Some (Fail ContextDeadlineExceeded, r1)
    \<and> at_Transmit script_port fuel (Some req2) r1 = Some (Ret resp, r2)"
proof -
  obtain f where f: "fuel = Suc (Suc f)" using assms(3) by (cases fuel; cases "fuel - 1") auto
  let ?r = "newReader \<lparr>sc_incoming = [Some (concat (answer [] resp []))], sc_sent = csim_command_prefix @ csimData_MarshalText req1 @ [0x0D, 0x0A]\<rparr>
    :: (script, unit) AtReader"
  have in_eq: "chunks_of (at_port ?r) = [concat (answer [] resp [])]" by (simp add: chunks_of_def newReader_def)
  have "concat (answer [] resp []) \<noteq> []" by (simp add: answer_def line_OK_def)
  then have h: "script.healthy ?r" "\<not> at_closed ?r" "script.stream ?r = concat (answer [] resp []) @ []"
    using in_eq by (simp_all add: script.healthy_def script.stream_def newReader_def)
  have lines: "list_all is_line (answer [] resp [])" using response_line(5) ok_line(3) by (simp add: answer_def)
  have fuel: "length (answer [] resp []) + length (chunks_of (at_port ?r)) < fuel" unfolding in_eq using assms(3) by (simp add: answer_def)
  have scan: "scan (csim_command_prefix @ csimData_MarshalText req2) [] (answer [] resp []) = Some (Ret (response_text resp), [])"
    using scan_answer [of "[]" "[]" _ resp "[]"] by simp
  have dec: "csim_response_UnmarshalText (response_text resp) = Ret resp" unfolding response_text_def by (rule csim_response_decodes [OF assms(2)])
  from script.Transmit_exchange [OF h lines fuel scan dec assms(1)] obtain r2 where
    "at_Transmit script_port fuel (Some req2) ?r = Some (Ret resp, r2)" by auto
  with timeout_call [of f req1 "[Some (concat (answer [] resp []))]" "[]"] show ?thesis unfolding f by auto
qed

theorem at_late_answer_misattributed_witness:
  "\<exists>r1 r2. at_Transmit script_port 5 (Some [0x00, 0xC0])
      (newReader \<lparr>sc_incoming = [None, Some (concat (answer [] [0x90, 0x00] []))], sc_sent = []\<rparr>) = Some (Fail ContextDeadlineExceeded, r1)
    \<and> at_Transmit script_port 5 (Some [0x00, 0xB0]) r1 = Some (Ret [0x90, 0x00], r2)"
  by (rule at_late_answer_misattributed) simp_all

section \<open>The reader as a transmitter\<close>

text \<open>A call that has not returned when its fuel runs out counts as the error \<open>None\<close>.\<close>

definition at_tx :: "('s, 'e) port \<Rightarrow> nat \<Rightarrow> (('s, 'e) AtReader, 'e at_error option) tx" where
  "at_tx io fuel req r =
     (case at_Transmit io fuel (Some req) r of Some (res, r') \<Rightarrow> (map_err Some res, r') | None \<Rightarrow> (Fail None, r))"

text \<open>The contract of \<open>io.Writer\<close>: no more bytes are reported than were given.\<close>

locale serial_port =
  fixes io :: "('s, 'e) port"
  assumes write_count: "port_Write io p s = ((n, None), s') \<Longrightarrow> n \<le> int (length p)"
begin

lemma writeFull_no_panic: "fst (at_writeFull io p s) \<noteq> Panic"
proof (induction "length p" arbitrary: p s rule: less_induct)
  case less
  obtain n err s' where w: "port_Write io p s = ((n, err), s')" by (metis prod.exhaust)
  show ?case
  proof (cases "p = [] \<or> err \<noteq> None \<or> n \<le> 0")
    case True
    with w show ?thesis by (subst at_writeFull.simps) (auto split: option.splits)
  next
    case False
    with w write_count [of p s n s'] have "nat n \<le> length p" by simp
    moreover have "length (drop (nat n) p) < length p" using False by auto
    note less [OF this, of s']
    ultimately show ?thesis using False w by (subst at_writeFull.simps) auto
  qed
qed

lemma calm_ReadString: "calm (ReadString io fuel)"
proof -
  have "ReadString io fuel r \<noteq> Some (Panic, r')" for r r'
    by (induction fuel arbitrary: r) (auto split: option.splits)
  then show ?thesis by (simp add: calm_def)
qed

lemma calm_on_io_error: "calm m \<Longrightarrow> calm (on_io_error io m)"
  by (auto simp: calm_def on_io_error_def split: option.splits outcome.splits prod.splits)

lemma calm_deadlines: "calm (setReadDeadline io)" "calm (setWriteDeadline io)" "calm (check_ctx io)"
  by (auto simp: calm_def setReadDeadline_def setWriteDeadline_def check_ctx_def split: prod.splits option.splits)

lemma calm_readLine: "calm (readLine io fuel command)"
  by (induction fuel) (auto simp: Let_def calm_def [of "\<lambda>r. None"] simp del: ReadString.simps
      intro!: calm_and_then calm_deadlines calm_on_io_error calm_ReadString)

lemma calm_readResponse: "calm (readResponse io fuel command response)"
  by (induction fuel arbitrary: response) (auto simp: calm_def [of "\<lambda>r. None"] simp del: readLine.simps intro!: calm_and_then calm_readLine)

lemma calm_write_command: "calm (write_command io command)"
proof -
  have "res \<noteq> Panic" if "at_writeFull io p s = (res, s')" for p s res s' using writeFull_no_panic [of p s] that by simp
  then show ?thesis by (auto simp: calm_def write_command_def split: prod.splits)
qed

lemma csimData_no_panic: "csimData_UnmarshalText t \<noteq> Panic"
  by (auto simp: csimData_UnmarshalText_def bind_eq_Panic_iff Let_def split: prod.splits option.splits if_splits)

lemma unmarshalBody_no_panic: "unmarshalBody body b \<noteq> Panic"
  by (auto simp: unmarshalBody_def hasKnownStatusWord_def bind_eq_Panic_iff csimData_no_panic index_def)

lemma bare_line_no_panic: "bare_line ls \<noteq> Panic"
  by (induction ls) (auto simp: Let_def unmarshalBody_no_panic split: outcome.splits)

lemma calm_run: "calm (run io fuel command)"
proof -
  have "calm (and_then (setWriteDeadline io) (\<lambda>_. and_then (on_io_error io (write_command io command)) (\<lambda>_. readResponse io fuel command [])))"
    by (intro calm_and_then calm_deadlines calm_on_io_error calm_write_command calm_readResponse)
  then have "calm (\<lambda>r. unless (at_closed r) ReaderClosed
      (and_then (setWriteDeadline io) (\<lambda>_. and_then (on_io_error io (write_command io command)) (\<lambda>_. readResponse io fuel command []))) r)"
    by (auto simp: calm_def unless_def raise_def)
  then show ?thesis unfolding run_def by (intro calm_and_then calm_deadlines)
qed

lemma calm_Transmit: "calm (at_Transmit io fuel req)"
  unfolding at_Transmit_def
  by (intro calm_and_then calm_lifted calm_run calm_unless calm_done)
    (auto simp: csim_command_UnmarshalBinary_def command_MarshalText_def csim_response_UnmarshalText_def unmarshalBody_no_panic bare_line_no_panic
      split: option.splits)

lemma at_transmitter: "transmitter (at_tx io fuel)"
proof
  fix req s
  show "fst (at_tx io fuel req s) \<noteq> Panic"
    using calm_Transmit [of fuel "Some req"] by (auto simp: at_tx_def calm_def split: option.splits prod.splits)
qed

end

sublocale serial_port \<subseteq> at: transmitter "at_tx io fuel" for fuel
  by (rule at_transmitter)

sublocale chunked_port \<subseteq> serial: serial_port io
proof
  fix p s n s'
  assume "port_Write io p s = ((n, None), s')"
  with accept [of p s] show "n \<le> int (length p)" by auto
qed



end
