(* ===== verification/Qcom_Uim.thy ===== *)
theory Qcom_Uim
  imports Qmi_Tlv Actions
begin

text \<open>
  The UIM operations of the QMI client (\<^verbatim>\<open>qcom/message.go\<close>, \<^verbatim>\<open>qcom/file.go\<close>, \<^verbatim>\<open>qcom/authenticate.go\<close>,
  \<^verbatim>\<open>qcom/logical_channel.go\<close>, \<^verbatim>\<open>qcom/atr.go\<close>, the result TLV of \<^verbatim>\<open>qcom/errors.go\<close>): length-prefixed values, file and
  session identifiers, reading and writing card files, authentication and logical channels. The
  client's \<^verbatim>\<open>request\<close> method is an argument, an action from a message and its TLVs to the TLVs of the
  response.
\<close>

section \<open>Errors\<close>

datatype 'e uim_error =
    RequestFailed 'e
  | NoResultTLV
  | ShortResultTLV nat
  | QMIError u16
  | CardResultLength nat
  | CardStatus u16
  | AIDTooLong nat
  | PathLength
  | PathTooLong nat
  | ValueTooLong nat
  | PrefixTruncated
  | ValueLength nat nat
  | TLVMissing byte
  | TLVLength nat
  | AttributesTruncated
  | AttributesLength nat nat
  | SecurityLength nat
  | WrongStructure
  | OffsetBeyondFile
  | RecordNumberZero
  | LastBeforeFirst
  | AdditionalMissing
  | NotWholeRecords
  | RecordCount nat nat
  | ContentEmpty
  | ContentTooLong nat
  | IndicationUnsupported
  | LongResponseUnsupported
  | AuthFieldTooLong nat
  | AuthTooShort nat
  | AuthLength
  | PolicyOutOfRange byte
  | ResponseTooLong nat

type_synonym ('r, 'e) requester = "u16 \<Rightarrow> TLVs \<Rightarrow> ('r, 'e uim_error, TLVs) action"
type_synonym ('r, 'e, 'a) uim_action = "('r, 'e uim_error, 'a) action"

definition QMIErrorInsufficientResources :: u16 where "QMIErrorInsufficientResources = 68"

section \<open>Results\<close>

definition ResultTLVError :: "TLV \<Rightarrow> ('e uim_error, unit) outcome" where
  "ResultTLVError item =
     fail_if (length (tlv_Value item) < 4) (ShortResultTLV (length (tlv_Value item)))
      (bind (bind (subslice (tlv_Value item) 0 2) le16) (\<lambda>result.
        if result = 0 then Ret ()
        else bind (bind (subslice (tlv_Value item) 2 4) le16) (\<lambda>code. Fail (QMIError code))))"

definition ResultError :: "TLVs \<Rightarrow> ('e uim_error, unit) outcome" where
  "ResultError ts = (case tlvs_Find ts 0x02 of None \<Rightarrow> Fail NoResultTLV | Some item \<Rightarrow> ResultTLVError item)"

definition resultOK :: "TLVs \<Rightarrow> ('e uim_error, unit) outcome" where
  "resultOK resp = ResultError resp"

definition cardErrorAt :: "TLVs \<Rightarrow> byte \<Rightarrow> ('e uim_error, unit) outcome" where
  "cardErrorAt ts typ =
     (case tlv_Value_of ts typ of
        None \<Rightarrow> Ret ()
      | Some val \<Rightarrow>
          fail_if (length val \<noteq> 2) (CardResultLength (length val))
           (bind (index val 0) (\<lambda>a. bind (index val 1) (\<lambda>b.
             let statusWord = push_bit 8 (ucast a) OR ucast b in
             if statusWord = 0x9000 then Ret () else Fail (CardStatus statusWord)))))"

definition cardError :: "TLVs \<Rightarrow> ('e uim_error, unit) outcome" where
  "cardError ts = cardErrorAt ts 0x10"

definition cardResultOK :: "TLVs \<Rightarrow> ('e uim_error, unit) outcome" where
  "cardResultOK resp = bind (ResultError resp) (\<lambda>_. cardError resp)"

section \<open>Values with a length in front\<close>

definition length8_Marshal :: "bytes \<Rightarrow> ('e uim_error, bytes) outcome" where
  "length8_Marshal v = fail_if (length v > 0xFF) (ValueTooLong (length v)) (Ret (of_nat (length v) # v))"

definition length8_Unmarshal :: "bytes \<Rightarrow> ('e uim_error, bytes) outcome" where
  "length8_Unmarshal data =
     fail_if (length data < 1) PrefixTruncated
      (bind (index data 0) (\<lambda>n.
        fail_if (length data \<noteq> 1 + unat n) (ValueLength (length data) (1 + unat n)) (subslice data 1 (length data))))"

definition length16_Marshal :: "bytes \<Rightarrow> ('e uim_error, bytes) outcome" where
  "length16_Marshal v = fail_if (length v > 0xFFFF) (ValueTooLong (length v)) (Ret (put_le16 (of_nat (length v)) @ v))"

definition length16_Unmarshal :: "bytes \<Rightarrow> ('e uim_error, bytes) outcome" where
  "length16_Unmarshal data =
     fail_if (length data < 2) PrefixTruncated
      (bind (bind (subslice data 0 2) le16) (\<lambda>n.
        fail_if (length data \<noteq> 2 + unat n) (ValueLength (length data) (2 + unat n)) (subslice data 2 (length data))))"

section \<open>Files and sessions\<close>

definition validateUIMAIDLength :: "bytes \<Rightarrow> ('e uim_error, unit) outcome" where
  "validateUIMAIDLength aid = fail_if (length aid > 32) (AIDTooLong (length aid)) (Ret ())"

definition putSessionValue :: "byte \<Rightarrow> bytes \<Rightarrow> ('e uim_error, bytes) outcome" where
  "putSessionValue session aid = bind (validateUIMAIDLength aid) (\<lambda>_. Ret ([session, of_nat (length aid)] @ aid))"

text \<open>The path without its last file identifier, each identifier with its bytes swapped.\<close>

fun swap_pairs :: "bytes \<Rightarrow> bytes" where
  "swap_pairs (a # b # rest) = b # a # swap_pairs rest"
| "swap_pairs _ = []"

definition splitFilePath :: "bytes \<Rightarrow> ('e uim_error, u16 \<times> bytes) outcome" where
  "splitFilePath path =
     fail_if (length path < 2 \<or> length path mod 2 \<noteq> 0) PathLength
      (bind (bind (subslice path (length path - 2) (length path)) be16) (\<lambda>fileID.
        Ret (fileID, swap_pairs (take (length path - 2) path))))"

definition putFileValue :: "bytes \<Rightarrow> ('e uim_error, bytes) outcome" where
  "putFileValue path =
     bind (splitFilePath path) (\<lambda>(fileID, filePath).
       fail_if (length filePath > 10) (PathTooLong (length filePath))
        (Ret (put_le16 fileID @ [of_nat (length filePath)] @ filePath)))"

record QFile =
  q_Session :: byte
  q_AID :: bytes
  q_Path :: bytes

definition file_tlvs :: "QFile \<Rightarrow> ('e uim_error, TLVs) outcome" where
  "file_tlvs f =
     bind (putFileValue (q_Path f)) (\<lambda>fileValue.
     bind (putSessionValue (q_Session f) (q_AID f)) (\<lambda>sessionValue.
       Ret [tlv_Bytes 0x01 sessionValue, tlv_Bytes 0x02 fileValue]))"

record UIMFileSecurity =
  us_Logic :: byte
  us_Attributes :: u16

definition security_MarshalBinary :: "UIMFileSecurity \<Rightarrow> bytes" where
  "security_MarshalBinary s = us_Logic s # put_le16 (us_Attributes s)"

definition security_UnmarshalBinary :: "bytes \<Rightarrow> ('e uim_error, UIMFileSecurity) outcome" where
  "security_UnmarshalBinary data =
     fail_if (length data \<noteq> 3) (SecurityLength (length data))
      (bind (index data 0) (\<lambda>l. bind (bind (subslice data 1 3) le16) (\<lambda>a. Ret \<lparr>us_Logic = l, us_Attributes = a\<rparr>)))"

record RawFileAttributes =
  ra_FileSize :: u16
  ra_FileID :: u16
  ra_FileType :: byte
  ra_RecordSize :: u16
  ra_RecordCount :: u16
  ra_ReadSecurity :: UIMFileSecurity
  ra_WriteSecurity :: UIMFileSecurity
  ra_IncreaseSecurity :: UIMFileSecurity
  ra_DeactivateSecurity :: UIMFileSecurity
  ra_ActivateSecurity :: UIMFileSecurity
  ra_Raw :: bytes

definition rawAttributes_MarshalBinary :: "RawFileAttributes \<Rightarrow> ('e uim_error, bytes) outcome" where
  "rawAttributes_MarshalBinary r =
     fail_if (length (ra_Raw r) > 0xFFFF) (ValueTooLong (length (ra_Raw r)))
      (Ret (put_le16 (ra_FileSize r) @ put_le16 (ra_FileID r) @ [ra_FileType r] @ put_le16 (ra_RecordSize r) @ put_le16 (ra_RecordCount r)
        @ concat (map security_MarshalBinary
            [ra_ReadSecurity r, ra_WriteSecurity r, ra_IncreaseSecurity r, ra_DeactivateSecurity r, ra_ActivateSecurity r])
        @ put_le16 (of_nat (length (ra_Raw r))) @ ra_Raw r))"

definition le16_at :: "bytes \<Rightarrow> nat \<Rightarrow> ('e uim_error, u16) outcome" where
  "le16_at data k = bind (subslice data k (k + 2)) le16"

definition security_at :: "bytes \<Rightarrow> nat \<Rightarrow> ('e uim_error, UIMFileSecurity) outcome" where
  "security_at data k = bind (subslice data k (k + 3)) security_UnmarshalBinary"

definition rawAttributes_UnmarshalBinary :: "bytes \<Rightarrow> ('e uim_error, RawFileAttributes) outcome" where
  "rawAttributes_UnmarshalBinary data =
     fail_if (length data < 26) AttributesTruncated
      (bind (le16_at data 0) (\<lambda>size'. bind (le16_at data 2) (\<lambda>fileID. bind (index data 4) (\<lambda>typ.
       bind (le16_at data 5) (\<lambda>rsize. bind (le16_at data 7) (\<lambda>rcount.
       bind (security_at data 9) (\<lambda>s1. bind (security_at data 12) (\<lambda>s2. bind (security_at data 15) (\<lambda>s3.
       bind (security_at data 18) (\<lambda>s4. bind (security_at data 21) (\<lambda>s5.
       bind (le16_at data 24) (\<lambda>rawLength.
         fail_if (length data \<noteq> 26 + unat rawLength) (AttributesLength (length data) (26 + unat rawLength))
          (bind (subslice data 26 (26 + unat rawLength)) (\<lambda>raw.
            Ret \<lparr>ra_FileSize = size', ra_FileID = fileID, ra_FileType = typ, ra_RecordSize = rsize, ra_RecordCount = rcount,
              ra_ReadSecurity = s1, ra_WriteSecurity = s2, ra_IncreaseSecurity = s3, ra_DeactivateSecurity = s4,
              ra_ActivateSecurity = s5, ra_Raw = raw\<rparr>))))))))))))))"

definition fileTypeToSIMFileStructure :: "byte \<Rightarrow> byte" where
  "fileTypeToSIMFileStructure t = (if t = 0 then 0x41 else if t = 2 then 0x42 else 0)"

definition fileTypeToSIMFileType :: "byte \<Rightarrow> byte" where
  "fileTypeToSIMFileType t = (if t \<in> {0, 1, 2} then 0x21 else if t \<in> {3, 4} then 0x38 else t)"

record QFileAttributes =
  qa_FileStructure :: byte
  qa_FileType :: byte
  qa_FileID :: u16
  qa_RecordSize :: u16
  qa_RecordCount :: u16
  qa_FileSize :: u16

text \<open>The access conditions and the raw control information are copied through and read by nothing else.\<close>

definition attributes_UnmarshalTLVs :: "TLVs \<Rightarrow> ('e uim_error, QFileAttributes) outcome" where
  "attributes_UnmarshalTLVs ts =
     (case tlv_Value_of ts 0x11 of
        None \<Rightarrow> Fail (TLVMissing 0x11)
      | Some val \<Rightarrow>
          bind (rawAttributes_UnmarshalBinary val) (\<lambda>a.
            Ret \<lparr>qa_FileStructure = fileTypeToSIMFileStructure (ra_FileType a), qa_FileType = fileTypeToSIMFileType (ra_FileType a),
              qa_FileID = ra_FileID a, qa_RecordSize = ra_RecordSize a, qa_RecordCount = ra_RecordCount a, qa_FileSize = ra_FileSize a\<rparr>))"

section \<open>Reading and writing\<close>

definition has_tlv :: "TLVs \<Rightarrow> byte \<Rightarrow> bool" where
  "has_tlv ts typ \<longleftrightarrow> tlv_Value_of ts typ \<noteq> None"

definition fileAttributesResponse :: "('r, 'e) requester \<Rightarrow> QFile \<Rightarrow> ('r, 'e, TLVs) uim_action" where
  "fileAttributesResponse req f =
     and_then (lifted id (file_tlvs f)) (\<lambda>ts.
     and_then (req 0x0024 ts) (\<lambda>resp.
     and_then (lifted id (cardResultOK resp)) (\<lambda>_.
       unless (has_tlv resp 0x12) IndicationUnsupported (done_with resp))))"

definition uim_FileAttributes :: "('r, 'e) requester \<Rightarrow> QFile \<Rightarrow> ('r, 'e, QFileAttributes) uim_action" where
  "uim_FileAttributes req f =
     and_then (fileAttributesResponse req f) (\<lambda>resp. lifted id (attributes_UnmarshalTLVs resp))"

definition transparentResponse :: "('r, 'e) requester \<Rightarrow> QFile \<Rightarrow> u16 \<Rightarrow> u16 \<Rightarrow> bool \<Rightarrow> ('r, 'e, TLVs) uim_action" where
  "transparentResponse req f ofs len encryptData =
     and_then (lifted id (file_tlvs f)) (\<lambda>ts.
     and_then (req 0x0020 (ts @ [tlv_Bytes 0x03 (put_le16 ofs @ put_le16 len)] @ (if encryptData then [tlv_Uint8 0x11 1] else []))) (\<lambda>resp.
     and_then (lifted id
        (case ResultError resp of
           Fail (QMIError code) \<Rightarrow>
             fail_if (code = QMIErrorInsufficientResources \<and> has_tlv resp 0x15) LongResponseUnsupported (Fail (QMIError code))
         | res \<Rightarrow> res)) (\<lambda>_.
       unless (has_tlv resp 0x12) IndicationUnsupported
        (and_then (lifted id (cardError resp)) (\<lambda>_. done_with resp)))))"

definition value_at :: "TLVs \<Rightarrow> byte \<Rightarrow> ('e uim_error, bytes) outcome" where
  "value_at ts typ = (case tlv_Value_of ts typ of None \<Rightarrow> Fail (TLVMissing typ) | Some v \<Rightarrow> Ret v)"

definition ReadTransparentResult ::
  "('r, 'e) requester \<Rightarrow> QFile \<Rightarrow> u16 \<Rightarrow> u16 \<Rightarrow> bool \<Rightarrow> ('r, 'e, bytes \<times> bool option) uim_action" where
  "ReadTransparentResult req f ofs len encryptData =
     and_then (if len = 0
               then and_then (uim_FileAttributes req f) (\<lambda>attrs.
                      unless (qa_FileStructure attrs \<noteq> 0x41) WrongStructure
                       (unless (ofs > qa_FileSize attrs) OffsetBeyondFile (done_with (qa_FileSize attrs - ofs))))
               else done_with len) (\<lambda>len.
     and_then (transparentResponse req f ofs len encryptData) (\<lambda>resp.
     and_then (lifted id (bind (value_at resp 0x11) length16_Unmarshal)) (\<lambda>data.
       case tlv_Value_of resp 0x13 of
         None \<Rightarrow> done_with (data, None)
       | Some v \<Rightarrow> unless (length v \<noteq> 1) (TLVLength (length v)) (lifted id (bind (index v 0) (\<lambda>b. Ret (data, Some (b \<noteq> 0))))))))"

definition uim_ReadTransparent :: "('r, 'e) requester \<Rightarrow> QFile \<Rightarrow> u16 \<Rightarrow> u16 \<Rightarrow> bool \<Rightarrow> ('r, 'e, bytes) uim_action" where
  "uim_ReadTransparent req f ofs len encryptData =
     and_then (ReadTransparentResult req f ofs len encryptData) (\<lambda>(data, _). done_with data)"

definition recordResponse :: "('r, 'e) requester \<Rightarrow> QFile \<Rightarrow> u16 \<Rightarrow> u16 \<Rightarrow> u16 \<Rightarrow> ('r, 'e, TLVs) uim_action" where
  "recordResponse req f recno len lastRecord =
     and_then (lifted id (file_tlvs f)) (\<lambda>ts.
     and_then (req 0x0021 (ts @ [tlv_Bytes 0x03 (put_le16 recno @ put_le16 len)] @ (if lastRecord \<noteq> 0 then [tlv_Uint16 0x10 lastRecord] else []))) (\<lambda>resp.
     and_then (lifted id (ResultError resp)) (\<lambda>_.
       unless (has_tlv resp 0x13) IndicationUnsupported
        (and_then (lifted id (cardError resp)) (\<lambda>_. done_with resp)))))"

function split_records :: "nat \<Rightarrow> bytes \<Rightarrow> bytes list" where
  "split_records n d = (if n = 0 \<or> d = [] then [] else take n d # split_records n (drop n d))"
  by pat_completeness auto
termination
  by (relation "measure (\<lambda>(n, d). length d)") auto

declare split_records.simps [simp del]

definition records_of :: "TLVs \<Rightarrow> u16 \<Rightarrow> u16 \<Rightarrow> ('e uim_error, bytes list) outcome" where
  "records_of resp recno lastRecord =
     bind (bind (value_at resp 0x11) length16_Unmarshal) (\<lambda>fst'.
       case tlv_Value_of resp 0x12 of
         None \<Rightarrow> fail_if (lastRecord \<noteq> 0 \<and> lastRecord \<noteq> recno) AdditionalMissing (Ret [fst'])
       | Some v \<Rightarrow>
           bind (length16_Unmarshal v) (\<lambda>additional.
             fail_if (length fst' = 0 \<or> length additional mod length fst' \<noteq> 0) NotWholeRecords
              (let records = fst' # split_records (length fst') additional in
               fail_if (lastRecord \<noteq> 0 \<and> length records \<noteq> unat (lastRecord - recno) + 1)
                 (RecordCount (length records) (unat (lastRecord - recno) + 1)) (Ret records))))"

definition ReadRecords :: "('r, 'e) requester \<Rightarrow> QFile \<Rightarrow> u16 \<Rightarrow> u16 \<Rightarrow> u16 \<Rightarrow> ('r, 'e, bytes list) uim_action" where
  "ReadRecords req f recno len lastRecord =
     unless (recno = 0) RecordNumberZero
      (unless (lastRecord \<noteq> 0 \<and> lastRecord < recno) LastBeforeFirst
        (and_then (if len = 0
                   then and_then (uim_FileAttributes req f) (\<lambda>attrs.
                          unless (qa_FileStructure attrs \<noteq> 0x42) WrongStructure (done_with (qa_RecordSize attrs)))
                   else done_with len) (\<lambda>len.
         and_then (recordResponse req f recno len lastRecord) (\<lambda>resp. lifted id (records_of resp recno lastRecord)))))"

definition uim_ReadRecord :: "('r, 'e) requester \<Rightarrow> QFile \<Rightarrow> u16 \<Rightarrow> u16 \<Rightarrow> ('r, 'e, bytes) uim_action" where
  "uim_ReadRecord req f recno len =
     and_then (ReadRecords req f recno len 0) (\<lambda>records. lifted id (index records 0))"

text \<open>The two writes differ in the message, the fixed part of the value and the bounds.\<close>

definition write_value :: "('r, 'e) requester \<Rightarrow> u16 \<Rightarrow> QFile \<Rightarrow> u16 \<Rightarrow> bytes \<Rightarrow> ('r, 'e, unit) uim_action" where
  "write_value req msg f pos data =
     and_then (lifted id (file_tlvs f)) (\<lambda>ts.
     and_then (req msg (ts @ [tlv_Bytes 0x03 (put_le16 pos @ put_le16 (of_nat (length data)) @ data)])) (\<lambda>resp.
     and_then (lifted id (resultOK resp)) (\<lambda>_.
       unless (has_tlv resp 0x11) IndicationUnsupported (lifted id (cardError resp)))))"

definition uim_WriteRecord :: "('r, 'e) requester \<Rightarrow> QFile \<Rightarrow> u16 \<Rightarrow> bytes \<Rightarrow> ('r, 'e, unit) uim_action" where
  "uim_WriteRecord req f recno data =
     unless (recno = 0) RecordNumberZero
      (unless (length data > 255) (ContentTooLong (length data)) (write_value req 0x0023 f recno data))"

definition uim_WriteTransparent :: "('r, 'e) requester \<Rightarrow> QFile \<Rightarrow> u16 \<Rightarrow> bytes \<Rightarrow> ('r, 'e, unit) uim_action" where
  "uim_WriteTransparent req f ofs data =
     unless (length data = 0) ContentEmpty
      (unless (length data > 4096) (ContentTooLong (length data)) (write_value req 0x0022 f ofs data))"

section \<open>Authentication\<close>

record AuthenticateRequest =
  ar_Session :: byte
  ar_AID :: bytes
  ar_Context :: byte
  ar_Rand :: bytes
  ar_AUTN :: bytes

definition auth_MarshalBinary :: "AuthenticateRequest \<Rightarrow> ('e uim_error, bytes) outcome" where
  "auth_MarshalBinary r =
     fail_if (length (ar_Rand r) > 255) (AuthFieldTooLong (length (ar_Rand r)))
      (fail_if (length (ar_AUTN r) > 255) (AuthFieldTooLong (length (ar_AUTN r)))
        (let body = [of_nat (length (ar_Rand r))] @ ar_Rand r @ [of_nat (length (ar_AUTN r))] @ ar_AUTN r in
         Ret ([ar_Context r] @ put_le16 (of_nat (length body)) @ body)))"

text \<open>Decoding sets context, challenge and token and leaves the session alone: the result is those three.\<close>

definition auth_UnmarshalBinary :: "bytes \<Rightarrow> ('e uim_error, byte \<times> bytes \<times> bytes) outcome" where
  "auth_UnmarshalBinary data =
     fail_if (length data < 3) (AuthTooShort (length data))
      (bind (index data 0) (\<lambda>ctx. bind (le16_at data 1) (\<lambda>bodyLen.
        fail_if (length data \<noteq> 3 + unat bodyLen) AuthLength
         (bind (subslice data 3 (length data)) (\<lambda>body.
           fail_if (length body < 1) AuthLength
            (bind (index body 0) (\<lambda>n. let randLen = unat n in
             bind (subslice body 1 (length body)) (\<lambda>body.
               fail_if (length body < randLen + 1) AuthLength
                (bind (subslice body 0 randLen) (\<lambda>rand. bind (subslice body randLen (length body)) (\<lambda>body.
                 bind (index body 0) (\<lambda>m. bind (subslice body 1 (length body)) (\<lambda>body.
                   fail_if (length body \<noteq> unat m) AuthLength (Ret (ctx, rand, body)))))))))))))))"

definition authenticateResponse :: "('r, 'e) requester \<Rightarrow> AuthenticateRequest \<Rightarrow> ('r, 'e, TLVs) uim_action" where
  "authenticateResponse req r =
     and_then (lifted id (auth_MarshalBinary r)) (\<lambda>val.
     and_then (lifted id (putSessionValue (ar_Session r) (ar_AID r))) (\<lambda>sessionValue.
     and_then (req 0x0034 [tlv_Bytes 0x01 sessionValue, tlv_Bytes 0x02 val]) (\<lambda>resp.
     and_then (lifted id (cardResultOK resp)) (\<lambda>_. done_with resp))))"

definition uim_Authenticate :: "('r, 'e) requester \<Rightarrow> AuthenticateRequest \<Rightarrow> ('r, 'e, bytes) uim_action" where
  "uim_Authenticate req r =
     and_then (authenticateResponse req r) (\<lambda>resp. lifted id (bind (value_at resp 0x11) length16_Unmarshal))"

section \<open>Logical channels\<close>

definition open_MarshalBinary :: "bytes \<Rightarrow> ('e uim_error, bytes) outcome" where
  "open_MarshalBinary aid = bind (validateUIMAIDLength aid) (\<lambda>_. length8_Marshal aid)"

definition open_UnmarshalBinary :: "bytes \<Rightarrow> ('e uim_error, bytes) outcome" where
  "open_UnmarshalBinary data = bind (length8_Unmarshal data) (\<lambda>aid. fail_if (length aid > 32) (AIDTooLong (length aid)) (Ret aid))"

definition channel_UnmarshalBinary :: "bytes \<Rightarrow> ('e uim_error, byte) outcome" where
  "channel_UnmarshalBinary data = fail_if (length data \<noteq> 1) (ValueLength (length data) 1) (index data 0)"

definition apdu_MarshalBinary :: "bytes \<Rightarrow> ('e uim_error, bytes) outcome" where
  "apdu_MarshalBinary c = fail_if (length c > 1024) (ValueTooLong (length c)) (length16_Marshal c)"

definition apdu_UnmarshalBinary :: "bytes \<Rightarrow> ('e uim_error, bytes) outcome" where
  "apdu_UnmarshalBinary data = bind (length16_Unmarshal data) (\<lambda>c. fail_if (length c > 1024) (ResponseTooLong (length c)) (Ret c))"

definition select_response :: "TLVs \<Rightarrow> ('e uim_error, bytes) outcome" where
  "select_response resp =
     (case tlv_Value_of resp 0x12 of
        Some v \<Rightarrow> length8_Unmarshal v
      | None \<Rightarrow>
          (case tlv_Value_of resp 0x13 of
             Some v \<Rightarrow> bind (length16_Unmarshal v) (\<lambda>s. fail_if (length s > 1024) (ResponseTooLong (length s)) (Ret s))
           | None \<Rightarrow> Ret []))"

definition OpenLogicalChannelWithConfig ::
  "('r, 'e) requester \<Rightarrow> byte \<Rightarrow> bytes \<Rightarrow> byte option \<Rightarrow> ('r, 'e, byte \<times> bytes) uim_action" where
  "OpenLogicalChannelWithConfig req slot aid info =
     and_then (if length aid > 0 then lifted id (bind (open_MarshalBinary aid) (\<lambda>v. Ret [tlv_Bytes 0x10 v])) else done_with []) (\<lambda>ts.
     and_then (case info of
                 None \<Rightarrow> done_with (ts @ [tlv_Uint8 0x01 slot])
               | Some i \<Rightarrow> unless (i > 4) (PolicyOutOfRange i) (done_with (ts @ [tlv_Uint8 0x01 slot, tlv_Uint8 0x11 i]))) (\<lambda>ts.
     and_then (req 0x0042 ts) (\<lambda>resp.
     and_then (lifted id (resultOK resp)) (\<lambda>_.
     and_then (lifted id (cardErrorAt resp 0x11)) (\<lambda>_.
     and_then (lifted id (bind (value_at resp 0x10) channel_UnmarshalBinary)) (\<lambda>channel.
     and_then (lifted id (select_response resp)) (\<lambda>s. done_with (channel, s))))))))"

definition OpenLogicalChannel :: "('r, 'e) requester \<Rightarrow> byte \<Rightarrow> bytes \<Rightarrow> ('r, 'e, byte) uim_action" where
  "OpenLogicalChannel req slot aid = and_then (OpenLogicalChannelWithConfig req slot aid None) (\<lambda>(channel, _). done_with channel)"

definition CloseLogicalChannel :: "('r, 'e) requester \<Rightarrow> byte \<Rightarrow> byte \<Rightarrow> ('r, 'e, unit) uim_action" where
  "CloseLogicalChannel req slot channel =
     and_then (req 0x003F [tlv_Uint8 0x01 slot, tlv_Bytes 0x11 [channel]]) (\<lambda>resp. lifted id (cardResultOK resp))"

definition SendAPDUWithOptions :: "('r, 'e) requester \<Rightarrow> byte \<Rightarrow> byte \<Rightarrow> bytes \<Rightarrow> byte option \<Rightarrow> ('r, 'e, bytes) uim_action" where
  "SendAPDUWithOptions req slot channel command policy =
     and_then (lifted id (apdu_MarshalBinary command)) (\<lambda>val.
     let ts = [tlv_Uint8 0x10 channel, tlv_Bytes 0x02 val, tlv_Uint8 0x01 slot] in
     and_then (case policy of
                 None \<Rightarrow> done_with ts
               | Some p \<Rightarrow> unless (p > 1) (PolicyOutOfRange p) (done_with (ts @ [tlv_Uint8 0x11 p]))) (\<lambda>ts.
     and_then (req 0x003B ts) (\<lambda>resp.
     and_then (lifted id
        (case resultOK resp of
           Fail (QMIError code) \<Rightarrow>
             fail_if (code = QMIErrorInsufficientResources \<and> has_tlv resp 0x11) LongResponseUnsupported (Fail (QMIError code))
         | res \<Rightarrow> res)) (\<lambda>_.
       case tlv_Value_of resp 0x10 of
         Some v \<Rightarrow> lifted id (apdu_UnmarshalBinary v)
       | None \<Rightarrow>
           unless (has_tlv resp 0x11) LongResponseUnsupported
            (and_then (lifted id (cardError resp)) (\<lambda>_. raise (TLVMissing 0x10)))))))"

definition SendAPDU :: "('r, 'e) requester \<Rightarrow> byte \<Rightarrow> byte \<Rightarrow> bytes \<Rightarrow> ('r, 'e, bytes) uim_action" where
  "SendAPDU req slot channel command = SendAPDUWithOptions req slot channel command None"

definition ATR :: "('r, 'e) requester \<Rightarrow> byte \<Rightarrow> ('r, 'e, bytes) uim_action" where
  "ATR req slot =
     and_then (req 0x0041 [tlv_Uint8 0x01 slot]) (\<lambda>resp.
     and_then (lifted id (resultOK resp)) (\<lambda>_. lifted id (bind (value_at resp 0x10) length8_Unmarshal)))"

section \<open>Codecs\<close>

lemma le16_two: "length xs = 2 \<Longrightarrow> le16 xs \<noteq> (Panic :: ('e, u16) outcome)"
  by (cases xs rule: le16.cases) auto

lemma le16_at_no_panic: "k + 2 \<le> length data \<Longrightarrow> le16_at data k \<noteq> Panic"
  by (auto simp: le16_at_def bind_eq_Panic_iff subslice_def le16_two)

lemma security_at_no_panic: "k + 3 \<le> length data \<Longrightarrow> security_at data k \<noteq> Panic"
  by (auto simp: security_at_def security_UnmarshalBinary_def bind_eq_Panic_iff subslice_def index_def le16_two)

lemma length_no_panic: "length8_Unmarshal data \<noteq> Panic" "length16_Unmarshal data \<noteq> Panic"
  by (auto simp: length8_Unmarshal_def length16_Unmarshal_def bind_eq_Panic_iff subslice_def index_def le16_two)

lemma rawAttributes_no_panic: "rawAttributes_UnmarshalBinary data \<noteq> Panic"
  by (auto simp: rawAttributes_UnmarshalBinary_def bind_eq_Panic_iff le16_at_no_panic security_at_no_panic index_def subslice_eq_Panic_iff)

lemma auth_no_panic: "auth_UnmarshalBinary data \<noteq> Panic"
  by (auto simp: auth_UnmarshalBinary_def bind_eq_Panic_iff le16_at_no_panic index_def subslice_eq_Panic_iff subslice_eq_Ret_iff Let_def
      split: if_splits)

lemma length8_roundtrip: "length v \<le> 255 \<Longrightarrow> length8_Unmarshal (of_nat (length v) # v) = Ret v"
proof -
  assume "length v \<le> 255"
  then have "unat (of_nat (length v) :: byte) = length v" by (intro unat_of_nat_byte) simp
  then show ?thesis by (simp add: length8_Unmarshal_def index_def subslice_def)
qed

lemma length16_roundtrip: "length v \<le> 65535 \<Longrightarrow> length16_Unmarshal (put_le16 (of_nat (length v)) @ v) = Ret v"
proof -
  assume "length v \<le> 65535"
  then have "unat (of_nat (length v) :: u16) = length v" by (intro unat_of_nat_u16) simp
  then show ?thesis by (simp add: length16_Unmarshal_def subslice_def le16_put [of _ "[]", simplified])
qed

lemma le16_at_put: "length xs = k \<Longrightarrow> le16_at (xs @ put_le16 w @ ys) k = Ret w"
  by (simp add: le16_at_def subslice_def le16_put [of _ "[]", simplified])

lemma security_at_put: "length xs = k \<Longrightarrow> security_at (xs @ security_MarshalBinary s @ ys) k = Ret s"
  by (simp add: security_at_def security_UnmarshalBinary_def security_MarshalBinary_def subslice_def index_def le16_put [of _ "[]", simplified])

lemma length_security [simp]: "length (security_MarshalBinary s) = 3"
  by (simp add: security_MarshalBinary_def)

lemma rawAttributes_roundtrip:
  assumes "length (ra_Raw r) \<le> 65535"
  shows "\<exists>bs. rawAttributes_MarshalBinary r = Ret bs \<and> rawAttributes_UnmarshalBinary bs = Ret r"
proof -
  have n: "unat (of_nat (length (ra_Raw r)) :: u16) = length (ra_Raw r)" using assms by (intro unat_of_nat_u16) simp
  let ?sec = "security_MarshalBinary"
  define h where "h = put_le16 (ra_FileSize r) @ put_le16 (ra_FileID r) @ [ra_FileType r]"
  define g where "g = h @ put_le16 (ra_RecordSize r) @ put_le16 (ra_RecordCount r)"
  define tl where "tl = put_le16 (of_nat (length (ra_Raw r))) @ ra_Raw r"
  define bs where "bs = g @ ?sec (ra_ReadSecurity r) @ ?sec (ra_WriteSecurity r) @ ?sec (ra_IncreaseSecurity r) @ ?sec (ra_DeactivateSecurity r)
    @ ?sec (ra_ActivateSecurity r) @ tl"
  have len: "length h = 5" "length g = 9" "length bs = 26 + length (ra_Raw r)" by (simp_all add: h_def g_def bs_def tl_def)
  have m: "rawAttributes_MarshalBinary r = Ret bs" using assms by (simp add: rawAttributes_MarshalBinary_def bs_def g_def h_def tl_def)
  have f1: "le16_at bs 0 = Ret (ra_FileSize r)" using le16_at_put [of "[]" 0] by (simp add: bs_def g_def h_def)
  have f2: "le16_at bs 2 = Ret (ra_FileID r)" using le16_at_put [of "put_le16 (ra_FileSize r)" 2] by (simp add: bs_def g_def h_def)
  have f3: "index bs 4 = Ret (ra_FileType r)" by (simp add: bs_def g_def h_def index_def nth_append)
  have f4: "le16_at bs 5 = Ret (ra_RecordSize r)" using le16_at_put [of h 5] len(1) by (simp add: bs_def g_def)
  have f5: "le16_at bs 7 = Ret (ra_RecordCount r)" using le16_at_put [of "h @ put_le16 (ra_RecordSize r)" 7] len(1) by (simp add: bs_def g_def)
  have f6: "security_at bs 9 = Ret (ra_ReadSecurity r)" using security_at_put [of g 9] len(2) by (simp add: bs_def)
  have f7: "security_at bs 12 = Ret (ra_WriteSecurity r)" using security_at_put [of "g @ ?sec (ra_ReadSecurity r)" 12] len(2) by (simp add: bs_def)
  have f8: "security_at bs 15 = Ret (ra_IncreaseSecurity r)"
    using security_at_put [of "g @ ?sec (ra_ReadSecurity r) @ ?sec (ra_WriteSecurity r)" 15] len(2) by (simp add: bs_def)
  have f9: "security_at bs 18 = Ret (ra_DeactivateSecurity r)"
    using security_at_put [of "g @ ?sec (ra_ReadSecurity r) @ ?sec (ra_WriteSecurity r) @ ?sec (ra_IncreaseSecurity r)" 18] len(2) by (simp add: bs_def)
  have f10: "security_at bs 21 = Ret (ra_ActivateSecurity r)"
    using security_at_put [of "g @ ?sec (ra_ReadSecurity r) @ ?sec (ra_WriteSecurity r) @ ?sec (ra_IncreaseSecurity r) @ ?sec (ra_DeactivateSecurity r)" 21] len(2)
    by (simp add: bs_def)
  have f11: "le16_at bs 24 = Ret (of_nat (length (ra_Raw r)))"
    using le16_at_put [of "g @ ?sec (ra_ReadSecurity r) @ ?sec (ra_WriteSecurity r) @ ?sec (ra_IncreaseSecurity r) @ ?sec (ra_DeactivateSecurity r)
      @ ?sec (ra_ActivateSecurity r)" 24] len(2) by (simp add: bs_def tl_def)
  have f12: "subslice bs 26 (26 + length (ra_Raw r)) = Ret (ra_Raw r)" using len by (simp add: subslice_def) (simp add: bs_def tl_def len)
  have "rawAttributes_UnmarshalBinary bs = Ret r"
    by (simp add: rawAttributes_UnmarshalBinary_def f1 f2 f3 f4 f5 f6 f7 f8 f9 f10 f11 f12 len(3) n del: bind_eq_Ret_iff)
  with m show ?thesis by blast
qed

lemma auth_body:
  assumes "unat n = length rand" "unat m = length autn" "length body < 65536" "body = [n] @ rand @ [m] @ autn"
  shows "auth_UnmarshalBinary ([ctx] @ put_le16 (of_nat (length body)) @ body) = Ret (ctx, rand, autn)"
proof -
  let ?bs = "[ctx] @ put_le16 (of_nat (length body)) @ body"
  have l: "unat (of_nat (length body) :: u16) = length body" using assms(3) by (intro unat_of_nat_u16) simp
  have f1: "le16_at ?bs 1 = Ret (of_nat (length body))" by (rule le16_at_put) simp
  have f2: "index ?bs 0 = Ret ctx" "subslice ?bs 3 (3 + length body) = Ret body" "length ?bs = 3 + length body"
    by (simp_all add: index_def subslice_def)
  have f3: "index body 0 = Ret n" "subslice body 1 (length body) = Ret (rand @ [m] @ autn)"
    "subslice (rand @ [m] @ autn) 0 (length rand) = Ret rand"
    "subslice (rand @ [m] @ autn) (length rand) (length (rand @ [m] @ autn)) = Ret ([m] @ autn)"
    "index ([m] @ autn) 0 = Ret m" "subslice ([m] @ autn) 1 (length ([m] @ autn)) = Ret autn"
    by (simp_all add: index_def subslice_def assms(4))
  have f4: "\<not> length body < 1" by (simp add: assms(4))
  show ?thesis
    unfolding auth_UnmarshalBinary_def Let_def by (simp only: f1 f2 bind.simps l fail_if_def f3 f4 assms(1,2)) simp
qed

lemma auth_roundtrip:
  assumes "length (ar_Rand r) \<le> 255" "length (ar_AUTN r) \<le> 255"
  shows "\<exists>bs. auth_MarshalBinary r = Ret bs \<and> auth_UnmarshalBinary bs = Ret (ar_Context r, ar_Rand r, ar_AUTN r)"
proof -
  let ?body = "[of_nat (length (ar_Rand r))] @ ar_Rand r @ [of_nat (length (ar_AUTN r))] @ ar_AUTN r"
  have "auth_UnmarshalBinary ([ar_Context r] @ put_le16 (of_nat (length ?body)) @ ?body) = Ret (ar_Context r, ar_Rand r, ar_AUTN r)"
    using assms by (intro auth_body) (auto simp: unat_of_nat_byte)
  moreover have "auth_MarshalBinary r = Ret ([ar_Context r] @ put_le16 (of_nat (length ?body)) @ ?body)"
    using assms by (simp add: auth_MarshalBinary_def Let_def)
  ultimately show ?thesis by blast
qed

text \<open>The values of UIM messages are lossless: file attributes with their access conditions and raw control
  information, authentication challenges, and byte strings with an 8-bit or 16-bit length in front
  decode to what was encoded; every decoder returns a value or an error on any bytes.\<close>

theorem uim_codecs_roundtrip:
  "(length (ra_Raw a) \<le> 65535 \<longrightarrow> (\<exists>bs. rawAttributes_MarshalBinary a = Ret bs \<and> rawAttributes_UnmarshalBinary bs = Ret a))
   \<and> (length (ar_Rand r) \<le> 255 \<and> length (ar_AUTN r) \<le> 255 \<longrightarrow>
        (\<exists>bs. auth_MarshalBinary r = Ret bs \<and> auth_UnmarshalBinary bs = Ret (ar_Context r, ar_Rand r, ar_AUTN r)))
   \<and> (length v \<le> 255 \<longrightarrow> (\<exists>bs. length8_Marshal v = Ret bs \<and> length8_Unmarshal bs = Ret v))
   \<and> (length v \<le> 65535 \<longrightarrow> (\<exists>bs. length16_Marshal v = Ret bs \<and> length16_Unmarshal bs = Ret v))
   \<and> rawAttributes_UnmarshalBinary d \<noteq> Panic \<and> auth_UnmarshalBinary d \<noteq> Panic \<and> length8_Unmarshal d \<noteq> Panic \<and> length16_Unmarshal d \<noteq> Panic"
proof (intro conjI impI)
  show "length v \<le> 255 \<Longrightarrow> \<exists>bs. length8_Marshal v = Ret bs \<and> length8_Unmarshal bs = Ret v"
    by (simp add: length8_Marshal_def length8_roundtrip)
  show "length v \<le> 65535 \<Longrightarrow> \<exists>bs. length16_Marshal v = Ret bs \<and> length16_Unmarshal bs = Ret v"
    by (simp add: length16_Marshal_def length16_roundtrip)
qed (auto intro: rawAttributes_roundtrip auth_roundtrip simp: rawAttributes_no_panic auth_no_panic length_no_panic)

theorem uim_codecs_roundtrip_witness:
  "(\<exists>bs. rawAttributes_MarshalBinary \<lparr>ra_FileSize = 0x12, ra_FileID = 0x6F07, ra_FileType = 0, ra_RecordSize = 0, ra_RecordCount = 0,
        ra_ReadSecurity = \<lparr>us_Logic = 1, us_Attributes = 2\<rparr>, ra_WriteSecurity = \<lparr>us_Logic = 0, us_Attributes = 0\<rparr>,
        ra_IncreaseSecurity = \<lparr>us_Logic = 0, us_Attributes = 0\<rparr>, ra_DeactivateSecurity = \<lparr>us_Logic = 0, us_Attributes = 0\<rparr>,
        ra_ActivateSecurity = \<lparr>us_Logic = 0, us_Attributes = 0\<rparr>, ra_Raw = [0x62, 0x00]\<rparr> = Ret bs \<and> length bs = 28)
   \<and> (\<exists>bs. auth_MarshalBinary \<lparr>ar_Session = 0, ar_AID = [], ar_Context = 3, ar_Rand = [1, 2], ar_AUTN = [3]\<rparr> = Ret bs
        \<and> auth_UnmarshalBinary bs = Ret (3, [1, 2], [3]))
   \<and> (\<exists>bs. length8_Marshal [7, 8] = Ret bs \<and> length8_Unmarshal bs = Ret [7, 8])
   \<and> (\<exists>bs. length16_Marshal [7, 8] = Ret bs \<and> length16_Unmarshal bs = Ret [7, 8])"
  using uim_codecs_roundtrip
    [of "\<lparr>ra_FileSize = 0x12, ra_FileID = 0x6F07, ra_FileType = 0, ra_RecordSize = 0, ra_RecordCount = 0,
        ra_ReadSecurity = \<lparr>us_Logic = 1, us_Attributes = 2\<rparr>, ra_WriteSecurity = \<lparr>us_Logic = 0, us_Attributes = 0\<rparr>,
        ra_IncreaseSecurity = \<lparr>us_Logic = 0, us_Attributes = 0\<rparr>, ra_DeactivateSecurity = \<lparr>us_Logic = 0, us_Attributes = 0\<rparr>,
        ra_ActivateSecurity = \<lparr>us_Logic = 0, us_Attributes = 0\<rparr>, ra_Raw = [0x62, 0x00]\<rparr>"
      "\<lparr>ar_Session = 0, ar_AID = [], ar_Context = 3, ar_Rand = [1, 2], ar_AUTN = [3]\<rparr>" "[7, 8]"]
  by (auto simp: rawAttributes_MarshalBinary_def)

section \<open>Which file a request addresses\<close>

lemma swap_pairs_inj: "even (length xs) \<Longrightarrow> even (length ys) \<Longrightarrow> swap_pairs xs = swap_pairs ys \<Longrightarrow> xs = ys"
proof (induction xs arbitrary: ys rule: swap_pairs.induct)
  case (1 a b rest)
  then show ?case by (cases ys rule: swap_pairs.cases) auto
next
  case "2_1"
  then show ?case by (cases ys rule: swap_pairs.cases) auto
qed auto

lemma length_swap_pairs: "even (length xs) \<Longrightarrow> length (swap_pairs xs) = length xs"
  by (induction xs rule: swap_pairs.induct) auto

lemma join_le16_eq_iff: "join_le16 a b = join_le16 c d \<longleftrightarrow> a = c \<and> b = d"
  by (metis split_join_le16 list.inject)

lemma split_last_two: "2 \<le> length xs \<Longrightarrow> \<exists>ini a b. xs = ini @ [a, b]"
proof -
  assume l: "2 \<le> length xs"
  then obtain ys b where "xs = ys @ [b]" by (cases xs rule: rev_cases) auto
  moreover with l obtain ini a where "ys = ini @ [a]" by (cases ys rule: rev_cases) auto
  ultimately show ?thesis by simp
qed

lemma put_le16_eq_iff: "put_le16 a = put_le16 b \<longleftrightarrow> a = b"
  by (metis join_le16_split list.inject put_le16_def)

lemma splitFilePath_inj: "splitFilePath p = Ret r \<Longrightarrow> splitFilePath q = Ret r \<Longrightarrow> p = q"
proof -
  assume p: "splitFilePath p = Ret r" and q: "splitFilePath q = Ret r"
  have parts: "\<exists>ini a b. path = ini @ [a, b] \<and> even (length ini) \<and> r = (join_le16 b a, swap_pairs ini)"
    if "splitFilePath path = Ret r" for path
  proof -
    from that have l: "2 \<le> length path" "even (length path)" by (auto simp: splitFilePath_def)
    then obtain ini a b where "path = ini @ [a, b]" using split_last_two by blast
    with that l(2) show ?thesis by (auto simp: splitFilePath_def subslice_def)
  qed
  from parts [OF p] parts [OF q] show ?thesis by (auto simp: join_le16_eq_iff dest: swap_pairs_inj)
qed

lemma putFileValue_Ret:
  assumes "putFileValue p = (Ret v :: ('e uim_error, bytes) outcome)"
  shows "\<exists>i d. splitFilePath p = (Ret (i, d) :: ('e uim_error, u16 \<times> bytes) outcome) \<and> v = put_le16 i @ [of_nat (length d)] @ d"
  using assms by (auto simp: putFileValue_def)

lemma put_le16_append_iff: "put_le16 i @ xs = put_le16 j @ ys \<longleftrightarrow> i = j \<and> xs = ys"
  by (simp add: put_le16_eq_iff)

lemma putFileValue_inj: "putFileValue p = Ret v \<Longrightarrow> putFileValue q = Ret v \<Longrightarrow> p = q"
  by (drule putFileValue_Ret, drule putFileValue_Ret) (auto simp: put_le16_append_iff intro: splitFilePath_inj)

lemma putSessionValue_inj: "putSessionValue s a = Ret v \<Longrightarrow> putSessionValue t b = Ret v \<Longrightarrow> s = t \<and> a = b"
  by (auto simp: putSessionValue_def)

lemma file_tlvs_Ret:
  assumes "file_tlvs f = (Ret ts :: ('e uim_error, TLVs) outcome)"
  shows "\<exists>a b. (putFileValue (q_Path f) :: ('e uim_error, bytes) outcome) = Ret a
    \<and> (putSessionValue (q_Session f) (q_AID f) :: ('e uim_error, bytes) outcome) = Ret b \<and> ts = [tlv_Bytes 0x01 b, tlv_Bytes 0x02 a]"
  using assms by (auto simp: file_tlvs_def)

text \<open>C33: a request names exactly one file: two file references that are both accepted and differ in
  session, application or path are sent with different TLVs. (The path travels as a file identifier
  and a byte-swapped list of parents, the application identifier with a one-byte length.)\<close>

theorem file_tlvs_injective:
  assumes "file_tlvs f = Ret ts" "file_tlvs g = Ret ts"
  shows "f = g"
  using file_tlvs_Ret [OF assms(1)] file_tlvs_Ret [OF assms(2)]
  by (cases f; cases g) (auto simp: tlv_Bytes_def dest: putFileValue_inj putSessionValue_inj)

theorem file_tlvs_injective_witness:
  "file_tlvs \<lparr>q_Session = 0, q_AID = [0xA0, 0], q_Path = [0x3F, 0, 0x6F, 7]\<rparr>
     = (Ret [tlv_Bytes 1 [0, 2, 0xA0, 0], tlv_Bytes 2 [7, 0x6F, 2, 0, 0x3F]] :: (unit uim_error, TLVs) outcome)
   \<and> \<lparr>q_Session = 0, q_AID = [0xA0, 0], q_Path = [0x3F, 0, 0x6F, 7]\<rparr> = \<lparr>q_Session = 0, q_AID = [0xA0, 0], q_Path = [0x3F, 0, 0x6F, 7]\<rparr>"
proof -
  have *: "file_tlvs \<lparr>q_Session = 0, q_AID = [0xA0, 0], q_Path = [0x3F, 0, 0x6F, 7]\<rparr>
     = (Ret [tlv_Bytes 1 [0, 2, 0xA0, 0], tlv_Bytes 2 [7, 0x6F, 2, 0, 0x3F]] :: (unit uim_error, TLVs) outcome)" by code_simp
  from this file_tlvs_injective [OF * *] show ?thesis by blast
qed

section \<open>Records\<close>

lemma split_records_shape:
  "0 < n \<Longrightarrow> n dvd length d \<Longrightarrow> concat (split_records n d) = d \<and> (\<forall>r \<in> set (split_records n d). length r = n)"
proof (induction n d rule: split_records.induct)
  case (1 n d)
  show ?case
  proof (cases "d = []")
    case False
    then have l: "n \<le> length d" using "1.prems" by (simp add: dvd_imp_le)
    have "n dvd length (drop n d)" using "1.prems" l by (simp add: dvd_diff_nat)
    moreover have "\<not> (n = 0 \<or> d = [])" using "1.prems"(1) False by simp
    ultimately have rest: "concat (split_records n (drop n d)) = drop n d \<and> (\<forall>r \<in> set (split_records n (drop n d)). length r = n)"
      using "1.IH" "1.prems"(1) by blast
    have now: "split_records n d = take n d # split_records n (drop n d)"
      using "1.prems"(1) False by (subst split_records.simps) simp
    have len: "length (take n d) = n" using l by simp
    show ?thesis unfolding now using rest len by auto
  qed (subst (1 2) split_records.simps, simp)
qed

lemma records_of_shape:
  assumes "records_of resp recno lastRecord = Ret rs"
  shows "rs \<noteq> []" "\<forall>r \<in> set rs. length r = length (hd rs)" "lastRecord \<noteq> 0 \<longrightarrow> length rs = unat (lastRecord - recno) + 1"
  using assms by (auto simp: records_of_def Let_def split_records_shape split: option.splits)

lemma yields_records:
  "yields (ReadRecords req f recno len lastRecord) (\<lambda>rs.
     rs \<noteq> [] \<and> (\<forall>r \<in> set rs. length r = length (hd rs)) \<and> recno \<noteq> 0
     \<and> (lastRecord \<noteq> 0 \<longrightarrow> length rs = unat lastRecord - unat recno + 1))"
proof -
  have "unat (lastRecord - recno) = unat lastRecord - unat recno" if "\<not> lastRecord < recno"
    using that by (simp add: unat_sub not_less)
  then show ?thesis
    unfolding ReadRecords_def
    by (intro yields_unless yields_and_then [OF yields_True] yields_lifted conjI impI) (auto dest: records_of_shape)
qed

text \<open>Reading records \<^verbatim>\<open>recno\<close> to \<^verbatim>\<open>lastRecord\<close> never returns a short list: a successful read gives at least one
  record, all of the same length, exactly \<^verbatim>\<open>lastRecord - recno + 1\<close> of them when a range was asked for, and
  a range that ends before it starts or starts at zero is refused. Whatever the modem answers.\<close>

theorem ReadRecords_complete:
  "yields (ReadRecords req f recno len lastRecord) (\<lambda>rs.
     rs \<noteq> [] \<and> (\<forall>r \<in> set rs. length r = length (hd rs)) \<and> recno \<noteq> 0
     \<and> (lastRecord \<noteq> 0 \<longrightarrow> length rs = unat lastRecord - unat recno + 1))"
  by (rule yields_records)

text \<open>A modem that answers every request with two records of two bytes, for the examples.\<close>

definition two_records :: "(unit, unit) requester" where
  "two_records msg ts =
     done_with [tlv_Bytes 0x02 [0, 0, 0, 0], tlv_Bytes 0x10 [0x90, 0], tlv_Bytes 0x11 [2, 0, 1, 2], tlv_Bytes 0x12 [2, 0, 3, 4]]"

theorem ReadRecords_complete_witness:
  "ReadRecords two_records \<lparr>q_Session = 0, q_AID = [], q_Path = [0x3F, 0, 0x2F, 0]\<rparr> 1 2 2 () = Some (Ret [[1, 2], [3, 4]], ())
   \<and> length [[1, 2], [3, 4 :: byte]] = unat (2 :: u16) - unat (1 :: u16) + 1"
proof -
  have *: "ReadRecords two_records \<lparr>q_Session = 0, q_AID = [], q_Path = [0x3F, 0, 0x2F, 0]\<rparr> 1 2 2 () = Some (Ret [[1, 2], [3, 4]], ())"
    by code_simp
  with ReadRecords_complete [of two_records "\<lparr>q_Session = 0, q_AID = [], q_Path = [0x3F, 0, 0x2F, 0]\<rparr>" 1 2 2]
  show ?thesis by (auto simp: yields_def)
qed

section \<open>No panics\<close>

lemma uim_outcomes_no_panic [simp]:
  "ResultError ts \<noteq> Panic" "resultOK ts \<noteq> Panic" "cardErrorAt ts typ \<noteq> Panic" "cardError ts \<noteq> Panic" "cardResultOK ts \<noteq> Panic"
  "length8_Unmarshal data \<noteq> Panic" "length16_Unmarshal data \<noteq> Panic"
  "value_at ts typ \<noteq> Panic"
proof -
  have r: "ResultError ts \<noteq> Panic"
    by (auto simp: ResultError_def ResultTLVError_def bind_eq_Panic_iff subslice_def le16_two split: option.splits if_splits)
  have c: "cardErrorAt ts t \<noteq> Panic" for t
    by (auto simp: cardErrorAt_def bind_eq_Panic_iff index_def Let_def split: option.splits if_splits)
  show "ResultError ts \<noteq> Panic" "resultOK ts \<noteq> Panic" "cardErrorAt ts typ \<noteq> Panic" "cardError ts \<noteq> Panic" "cardResultOK ts \<noteq> Panic"
    "length8_Unmarshal data \<noteq> Panic" "length16_Unmarshal data \<noteq> Panic" "value_at ts typ \<noteq> Panic"
    using r c length_no_panic by (auto simp: resultOK_def cardError_def cardResultOK_def value_at_def bind_eq_Panic_iff split: option.splits)
qed

lemma file_tlvs_no_panic [simp]: "file_tlvs f \<noteq> Panic" "putSessionValue s a \<noteq> Panic"
proof -
  have s: "putSessionValue s a \<noteq> Panic" for s a
    by (auto simp: putSessionValue_def validateUIMAIDLength_def bind_eq_Panic_iff)
  have b: "length xs = 2 \<Longrightarrow> be16 xs \<noteq> Panic" for xs
    by (cases xs rule: be16.cases) auto
  have "splitFilePath p \<noteq> Panic" for p
    by (auto simp: splitFilePath_def bind_eq_Panic_iff subslice_def b)
  with s show "file_tlvs f \<noteq> Panic" "putSessionValue s a \<noteq> Panic"
    by (auto simp: file_tlvs_def putFileValue_def bind_eq_Panic_iff)
qed

lemma uim_values_no_panic [simp]:
  "attributes_UnmarshalTLVs ts \<noteq> Panic" "records_of ts recno lastRecord \<noteq> Panic" "auth_MarshalBinary r \<noteq> Panic"
  "channel_UnmarshalBinary data \<noteq> Panic" "apdu_MarshalBinary data \<noteq> Panic" "apdu_UnmarshalBinary data \<noteq> Panic"
  "select_response ts \<noteq> Panic" "open_MarshalBinary data \<noteq> Panic"
  by (auto simp: attributes_UnmarshalTLVs_def records_of_def auth_MarshalBinary_def channel_UnmarshalBinary_def apdu_MarshalBinary_def
      apdu_UnmarshalBinary_def select_response_def open_MarshalBinary_def validateUIMAIDLength_def length8_Marshal_def length16_Marshal_def
      bind_eq_Panic_iff rawAttributes_no_panic index_def Let_def split: option.splits)

text \<open>What the operations need of the client's request method: it answers or fails. \<open>quiet\<close> is the law, the
  operations are its clients.\<close>

locale quiet_requester =
  fixes req :: "('r, 'e) requester"
  assumes quiet: "calm (req msg ts)"
begin

lemma calm_lifted_bind: "m \<noteq> Panic \<Longrightarrow> (\<And>x. m = Ret x \<Longrightarrow> f x \<noteq> Panic) \<Longrightarrow> calm (lifted h (bind m f))"
  by (intro calm_lifted bind_no_panic)

lemmas op_intros = calm_and_then quiet calm_unless calm_lifted_bind calm_lifted calm_done calm_raise

lemma calm_attributes: "calm (uim_FileAttributes req f)"
  unfolding uim_FileAttributes_def fileAttributesResponse_def by (intro op_intros) auto

lemma calm_transparent_response: "calm (transparentResponse req f ofs len enc)"
  unfolding transparentResponse_def by (intro op_intros) (auto split: outcome.splits uim_error.splits)

lemma calm_read_transparent_result: "calm (ReadTransparentResult req f ofs len enc)"
  unfolding ReadTransparentResult_def
  by (intro op_intros calm_transparent_response) (auto intro!: op_intros calm_attributes simp: index_def bind_eq_Panic_iff split: option.splits)

lemma calm_read_transparent: "calm (uim_ReadTransparent req f ofs len enc)"
  unfolding uim_ReadTransparent_def by (intro op_intros calm_read_transparent_result) (auto split: prod.splits)

lemma calm_read_records: "calm (ReadRecords req f recno len lastRecord)"
  unfolding ReadRecords_def recordResponse_def by (intro op_intros) (auto intro!: op_intros calm_attributes)

text \<open>Taking the first record is safe because a successful read has one.\<close>

lemma calm_read_record: "calm (uim_ReadRecord req f recno len)"
proof -
  have "rs \<noteq> []" if "ReadRecords req f recno len 0 r = Some (Ret rs, r')" for r r' rs
    using yields_records [of req f recno len 0, unfolded yields_def] that by blast
  then show ?thesis
    using calm_read_records
    by (auto simp: uim_ReadRecord_def calm_def and_then_def lifted_def index_def split: option.splits outcome.splits)
qed

lemma calm_write: "calm (uim_WriteRecord req f recno data)" "calm (uim_WriteTransparent req f ofs data)"
  unfolding uim_WriteRecord_def uim_WriteTransparent_def write_value_def by (intro op_intros; simp)+

lemma calm_authenticate: "calm (uim_Authenticate req a)"
  unfolding uim_Authenticate_def authenticateResponse_def by (intro op_intros) auto

lemma calm_open_channel: "calm (OpenLogicalChannel req slot aid)"
  unfolding OpenLogicalChannel_def OpenLogicalChannelWithConfig_def
  by (intro op_intros) (auto intro!: op_intros simp: bind_eq_Panic_iff split: option.splits prod.splits)

lemma calm_close_channel: "calm (CloseLogicalChannel req slot channel)"
  unfolding CloseLogicalChannel_def by (intro op_intros) auto

lemma calm_send_apdu: "calm (SendAPDU req slot channel cmd)"
  unfolding SendAPDU_def SendAPDUWithOptions_def Let_def
  by (intro op_intros) (auto intro!: op_intros split: option.splits outcome.splits uim_error.splits)

lemma calm_ATR: "calm (ATR req slot)"
  unfolding ATR_def by (intro op_intros) auto

end

end
