(* ===== verification/Qcom_Client.thy ===== *)
theory Qcom_Client
  imports Qmi_Wire Qcom_Uim "HOL-Library.Product_Lexorder" "HOL-Library.AList"
begin

text \<open>
  The QMI client (\<^verbatim>\<open>qcom/client.go\<close>, \<^verbatim>\<open>qcom/transport.go\<close>, the requests of \<^verbatim>\<open>qcom/control.go\<close>): transaction
  numbers, the client IDs it allocates from the modem, remembers and releases, and \<^verbatim>\<open>Close\<close>.

  Every operation runs under \<^verbatim>\<open>Client.mu\<close>, so it is one action on the client. What other goroutines do
  meanwhile reaches it only through \<^verbatim>\<open>closing\<close>, which \<^verbatim>\<open>Close\<close> sets under a lock of its own, and through the
  caller's context: both are read from schedules in the state, one entry per read. The transport is a
  parameter: a record of its methods, with the optional interfaces as options.
\<close>

section \<open>State\<close>

definition ServiceUIM :: ServiceType where "ServiceUIM = 0x0B"
definition msgAllocateClientID :: MessageID where "msgAllocateClientID = 0x0022"
definition MessageReleaseClientID :: MessageID where "MessageReleaseClientID = 0x0023"
definition MessageCTLSetInstanceID :: MessageID where "MessageCTLSetInstanceID = 0x0020"
definition MessageCTLSetDataFormat :: MessageID where "MessageCTLSetDataFormat = 0x0026"
definition MessageCTLSync :: MessageID where "MessageCTLSync = 0x0027"
definition QMIErrorInvalidClientID :: u16 where "QMIErrorInvalidClientID = 7"

text \<open>Durations are nanoseconds.\<close>

definition DefaultRequestTimeout :: int where "DefaultRequestTimeout = 30000000000"
definition clientIDRequestTimeout :: int where "clientIDRequestTimeout = 10000000000"

datatype 'e client_error =
    ClientClosed
  | ContextDone
  | TransportFailed 'e
  | TransportNil
  | SlotOutOfRange byte
  | BoundToOther ServiceType
  | ServiceTooLarge ServiceType
  | ResultFailed "unit uim_error"
  | AllocatedMissing
  | AllocatedLength nat
  | ReservedClientID
  | Mismatch ServiceType "'e client_error option"
  | Joined "'e client_error" "'e client_error"
  | ReleaseFailed ServiceType byte "'e client_error"
  | RemainingUnreleased
  | CloseFailed 'e
  | DispatchUnsupported
  | DispatchFailed nat 'e
  | QoSHeaderRange byte
  | UnsupportedProtocols u16
  | ControlMissing
  | ControlLength nat

record ('t, 'e, 'w) Transport =
  t_Do :: "Request \<Rightarrow> 't \<Rightarrow> ('e, Message) outcome \<times> 't"
  t_Close :: "'t \<Rightarrow> 'e option \<times> 't"
  t_ClientID :: "(ServiceType \<Rightarrow> 't \<Rightarrow> ('e, byte) outcome \<times> 't) option"
  t_QMIService :: "ServiceType option"
  t_TerminalError :: "'t \<Rightarrow> bool"
  t_Dispatch :: "(Request \<Rightarrow> 't \<Rightarrow> ('e, 'w) outcome \<times> 't) option"
  t_Wait :: "'w \<Rightarrow> 't \<Rightarrow> ('e, Message) outcome \<times> 't"

record ('t, 'e) QClient =
  c_transport :: "'t option"
  c_slot :: byte
  c_catService :: ServiceType
  c_clientIDs :: "(ServiceType \<times> byte) list"
  c_allocated :: "(ServiceType \<times> byte) set"
  c_txn :: u16
  c_ctlTxn :: byte
  c_closing :: bool
  c_closed :: bool
  c_closeOnce :: bool
  c_closeErr :: "'e client_error list"
  c_requestStop :: bool
  c_closeReads :: "bool list"
  c_ctxReads :: "bool list"

type_synonym ('t, 'e, 'a) client_action = "(('t, 'e) QClient, 'e client_error, 'a) action"

text \<open>A transport that assigns no client IDs itself, is bound to no service, or does either.\<close>

definition transportManagesClientIDs :: "('t, 'e, 'w) Transport \<Rightarrow> bool" where
  "transportManagesClientIDs T \<longleftrightarrow> t_ClientID T \<noteq> None \<or> t_QMIService T \<noteq> None"

definition NewClient :: "'t option \<Rightarrow> byte option \<Rightarrow> bool list \<Rightarrow> bool list \<Rightarrow> ('e client_error, ('t, 'e) QClient) outcome" where
  "NewClient tr slotOption closes cancels =
     fail_if (tr = None) TransportNil
      (let slot = (case slotOption of None \<Rightarrow> 1 | Some s \<Rightarrow> s) in
       fail_if (slot < 1 \<or> slot > 5) (SlotOutOfRange slot)
        (Ret \<lparr>c_transport = tr, c_slot = slot, c_catService = 0, c_clientIDs = [], c_allocated = {}, c_txn = 0, c_ctlTxn = 0, c_closing = False,
           c_closed = False, c_closeOnce = False, c_closeErr = [], c_requestStop = False, c_closeReads = closes, c_ctxReads = cancels\<rparr>))"

section \<open>Reads of what others write\<close>

definition startClose :: "('t, 'e) QClient \<Rightarrow> ('t, 'e) QClient" where
  "startClose c = c\<lparr>c_closing := True\<rparr>"

definition read_closing :: "('t, 'e, bool) client_action" where
  "read_closing c =
     (case c_closeReads c of
        [] \<Rightarrow> Some (Ret (c_closing c), c)
      | b # bs \<Rightarrow>
          let c' = (if b then startClose c else c)\<lparr>c_closeReads := bs\<rparr>
          in Some (Ret (c_closing c'), c'))"

definition ctx_Err :: "('t, 'e, bool) client_action" where
  "ctx_Err c = (case c_ctxReads c of [] \<Rightarrow> Some (Ret False, c) | b # bs \<Rightarrow> Some (Ret b, c\<lparr>c_ctxReads := bs\<rparr>))"

definition isOpenLocked :: "('t, 'e, bool) client_action" where
  "isOpenLocked =
     and_then get (\<lambda>c.
       if c_closed c \<or> c_transport c = None then done_with False
       else and_then read_closing (\<lambda>closing. done_with (\<not> closing)))"

text \<open>\<^verbatim>\<open>LockContext\<close> gives up when the context is done; what holds the lock is the action itself.\<close>

definition locked :: "('t, 'e, 'a) client_action \<Rightarrow> ('t, 'e, 'a) client_action" where
  "locked m = and_then ctx_Err (\<lambda>expired. unless expired ContextDone m)"

definition when_open :: "('t, 'e, 'a) client_action \<Rightarrow> ('t, 'e, 'a) client_action" where
  "when_open m = and_then isOpenLocked (\<lambda>ok. unless (\<not> ok) ClientClosed m)"

section \<open>Requests\<close>

definition client_nextTransactionID :: "ServiceType \<Rightarrow> ('t, 'e, u16) client_action" where
  "client_nextTransactionID service c =
     (if service = ServiceControl
      then (let n = c_ctlTxn c + 1; n' = (if n = 0 then n + 1 else n) in Some (Ret (ucast n'), c\<lparr>c_ctlTxn := n'\<rparr>))
      else (let n = c_txn c + 1; n' = (if n = 0 then n + 1 else n) in Some (Ret n', c\<lparr>c_txn := n'\<rparr>)))"

definition beginRequest :: "bool \<Rightarrow> ('t, 'e, unit) client_action" where
  "beginRequest cancelOnClose =
     and_then read_closing (\<lambda>closing.
       unless closing ClientClosed (modify (\<lambda>c. c\<lparr>c_requestStop := cancelOnClose\<rparr>)))"

definition finishRequest :: "('t, 'e) QClient \<Rightarrow> ('t, 'e) QClient" where
  "finishRequest c = c\<lparr>c_requestStop := False\<rparr>"

text \<open>A method call on the transport; on a nil transport it is a nil dereference.\<close>

definition on_transport :: "('e \<Rightarrow> 'e client_error) \<Rightarrow> ('t \<Rightarrow> ('e, 'a) outcome \<times> 't) \<Rightarrow> ('t, 'e, 'a) client_action" where
  "on_transport h f c =
     (case c_transport c of
        None \<Rightarrow> Some (Panic, c)
      | Some t \<Rightarrow> (case f t of (res, t') \<Rightarrow> Some (map_err h res, c\<lparr>c_transport := Some t'\<rparr>)))"

definition doRequest :: "('t, 'e, 'w) Transport \<Rightarrow> Request \<Rightarrow> ('t, 'e, Message) client_action" where
  "doRequest T req =
     (let cancelOnClose = (rq_Service req \<noteq> ServiceControl \<or> rq_MessageID req \<noteq> msgAllocateClientID) in
      and_then (beginRequest cancelOnClose) (\<lambda>_. deferring finishRequest (on_transport TransportFailed (t_Do T req))))"

definition sendRequest ::
  "('t, 'e, 'w) Transport \<Rightarrow> ServiceType \<Rightarrow> byte \<Rightarrow> MessageID \<Rightarrow> TLVs \<Rightarrow> int \<Rightarrow> ('t, 'e, Message) client_action" where
  "sendRequest T service clientID msg tlvs timeout =
     and_then (client_nextTransactionID service) (\<lambda>txn.
       doRequest T \<lparr>rq_Service = service, rq_ClientID = clientID, rq_TransactionID = txn, rq_MessageID = msg,
         rq_Timeout = timeout, rq_TLVs = tlvs\<rparr>)"

definition sendCloseRequest ::
  "('t, 'e, 'w) Transport \<Rightarrow> ServiceType \<Rightarrow> byte \<Rightarrow> MessageID \<Rightarrow> TLVs \<Rightarrow> int \<Rightarrow> ('t, 'e, Message) client_action" where
  "sendCloseRequest T service clientID msg tlvs timeout =
     and_then (client_nextTransactionID service) (\<lambda>txn.
       on_transport TransportFailed (t_Do T \<lparr>rq_Service = service, rq_ClientID = clientID, rq_TransactionID = txn,
         rq_MessageID = msg, rq_Timeout = timeout, rq_TLVs = tlvs\<rparr>))"

section \<open>Client IDs\<close>

definition rememberAllocatedClientIDLocked :: "ServiceType \<Rightarrow> byte \<Rightarrow> ('t, 'e) QClient \<Rightarrow> ('t, 'e) QClient" where
  "rememberAllocatedClientIDLocked service clientID c = c\<lparr>c_allocated := insert (service, clientID) (c_allocated c)\<rparr>"

definition forgetAllocatedClientIDLocked :: "ServiceType \<Rightarrow> byte \<Rightarrow> ('t, 'e) QClient \<Rightarrow> ('t, 'e) QClient" where
  "forgetAllocatedClientIDLocked service clientID c = c\<lparr>c_allocated := c_allocated c - {(service, clientID)}\<rparr>"

definition releaseServiceClientIDLocked :: "('t, 'e, 'w) Transport \<Rightarrow> ServiceType \<Rightarrow> byte \<Rightarrow> ('t, 'e, unit) client_action" where
  "releaseServiceClientIDLocked T service clientID =
     unless (service > 0xff) (ServiceTooLarge service)
      (and_then (sendRequest T ServiceControl 0 MessageReleaseClientID [tlv_Bytes 0x01 [ucast service, clientID]] DefaultRequestTimeout) (\<lambda>resp.
        case resultOK (m_TLVs resp) of
          Fail e \<Rightarrow> if e = QMIError QMIErrorInvalidClientID then modify (forgetAllocatedClientIDLocked service clientID) else raise (ResultFailed e)
        | Ret _ \<Rightarrow> modify (forgetAllocatedClientIDLocked service clientID)
        | Panic \<Rightarrow> lifted ResultFailed Panic))"

text \<open>The value of a successful allocation response: the service and the nonzero client ID.\<close>

definition allocated_client :: "TLVs \<Rightarrow> ('e client_error, ServiceType \<times> byte) outcome" where
  "allocated_client ts =
     (case tlv_Value_of ts 0x01 of
        None \<Rightarrow> Fail AllocatedMissing
      | Some v \<Rightarrow>
          fail_if (length v \<noteq> 2) (AllocatedLength (length v))
           (bind (index v 0) (\<lambda>s. bind (index v 1) (\<lambda>c. fail_if (c = 0) ReservedClientID (Ret (ucast s, c))))))"

text \<open>What becomes of an answered allocation: an ID for another service is released again.\<close>

definition settle_allocation :: "('t, 'e, 'w) Transport \<Rightarrow> ServiceType \<Rightarrow> ServiceType \<times> byte \<Rightarrow> ('t, 'e, byte) client_action" where
  "settle_allocation T service p =
     (case p of (allocatedService, clientID) \<Rightarrow>
        and_then (modify (rememberAllocatedClientIDLocked allocatedService clientID)) (\<lambda>_.
          if allocatedService \<noteq> service
          then and_then (attempt (releaseServiceClientIDLocked T allocatedService clientID)) (\<lambda>res.
                 case res of
                   Fail e \<Rightarrow> raise (Mismatch allocatedService (Some e))
                 | _ \<Rightarrow> raise (Mismatch allocatedService None))
          else when_open (done_with clientID)))"

definition allocateServiceClientIDLocked :: "('t, 'e, 'w) Transport \<Rightarrow> ServiceType \<Rightarrow> ('t, 'e, byte) client_action" where
  "allocateServiceClientIDLocked T service =
     unless (service > 0xff) (ServiceTooLarge service)
      (and_then ctx_Err (\<lambda>expired. unless expired ContextDone
        (and_then (sendRequest T ServiceControl 0 msgAllocateClientID [tlv_Uint8 0x01 (ucast service)] clientIDRequestTimeout) (\<lambda>resp.
         and_then (lifted ResultFailed (resultOK (m_TLVs resp))) (\<lambda>_.
         and_then (lifted id (allocated_client (m_TLVs resp))) (settle_allocation T service))))))"

definition lookup_clientID :: "('t, 'e) QClient \<Rightarrow> ServiceType \<Rightarrow> byte" where
  "lookup_clientID c service = (case map_of (c_clientIDs c) service of None \<Rightarrow> 0 | Some i \<Rightarrow> i)"

definition transportClientIDLocked :: "(ServiceType \<Rightarrow> 't \<Rightarrow> ('e, byte) outcome \<times> 't) \<Rightarrow> ServiceType \<Rightarrow> ('t, 'e, byte) client_action" where
  "transportClientIDLocked f service =
     and_then (beginRequest True) (\<lambda>_. deferring finishRequest (on_transport TransportFailed (f service)))"

definition serviceClientIDLocked :: "('t, 'e, 'w) Transport \<Rightarrow> ServiceType \<Rightarrow> ('t, 'e, byte) client_action" where
  "serviceClientIDLocked T service =
     (case t_ClientID T of
        Some f \<Rightarrow> transportClientIDLocked f service
      | None \<Rightarrow>
          (case t_QMIService T of
             Some bound \<Rightarrow> unless (bound \<noteq> service) (BoundToOther bound) (done_with 0)
           | None \<Rightarrow>
               and_then get (\<lambda>c.
                 if lookup_clientID c service \<noteq> 0 then done_with (lookup_clientID c service)
                 else and_then (allocateServiceClientIDLocked T service) (\<lambda>clientID.
                      and_then (modify (\<lambda>c. c\<lparr>c_clientIDs := AList.update service clientID (c_clientIDs c)\<rparr>)) (\<lambda>_.
                      and_then ctx_Err (\<lambda>expired. unless expired ContextDone (done_with clientID)))))))"

definition serviceClientID :: "('t, 'e, 'w) Transport \<Rightarrow> ServiceType \<Rightarrow> ('t, 'e, byte) client_action" where
  "serviceClientID T service = locked (when_open (serviceClientIDLocked T service))"

definition allocateServiceClientID :: "('t, 'e, 'w) Transport \<Rightarrow> ServiceType \<Rightarrow> ('t, 'e, byte) client_action" where
  "allocateServiceClientID T service = locked (when_open (allocateServiceClientIDLocked T service))"

definition sessionServiceClientID :: "('t, 'e, 'w) Transport \<Rightarrow> ServiceType \<Rightarrow> ('t, 'e, byte \<times> bool) client_action" where
  "sessionServiceClientID T service =
     locked (when_open
       (if transportManagesClientIDs T then and_then (serviceClientIDLocked T service) (\<lambda>i. done_with (i, False))
        else and_then (allocateServiceClientIDLocked T service) (\<lambda>i. done_with (i, True))))"

definition releaseServiceClientID :: "('t, 'e, 'w) Transport \<Rightarrow> ServiceType \<Rightarrow> byte \<Rightarrow> ('t, 'e, unit) client_action" where
  "releaseServiceClientID T service clientID = locked (when_open (releaseServiceClientIDLocked T service clientID))"

definition forget_id :: "ServiceType \<Rightarrow> byte \<Rightarrow> ('t, 'e) QClient \<Rightarrow> ('t, 'e) QClient" where
  "forget_id service clientID c =
     forgetAllocatedClientIDLocked service clientID
      (if lookup_clientID c service = clientID then c\<lparr>c_clientIDs := AList.delete service (c_clientIDs c)\<rparr> else c)"

text \<open>\<^verbatim>\<open>false\<close> when the lock was not taken or the transport assigns the IDs.\<close>

definition forgetServiceClientID :: "('t, 'e, 'w) Transport \<Rightarrow> ServiceType \<Rightarrow> byte \<Rightarrow> ('t, 'e, bool) client_action" where
  "forgetServiceClientID T service clientID =
     and_then ctx_Err (\<lambda>expired.
       if expired then done_with False
       else if transportManagesClientIDs T then done_with False
       else and_then (modify (forget_id service clientID)) (\<lambda>_. done_with True))"

text \<open>\<^verbatim>\<open>errors.Is(err, code)\<close> on an error of the client: a wrapped or joined error counts.\<close>

primrec client_is :: "u16 \<Rightarrow> 'e client_error \<Rightarrow> bool" where
  "client_is code (ResultFailed e) = (e = QMIError code)"
| "client_is code (Joined a b) = (client_is code a \<or> client_is code b)"
| "client_is code (Mismatch s e) = (case map_option (client_is code) e of None \<Rightarrow> False | Some b \<Rightarrow> b)"
| "client_is code (ReleaseFailed s i e) = client_is code e"
| "client_is code ClientClosed = False"
| "client_is code ContextDone = False"
| "client_is code (TransportFailed x) = False"
| "client_is code TransportNil = False"
| "client_is code (SlotOutOfRange b) = False"
| "client_is code (BoundToOther s) = False"
| "client_is code (ServiceTooLarge s) = False"
| "client_is code AllocatedMissing = False"
| "client_is code (AllocatedLength n) = False"
| "client_is code ReservedClientID = False"
| "client_is code RemainingUnreleased = False"
| "client_is code (CloseFailed x) = False"
| "client_is code DispatchUnsupported = False"
| "client_is code (DispatchFailed n x) = False"
| "client_is code (QoSHeaderRange b) = False"
| "client_is code (UnsupportedProtocols w) = False"
| "client_is code ControlMissing = False"
| "client_is code (ControlLength n) = False"

definition is_invalid_clientID :: "'e client_error \<Rightarrow> bool" where
  "is_invalid_clientID e = client_is QMIErrorInvalidClientID e"

definition withServiceClient :: "('t, 'e, 'w) Transport \<Rightarrow> ServiceType \<Rightarrow> (byte \<Rightarrow> ('t, 'e, unit) client_action) \<Rightarrow> ('t, 'e, unit) client_action" where
  "withServiceClient T service fn =
     and_then (serviceClientID T service) (\<lambda>clientID.
     and_then (attempt (fn clientID)) (\<lambda>res.
       case res of
         Fail e \<Rightarrow>
           if \<not> is_invalid_clientID e then raise e
           else and_then (forgetServiceClientID T service clientID) (\<lambda>forgotten.
             unless (\<not> forgotten) e
              (and_then (attempt (serviceClientID T service)) (\<lambda>again.
                case again of
                  Fail e' \<Rightarrow> raise (Joined e e')
                | Ret clientID' \<Rightarrow> fn clientID'
                | Panic \<Rightarrow> lifted id Panic)))
       | _ \<Rightarrow> done_with ()))"

section \<open>Requests of the services\<close>

definition client_request :: "('t, 'e, 'w) Transport \<Rightarrow> MessageID \<Rightarrow> TLVs \<Rightarrow> int \<Rightarrow> ('t, 'e, Message) client_action" where
  "client_request T msg tlvs timeout =
     locked (when_open
       (and_then (serviceClientIDLocked T ServiceUIM) (\<lambda>clientID. sendRequest T ServiceUIM clientID msg tlvs timeout)))"

definition requestService :: "('t, 'e, 'w) Transport \<Rightarrow> ServiceType \<Rightarrow> byte \<Rightarrow> MessageID \<Rightarrow> TLVs \<Rightarrow> int \<Rightarrow> ('t, 'e, Message) client_action" where
  "requestService T service clientID msg tlvs timeout =
     locked (when_open (sendRequest T service clientID msg tlvs timeout))"

definition ctlRequest :: "('t, 'e, 'w) Transport \<Rightarrow> MessageID \<Rightarrow> TLVs \<Rightarrow> ('t, 'e, Message) client_action" where
  "ctlRequest T msg tlvs =
     and_then (requestService T ServiceControl 0 msg tlvs DefaultRequestTimeout) (\<lambda>resp.
     and_then (lifted ResultFailed (resultOK (m_TLVs resp))) (\<lambda>_. done_with resp))"

definition control_u16 :: "TLVs \<Rightarrow> byte \<Rightarrow> ('e client_error, u16) outcome" where
  "control_u16 ts typ =
     (case tlv_Value_of ts typ of
        None \<Rightarrow> Fail ControlMissing
      | Some v \<Rightarrow> fail_if (length v \<noteq> 2) (ControlLength (length v)) (le16 v))"

definition CTLSetInstanceID :: "('t, 'e, 'w) Transport \<Rightarrow> byte \<Rightarrow> ('t, 'e, u16) client_action" where
  "CTLSetInstanceID T instanceID =
     and_then (ctlRequest T MessageCTLSetInstanceID [tlv_Uint8 0x01 instanceID]) (\<lambda>resp. lifted id (control_u16 (m_TLVs resp) 0x01))"

definition CTLSetDataFormat :: "('t, 'e, 'w) Transport \<Rightarrow> byte \<Rightarrow> u16 \<Rightarrow> ('t, 'e, u16) client_action" where
  "CTLSetDataFormat T qosHeader linkProtocols =
     unless (qosHeader > 1) (QoSHeaderRange qosHeader)
      (unless (linkProtocols AND NOT 0x3 \<noteq> 0) (UnsupportedProtocols linkProtocols)
        (and_then (ctlRequest T MessageCTLSetDataFormat
            ([tlv_Uint8 0x01 qosHeader] @ (if linkProtocols \<noteq> 0 then [tlv_Uint16 0x10 linkProtocols] else []))) (\<lambda>resp.
          lifted id (control_u16 (m_TLVs resp) 0x10))))"

definition CTLSync :: "('t, 'e, 'w) Transport \<Rightarrow> ('t, 'e, unit) client_action" where
  "CTLSync T = and_then (ctlRequest T MessageCTLSync []) (\<lambda>_. done_with ())"

text \<open>A batch: every request is written in order, then every answer is waited for.\<close>

fun settleResponseWaiters :: "('t, 'e, 'w) Transport \<Rightarrow> 'w list \<Rightarrow> ('t, 'e, ('e client_error, Message) outcome list) client_action" where
  "settleResponseWaiters T [] = done_with []"
| "settleResponseWaiters T (w # ws) =
     and_then (attempt (on_transport TransportFailed (t_Wait T w))) (\<lambda>r. and_then (settleResponseWaiters T ws) (\<lambda>rs. done_with (r # rs)))"

fun dispatch_loop ::
  "('t, 'e, 'w) Transport \<Rightarrow> (Request \<Rightarrow> 't \<Rightarrow> ('e, 'w) outcome \<times> 't) \<Rightarrow> nat \<Rightarrow> Request list \<Rightarrow> 'w list
    \<Rightarrow> ('t, 'e, ('e client_error, Message) outcome list \<times> 'e client_error option) client_action" where
  "dispatch_loop T d i [] ws = and_then (settleResponseWaiters T ws) (\<lambda>rs. done_with (rs, None))"
| "dispatch_loop T d i (req # reqs) ws =
     and_then (client_nextTransactionID (rq_Service req)) (\<lambda>txn.
     and_then (attempt (on_transport (DispatchFailed i) (d (req\<lparr>rq_TransactionID := txn\<rparr>)))) (\<lambda>res.
       case res of
         Ret w \<Rightarrow> dispatch_loop T d (Suc i) reqs (ws @ [w])
       | Fail e \<Rightarrow> and_then (settleResponseWaiters T ws) (\<lambda>rs. done_with (rs, Some e))
       | Panic \<Rightarrow> lifted id Panic))"

definition dispatchRequests ::
  "('t, 'e, 'w) Transport \<Rightarrow> Request list \<Rightarrow> ('t, 'e, ('e client_error, Message) outcome list \<times> 'e client_error option) client_action" where
  "dispatchRequests T reqs =
     locked (when_open
       (case t_Dispatch T of
          None \<Rightarrow> raise DispatchUnsupported
        | Some d \<Rightarrow> and_then (beginRequest True) (\<lambda>_. deferring finishRequest (dispatch_loop T d 0 reqs []))))"

section \<open>Close\<close>

definition releaseServiceClientIDForCloseLocked :: "('t, 'e, 'w) Transport \<Rightarrow> ServiceType \<Rightarrow> byte \<Rightarrow> ('t, 'e, unit) client_action" where
  "releaseServiceClientIDForCloseLocked T service clientID =
     unless (service > 0xff) (ServiceTooLarge service)
      (and_then (sendCloseRequest T ServiceControl 0 MessageReleaseClientID [tlv_Bytes 0x01 [ucast service, clientID]] DefaultRequestTimeout) (\<lambda>resp.
        case resultOK (m_TLVs resp) of
          Fail e \<Rightarrow> if e = QMIError QMIErrorInvalidClientID then done_with () else raise (ResultFailed e)
        | Ret _ \<Rightarrow> done_with ()
        | Panic \<Rightarrow> lifted ResultFailed Panic))"

definition is_terminal :: "('t, 'e, 'w) Transport \<Rightarrow> ('t, 'e) QClient \<Rightarrow> bool" where
  "is_terminal T c \<longleftrightarrow> (case c_transport c of None \<Rightarrow> False | Some t \<Rightarrow> t_TerminalError T t)"

fun release_loop :: "('t, 'e, 'w) Transport \<Rightarrow> (ServiceType \<times> byte) list \<Rightarrow> ('t, 'e, 'e client_error list) client_action" where
  "release_loop T [] = done_with []"
| "release_loop T ((service, clientID) # ids) =
     and_then get (\<lambda>c.
       if is_terminal T c then done_with []
       else and_then ctx_Err (\<lambda>expired.
         if expired then done_with [RemainingUnreleased]
         else and_then (attempt (releaseServiceClientIDForCloseLocked T service clientID)) (\<lambda>res.
           case res of
             Fail e \<Rightarrow>
               and_then get (\<lambda>c.
                 if is_terminal T c then done_with []
                 else and_then ctx_Err (\<lambda>expired.
                   if expired then done_with [ReleaseFailed service clientID e]
                   else and_then (release_loop T ids) (\<lambda>es. done_with (ReleaseFailed service clientID e # es))))
           | _ \<Rightarrow> release_loop T ids)))"

definition releaseClientIDs :: "('t, 'e, 'w) Transport \<Rightarrow> ('t, 'e, 'e client_error list) client_action" where
  "releaseClientIDs T =
     and_then get (\<lambda>c.
       if transportManagesClientIDs T \<or> is_terminal T c then done_with []
       else release_loop T (sorted_list_of_set (c_allocated c \<union> set (c_clientIDs c))))"

definition close_transport :: "('t, 'e, 'w) Transport \<Rightarrow> ('t, 'e, 'e client_error list) client_action" where
  "close_transport T c =
     (case c_transport c of
        None \<Rightarrow> Some (Ret [], c)
      | Some t \<Rightarrow> (case t_Close T t of (err, t') \<Rightarrow>
          Some (Ret (case err of None \<Rightarrow> [] | Some e \<Rightarrow> [CloseFailed e]), c\<lparr>c_transport := Some t'\<rparr>)))"

text \<open>The handle of the transport is dropped last: \<^verbatim>\<open>client_Close\<close> also gives the transport it closed.\<close>

definition client_Close :: "('t, 'e, 'w) Transport \<Rightarrow> ('t, 'e, 'e client_error list \<times> 't option) client_action" where
  "client_Close T =
     and_then get (\<lambda>c.
       if c_closeOnce c then done_with (c_closeErr c, None)
       else
         and_then (modify (\<lambda>c. startClose (c\<lparr>c_closeOnce := True\<rparr>))) (\<lambda>_.
         and_then (if c_transport c = None then done_with []
                   else and_then (releaseClientIDs T) (\<lambda>es. and_then (close_transport T) (\<lambda>es'. done_with (es @ es')))) (\<lambda>errs.
         and_then get (\<lambda>c.
         and_then (modify (\<lambda>c. c\<lparr>c_closeErr := (if c_transport c = None then c_closeErr c else errs), c_transport := None, c_clientIDs := [],
                     c_allocated := {}, c_catService := 0, c_closed := True\<rparr>)) (\<lambda>_.
           done_with (errs, c_transport c))))))"

section \<open>Ownership of client IDs\<close>

text \<open>The operations as steps. \<open>EnvStep\<close> is the modem and the transport on their own (a reset invalidates IDs); forgetting
  an ID is a step of its own because other operations may run between the answer that said it was
  invalid and the forgetting.\<close>

type_synonym 't live_ids = "'t \<Rightarrow> (ServiceType \<times> byte) set"

definition allocates :: "Request \<Rightarrow> bool" where
  "allocates req \<longleftrightarrow> rq_Service req = ServiceControl \<and> rq_MessageID req = msgAllocateClientID"

definition announced :: "Message \<Rightarrow> (ServiceType \<times> byte) set" where
  "announced m =
     (case tlv_Value_of (m_TLVs m) 0x01 of
        Some [s, i] \<Rightarrow> if resultOK (m_TLVs m) = (Ret () :: (unit uim_error, unit) outcome) \<and> i \<noteq> 0 then {(ucast s, i)} else {}
      | _ \<Rightarrow> {})"

definition released :: "Message \<Rightarrow> bool" where
  "released m \<longleftrightarrow> resultOK (m_TLVs m) = (Ret () :: (unit uim_error, unit) outcome) \<or> resultOK (m_TLVs m) = Fail (QMIError QMIErrorInvalidClientID :: unit uim_error)"

text \<open>
  What the client relies on. A response announces what was allocated and is well formed; an
  allocation that was written and not answered ends the transport; other requests allocate
  nothing; a release that succeeds, or that finds the ID invalid, leaves the ID dead; a terminal
  transport stays terminal.
\<close>

definition cid_contract :: "('t, 'e, 'w) Transport \<Rightarrow> 't live_ids \<Rightarrow> bool" where
  "cid_contract T live \<longleftrightarrow>
     (\<forall>req t. t_TerminalError T t \<longrightarrow> t_TerminalError T (snd (t_Do T req t)))
   \<and> (\<forall>req t. \<not> allocates req \<longrightarrow> live (snd (t_Do T req t)) \<subseteq> live t)
   \<and> (\<forall>req t m t'. allocates req \<longrightarrow> t_Do T req t = (Ret m, t') \<longrightarrow> live t' \<subseteq> live t \<union> announced m)
   \<and> (\<forall>req t e t'. allocates req \<longrightarrow> t_Do T req t = (Fail e, t') \<longrightarrow> t_TerminalError T t' \<or> live t' \<subseteq> live t)
   \<and> (\<forall>req t. fst (t_Do T req t) \<noteq> Panic)
   \<and> (\<forall>txn tmo s i t m t'. t_Do T \<lparr>rq_Service = ServiceControl, rq_ClientID = 0, rq_TransactionID = txn, rq_MessageID = MessageReleaseClientID,
        rq_Timeout = tmo, rq_TLVs = [tlv_Bytes 0x01 [ucast s, i]]\<rparr> t = (Ret m, t') \<longrightarrow> s \<le> 0xff \<longrightarrow> released m \<longrightarrow> (s, i) \<notin> live t')
   \<and> (\<forall>t. live (snd (t_Close T t)) \<subseteq> live t \<and> (t_TerminalError T t \<longrightarrow> t_TerminalError T (snd (t_Close T t))))
   \<and> (\<forall>f s t. t_ClientID T = Some f \<longrightarrow> live (snd (f s t)) \<subseteq> live t \<and> (t_TerminalError T t \<longrightarrow> t_TerminalError T (snd (f s t))))"

definition owned :: "('t, 'e, 'w) Transport \<Rightarrow> 't live_ids \<Rightarrow> ('t, 'e) QClient \<Rightarrow> bool" where
  "owned T live c \<longleftrightarrow>
     finite (c_allocated c) \<and> distinct (map fst (c_clientIDs c)) \<and> 0 \<notin> snd ` set (c_clientIDs c)
   \<and> (\<forall>t. c_transport c = Some t \<longrightarrow> t_TerminalError T t \<or> live t \<subseteq> c_allocated c \<union> set (c_clientIDs c))"

subsection \<open>Rules for the primitives\<close>

definition same_ids :: "('t, 'e) QClient \<Rightarrow> ('t, 'e) QClient \<Rightarrow> bool" where
  "same_ids c c' \<longleftrightarrow> c_clientIDs c' = c_clientIDs c \<and> c_allocated c' = c_allocated c"

text \<open>Nothing but the schedules, the counters and the flags differs.\<close>

definition untouched :: "('t, 'e) QClient \<Rightarrow> ('t, 'e) QClient \<Rightarrow> bool" where
  "untouched c c' \<longleftrightarrow> same_ids c c' \<and> c_transport c' = c_transport c"

lemma untouched_refl [simp]: "untouched c c" "same_ids c c"
  by (simp_all add: untouched_def same_ids_def)

lemma untouched_transport: "untouched c c' \<Longrightarrow> c_transport c' = c_transport c"
  by (simp add: untouched_def)

lemma untouched_clientIDs: "untouched c c' \<Longrightarrow> c_clientIDs c' = c_clientIDs c"
  by (simp add: untouched_def same_ids_def)

lemma untouched_trans: "untouched a b \<Longrightarrow> untouched b c \<Longrightarrow> untouched a c"
  by (simp add: untouched_def same_ids_def)

lemma owned_untouched: "untouched c c' \<Longrightarrow> owned T live c' = owned T live c"
  by (simp add: untouched_def same_ids_def owned_def)

lemma wp_read_closing: "(\<And>b c'. untouched c c' \<Longrightarrow> Q (Ret b) c') \<Longrightarrow> wp read_closing Q c"
  by (auto simp: wp_def read_closing_def startClose_def untouched_def same_ids_def Let_def split: list.splits)

lemma wp_ctx_Err: "(\<And>b c'. untouched c c' \<Longrightarrow> Q (Ret b) c') \<Longrightarrow> wp ctx_Err Q c"
  by (auto simp: wp_def ctx_Err_def untouched_def same_ids_def split: list.splits)

lemma wp_isOpenLocked: "(\<And>b c'. untouched c c' \<Longrightarrow> (b \<longrightarrow> c_transport c' \<noteq> None) \<Longrightarrow> Q (Ret b) c') \<Longrightarrow> wp isOpenLocked Q c"
  by (auto simp: isOpenLocked_def wp_simps untouched_def intro!: wp_read_closing)

lemma wp_locked:
  "(\<And>c'. untouched c c' \<Longrightarrow> Q (Fail ContextDone) c') \<Longrightarrow> (\<And>c'. untouched c c' \<Longrightarrow> wp m Q c') \<Longrightarrow> wp (locked m) Q c"
  by (auto simp: locked_def wp_simps intro!: wp_ctx_Err)

lemma wp_when_open:
  "(\<And>c'. untouched c c' \<Longrightarrow> Q (Fail ClientClosed) c') \<Longrightarrow> (\<And>c'. untouched c c' \<Longrightarrow> c_transport c' \<noteq> None \<Longrightarrow> wp m Q c') \<Longrightarrow> wp (when_open m) Q c"
  by (auto simp: when_open_def wp_simps intro!: wp_isOpenLocked)

lemma wp_beginRequest:
  "(\<And>c'. untouched c c' \<Longrightarrow> Q (Fail ClientClosed) c') \<Longrightarrow> (\<And>c'. untouched c c' \<Longrightarrow> Q (Ret ()) c') \<Longrightarrow> wp (beginRequest b) Q c"
  by (auto simp: beginRequest_def wp_simps untouched_def same_ids_def intro!: wp_read_closing)

lemma wp_on_transport:
  "(c_transport c = None \<Longrightarrow> Q Panic c) \<Longrightarrow>
   (\<And>t res t' c'. c_transport c = Some t \<Longrightarrow> f t = (res, t') \<Longrightarrow> same_ids c c' \<Longrightarrow> c_transport c' = Some t' \<Longrightarrow> Q (map_err h res) c') \<Longrightarrow>
   wp (on_transport h f) Q c"
  by (auto simp: wp_def on_transport_def same_ids_def split: option.splits prod.splits)

lemma wp_nextTransactionID: "(\<And>n c'. untouched c c' \<Longrightarrow> Q (Ret n) c') \<Longrightarrow> wp (client_nextTransactionID service) Q c"
  by (auto simp: wp_def client_nextTransactionID_def untouched_def same_ids_def Let_def)

text \<open>A request is refused because the client is closing, or answered by the transport.\<close>

lemma wp_sendRequest:
  assumes "c_transport c \<noteq> None" "\<And>c'. untouched c c' \<Longrightarrow> Q (Fail ClientClosed) c'"
    "\<And>txn t res t' c'. c_transport c = Some t \<Longrightarrow>
       t_Do T \<lparr>rq_Service = service, rq_ClientID = clientID, rq_TransactionID = txn, rq_MessageID = msg, rq_Timeout = timeout, rq_TLVs = tlvs\<rparr> t = (res, t') \<Longrightarrow>
       same_ids c c' \<Longrightarrow> c_transport c' = Some t' \<Longrightarrow> Q (map_err TransportFailed res) c'"
  shows "wp (sendRequest T service clientID msg tlvs timeout) Q c"
  using assms unfolding sendRequest_def doRequest_def Let_def
  by (auto simp: wp_simps finishRequest_def untouched_def same_ids_def intro!: wp_nextTransactionID wp_beginRequest wp_on_transport)

lemma wp_sendCloseRequest:
  assumes "c_transport c \<noteq> None"
    "\<And>txn t res t' c'. c_transport c = Some t \<Longrightarrow>
       t_Do T \<lparr>rq_Service = service, rq_ClientID = clientID, rq_TransactionID = txn, rq_MessageID = msg, rq_Timeout = timeout, rq_TLVs = tlvs\<rparr> t = (res, t') \<Longrightarrow>
       same_ids c c' \<Longrightarrow> c_transport c' = Some t' \<Longrightarrow> Q (map_err TransportFailed res) c'"
  shows "wp (sendCloseRequest T service clientID msg tlvs timeout) Q c"
  using assms unfolding sendCloseRequest_def
  by (auto simp: wp_simps untouched_def same_ids_def intro!: wp_nextTransactionID wp_on_transport)

subsection \<open>Every operation keeps the client IDs owned\<close>

lemma contract_kept:
  assumes "cid_contract T live" "t_Do T req t = (res, t')"
  shows "t_TerminalError T t \<Longrightarrow> t_TerminalError T t'" "\<not> allocates req \<Longrightarrow> live t' \<subseteq> live t" "res \<noteq> Panic"
  using assms unfolding cid_contract_def by (metis fst_conv snd_conv)+

lemma contract_allocated:
  assumes "cid_contract T live" "t_Do T req t = (Ret m, t')" "allocates req"
  shows "live t' \<subseteq> live t \<union> announced m"
  using assms unfolding cid_contract_def by (elim conjE) metis

lemma contract_unanswered:
  assumes "cid_contract T live" "t_Do T req t = (Fail e, t')"
  shows "t_TerminalError T t' \<or> live t' \<subseteq> live t"
proof (cases "allocates req")
  case True
  then show ?thesis using assms unfolding cid_contract_def by blast
next
  case False
  then show ?thesis using contract_kept(2) [OF assms] by blast
qed

lemma contract_released:
  assumes "cid_contract T live" "s \<le> 0xff" "released m"
    "t_Do T \<lparr>rq_Service = ServiceControl, rq_ClientID = 0, rq_TransactionID = txn, rq_MessageID = MessageReleaseClientID,
        rq_Timeout = tmo, rq_TLVs = [tlv_Bytes 0x01 [ucast s, i]]\<rparr> t = (Ret m, t')"
  shows "(s, i) \<notin> live t'"
  using assms unfolding cid_contract_def by blast

lemma owned_answered:
  assumes "owned T live c" "c_transport c = Some t" "same_ids c c'" "c_transport c' = Some t'"
    "t_TerminalError T t \<Longrightarrow> t_TerminalError T t'" "t_TerminalError T t' \<or> live t' \<subseteq> live t"
  shows "owned T live c'"
  using assms by (auto simp: owned_def same_ids_def)

lemma wp_send_owned:
  assumes "cid_contract T live" "owned T live c" "c_transport c \<noteq> None" "service \<noteq> ServiceControl \<or> msg \<noteq> msgAllocateClientID"
  shows "wp (sendRequest T service clientID msg tlvs timeout) (\<lambda>_. owned T live) c"
proof (rule wp_sendRequest)
  fix txn t res t' c'
  let ?req = "\<lparr>rq_Service = service, rq_ClientID = clientID, rq_TransactionID = txn, rq_MessageID = msg, rq_Timeout = timeout, rq_TLVs = tlvs\<rparr>"
  assume *: "c_transport c = Some t" "t_Do T ?req t = (res, t')" "same_ids c c'" "c_transport c' = Some t'"
  have "\<not> allocates ?req" using assms(4) by (auto simp: allocates_def)
  with * show "owned T live c'"
    using contract_kept [OF assms(1) *(2)] assms(2) by (auto intro: owned_answered)
qed (use assms in \<open>auto simp: owned_untouched\<close>)

definition id_dead :: "'t live_ids \<Rightarrow> ServiceType \<Rightarrow> byte \<Rightarrow> ('t, 'e) QClient \<Rightarrow> bool" where
  "id_dead live service clientID c \<longleftrightarrow> (\<forall>t. c_transport c = Some t \<longrightarrow> (service, clientID) \<notin> live t)"

lemma wp_releaseLocked:
  assumes "cid_contract T live" "owned T live c" "c_transport c \<noteq> None"
  shows "wp (releaseServiceClientIDLocked T service clientID) (\<lambda>res c'. owned T live c' \<and> c_transport c' \<noteq> None \<and> c_clientIDs c' = c_clientIDs c
    \<and> (\<forall>u. res = Ret u \<longrightarrow> id_dead live service clientID c')) c"
proof (cases "service > 0xff")
  case False
  then have le: "service \<le> 0xff" by simp
  let ?req = "\<lambda>txn. \<lparr>rq_Service = ServiceControl, rq_ClientID = 0, rq_TransactionID = txn, rq_MessageID = MessageReleaseClientID,
      rq_Timeout = DefaultRequestTimeout, rq_TLVs = [tlv_Bytes 0x01 [ucast service, clientID]]\<rparr>"
  have na: "\<not> allocates (?req txn)" for txn by (simp add: allocates_def msgAllocateClientID_def MessageReleaseClientID_def)
  have "wp (sendRequest T ServiceControl 0 MessageReleaseClientID [tlv_Bytes 0x01 [ucast service, clientID]] DefaultRequestTimeout)
     (\<lambda>res c'. owned T live c' \<and> c_transport c' \<noteq> None \<and> c_clientIDs c' = c_clientIDs c
       \<and> (\<forall>m. res = Ret m \<longrightarrow> released m \<longrightarrow> owned T live (forgetAllocatedClientIDLocked service clientID c') \<and> id_dead live service clientID c')) c"
  proof (rule wp_sendRequest)
    fix txn t res t' c'
    assume *: "c_transport c = Some t" "t_Do T (?req txn) t = (res, t')" "same_ids c c'" "c_transport c' = Some t'"
    have o: "owned T live c'"
      using owned_answered [OF assms(2) *(1,3,4)] contract_kept [OF assms(1) *(2)] na by blast
    moreover have "owned T live (forgetAllocatedClientIDLocked service clientID c') \<and> id_dead live service clientID c'" if "res = Ret m" "released m" for m
      using o contract_released [OF assms(1) le that(2)] *(2,4) that(1) by (auto simp: owned_def forgetAllocatedClientIDLocked_def id_dead_def)
    ultimately show "owned T live c' \<and> c_transport c' \<noteq> None \<and> c_clientIDs c' = c_clientIDs c
       \<and> (\<forall>m. map_err TransportFailed res = Ret m \<longrightarrow> released m \<longrightarrow> owned T live (forgetAllocatedClientIDLocked service clientID c') \<and> id_dead live service clientID c')"
      using *(3,4) by (simp add: same_ids_def)
  qed (use assms in \<open>auto simp: owned_untouched untouched_transport untouched_clientIDs\<close>)
  then show ?thesis
    unfolding releaseServiceClientIDLocked_def using le
    by (auto simp: wp_simps released_def forgetAllocatedClientIDLocked_def id_dead_def elim!: wp_mono split: outcome.splits)
qed (use assms in \<open>simp add: releaseServiceClientIDLocked_def wp_simps\<close>)

lemma allocated_client_Ret:
  "allocated_client ts = Ret p \<longleftrightarrow> (\<exists>s i. tlv_Value_of ts 0x01 = Some [s, i] \<and> i \<noteq> 0 \<and> p = (ucast s, i))"
  by (auto simp: allocated_client_def index_def length_Suc_conv numeral_2_eq_2 split: option.splits if_splits)

lemma allocated_client_no_panic [simp]: "allocated_client ts \<noteq> Panic"
  by (auto simp: allocated_client_def bind_eq_Panic_iff index_def split: option.splits)

lemma announced_refused: "resultOK (m_TLVs m) = (Fail e :: (unit uim_error, unit) outcome) \<Longrightarrow> announced m = {}"
  by (auto simp: announced_def split: option.splits list.splits)

lemma announced_Ret:
  "resultOK (m_TLVs m) = (Ret () :: (unit uim_error, unit) outcome) \<Longrightarrow> allocated_client (m_TLVs m) = Ret p \<Longrightarrow> announced m = {p}"
  by (auto simp: allocated_client_Ret announced_def)

lemma announced_Fail: "allocated_client (m_TLVs m) = Fail e \<Longrightarrow> announced m = {}"
  by (auto simp: announced_def allocated_client_def index_def split: option.splits list.splits)

lemma wp_send_allocate:
  assumes "cid_contract T live" "owned T live c" "c_transport c \<noteq> None"
  shows "wp (sendRequest T ServiceControl 0 msgAllocateClientID [tlv_Uint8 0x01 (ucast service)] clientIDRequestTimeout)
     (\<lambda>res c'. c_transport c' \<noteq> None \<and> c_clientIDs c' = c_clientIDs c \<and> (\<forall>e. res = Fail e \<longrightarrow> owned T live c') \<and> res \<noteq> Panic
       \<and> (\<forall>m. res = Ret m \<longrightarrow> announced m = {} \<longrightarrow> owned T live c')
       \<and> (\<forall>m s i. res = Ret m \<longrightarrow> announced m = {(s, i)} \<longrightarrow> owned T live (rememberAllocatedClientIDLocked s i c'))) c"
proof (rule wp_sendRequest)
  let ?req = "\<lambda>txn. \<lparr>rq_Service = ServiceControl, rq_ClientID = 0, rq_TransactionID = txn, rq_MessageID = msgAllocateClientID,
      rq_Timeout = clientIDRequestTimeout, rq_TLVs = [tlv_Uint8 0x01 (ucast service)]\<rparr>"
  have al: "allocates (?req txn)" for txn by (simp add: allocates_def)
  fix txn t res t' c'
  assume *: "c_transport c = Some t" "t_Do T (?req txn) t = (res, t')" "same_ids c c'" "c_transport c' = Some t'"
  note o = assms(2)
  note k = contract_kept [OF assms(1) *(2)] contract_unanswered [OF assms(1)] contract_allocated [OF assms(1)]
  have "owned T live c'" if "res = Fail e" for e
    using owned_answered [OF o *(1,3,4)] k(1) contract_unanswered [OF assms(1) *(2) [unfolded that]] by blast
  moreover have "owned T live c'" if "res = Ret m" "announced m = {}" for m
    using owned_answered [OF o *(1,3,4)] k(1) contract_allocated [OF assms(1) *(2) [unfolded that] al] that(2) by auto
  moreover have "owned T live (rememberAllocatedClientIDLocked s i c')" if "res = Ret m" "announced m = {(s, i)}" for m s i
    using o k(1) contract_allocated [OF assms(1) *(2) [unfolded that] al] that(2) *(1,3,4)
    by (auto simp: owned_def rememberAllocatedClientIDLocked_def same_ids_def)
  ultimately show "c_transport c' \<noteq> None \<and> c_clientIDs c' = c_clientIDs c \<and> (\<forall>e. map_err TransportFailed res = Fail e \<longrightarrow> owned T live c') \<and> map_err TransportFailed res \<noteq> Panic
     \<and> (\<forall>m. map_err TransportFailed res = Ret m \<longrightarrow> announced m = {} \<longrightarrow> owned T live c')
     \<and> (\<forall>m s i. map_err TransportFailed res = Ret m \<longrightarrow> announced m = {(s, i)} \<longrightarrow> owned T live (rememberAllocatedClientIDLocked s i c'))"
    using k(3) *(3,4) by (cases res) (auto simp: same_ids_def)
qed (use assms in \<open>auto simp: owned_untouched untouched_transport untouched_clientIDs\<close>)

definition allocated_post :: "('t, 'e, 'w) Transport \<Rightarrow> 't live_ids \<Rightarrow> (ServiceType \<times> byte) list \<Rightarrow> ServiceType \<Rightarrow> ('x, byte) outcome \<Rightarrow> ('t, 'e) QClient \<Rightarrow> bool" where
  "allocated_post T live ids service res c' \<longleftrightarrow>
     owned T live c' \<and> c_transport c' \<noteq> None \<and> c_clientIDs c' = ids \<and> (\<forall>i. res = Ret i \<longrightarrow> i \<noteq> 0 \<and> (service, i) \<in> c_allocated c')"

lemma allocated_post_Fail: "owned T live c \<Longrightarrow> c_transport c \<noteq> None \<Longrightarrow> c_clientIDs c = ids \<Longrightarrow> allocated_post T live ids service (Fail e) c"
  by (simp add: allocated_post_def)

lemma wp_settle_allocation:
  assumes "cid_contract T live" "owned T live (rememberAllocatedClientIDLocked s i c)" "c_transport c \<noteq> None" "i \<noteq> 0" "c_clientIDs c = ids"
  shows "wp (settle_allocation T service (s, i)) (allocated_post T live ids service) c"
proof -
  let ?c = "rememberAllocatedClientIDLocked s i c"
  have t: "c_transport ?c \<noteq> None" "(s, i) \<in> c_allocated ?c" "c_clientIDs ?c = ids" using assms(3,5) by (simp_all add: rememberAllocatedClientIDLocked_def)
  show ?thesis
  proof (cases "s = service")
    case True
    have "wp (when_open (done_with i)) (allocated_post T live ids service) ?c"
      using assms(2,4) t True
      by (auto simp: wp_simps allocated_post_def owned_untouched untouched_transport untouched_clientIDs intro!: wp_when_open) (auto simp: untouched_def same_ids_def)
    then show ?thesis using True by (simp add: settle_allocation_def wp_simps)
  next
    case False
    then show ?thesis
      using wp_releaseLocked [OF assms(1,2) t(1), of s i] t(3)
      by (auto simp: settle_allocation_def wp_simps allocated_post_def elim!: wp_mono split: outcome.splits)
  qed
qed

lemma wp_allocateLocked:
  assumes "cid_contract T live" "owned T live c" "c_transport c \<noteq> None" "c_clientIDs c = ids"
  shows "wp (allocateServiceClientIDLocked T service) (allocated_post T live ids service) c"
proof -
  have step: "wp (and_then (lifted ResultFailed (resultOK (m_TLVs m))) (\<lambda>_.
       and_then (lifted id (allocated_client (m_TLVs m))) (settle_allocation T service))) (allocated_post T live ids service) x"
    if x: "c_transport x \<noteq> None" "c_clientIDs x = ids" "announced m = {} \<longrightarrow> owned T live x"
      "\<forall>s i. announced m = {(s, i)} \<longrightarrow> owned T live (rememberAllocatedClientIDLocked s i x)" for m x
  proof (cases "resultOK (m_TLVs m) :: (unit uim_error, unit) outcome")
    case ok: (Ret u)
    show ?thesis
    proof (cases "allocated_client (m_TLVs m) :: ('b client_error, ServiceType \<times> byte) outcome")
      case (Ret p)
      then have "announced m = {p}" "snd p \<noteq> 0" using ok by (auto simp: announced_Ret allocated_client_Ret)
      then have "wp (settle_allocation T service p) (allocated_post T live ids service) x"
        using wp_settle_allocation [OF assms(1)] x(1,2,4) by (cases p) auto
      then show ?thesis by (simp add: wp_simps ok Ret)
    next
      case (Fail e)
      then have "owned T live x" using x(3) announced_Fail by blast
      then show ?thesis using x(1,2) by (simp add: wp_simps ok Fail allocated_post_Fail)
    qed simp
  next
    case (Fail e)
    then have "owned T live x" using x(3) announced_refused by blast
    then show ?thesis using x(1,2) Fail by (simp add: wp_simps allocated_post_Fail)
  qed simp
  have sent: "wp (and_then (sendRequest T ServiceControl 0 msgAllocateClientID [tlv_Uint8 0x01 (ucast service)] clientIDRequestTimeout) (\<lambda>resp.
         and_then (lifted ResultFailed (resultOK (m_TLVs resp))) (\<lambda>_.
         and_then (lifted id (allocated_client (m_TLVs resp))) (settle_allocation T service)))) (allocated_post T live ids service) x"
    if "owned T live x" "c_transport x \<noteq> None" "c_clientIDs x = ids" for x
    unfolding wp_and_then [of "sendRequest T ServiceControl 0 msgAllocateClientID [tlv_Uint8 0x01 (ucast service)] clientIDRequestTimeout"]
  proof (rule wp_mono [OF wp_send_allocate [OF assms(1) that(1,2), of service]], goal_cases)
    case (1 res r')
    with that(3) have *: "c_transport r' \<noteq> None" "c_clientIDs r' = ids" by simp_all
    show ?case
    proof (cases res)
      case (Ret m)
      with 1 show ?thesis using step [OF *] by simp
    qed (use 1 * in \<open>simp_all add: allocated_post_Fail\<close>)
  qed
  show ?thesis
    unfolding allocateServiceClientIDLocked_def wp_unless wp_and_then [of ctx_Err]
    using assms(2,3,4) sent by (auto simp: owned_untouched untouched_transport untouched_clientIDs wp_unless allocated_post_Fail intro!: wp_ctx_Err)
qed

lemma alist_update_new: "k \<notin> fst ` set al \<Longrightarrow> AList.update k v al = al @ [(k, v)]"
  by (induction al) auto

lemma owned_cache:
  assumes "owned T live c" "lookup_clientID c service = 0" "i \<noteq> 0"
  shows "owned T live (c\<lparr>c_clientIDs := AList.update service i (c_clientIDs c)\<rparr>)"
proof -
  have "map_of (c_clientIDs c) service = None"
    using assms(1,2) by (auto simp: owned_def lookup_clientID_def split: option.splits dest!: map_of_SomeD intro: rev_image_eqI)
  then have "service \<notin> fst ` set (c_clientIDs c)" by (simp add: map_of_eq_None_iff)
  then show ?thesis using assms(1,3) by (auto simp: owned_def alist_update_new)
qed

lemma wp_serviceClientIDLocked:
  assumes "cid_contract T live" "owned T live c" "c_transport c \<noteq> None"
  shows "wp (serviceClientIDLocked T service) (\<lambda>_ c'. owned T live c' \<and> c_transport c' \<noteq> None) c"
proof (cases "t_ClientID T")
  case (Some f)
  have k: "live (snd (f s t)) \<subseteq> live t" "t_TerminalError T t \<Longrightarrow> t_TerminalError T (snd (f s t))" for s t
    using assms(1) Some unfolding cid_contract_def by blast+
  have "owned T live c''" if "untouched c c'" "c_transport c' = Some t" "f service t = (res, t')" "same_ids c' c''" "c_transport c'' = Some t'" for c' c'' t t' res
    using owned_answered [OF _ that(2,4,5)] assms(2) that(1) k [where s = service and t = t] that(3) by (auto simp: owned_untouched)
  then show ?thesis
    using Some assms(2,3)
    by (auto simp: serviceClientIDLocked_def transportClientIDLocked_def wp_simps finishRequest_def owned_untouched untouched_transport
        intro!: wp_beginRequest wp_on_transport) (auto simp: owned_def)
next
  case None
  let ?Q = "\<lambda>_ c'. owned T live c' \<and> c_transport c' \<noteq> None"
  have "wp (and_then (allocateServiceClientIDLocked T service) (\<lambda>clientID.
          and_then (modify (\<lambda>c. c\<lparr>c_clientIDs := AList.update service clientID (c_clientIDs c)\<rparr>)) (\<lambda>_.
          and_then ctx_Err (\<lambda>expired. unless expired ContextDone (done_with clientID))))) ?Q c"
    if "lookup_clientID c service = 0"
    unfolding wp_and_then [of "allocateServiceClientIDLocked T service"]
  proof (rule wp_mono [OF wp_allocateLocked [OF assms refl, of service]])
    fix res c' assume p: "allocated_post T live (c_clientIDs c) service res c'"
    then have "owned T live (c'\<lparr>c_clientIDs := AList.update service i (c_clientIDs c')\<rparr>)" if "res = Ret i" for i
      using that \<open>lookup_clientID c service = 0\<close> by (intro owned_cache) (auto simp: allocated_post_def lookup_clientID_def)
    with p show "case res of
        Ret x \<Rightarrow> wp (and_then (modify (\<lambda>c. c\<lparr>c_clientIDs := AList.update service x (c_clientIDs c)\<rparr>)) (\<lambda>_.
          and_then ctx_Err (\<lambda>expired. unless expired ContextDone (done_with x)))) ?Q c'
      | Fail e \<Rightarrow> ?Q (Fail e) c' | Panic \<Rightarrow> ?Q Panic c'"
      by (auto simp: wp_simps allocated_post_def owned_untouched untouched_transport intro!: wp_ctx_Err split: outcome.split)
  qed
  then show ?thesis
    using None assms(2,3) by (auto simp: serviceClientIDLocked_def wp_simps split: option.split)
qed

subsection \<open>Histories of a client\<close>

text \<open>The operations that may run while a client is open, and what the modem does on its own: IDs die, or the
  transport fails for good. Forgetting an ID is a step only while the modem does not know that ID.\<close>

inductive client_step :: "('t, 'e, 'w) Transport \<Rightarrow> 't live_ids \<Rightarrow> ('t, 'e) QClient \<Rightarrow> ('t, 'e) QClient \<Rightarrow> bool" for T live where
  service: "serviceClientID T service c = Some (res, c') \<Longrightarrow> client_step T live c c'"
| allocate: "allocateServiceClientID T service c = Some (res, c') \<Longrightarrow> client_step T live c c'"
| session: "sessionServiceClientID T service c = Some (res, c') \<Longrightarrow> client_step T live c c'"
| release: "releaseServiceClientID T service clientID c = Some (res, c') \<Longrightarrow> client_step T live c c'"
| uim: "client_request T msg tlvs timeout c = Some (res, c') \<Longrightarrow> client_step T live c c'"
| request: "requestService T service clientID msg tlvs timeout c = Some (res, c') \<Longrightarrow> service \<noteq> ServiceControl \<or> msg \<noteq> msgAllocateClientID
    \<Longrightarrow> client_step T live c c'"
| forget: "forgetServiceClientID T service clientID c = Some (res, c') \<Longrightarrow> c_transport c = Some t \<Longrightarrow> (service, clientID) \<notin> live t
    \<Longrightarrow> client_step T live c c'"
| modem: "c_transport c = Some t \<Longrightarrow> live t' \<subseteq> live t \<Longrightarrow> (t_TerminalError T t \<Longrightarrow> t_TerminalError T t') \<Longrightarrow> client_step T live c (c\<lparr>c_transport := Some t'\<rparr>)"
| closing: "client_step T live c (startClose c)"

inductive client_reachable :: "('t, 'e, 'w) Transport \<Rightarrow> 't live_ids \<Rightarrow> ('t, 'e) QClient \<Rightarrow> bool" for T live where
  opened: "NewClient (Some t) slot closes cancels = Ret c \<Longrightarrow> live t = {} \<Longrightarrow> client_reachable T live c"
| step: "client_reachable T live c \<Longrightarrow> client_step T live c c' \<Longrightarrow> client_reachable T live c'"

lemma wp_locked_open:
  assumes "owned T live c" "\<And>c'. owned T live c' \<Longrightarrow> c_transport c' \<noteq> None \<Longrightarrow> wp m (\<lambda>_. owned T live) c'"
  shows "wp (locked (when_open m)) (\<lambda>_. owned T live) c"
  using assms by (auto simp: owned_untouched intro!: wp_locked wp_when_open)

lemma owned_forgotten:
  assumes "owned T live c" "c_transport c = Some t" "(service, clientID) \<notin> live t"
  shows "owned T live (forget_id service clientID c)"
proof -
  have "i = clientID" if "(service, i) \<in> set (c_clientIDs c)" "lookup_clientID c service = clientID" for i
    using that assms(1) by (auto simp: lookup_clientID_def owned_def)
  then show ?thesis
    using assms
    by (auto simp: owned_def forget_id_def forgetAllocatedClientIDLocked_def AList.delete_eq distinct_map intro: inj_on_subset)
qed

lemma client_step_owned:
  assumes "cid_contract T live" "client_step T live c c'" "owned T live c"
  shows "owned T live c'"
  using assms(2,3)
proof (induction rule: client_step.induct)
  case (service service c res c')
  have "wp (serviceClientID T service) (\<lambda>_. owned T live) c"
    unfolding serviceClientID_def by (rule wp_locked_open [OF service(2)], rule wp_mono [OF wp_serviceClientIDLocked [OF assms(1)]]) auto
  then show ?case using service(1) by (blast dest: wpD)
next
  case (allocate service c res c')
  have "wp (allocateServiceClientID T service) (\<lambda>_. owned T live) c"
    unfolding allocateServiceClientID_def 
    by (rule wp_locked_open [OF allocate(2)], rule wp_mono [OF wp_allocateLocked [OF assms(1) _ _ refl]]) (auto simp: allocated_post_def)
  then show ?case using allocate(1) by (blast dest: wpD)
next
  case (session service c res c')
  have "wp (sessionServiceClientID T service) (\<lambda>_. owned T live) c"
    unfolding sessionServiceClientID_def 
    by (auto simp: wp_simps allocated_post_def split: outcome.split intro!: wp_locked_open [OF session(2)]
        wp_mono [OF wp_allocateLocked [OF assms(1) _ _ refl]] wp_mono [OF wp_serviceClientIDLocked [OF assms(1)]])
  then show ?case using session(1) by (blast dest: wpD)
next
  case (release service clientID c res c')
  have "wp (releaseServiceClientID T service clientID) (\<lambda>_. owned T live) c"
    unfolding releaseServiceClientID_def by (rule wp_locked_open [OF release(2)], rule wp_mono [OF wp_releaseLocked [OF assms(1)]]) auto
  then show ?case using release(1) by (blast dest: wpD)
next
  case (uim msg tlvs timeout c res c')
  have "wp (client_request T msg tlvs timeout) (\<lambda>_. owned T live) c"
    unfolding client_request_def 
    by (auto simp: wp_simps ServiceUIM_def ServiceControl_def split: outcome.split intro!: wp_locked_open [OF uim(2)] wp_send_owned [OF assms(1)]
        wp_mono [OF wp_serviceClientIDLocked [OF assms(1)]])
  then show ?case using uim(1) by (blast dest: wpD)
next
  case (request service clientID msg tlvs timeout c res c')
  have "wp (requestService T service clientID msg tlvs timeout) (\<lambda>_. owned T live) c"
    unfolding requestService_def using request(2) by (auto intro!: wp_locked_open [OF request(3)] wp_send_owned [OF assms(1)])
  then show ?case using request(1) by (blast dest: wpD)
next
  case (forget service clientID c res c' t)
  have "wp (forgetServiceClientID T service clientID) (\<lambda>_. owned T live) c"
    using forget(2-4) by (auto simp: forgetServiceClientID_def wp_simps owned_untouched untouched_transport intro!: wp_ctx_Err owned_forgotten [where t = t])
  then show ?case using forget(1) by (blast dest: wpD)
next
  case (modem c t t')
  then show ?case by (auto simp: owned_def)
next
  case (closing c)
  then show ?case by (simp add: owned_def startClose_def)
qed

lemma client_reachable_owned:
  assumes "cid_contract T live" "client_reachable T live c"
  shows "owned T live c"
  using assms(2)
proof (induction rule: client_reachable.induct)
  case (opened t slot closes cancels c)
  then show ?case by (auto simp: NewClient_def owned_def Let_def)
next
  case (step c c')
  then show ?case using client_step_owned [OF assms(1)] by blast
qed

subsection \<open>Close\<close>

definition settled :: "('t, 'e, 'w) Transport \<Rightarrow> 't live_ids \<Rightarrow> (ServiceType \<times> byte) set \<Rightarrow> ('t, 'e) QClient \<Rightarrow> bool" where
  "settled T live X c \<longleftrightarrow> (\<exists>t. c_transport c = Some t \<and> (t_TerminalError T t \<or> live t \<subseteq> X))"

lemma settled_untouched: "untouched c c' \<Longrightarrow> settled T live X c' = settled T live X c"
  by (simp add: settled_def untouched_transport)

lemma wp_release_close:
  assumes "cid_contract T live" "settled T live (insert (s, i) X) c"
  shows "wp (releaseServiceClientIDForCloseLocked T s i)
    (\<lambda>res c'. settled T live (insert (s, i) X) c' \<and> (\<forall>u. res = Ret u \<longrightarrow> settled T live X c') \<and> res \<noteq> Panic) c"
proof (cases "s > 0xff")
  case False
  then have le: "s \<le> 0xff" by simp
  let ?req = "\<lambda>txn. \<lparr>rq_Service = ServiceControl, rq_ClientID = 0, rq_TransactionID = txn, rq_MessageID = MessageReleaseClientID,
      rq_Timeout = DefaultRequestTimeout, rq_TLVs = [tlv_Bytes 0x01 [ucast s, i]]\<rparr>"
  have "wp (sendCloseRequest T ServiceControl 0 MessageReleaseClientID [tlv_Bytes 0x01 [ucast s, i]] DefaultRequestTimeout)
     (\<lambda>res c'. settled T live (insert (s, i) X) c' \<and> res \<noteq> Panic \<and> (\<forall>m. res = Ret m \<longrightarrow> released m \<longrightarrow> settled T live X c')) c"
  proof (rule wp_sendCloseRequest)
    fix txn t res t' c'
    assume *: "c_transport c = Some t" "t_Do T (?req txn) t = (res, t')" "same_ids c c'" "c_transport c' = Some t'"
    have na: "\<not> allocates (?req txn)" by (simp add: allocates_def msgAllocateClientID_def MessageReleaseClientID_def)
    note k = contract_kept [OF assms(1) *(2)]
    have t': "t_TerminalError T t' \<or> live t' \<subseteq> insert (s, i) X" using assms(2) *(1) k(1,2) na by (auto simp: settled_def)
    moreover have "t_TerminalError T t' \<or> live t' \<subseteq> X" if "res = Ret m" "released m" for m
      using t' contract_released [OF assms(1) le that(2)] *(2) that(1) by auto
    ultimately show "settled T live (insert (s, i) X) c' \<and> map_err TransportFailed res \<noteq> Panic
        \<and> (\<forall>m. map_err TransportFailed res = Ret m \<longrightarrow> released m \<longrightarrow> settled T live X c')"
      using *(4) k(3) by (auto simp: settled_def)
  qed (use assms in \<open>auto simp: settled_def\<close>)
  then show ?thesis
    unfolding releaseServiceClientIDForCloseLocked_def using le
    by (auto simp: wp_simps released_def elim!: wp_mono split: outcome.splits)
qed (use assms in \<open>simp add: releaseServiceClientIDForCloseLocked_def wp_simps\<close>)

lemma settled_UNIV: "settled T live X c \<Longrightarrow> settled T live UNIV c"
  by (auto simp: settled_def)

lemma settled_terminal: "is_terminal T c \<Longrightarrow> settled T live X c"
  by (auto simp: settled_def is_terminal_def split: option.splits)

lemma wp_release_loop:
  assumes "cid_contract T live"
  shows "settled T live (set ids \<union> X) c \<Longrightarrow>
    wp (release_loop T ids) (\<lambda>res c'. settled T live UNIV c' \<and> (res = Ret [] \<longrightarrow> settled T live X c')) c"
proof (induction ids arbitrary: c X)
  case (Cons p ids)
  obtain s i where p: "p = (s, i)" by (cases p)
  have rest: "wp (release_loop T ids) (\<lambda>res c'. settled T live UNIV c') x" if "settled T live UNIV x" for x
    by (rule wp_mono [OF Cons.IH [of UNIV]]) (use that in auto)
  note release = wp_release_close [OF assms, of s i "set ids \<union> X"]
  show ?case
    unfolding p release_loop.simps wp_and_then [of get] wp_get
    using Cons.prems p
    by (auto simp: wp_simps settled_untouched settled_UNIV settled_terminal split: outcome.split
        intro!: wp_ctx_Err wp_mono [OF release] Cons.IH intro: wp_mono [OF rest])
qed (auto simp: wp_simps settled_UNIV)

lemma contract_closed:
  assumes "cid_contract T live" "t_Close T t = (err, t')"
  shows "live t' \<subseteq> live t" "t_TerminalError T t \<Longrightarrow> t_TerminalError T t'"
  using assms unfolding cid_contract_def by (metis snd_conv)+

lemma wp_close_transport:
  assumes "cid_contract T live" "settled T live X c"
  shows "wp (close_transport T) (\<lambda>_. settled T live X) c"
proof -
  obtain t where t: "c_transport c = Some t" "t_TerminalError T t \<or> live t \<subseteq> X" using assms(2) by (auto simp: settled_def)
  obtain err t' where e: "t_Close T t = (err, t')" by (cases "t_Close T t")
  show ?thesis using contract_closed [OF assms(1) e] t e by (auto simp: wp_def close_transport_def settled_def)
qed

lemma wp_releaseClientIDs:
  assumes "cid_contract T live" "owned T live c" "c_transport c \<noteq> None" "\<not> transportManagesClientIDs T"
  shows "wp (releaseClientIDs T) (\<lambda>res c'. settled T live UNIV c' \<and> (res = Ret [] \<longrightarrow> settled T live {} c')) c"
proof -
  let ?ids = "sorted_list_of_set (c_allocated c \<union> set (c_clientIDs c))"
  have "settled T live (set ?ids \<union> {}) c" using assms(2,3) by (auto simp: owned_def settled_def)
  from wp_release_loop [OF assms(1) this] assms(4) show ?thesis
    by (simp add: releaseClientIDs_def wp_simps settled_terminal)
qed

lemma wp_shutdown:
  assumes "cid_contract T live" "owned T live c" "c_transport c \<noteq> None" "\<not> transportManagesClientIDs T"
  shows "wp (and_then (releaseClientIDs T) (\<lambda>es. and_then (close_transport T) (\<lambda>es'. done_with (es @ es'))))
    (\<lambda>res c'. res = Ret [] \<longrightarrow> settled T live {} c') c"
  unfolding wp_and_then [of "releaseClientIDs T"]
proof (rule wp_mono [OF wp_releaseClientIDs [OF assms]], goal_cases)
  case (1 res r)
  have "wp (and_then (close_transport T) (\<lambda>es'. done_with (es @ es'))) (\<lambda>res c'. res = Ret [] \<longrightarrow> settled T live {} c') r" if "res = Ret es" for es
  proof (cases "es = []")
    case True
    with 1 that have "settled T live {} r" by simp
    from wp_close_transport [OF assms(1) this] show ?thesis by (auto simp: wp_simps elim!: wp_mono split: outcome.split)
  next
    case False
    from 1 have "settled T live UNIV r" by simp
    from wp_close_transport [OF assms(1) this] False show ?thesis by (auto simp: wp_simps elim!: wp_mono split: outcome.split)
  qed
  then show ?case by (simp split: outcome.split)
qed


section \<open>A modem that keeps the contract\<close>

text \<open>It numbers client IDs from one, rejects requests from IDs it does not know with \<^verbatim>\<open>QMIErrorInvalidClientID\<close>, and a
  reset makes it forget them all and start again. Of the toolkit services it has CAT2.\<close>

record RefModem =
  rm_live :: "(ServiceType \<times> byte) list"
  rm_next :: byte

definition rm_answer :: "Request \<Rightarrow> u16 \<Rightarrow> TLVs \<Rightarrow> Message" where
  "rm_answer req code ts =
     \<lparr>m_Service = rq_Service req, m_ClientID = rq_ClientID req, m_TransactionID = rq_TransactionID req, m_MessageID = rq_MessageID req,
      m_TLVs = tlv_Bytes 0x02 (put_le16 (if code = 0 then 0 else 1) @ put_le16 code) # ts\<rparr>"

definition rm_Do :: "Request \<Rightarrow> RefModem \<Rightarrow> (unit, Message) outcome \<times> RefModem" where
  "rm_Do req m =
     (if rq_Service req = ServiceControl \<and> rq_MessageID req = msgAllocateClientID
      then (case tlv_Value_of (rq_TLVs req) 0x01 of
              Some [s] \<Rightarrow>
                if rm_next m = 0 then (Ret (rm_answer req 5 []), m)
                else (Ret (rm_answer req 0 [tlv_Bytes 0x01 [s, rm_next m]]), m\<lparr>rm_live := (ucast s, rm_next m) # rm_live m, rm_next := rm_next m + 1\<rparr>)
            | _ \<Rightarrow> (Ret (rm_answer req 1 []), m))
      else if rq_Service req = ServiceControl \<and> rq_MessageID req = MessageReleaseClientID
      then (case tlv_Value_of (rq_TLVs req) 0x01 of
              Some [s, i] \<Rightarrow>
                if (ucast s, i) \<in> set (rm_live m) then (Ret (rm_answer req 0 []), m\<lparr>rm_live := removeAll (ucast s, i) (rm_live m)\<rparr>)
                else (Ret (rm_answer req QMIErrorInvalidClientID []), m)
            | _ \<Rightarrow> (Ret (rm_answer req 1 []), m))
      else if rq_Service req \<noteq> ServiceControl \<and> (rq_Service req, rq_ClientID req) \<notin> set (rm_live m)
      then (Ret (rm_answer req QMIErrorInvalidClientID []), m)
      else if rq_Service req = ServiceControl \<and> rq_MessageID req = 0x0021
      then (Ret (rm_answer req 0 [tlv_Bytes 0x01 [1, 0x0A, 1, 0, 0, 0]]), m)
      else (Ret (rm_answer req 0 []), m))"

definition rm_transport :: "(RefModem, unit, unit) Transport" where
  "rm_transport =
     \<lparr>t_Do = rm_Do, t_Close = (\<lambda>m. (None, m)), t_ClientID = None, t_QMIService = None, t_TerminalError = (\<lambda>_. False), t_Dispatch = None,
      t_Wait = (\<lambda>_ m. (Fail (), m))\<rparr>"

definition rm_start :: RefModem where "rm_start = \<lparr>rm_live = [], rm_next = 1\<rparr>"

lemma rm_answer_TLVs: "m_TLVs (rm_answer req code ts) = tlv_Bytes 0x02 (put_le16 (if code = 0 then 0 else 1) @ put_le16 code) # ts"
  by (simp add: rm_answer_def)

lemma resultOK_answer: "resultOK (m_TLVs (rm_answer req code ts)) = (if code = 0 then Ret () else Fail (QMIError code))"
  by (simp add: resultOK_def ResultError_def ResultTLVError_def rm_answer_TLVs tlv_Bytes_def subslice_def le16_put [of _ "[]", simplified] fail_if_def)

lemma ucast_byte_u32: "s \<le> (0xff :: u32) \<Longrightarrow> ucast (ucast s :: byte) = s"
  by (intro word_unat_eq_iff [THEN iffD2]) (simp add: unsigned_ucast_eq take_bit_eq_mod word_le_nat_alt unat_mod)

lemma announced_answer: "i \<noteq> 0 \<Longrightarrow> announced (rm_answer req 0 [tlv_Bytes 0x01 [s, i]]) = {(ucast s, i)}"
proof -
  have "tlv_Value_of (m_TLVs (rm_answer req 0 [tlv_Bytes 0x01 [s, i]])) 0x01 = Some [s, i]"
    by (simp add: rm_answer_TLVs tlv_Value_of_def tlv_Bytes_def)
  then show "i \<noteq> 0 \<Longrightarrow> ?thesis" by (simp add: announced_def resultOK_answer)
qed

lemma rm_contract: "cid_contract rm_transport (\<lambda>m. set (rm_live m))"
  unfolding cid_contract_def
proof (intro conjI allI impI, goal_cases)
  case (2 req t)
  then show ?case by (auto simp: rm_transport_def rm_Do_def allocates_def split: option.splits list.splits)
next
  case (3 req t m t')
  then show ?case
    by (auto simp: rm_transport_def rm_Do_def allocates_def announced_answer split: option.splits list.splits if_splits)
next
  case (6 txn tmo s i t m t')
  then show ?case
    by (auto simp: rm_transport_def rm_Do_def msgAllocateClientID_def MessageReleaseClientID_def tlv_Value_of_def tlv_Bytes_def ucast_byte_u32
        split: if_splits)
qed (auto simp: rm_transport_def rm_Do_def split: option.splits list.splits if_splits)

definition rm_client :: "(RefModem, unit) QClient" where
  "rm_client = (case NewClient (Some rm_start) None [] [] of Ret c \<Rightarrow> c)"

lemma rm_client_new: "NewClient (Some rm_start) None [] [] = Ret rm_client"
  by (simp add: rm_client_def NewClient_def fail_if_def Let_def)

text \<open>The client with a UIM client ID, then with one for a WDS session too.\<close>

definition rm_uim :: "(RefModem, unit) QClient" where
  "rm_uim = snd (the (serviceClientID rm_transport ServiceUIM rm_client))"

definition rm_used :: "(RefModem, unit) QClient" where
  "rm_used = snd (the (sessionServiceClientID rm_transport 1 rm_uim))"


text \<open>A modem reset, seen from the client.\<close>

definition rm_reset :: "(RefModem, unit) QClient \<Rightarrow> (RefModem, unit) QClient" where
  "rm_reset c = c\<lparr>c_transport := Some rm_start\<rparr>"

text \<open>Two goroutines use the UIM client ID, the modem resets, and both are told that the ID is invalid. The
  first forgets it and is given the same number again; then the second forgets it.\<close>

definition stale_forget_run :: "(RefModem, unit, byte list \<times> bool list \<times> unit client_error list \<times> (ServiceType \<times> byte) list option) client_action" where
  "stale_forget_run =
     (let ask = (\<lambda>i. and_then (requestService rm_transport ServiceUIM i 0x0024 [] DefaultRequestTimeout) (\<lambda>resp. lifted ResultFailed (resultOK (m_TLVs resp))));
          invalid = (\<lambda>res. case res of Fail e \<Rightarrow> is_invalid_clientID e | _ \<Rightarrow> False) in
      and_then (serviceClientID rm_transport ServiceUIM) (\<lambda>i.
      and_then (modify rm_reset) (\<lambda>_.
      and_then (attempt (ask i)) (\<lambda>a.
      and_then (attempt (ask i)) (\<lambda>b.
      and_then (forgetServiceClientID rm_transport ServiceUIM i) (\<lambda>_.
      and_then (serviceClientID rm_transport ServiceUIM) (\<lambda>j.
      and_then (forgetServiceClientID rm_transport ServiceUIM i) (\<lambda>_.
      and_then (serviceClientID rm_transport ServiceUIM) (\<lambda>k.
      and_then (client_Close rm_transport) (\<lambda>(errs, t).
        done_with ([i, j, k], [invalid a, invalid b], errs, map_option rm_live t)))))))))))"


section \<open>The client as the requester of the UIM operations\<close>

definition uim_requester :: "('t, 'e, 'w) Transport \<Rightarrow> (('t, 'e) QClient, 'e client_error) requester" where
  "uim_requester T msg ts =
     map_action_err RequestFailed (and_then (client_request T msg ts DefaultRequestTimeout) (\<lambda>resp. done_with (m_TLVs resp)))"

text \<open>What is left of a call on an open client: an answer or an error, and the transport.\<close>

definition steady :: "('x, 'a) outcome \<Rightarrow> ('t, 'e) QClient \<Rightarrow> bool" where
  "steady res c' \<longleftrightarrow> res \<noteq> Panic \<and> c_transport c' \<noteq> None"

lemma steady_simps [simp]:
  "steady (Ret x) c' \<longleftrightarrow> c_transport c' \<noteq> None" "steady (Fail e) c' \<longleftrightarrow> c_transport c' \<noteq> None" "\<not> steady Panic c'"
  "steady (map_err h res) c' \<longleftrightarrow> steady res c'"
  by (auto simp: steady_def)

locale calm_transport =
  fixes T :: "('t, 'e, 'w) Transport"
  assumes do_calm: "fst (t_Do T req t) \<noteq> Panic"
    and id_calm: "t_ClientID T = Some f \<Longrightarrow> fst (f service t) \<noteq> Panic"
begin

lemma send: "c_transport c \<noteq> None \<Longrightarrow> wp (sendRequest T service clientID msg tlvs timeout) steady c"
proof (rule wp_sendRequest)
  fix txn t res t' and c' :: "('t, 'e) QClient"
  assume "t_Do T \<lparr>rq_Service = service, rq_ClientID = clientID, rq_TransactionID = txn, rq_MessageID = msg, rq_Timeout = timeout, rq_TLVs = tlvs\<rparr> t = (res, t')"
    "c_transport c' = Some t'"
  then show "steady (map_err TransportFailed res) c'" using do_calm by (metis fst_conv option.distinct(1) steady_def steady_simps(4))
qed (auto simp: untouched_transport)

lemma released: "c_transport c \<noteq> None \<Longrightarrow> wp (releaseServiceClientIDLocked T service clientID) steady c"
  unfolding releaseServiceClientIDLocked_def wp_unless wp_and_then
  by (auto intro!: wp_mono [OF send] simp: wp_simps forgetAllocatedClientIDLocked_def split: outcome.splits)

lemma settled: "c_transport c \<noteq> None \<Longrightarrow> wp (settle_allocation T service p) steady c"
  unfolding settle_allocation_def
  by (cases p) (auto intro!: wp_mono [OF released] wp_when_open simp: wp_simps rememberAllocatedClientIDLocked_def untouched_transport split: outcome.splits)

lemma allocated: "c_transport c \<noteq> None \<Longrightarrow> wp (allocateServiceClientIDLocked T service) steady c"
  unfolding allocateServiceClientIDLocked_def wp_unless wp_and_then
  by (auto intro!: wp_ctx_Err wp_mono [OF send] wp_mono [OF settled] simp: wp_simps untouched_transport split: outcome.splits)

lemma identified: "c_transport c \<noteq> None \<Longrightarrow> wp (serviceClientIDLocked T service) steady c"
proof (cases "t_ClientID T")
  case None
  then show "c_transport c \<noteq> None \<Longrightarrow> ?thesis"
    unfolding serviceClientIDLocked_def
    by (auto intro!: wp_ctx_Err wp_mono [OF allocated] simp: wp_simps untouched_transport split: outcome.splits option.splits)
next
  case (Some f)
  have "steady (map_err TransportFailed res) c'" if "f service t = (res, t')" "c_transport c' = Some t'" for res t t' and c' :: "('t, 'e) QClient"
    using id_calm [OF Some, of service t] that by (simp add: steady_def)
  then show "c_transport c \<noteq> None \<Longrightarrow> ?thesis"
    using Some by (auto simp: serviceClientIDLocked_def transportClientIDLocked_def wp_simps finishRequest_def untouched_transport steady_def
        intro!: wp_beginRequest wp_on_transport)
qed

lemma requested: "wp (client_request T msg tlvs timeout) (\<lambda>res _. res \<noteq> Panic) c"
  unfolding client_request_def
  by (intro wp_locked wp_when_open)
     (auto simp: wp_simps steady_def split: outcome.split intro!: wp_mono [OF identified] wp_mono [OF send])

lemma quiet_client: "calm (uim_requester T msg ts)"
  using requested [of msg ts DefaultRequestTimeout]
  by (fastforce simp: calm_def uim_requester_def map_action_err_def and_then_def done_with_def wp_def split: option.splits outcome.splits prod.splits)

end

sublocale calm_transport \<subseteq> uim: quiet_requester "uim_requester T"
  by unfold_locales (rule quiet_client)

interpretation rm: calm_transport rm_transport
  by unfold_locales (auto simp: rm_transport_def rm_Do_def split: option.splits list.splits)

end
