(* ===== verification/Qcom_Cat.thy ===== *)
theory Qcom_Cat
  imports Qcom_Client
begin

text \<open>
  The card application toolkit service of the QMI client (\<^verbatim>\<open>qcom/cat.go\<close>, \<^verbatim>\<open>qcom/cat_claim.go\<close>, envelopes and
  event registration of \<^verbatim>\<open>qcom/cat_stk.go\<close>, the service list of \<^verbatim>\<open>qcom/message.go\<close>): which of the two CAT
  services the modem has, envelopes, and taking raw events over from another control point.
\<close>

section \<open>Values\<close>

definition ServiceCAT2 :: ServiceType where "ServiceCAT2 = 0x0A"
definition ServiceCAT :: ServiceType where "ServiceCAT = 0xE0"
definition MessageGetVersionInfo :: MessageID where "MessageGetVersionInfo = 0x0021"
definition MessageCATSetEventReport :: MessageID where "MessageCATSetEventReport = 0x0001"
definition MessageCATGetServiceState :: MessageID where "MessageCATGetServiceState = 0x0020"
definition MessageCATSendEnvelope :: MessageID where "MessageCATSendEnvelope = 0x0022"
definition envelopeCommandSMSPP :: u16 where "envelopeCommandSMSPP = 9"
definition catRawEnvelopeMaxLength :: nat where "catRawEnvelopeMaxLength = 258"
definition catOwnerProbeTimeout :: int where "catOwnerProbeTimeout = 2000000000"
definition catMaxClientID :: nat where "catMaxClientID = 5"

datatype 'e cat_error =
    CatClient "'e client_error"
  | CatResult "unit uim_error"
  | BoundTransport ServiceType
  | CatNotExposed
  | VersionsMissing
  | VersionsEmpty
  | VersionsTruncated
  | EnvelopeShort nat
  | EnvelopeLong nat
  | EnvelopeResponseMissing
  | EnvelopeResponseTruncated
  | StatusTLVLength nat
  | Rejected u32
  | EmptyMask
  | NoRawConflict
  | MaskNotHeld u32
  | StillOwned

type_synonym ('t, 'e, 'a) cat_action = "(('t, 'e) QClient, 'e cat_error, 'a) action"

record ServiceVersion =
  sv_Service :: ServiceType
  sv_Major :: u16
  sv_Minor :: u16

definition version_at :: "bytes \<Rightarrow> nat \<Rightarrow> ('e cat_error, ServiceVersion) outcome" where
  "version_at val i =
     (let offset = i * 5 in
      bind (index val offset) (\<lambda>s.
      bind (bind (subslice val (offset + 1) (offset + 3)) le16) (\<lambda>major.
      bind (bind (subslice val (offset + 3) (offset + 5)) le16) (\<lambda>minor.
        Ret \<lparr>sv_Service = ucast s, sv_Major = major, sv_Minor = minor\<rparr>))))"

definition versions_UnmarshalTLVs :: "TLVs \<Rightarrow> ('e cat_error, ServiceVersion list) outcome" where
  "versions_UnmarshalTLVs ts =
     (case tlv_Value_of ts 0x01 of
        None \<Rightarrow> Fail VersionsMissing
      | Some val \<Rightarrow>
          fail_if (length val = 0) VersionsEmpty
           (bind (index val 0) (\<lambda>n. bind (subslice val 1 (length val)) (\<lambda>val.
             fail_if (length val < unat n * 5) VersionsTruncated (traverse (version_at val) [0..<unat n])))))"

record CATServiceState =
  cs_RawGlobalMask :: u32
  cs_RawClientMask :: u32
  cs_DecodedGlobalMask :: u32
  cs_DecodedClientMask :: u32
  cs_FullFunctionMask :: u32

definition cat_u32_at :: "bytes \<Rightarrow> nat \<Rightarrow> ('e cat_error, u32) outcome" where
  "cat_u32_at val k = bind (subslice val k (k + 4)) le32"

text \<open>A mask TLV that is missing or short leaves its masks zero.\<close>

definition mask_pair :: "TLVs \<Rightarrow> byte \<Rightarrow> ('e cat_error, u32 \<times> u32) outcome" where
  "mask_pair ts typ =
     (case tlv_Value_of ts typ of
        Some val \<Rightarrow> if length val \<ge> 8 then bind (cat_u32_at val 0) (\<lambda>a. bind (cat_u32_at val 4) (\<lambda>b. Ret (a, b))) else Ret (0, 0)
      | None \<Rightarrow> Ret (0, 0))"

definition state_UnmarshalTLVs :: "TLVs \<Rightarrow> ('e cat_error, CATServiceState) outcome" where
  "state_UnmarshalTLVs ts =
     bind (mask_pair ts 0x01) (\<lambda>(rg, rc). bind (mask_pair ts 0x10) (\<lambda>(dg, dc).
     bind (case tlv_Value_of ts 0x11 of Some val \<Rightarrow> if length val \<ge> 4 then cat_u32_at val 0 else Ret 0 | None \<Rightarrow> Ret 0) (\<lambda>f.
       Ret \<lparr>cs_RawGlobalMask = rg, cs_RawClientMask = rc, cs_DecodedGlobalMask = dg, cs_DecodedClientMask = dc, cs_FullFunctionMask = f\<rparr>)))"

definition eventReportErrorMask :: "TLVs \<Rightarrow> byte \<Rightarrow> ('e cat_error, u32 option) outcome" where
  "eventReportErrorMask ts tag =
     (case tlv_Value_of ts tag of
        None \<Rightarrow> Ret None
      | Some val \<Rightarrow> fail_if (length val \<noteq> 4) (StatusTLVLength (length val)) (bind (le32 val) (\<lambda>m. Ret (Some m))))"

fun event_checks :: "TLVs \<Rightarrow> (byte \<times> u32) list \<Rightarrow> ('e cat_error, unit) outcome" where
  "event_checks ts [] = Ret ()"
| "event_checks ts ((tag, requested) # checks) =
     bind (eventReportErrorMask ts tag) (\<lambda>failed.
       case failed of
         None \<Rightarrow> event_checks ts checks
       | Some m \<Rightarrow> if m AND requested \<noteq> 0 then Fail (Rejected (m AND requested)) else event_checks ts checks)"

definition checkEventReportRegistration :: "TLVs \<Rightarrow> u32 \<Rightarrow> u32 \<Rightarrow> ('e cat_error, unit) outcome" where
  "checkEventReportRegistration ts raw full = event_checks ts [(0x10, raw), (0x12, full)]"

definition rawEventConflict :: "TLVs \<Rightarrow> u32 \<Rightarrow> ('e cat_error, bool) outcome" where
  "rawEventConflict ts rawMask =
     bind (eventReportErrorMask ts 0x10) (\<lambda>failed. Ret (case failed of None \<Rightarrow> False | Some m \<Rightarrow> m AND rawMask \<noteq> 0))"

section \<open>The CAT client\<close>

definition cat_call :: "('t, 'e, 'a) client_action \<Rightarrow> ('t, 'e, 'a) cat_action" where
  "cat_call = map_action_err CatClient"

definition serviceVersionsLocked :: "('t, 'e, 'w) Transport \<Rightarrow> ('t, 'e, ServiceVersion list) cat_action" where
  "serviceVersionsLocked T =
     and_then (cat_call (sendRequest T ServiceControl 0 MessageGetVersionInfo [] DefaultRequestTimeout)) (\<lambda>resp.
     and_then (lifted CatResult (resultOK (m_TLVs resp))) (\<lambda>_. lifted id (versions_UnmarshalTLVs (m_TLVs resp))))"

definition ServiceVersions :: "('t, 'e, 'w) Transport \<Rightarrow> ('t, 'e, ServiceVersion list) cat_action" where
  "ServiceVersions T =
     and_then (cat_call (locked (when_open (done_with ())))) (\<lambda>_. serviceVersionsLocked T)"

definition catServiceType :: "('t, 'e, 'w) Transport \<Rightarrow> ('t, 'e, ServiceType) cat_action" where
  "catServiceType T =
     (case t_ClientID T of
        Some f \<Rightarrow>
          and_then (attempt (transportClientIDLocked f ServiceCAT2)) (\<lambda>r2.
            case r2 of
              Ret _ \<Rightarrow> done_with ServiceCAT2
            | _ \<Rightarrow> and_then (attempt (transportClientIDLocked f ServiceCAT)) (\<lambda>r1.
                case r1 of Ret _ \<Rightarrow> done_with ServiceCAT | _ \<Rightarrow> raise CatNotExposed))
      | None \<Rightarrow>
          and_then (serviceVersionsLocked T) (\<lambda>versions.
            if ServiceCAT2 \<in> set (map sv_Service versions) then done_with ServiceCAT2
            else if ServiceCAT \<in> set (map sv_Service versions) then done_with ServiceCAT
            else raise CatNotExposed))"

text \<open>The service is detected once and kept.\<close>

definition catClient :: "('t, 'e, 'w) Transport \<Rightarrow> ('t, 'e, ServiceType \<times> byte) cat_action" where
  "catClient T =
     and_then (cat_call (locked (when_open get))) (\<lambda>c.
       if c_catService c \<noteq> 0
       then and_then (cat_call (serviceClientIDLocked T (c_catService c))) (\<lambda>clientID. done_with (c_catService c, clientID))
       else
         unless (t_QMIService T \<noteq> None \<and> t_ClientID T = None) (BoundTransport (the (t_QMIService T)))
          (and_then (catServiceType T) (\<lambda>service.
           and_then (modify (\<lambda>c. c\<lparr>c_catService := service\<rparr>)) (\<lambda>_.
           and_then (cat_call (serviceClientIDLocked T service)) (\<lambda>clientID. done_with (service, clientID))))))"

definition releaseCATClient :: "('t, 'e, 'w) Transport \<Rightarrow> ServiceType \<Rightarrow> byte \<Rightarrow> ('t, 'e, unit) client_action" where
  "releaseCATClient T service clientID =
     locked (and_then isOpenLocked (\<lambda>ok.
       if \<not> ok then done_with ()
       else and_then get (\<lambda>c.
         if c_catService c \<noteq> service \<or> lookup_clientID c service \<noteq> clientID then done_with ()
         else and_then (if \<not> transportManagesClientIDs T then releaseServiceClientIDLocked T service clientID else done_with ()) (\<lambda>_.
              modify (\<lambda>c. c\<lparr>c_clientIDs := AList.delete service (c_clientIDs c)\<rparr>)))))"

definition envelope_response :: "bytes \<Rightarrow> ('e cat_error, byte \<times> byte \<times> bytes) outcome" where
  "envelope_response result =
     fail_if (length result < 3) EnvelopeResponseTruncated
      (bind (index result 2) (\<lambda>n. let length' = unat n in
        fail_if (length result < 3 + length') EnvelopeResponseTruncated
         (bind (index result 0) (\<lambda>sw1. bind (index result 1) (\<lambda>sw2. bind (subslice result 3 (3 + length')) (\<lambda>data. Ret (sw1, sw2, data)))))))"

definition sendCATEnvelope :: "('t, 'e, 'w) Transport \<Rightarrow> bytes \<Rightarrow> u16 \<Rightarrow> ('t, 'e, byte \<times> byte \<times> bytes) cat_action" where
  "sendCATEnvelope T envelope envType =
     unless (length envelope < 2) (EnvelopeShort (length envelope))
      (unless (length envelope > catRawEnvelopeMaxLength) (EnvelopeLong (length envelope))
        (and_then (catClient T) (\<lambda>(service, clientID).
         and_then get (\<lambda>c.
         let val = put_le16 envType @ put_le16 (of_nat (length envelope)) @ envelope in
         and_then (cat_call (requestService T service clientID MessageCATSendEnvelope [tlv_Bytes 0x01 val, tlv_Uint8 0x10 (c_slot c)] DefaultRequestTimeout)) (\<lambda>resp.
         and_then (lifted CatResult (resultOK (m_TLVs resp))) (\<lambda>_.
           case tlv_Value_of (m_TLVs resp) 0x10 of
             None \<Rightarrow> raise EnvelopeResponseMissing
           | Some result \<Rightarrow> lifted id (envelope_response result)))))))"

definition SendEnvelope :: "('t, 'e, 'w) Transport \<Rightarrow> bytes \<Rightarrow> ('t, 'e, byte \<times> byte \<times> bytes) cat_action" where
  "SendEnvelope T envelope = sendCATEnvelope T envelope envelopeCommandSMSPP"

section \<open>Taking events over\<close>

definition decode_state :: "Message \<Rightarrow> ('t, 'e, CATServiceState) cat_action" where
  "decode_state resp =
     and_then (lifted CatResult (resultOK (m_TLVs resp))) (\<lambda>_. lifted id (state_UnmarshalTLVs (m_TLVs resp)))"

definition ServiceState :: "('t, 'e, 'w) Transport \<Rightarrow> ('t, 'e, CATServiceState) cat_action" where
  "ServiceState T =
     and_then (catClient T) (\<lambda>(service, clientID).
     and_then (cat_call (requestService T service clientID MessageCATGetServiceState [] DefaultRequestTimeout)) decode_state)"

definition serviceStateForClient :: "('t, 'e, 'w) Transport \<Rightarrow> ServiceType \<Rightarrow> byte \<Rightarrow> int \<Rightarrow> ('t, 'e, CATServiceState) cat_action" where
  "serviceStateForClient T service clientID timeout =
     and_then (cat_call (requestService T service clientID MessageCATGetServiceState [] timeout)) decode_state"

definition eventOwner :: "('t, 'e, 'w) Transport \<Rightarrow> ServiceType \<Rightarrow> byte \<Rightarrow> u32 \<Rightarrow> byte \<Rightarrow> ('t, 'e, byte) cat_action" where
  "eventOwner T service ownClientID rawMask candidate =
     (if candidate = 0 \<or> candidate = ownClientID then done_with 0
      else and_then (serviceStateForClient T service candidate catOwnerProbeTimeout) (\<lambda>st.
        if cs_RawClientMask st AND rawMask = 0 then done_with 0 else done_with candidate))"

text \<open>\<^verbatim>\<open>1<<(slot-1)\<close> in \<^verbatim>\<open>uint8\<close>; the result is registered, and whether another client holds the raw events.\<close>

definition trySetEventReport :: "('t, 'e, 'w) Transport \<Rightarrow> ServiceType \<Rightarrow> byte \<Rightarrow> u32 \<Rightarrow> u32 \<Rightarrow> ('t, 'e, bool \<times> bool) cat_action" where
  "trySetEventReport T service clientID rawMask fullMask =
     and_then get (\<lambda>c.
     let ts = [tlv_Uint32 0x10 rawMask, tlv_Uint8 0x12 (push_bit (unat (c_slot c - 1)) 1)] @ (if fullMask \<noteq> 0 then [tlv_Uint32 0x13 fullMask] else []) in
     and_then (cat_call (requestService T service clientID MessageCATSetEventReport ts DefaultRequestTimeout)) (\<lambda>resp.
     and_then (lifted id (rawEventConflict (m_TLVs resp) rawMask)) (\<lambda>rawConflict.
       case (checkEventReportRegistration (m_TLVs resp) rawMask fullMask :: (unit cat_error, unit) outcome) of
         Ret _ \<Rightarrow> (case (resultOK (m_TLVs resp) :: (unit uim_error, unit) outcome) of Ret _ \<Rightarrow> done_with (True, False) | _ \<Rightarrow> done_with (False, rawConflict))
       | _ \<Rightarrow> done_with (False, rawConflict))))"

definition catCandidateClientIDs :: "byte \<Rightarrow> byte list" where
  "catCandidateClientIDs ownClientID = filter (\<lambda>i. i \<noteq> ownClientID) (map of_nat [1..<Suc catMaxClientID])"

text \<open>The clean-up runs before the error is returned; its own error is dropped.\<close>

definition release_and_fail :: "('t, 'e, 'w) Transport \<Rightarrow> ServiceType \<Rightarrow> byte \<Rightarrow> 'e cat_error \<Rightarrow> ('t, 'e, 'a) cat_action" where
  "release_and_fail T service clientID e = and_then (attempt (releaseCATClient T service clientID)) (\<lambda>_. raise e)"

definition or_release :: "('t, 'e, 'w) Transport \<Rightarrow> ServiceType \<Rightarrow> byte \<Rightarrow> ('t, 'e, 'a) cat_action \<Rightarrow> ('t, 'e, 'a) cat_action" where
  "or_release T service clientID m =
     and_then (attempt m) (\<lambda>res. case res of Ret x \<Rightarrow> done_with x | Fail e \<Rightarrow> release_and_fail T service clientID e | Panic \<Rightarrow> lifted id Panic)"

fun claim_loop :: "('t, 'e, 'w) Transport \<Rightarrow> ServiceType \<Rightarrow> byte \<Rightarrow> u32 \<Rightarrow> u32 \<Rightarrow> byte list \<Rightarrow> ('t, 'e, byte) cat_action" where
  "claim_loop T service clientID rawMask fullMask [] = release_and_fail T service clientID StillOwned"
| "claim_loop T service clientID rawMask fullMask (candidate # candidates) =
     and_then (attempt (eventOwner T service clientID rawMask candidate)) (\<lambda>res.
       case res of
         Ret owner \<Rightarrow>
           if owner = 0 then claim_loop T service clientID rawMask fullMask candidates
           else
             and_then (or_release T service clientID (cat_call (releaseServiceClientID T service owner))) (\<lambda>_.
             and_then (or_release T service clientID (trySetEventReport T service clientID rawMask fullMask)) (\<lambda>(ok, _).
               if ok then done_with owner else claim_loop T service clientID rawMask fullMask candidates))
       | _ \<Rightarrow> claim_loop T service clientID rawMask fullMask candidates)"

record CATEventClaim =
  cl_Service :: ServiceType
  cl_ClientID :: byte
  cl_Released :: byte
  cl_StateBefore :: "CATServiceState option"

definition ForceClaimEvents :: "('t, 'e, 'w) Transport \<Rightarrow> u32 \<Rightarrow> u32 \<Rightarrow> byte list \<Rightarrow> ('t, 'e, CATEventClaim) cat_action" where
  "ForceClaimEvents T rawMask fullMask given =
     unless (rawMask = 0 \<and> fullMask = 0) EmptyMask
      (and_then (catClient T) (\<lambda>(service, clientID).
       and_then (trySetEventReport T service clientID rawMask fullMask) (\<lambda>(ok, rawConflict).
         if ok then done_with \<lparr>cl_Service = service, cl_ClientID = clientID, cl_Released = 0, cl_StateBefore = None\<rparr>
         else if \<not> rawConflict then release_and_fail T service clientID NoRawConflict
         else
           and_then (or_release T service clientID (ServiceState T)) (\<lambda>st.
             if cs_RawGlobalMask st AND rawMask = 0 then release_and_fail T service clientID (MaskNotHeld (cs_RawGlobalMask st))
             else
               and_then (claim_loop T service clientID rawMask fullMask (if given = [] then catCandidateClientIDs clientID else given)) (\<lambda>owner.
                 done_with \<lparr>cl_Service = service, cl_ClientID = clientID, cl_Released = owner, cl_StateBefore = Some st\<rparr>)))))"

section \<open>Client IDs stay owned\<close>

definition keeps :: "('t, 'e, 'w) Transport \<Rightarrow> 't live_ids \<Rightarrow> (('t, 'e) QClient, 'x, 'a) action \<Rightarrow> bool" where
  "keeps T live m \<longleftrightarrow> (\<forall>c. owned T live c \<longrightarrow> wp m (\<lambda>_. owned T live) c)"

lemma keeps_simple [simp]: "keeps T live (done_with x)" "keeps T live (raise e)" "keeps T live (lifted h r)"
  by (simp_all add: keeps_def wp_simps)

lemma keeps_and_then: "keeps T live m \<Longrightarrow> (\<And>x. keeps T live (f x)) \<Longrightarrow> keeps T live (and_then m f)"
  unfolding keeps_def wp_and_then by (auto elim!: wp_mono split: outcome.split)

lemma keeps_unless: "keeps T live k \<Longrightarrow> keeps T live (unless b e k)"
  by (simp add: keeps_def wp_simps)

lemma keeps_attempt: "keeps T live m \<Longrightarrow> keeps T live (attempt m)"
  unfolding keeps_def wp_attempt by (auto elim!: wp_mono split: outcome.split)

lemma keeps_get: "(\<And>c. keeps T live (f c)) \<Longrightarrow> keeps T live (and_then get f)"
  by (simp add: keeps_def wp_simps)

lemma keeps_cat_call: "keeps T live m \<Longrightarrow> keeps T live (cat_call m)"
  by (simp add: keeps_def cat_call_def wp_simps)

lemma keeps_step:
  "cid_contract T live \<Longrightarrow> (\<And>c res c'. m c = Some (res, c') \<Longrightarrow> client_step T live c c') \<Longrightarrow> keeps T live m"
  by (auto simp: keeps_def wp_def split: option.splits intro: client_step_owned)

lemma keeps_request:
  "cid_contract T live \<Longrightarrow> service \<noteq> ServiceControl \<or> msg \<noteq> msgAllocateClientID \<Longrightarrow> keeps T live (requestService T service clientID msg tlvs timeout)"
  by (rule keeps_step) (auto intro: client_step.request)

lemma keeps_release: "cid_contract T live \<Longrightarrow> keeps T live (releaseServiceClientID T service clientID)"
  by (rule keeps_step) (auto intro: client_step.release)

lemmas keeps_intros = keeps_and_then keeps_unless keeps_attempt keeps_get keeps_cat_call keeps_request keeps_release keeps_simple

definition attached :: "('t, 'e, 'w) Transport \<Rightarrow> 't live_ids \<Rightarrow> ('t, 'e) QClient \<Rightarrow> bool" where
  "attached T live c \<longleftrightarrow> owned T live c \<and> c_transport c \<noteq> None"

lemma attached_simps [simp]: "attached T live (c\<lparr>c_catService := s\<rparr>) = attached T live c"
  by (simp add: attached_def owned_def)

lemma wp_service_attached:
  assumes "cid_contract T live" "attached T live c"
  shows "wp (serviceClientIDLocked T service) (\<lambda>_. attached T live) c"
  by (rule wp_mono [OF wp_serviceClientIDLocked [OF assms(1)]]) (use assms(2) in \<open>auto simp: attached_def\<close>)

lemma wp_provider_attached:
  assumes "cid_contract T live" "t_ClientID T = Some f" "attached T live c"
  shows "wp (transportClientIDLocked f service) (\<lambda>_. attached T live) c"
  using wp_service_attached [OF assms(1,3), of service] assms(2) by (simp add: serviceClientIDLocked_def)

lemma wp_versions_attached:
  assumes "cid_contract T live" "attached T live c"
  shows "wp (serviceVersionsLocked T) (\<lambda>_. attached T live) c"
proof -
  have o: "wp (sendRequest T ServiceControl 0 MessageGetVersionInfo [] DefaultRequestTimeout) (\<lambda>_. owned T live) c"
    using assms by (intro wp_send_owned) (auto simp: attached_def MessageGetVersionInfo_def msgAllocateClientID_def)
  have "wp (sendRequest T ServiceControl 0 MessageGetVersionInfo [] DefaultRequestTimeout) (\<lambda>_ c'. c_transport c' \<noteq> None) c"
    using assms by (intro wp_sendRequest) (auto simp: attached_def untouched_transport)
  from wp_conj [OF o this]
  have "wp (sendRequest T ServiceControl 0 MessageGetVersionInfo [] DefaultRequestTimeout) (\<lambda>_. attached T live) c"
    by (rule wp_mono) (simp add: attached_def)
  then show ?thesis
    unfolding serviceVersionsLocked_def cat_call_def by (auto simp: wp_simps elim!: wp_mono split: outcome.split)
qed

lemma wp_catServiceType:
  assumes "cid_contract T live" "attached T live c"
  shows "wp (catServiceType T) (\<lambda>_. attached T live) c"
proof (cases "t_ClientID T")
  case None
  show ?thesis
    unfolding catServiceType_def None option.case wp_and_then [of "serviceVersionsLocked T"]
    by (rule wp_mono [OF wp_versions_attached [OF assms]]) (auto simp: wp_simps split: outcome.split)
next
  case (Some f)
  have p: "attached T live x \<Longrightarrow> wp (transportClientIDLocked f s) (\<lambda>_. attached T live) x" for s x
    by (rule wp_provider_attached [OF assms(1) Some])
  then show ?thesis
    using assms(2) unfolding catServiceType_def Some option.case
    by (auto simp: wp_simps split: outcome.split intro!: wp_mono [OF p])
qed

lemma wp_attach:
  assumes "owned T live c" "\<And>c'. attached T live c' \<Longrightarrow> Q (Ret c') c'" "\<And>e c'. owned T live c' \<Longrightarrow> Q (Fail e) c'"
  shows "wp (locked (when_open get)) Q c"
  using assms by (intro wp_locked wp_when_open) (auto simp: wp_simps owned_untouched attached_def)

lemma keeps_catClient:
  assumes "cid_contract T live"
  shows "keeps T live (catClient T)"
proof -
  have a: "attached T live c \<Longrightarrow> owned T live c" for c by (simp add: attached_def)
  note k = wp_mono [OF wp_service_attached [OF assms]] wp_mono [OF wp_catServiceType [OF assms]]
  show ?thesis
    unfolding keeps_def catClient_def cat_call_def wp_and_then [of "map_action_err CatClient (locked (when_open get))"] wp_map_err
    by (auto intro!: wp_attach k simp: wp_simps a split: outcome.split)
qed

lemma owned_uncached:
  assumes "owned T live c" "id_dead live service clientID c" "lookup_clientID c service = clientID"
  shows "owned T live (c\<lparr>c_clientIDs := AList.delete service (c_clientIDs c)\<rparr>)"
proof -
  have i: "i = clientID" if "(service, i) \<in> set (c_clientIDs c)" for i
    using that assms(1,3) by (auto simp: lookup_clientID_def owned_def)
  have "live t \<subseteq> c_allocated c \<union> set (AList.delete service (c_clientIDs c))"
    if "live t \<subseteq> c_allocated c \<union> set (c_clientIDs c)" "c_transport c = Some t" for t
  proof
    fix p assume p: "p \<in> live t"
    with that(1) have "p \<in> c_allocated c \<or> p \<in> set (c_clientIDs c)" by blast
    moreover have "p \<noteq> (service, clientID)" using p assms(2) that(2) by (auto simp: id_dead_def)
    ultimately show "p \<in> c_allocated c \<union> set (AList.delete service (c_clientIDs c))"
      using i by (cases p) (auto simp: AList.delete_eq)
  qed
  then show ?thesis using assms(1) by (auto simp: owned_def AList.delete_eq distinct_map intro: inj_on_subset)
qed

lemma lookup_clientID_cong: "c_clientIDs c' = c_clientIDs c \<Longrightarrow> lookup_clientID c' service = lookup_clientID c service"
  by (simp add: lookup_clientID_def)

lemma keeps_releaseCATClient:
  assumes "cid_contract T live" "\<not> transportManagesClientIDs T"
  shows "keeps T live (releaseCATClient T service clientID)"
proof -
  have rel: "wp (and_then (releaseServiceClientIDLocked T service clientID) (\<lambda>_. modify (\<lambda>c. c\<lparr>c_clientIDs := AList.delete service (c_clientIDs c)\<rparr>)))
      (\<lambda>_. owned T live) c"
    if "owned T live c" "c_transport c \<noteq> None" "lookup_clientID c service = clientID" for c service clientID
    unfolding wp_and_then
  proof (rule wp_mono [OF wp_releaseLocked [OF assms(1) that(1,2), of service clientID]], goal_cases)
    case (1 res r)
    then have l: "lookup_clientID r service = clientID" using that(3) lookup_clientID_cong [of r c] by metis
    have "owned T live (r\<lparr>c_clientIDs := AList.delete service (c_clientIDs r)\<rparr>)" if "res = Ret u" for u
      by (rule owned_uncached [OF _ _ l]) (use 1 that in auto)
    with 1 show ?case by (auto simp: wp_simps split: outcome.split)
  qed
  show ?thesis
    unfolding keeps_def releaseCATClient_def
    using assms(2) by (auto simp: wp_simps owned_untouched untouched_transport intro!: wp_locked wp_isOpenLocked rel [unfolded wp_and_then])
qed

lemma keeps_decode: "keeps T live (decode_state resp)"
  unfolding decode_state_def by (intro keeps_intros)

lemma cat_not_allocation:
  "MessageCATSetEventReport \<noteq> msgAllocateClientID" "MessageCATGetServiceState \<noteq> msgAllocateClientID"
  by (simp_all add: MessageCATSetEventReport_def MessageCATGetServiceState_def msgAllocateClientID_def)

lemma keeps_ServiceState: "cid_contract T live \<Longrightarrow> keeps T live (ServiceState T)"
  unfolding ServiceState_def
  by (auto intro!: keeps_and_then keeps_catClient keeps_cat_call keeps_request keeps_decode simp: cat_not_allocation split: prod.splits)

lemma keeps_eventOwner: "cid_contract T live \<Longrightarrow> keeps T live (eventOwner T service own rawMask candidate)"
  unfolding eventOwner_def serviceStateForClient_def
  by (auto intro!: keeps_and_then keeps_cat_call keeps_request keeps_decode simp: cat_not_allocation)

lemma keeps_trySet: "cid_contract T live \<Longrightarrow> keeps T live (trySetEventReport T service clientID rawMask fullMask)"
  unfolding trySetEventReport_def Let_def
  by (intro keeps_get keeps_and_then keeps_cat_call keeps_request keeps_simple) (auto simp: cat_not_allocation split: outcome.split)

lemma keeps_release_and_fail:
  "cid_contract T live \<Longrightarrow> \<not> transportManagesClientIDs T \<Longrightarrow> keeps T live (release_and_fail T service clientID e)"
  unfolding release_and_fail_def by (intro keeps_and_then keeps_attempt keeps_releaseCATClient keeps_simple)

lemma keeps_or_release:
  "cid_contract T live \<Longrightarrow> \<not> transportManagesClientIDs T \<Longrightarrow> keeps T live m \<Longrightarrow> keeps T live (or_release T service clientID m)"
  unfolding or_release_def by (intro keeps_and_then keeps_attempt) (auto split: outcome.split intro: keeps_release_and_fail)

lemma keeps_claim_loop:
  assumes "cid_contract T live" "\<not> transportManagesClientIDs T"
  shows "keeps T live (claim_loop T service clientID rawMask fullMask candidates)"
proof (induction candidates)
  case (Cons candidate candidates)
  show ?case
    unfolding claim_loop.simps
    by (intro keeps_and_then keeps_attempt keeps_eventOwner assms)
       (auto intro!: Cons keeps_and_then keeps_or_release keeps_cat_call keeps_release keeps_trySet assms split: outcome.split)
qed (simp add: keeps_release_and_fail assms)

lemma yields_if: "(b \<Longrightarrow> yields m Q) \<Longrightarrow> (\<not> b \<Longrightarrow> yields n Q) \<Longrightarrow> yields (if b then m else n) Q"
  by simp

lemma yields_eventOwner: "yields (eventOwner T service own rawMask candidate) (\<lambda>i. i \<noteq> 0 \<longrightarrow> i \<noteq> own)"
  unfolding eventOwner_def by (auto intro!: yields_done yields_and_then [OF yields_True])

lemma yields_release_and_fail: "yields (release_and_fail T service clientID e) Q"
  unfolding release_and_fail_def by (intro yields_and_then [OF yields_True] yields_raise)

lemma yields_claim_loop: "yields (claim_loop T service own rawMask fullMask candidates) (\<lambda>i. i \<noteq> 0 \<longrightarrow> i \<noteq> own)"
proof (induction candidates)
  case (Cons candidate candidates)
  show ?case
    unfolding claim_loop.simps
    by (rule yields_and_then [OF yields_attempt [OF yields_eventOwner]])
       (auto split: outcome.split intro!: Cons yields_and_then [OF yields_True] yields_done)
qed (simp add: yields_release_and_fail)

lemma yields_ForceClaimEvents:
  "yields (ForceClaimEvents T rawMask fullMask given) (\<lambda>cl. cl_Released cl \<noteq> 0 \<longrightarrow> cl_Released cl \<noteq> cl_ClientID cl)"
  unfolding ForceClaimEvents_def split_def
  by (intro yields_unless yields_and_then [OF yields_True] yields_if yields_release_and_fail yields_done yields_and_then [OF yields_claim_loop]) auto

lemma keeps_ForceClaimEvents:
  assumes "cid_contract T live" "\<not> transportManagesClientIDs T"
  shows "keeps T live (ForceClaimEvents T rawMask fullMask given)"
  unfolding ForceClaimEvents_def
  by (auto intro!: keeps_and_then keeps_unless keeps_catClient keeps_trySet keeps_or_release keeps_ServiceState keeps_release_and_fail
      keeps_claim_loop assms split: prod.splits)



section \<open>No panics\<close>

lemma le32_four: "length xs = 4 \<Longrightarrow> le32 xs \<noteq> Panic"
  by (cases xs rule: le32.cases) auto

lemma version_at_no_panic: "i * 5 + 5 \<le> length val \<Longrightarrow> version_at val i \<noteq> Panic"
  by (auto simp: version_at_def bind_eq_Panic_iff index_def subslice_def Let_def le16_two)

lemma versions_no_panic: "versions_UnmarshalTLVs ts \<noteq> Panic"
  by (auto simp: versions_UnmarshalTLVs_def bind_eq_Panic_iff index_def subslice_def Suc_le_eq split: option.splits intro!: traverse_no_panic version_at_no_panic)

lemma envelope_response_no_panic: "envelope_response result \<noteq> Panic"
  by (auto simp: envelope_response_def bind_eq_Panic_iff index_def subslice_def Let_def)

context calm_transport
begin

lemma steady_cat_call: "wp m steady c \<Longrightarrow> wp (cat_call m) steady c"
  unfolding cat_call_def wp_map_err by (rule wp_mono) auto

lemma steady_versions: "c_transport c \<noteq> None \<Longrightarrow> wp (serviceVersionsLocked T) steady c"
  unfolding serviceVersionsLocked_def wp_and_then [of "cat_call m" for m]
  by (rule wp_mono [OF steady_cat_call [OF send]]) (auto simp: wp_simps versions_no_panic steady_def split: outcome.splits)

lemma steady_provider: "t_ClientID T = Some f \<Longrightarrow> c_transport c \<noteq> None \<Longrightarrow> wp (transportClientIDLocked f service) steady c"
  using identified [of c service] by (simp add: serviceClientIDLocked_def)

lemma steady_service_type: "c_transport c \<noteq> None \<Longrightarrow> wp (catServiceType T) steady c"
  unfolding catServiceType_def
  by (auto simp: wp_simps split: option.split outcome.splits intro!: wp_mono [OF steady_versions] wp_mono [OF steady_provider])

lemma calm_locked_open:
  assumes "\<And>c. c_transport c \<noteq> None \<Longrightarrow> wp m steady c"
  shows "calm (locked (when_open m))"
proof -
  have "wp (locked (when_open m)) (\<lambda>res _. res \<noteq> Panic) c" for c
    by (intro wp_locked wp_when_open) (auto intro: wp_mono [OF assms] simp: steady_def)
  then show ?thesis by (rule calm_wp)
qed

lemma calm_requestService: "calm (requestService T service clientID msg tlvs timeout)"
  unfolding requestService_def by (rule calm_locked_open) (rule send)

lemma calm_catClient: "calm (catClient T)"
proof -
  have "wp (catClient T) (\<lambda>res _. res \<noteq> Panic) c" for c
    unfolding catClient_def cat_call_def wp_and_then [of "map_action_err CatClient (locked (when_open get))"] wp_map_err
    by (intro wp_locked wp_when_open)
       (auto simp: wp_simps steady_def split: outcome.split intro!: wp_mono [OF identified] wp_mono [OF steady_service_type])
  then show ?thesis by (rule calm_wp)
qed

lemma calm_get: "(\<And>c. calm (f c)) \<Longrightarrow> calm (and_then get f)"
  by (simp add: calm_def and_then_def get_def)

lemma calm_SendEnvelope: "calm (SendEnvelope T envelope)"
  unfolding SendEnvelope_def sendCATEnvelope_def cat_call_def Let_def
  by (intro calm_unless calm_and_then calm_catClient)
     (auto intro!: calm_get calm_and_then calm_map_err calm_requestService calm_lifted simp: envelope_response_no_panic split: prod.splits option.splits)

end

end
