(* ===== verification/Sim_Qcom.thy ===== *)
theory Sim_Qcom
  imports Sim_App Qcom_Cat
begin

text \<open>
  The card reader over QMI (\<^verbatim>\<open>sim/qcom.go\<close>): which UIM session and path a file of the card interface is
  reached through, the second attempt in another session, and the list of applications. Its operations
  are those of the QMI client, so the whole stack from the subscriber card to the QMI transport is one
  action on the client.
\<close>

section \<open>Sessions\<close>

datatype 'e qcom_error =
    ClientFailed "'e client_error uim_error"
  | CatFailed "'e cat_error"
  | CardSlotRange byte
  | DirectoryStructure
  | DirectoryRecord sim_error
  | DownloadEnvelope smspp_error

type_synonym ('t, 'e, 'a) qcom_action = "(('t, 'e) QClient, 'e qcom_error, 'a) action"

definition qcomUSIMAIDPrefix :: bytes where "qcomUSIMAIDPrefix = [0xA0, 0x00, 0x00, 0x00, 0x87, 0x10, 0x02]"
definition qcomISIMAIDPrefix :: bytes where "qcomISIMAIDPrefix = [0xA0, 0x00, 0x00, 0x00, 0x87, 0x10, 0x04]"
definition qcomCurrentADF :: bytes where "qcomCurrentADF = [0x7F, 0xFF]"
definition SessionPrimaryGWProvisioning :: byte where "SessionPrimaryGWProvisioning = 0"
definition AuthContext3G :: byte where "AuthContext3G = 3"
definition AuthContextIMSAKA :: byte where "AuthContextIMSAKA = 11"

definition hasPrefix :: "bytes \<Rightarrow> bytes \<Rightarrow> bool" where
  "hasPrefix val prefix' \<longleftrightarrow> length val \<ge> length prefix' \<and> take (length prefix') val = prefix'"

definition qcomCardSession :: "byte \<Rightarrow> ('e qcom_error, byte) outcome" where
  "qcomCardSession slot =
     (if slot = 1 then Ret 6 else if slot = 2 then Ret 7 else if slot = 3 then Ret 19 else if slot = 4 then Ret 20
      else if slot = 5 then Ret 21 else Fail (CardSlotRange slot))"

definition qcomNonProvisioningSession :: "byte \<Rightarrow> ('e qcom_error, byte) outcome" where
  "qcomNonProvisioningSession slot =
     (if slot = 1 then Ret 4 else if slot = 2 then Ret 5 else if slot = 3 then Ret 16 else if slot = 4 then Ret 17
      else if slot = 5 then Ret 18 else Fail (CardSlotRange slot))"

definition qcomFilePath :: "FileRef \<Rightarrow> bytes" where
  "qcomFilePath fref =
     (if length (fr_AID fref) \<noteq> 0 then masterFile @ qcomCurrentADF @ fr_Path fref
      else if hasPrefix (fr_Path fref) masterFile then fr_Path fref
      else masterFile @ fr_Path fref)"

text \<open>The slices of candidates are never empty: the first candidate, and the others.\<close>

definition qcom_files :: "byte \<Rightarrow> FileRef \<Rightarrow> ('e qcom_error, QFile \<times> QFile list) outcome" where
  "qcom_files slot fref =
     (let path = qcomFilePath fref in
      if length (fr_AID fref) = 0 then Ret (\<lparr>q_Session = SessionPrimaryGWProvisioning, q_AID = [], q_Path = path\<rparr>, [])
      else if hasPrefix (fr_AID fref) qcomISIMAIDPrefix
      then bind (qcomCardSession slot) (\<lambda>cardSession.
           bind (qcomNonProvisioningSession slot) (\<lambda>nonProvisioningSession.
             Ret (\<lparr>q_Session = nonProvisioningSession, q_AID = fr_AID fref, q_Path = path\<rparr>,
                  [\<lparr>q_Session = cardSession, q_AID = [], q_Path = path\<rparr>])))
      else if hasPrefix (fr_AID fref) qcomUSIMAIDPrefix
      then Ret (\<lparr>q_Session = SessionPrimaryGWProvisioning, q_AID = [], q_Path = path\<rparr>, [])
      else Ret (\<lparr>q_Session = SessionPrimaryGWProvisioning, q_AID = fr_AID fref, q_Path = path\<rparr>, []))"

definition authRequests :: "byte \<Rightarrow> bytes \<Rightarrow> bytes \<Rightarrow> bytes \<Rightarrow> bool \<Rightarrow> ('e qcom_error, AuthenticateRequest \<times> AuthenticateRequest list) outcome" where
  "authRequests slot aid rand autn eapAKA =
     (let ctx = (if eapAKA \<or> hasPrefix aid qcomISIMAIDPrefix then AuthContextIMSAKA else AuthContext3G);
          request = (\<lambda>session aid. \<lparr>ar_Session = session, ar_AID = aid, ar_Context = ctx, ar_Rand = rand, ar_AUTN = autn\<rparr>) in
      if length aid = 0 then Ret (request SessionPrimaryGWProvisioning [], [])
      else if hasPrefix aid qcomISIMAIDPrefix
      then bind (qcomCardSession slot) (\<lambda>cardSession.
           bind (qcomNonProvisioningSession slot) (\<lambda>nonProvisioningSession.
             Ret (request cardSession aid, [request nonProvisioningSession aid])))
      else if hasPrefix aid qcomUSIMAIDPrefix then Ret (request SessionPrimaryGWProvisioning [], [])
      else Ret (request SessionPrimaryGWProvisioning aid, []))"

section \<open>Attempts\<close>

text \<open>\<^verbatim>\<open>errors.Is\<close> on an error of the UIM operations; an error of the request wraps the client's own.\<close>

definition uim_is :: "u16 \<Rightarrow> 'e client_error uim_error \<Rightarrow> bool" where
  "uim_is code e = (case e of QMIError c \<Rightarrow> c = code | RequestFailed ce \<Rightarrow> client_is code ce | _ \<Rightarrow> False)"

text \<open>Session inactive, session invalid, invalid session type, authentication failed, access denied.\<close>

definition retryableQCOMSessionError :: "'e client_error uim_error \<Rightarrow> bool" where
  "retryableQCOMSessionError e \<longleftrightarrow> uim_is 65 e \<or> uim_is 66 e \<or> uim_is 100 e \<or> uim_is 34 e \<or> uim_is 82 e"

text \<open>Only the first candidate can be followed by another, and only after a session error.\<close>

definition first_session ::
  "('c \<Rightarrow> (('t, 'e) QClient, 'e client_error uim_error, 'a) action) \<Rightarrow> 'c \<times> 'c list \<Rightarrow> ('t, 'e, 'a) qcom_action" where
  "first_session op cs =
     and_then (attempt (op (fst cs))) (\<lambda>res.
       case res of
         Ret x \<Rightarrow> done_with x
       | Fail e \<Rightarrow>
           (case snd cs of
              c # _ \<Rightarrow> if retryableQCOMSessionError e then map_action_err ClientFailed (op c) else raise (ClientFailed e)
            | [] \<Rightarrow> raise (ClientFailed e))
       | Panic \<Rightarrow> lifted id Panic)"

definition with_slot :: "(byte \<Rightarrow> ('e qcom_error, 'c) outcome) \<Rightarrow> ('t, 'e, 'c) qcom_action" where
  "with_slot f = and_then get (\<lambda>c. lifted id (f (c_slot c)))"

section \<open>The reader\<close>

definition qcom_FileAttributes :: "('t, 'e, 'w) Transport \<Rightarrow> FileRef \<Rightarrow> ('t, 'e, FileAttributes) qcom_action" where
  "qcom_FileAttributes T fref =
     and_then (with_slot (\<lambda>slot. qcom_files slot fref)) (\<lambda>files.
     and_then (first_session (uim_FileAttributes (uim_requester T)) files) (\<lambda>attrs.
       done_with \<lparr>fa_FileStructure = qa_FileStructure attrs, fa_FileType = qa_FileType attrs, fa_RecordSize = qa_RecordSize attrs,
         fa_RecordCount = qa_RecordCount attrs, fa_FileSize = qa_FileSize attrs\<rparr>))"

definition qcom_ReadTransparent :: "('t, 'e, 'w) Transport \<Rightarrow> FileRef \<Rightarrow> u16 \<Rightarrow> u16 \<Rightarrow> ('t, 'e, bytes) qcom_action" where
  "qcom_ReadTransparent T fref ofs len =
     and_then (with_slot (\<lambda>slot. qcom_files slot fref)) (first_session (\<lambda>f. uim_ReadTransparent (uim_requester T) f ofs len False))"

definition qcom_ReadRecord :: "('t, 'e, 'w) Transport \<Rightarrow> FileRef \<Rightarrow> u16 \<Rightarrow> u16 \<Rightarrow> ('t, 'e, bytes) qcom_action" where
  "qcom_ReadRecord T fref n len =
     and_then (with_slot (\<lambda>slot. qcom_files slot fref)) (first_session (\<lambda>f. uim_ReadRecord (uim_requester T) f n len))"

definition qcom_Authenticate3G :: "('t, 'e, 'w) Transport \<Rightarrow> bytes \<Rightarrow> bytes \<Rightarrow> bytes \<Rightarrow> bool \<Rightarrow> ('t, 'e, bytes) qcom_action" where
  "qcom_Authenticate3G T aid rand autn eapAKA =
     and_then (with_slot (\<lambda>slot. authRequests slot aid rand autn eapAKA)) (first_session (uim_Authenticate (uim_requester T)))"

definition qcom_SMSPPDownload :: "('t, 'e, 'w) Transport \<Rightarrow> bytes \<Rightarrow> bytes \<Rightarrow> ('t, 'e, byte \<times> byte \<times> bytes) qcom_action" where
  "qcom_SMSPPDownload T sca tpdu =
     and_then (lifted DownloadEnvelope (smspp_Envelope sca tpdu)) (\<lambda>envelope. map_action_err CatFailed (SendEnvelope T envelope))"

text \<open>The loop counts in \<^verbatim>\<open>uint16\<close>. Record zero is refused by the client, so a wrapped counter ends the loop.\<close>

fun directory_loop :: "('t, 'e, 'w) Transport \<Rightarrow> FileAttributes \<Rightarrow> nat \<Rightarrow> u16 \<Rightarrow> Application list \<Rightarrow> ('t, 'e, Application list) qcom_action" where
  "directory_loop T attrs 0 recordID apps = (\<lambda>c. None)"
| "directory_loop T attrs (Suc fuel) recordID apps =
     (if recordID \<le> fa_RecordCount attrs
      then and_then (qcom_ReadRecord T \<lparr>fr_AID = [], fr_Path = efDirFile\<rparr> recordID (fa_RecordSize attrs)) (\<lambda>raw.
           and_then (lifted DirectoryRecord (efdir_UnmarshalBinary raw)) (\<lambda>parsed.
             directory_loop T attrs fuel (recordID + 1)
              (if length (rec_AID parsed) = 0 then apps else apps @ [\<lparr>app_AID = rec_AID parsed, app_Label = rec_Label parsed\<rparr>])))
      else done_with apps)"

definition qcom_ListApplications :: "('t, 'e, 'w) Transport \<Rightarrow> nat \<Rightarrow> ('t, 'e, Application list) qcom_action" where
  "qcom_ListApplications T fuel =
     and_then (qcom_FileAttributes T \<lparr>fr_AID = [], fr_Path = efDirFile\<rparr>) (\<lambda>attrs.
       unless (fa_FileStructure attrs \<noteq> StructureLinearFixed) DirectoryStructure (directory_loop T attrs fuel 1 []))"

definition qcom_reader :: "('t, 'e, 'w) Transport \<Rightarrow> nat \<Rightarrow> (('t, 'e) QClient, 'e qcom_error) CardReader" where
  "qcom_reader T fuel =
     \<lparr>rdr_ListApplications = qcom_ListApplications T fuel,
      rdr_FileAttributes = qcom_FileAttributes T,
      rdr_ReadTransparent = qcom_ReadTransparent T,
      rdr_ReadRecord = qcom_ReadRecord T,
      rdr_Authenticate3G = qcom_Authenticate3G T,
      rdr_SMSPPDownload = qcom_SMSPPDownload T\<rparr>"

section \<open>The contract of a card reader\<close>

lemma sessions_no_panic: "qcom_files slot fref \<noteq> Panic" "authRequests slot aid rand autn eap \<noteq> Panic"
  by (auto simp: qcom_files_def authRequests_def qcomCardSession_def qcomNonProvisioningSession_def bind_eq_Panic_iff Let_def)

lemma calm_first_session: "(\<And>c. calm (op c)) \<Longrightarrow> calm (first_session op cs)"
  unfolding first_session_def
  by (rule calm_after_attempt) (auto split: list.splits intro!: calm_map_err)

lemma smspp_Envelope_no_panic: "smspp_Envelope sca tpdu \<noteq> Panic"
  using smspp_no_panic [of sca tpdu] by (auto simp: smspp_MarshalBinary_def)

lemma calm_with_slot: "(\<And>slot. f slot \<noteq> Panic) \<Longrightarrow> calm (with_slot f)"
  unfolding with_slot_def by (simp add: calm_def and_then_def get_def lifted_def)

context calm_transport
begin

lemma calm_qcom_FileAttributes: "calm (qcom_FileAttributes T fref)"
  unfolding qcom_FileAttributes_def
  by (intro calm_and_then calm_with_slot calm_first_session sessions_no_panic uim.calm_attributes calm_done)

lemma calm_qcom_ReadTransparent: "calm (qcom_ReadTransparent T fref ofs len)"
  unfolding qcom_ReadTransparent_def
  by (intro calm_and_then calm_with_slot calm_first_session sessions_no_panic uim.calm_read_transparent)

lemma calm_qcom_ReadRecord: "calm (qcom_ReadRecord T fref n len)"
  unfolding qcom_ReadRecord_def
  by (intro calm_and_then calm_with_slot calm_first_session sessions_no_panic uim.calm_read_record)

lemma calm_qcom_Authenticate3G: "calm (qcom_Authenticate3G T aid rand autn eap)"
  unfolding qcom_Authenticate3G_def
  by (intro calm_and_then calm_with_slot calm_first_session sessions_no_panic uim.calm_authenticate)

lemma calm_qcom_SMSPPDownload: "calm (qcom_SMSPPDownload T sca tpdu)"
  unfolding qcom_SMSPPDownload_def by (intro calm_and_then calm_lifted calm_map_err calm_SendEnvelope smspp_Envelope_no_panic)

lemma calm_directory_loop: "calm (directory_loop T attrs fuel recordID apps)"
proof (induction fuel arbitrary: recordID apps)
  case 0
  then show ?case by (simp add: calm_def)
next
  case (Suc fuel)
  then show ?case by (auto intro!: calm_and_then calm_qcom_ReadRecord calm_lifted simp: efdir_no_panic)
qed

lemma calm_qcom_ListApplications: "calm (qcom_ListApplications T fuel)"
  unfolding qcom_ListApplications_def by (intro calm_and_then calm_qcom_FileAttributes calm_unless calm_directory_loop)

lemma calm_qcom_reader: "card_interface (qcom_reader T fuel)"
  by unfold_locales
    (simp_all add: qcom_reader_def calm_qcom_ListApplications calm_qcom_FileAttributes calm_qcom_ReadTransparent calm_qcom_ReadRecord
      calm_qcom_Authenticate3G calm_qcom_SMSPPDownload)

end

sublocale calm_transport \<subseteq> qcom: card_interface "qcom_reader T fuel" for fuel
  by (rule calm_qcom_reader)



section \<open>Listing the applications ends\<close>

lemma returns_get: "returns get" "returns (modify f)" "returns read_closing" "returns ctx_Err" "returns (on_transport h g)" "returns (client_nextTransactionID s)"
  by (auto simp: returns_def get_def modify_def read_closing_def ctx_Err_def on_transport_def client_nextTransactionID_def Let_def split: list.splits option.splits prod.splits)

lemma returns_deferring: "returns m \<Longrightarrow> returns (deferring g m)"
  by (auto simp: returns_def deferring_def split: option.splits)

lemmas returns_prims = returns_get returns_deferring returns_and_then returns_unless returns_attempt returns_map_err returns_done returns_raise returns_lifted

lemma returns_isOpenLocked: "returns isOpenLocked"
  unfolding isOpenLocked_def by (intro returns_and_then returns_get) (auto intro!: returns_prims)

lemma returns_locked_open: "returns m \<Longrightarrow> returns (locked (when_open m))"
  unfolding locked_def when_open_def by (intro returns_prims returns_isOpenLocked)

lemma returns_sendRequest: "returns (sendRequest T service clientID msg tlvs timeout)"
  unfolding sendRequest_def doRequest_def beginRequest_def Let_def by (intro returns_prims)

lemma returns_releaseLocked: "returns (releaseServiceClientIDLocked T service clientID)"
  unfolding releaseServiceClientIDLocked_def
  by (intro returns_unless returns_and_then returns_sendRequest) (auto intro!: returns_prims split: outcome.split)

lemma returns_settle: "returns (settle_allocation T service p)"
  unfolding settle_allocation_def when_open_def
  by (cases p) (auto intro!: returns_prims returns_releaseLocked returns_isOpenLocked split: outcome.split)

lemma returns_allocateLocked: "returns (allocateServiceClientIDLocked T service)"
  unfolding allocateServiceClientIDLocked_def by (intro returns_prims returns_sendRequest returns_settle)

lemma returns_serviceClientIDLocked: "returns (serviceClientIDLocked T service)"
  unfolding serviceClientIDLocked_def transportClientIDLocked_def beginRequest_def
  by (auto intro!: returns_prims returns_allocateLocked split: option.split)

lemma returns_uim_requester: "returns (uim_requester T msg ts)"
  unfolding uim_requester_def client_request_def
  by (intro returns_prims returns_locked_open returns_serviceClientIDLocked returns_sendRequest)

lemma returns_uim_FileAttributes: "returns (uim_FileAttributes (uim_requester T) f)"
  unfolding uim_FileAttributes_def fileAttributesResponse_def by (intro returns_prims returns_uim_requester)

lemma returns_uim_ReadRecord: "returns (uim_ReadRecord (uim_requester T) f n len)"
  unfolding uim_ReadRecord_def ReadRecords_def recordResponse_def
  by (intro returns_and_then returns_unless) (auto intro!: returns_prims returns_uim_requester returns_uim_FileAttributes)

lemma returns_first_session: "(\<And>c. returns (op c)) \<Longrightarrow> returns (first_session op cs)"
  unfolding first_session_def
  by (intro returns_and_then returns_attempt) (auto intro!: returns_prims split: outcome.split list.split)

lemma returns_with_slot: "returns (with_slot f)"
  unfolding with_slot_def by (intro returns_prims)

lemma returns_qcom_FileAttributes: "returns (qcom_FileAttributes T fref)"
  unfolding qcom_FileAttributes_def
  by (intro returns_and_then returns_with_slot returns_first_session returns_uim_FileAttributes returns_done)

lemma returns_qcom_ReadRecord: "returns (qcom_ReadRecord T fref n len)"
  unfolding qcom_ReadRecord_def by (intro returns_and_then returns_with_slot returns_first_session returns_uim_ReadRecord)

text \<open>There is no record zero.\<close>

lemma yields_first_session: "(\<And>c. yields (op c) Q) \<Longrightarrow> yields (first_session op cs) Q"
  unfolding first_session_def
  by (rule yields_and_then [OF yields_attempt [of _ Q]]) (auto intro!: yields_done yields_map_err yields_raise yields_lifted split: outcome.split list.split)

lemma yields_qcom_ReadRecord: "yields (qcom_ReadRecord T fref n len) (\<lambda>_. n \<noteq> 0)"
  unfolding qcom_ReadRecord_def
proof (intro yields_and_then [OF yields_True] yields_first_session)
  fix f
  show "yields (uim_ReadRecord (uim_requester T) f n len) (\<lambda>_. n \<noteq> 0)"
    unfolding uim_ReadRecord_def by (rule yields_and_then [OF yields_records]) (auto simp: yields_def)
qed

lemma directory_loop_zero: "0 < fuel \<Longrightarrow> directory_loop T attrs fuel 0 apps c \<noteq> None"
proof -
  assume "0 < fuel"
  then obtain k where k: "fuel = Suc k" by (cases fuel) auto
  have "\<And>x c'. qcom_ReadRecord T \<lparr>fr_AID = [], fr_Path = efDirFile\<rparr> 0 (fa_RecordSize attrs) c \<noteq> Some (Ret x, c')"
    using yields_qcom_ReadRecord [of T _ 0] by (auto simp: yields_def)
  moreover have "qcom_ReadRecord T \<lparr>fr_AID = [], fr_Path = efDirFile\<rparr> 0 (fa_RecordSize attrs) c \<noteq> None"
    by (rule returnsD [OF returns_qcom_ReadRecord])
  ultimately show ?thesis by (auto simp: k and_then_def done_with_def split: option.splits outcome.splits)
qed

lemma directory_loop_returns: "recordID \<noteq> 0 \<Longrightarrow> 65537 \<le> fuel + unat recordID \<Longrightarrow> directory_loop T attrs fuel recordID apps c \<noteq> None"
proof (induction fuel arbitrary: recordID apps c)
  case 0
  then show ?case using unat_u16_lt [of recordID] by simp
next
  case (Suc fuel)
  have rest: "directory_loop T attrs fuel (recordID + 1) apps' c' \<noteq> None" for apps' c'
  proof (cases "recordID + 1 = 0")
    case True
    then have "unat (recordID + 1) = 0" by simp
    then have "Suc (unat recordID) mod 65536 = 0" by (simp add: unat_word_ariths)
    then have "unat recordID = 65535" using unat_u16_lt [of recordID] by (cases "Suc (unat recordID) < 65536") (auto simp del: unat_u16_lt)
    then show ?thesis using directory_loop_zero [of fuel] Suc.prems(2) True by simp
  next
    case False
    have "unat recordID \<noteq> 65535"
    proof
      assume "unat recordID = 65535"
      then have "unat (recordID + 1) = 0" by (simp add: unat_word_ariths)
      with False show False by (simp add: unat_eq_zero)
    qed
    then have "unat (recordID + 1) = Suc (unat recordID)" using unat_u16_lt [of recordID] by (intro u16_plus_1) linarith
    then show ?thesis using Suc.IH [OF False] Suc.prems(2) by simp
  qed
  then have "returns (directory_loop T attrs fuel (recordID + 1) apps')" for apps' by (simp add: returns_def)
  then have "returns (directory_loop T attrs (Suc fuel) recordID apps)" by (auto intro!: returns_and_then returns_qcom_ReadRecord)
  then show ?case by (rule returnsD)
qed

text \<open>\<^verbatim>\<open>ListApplications\<close> over QMI returns for every record count a card can report: its 16-bit counter wraps on
  65535 records, but the client refuses record zero, so the loop makes at most 65536 reads. (Fuel
  65537: one step per value of the counter and one for the end.)\<close>

theorem qcom_list_applications_returns:
  assumes "65537 \<le> fuel"
  shows "qcom_ListApplications T fuel c \<noteq> None"
proof -
  have "directory_loop T attrs fuel 1 [] c' \<noteq> None" for attrs c' using assms by (intro directory_loop_returns) simp_all
  then have "returns (directory_loop T attrs fuel 1 [])" for attrs by (simp add: returns_def)
  then have "returns (qcom_ListApplications T fuel)"
    unfolding qcom_ListApplications_def by (intro returns_and_then returns_qcom_FileAttributes returns_unless)
  then show ?thesis by (rule returnsD)
qed

theorem qcom_list_applications_returns_witness: "qcom_ListApplications rm_transport 65537 rm_client \<noteq> None"
  by (rule qcom_list_applications_returns) simp

end
