(* ===== verification/Modem_Connect.thy ===== *)
theory Modem_Connect
  imports Actions Sms_Pdu "HOL-Library.List_Lexorder" "HOL-Library.Product_Lexorder"
begin

text \<open>
  How \<^verbatim>\<open>modem/modem.go\<close> brings a modem to the point where a data session can be started: the checks of
  the configuration, the network port (\<^verbatim>\<open>modem/network_interface.go\<close>), unlocking the SIM, power,
  registration, packet attachment, and polling under a context. The data types are those of
  \<^verbatim>\<open>modem/contract/types.go\<close>; strings are their bytes.

  The protocol backend is a parameter: a record of its methods. A call takes some time and changes the
  device. The run keeps a clock, so that contexts, their deadlines and the polling interval are real,
  and a log of what was seen and asked.
\<close>

section \<open>Contract types\<close>

datatype Protocol = ProtocolUnknown | ProtocolQMI | ProtocolMBIM

datatype PowerState = PowerStateUnknown | PowerStateOff | PowerStateLow | PowerStateOn

datatype SIMState = SIMStateUnknown | SIMStateAbsent | SIMStateLocked | SIMStateReady | SIMStateFailure

datatype RegistrationState =
    RegistrationUnknown
  | RegistrationIdle
  | RegistrationSearching
  | RegistrationHome
  | RegistrationRoaming
  | RegistrationDenied

datatype PacketServiceState =
    PacketServiceUnknown
  | PacketServiceAttaching
  | PacketServiceAttached
  | PacketServiceDetaching
  | PacketServiceDetached

datatype BusType = BusUnknown | BusUSB | BusPlatform

datatype PortType = PortUnknown | PortQMI | PortMBIM | PortAT | PortNetwork | PortGPS | PortQCDM | PortDebug | PortAudio

datatype PortRole = PortRoleUnknown | PortRolePrimary | PortRoleSecondary | PortRolePPP

datatype QMIEndpointType =
    QMIEndpointUnknown
  | QMIEndpointHSIC
  | QMIEndpointHSUSB
  | QMIEndpointPCIe
  | QMIEndpointEmbedded
  | QMIEndpointBAMDMUX

text \<open>The bits of \<^verbatim>\<open>IPFamily\<close>: \<^verbatim>\<open>1 << iota\<close> starts in the second line of its block.\<close>

definition IPFamilyIPv4 :: byte where "IPFamilyIPv4 = 2"
definition IPFamilyIPv6 :: byte where "IPFamilyIPv6 = 4"
definition IPFamilyIPv4v6 :: byte where "IPFamilyIPv4v6 = IPFamilyIPv4 OR IPFamilyIPv6"

definition APNTypeAny :: u64 where "APNTypeAny = 1 OR 2 OR 4 OR 8 OR 16 OR 32"

record QMIEndpoint =
  e_Type :: QMIEndpointType
  e_InterfaceNumber :: u32
  e_SIOPort :: u16

record USBInterface =
  u_Valid :: bool
  u_Number :: byte
  u_Class :: byte
  u_Subclass :: byte
  u_Protocol :: byte

record Port =
  p_Type :: PortType
  p_Role :: PortRole
  p_Name :: bytes
  p_Path :: bytes
  p_SysPath :: bytes
  p_Subsystem :: bytes
  p_Driver :: bytes
  p_USB :: USBInterface
  p_QMIEndpoint :: QMIEndpoint
  p_ControlPath :: bytes

record Device =
  d_PhysicalPath :: bytes
  d_Bus :: BusType
  d_USB :: "u16 \<times> u16"
  d_Ports :: "Port list"

record SIMPINStatus =
  ps_Supported :: bool
  ps_Enabled :: bool
  ps_EnabledKnown :: bool
  ps_Lock :: bytes
  ps_PINRetries :: u32
  ps_PINRetriesKnown :: bool
  ps_PUKRetries :: u32
  ps_PUKRetriesKnown :: bool

record SIMInfo =
  si_PINStatus :: SIMPINStatus
  si_State :: SIMState
  si_Slot :: byte
  si_ICCID :: bytes
  si_IMSI :: bytes
  si_EID :: bytes
  si_OperatorID :: bytes
  si_OperatorName :: bytes
  si_GID1 :: bytes
  si_SPN :: bytes
  si_ATR :: bytes
  si_OwnNumbers :: "bytes list"
  si_PINRetries :: byte
  si_PUKRetries :: byte

record NetworkStatus =
  ns_Registration :: RegistrationState
  ns_PacketService :: PacketServiceState
  ns_Technology :: u64
  ns_Available :: u64
  ns_OperatorID :: bytes
  ns_OperatorName :: bytes
  ns_RoamingText :: bytes
  ns_LocationAreaCode :: u32
  ns_TrackingAreaCode :: u32
  ns_CellID :: u64
  ns_UplinkBitsPerSecond :: u64
  ns_DownlinkBitsPerSecond :: u64

text \<open>The profile number is an \<^verbatim>\<open>int32\<close>, of which only the sign and zero matter here.\<close>

record ConnectConfig =
  cc_PIN :: bytes
  cc_OperatorID :: bytes
  cc_ProfileID :: int
  cc_APN :: bytes
  cc_Authentication :: byte
  cc_Username :: bytes
  cc_Password :: bytes
  cc_IPFamily :: byte
  cc_Interface :: bytes
  cc_SessionID :: "u32 option"

definition Port_Protocol :: "Port \<Rightarrow> Protocol" where
  "Port_Protocol p = (case p_Type p of PortQMI \<Rightarrow> ProtocolQMI | PortMBIM \<Rightarrow> ProtocolMBIM | _ \<Rightarrow> ProtocolUnknown)"

section \<open>Errors\<close>

datatype ctx_error = Canceled | DeadlineExceeded

datatype 'e modem_error =
    ErrClosed
  | ErrNotSupported
  | BackendFailed 'e
  | ContextErr ctx_error
  | NegativeProfile int
  | ProfileAndInline
  | BadIPFamily byte
  | BadAPNType u64
  | BadFacility byte
  | BadKeyLength nat
  | BadKeyCharacter
  | NumberEmpty
  | TextAndData
  | TextAndDataEmpty
  | ZeroSlot
  | BadPacketState PacketServiceState
  | EmptyPDU
  | EmptyText
  | DiscoverFailed 'e
  | NotAssociated bytes bytes
  | NoInterfaces
  | SettingPower "'e modem_error"
  | WaitingForPower PowerState "'e modem_error"
  | WaitingForSIM "'e modem_error"
  | WaitingForRegistration "'e modem_error"
  | WaitingForAttach "'e modem_error"
  | JoinedErrors "'e modem_error list"

section \<open>Checks of the arguments\<close>

definition validateConnectConfig :: "ConnectConfig \<Rightarrow> ('e modem_error, unit) outcome" where
  "validateConnectConfig cfg =
     fail_if (cc_ProfileID cfg < 0) (NegativeProfile (cc_ProfileID cfg))
      (fail_if (cc_ProfileID cfg \<noteq> 0 \<and> (cc_APN cfg \<noteq> [] \<or> cc_Username cfg \<noteq> [] \<or> cc_Password cfg \<noteq> [] \<or> cc_Authentication cfg \<noteq> 0))
        ProfileAndInline
        (fail_if (cc_IPFamily cfg \<noteq> 0 \<and> cc_IPFamily cfg AND NOT IPFamilyIPv4v6 \<noteq> 0) (BadIPFamily (cc_IPFamily cfg))
          (Ret ())))"

definition FacilityNetwork :: byte where "FacilityNetwork = 1"
definition FacilityCorporate :: byte where "FacilityCorporate = 4"

definition validateFacilityKey :: "byte \<Rightarrow> bytes \<Rightarrow> ('e modem_error, unit) outcome" where
  "validateFacilityKey facility key =
     fail_if (facility < FacilityNetwork \<or> facility > FacilityCorporate) (BadFacility facility)
      (fail_if (key = [] \<or> 8 < length key) (BadKeyLength (length key))
        (fail_if (\<exists>c \<in> set key. c = 0 \<or> c > 0x7F) BadKeyCharacter
          (Ret ())))"

definition validateMessageConfig :: "MessageConfig \<Rightarrow> ('e modem_error, unit) outcome" where
  "validateMessageConfig cfg =
     fail_if (mc_Number cfg = []) NumberEmpty
      (fail_if (mc_Text cfg \<noteq> [] \<and> mc_Data cfg \<noteq> []) TextAndData
        (fail_if (mc_Text cfg = [] \<and> mc_Data cfg = []) TextAndDataEmpty
          (Ret ())))"

definition powerStateReached :: "Protocol \<Rightarrow> PowerState \<Rightarrow> PowerState \<Rightarrow> bool" where
  "powerStateReached protocol requested current =
     (current = requested \<or> protocol = ProtocolMBIM \<and> requested = PowerStateOff \<and> current = PowerStateLow)"

section \<open>The network port of a control port\<close>

definition bamDMUXDriverName :: bytes where "bamDMUXDriverName = [0x62, 0x61, 0x6D, 0x2D, 0x64, 0x6D, 0x75, 0x78]"
definition ipaDriverName :: bytes where "ipaDriverName = [0x69, 0x70, 0x61]"

definition isQCOMSoCNetworkPort :: "Port \<Rightarrow> bool" where
  "isQCOMSoCNetworkPort p \<longleftrightarrow> p_Driver p = bamDMUXDriverName \<or> p_Driver p = ipaDriverName"

definition is_control :: "bytes \<Rightarrow> Port \<Rightarrow> bool" where
  "is_control path p \<longleftrightarrow> p_Path p = path \<and> (p_Type p = PortQMI \<or> p_Type p = PortMBIM)"

definition exact_ports :: "bytes \<Rightarrow> Device \<Rightarrow> Port list" where
  "exact_ports path d = [p \<leftarrow> d_Ports d. p_Type p = PortNetwork \<and> p_ControlPath p = path]"

definition platform_ports :: "bytes \<Rightarrow> Port \<Rightarrow> Device \<Rightarrow> Port list" where
  "platform_ports path ctl d =
     [p \<leftarrow> d_Ports d. p_Type p = PortNetwork \<and> p_ControlPath p \<noteq> path \<and>
        d_Bus d = BusPlatform \<and> p_Type ctl = PortQMI \<and> isQCOMSoCNetworkPort p]"

text \<open>
  \<^verbatim>\<open>slices.SortFunc\<close> by interface number and then by name; two ports with the same number and name
  stay in the order of discovery, which \<^verbatim>\<open>SortFunc\<close> leaves open.
\<close>

definition port_key :: "Port \<Rightarrow> u32 \<times> bytes" where
  "port_key p = (e_InterfaceNumber (p_QMIEndpoint p), p_Name p)"

fun networkPortsForControlPort :: "Device list \<Rightarrow> bytes \<Rightarrow> Port list" where
  "networkPortsForControlPort [] path = []"
| "networkPortsForControlPort (d # ds) path =
     (case find (is_control path) (d_Ports d) of
        None \<Rightarrow> networkPortsForControlPort ds path
      | Some ctl \<Rightarrow>
          let exact = exact_ports path d
          in sort_key port_key (if exact = [] then platform_ports path ctl d else exact))"

definition networkInterfacesForControlPort :: "Device list \<Rightarrow> bytes \<Rightarrow> bytes list" where
  "networkInterfacesForControlPort devices path = map p_Name (networkPortsForControlPort devices path)"

definition named_network_port :: "bytes \<Rightarrow> Port" where
  "named_network_port name =
     \<lparr>p_Type = PortNetwork, p_Role = PortRoleUnknown, p_Name = name, p_Path = [], p_SysPath = [],
      p_Subsystem = [0x6E, 0x65, 0x74], p_Driver = [],
      p_USB = \<lparr>u_Valid = False, u_Number = 0, u_Class = 0, u_Subclass = 0, u_Protocol = 0\<rparr>,
      p_QMIEndpoint = \<lparr>e_Type = QMIEndpointUnknown, e_InterfaceNumber = 0, e_SIOPort = 0\<rparr>, p_ControlPath = []\<rparr>"

definition selectNetworkPortFromDevices :: "Device list \<Rightarrow> bytes \<Rightarrow> bytes \<Rightarrow> ('e modem_error, Port) outcome" where
  "selectNetworkPortFromDevices devices path requested =
     (let ports = networkPortsForControlPort devices path in
      if requested \<noteq> [] then
        if ports = [] then Ret (named_network_port requested)
        else (case find (\<lambda>p. p_Name p = requested) ports of
                Some p \<Rightarrow> Ret p
              | None \<Rightarrow> Fail (NotAssociated requested path))
      else fail_if (ports = []) NoInterfaces (Ret (hd ports)))"

section \<open>Time and contexts\<close>

text \<open>
  The clock counts nanoseconds. A context ends when it is cancelled or at its deadline, whichever comes
  first; the cancellation is a time the environment has chosen.
\<close>

definition connectPollInterval :: int where "connectPollInterval = 250000000"
definition powerStatePollInterval :: int where "powerStatePollInterval = 1000000000"
definition powerStateChangeTimeout :: int where "powerStateChangeTimeout = 30000000000"

record Ctx =
  x_cancelled :: "int option"
  x_deadline :: "int option"

definition ctx_err :: "Ctx \<Rightarrow> int \<Rightarrow> ctx_error option" where
  "ctx_err x now =
     (case x_cancelled x of
        Some t \<Rightarrow>
          if t \<le> now \<and> (case x_deadline x of None \<Rightarrow> True | Some d \<Rightarrow> t \<le> d) then Some Canceled
          else (case x_deadline x of None \<Rightarrow> None | Some d \<Rightarrow> if d \<le> now then Some DeadlineExceeded else None)
      | None \<Rightarrow> (case x_deadline x of None \<Rightarrow> None | Some d \<Rightarrow> if d \<le> now then Some DeadlineExceeded else None))"

definition WithTimeout :: "int \<Rightarrow> int \<Rightarrow> Ctx \<Rightarrow> Ctx" where
  "WithTimeout now d x =
     x\<lparr>x_deadline := Some (case x_deadline x of None \<Rightarrow> now + d | Some d' \<Rightarrow> min d' (now + d))\<rparr>"

text \<open>The first time at which the context is done, if there is one.\<close>

definition ctx_end :: "Ctx \<Rightarrow> int option" where
  "ctx_end x =
     (case (x_cancelled x, x_deadline x) of
        (None, None) \<Rightarrow> None
      | (Some t, None) \<Rightarrow> Some t
      | (None, Some d) \<Rightarrow> Some d
      | (Some t, Some d) \<Rightarrow> Some (min t d))"

section \<open>The backend and the run\<close>

type_synonym ('w, 'e, 'a) backend_call = "'w \<Rightarrow> ('e, 'a) outcome \<times> nat \<times> 'w"

record ('w, 'e, 's) Backend =
  b_SIMInfo :: "('w, 'e, SIMInfo) backend_call"
  b_SendPIN :: "bytes \<Rightarrow> ('w, 'e, unit) backend_call"
  b_PowerState :: "('w, 'e, PowerState) backend_call"
  b_SetPowerState :: "PowerState \<Rightarrow> ('w, 'e, unit) backend_call"
  b_NetworkStatus :: "('w, 'e, NetworkStatus) backend_call"
  b_Register :: "bytes \<Rightarrow> ('w, 'e, unit) backend_call"
  b_SetPacketServiceState :: "PacketServiceState \<Rightarrow> ('w, 'e, unit) backend_call"
  b_Connect :: "ConnectConfig \<Rightarrow> ('w, 'e, 's) backend_call"
  b_ConnectPort :: "(ConnectConfig \<Rightarrow> Port \<Rightarrow> ('w, 'e, 's) backend_call) option"

datatype event =
    SawSIM SIMInfo
  | SentPIN bytes
  | SawPower PowerState
  | AskedPower PowerState
  | SawNetwork NetworkStatus
  | AskedRegister bytes
  | AskedPacketService PacketServiceState
  | StartedSession ConnectConfig Port

record 'w Run =
  r_now :: int
  r_device :: 'w
  r_log :: "event list"

type_synonym ('w, 'e, 'a) run_action = "('w Run, 'e modem_error, 'a) action"

text \<open>A call of the backend: a query logs the value it gave, a command is logged as it is sent.\<close>

definition queries :: "('a \<Rightarrow> event) \<Rightarrow> ('w, 'e, 'a) backend_call \<Rightarrow> ('w, 'e, 'a) run_action" where
  "queries see f r =
     (case f (r_device r) of (res, d, w) \<Rightarrow>
        Some (map_err BackendFailed res,
              \<lparr>r_now = r_now r + int d, r_device = w, r_log = r_log r @ (case res of Ret v \<Rightarrow> [see v] | _ \<Rightarrow> [])\<rparr>))"

definition commands :: "event \<Rightarrow> ('w, 'e, 'a) backend_call \<Rightarrow> ('w, 'e, 'a) run_action" where
  "commands ev f r =
     (case f (r_device r) of (res, d, w) \<Rightarrow>
        Some (map_err BackendFailed res, \<lparr>r_now = r_now r + int d, r_device = w, r_log = r_log r @ [ev]\<rparr>))"

definition ctx_check :: "Ctx \<Rightarrow> ('w, 'e, unit) run_action" where
  "ctx_check x r = (case ctx_err x (r_now r) of None \<Rightarrow> Some (Ret (), r) | Some e \<Rightarrow> Some (Fail (ContextErr e), r))"

text \<open>
  The \<^verbatim>\<open>select\<close> on the timer and \<^verbatim>\<open>ctx.Done()\<close>. When both are ready at once Go may take either; the timer
  then only leads to the check at the head of the loop, with the same error.
\<close>

definition sleep :: "Ctx \<Rightarrow> int \<Rightarrow> ('w, 'e, unit) run_action" where
  "sleep x interval r =
     (let t = (case ctx_end x of Some e \<Rightarrow> if e \<le> r_now r + interval then max e (r_now r) else r_now r + interval
                               | None \<Rightarrow> r_now r + interval)
      in ctx_check x (r\<lparr>r_now := t\<rparr>))"

text \<open>The loop runs on fuel; \<open>pollUntil_returns\<close> below gives the amount that is enough.\<close>

fun pollUntil :: "nat \<Rightarrow> Ctx \<Rightarrow> int \<Rightarrow> ('w, 'e, 'a) run_action \<Rightarrow> ('a \<Rightarrow> bool) \<Rightarrow> ('w, 'e, 'a) run_action" where
  "pollUntil 0 x interval query ready = (\<lambda>r. None)"
| "pollUntil (Suc n) x interval query ready =
     and_then (ctx_check x) (\<lambda>_.
     and_then query (\<lambda>v.
     and_then (ctx_check x) (\<lambda>_.
       if ready v then done_with v
       else and_then (sleep x interval) (\<lambda>_. pollUntil n x interval query ready))))"

section \<open>Connecting\<close>

definition setPowerState :: "nat \<Rightarrow> Ctx \<Rightarrow> Protocol \<Rightarrow> ('w, 'e, 's) Backend \<Rightarrow> PowerState \<Rightarrow> ('w, 'e, unit) run_action" where
  "setPowerState n x protocol b state =
     and_then (map_action_err SettingPower (commands (AskedPower state) (b_SetPowerState b state))) (\<lambda>_.
     and_then get (\<lambda>r.
     and_then (map_action_err (WaitingForPower state)
       (pollUntil n (WithTimeout (r_now r) powerStateChangeTimeout x) powerStatePollInterval
         (queries SawPower (b_PowerState b)) (powerStateReached protocol state))) (\<lambda>_.
     done_with ())))"

definition unlock_sim :: "nat \<Rightarrow> Ctx \<Rightarrow> ('w, 'e, 's) Backend \<Rightarrow> ConnectConfig \<Rightarrow> ('w, 'e, unit) run_action" where
  "unlock_sim n x b cfg =
     (if cc_PIN cfg = [] then done_with ()
      else and_then (queries SawSIM (b_SIMInfo b)) (\<lambda>info.
        if si_State info \<noteq> SIMStateLocked then done_with ()
        else and_then (commands (SentPIN (cc_PIN cfg)) (b_SendPIN b (cc_PIN cfg))) (\<lambda>_.
             and_then (map_action_err WaitingForSIM
               (pollUntil n x connectPollInterval (queries SawSIM (b_SIMInfo b)) (\<lambda>info. si_State info = SIMStateReady))) (\<lambda>_.
             done_with ()))))"

definition power_on :: "nat \<Rightarrow> Ctx \<Rightarrow> Protocol \<Rightarrow> ('w, 'e, 's) Backend \<Rightarrow> ('w, 'e, unit) run_action" where
  "power_on n x protocol b =
     and_then (queries SawPower (b_PowerState b)) (\<lambda>power.
       if power \<noteq> PowerStateOn then setPowerState n x protocol b PowerStateOn else done_with ())"

definition is_registered :: "NetworkStatus \<Rightarrow> bool" where
  "is_registered status \<longleftrightarrow> ns_Registration status = RegistrationHome \<or> ns_Registration status = RegistrationRoaming"

definition wrong_operator :: "ConnectConfig \<Rightarrow> NetworkStatus \<Rightarrow> bool" where
  "wrong_operator cfg status \<longleftrightarrow> cc_OperatorID cfg \<noteq> [] \<and> ns_OperatorID status \<noteq> cc_OperatorID cfg"

definition register_network :: "nat \<Rightarrow> Ctx \<Rightarrow> ('w, 'e, 's) Backend \<Rightarrow> ConnectConfig \<Rightarrow> ('w, 'e, NetworkStatus) run_action" where
  "register_network n x b cfg =
     and_then (queries SawNetwork (b_NetworkStatus b)) (\<lambda>network.
       if \<not> is_registered network \<or> wrong_operator cfg network then
         and_then (commands (AskedRegister (cc_OperatorID cfg)) (b_Register b (cc_OperatorID cfg))) (\<lambda>_.
         map_action_err WaitingForRegistration
           (pollUntil n x connectPollInterval (queries SawNetwork (b_NetworkStatus b))
             (\<lambda>status. is_registered status \<and> (cc_OperatorID cfg = [] \<or> ns_OperatorID status = cc_OperatorID cfg))))
       else done_with network)"

definition attach_packet :: "nat \<Rightarrow> Ctx \<Rightarrow> ('w, 'e, 's) Backend \<Rightarrow> NetworkStatus \<Rightarrow> ('w, 'e, unit) run_action" where
  "attach_packet n x b network =
     (if ns_PacketService network \<noteq> PacketServiceAttached then
        and_then (commands (AskedPacketService PacketServiceAttached) (b_SetPacketServiceState b PacketServiceAttached)) (\<lambda>_.
        and_then (map_action_err WaitingForAttach
          (pollUntil n x connectPollInterval (queries SawNetwork (b_NetworkStatus b))
            (\<lambda>status. ns_PacketService status = PacketServiceAttached))) (\<lambda>_.
        done_with ()))
      else done_with ())"

definition start_session :: "('w, 'e, 's) Backend \<Rightarrow> ConnectConfig \<Rightarrow> Port \<Rightarrow> ('w, 'e, 's) run_action" where
  "start_session b cfg port =
     commands (StartedSession cfg port)
       (case b_ConnectPort b of Some f \<Rightarrow> f cfg port | None \<Rightarrow> b_Connect b cfg)"

text \<open>
  \<^verbatim>\<open>Connect\<close> up to the session: what it does before it takes the modem's lock again. The checks that come
  first, of the configuration and of the modem, are \<open>validateConnectConfig\<close> and \<open>currentBackend\<close>.
\<close>

definition connect_session ::
  "nat \<Rightarrow> Ctx \<Rightarrow> Port \<Rightarrow> ('e, Device list) outcome \<Rightarrow> ('w, 'e, 's) Backend \<Rightarrow> ConnectConfig \<Rightarrow> ('w, 'e, 's) run_action" where
  "connect_session n x control discovered b cfg0 =
     and_then (lifted (\<lambda>e. e) (bind (map_err DiscoverFailed discovered) (\<lambda>devices.
       selectNetworkPortFromDevices devices (p_Path control) (cc_Interface cfg0)))) (\<lambda>port.
     let cfg = cfg0\<lparr>cc_Interface := p_Name port\<rparr> in
     and_then (unlock_sim n x b cfg) (\<lambda>_.
     and_then (power_on n x (Port_Protocol control) b) (\<lambda>_.
     and_then (register_network n x b cfg) (\<lambda>network.
     and_then (attach_packet n x b network) (\<lambda>_.
     start_session b cfg port)))))"

section \<open>Polling ends with its context\<close>

lemma ctx_err_None_iff: "ctx_err x now = None \<longleftrightarrow> (case ctx_end x of None \<Rightarrow> True | Some e \<Rightarrow> now < e)"
  by (auto simp: ctx_err_def ctx_end_def split: option.splits)

lemma ctx_end_WithTimeout: "\<exists>e. ctx_end (WithTimeout now d x) = Some e \<and> e \<le> now + d"
  by (auto simp: ctx_end_def WithTimeout_def split: option.splits)

lemma ctx_end_WithTimeout_le: "ctx_end x = Some e \<Longrightarrow> \<exists>e'. ctx_end (WithTimeout now d x) = Some e' \<and> e' \<le> e"
  by (auto simp: ctx_end_def WithTimeout_def split: option.splits)

text \<open>Time only goes on: a later clock and an earlier end of the context both need less fuel.\<close>

definition later :: "('w, 'e, 'a) run_action \<Rightarrow> bool" where
  "later m \<longleftrightarrow> (\<forall>r. \<exists>res r'. m r = Some (res, r') \<and> r_now r \<le> r_now r')"

lemma later_queries: "later (queries see f)"
  by (auto simp: later_def queries_def split: prod.splits)

lemma later_commands: "later (commands ev f)"
  by (auto simp: later_def commands_def split: prod.splits)

lemma sleep_cases:
  "0 < interval \<Longrightarrow> ctx_end x = Some e \<Longrightarrow>
   (\<exists>r'. sleep x interval r = Some (Ret (), r') \<and> r_now r' = r_now r + interval \<and> r_now r' < e) \<or>
   (\<exists>err r'. sleep x interval r = Some (Fail err, r') \<and> r_now r \<le> r_now r')"
  using ctx_err_None_iff [of x "max e (r_now r)"] ctx_err_None_iff [of x "r_now r + interval"]
  by (cases "e \<le> r_now r + interval") (auto simp: sleep_def ctx_check_def split: option.splits)

lemma pollUntil_ends:
  fixes query :: "('w, 'e, 'a) run_action"
  assumes "later query" "0 < interval" "ctx_end x = Some e"
  shows "0 < n \<Longrightarrow> e \<le> r_now r + interval * int n \<Longrightarrow>
    \<exists>res r'. pollUntil n x interval query ready r = Some (res, r') \<and> r_now r \<le> r_now r'"
proof (induction n arbitrary: r)
  case (Suc n)
  from assms(1) obtain res r1 where q: "query r = Some (res, r1)" "r_now r \<le> r_now r1"
    unfolding later_def by blast
  have bound: "e \<le> r_now r1 + interval + interval * int n"
    using Suc.prems(2) q(2) by (simp add: algebra_simps)
  let ?sleep = "sleep x interval :: ('w, 'e, unit) run_action"
  let ?again = "and_then ?sleep (\<lambda>_. pollUntil n x interval query ready)"
  consider (slept) r2 where "?sleep r1 = Some (Ret (), r2)" "r_now r2 = r_now r1 + interval" "r_now r2 < e"
    | (ended) err r2 where "?sleep r1 = Some (Fail err, r2)" "r_now r1 \<le> r_now r2"
    using sleep_cases [OF assms(2, 3)] by blast
  then have again: "\<exists>res' r'. ?again r1 = Some (res', r') \<and> r_now r \<le> r_now r'"
  proof cases
    case slept
    with bound have "0 < n" by (cases n) auto
    then obtain res' r' where "pollUntil n x interval query ready r2 = Some (res', r')" "r_now r2 \<le> r_now r'"
      using Suc.IH [of r2] bound slept(2) by auto
    then show ?thesis using slept q assms(2) by (auto simp: and_then_def)
  qed (use q in \<open>auto simp: and_then_def\<close>)
  show ?case
  proof (cases res)
    case (Ret v)
    let ?rest = "and_then (ctx_check x) (\<lambda>_. if ready v then done_with v else ?again)"
    have "\<exists>res' r'. ?rest r1 = Some (res', r') \<and> r_now r \<le> r_now r'"
      using again q(2) by (cases "ctx_err x (r_now r1)") (simp_all add: and_then_def [of "ctx_check x"] ctx_check_def done_with_def)
    then show ?thesis
      using q Ret by (cases "ctx_err x (r_now r)") (simp_all add: and_then_def [of "ctx_check x"] and_then_def [of query] ctx_check_def)
  qed (use q in \<open>auto simp: and_then_def ctx_check_def split: option.splits\<close>)
qed simp

text \<open>Every stage returns and leaves the clock no earlier, given fuel for what is left of its context.\<close>

lemma later_done: "later (done_with v)"
  by (simp add: later_def done_with_def)

definition ends_by :: "int \<Rightarrow> int \<Rightarrow> nat \<Rightarrow> ('w, 'e, 'a) run_action \<Rightarrow> bool" where
  "ends_by interval e n m \<longleftrightarrow>
     (\<forall>r. e \<le> r_now r + interval * int n \<longrightarrow> (\<exists>res r'. m r = Some (res, r') \<and> r_now r \<le> r_now r'))"

lemma ends_by_later: "later m \<Longrightarrow> ends_by interval e n m"
  by (auto simp: later_def ends_by_def)

lemma ends_by_and_then:
  fixes m :: "('w, 'e, 'a) run_action"
  assumes "ends_by interval e n m" "\<And>v. ends_by interval e n (f v)"
  shows "ends_by interval e n (and_then m f)"
  unfolding ends_by_def
proof (intro allI impI)
  fix r :: "'w Run"
  assume r: "e \<le> r_now r + interval * int n"
  with assms(1) obtain res r1 where m: "m r = Some (res, r1)" "r_now r \<le> r_now r1"
    unfolding ends_by_def by blast
  show "\<exists>res r'. and_then m f r = Some (res, r') \<and> r_now r \<le> r_now r'"
  proof (cases res)
    case (Ret v)
    have "e \<le> r_now r1 + interval * int n" using r m(2) by simp
    then obtain res' r' where "f v r1 = Some (res', r')" "r_now r1 \<le> r_now r'"
      using assms(2) [of v] unfolding ends_by_def by blast
    with m Ret show ?thesis by (auto simp: and_then_def)
  qed (use m in \<open>auto simp: and_then_def\<close>)
qed

lemma ends_by_map_err: "ends_by interval e n m \<Longrightarrow> ends_by interval e n (map_action_err h m)"
  by (fastforce simp: ends_by_def map_action_err_def)

lemma ends_by_poll:
  "later query \<Longrightarrow> 0 < interval \<Longrightarrow> ctx_end x = Some e \<Longrightarrow> 0 < n \<Longrightarrow> ends_by interval e n (pollUntil n x interval query ready)"
  unfolding ends_by_def using pollUntil_ends by blast

lemma ends_by_if: "(c \<Longrightarrow> ends_by interval e n m) \<Longrightarrow> (\<not> c \<Longrightarrow> ends_by interval e n m') \<Longrightarrow> ends_by interval e n (if c then m else m')"
  by simp

lemma later_and_then: "later m \<Longrightarrow> (\<And>v. later (f v)) \<Longrightarrow> later (and_then m f)"
  using ends_by_and_then [of 0 _ 0 m f] unfolding later_def ends_by_def by (metis mult_zero_left add_0_right order_refl)

lemma later_map_err: "later m \<Longrightarrow> later (map_action_err h m)"
  by (fastforce simp: later_def map_action_err_def)

lemma later_get_then: "(\<And>r. \<exists>res r'. f r r = Some (res, r') \<and> r_now r \<le> r_now r') \<Longrightarrow> later (and_then get f)"
  by (simp add: later_def and_then_def get_def)

lemma later_setPowerState:
  fixes b :: "('w, 'e, 's) Backend"
  assumes "30 \<le> n"
  shows "later (setPowerState n x protocol b state)"
  unfolding setPowerState_def
proof (rule later_and_then [OF later_map_err [OF later_commands] later_get_then])
  fix r :: "'w Run"
  let ?poll = "map_action_err (WaitingForPower state) (pollUntil n (WithTimeout (r_now r) powerStateChangeTimeout x) powerStatePollInterval
       (queries SawPower (b_PowerState b)) (powerStateReached protocol state))"
  obtain e where e: "ctx_end (WithTimeout (r_now r) powerStateChangeTimeout x) = Some e" "e \<le> r_now r + powerStateChangeTimeout"
    using ctx_end_WithTimeout by blast
  have "ends_by powerStatePollInterval e n (and_then ?poll (\<lambda>_. done_with ()))"
    by (intro ends_by_and_then ends_by_map_err ends_by_poll ends_by_later later_done later_queries e(1))
      (use assms in \<open>auto simp: powerStatePollInterval_def\<close>)
  moreover have "e \<le> r_now r + powerStatePollInterval * int n"
    using e(2) assms by (simp add: powerStatePollInterval_def powerStateChangeTimeout_def)
  ultimately show "\<exists>res r'. and_then ?poll (\<lambda>_. done_with ()) r = Some (res, r') \<and> r_now r \<le> r_now r'"
    unfolding ends_by_def by blast
qed

lemma later_lifted: "later (lifted h m)"
  by (simp add: later_def lifted_def)

lemma ends_by_connect:
  assumes "ctx_end x = Some e" "30 \<le> n"
  shows "ends_by connectPollInterval e n (connect_session n x control discovered b cfg)"
proof -
  note poll = ends_by_poll [OF later_queries _ assms(1)]
  note simple = later_done later_queries later_commands later_lifted later_setPowerState [OF assms(2)]
  have "0 < connectPollInterval" "0 < n" using assms(2) by (simp_all add: connectPollInterval_def)
  then show ?thesis
    unfolding connect_session_def unlock_sim_def power_on_def register_network_def attach_packet_def start_session_def Let_def
    by (intro ends_by_and_then ends_by_map_err ends_by_if poll simple [THEN ends_by_later])
qed

section \<open>What an action adds to the log\<close>

definition logs :: "('w, 'e, 'a) run_action \<Rightarrow> (('e modem_error, 'a) outcome \<Rightarrow> event list \<Rightarrow> bool) \<Rightarrow> bool" where
  "logs m Q \<longleftrightarrow> (\<forall>r res r'. m r = Some (res, r') \<longrightarrow> (\<exists>evs. r_log r' = r_log r @ evs \<and> Q res evs))"

lemma logsD: "logs m Q \<Longrightarrow> m r = Some (res, r') \<Longrightarrow> \<exists>evs. r_log r' = r_log r @ evs \<and> Q res evs"
  unfolding logs_def by blast

lemma logs_mono: "logs m P \<Longrightarrow> (\<And>res evs. P res evs \<Longrightarrow> Q res evs) \<Longrightarrow> logs m Q"
  unfolding logs_def by blast

lemma logs_done: "Q (Ret v) [] \<Longrightarrow> logs (done_with v) Q"
  by (auto simp: logs_def done_with_def)

lemma logs_lifted: "Q (map_err h m) [] \<Longrightarrow> logs (lifted h m) Q"
  by (auto simp: logs_def lifted_def)

lemma logs_map_err: "logs m (\<lambda>res. Q (map_err h res)) \<Longrightarrow> logs (map_action_err h m) Q"
  by (fastforce simp: logs_def map_action_err_def)

lemma logs_queries: "(\<And>v. Q (Ret v) [see v]) \<Longrightarrow> (\<And>e. Q (Fail e) []) \<Longrightarrow> Q Panic [] \<Longrightarrow> logs (queries see f) Q"
  by (auto simp: logs_def queries_def split: prod.splits outcome.splits)

lemma logs_commands: "(\<And>res. Q res [ev]) \<Longrightarrow> logs (commands ev f) Q"
  by (auto simp: logs_def commands_def split: prod.splits)

lemma logs_ctx_check: "Q (Ret ()) [] \<Longrightarrow> (\<And>e. Q (Fail e) []) \<Longrightarrow> logs (ctx_check x) Q"
  by (auto simp: logs_def ctx_check_def split: option.splits)

lemma logs_sleep: "Q (Ret ()) [] \<Longrightarrow> (\<And>e. Q (Fail e) []) \<Longrightarrow> logs (sleep x interval) Q"
  by (auto simp: logs_def sleep_def ctx_check_def Let_def split: option.splits)

lemma logs_if: "(c \<Longrightarrow> logs m Q) \<Longrightarrow> (\<not> c \<Longrightarrow> logs m' Q) \<Longrightarrow> logs (if c then m else m') Q"
  by simp

text \<open>In sequence: what follows a value is logged after it, an error or a panic ends the sequence.\<close>

lemma logs_and_then:
  assumes m: "logs m P"
    and f: "\<And>v evs. P (Ret v) evs \<Longrightarrow> logs (f v) (\<lambda>res evs'. Q res (evs @ evs'))"
    and err: "\<And>e evs. P (Fail e) evs \<Longrightarrow> Q (Fail e) evs" "\<And>evs. P Panic evs \<Longrightarrow> Q Panic evs"
  shows "logs (and_then m f) Q"
  unfolding logs_def
proof (intro allI impI)
  fix r res r'
  assume run: "and_then m f r = Some (res, r')"
  then obtain res1 r1 where m1: "m r = Some (res1, r1)" by (auto simp: and_then_def split: option.splits)
  then obtain evs where evs: "r_log r1 = r_log r @ evs" "P res1 evs" using logsD [OF m] by blast
  show "\<exists>evs. r_log r' = r_log r @ evs \<and> Q res evs"
  proof (cases res1)
    case (Ret v)
    with run m1 have "f v r1 = Some (res, r')" by (simp add: and_then_def)
    with f [of v evs] evs Ret show ?thesis by (auto dest!: logsD)
  qed (use run m1 evs err in \<open>auto simp: and_then_def\<close>)
qed

definition polled :: "('a \<Rightarrow> event) \<Rightarrow> ('a \<Rightarrow> bool) \<Rightarrow> ('f, 'a) outcome \<Rightarrow> event list \<Rightarrow> bool" where
  "polled see ready res evs \<longleftrightarrow> (\<exists>vs. evs = map see vs \<and> (\<forall>v. res = Ret v \<longrightarrow> vs \<noteq> [] \<and> last vs = v \<and> ready v))"

lemma polled_Fail [simp]: "polled see ready (Fail e) (map see vs)"
  by (auto simp: polled_def)

lemma polled_Cons: "polled see ready res evs \<Longrightarrow> polled see ready res (see v # evs)"
  by (force simp: polled_def intro: exI [of _ "v # vs" for vs])

lemma polled_here: "ready v \<Longrightarrow> polled see ready (Ret v) [see v]" "polled see ready (Fail e) [see v]"
  "polled see ready (Fail e) []" "polled see ready Panic []"
  by (force simp: polled_def intro: exI [of _ "[v]"] exI [of _ "[]"])+

lemma logs_poll: "logs (pollUntil n x interval (queries see f) ready) (polled see ready)"
proof (induction n)
  case 0
  show ?case by (simp add: logs_def)
next
  case (Suc n)
  have again: "logs (and_then (sleep x interval) (\<lambda>_. pollUntil n x interval (queries see f) ready)) (\<lambda>res evs. polled see ready res (see v # evs))" for v
    by (rule logs_and_then [where P = "\<lambda>res evs. evs = [] \<and> res \<noteq> Panic"])
      (auto intro!: logs_sleep logs_mono [OF Suc] simp: polled_Cons polled_here)
  have rest: "logs (and_then (ctx_check x) (\<lambda>_. if ready v then done_with v else
        and_then (sleep x interval) (\<lambda>_. pollUntil n x interval (queries see f) ready))) (\<lambda>res evs. polled see ready res (see v # evs))" for v
    by (rule logs_and_then [where P = "\<lambda>res evs. evs = [] \<and> res \<noteq> Panic"])
      (auto intro!: logs_ctx_check logs_done again simp: polled_here)
  have query: "logs (and_then (queries see f) (\<lambda>v. and_then (ctx_check x) (\<lambda>_. if ready v then done_with v else
        and_then (sleep x interval) (\<lambda>_. pollUntil n x interval (queries see f) ready)))) (polled see ready)"
    by (rule logs_and_then [where P = "\<lambda>res evs. evs = (case res of Ret v \<Rightarrow> [see v] | _ \<Rightarrow> [])"])
      (auto intro!: logs_queries rest simp: polled_here split del: if_split)
  show ?case
    unfolding pollUntil.simps
    by (rule logs_and_then [where P = "\<lambda>res evs. evs = [] \<and> res \<noteq> Panic"])
      (auto intro!: logs_ctx_check query simp: polled_here)
qed

lemma logs_poll_err: "logs (map_action_err h (pollUntil n x interval (queries see f) ready)) (polled see ready)"
  by (rule logs_map_err [OF logs_mono [OF logs_poll]]) (auto simp: polled_def)

text \<open>The same where the value polled for is dropped.\<close>

definition seen_ready :: "('a \<Rightarrow> event) \<Rightarrow> ('a \<Rightarrow> bool) \<Rightarrow> ('f, 'b) outcome \<Rightarrow> event list \<Rightarrow> bool" where
  "seen_ready see ready res evs \<longleftrightarrow> (\<exists>vs. evs = map see vs \<and> (\<forall>u. res = Ret u \<longrightarrow> vs \<noteq> [] \<and> ready (last vs)))"

lemma logs_poll_drop:
  "logs (and_then (map_action_err h (pollUntil n x interval (queries see f) ready)) (\<lambda>_. done_with ())) (seen_ready see ready)"
  by (rule logs_and_then [OF logs_poll_err]) (auto intro!: logs_done simp: polled_def seen_ready_def)

section \<open>The stages of a connection\<close>

fun sim_of :: "event \<Rightarrow> SIMInfo option" where
  "sim_of (SawSIM i) = Some i"
| "sim_of _ = None"

fun power_of :: "event \<Rightarrow> PowerState option" where
  "power_of (SawPower s) = Some s"
| "power_of _ = None"

fun network_of :: "event \<Rightarrow> NetworkStatus option" where
  "network_of (SawNetwork s) = Some s"
| "network_of _ = None"

fun is_pin :: "event \<Rightarrow> bool" where
  "is_pin (SentPIN p) = True"
| "is_pin _ = False"

fun is_start :: "event \<Rightarrow> bool" where
  "is_start (StartedSession c p) = True"
| "is_start _ = False"

text \<open>The newest answer of a kind.\<close>

definition newest :: "(event \<Rightarrow> 'a option) \<Rightarrow> event list \<Rightarrow> 'a option" where
  "newest kind evs = (case rev (List.map_filter kind evs) of [] \<Rightarrow> None | v # _ \<Rightarrow> Some v)"

definition prepared :: "ConnectConfig \<Rightarrow> event list \<Rightarrow> bool" where
  "prepared cfg evs \<longleftrightarrow>
     (cc_PIN cfg \<noteq> [] \<longrightarrow> (\<exists>i. newest sim_of evs = Some i \<and> si_State i \<noteq> SIMStateLocked)) \<and>
     newest power_of evs = Some PowerStateOn \<and>
     (\<exists>s \<in> set (List.map_filter network_of evs). is_registered s \<and> \<not> wrong_operator cfg s) \<and>
     (\<exists>s. newest network_of evs = Some s \<and> ns_PacketService s = PacketServiceAttached)"

text \<open>A PIN that was sent: at most one, after the SIM was seen locked.\<close>

definition one_pin :: "ConnectConfig \<Rightarrow> event list \<Rightarrow> bool" where
  "one_pin cfg evs \<longleftrightarrow>
     (filter is_pin evs = [] \<or>
      cc_PIN cfg \<noteq> [] \<and>
      (\<exists>i before after. evs = before @ [SawSIM i, SentPIN (cc_PIN cfg)] @ after \<and> si_State i = SIMStateLocked \<and>
         filter is_pin (before @ after) = []))"

lemma newest_append: "newest kind (xs @ ys) = (case newest kind ys of None \<Rightarrow> newest kind xs | Some v \<Rightarrow> Some v)"
  by (auto simp: newest_def List.map_filter_def split: list.splits)

lemma newest_Nil [simp]: "newest kind [] = None"
  by (simp add: newest_def List.map_filter_def)

lemma newest_Cons: "newest kind (e # es) = (case newest kind es of None \<Rightarrow> kind e | Some v \<Rightarrow> Some v)"
  using newest_append [of kind "[e]" es] by (auto simp: newest_def List.map_filter_def split: option.splits)

lemma newest_none: "(\<And>e. e \<in> set es \<Longrightarrow> kind e = None) \<Longrightarrow> newest kind es = None"
  by (induction es) (auto simp: newest_Cons)

definition sim_stage :: "ConnectConfig \<Rightarrow> ('f, 'a) outcome \<Rightarrow> event list \<Rightarrow> bool" where
  "sim_stage cfg res evs \<longleftrightarrow>
     one_pin cfg evs \<and> (\<forall>e \<in> set evs. power_of e = None \<and> network_of e = None \<and> \<not> is_start e) \<and>
     (\<forall>v. res = Ret v \<and> cc_PIN cfg \<noteq> [] \<longrightarrow> (\<exists>i. newest sim_of evs = Some i \<and> si_State i \<noteq> SIMStateLocked))"

lemma newest_map: "vs \<noteq> [] \<Longrightarrow> (\<And>v. kind (see v) = Some v) \<Longrightarrow> newest kind (map see vs) = Some (last vs)"
  by (induction vs rule: rev_induct) (simp_all add: newest_append newest_Cons)

lemma sim_stage_seen:
  "cc_PIN cfg \<noteq> [] \<Longrightarrow> sim_stage cfg (Ret v) [SawSIM i] \<longleftrightarrow> si_State i \<noteq> SIMStateLocked"
  "sim_stage cfg (Fail e) [SawSIM i]" "sim_stage cfg (Fail e) []" "sim_stage cfg Panic []" "cc_PIN cfg = [] \<Longrightarrow> sim_stage cfg (Ret v) []"
  by (auto simp: sim_stage_def one_pin_def newest_Cons)

lemma one_pin_sent:
  "si_State i = SIMStateLocked \<Longrightarrow> cc_PIN cfg \<noteq> [] \<Longrightarrow> one_pin cfg (SawSIM i # SentPIN (cc_PIN cfg) # map SawSIM vs)"
  unfolding one_pin_def by (rule disjI2, rule conjI, assumption, rule exI [of _ i], rule exI [of _ "[]"], rule exI [of _ "map SawSIM vs"]) simp

lemma sim_stage_sent:
  assumes "si_State i = SIMStateLocked" "cc_PIN cfg \<noteq> []" "seen_ready SawSIM (\<lambda>info. si_State info = SIMStateReady) res evs"
  shows "sim_stage cfg res (SawSIM i # SentPIN (cc_PIN cfg) # evs)"
  using assms one_pin_sent [OF assms(1, 2)] by (auto simp: sim_stage_def seen_ready_def newest_Cons newest_map)

lemma logs_unlock: "logs (unlock_sim n x b cfg) (sim_stage cfg)"
proof -
  have send: "logs (and_then (commands (SentPIN (cc_PIN cfg)) (b_SendPIN b (cc_PIN cfg))) (\<lambda>_.
      and_then (map_action_err WaitingForSIM
        (pollUntil n x connectPollInterval (queries SawSIM (b_SIMInfo b)) (\<lambda>info. si_State info = SIMStateReady))) (\<lambda>_. done_with ())))
      (\<lambda>res evs. sim_stage cfg res (SawSIM i # evs))" if "si_State i = SIMStateLocked" "cc_PIN cfg \<noteq> []" for i
    by (rule logs_and_then [where P = "\<lambda>_ evs. evs = [SentPIN (cc_PIN cfg)]"])
      (auto intro!: logs_commands logs_mono [OF logs_poll_drop] sim_stage_sent that simp: seen_ready_def)
  show ?thesis
    unfolding unlock_sim_def
  proof (intro logs_if logs_done)
    assume pin: "cc_PIN cfg \<noteq> []"
    show "logs (and_then (queries SawSIM (b_SIMInfo b)) (\<lambda>info. if si_State info \<noteq> SIMStateLocked then done_with ()
        else and_then (commands (SentPIN (cc_PIN cfg)) (b_SendPIN b (cc_PIN cfg))) (\<lambda>_. and_then (map_action_err WaitingForSIM
          (pollUntil n x connectPollInterval (queries SawSIM (b_SIMInfo b)) (\<lambda>info. si_State info = SIMStateReady))) (\<lambda>_. done_with ()))))
        (sim_stage cfg)"
      by (rule logs_and_then [where P = "\<lambda>res evs. evs = (case res of Ret v \<Rightarrow> [SawSIM v] | _ \<Rightarrow> [])"])
        (auto intro!: logs_queries logs_done send simp: sim_stage_seen pin)
  qed (simp add: sim_stage_seen)
qed

definition power_stage :: "('f, 'a) outcome \<Rightarrow> event list \<Rightarrow> bool" where
  "power_stage res evs \<longleftrightarrow>
     (\<forall>e \<in> set evs. sim_of e = None \<and> network_of e = None \<and> \<not> is_pin e \<and> \<not> is_start e) \<and>
     (\<forall>v. res = Ret v \<longrightarrow> newest power_of evs = Some PowerStateOn)"

lemma power_stage_simps:
  "power_stage (Ret v) [SawPower s] \<longleftrightarrow> s = PowerStateOn" "power_stage (Fail e) []" "power_stage Panic []"
  "power_stage (Fail e) [SawPower s]" "power_stage Panic [SawPower s]" "power_stage (Fail e) [SawPower s, AskedPower q]" "power_stage Panic [SawPower s, AskedPower q]"
  by (auto simp: power_stage_def newest_Cons)

lemma power_stage_set:
  "seen_ready SawPower (powerStateReached protocol PowerStateOn) res evs \<Longrightarrow> power_stage res (SawPower s # AskedPower PowerStateOn # evs)"
  by (auto simp: power_stage_def seen_ready_def newest_Cons newest_map powerStateReached_def)

lemma logs_get_then: "(\<And>r. logs (f r) Q) \<Longrightarrow> logs (and_then get f) Q"
  by (simp add: logs_def and_then_def get_def)

lemma logs_power: "logs (power_on n x protocol b) power_stage"
proof -
  have set: "logs (setPowerState n x protocol b PowerStateOn) (\<lambda>res evs. power_stage res (SawPower s # evs))" for s
    unfolding setPowerState_def
    by (rule logs_and_then [where P = "\<lambda>_ evs. evs = [AskedPower PowerStateOn]"])
      (auto intro!: logs_map_err logs_commands logs_get_then logs_mono [OF logs_poll_drop] power_stage_set simp: power_stage_simps)
  show ?thesis
    unfolding power_on_def
    by (rule logs_and_then [where P = "\<lambda>res evs. evs = (case res of Ret v \<Rightarrow> [SawPower v] | _ \<Rightarrow> [])"])
      (auto intro!: logs_queries logs_done set simp: power_stage_simps)
qed

definition network_stage :: "(NetworkStatus \<Rightarrow> bool) \<Rightarrow> ('f, NetworkStatus) outcome \<Rightarrow> event list \<Rightarrow> bool" where
  "network_stage good res evs \<longleftrightarrow>
     (\<forall>e \<in> set evs. sim_of e = None \<and> power_of e = None \<and> \<not> is_pin e \<and> \<not> is_start e) \<and>
     (\<forall>s. res = Ret s \<longrightarrow> newest network_of evs = Some s \<and> good s)"

lemma network_stage_simps:
  "network_stage good (Ret s) [SawNetwork s'] \<longleftrightarrow> s = s' \<and> good s" "network_stage good (Fail e) []" "network_stage good Panic []"
  "network_stage good (Fail e) [SawNetwork s, AskedRegister q]" "network_stage good Panic [SawNetwork s, AskedRegister q]"
  by (auto simp: network_stage_def newest_Cons)

lemma network_stage_polled:
  "polled SawNetwork good res evs \<Longrightarrow> network_stage good res (SawNetwork s # AskedRegister q # evs)"
  by (auto simp: network_stage_def polled_def newest_Cons newest_map)

definition good_network :: "ConnectConfig \<Rightarrow> NetworkStatus \<Rightarrow> bool" where
  "good_network cfg s \<longleftrightarrow> is_registered s \<and> \<not> wrong_operator cfg s"

lemma good_network_alt: "(\<lambda>s. is_registered s \<and> (cc_OperatorID cfg = [] \<or> ns_OperatorID s = cc_OperatorID cfg)) = good_network cfg"
  by (auto simp: good_network_def wrong_operator_def)

lemma logs_register: "logs (register_network n x b cfg) (network_stage (good_network cfg))"
proof -
  have ask: "logs (and_then (commands (AskedRegister (cc_OperatorID cfg)) (b_Register b (cc_OperatorID cfg))) (\<lambda>_.
      map_action_err WaitingForRegistration (pollUntil n x connectPollInterval (queries SawNetwork (b_NetworkStatus b)) (good_network cfg))))
      (\<lambda>res evs. network_stage (good_network cfg) res (SawNetwork s # evs))" for s
    by (rule logs_and_then [where P = "\<lambda>_ evs. evs = [AskedRegister (cc_OperatorID cfg)]"])
      (auto intro!: logs_commands logs_mono [OF logs_poll_err] network_stage_polled simp: network_stage_simps)
  show ?thesis
    unfolding register_network_def good_network_alt
    by (rule logs_and_then [where P = "\<lambda>res evs. evs = (case res of Ret v \<Rightarrow> [SawNetwork v] | _ \<Rightarrow> [])"])
      (auto intro!: logs_queries logs_done ask simp: network_stage_simps good_network_def)
qed

definition attach_stage :: "NetworkStatus \<Rightarrow> ('f, 'a) outcome \<Rightarrow> event list \<Rightarrow> bool" where
  "attach_stage s res evs \<longleftrightarrow>
     (\<forall>e \<in> set evs. sim_of e = None \<and> power_of e = None \<and> \<not> is_pin e \<and> \<not> is_start e) \<and>
     (\<forall>v. res = Ret v \<longrightarrow> (\<exists>s'. newest network_of (SawNetwork s # evs) = Some s' \<and> ns_PacketService s' = PacketServiceAttached))"

lemma logs_attach: "logs (attach_packet n x b s) (attach_stage s)"
  unfolding attach_packet_def
proof (rule logs_if)
  show "logs (and_then (commands (AskedPacketService PacketServiceAttached) (b_SetPacketServiceState b PacketServiceAttached)) (\<lambda>_.
      and_then (map_action_err WaitingForAttach
        (pollUntil n x connectPollInterval (queries SawNetwork (b_NetworkStatus b)) (\<lambda>status. ns_PacketService status = PacketServiceAttached)))
        (\<lambda>_. done_with ()))) (attach_stage s)"
    by (rule logs_and_then [where P = "\<lambda>_ evs. evs = [AskedPacketService PacketServiceAttached]"])
      (auto intro!: logs_commands logs_mono [OF logs_poll_drop] simp: attach_stage_def seen_ready_def newest_Cons newest_map)
qed (auto intro!: logs_done simp: attach_stage_def newest_Cons)

text \<open>The whole of it: at most one PIN, and a session only once everything before it has been seen.\<close>

definition connect_log :: "ConnectConfig \<Rightarrow> Port \<Rightarrow> ('f, 'a) outcome \<Rightarrow> event list \<Rightarrow> bool" where
  "connect_log cfg port res evs \<longleftrightarrow>
     one_pin cfg evs \<and>
     ((\<forall>e \<in> set evs. \<not> is_start e) \<and> (\<forall>s. res \<noteq> Ret s) \<or>
      (\<exists>before. evs = before @ [StartedSession (cfg\<lparr>cc_Interface := p_Name port\<rparr>) port] \<and>
         (\<forall>e \<in> set before. \<not> is_start e) \<and> prepared cfg before))"

lemma one_pin_append: "one_pin cfg evs \<Longrightarrow> (\<And>e. e \<in> set evs' \<Longrightarrow> \<not> is_pin e) \<Longrightarrow> one_pin cfg (evs @ evs')"
  unfolding one_pin_def by (elim disjE) (force simp: filter_empty_conv)+

lemma map_filter_append: "List.map_filter f (xs @ ys) = List.map_filter f xs @ List.map_filter f ys"
  by (simp add: List.map_filter_def)

lemma newest_mem: "newest kind evs = Some v \<Longrightarrow> v \<in> set (List.map_filter kind evs)"
  by (auto simp: newest_def split: list.splits)

lemma stages_prepared:
  assumes "sim_stage cfg (Ret u) e1" "power_stage (Ret v) e2" "network_stage (good_network cfg) (Ret s) e3" "attach_stage s (Ret w) e4"
  shows "prepared cfg (e1 @ e2 @ e3 @ e4)"
proof -
  have "newest sim_of (e2 @ e3 @ e4) = None" "newest power_of (e3 @ e4) = None"
    using assms by (auto intro!: newest_none simp: power_stage_def network_stage_def attach_stage_def)
  moreover have "s \<in> set (List.map_filter network_of e3)" "newest network_of e3 = Some s"
    using assms(3) by (auto simp: network_stage_def intro: newest_mem)
  moreover have "good_network cfg s" using assms(3) by (simp add: network_stage_def)
  moreover obtain s' where "newest network_of (e3 @ e4) = Some s'" "ns_PacketService s' = PacketServiceAttached"
    using assms(3, 4) by (auto simp: network_stage_def attach_stage_def newest_append newest_Cons split: option.splits)
  ultimately show ?thesis
    using assms(1, 2)
    by (auto simp: prepared_def newest_append map_filter_append good_network_def sim_stage_def power_stage_def split: option.splits)
qed

definition so_far :: "ConnectConfig \<Rightarrow> event list \<Rightarrow> bool" where
  "so_far cfg evs \<longleftrightarrow> one_pin cfg evs \<and> (\<forall>e \<in> set evs. \<not> is_start e)"

lemma so_far_stages:
  "sim_stage cfg res1 e1 \<Longrightarrow> so_far cfg ([] @ e1)"
  "so_far cfg pre \<Longrightarrow> power_stage res2 e2 \<Longrightarrow> so_far cfg (pre @ e2)"
  "so_far cfg pre \<Longrightarrow> network_stage good res3 e3 \<Longrightarrow> so_far cfg (pre @ e3)"
  "so_far cfg pre \<Longrightarrow> attach_stage s res4 e4 \<Longrightarrow> so_far cfg (pre @ e4)"
  by (auto simp: so_far_def sim_stage_def power_stage_def network_stage_def attach_stage_def intro!: one_pin_append)

lemma logs_stage:
  assumes "logs m P" "\<And>res evs. P res evs \<Longrightarrow> so_far cfg (pre @ evs)"
    and "\<And>v evs. P (Ret v) evs \<Longrightarrow> logs (f v) (\<lambda>res evs'. connect_log cfg port res ((pre @ evs) @ evs'))"
  shows "logs (and_then m f) (\<lambda>res evs. connect_log cfg port res (pre @ evs))"
proof (rule logs_and_then [OF assms(1)])
  show "connect_log cfg port (Fail e) (pre @ evs)" if "P (Fail e) evs" for e evs
    using assms(2) [OF that] by (simp add: connect_log_def so_far_def)
  show "connect_log cfg port Panic (pre @ evs)" if "P Panic evs" for evs
    using assms(2) [OF that] by (simp add: connect_log_def so_far_def)
qed (use assms(3) in simp)

lemma connect_log_start:
  "so_far cfg evs \<Longrightarrow> prepared cfg evs \<Longrightarrow> connect_log cfg port res (evs @ [StartedSession (cfg\<lparr>cc_Interface := p_Name port\<rparr>) port])"
  by (auto simp: connect_log_def so_far_def intro!: one_pin_append)

lemma logs_stages:
  assumes "cfg' = cfg\<lparr>cc_Interface := p_Name port\<rparr>"
  shows "logs (and_then (unlock_sim n x b cfg') (\<lambda>_. and_then (power_on n x protocol b) (\<lambda>_.
     and_then (register_network n x b cfg') (\<lambda>network. and_then (attach_packet n x b network) (\<lambda>_. start_session b cfg' port)))))
     (\<lambda>res evs. connect_log cfg port res ([] @ evs))"
proof -
  have stages: "sim_stage cfg' = sim_stage cfg" "good_network cfg' = good_network cfg"
    using assms by (auto simp: sim_stage_def one_pin_def good_network_def wrong_operator_def fun_eq_iff)
  note unlock = logs_unlock [of n x b cfg', unfolded stages] and register = logs_register [of n x b cfg', unfolded stages]
  have start: "logs (start_session b cfg' port) (\<lambda>res evs. connect_log cfg port res ((((([] @ e1) @ e2) @ e3) @ e4) @ evs))"
    if "sim_stage cfg (Ret u) e1" "power_stage (Ret v) e2" "network_stage (good_network cfg) (Ret s) e3" "attach_stage s (Ret w) e4"
    for u :: unit and v :: unit and w :: unit and s e1 e2 e3 e4
  proof -
    have "so_far cfg (((([] @ e1) @ e2) @ e3) @ e4)" using that by (blast intro: so_far_stages)
    with stages_prepared [OF that] show ?thesis
      unfolding start_session_def assms using connect_log_start [of cfg "e1 @ e2 @ e3 @ e4" port] by (auto intro!: logs_commands)
  qed
  show ?thesis
    by (rule logs_stage [OF unlock], erule so_far_stages(1), rule logs_stage [OF logs_power], blast intro: so_far_stages,
      rule logs_stage [OF register], blast intro: so_far_stages, rule logs_stage [OF logs_attach], blast intro: so_far_stages, rule start)
qed

lemma map_err_ident [simp]: "map_err (\<lambda>e. e) m = m"
  by (cases m) simp_all

lemma logs_connect:
  "logs (connect_session n x control discovered b cfg) (\<lambda>res evs.
     one_pin cfg evs \<and>
     ((\<forall>e \<in> set evs. \<not> is_start e) \<and> (\<forall>s. res \<noteq> Ret s) \<or>
      (\<exists>before devices port. evs = before @ [StartedSession (cfg\<lparr>cc_Interface := p_Name port\<rparr>) port] \<and>
         (\<forall>e \<in> set before. \<not> is_start e) \<and> prepared cfg before \<and> discovered = Ret devices \<and>
         selectNetworkPortFromDevices devices (p_Path control) (cc_Interface cfg) = (Ret port :: ('e modem_error, Port) outcome))))"
  (is "logs _ ?Q")
  for b :: "('w, 'e, 's) Backend"
proof -
  let ?sel = "bind (map_err DiscoverFailed discovered) (\<lambda>devices. selectNetworkPortFromDevices devices (p_Path control) (cc_Interface cfg))
     :: ('e modem_error, Port) outcome"
  show ?thesis
    unfolding connect_session_def Let_def
  proof (rule logs_and_then [where P = "\<lambda>res evs. evs = [] \<and> res = ?sel"], goal_cases)
    case (2 port evs)
    then have "?sel = Ret port" by simp
    with 2 show ?case by (intro logs_mono [OF logs_stages [OF refl]]) (auto simp: connect_log_def)
  qed (auto intro!: logs_lifted simp: one_pin_def)
qed

section \<open>Properties\<close>


text \<open>C14: the PIN. Whatever the modem answers and however \<^verbatim>\<open>Connect\<close> ends, it sends at most one
  PIN, the configured one, and only directly after the SIM was seen locked: a wrong PIN costs one try.\<close>

theorem connect_sends_one_pin:
  assumes "connect_session n x control discovered b cfg r = Some (res, r')"
  shows "\<exists>evs. r_log r' = r_log r @ evs \<and> one_pin cfg evs"
  using logsD [OF logs_connect assms] by (elim exE conjE) (intro exI conjI, assumption+)

text \<open>C31: waiting ends. A power change gives up after 30 polls at the latest, whatever the caller's context; and under a
  context that ends, \<^verbatim>\<open>Connect\<close> returns: no wait polls more often than the intervals
  that fit before the end.\<close>

theorem connect_waits_end:
  assumes "30 \<le> n"
  shows "setPowerState n x protocol b state r \<noteq> None \<and>
    (\<forall>e. ctx_end x = Some e \<and> e \<le> r_now r + connectPollInterval * int n \<longrightarrow> connect_session n x control discovered b cfg r \<noteq> None)"
proof (intro conjI allI impI)
  show "setPowerState n x protocol b state r \<noteq> None"
    using later_setPowerState [OF assms, of x protocol b state] unfolding later_def by (metis option.distinct(1))
next
  fix e
  assume "ctx_end x = Some e \<and> e \<le> r_now r + connectPollInterval * int n"
  then show "connect_session n x control discovered b cfg r \<noteq> None"
    using ends_by_connect [OF _ assms, of x e control discovered b cfg] unfolding ends_by_def by (metis option.distinct(1))
qed

text \<open>A modem whose SIM is locked until a PIN is sent, on a device with one network port.\<close>

definition sample_sim :: "bool \<Rightarrow> SIMInfo" where
  "sample_sim unlocked =
     \<lparr>si_PINStatus = \<lparr>ps_Supported = True, ps_Enabled = True, ps_EnabledKnown = True, ps_Lock = [], ps_PINRetries = 3, ps_PINRetriesKnown = True,
        ps_PUKRetries = 10, ps_PUKRetriesKnown = True\<rparr>,
      si_State = (if unlocked then SIMStateReady else SIMStateLocked), si_Slot = 1, si_ICCID = [], si_IMSI = [], si_EID = [],
      si_OperatorID = [], si_OperatorName = [], si_GID1 = [], si_SPN = [], si_ATR = [], si_OwnNumbers = [], si_PINRetries = 3, si_PUKRetries = 10\<rparr>"

definition sample_network :: NetworkStatus where
  "sample_network =
     \<lparr>ns_Registration = RegistrationHome, ns_PacketService = PacketServiceAttached, ns_Technology = 4, ns_Available = 4, ns_OperatorID = [0x31],
      ns_OperatorName = [], ns_RoamingText = [], ns_LocationAreaCode = 0, ns_TrackingAreaCode = 1, ns_CellID = 7,
      ns_UplinkBitsPerSecond = 0, ns_DownlinkBitsPerSecond = 0\<rparr>"

definition sample_backend :: "(bool, unit, nat) Backend" where
  "sample_backend =
     \<lparr>b_SIMInfo = (\<lambda>w. (Ret (sample_sim w), 1, w)), b_SendPIN = (\<lambda>pin w. (Ret (), 1, True)), b_PowerState = (\<lambda>w. (Ret PowerStateOn, 1, w)),
      b_SetPowerState = (\<lambda>s w. (Ret (), 1, w)), b_NetworkStatus = (\<lambda>w. (Ret sample_network, 1, w)), b_Register = (\<lambda>op w. (Ret (), 1, w)),
      b_SetPacketServiceState = (\<lambda>s w. (Ret (), 1, w)), b_Connect = (\<lambda>cfg w. (Fail (), 1, w)), b_ConnectPort = Some (\<lambda>cfg port w. (Ret 5, 1, w))\<rparr>"

definition sample_control :: Port where
  "sample_control = (named_network_port [])\<lparr>p_Type := PortQMI, p_Path := [0x2F, 0x71]\<rparr>"

definition sample_devices :: "Device list" where
  "sample_devices = [\<lparr>d_PhysicalPath = [], d_Bus = BusUSB, d_USB = (1, 2),
     d_Ports = [sample_control, (named_network_port [0x77])\<lparr>p_ControlPath := [0x2F, 0x71]\<rparr>]\<rparr>]"

definition sample_config :: ConnectConfig where
  "sample_config = \<lparr>cc_PIN = [0x31, 0x32, 0x33, 0x34], cc_OperatorID = [0x31], cc_ProfileID = 0, cc_APN = [], cc_Authentication = 0,
     cc_Username = [], cc_Password = [], cc_IPFamily = 0, cc_Interface = [], cc_SessionID = None\<rparr>"

definition sample_ctx :: Ctx where "sample_ctx = \<lparr>x_cancelled = None, x_deadline = Some 1000000000\<rparr>"
definition sample_start :: "bool Run" where "sample_start = \<lparr>r_now = 0, r_device = False, r_log = []\<rparr>"

definition sample_end :: "bool Run" where
  "sample_end = \<lparr>r_now = 6, r_device = True, r_log =
     [SawSIM (sample_sim False), SentPIN [0x31, 0x32, 0x33, 0x34], SawSIM (sample_sim True), SawPower PowerStateOn, SawNetwork sample_network,
      StartedSession (sample_config\<lparr>cc_Interface := [0x77]\<rparr>) ((named_network_port [0x77])\<lparr>p_ControlPath := [0x2F, 0x71]\<rparr>)]\<rparr>"

lemma sample_connects: "connect_session 2 sample_ctx sample_control (Ret sample_devices) sample_backend sample_config sample_start = Some (Ret 5, sample_end)"
  by code_simp


theorem connect_sends_one_pin_witness: "one_pin sample_config (r_log sample_end) \<and> SentPIN [0x31, 0x32, 0x33, 0x34] \<in> set (r_log sample_end)"
  using connect_sends_one_pin [OF sample_connects] by (auto simp: sample_start_def sample_end_def)

theorem connect_waits_end_witness:
  "connect_session 30 sample_ctx sample_control (Ret sample_devices) sample_backend sample_config sample_start \<noteq> None"
proof -
  have "ctx_end sample_ctx = Some 1000000000 \<and> 1000000000 \<le> r_now sample_start + connectPollInterval * int 30"
    by (simp add: ctx_end_def sample_ctx_def sample_start_def connectPollInterval_def)
  with connect_waits_end [of 30 sample_ctx ProtocolQMI sample_backend PowerStateOn sample_start sample_control "Ret sample_devices" sample_config]
  show ?thesis by blast
qed

end
