(* ===== verification/Modem_Bearers.thy ===== *)
theory Modem_Bearers
  imports Modem_Connect "HOL-Library.AList" "HOL-Library.Multiset"
begin

text \<open>
  The modem and its bearers (\<^verbatim>\<open>modem/modem.go\<close>) under concurrent calls: \<^verbatim>\<open>Connect\<close>, \<^verbatim>\<open>Bearer.Disconnect\<close>,
  \<^verbatim>\<open>Bearer.Close\<close> and \<^verbatim>\<open>Modem.Close\<close>. What runs under one lock is one function on the state; the step relation
  interleaves them. \<^verbatim>\<open>Bearer.mu\<close> is held from the call of the session to \<^verbatim>\<open>removeBearer\<close>, which takes
  \<^verbatim>\<open>Modem.mu\<close> for itself: the thread between the two is \<open>Releasing\<close>, and no other thread enters that bearer.

  The session a bearer owns is a handle. It is given back when \<^verbatim>\<open>Disconnect\<close> succeeds, when it fails and reports
  that the session is not connected any more, and by \<^verbatim>\<open>Close\<close>. The session of a bearer is set when the bearer is
  made and never cleared, so the nil checks of the code never fire.
\<close>

section \<open>State\<close>

record Bearer =
  br_id :: u64
  br_session :: nat
  br_closed :: bool
  br_done :: bool

text \<open>\<^verbatim>\<open>m_bearers\<close> is \<open>None\<close> for a nil map; a bearer is named by its place among all bearers ever made.\<close>

record Modem =
  m_backend :: bool
  m_closed :: bool
  m_done :: bool
  m_bearers :: "(u64 \<times> nat) list option"
  m_changed :: nat
  m_nextID :: u64

definition newModem :: Modem where
  "newModem = \<lparr>m_backend = True, m_closed = False, m_done = False, m_bearers = Some [], m_changed = 0, m_nextID = 0\<rparr>"

definition bearer_table :: "Modem \<Rightarrow> (u64 \<times> nat) list" where
  "bearer_table m = (case m_bearers m of None \<Rightarrow> [] | Some tbl \<Rightarrow> tbl)"

section \<open>Critical sections\<close>

definition currentBackend :: "Modem \<Rightarrow> ('e modem_error, unit) outcome" where
  "currentBackend m = fail_if (m_closed m \<or> \<not> m_backend m) ErrClosed (Ret ())"

text \<open>What \<^verbatim>\<open>Connect\<close> checks before it does anything: its configuration, then the modem.\<close>

definition connect_enter :: "ConnectConfig \<Rightarrow> Modem \<Rightarrow> ('e modem_error, unit) outcome" where
  "connect_enter cfg m = bind (validateConnectConfig cfg) (\<lambda>_. currentBackend m)"

definition ownBearerCount :: "Modem \<Rightarrow> nat" where
  "ownBearerCount m = length (bearer_table m)"

definition bearerSnapshot :: "Modem \<Rightarrow> nat \<times> nat" where
  "bearerSnapshot m = (length (bearer_table m), m_changed m)"

text \<open>Closing the channel and replacing it: the next generation.\<close>

definition notifyBearersChangedLocked :: "Modem \<Rightarrow> Modem" where
  "notifyBearersChangedLocked m = m\<lparr>m_changed := m_changed m + 1\<rparr>"

definition modem_Bearer :: "Modem \<Rightarrow> u64 \<Rightarrow> nat option" where
  "modem_Bearer m i = map_of (bearer_table m) i"

text \<open>\<^verbatim>\<open>Bearers\<close> sorts by the number the bearer reports, its own.\<close>

definition modem_Bearers :: "Modem \<Rightarrow> Bearer list \<Rightarrow> nat list" where
  "modem_Bearers m objs = sort_key (\<lambda>i. br_id (objs ! i)) (map snd (bearer_table m))"

definition removeBearer :: "u64 \<Rightarrow> Modem \<Rightarrow> Modem" where
  "removeBearer i m =
     (case m_bearers m of
        None \<Rightarrow> m
      | Some tbl \<Rightarrow>
          if map_of tbl i = None then m
          else notifyBearersChangedLocked (m\<lparr>m_bearers := Some (AList.delete i tbl)\<rparr>))"

text \<open>The end of \<^verbatim>\<open>Connect\<close>: the modem may have been closed meanwhile. Writing to a nil map panics.\<close>

definition connect_register :: "nat \<Rightarrow> nat \<Rightarrow> Modem \<Rightarrow> ('e modem_error, Modem \<times> Bearer) outcome" where
  "connect_register session obj m =
     fail_if (m_closed m) ErrClosed
      (let n = m_nextID m + 1 in
       case m_bearers m of
         None \<Rightarrow> Panic
       | Some tbl \<Rightarrow>
           Ret (notifyBearersChangedLocked (m\<lparr>m_nextID := n, m_bearers := Some (AList.update n obj tbl)\<rparr>),
                \<lparr>br_id = n, br_session = session, br_closed = False, br_done = False\<rparr>))"

definition close_begin :: "Modem \<Rightarrow> Modem" where
  "close_begin m = m\<lparr>m_closed := True, m_done := True, m_bearers := None, m_backend := False\<rparr>"

text \<open>
  \<^verbatim>\<open>Bearer.Disconnect\<close> given what the session answered: its error and whether it is still connected.
  The flag says that the bearer is removed from the modem and its session given back.
\<close>

definition closeDone :: "Bearer \<Rightarrow> Bearer" where
  "closeDone b = b\<lparr>br_done := True\<rparr>"

definition bearer_Disconnect :: "'e option \<Rightarrow> bool \<Rightarrow> Bearer \<Rightarrow> 'e option \<times> Bearer \<times> bool" where
  "bearer_Disconnect err connected b =
     (if br_closed b then (None, b, False)
      else if err \<noteq> None \<and> connected then (err, b, False)
      else (err, closeDone (b\<lparr>br_closed := True\<rparr>), True))"

definition closeOwned :: "'e option \<Rightarrow> Bearer \<Rightarrow> 'e option \<times> Bearer \<times> bool" where
  "closeOwned err b =
     (if br_closed b then (None, b, False)
      else (err, closeDone (b\<lparr>br_closed := True\<rparr>), True))"

text \<open>\<^verbatim>\<open>Stats\<close> and \<^verbatim>\<open>Watch\<close> reach the session only through an open bearer.\<close>

definition bearer_open :: "Bearer \<Rightarrow> ('e modem_error, nat) outcome" where
  "bearer_open b = fail_if (br_closed b) ErrClosed (Ret (br_session b))"

section \<open>Threads and steps\<close>

text \<open>
  Where a thread is: in \<^verbatim>\<open>Connect\<close> before and after it has a session; past the session call of a bearer and
  before \<^verbatim>\<open>removeBearer\<close>, in \<^verbatim>\<open>Modem.Close\<close> with the bearers still to close, or not; in \<^verbatim>\<open>Bearer.Close\<close> after
  \<^verbatim>\<open>Disconnect\<close> was refused; in \<^verbatim>\<open>Modem.Close\<close> between two bearers.
\<close>

datatype thread =
    Connecting
  | Opened nat
  | Releasing nat "nat list option"
  | Failing nat
  | Closing "nat list"

text \<open>\<open>s_open\<close> has one entry for every session ever started; \<open>s_closes\<close> counts the calls of \<^verbatim>\<open>backend.Close\<close>.\<close>

record Sys =
  s_modem :: Modem
  s_bearers :: "Bearer list"
  s_open :: "bool list"
  s_threads :: "thread list"
  s_once :: bool
  s_returned :: bool
  s_closes :: nat

definition sys_new :: Sys where
  "sys_new = \<lparr>s_modem = newModem, s_bearers = [], s_open = [], s_threads = [], s_once = False, s_returned = False, s_closes = 0\<rparr>"

definition held :: "nat \<Rightarrow> thread list \<Rightarrow> bool" where
  "held i ts \<longleftrightarrow> (\<exists>t \<in> set ts. case t of Releasing j k \<Rightarrow> j = i | _ \<Rightarrow> False)"

definition give_back :: "nat \<Rightarrow> Bearer \<Rightarrow> Sys \<Rightarrow> Sys" where
  "give_back i b s = s\<lparr>s_bearers := (s_bearers s)[i := b], s_open := (s_open s)[br_session b := False]\<rparr>"

inductive mstep :: "Sys \<Rightarrow> Sys \<Rightarrow> bool" where
  connect_begin:
    "connect_enter cfg (s_modem s) = (Ret () :: (unit modem_error, unit) outcome) \<Longrightarrow>
     mstep s (s\<lparr>s_threads := Connecting # s_threads s\<rparr>)"
| connect_failed:
    "s_threads s = xs @ Connecting # ys \<Longrightarrow> mstep s (s\<lparr>s_threads := xs @ ys\<rparr>)"
| connect_opened:
    "s_threads s = xs @ Connecting # ys \<Longrightarrow>
     mstep s (s\<lparr>s_threads := xs @ Opened (length (s_open s)) # ys, s_open := s_open s @ [True]\<rparr>)"
| connect_late:
    "s_threads s = xs @ Opened h # ys \<Longrightarrow> connect_register h (length (s_bearers s)) (s_modem s) = (Fail e :: (unit modem_error, Modem \<times> Bearer) outcome) \<Longrightarrow>
     mstep s (s\<lparr>s_threads := xs @ ys, s_open := (s_open s)[h := False]\<rparr>)"
| connect_done:
    "s_threads s = xs @ Opened h # ys \<Longrightarrow> connect_register h (length (s_bearers s)) (s_modem s) = (Ret (m, b) :: (unit modem_error, Modem \<times> Bearer) outcome) \<Longrightarrow>
     mstep s (s\<lparr>s_threads := xs @ ys, s_modem := m, s_bearers := s_bearers s @ [b]\<rparr>)"
| disconnect_released:
    "i < length (s_bearers s) \<Longrightarrow> \<not> held i (s_threads s) \<Longrightarrow>
     bearer_Disconnect (err :: unit option) connected (s_bearers s ! i) = (err', b, True) \<Longrightarrow>
     mstep s ((give_back i b s)\<lparr>s_threads := Releasing i None # s_threads s\<rparr>)"
| close_refused:
    "i < length (s_bearers s) \<Longrightarrow> \<not> held i (s_threads s) \<Longrightarrow>
     bearer_Disconnect (err :: unit option) connected (s_bearers s ! i) = (Some e, b, False) \<Longrightarrow>
     mstep s (s\<lparr>s_threads := Failing i # s_threads s\<rparr>)"
| close_owned:
    "s_threads s = xs @ Failing i # ys \<Longrightarrow> \<not> held i (s_threads s) \<Longrightarrow>
     closeOwned (err :: unit option) (s_bearers s ! i) = (err', b, True) \<Longrightarrow>
     mstep s ((give_back i b s)\<lparr>s_threads := xs @ Releasing i None # ys\<rparr>)"
| close_owned_nothing:
    "s_threads s = xs @ Failing i # ys \<Longrightarrow> \<not> held i (s_threads s) \<Longrightarrow>
     closeOwned (err :: unit option) (s_bearers s ! i) = (err', b, False) \<Longrightarrow>
     mstep s (s\<lparr>s_threads := xs @ ys\<rparr>)"
| release:
    "s_threads s = xs @ Releasing i k # ys \<Longrightarrow>
     mstep s (s\<lparr>s_threads := xs @ (case k of None \<Rightarrow> [] | Some bs \<Rightarrow> [Closing bs]) @ ys,
                s_modem := removeBearer (br_id (s_bearers s ! i)) (s_modem s)\<rparr>)"
| modem_close:
    "\<not> s_once s \<Longrightarrow> mset bs = mset (map snd (bearer_table (s_modem s))) \<Longrightarrow>
     mstep s (s\<lparr>s_once := True, s_modem := close_begin (s_modem s), s_threads := Closing bs # s_threads s\<rparr>)"
| modem_close_bearer:
    "s_threads s = xs @ Closing (i # bs) # ys \<Longrightarrow> \<not> held i (s_threads s) \<Longrightarrow>
     closeOwned (err :: unit option) (s_bearers s ! i) = (err', b, True) \<Longrightarrow>
     mstep s ((give_back i b s)\<lparr>s_threads := xs @ Releasing i (Some bs) # ys\<rparr>)"
| modem_close_skip:
    "s_threads s = xs @ Closing (i # bs) # ys \<Longrightarrow> \<not> held i (s_threads s) \<Longrightarrow>
     closeOwned (err :: unit option) (s_bearers s ! i) = (err', b, False) \<Longrightarrow>
     mstep s (s\<lparr>s_threads := xs @ Closing bs # ys\<rparr>)"
| modem_close_backend:
    "s_threads s = xs @ Closing [] # ys \<Longrightarrow>
     mstep s (s\<lparr>s_threads := xs @ ys, s_closes := s_closes s + 1, s_returned := True\<rparr>)"

inductive mreach :: "Sys \<Rightarrow> bool" where
  start: "mreach sys_new"
| step: "mreach s \<Longrightarrow> mstep s s' \<Longrightarrow> mreach s'"

section \<open>Invariants\<close>

fun opened_by :: "thread \<Rightarrow> nat list" where
  "opened_by (Opened h) = [h]"
| "opened_by _ = []"

text \<open>The bearers a closing thread still has to visit, and the bearer a thread is at.\<close>

fun left_by :: "thread \<Rightarrow> nat list" where
  "left_by (Closing bs) = bs"
| "left_by (Releasing i (Some bs)) = bs"
| "left_by _ = []"

fun at_bearer :: "thread \<Rightarrow> nat list" where
  "at_bearer (Releasing i k) = [i]"
| "at_bearer (Failing i) = [i]"
| "at_bearer _ = []"

fun closes :: "thread \<Rightarrow> bool" where
  "closes (Closing bs) = True"
| "closes (Releasing i k) = (k \<noteq> None)"
| "closes _ = False"

text \<open>The modem's flags agree, one thread at most closes it, and the backend is closed once, at the end.\<close>

definition flags_inv :: "Sys \<Rightarrow> bool" where
  "flags_inv s \<longleftrightarrow>
     m_closed (s_modem s) = s_once s \<and> (m_bearers (s_modem s) = None \<longleftrightarrow> m_closed (s_modem s)) \<and>
     m_backend (s_modem s) = (\<not> m_closed (s_modem s)) \<and>
     length (filter closes (s_threads s)) + of_bool (s_returned s) = (of_bool (s_once s) :: nat) \<and>
     s_closes s = of_bool (s_returned s)"

lemma removeBearer_simps [simp]:
  "m_closed (removeBearer i m) = m_closed m" "m_backend (removeBearer i m) = m_backend m" "m_nextID (removeBearer i m) = m_nextID m"
  "m_bearers (removeBearer i m) = map_option (AList.delete i) (m_bearers m)"
  by (auto simp: removeBearer_def notifyBearersChangedLocked_def delete_id map_of_eq_None_iff split: option.splits)

lemma connect_register_Ret:
  assumes "connect_register h n m = Ret (m', b)"
  obtains tbl where "\<not> m_closed m" "m_bearers m = Some tbl"
    "m' = m\<lparr>m_nextID := m_nextID m + 1, m_bearers := Some (AList.update (m_nextID m + 1) n tbl), m_changed := m_changed m + 1\<rparr>"
    "b = \<lparr>br_id = m_nextID m + 1, br_session = h, br_closed = False, br_done = False\<rparr>"
  using assms by (auto simp: connect_register_def notifyBearersChangedLocked_def Let_def split: option.splits)

lemma released_cases:
  "bearer_Disconnect err connected b0 = (err', b, True) \<Longrightarrow> \<not> br_closed b0 \<and> b = b0\<lparr>br_closed := True, br_done := True\<rparr>"
  "closeOwned err b0 = (err', b, True) \<Longrightarrow> \<not> br_closed b0 \<and> b = b0\<lparr>br_closed := True, br_done := True\<rparr>"
  "closeOwned err b0 = (err', b, False) \<Longrightarrow> br_closed b0"
  by (auto simp: bearer_Disconnect_def closeOwned_def closeDone_def split: if_splits)

lemma flags_inv_new: "flags_inv sys_new"
  by (simp add: flags_inv_def sys_new_def newModem_def)

lemma flags_inv_step: "mstep s s' \<Longrightarrow> flags_inv s \<Longrightarrow> flags_inv s'"
proof (induction rule: mstep.induct)
  case (connect_done s xs h ys m b)
  then show ?case by (auto simp: flags_inv_def elim!: connect_register_Ret)
next
  case (release s xs i k ys)
  then show ?case by (cases k) (auto simp: flags_inv_def)
next
  case (modem_close s bs)
  then show ?case by (auto simp: flags_inv_def close_begin_def)
qed (auto simp: flags_inv_def give_back_def)

text \<open>Threads and the table name bearers that exist; a bearer being released is closed.\<close>

fun thread_ok :: "Bearer list \<Rightarrow> thread \<Rightarrow> bool" where
  "thread_ok bs (Releasing i k) = (i < length bs \<and> br_closed (bs ! i) \<and> (\<forall>j \<in> set (case k of None \<Rightarrow> [] | Some js \<Rightarrow> js). j < length bs))"
| "thread_ok bs (Failing i) = (i < length bs)"
| "thread_ok bs (Closing js) = (\<forall>j \<in> set js. j < length bs)"
| "thread_ok bs Connecting = True"
| "thread_ok bs (Opened h) = True"

definition range_inv :: "Sys \<Rightarrow> bool" where
  "range_inv s \<longleftrightarrow>
     (\<forall>t \<in> set (s_threads s). thread_ok (s_bearers s) t) \<and>
     (\<forall>i \<in> snd ` set (bearer_table (s_modem s)). i < length (s_bearers s))"

lemma range_inv_new: "range_inv sys_new"
  by (simp add: range_inv_def sys_new_def newModem_def bearer_table_def)

lemma update_subset: "set (AList.update k v xs) \<subseteq> insert (k, v) (set xs)"
  by (induction xs) auto

lemma table_removeBearer: "bearer_table (removeBearer i m) = AList.delete i (bearer_table m)"
  by (simp add: bearer_table_def split: option.splits)

lemma thread_ok_more: "thread_ok bs t \<Longrightarrow> thread_ok (bs @ [b]) t"
  by (cases t) (auto simp: nth_append split: option.splits)

lemma closed_update: "br_closed (bs ! j) \<Longrightarrow> br_closed b \<Longrightarrow> br_closed (bs[i := b] ! j)"
  by (cases "i < length bs"; cases "i = j") (auto simp: list_update_beyond)

lemma thread_ok_closed: "thread_ok bs t \<Longrightarrow> br_closed b \<Longrightarrow> thread_ok (bs[i := b]) t"
  by (cases t) (auto simp: closed_update)

lemma range_inv_give_back:
  assumes "range_inv s" "br_closed b" "\<And>t. t \<in> set ts \<Longrightarrow> t \<in> set (s_threads s) \<or> thread_ok ((s_bearers s)[i := b]) t"
  shows "range_inv ((give_back i b s)\<lparr>s_threads := ts\<rparr>)"
  using assms thread_ok_closed [OF _ assms(2), of "s_bearers s"] by (simp add: range_inv_def give_back_def) blast

lemma range_inv_step: "mstep s s' \<Longrightarrow> range_inv s \<Longrightarrow> range_inv s'"
proof (induction rule: mstep.induct)
  case (connect_done s xs h ys m b)
  from connect_done(2) show ?case
  proof (cases rule: connect_register_Ret)
    case (1 tbl)
    then have "snd ` set (bearer_table m) \<subseteq> insert (length (s_bearers s)) (snd ` set (bearer_table (s_modem s)))"
      using update_subset [of "m_nextID (s_modem s) + 1" "length (s_bearers s)" tbl] by (auto simp: bearer_table_def)
    moreover have "\<forall>t \<in> set xs \<union> set ys. thread_ok (s_bearers s @ [b]) t"
      using connect_done(1, 3) thread_ok_more by (auto simp: range_inv_def)
    ultimately show ?thesis
      using connect_done(3) by (force simp: range_inv_def)
  qed
next
  case (disconnect_released i s err connected err' b)
  then show ?case
    using released_cases(1) [OF disconnect_released(3)] by (intro range_inv_give_back) auto
next
  case (close_owned s xs i ys err err' b)
  then have "i < length (s_bearers s)" by (auto simp: range_inv_def)
  with close_owned show ?case
    using released_cases(2) [OF close_owned(3)] by (intro range_inv_give_back) auto
next
  case (modem_close_bearer s xs i bs ys err err' b)
  then have "i < length (s_bearers s)" "\<forall>j \<in> set bs. j < length (s_bearers s)" by (auto simp: range_inv_def)
  with modem_close_bearer show ?case
    using released_cases(2) [OF modem_close_bearer(3)] by (intro range_inv_give_back) auto
next
  case (release s xs i k ys)
  have "\<forall>p \<in> set (AList.delete (br_id (s_bearers s ! i)) (bearer_table (s_modem s))). snd p < length (s_bearers s)"
    using release(2) by (auto simp: range_inv_def AList.delete_eq)
  with release show ?case
    by (cases k) (simp_all add: range_inv_def table_removeBearer)
next
  case (modem_close s bs)
  then have "set bs = snd ` set (bearer_table (s_modem s))" by (metis set_mset_mset set_map)
  with modem_close(3) show ?case by (auto simp: range_inv_def close_begin_def bearer_table_def)
qed (auto simp: range_inv_def)

text \<open>
  Numbers: the bearer made as the n-th has number n. An open bearer is found in the table under its number
  while the modem is open, and is on the list of the thread that closes the modem afterwards.
\<close>

definition ids_inv :: "Sys \<Rightarrow> bool" where
  "ids_inv s \<longleftrightarrow>
     m_nextID (s_modem s) = of_nat (length (s_bearers s)) \<and>
     (\<forall>i < length (s_bearers s). br_id (s_bearers s ! i) = of_nat (Suc i)) \<and>
     (\<forall>i < length (s_bearers s). \<not> br_closed (s_bearers s ! i) \<longrightarrow>
        (case m_bearers (s_modem s) of
           Some tbl \<Rightarrow> map_of tbl (of_nat (Suc i)) = Some i
         | None \<Rightarrow> \<exists>t \<in> set (s_threads s). i \<in> set (left_by t)))"

lemma ids_inv_new: "ids_inv sys_new"
  by (simp add: ids_inv_def sys_new_def newModem_def)

lemma number_inj:
  assumes "Suc i < 2 ^ 64" "Suc j < 2 ^ 64"
  shows "(of_nat (Suc i) :: u64) = of_nat (Suc j) \<longleftrightarrow> i = j"
proof -
  have "unat (of_nat n :: u64) = n" if "n < 2 ^ 64" for n
    using that by (simp add: unsigned_of_nat take_bit_nat_eq_self)
  from this [OF assms(1)] this [OF assms(2)] show ?thesis by (metis nat.inject)
qed

lemma number_not_fresh: "i < n \<Longrightarrow> Suc n < 2 ^ 64 \<Longrightarrow> (of_nat (Suc i) :: u64) \<noteq> of_nat n + 1"
  using number_inj [of i n] by (simp add: add.commute)

lemma bearer_kept: "i < length bs \<Longrightarrow> bs[j := (bs ! j)\<lparr>br_closed := True, br_done := True\<rparr>] ! i = (if i = j then (bs ! i)\<lparr>br_closed := True, br_done := True\<rparr> else bs ! i)"
  by (simp add: nth_list_update)

lemma ids_inv_give_back:
  assumes "ids_inv s" "b = (s_bearers s ! i)\<lparr>br_closed := True, br_done := True\<rparr>"
    and "\<And>j t. t \<in> set (s_threads s) \<Longrightarrow> j \<in> set (left_by t) \<Longrightarrow> j \<noteq> i \<Longrightarrow> \<exists>t' \<in> set ts. j \<in> set (left_by t')"
  shows "ids_inv ((give_back i b s)\<lparr>s_threads := ts\<rparr>)"
  unfolding ids_inv_def
proof (intro conjI allI impI)
  fix j
  assume j: "j < length (s_bearers ((give_back i b s)\<lparr>s_threads := ts\<rparr>))"
    "\<not> br_closed (s_bearers ((give_back i b s)\<lparr>s_threads := ts\<rparr>) ! j)"
  then have "j \<noteq> i" "j < length (s_bearers s)" "\<not> br_closed (s_bearers s ! j)"
    using assms(2) by (auto simp: give_back_def bearer_kept split: if_splits)
  then show "case m_bearers (s_modem ((give_back i b s)\<lparr>s_threads := ts\<rparr>)) of
      None \<Rightarrow> \<exists>t \<in> set (s_threads ((give_back i b s)\<lparr>s_threads := ts\<rparr>)). j \<in> set (left_by t)
    | Some tbl \<Rightarrow> map_of tbl (of_nat (Suc j)) = Some j"
    using assms(1, 3) by (auto simp: ids_inv_def give_back_def split: option.splits)
qed (use assms(1, 2) in \<open>auto simp: ids_inv_def give_back_def bearer_kept\<close>)

lemma ids_inv_threads:
  assumes "ids_inv s" "\<And>j t. t \<in> set (s_threads s) \<Longrightarrow> j \<in> set (left_by t) \<Longrightarrow> j < length (s_bearers s) \<Longrightarrow> \<not> br_closed (s_bearers s ! j) \<Longrightarrow> \<exists>t' \<in> set (s_threads s'). j \<in> set (left_by t')"
    "s_modem s' = s_modem s" "s_bearers s' = s_bearers s"
  shows "ids_inv s'"
  using assms by (auto simp: ids_inv_def split: option.splits) 

lemma ids_inv_register:
  assumes "ids_inv s" "length (s_bearers s) + 1 < 2 ^ 64" "\<not> m_closed (s_modem s)" "m_bearers (s_modem s) = Some tbl"
    and "m' = (s_modem s)\<lparr>m_nextID := m_nextID (s_modem s) + 1, m_bearers := Some (AList.update (m_nextID (s_modem s) + 1) (length (s_bearers s)) tbl), m_changed := c\<rparr>"
    and "b = \<lparr>br_id = m_nextID (s_modem s) + 1, br_session = h, br_closed = False, br_done = False\<rparr>"
  shows "ids_inv (s\<lparr>s_threads := ts, s_modem := m', s_bearers := s_bearers s @ [b]\<rparr>)"
proof -
  have n: "m_nextID (s_modem s) = of_nat (length (s_bearers s))" using assms(1) by (simp add: ids_inv_def)
  have "map_of (AList.update (m_nextID (s_modem s) + 1) (length (s_bearers s)) tbl) (of_nat (Suc i)) = map_of tbl (of_nat (Suc i))"
    if "i < length (s_bearers s)" for i
    using number_not_fresh [OF that] assms(2) by (simp add: update_conv' n)
  with assms n show ?thesis
    by (auto simp: ids_inv_def nth_append update_conv' less_Suc_eq add.commute)
qed

lemma ids_inv_step:
  assumes "mstep s s'" "ids_inv s" "range_inv s" "flags_inv s" "length (s_bearers s') < 2 ^ 64"
  shows "ids_inv s'"
  using assms
proof (induction rule: mstep.induct)
  case (connect_done s xs h ys m b)
  from connect_done(2) show ?case
    by (cases rule: connect_register_Ret) (use connect_done in \<open>auto intro!: ids_inv_register\<close>)
next
  case (disconnect_released i s err connected err' b)
  then show ?case
    using released_cases(1) [OF disconnect_released(3)] by (intro ids_inv_give_back) auto
next
  case (close_owned s xs i ys err err' b)
  then show ?case
    using released_cases(2) [OF close_owned(3)] by (intro ids_inv_give_back) auto
next
  case (modem_close_bearer s xs i bs ys err err' b)
  then show ?case
    using released_cases(2) [OF modem_close_bearer(3)] by (intro ids_inv_give_back) fastforce+
next
  case (modem_close_skip s xs i bs ys err err' b)
  then show ?case
    using released_cases(3) [OF modem_close_skip(3)] by (intro ids_inv_threads [OF modem_close_skip(4)]) auto
next
  case (release s xs i k ys)
  have i: "i < length (s_bearers s)" "br_closed (s_bearers s ! i)" using release(1, 3) by (auto simp: range_inv_def)
  have other: "of_nat (Suc j) \<noteq> br_id (s_bearers s ! i)" if "j < length (s_bearers s)" "\<not> br_closed (s_bearers s ! j)" for j
    using that i release(2, 5) number_inj [of i j] by (auto simp: ids_inv_def)
  define ts where "ts = xs @ (case k of None \<Rightarrow> [] | Some bs \<Rightarrow> [Closing bs]) @ ys"
  have kept: "\<exists>t' \<in> set ts. j \<in> set (left_by t')" if "t \<in> set (s_threads s)" "j \<in> set (left_by t)" for t j
    using that release(1) by (cases k) (auto simp: ts_def)
  show ?case
    using release(2) other kept unfolding ts_def [symmetric]
    by (cases "m_bearers (s_modem s)") (auto simp: ids_inv_def delete_conv')
next
  case (modem_close s bs)
  then obtain tbl where tbl: "m_bearers (s_modem s) = Some tbl" by (auto simp: flags_inv_def)
  have "set bs = snd ` set tbl"
    using modem_close(2) tbl by (metis bearer_table_def option.simps(5) set_mset_mset set_map)
  then have "i \<in> set bs" if "map_of tbl k = Some i" for i k
    using map_of_SomeD [OF that] by force
  with modem_close(3) tbl show ?case by (auto simp: ids_inv_def close_begin_def)
qed (erule ids_inv_threads; auto)+

text \<open>
  Sessions: each is owned by the call that opened it or by one bearer, and it is open exactly while its owner
  has not given it back.
\<close>

definition opened :: "thread list \<Rightarrow> nat list" where
  "opened ts = concat (map opened_by ts)"

lemma opened_simps [simp]: "opened [] = []" "opened (t # ts) = opened_by t @ opened ts" "opened (ts @ ts') = opened ts @ opened ts'"
  by (simp_all add: opened_def)

definition owners :: "Sys \<Rightarrow> nat list" where
  "owners s = opened (s_threads s) @ map br_session (s_bearers s)"

definition sessions_inv :: "Sys \<Rightarrow> bool" where
  "sessions_inv s \<longleftrightarrow>
     distinct (owners s) \<and> set (owners s) \<subseteq> {..<length (s_open s)} \<and>
     (\<forall>h < length (s_open s). s_open s ! h \<longleftrightarrow>
        h \<in> set (opened (s_threads s)) \<or> (\<exists>b \<in> set (s_bearers s). br_session b = h \<and> \<not> br_closed b))"

lemma sessions_inv_new: "sessions_inv sys_new"
  by (simp add: sessions_inv_def owners_def sys_new_def)

lemma sessions_inv_frame:
  assumes "sessions_inv s" "opened (s_threads s') = opened (s_threads s)" "s_bearers s' = s_bearers s" "s_open s' = s_open s"
  shows "sessions_inv s'"
  using assms by (simp add: sessions_inv_def owners_def)

lemma sessions_map: "map br_session (bs[i := (bs ! i)\<lparr>br_closed := True, br_done := True\<rparr>]) = map br_session bs"
  by (cases "i < length bs") (simp_all add: map_update list_update_beyond list_update_same_conv)

lemma sessions_inv_give_back:
  assumes inv: "sessions_inv s" and i: "i < length (s_bearers s)" "\<not> br_closed (s_bearers s ! i)"
    and b: "b = (s_bearers s ! i)\<lparr>br_closed := True, br_done := True\<rparr>" and ts: "opened ts = opened (s_threads s)"
  shows "sessions_inv ((give_back i b s)\<lparr>s_threads := ts\<rparr>)"
proof -
  let ?h = "br_session (s_bearers s ! i)"
  have bearers: "\<exists>b' \<in> set ((s_bearers s)[i := b]). br_session b' = h \<and> \<not> br_closed b'" 
    if "h \<noteq> ?h" "b' \<in> set (s_bearers s)" "br_session b' = h" "\<not> br_closed b'" for h b'
  proof -
    from that(2) obtain j where j: "j < length (s_bearers s)" "s_bearers s ! j = b'" by (auto simp: in_set_conv_nth)
    with that have "(s_bearers s)[i := b] ! j = b'" by (auto simp: b bearer_kept)
    with j that show ?thesis by (metis length_list_update nth_mem)
  qed
  have old: "h \<noteq> ?h \<and> (\<exists>b' \<in> set (s_bearers s). br_session b' = h \<and> \<not> br_closed b')"
    if "b' \<in> set ((s_bearers s)[i := b])" "br_session b' = h" "\<not> br_closed b'" for h b'
  proof -
    from that(1) obtain j where j: "j < length (s_bearers s)" "(s_bearers s)[i := b] ! j = b'" by (auto simp: in_set_conv_nth)
    with that(3) have ji: "j \<noteq> i" "s_bearers s ! j = b'" by (auto simp: b bearer_kept split: if_splits)
    have "distinct (map br_session (s_bearers s))" using inv by (simp add: sessions_inv_def owners_def)
    with j(1) i ji that have "h \<noteq> ?h" by (metis length_map nth_eq_iff_index_eq nth_map)
    with ji j that show ?thesis by (metis nth_mem)
  qed
  have "?h \<notin> set (opened (s_threads s))"
    using inv i by (auto simp: sessions_inv_def owners_def)
  moreover have "?h < length (s_open s)"
    using inv nth_mem [OF i(1)] by (auto simp: sessions_inv_def owners_def)
  moreover have "owners ((give_back i b s)\<lparr>s_threads := ts\<rparr>) = owners s"
    using sessions_map [of "s_bearers s" i] by (simp add: owners_def give_back_def ts b)
  ultimately show ?thesis
    using inv bearers old by (auto simp: sessions_inv_def give_back_def ts b nth_list_update)
qed

lemma sessions_inv_step:
  assumes "mstep s s'" "sessions_inv s" "range_inv s"
  shows "sessions_inv s'"
  using assms
proof (induction rule: mstep.induct)
  case (connect_opened s xs ys)
  then show ?case by (auto simp: sessions_inv_def owners_def nth_append less_Suc_eq)
next
  case (connect_late s xs h ys e)
  then show ?case by (auto simp: sessions_inv_def owners_def nth_list_update)
next
  case (connect_done s xs h ys m b)
  from connect_done(2) show ?case
    by (cases rule: connect_register_Ret) (use connect_done in \<open>auto simp: sessions_inv_def owners_def\<close>)
next
  case (disconnect_released i s err connected err' b)
  then show ?case
    using released_cases(1) [OF disconnect_released(3)] by (intro sessions_inv_give_back) auto
next
  case (close_owned s xs i ys err err' b)
  then have "i < length (s_bearers s)" by (auto simp: range_inv_def)
  with close_owned show ?case
    using released_cases(2) [OF close_owned(3)] by (intro sessions_inv_give_back) auto
next
  case (modem_close_bearer s xs i bs ys err err' b)
  then have "i < length (s_bearers s)" by (auto simp: range_inv_def)
  with modem_close_bearer show ?case
    using released_cases(2) [OF modem_close_bearer(3)] by (intro sessions_inv_give_back) auto
next
  case (release s xs i k ys)
  then show ?case by (intro sessions_inv_frame [OF release(2)]) (auto split: option.splits)
qed (erule sessions_inv_frame; simp)+

lemma mstep_bearers: "mstep s s' \<Longrightarrow> length (s_bearers s) \<le> length (s_bearers s')"
  by (induction rule: mstep.induct) (auto simp: give_back_def)

lemma mreach_flags: "mreach s \<Longrightarrow> flags_inv s \<and> range_inv s \<and> sessions_inv s"
proof (induction rule: mreach.induct)
  case (step s s')
  then show ?case using flags_inv_step range_inv_step sessions_inv_step by blast
qed (simp add: flags_inv_new range_inv_new sessions_inv_new)

lemma mreach_ids: "mreach s \<Longrightarrow> length (s_bearers s) < 2 ^ 64 \<Longrightarrow> ids_inv s"
proof (induction rule: mreach.induct)
  case (step s s')
  then have "ids_inv s" using mstep_bearers [OF step(2)] by linarith
  with mreach_flags [OF step(1)] step(4) show ?case using ids_inv_step [OF step(2)] by blast
qed (simp add: ids_inv_new)

lemma held_by: "held i ts \<Longrightarrow> \<exists>k. Releasing i k \<in> set ts"
proof -
  assume "held i ts"
  then obtain t where t: "t \<in> set ts" "case t of Releasing j k \<Rightarrow> j = i | _ \<Rightarrow> False" unfolding held_def by blast
  from t(2) obtain k where "t = Releasing i k" by (cases t) simp_all
  with t(1) show ?thesis by blast
qed

section \<open>Properties\<close>

text \<open>C5: no session is lost (as long as fewer than \<open>2\<^sup>6\<^sup>4\<close> bearers were made). A session that has not been given
  back belongs to a call of \<^verbatim>\<open>Connect\<close> about to return, and if the modem is closed that call ends with
  \<^verbatim>\<open>ErrClosed\<close> and closes it; or it belongs to an open bearer, which \<^verbatim>\<open>Bearer\<close> finds under its
  number while the modem is open. Once \<^verbatim>\<open>Close\<close> has returned, no bearer has a session left.\<close>

theorem modem_close_gives_back:
  assumes "mreach s" "length (s_bearers s) < 2 ^ 64" "h < length (s_open s)" "s_open s ! h"
  shows "Opened h \<in> set (s_threads s) \<and>
      (m_closed (s_modem s) \<longrightarrow> (\<forall>n. connect_register h n (s_modem s) = (Fail ErrClosed :: (unit modem_error, Modem \<times> Bearer) outcome))) \<or>
    (\<exists>i < length (s_bearers s). br_session (s_bearers s ! i) = h \<and> \<not> br_closed (s_bearers s ! i) \<and> \<not> s_returned s \<and>
       (\<not> m_closed (s_modem s) \<longrightarrow> modem_Bearer (s_modem s) (br_id (s_bearers s ! i)) = Some i))"
proof -
  have inv: "flags_inv s" "sessions_inv s" "ids_inv s"
    using mreach_flags [OF assms(1)] mreach_ids [OF assms(1, 2)] by auto
  then consider "h \<in> set (opened (s_threads s))" | b where "b \<in> set (s_bearers s)" "br_session b = h" "\<not> br_closed b"
    using assms(3, 4) by (auto simp: sessions_inv_def)
  then show ?thesis
  proof cases
    case 1
    then obtain t where t: "t \<in> set (s_threads s)" "h \<in> set (opened_by t)" by (auto simp: opened_def)
    then have "t = Opened h" using t(2) by (cases t rule: opened_by.cases) simp_all
    with t(1) show ?thesis by (simp add: connect_register_def)
  next
    case 2
    then obtain i where i: "i < length (s_bearers s)" "s_bearers s ! i = b" by (auto simp: in_set_conv_nth)
    have "\<not> s_returned s"
    proof
      assume r: "s_returned s"
      then have "filter closes (s_threads s) = []" "m_bearers (s_modem s) = None"
        using inv(1) by (auto simp: flags_inv_def split: if_splits)
      then obtain t where t: "i \<in> set (left_by t)" "\<not> closes t"
        using inv(3) i 2(3) by (auto simp: ids_inv_def filter_empty_conv)
      then show False using t by (cases t rule: left_by.cases) simp_all
    qed
    moreover have "modem_Bearer (s_modem s) (br_id b) = Some i" if "\<not> m_closed (s_modem s)"
      using inv(1, 3) i 2(3) that by (auto simp: flags_inv_def ids_inv_def modem_Bearer_def bearer_table_def split: option.splits)
    ultimately show ?thesis using 2 i by blast
  qed
qed

text \<open>C32: nothing is used after it was given back, and nothing crashes: an open bearer's session is open, so
  \<^verbatim>\<open>Stats\<close>, \<^verbatim>\<open>Watch\<close>, \<^verbatim>\<open>Disconnect\<close> and
  \<^verbatim>\<open>Close\<close> reach only open sessions; \<^verbatim>\<open>Connect\<close> never writes to
  the nil map that \<^verbatim>\<open>Close\<close> leaves behind; \<^verbatim>\<open>backend.Close\<close> is
  called at most once, and has been called when \<^verbatim>\<open>Close\<close> has returned.\<close>

theorem modem_sessions_safe:
  assumes "mreach s"
  shows "(\<forall>i < length (s_bearers s). bearer_open (s_bearers s ! i) = (Ret h :: (unit modem_error, nat) outcome) \<longrightarrow> s_open s ! h) \<and>
    (\<forall>h n. connect_register h n (s_modem s) \<noteq> (Panic :: (unit modem_error, Modem \<times> Bearer) outcome)) \<and>
    s_closes s = (if s_returned s then 1 else 0)"
proof -
  have inv: "flags_inv s" "sessions_inv s" using mreach_flags [OF assms] by auto
  have "s_open s ! h" if "i < length (s_bearers s)" "\<not> br_closed (s_bearers s ! i)" "br_session (s_bearers s ! i) = h" for i
  proof -
    have "h < length (s_open s)" using inv(2) nth_mem [OF that(1)] that(3) by (auto simp: sessions_inv_def owners_def)
    then show ?thesis using inv(2) nth_mem [OF that(1)] that(2, 3) by (auto simp: sessions_inv_def)
  qed
  moreover have "connect_register h n (s_modem s) \<noteq> (Panic :: (unit modem_error, Modem \<times> Bearer) outcome)" for h n
    using inv(1) by (auto simp: connect_register_def flags_inv_def fail_if_def Let_def split: option.splits)
  ultimately show ?thesis using inv(1) by (auto simp: bearer_open_def flags_inv_def)
qed


text \<open>A modem with one bearer, and the same modem while it is closed.\<close>

definition sample_bearer :: Bearer where
  "sample_bearer = \<lparr>br_id = 1, br_session = 0, br_closed = False, br_done = False\<rparr>"

definition sample_sys :: Sys where
  "sample_sys = sys_new\<lparr>s_open := [True], s_bearers := [sample_bearer],
     s_modem := newModem\<lparr>m_bearers := Some [(1, 0)], m_nextID := 1, m_changed := 1\<rparr>\<rparr>"

definition sample_closing :: Sys where
  "sample_closing = sample_sys\<lparr>s_once := True, s_modem := close_begin (s_modem sample_sys), s_threads := [Closing [0]]\<rparr>"

lemma sample_sys_reach: "mreach sample_sys"
proof -
  let ?s1 = "sys_new\<lparr>s_threads := [Connecting]\<rparr>"
  let ?s2 = "sys_new\<lparr>s_threads := [Opened 0], s_open := [True]\<rparr>"
  have 1: "mstep sys_new ?s1"
    using connect_begin [of sample_config sys_new]
    by (simp add: connect_enter_def validateConnectConfig_def sample_config_def currentBackend_def sys_new_def newModem_def)
  have 2: "mstep ?s1 ?s2"
    using connect_opened [of ?s1 "[]" "[]"] by (simp add: sys_new_def)
  have 3: "mstep ?s2 sample_sys"
    using connect_done [of ?s2 "[]" 0 "[]" "s_modem sample_sys" sample_bearer]
    by (simp add: connect_register_def notifyBearersChangedLocked_def sample_sys_def sys_new_def newModem_def sample_bearer_def Let_def)
  show ?thesis by (rule mreach.step [OF mreach.step [OF mreach.step [OF mreach.start 1] 2] 3])
qed

theorem modem_close_gives_back_witness:
  "s_open sample_sys ! 0 \<and> modem_Bearer (s_modem sample_sys) (br_id (s_bearers sample_sys ! 0)) = Some 0"
  using modem_close_gives_back [OF sample_sys_reach, of 0] by (auto simp: sample_sys_def sys_new_def newModem_def)

theorem modem_sessions_safe_witness:
  "bearer_open (s_bearers sample_sys ! 0) = (Ret 0 :: (unit modem_error, nat) outcome) \<and> s_open sample_sys ! 0"
  using modem_sessions_safe [OF sample_sys_reach, of 0] by (auto simp: sample_sys_def sample_bearer_def bearer_open_def)


end
