(* ===== verification/Modem_Guards.thy ===== *)
theory Modem_Guards
  imports Modem_Bearers
begin

text \<open>
  The operations of \<^verbatim>\<open>modem/modem.go\<close> that check the modem and their arguments and then hand over to the
  backend. The backend's method is the parameter \<open>call\<close>; the modem is as the operation finds it under its lock.
\<close>

section \<open>Operations\<close>

definition with_backend :: "Modem \<Rightarrow> ('w, 'e, 'a) run_action \<Rightarrow> ('w, 'e, 'a) run_action" where
  "with_backend m k = and_then (lifted (\<lambda>e. e) (currentBackend m)) (\<lambda>_. k)"

definition SetPrimarySIMSlot :: "(byte \<Rightarrow> ('w, 'e, unit) run_action) \<Rightarrow> Modem \<Rightarrow> byte \<Rightarrow> ('w, 'e, unit) run_action" where
  "SetPrimarySIMSlot call m slot = with_backend m (unless (slot = 0) ZeroSlot (call slot))"

definition SetPacketServiceState :: "(PacketServiceState \<Rightarrow> ('w, 'e, unit) run_action) \<Rightarrow> Modem \<Rightarrow> PacketServiceState \<Rightarrow> ('w, 'e, unit) run_action" where
  "SetPacketServiceState call m state =
     with_backend m (unless (state \<noteq> PacketServiceAttached \<and> state \<noteq> PacketServiceDetached) (BadPacketState state) (call state))"

definition SetFacilityLock ::
  "(byte \<Rightarrow> bool \<Rightarrow> bytes \<Rightarrow> ('w, 'e, unit) run_action) \<Rightarrow> Modem \<Rightarrow> byte \<Rightarrow> bool \<Rightarrow> bytes \<Rightarrow> ('w, 'e, unit) run_action" where
  "SetFacilityLock call m facility enabled key =
     with_backend m (and_then (lifted (\<lambda>e. e) (validateFacilityKey facility key)) (\<lambda>_. call facility enabled key))"

definition UnblockFacilityLock :: "(byte \<Rightarrow> bytes \<Rightarrow> ('w, 'e, unit) run_action) \<Rightarrow> Modem \<Rightarrow> byte \<Rightarrow> bytes \<Rightarrow> ('w, 'e, unit) run_action" where
  "UnblockFacilityLock call m facility key =
     with_backend m (and_then (lifted (\<lambda>e. e) (validateFacilityKey facility key)) (\<lambda>_. call facility key))"

record InitialEPSConfig =
  ie_ProfileID :: int
  ie_APN :: bytes
  ie_IPFamily :: byte
  ie_Authentication :: byte
  ie_Username :: bytes
  ie_Password :: bytes

definition SetInitialEPSSettings ::
  "(InitialEPSConfig \<Rightarrow> ('w, 'e, InitialEPSConfig) run_action) \<Rightarrow> Modem \<Rightarrow> InitialEPSConfig \<Rightarrow> ('w, 'e, InitialEPSConfig) run_action" where
  "SetInitialEPSSettings call m cfg =
     with_backend m
      (unless (ie_ProfileID cfg < 0) (NegativeProfile (ie_ProfileID cfg))
        (unless (ie_IPFamily cfg \<noteq> 0 \<and> ie_IPFamily cfg AND NOT IPFamilyIPv4v6 \<noteq> 0) (BadIPFamily (ie_IPFamily cfg))
          (call cfg)))"

record ProfileConfig =
  pc_APN :: bytes
  pc_IPFamily :: byte
  pc_Authentication :: byte
  pc_Username :: bytes
  pc_Password :: bytes
  pc_APNType :: u64
  pc_Enabled :: bool

record ProfileUpdate =
  pu_ID :: int
  pu_APN :: "bytes option"
  pu_IPFamily :: "byte option"
  pu_Authentication :: "byte option"
  pu_Username :: "bytes option"
  pu_Password :: "bytes option"
  pu_APNType :: "u64 option"
  pu_Enabled :: "bool option"

definition CreateProfile :: "(ProfileConfig \<Rightarrow> ('w, 'e, 'p) run_action) \<Rightarrow> Modem \<Rightarrow> ProfileConfig \<Rightarrow> ('w, 'e, 'p) run_action" where
  "CreateProfile call m cfg = with_backend m (unless (pc_APNType cfg AND NOT APNTypeAny \<noteq> 0) (BadAPNType (pc_APNType cfg)) (call cfg))"

definition UpdateProfile :: "(ProfileUpdate \<Rightarrow> ('w, 'e, 'p) run_action) \<Rightarrow> Modem \<Rightarrow> ProfileUpdate \<Rightarrow> ('w, 'e, 'p) run_action" where
  "UpdateProfile call m update =
     with_backend m
      (unless (pu_ID update < 0) (NegativeProfile (pu_ID update))
        (case pu_APNType update of
           Some t \<Rightarrow> unless (t AND NOT APNTypeAny \<noteq> 0) (BadAPNType t) (call update)
         | None \<Rightarrow> call update))"

definition DeleteProfile :: "(int \<Rightarrow> ('w, 'e, unit) run_action) \<Rightarrow> Modem \<Rightarrow> int \<Rightarrow> ('w, 'e, unit) run_action" where
  "DeleteProfile call m n = with_backend m (unless (n < 0) (NegativeProfile n) (call n))"

definition SendMessage :: "(MessageConfig \<Rightarrow> ('w, 'e, 'p) run_action) \<Rightarrow> Modem \<Rightarrow> MessageConfig \<Rightarrow> ('w, 'e, 'p) run_action" where
  "SendMessage call m cfg = with_backend m (and_then (lifted (\<lambda>e. e) (validateMessageConfig cfg)) (\<lambda>_. call cfg))"

definition StoreMessage :: "(MessageConfig \<Rightarrow> ('w, 'e, 'p) run_action) \<Rightarrow> Modem \<Rightarrow> MessageConfig \<Rightarrow> ('w, 'e, 'p) run_action" where
  "StoreMessage call m cfg = with_backend m (and_then (lifted (\<lambda>e. e) (validateMessageConfig cfg)) (\<lambda>_. call cfg))"

definition SendPDU :: "(bytes \<Rightarrow> ('w, 'e, u32) run_action) \<Rightarrow> Modem \<Rightarrow> bytes \<Rightarrow> ('w, 'e, u32) run_action" where
  "SendPDU call m pdu = with_backend m (unless (pdu = []) EmptyPDU (call pdu))"

definition InitiateUSSD :: "(bytes \<Rightarrow> ('w, 'e, 'p) run_action) \<Rightarrow> Modem \<Rightarrow> bytes \<Rightarrow> ('w, 'e, 'p) run_action" where
  "InitiateUSSD call m txt = with_backend m (unless (txt = []) EmptyText (call txt))"

definition RespondUSSD :: "(bytes \<Rightarrow> ('w, 'e, 'p) run_action) \<Rightarrow> Modem \<Rightarrow> bytes \<Rightarrow> ('w, 'e, 'p) run_action" where
  "RespondUSSD call m txt = with_backend m (unless (txt = []) EmptyText (call txt))"

text \<open>A modem may implement \<^verbatim>\<open>SIMPINStatus\<close> or not.\<close>

definition modem_SIMPINStatus :: "('w, 'e, SIMPINStatus) run_action option \<Rightarrow> Modem \<Rightarrow> ('w, 'e, SIMPINStatus) run_action" where
  "modem_SIMPINStatus reader m = with_backend m (case reader of None \<Rightarrow> raise ErrNotSupported | Some call \<Rightarrow> call)"

definition DeleteStoredMessage :: "('r \<Rightarrow> ('w, 'e, unit) run_action) \<Rightarrow> Modem \<Rightarrow> 'r \<Rightarrow> ('w, 'e, unit) run_action" where
  "DeleteStoredMessage call m ref = with_backend m (call ref)"

text \<open>\<^verbatim>\<open>DeleteMessages\<close> goes on after an error; the modem may be another at every message.\<close>

fun delete_each :: "('r \<Rightarrow> ('w, 'e, unit) run_action) \<Rightarrow> (Modem \<times> 'r) list \<Rightarrow> ('w, 'e, 'e modem_error list) run_action" where
  "delete_each call [] = done_with []"
| "delete_each call ((m, ref) # refs) =
     and_then (attempt (DeleteStoredMessage call m ref)) (\<lambda>res.
     and_then (delete_each call refs) (\<lambda>errs.
       done_with (case res of Fail e \<Rightarrow> e # errs | _ \<Rightarrow> errs)))"

definition DeleteMessages :: "('r \<Rightarrow> ('w, 'e, unit) run_action) \<Rightarrow> (Modem \<times> 'r) list \<Rightarrow> ('w, 'e, unit) run_action" where
  "DeleteMessages call refs =
     and_then (delete_each call refs) (\<lambda>errs. unless (errs \<noteq> []) (JoinedErrors errs) (done_with ()))"

section \<open>Refusals\<close>

definition refuses :: "('w, 'e, 'a) run_action \<Rightarrow> bool" where
  "refuses k \<longleftrightarrow> (\<forall>r. \<exists>e. k r = Some (Fail e, r))"

definition reaches :: "('w, 'e, 'a) run_action \<Rightarrow> ('w, 'e, 'a) run_action \<Rightarrow> bool" where
  "reaches k call \<longleftrightarrow> k = call"

text \<open>An operation either refuses, and then the device is untouched, or does exactly what the backend does.\<close>

definition guarded :: "bool \<Rightarrow> Modem \<Rightarrow> ('w, 'e, 'a) run_action \<Rightarrow> ('w, 'e, 'a) run_action \<Rightarrow> bool" where
  "guarded valid m k call \<longleftrightarrow> (if valid \<and> \<not> m_closed m \<and> m_backend m then reaches k call else refuses k)"

lemma with_backend_eq:
  "with_backend m k = (if m_closed m \<or> \<not> m_backend m then raise ErrClosed else k)"
  by (auto simp: with_backend_def currentBackend_def and_then_def lifted_def raise_def fail_if_def fun_eq_iff)

lemma refuses_raise: "refuses (raise e)"
  by (simp add: refuses_def raise_def)

lemma guarded_intro:
  assumes "valid \<Longrightarrow> k = call" "\<not> valid \<Longrightarrow> refuses k"
  shows "guarded valid m (with_backend m k) call"
  using assms by (auto simp: guarded_def with_backend_eq refuses_raise reaches_def)

lemma checked_call:
  "and_then (lifted (\<lambda>e. e) (check :: ('e modem_error, unit) outcome)) (\<lambda>_. call) =
     (case check of Ret _ \<Rightarrow> call | Fail e \<Rightarrow> raise e | Panic \<Rightarrow> (\<lambda>r. Some (Panic, r)))"
  for call :: "('w, 'e, 'a) run_action"
  by (auto simp: and_then_def lifted_def raise_def fun_eq_iff split: outcome.splits)

definition valid_key :: "byte \<Rightarrow> bytes \<Rightarrow> bool" where
  "valid_key facility key \<longleftrightarrow> facility \<in> {1..4} \<and> length key \<in> {1..8} \<and> (\<forall>c \<in> set key. c \<in> {1..0x7F})"

definition valid_message :: "MessageConfig \<Rightarrow> bool" where
  "valid_message cfg \<longleftrightarrow> mc_Number cfg \<noteq> [] \<and> (mc_Text cfg = []) \<noteq> (mc_Data cfg = [])"

definition valid_family :: "byte \<Rightarrow> bool" where
  "valid_family f \<longleftrightarrow> f AND NOT IPFamilyIPv4v6 = 0"

lemma byte_1_le: "(1 \<le> c) = (c \<noteq> 0)" for c :: byte
  by (metis linorder_not_less one_neq_zero order_refl word_less_1)

lemma validateFacilityKey_valid: "valid_key facility key \<Longrightarrow> validateFacilityKey facility key = Ret ()"
  by (auto simp: validateFacilityKey_def valid_key_def fail_if_def FacilityNetwork_def FacilityCorporate_def Suc_le_eq byte_1_le not_less)

lemma validateFacilityKey_invalid: "\<not> valid_key facility key \<Longrightarrow> \<exists>e. validateFacilityKey facility key = Fail e"
  by (auto simp: validateFacilityKey_def valid_key_def fail_if_def FacilityNetwork_def FacilityCorporate_def Suc_le_eq byte_1_le not_less)

lemma validateMessageConfig_valid: "valid_message cfg \<Longrightarrow> validateMessageConfig cfg = Ret ()"
  by (auto simp: validateMessageConfig_def valid_message_def fail_if_def)

lemma validateMessageConfig_invalid: "\<not> valid_message cfg \<Longrightarrow> \<exists>e. validateMessageConfig cfg = Fail e"
  by (auto simp: validateMessageConfig_def valid_message_def fail_if_def)

lemma refuses_check: "\<exists>e. check = Fail e \<Longrightarrow> refuses (case check of Ret _ \<Rightarrow> call | Fail e \<Rightarrow> raise e | Panic \<Rightarrow> (\<lambda>r. Some (Panic, r)))"
  by (auto simp: refuses_raise)

lemma guarded_key: "guarded (valid_key facility key) m (with_backend m (and_then (lifted (\<lambda>e. e) (validateFacilityKey facility key)) (\<lambda>_. call))) call"
  unfolding checked_call
proof (rule guarded_intro)
  show "(case validateFacilityKey facility key of Ret _ \<Rightarrow> call | Fail e \<Rightarrow> raise e | Panic \<Rightarrow> (\<lambda>r. Some (Panic, r))) = call" if "valid_key facility key"
    using that by (simp add: validateFacilityKey_valid)
  show "refuses (case validateFacilityKey facility key of Ret _ \<Rightarrow> call | Fail e \<Rightarrow> raise e | Panic \<Rightarrow> (\<lambda>r. Some (Panic, r)))" if "\<not> valid_key facility key"
    by (rule refuses_check [OF validateFacilityKey_invalid [OF that]])
qed

lemma guarded_message: "guarded (valid_message cfg) m (with_backend m (and_then (lifted (\<lambda>e. e) (validateMessageConfig cfg)) (\<lambda>_. call))) call"
  unfolding checked_call
proof (rule guarded_intro)
  show "(case validateMessageConfig cfg of Ret _ \<Rightarrow> call | Fail e \<Rightarrow> raise e | Panic \<Rightarrow> (\<lambda>r. Some (Panic, r))) = call" if "valid_message cfg"
    using that by (simp add: validateMessageConfig_valid)
  show "refuses (case validateMessageConfig cfg of Ret _ \<Rightarrow> call | Fail e \<Rightarrow> raise e | Panic \<Rightarrow> (\<lambda>r. Some (Panic, r)))" if "\<not> valid_message cfg"
    by (rule refuses_check [OF validateMessageConfig_invalid [OF that]])
qed

text \<open>Every operation checks first. On a modem that is closed, or with an argument the code calls invalid, it returns
  an error and the device has not been asked anything; otherwise it is the backend's method, its result and its
  effect.\<close>

theorem modem_operations_guarded:
  "guarded (slot \<noteq> 0) m (SetPrimarySIMSlot f1 m slot) (f1 slot) \<and>
   guarded (state \<in> {PacketServiceAttached, PacketServiceDetached}) m (SetPacketServiceState f2 m state) (f2 state) \<and>
   guarded (valid_key facility key) m (SetFacilityLock f3 m facility enabled key) (f3 facility enabled key) \<and>
   guarded (valid_key facility key) m (UnblockFacilityLock f4 m facility key) (f4 facility key) \<and>
   guarded (0 \<le> ie_ProfileID eps \<and> valid_family (ie_IPFamily eps)) m (SetInitialEPSSettings f5 m eps) (f5 eps) \<and>
   guarded (pc_APNType profile AND NOT APNTypeAny = 0) m (CreateProfile f6 m profile) (f6 profile) \<and>
   guarded (0 \<le> pu_ID update \<and> (case pu_APNType update of None \<Rightarrow> True | Some t \<Rightarrow> t AND NOT APNTypeAny = 0)) m (UpdateProfile f7 m update) (f7 update) \<and>
   guarded (0 \<le> n) m (DeleteProfile f8 m n) (f8 n) \<and>
   guarded (valid_message msg) m (SendMessage f9 m msg) (f9 msg) \<and>
   guarded (valid_message msg) m (StoreMessage f10 m msg) (f10 msg) \<and>
   guarded (pdu \<noteq> []) m (SendPDU f11 m pdu) (f11 pdu) \<and>
   guarded (txt \<noteq> []) m (InitiateUSSD f12 m txt) (f12 txt) \<and>
   guarded (txt \<noteq> []) m (RespondUSSD f13 m txt) (f13 txt)"
  unfolding SetPrimarySIMSlot_def SetPacketServiceState_def SetFacilityLock_def UnblockFacilityLock_def SetInitialEPSSettings_def CreateProfile_def
    UpdateProfile_def DeleteProfile_def SendMessage_def StoreMessage_def SendPDU_def InitiateUSSD_def RespondUSSD_def
  by (intro conjI guarded_key guarded_message guarded_intro)
    (auto simp: unless_def refuses_raise valid_family_def split: option.splits)

end
