(* ===== verification/Modem_Session.thy ===== *)
theory Modem_Session
  imports Modem_Bearers
begin

text \<open>
  A bearer over a concrete data session: \<^verbatim>\<open>Bearer.Disconnect\<close> and \<^verbatim>\<open>Bearer.Close\<close> of \<^verbatim>\<open>modem/modem.go\<close> with the
  \<^verbatim>\<open>Disconnect\<close>, \<^verbatim>\<open>Close\<close> and \<^verbatim>\<open>Info().Connected\<close> of \<^verbatim>\<open>contract.Session\<close> filled in, and the contract under
  which a closed bearer has given everything back. A session is passed with the state of its backend.
\<close>

section \<open>Bearers over sessions\<close>

fun failure :: "('e, 'a) outcome \<Rightarrow> 'e option" where
  "failure (Fail e) = Some e"
| "failure _ = None"

type_synonym ('s, 'k, 'e) session_call = "'s \<Rightarrow> 'k \<Rightarrow> ('e, unit) outcome \<times> 's \<times> 'k"

definition over_Disconnect ::
  "('s, 'k, 'e) session_call \<Rightarrow> ('s \<Rightarrow> bool) \<Rightarrow> 's \<Rightarrow> Bearer \<Rightarrow> 'k \<Rightarrow> 'e option \<times> Bearer \<times> 's \<times> 'k" where
  "over_Disconnect disconnect connected s b k =
     (if br_closed b then (None, b, s, k)
      else
        (case disconnect s k of (res, s', k') \<Rightarrow>
         case bearer_Disconnect (failure res) (connected s') b of (err, b', removed) \<Rightarrow> (err, b', s', k')))"

definition over_closeOwned :: "('s, 'k, 'e) session_call \<Rightarrow> 's \<Rightarrow> Bearer \<Rightarrow> 'k \<Rightarrow> 'e option \<times> Bearer \<times> 's \<times> 'k" where
  "over_closeOwned close s b k =
     (if br_closed b then (None, b, s, k)
      else
        (case close s k of (res, s', k') \<Rightarrow>
         case closeOwned (failure res) b of (err, b', removed) \<Rightarrow> (err, b', s', k')))"

definition over_Close ::
  "('s, 'k, 'e) session_call \<Rightarrow> ('s, 'k, 'e) session_call \<Rightarrow> ('s \<Rightarrow> bool) \<Rightarrow> 's \<Rightarrow> Bearer \<Rightarrow> 'k \<Rightarrow> 'e list \<times> Bearer \<times> 's \<times> 'k" where
  "over_Close disconnect close connected s b k =
     (case over_Disconnect disconnect connected s b k of
        (None, b', s', k') \<Rightarrow> ([], b', s', k')
      | (Some e, b', s', k') \<Rightarrow>
          (case over_closeOwned close s' b' k' of (err, b'', s'', k'') \<Rightarrow>
             (e # (case err of None \<Rightarrow> [] | Some e' \<Rightarrow> [e']), b'', s'', k'')))"

section \<open>The contract of a session\<close>

text \<open>
  What the bearer relies on: \<^verbatim>\<open>Disconnect\<close> that succeeds, or after which the session reports that it is not
  connected, and \<^verbatim>\<open>Close\<close> in any case, leave nothing of the session behind in the backend. \<open>holds s k\<close> says
  that something is left; \<open>usable\<close> is the invariant of a session and its backend.
\<close>

locale session_contract =
  fixes disconnect close :: "('s, 'k, 'e) session_call"
    and connected :: "'s \<Rightarrow> bool"
    and holds :: "'s \<Rightarrow> 'k \<Rightarrow> bool"
    and usable :: "'s \<Rightarrow> 'k \<Rightarrow> bool"
  assumes disconnect_usable: "usable s k \<Longrightarrow> disconnect s k = (res, s', k') \<Longrightarrow> usable s' k'"
    and disconnect_gives_back: "usable s k \<Longrightarrow> disconnect s k = (res, s', k') \<Longrightarrow> res = Ret () \<or> res \<noteq> Panic \<and> \<not> connected s' \<Longrightarrow> \<not> holds s' k'"
    and disconnect_no_panic: "usable s k \<Longrightarrow> fst (disconnect s k) \<noteq> Panic"
    and close_gives_back: "usable s k \<Longrightarrow> close s k = (res, s', k') \<Longrightarrow> \<not> holds s' k'"
begin

lemma over_Disconnect_gives_back:
  assumes "usable s k" "\<not> br_closed b" "over_Disconnect disconnect connected s b k = (err, b', s', k')"
  shows "usable s' k' \<and> (br_closed b' \<longrightarrow> \<not> holds s' k') \<and> (\<not> br_closed b' \<longrightarrow> b' = b \<and> err \<noteq> None)"
proof -
  obtain res where d: "disconnect s k = (res, s', k')" "bearer_Disconnect (failure res) (connected s') b = (err, b', br_closed b')"
    using assms(2, 3) by (auto simp: over_Disconnect_def bearer_Disconnect_def closeDone_def split: prod.splits if_splits)
  have "res \<noteq> Panic" using disconnect_no_panic [OF assms(1)] d(1) by simp
  then have "res = Ret () \<or> (\<exists>e. res = Fail e)" by (cases res) auto
  with d(2) assms(2) have "br_closed b' \<Longrightarrow> res = Ret () \<or> res \<noteq> Panic \<and> \<not> connected s'" "\<not> br_closed b' \<Longrightarrow> b' = b \<and> err \<noteq> None"
    by (auto simp: bearer_Disconnect_def closeDone_def split: if_splits)
  then show ?thesis using disconnect_usable [OF assms(1) d(1)] disconnect_gives_back [OF assms(1) d(1)] by blast
qed

lemma over_Close_gives_back:
  assumes "usable s k" "\<not> br_closed b" "over_Close disconnect close connected s b k = (errs, b', s', k')"
  shows "br_closed b' \<and> \<not> holds s' k'"
proof -
  obtain err b1 s1 k1 where d: "over_Disconnect disconnect connected s b k = (err, b1, s1, k1)" by (metis prod_cases4)
  note given = over_Disconnect_gives_back [OF assms(1, 2) d]
  show ?thesis
  proof (cases "br_closed b1")
    case True
    with given d assms(3) show ?thesis by (auto simp: over_Close_def over_closeOwned_def split: option.splits)
  next
    case False
    then obtain e where "err = Some e" using given by fast
    moreover obtain res s2 k2 where c: "close s1 k1 = (res, s2, k2)" by (metis prod_cases3)
    ultimately have "b' = closeDone (b1\<lparr>br_closed := True\<rparr>) \<and> s' = s2 \<and> k' = k2"
      using False d assms(3) by (simp add: over_Close_def over_closeOwned_def closeOwned_def)
    then show ?thesis using close_gives_back [OF _ c] given by (simp add: closeDone_def)
  qed
qed

end

end
