(* ===== verification/Modem_Mbim.thy ===== *)
theory Modem_Mbim
  imports Modem_Session
begin

text \<open>
  Data sessions of the MBIM backend (\<^verbatim>\<open>modem/mbim/bearer.go\<close>): the session numbers the backend hands out, stale
  sessions left by an earlier process, connecting, watching and disconnecting. The MBIM client is a parameter, a
  record of the requests the sessions make; the IP configuration is a value of the client's. A session is
  what a bearer owns, and the last section puts the two together.
\<close>

section \<open>Requests\<close>

datatype ActivationState =
    ActivationStateUnknown
  | ActivationStateActivated
  | ActivationStateActivating
  | ActivationStateDeactivated
  | ActivationStateDeactivating

datatype ActivationCommand = ActivationCommandDeactivate | ActivationCommandActivate

datatype AuthProtocol = AuthProtocolNone | AuthProtocolPAP | AuthProtocolCHAP | AuthProtocolMSCHAPV2

datatype ContextIPType = ContextIPTypeDefault | ContextIPTypeIPv4 | ContextIPTypeIPv6 | ContextIPTypeIPv4v6 | ContextIPTypeIPv4AndIPv6

text \<open>Every request is for an Internet context; the other fields are zero.\<close>

record MConnect =
  mk_SessionID :: u32
  mk_ActivationCommand :: ActivationCommand
  mk_AccessString :: bytes
  mk_UserName :: bytes
  mk_Password :: bytes
  mk_AuthProtocol :: AuthProtocol
  mk_IPType :: ContextIPType

record Profile =
  pf_ID :: int
  pf_APN :: bytes
  pf_IPFamily :: byte
  pf_Authentication :: byte
  pf_Username :: bytes
  pf_Password :: bytes
  pf_APNType :: u64
  pf_Enabled :: bool

text \<open>\<open>q_NotActivated\<close> is \<^verbatim>\<open>errors.Is(err, StatusContextNotActivated)\<close>.\<close>

record ('w, 'e, 'i) MClient =
  q_DeviceCaps :: "'w \<Rightarrow> ('e, u32) outcome \<times> 'w"
  q_Profiles :: "'w \<Rightarrow> ('e, Profile list) outcome \<times> 'w"
  q_QueryConnect :: "u32 \<Rightarrow> 'w \<Rightarrow> ('e, ActivationState) outcome \<times> 'w"
  q_SetConnect :: "MConnect \<Rightarrow> 'w \<Rightarrow> ('e, ActivationState) outcome \<times> 'w"
  q_IPConfiguration :: "u32 \<Rightarrow> 'w \<Rightarrow> ('e, 'i) outcome \<times> 'w"
  q_NotActivated :: "'e \<Rightarrow> bool"

definition AuthenticationPAP :: byte where "AuthenticationPAP = 2"
definition AuthenticationCHAP :: byte where "AuthenticationCHAP = 4"
definition AuthenticationMSCHAPv2 :: byte where "AuthenticationMSCHAPv2 = 8"

definition authProtocol :: "byte \<Rightarrow> AuthProtocol" where
  "authProtocol a =
     (if a AND AuthenticationMSCHAPv2 \<noteq> 0 then AuthProtocolMSCHAPV2
      else if a AND AuthenticationCHAP \<noteq> 0 then AuthProtocolCHAP
      else if a AND AuthenticationPAP \<noteq> 0 then AuthProtocolPAP
      else AuthProtocolNone)"

definition contextIPType :: "byte \<Rightarrow> ContextIPType" where
  "contextIPType f =
     (if f = IPFamilyIPv4 then ContextIPTypeIPv4
      else if f = IPFamilyIPv6 then ContextIPTypeIPv6
      else if f = IPFamilyIPv4v6 then ContextIPTypeIPv4v6
      else ContextIPTypeDefault)"

definition deactivation :: "u32 \<Rightarrow> MConnect" where
  "deactivation n = \<lparr>mk_SessionID = n, mk_ActivationCommand = ActivationCommandDeactivate, mk_AccessString = [], mk_UserName = [], mk_Password = [],
     mk_AuthProtocol = AuthProtocolNone, mk_IPType = ContextIPTypeDefault\<rparr>"

definition activation :: "u32 \<Rightarrow> ConnectConfig \<Rightarrow> MConnect" where
  "activation n cfg = \<lparr>mk_SessionID = n, mk_ActivationCommand = ActivationCommandActivate, mk_AccessString = cc_APN cfg, mk_UserName = cc_Username cfg,
     mk_Password = cc_Password cfg, mk_AuthProtocol = authProtocol (cc_Authentication cfg), mk_IPType = contextIPType (cc_IPFamily cfg)\<rparr>"

section \<open>State\<close>

datatype 'e mbim_error =
    ClientFailed 'e
  | ProfileNotFound int
  | ExceedsMaximum u32 u32
  | IDInUse u32
  | AllInUse u32
  | QueryingStale u32 'e
  | DisconnectingStale u32 'e
  | PreparingFailed "'e mbim_error"
  | ConnectFailed u32 'e
  | NotActivatedState u32 ActivationState
  | ReadingIP 'e "'e option"
  | DisconnectFailed u32 'e

text \<open>The session numbers in use are the keys of \<^verbatim>\<open>slots\<close>; a nil map has none.\<close>

record 'w MBackend =
  k_client :: 'w
  k_slots :: "u32 set"
  k_prepared :: bool

type_synonym ('w, 'e, 'a) mbim_action = "('w MBackend, 'e mbim_error, 'a) action"

record 'i MSession =
  ms_id :: u32
  ms_Connected :: bool
  ms_ProfileID :: int
  ms_APN :: bytes
  ms_Interface :: bytes
  ms_IP :: 'i
  ms_closed :: bool

definition ask :: "('w \<Rightarrow> ('e, 'a) outcome \<times> 'w) \<Rightarrow> ('w MBackend, 'e, 'a) action" where
  "ask f k = (case f (k_client k) of (res, w) \<Rightarrow> Some (res, k\<lparr>k_client := w\<rparr>))"

section \<open>Session numbers\<close>

text \<open>The first free number below the maximum.\<close>

definition first_free :: "u32 \<Rightarrow> u32 set \<Rightarrow> u32 option" where
  "first_free maximum slots = find (\<lambda>n. n \<notin> slots) (map of_nat [0..<unat maximum])"

definition reserveSessionID :: "u32 \<Rightarrow> u32 option \<Rightarrow> ('w, 'e, u32) mbim_action" where
  "reserveSessionID maximum requested k =
     (case requested of
        Some n \<Rightarrow>
          if maximum \<le> n then Some (Fail (ExceedsMaximum n (maximum - 1)), k)
          else if n \<in> k_slots k then Some (Fail (IDInUse n), k)
          else Some (Ret n, k\<lparr>k_slots := insert n (k_slots k)\<rparr>)
      | None \<Rightarrow>
          (case first_free maximum (k_slots k) of
             Some n \<Rightarrow> Some (Ret n, k\<lparr>k_slots := insert n (k_slots k)\<rparr>)
           | None \<Rightarrow> Some (Fail (AllInUse maximum), k)))"

definition releaseSession :: "u32 \<Rightarrow> 'w MBackend \<Rightarrow> 'w MBackend" where
  "releaseSession n k = k\<lparr>k_slots := k_slots k - {n}\<rparr>"

section \<open>Stale sessions\<close>

definition cleanup_one :: "('w, 'e, 'i) MClient \<Rightarrow> u32 \<Rightarrow> ('w, 'e, unit) mbim_action" where
  "cleanup_one c n =
     and_then (attempt (ask (q_QueryConnect c n))) (\<lambda>res.
       case res of
         Fail e \<Rightarrow> if q_NotActivated c e then done_with () else raise (QueryingStale n e)
       | Panic \<Rightarrow> done_with ()
       | Ret state \<Rightarrow>
           if state = ActivationStateUnknown \<or> state = ActivationStateDeactivated then done_with ()
           else and_then (attempt (ask (q_SetConnect c (deactivation n)))) (\<lambda>res.
             case res of
               Fail e \<Rightarrow> if q_NotActivated c e then done_with () else raise (DisconnectingStale n e)
             | _ \<Rightarrow> done_with ()))"

definition cleanupStaleSessions :: "('w, 'e, 'i) MClient \<Rightarrow> u32 \<Rightarrow> ('w, 'e, unit) mbim_action" where
  "cleanupStaleSessions c maximum =
     and_then (map_actions (cleanup_one c) (map of_nat [0..<unat maximum])) (\<lambda>_. done_with ())"

definition prepareSessions :: "('w, 'e, 'i) MClient \<Rightarrow> u32 \<Rightarrow> ('w, 'e, unit) mbim_action" where
  "prepareSessions c maximum =
     and_then get (\<lambda>k.
       if k_prepared k then done_with ()
       else and_then (map_action_err PreparingFailed (cleanupStaleSessions c maximum)) (\<lambda>_.
            modify (\<lambda>k. k\<lparr>k_prepared := True\<rparr>)))"

definition reserveSession :: "('w, 'e, 'i) MClient \<Rightarrow> u32 option \<Rightarrow> ('w, 'e, u32) mbim_action" where
  "reserveSession c requested =
     and_then (map_action_err ClientFailed (ask (q_DeviceCaps c))) (\<lambda>caps.
     let maximum = (if caps = 0 then 1 else caps) in
     and_then (prepareSessions c maximum) (\<lambda>_. reserveSessionID maximum requested))"

section \<open>Sessions\<close>

definition find_profile :: "('w, 'e, 'i) MClient \<Rightarrow> int \<Rightarrow> ('w, 'e, Profile) mbim_action" where
  "find_profile c n =
     and_then (map_action_err ClientFailed (ask (q_Profiles c))) (\<lambda>ps.
       case find (\<lambda>p. pf_ID p = n) ps of Some p \<Rightarrow> done_with p | None \<Rightarrow> raise (ProfileNotFound n))"

definition with_profile :: "Profile \<Rightarrow> ConnectConfig \<Rightarrow> ConnectConfig" where
  "with_profile p cfg =
     cfg\<lparr>cc_APN := pf_APN p, cc_Authentication := pf_Authentication p, cc_Username := pf_Username p, cc_Password := pf_Password p,
         cc_IPFamily := (if cc_IPFamily cfg = 0 then pf_IPFamily p else cc_IPFamily cfg)\<rparr>"

text \<open>A profile gives the inline settings; the address family only if none was asked for.\<close>

definition configured :: "('w, 'e, 'i) MClient \<Rightarrow> ConnectConfig \<Rightarrow> ('w, 'e, ConnectConfig) mbim_action" where
  "configured c cfg =
     (if cc_ProfileID cfg \<noteq> 0 then and_then (find_profile c (cc_ProfileID cfg)) (\<lambda>p. done_with (with_profile p cfg)) else done_with cfg)"

text \<open>The body between the reservation and its release: it runs with the number reserved.\<close>

definition open_session :: "('w, 'e, 'i) MClient \<Rightarrow> ConnectConfig \<Rightarrow> u32 \<Rightarrow> ('w, 'e, 'i MSession) mbim_action" where
  "open_session c cfg n =
     and_then (map_action_err (ConnectFailed n) (ask (q_SetConnect c (activation n cfg)))) (\<lambda>state.
     unless (state \<noteq> ActivationStateActivated) (NotActivatedState n state)
      (and_then (attempt (ask (q_IPConfiguration c n))) (\<lambda>res.
         case res of
           Ret ip \<Rightarrow> done_with \<lparr>ms_id = n, ms_Connected = True, ms_ProfileID = cc_ProfileID cfg, ms_APN = cc_APN cfg, ms_Interface = cc_Interface cfg,
                                ms_IP = ip, ms_closed = False\<rparr>
         | Fail e \<Rightarrow>
             and_then (attempt (ask (q_SetConnect c (deactivation n)))) (\<lambda>res.
               raise (ReadingIP e (case res of Fail e' \<Rightarrow> Some e' | _ \<Rightarrow> None)))
         | Panic \<Rightarrow> (\<lambda>k. Some (Panic, k)))))"

text \<open>The deferred release runs unless a session was made, on an error or a panic.\<close>

definition releasing_unless_made :: "u32 \<Rightarrow> ('w, 'e, 'a) mbim_action \<Rightarrow> ('w, 'e, 'a) mbim_action" where
  "releasing_unless_made n m k =
     (case m k of
        None \<Rightarrow> None
      | Some (Ret s, k') \<Rightarrow> Some (Ret s, k')
      | Some (res, k') \<Rightarrow> Some (res, releaseSession n k'))"

definition ConnectPort :: "('w, 'e, 'i) MClient \<Rightarrow> ConnectConfig \<Rightarrow> ('w, 'e, 'i MSession) mbim_action" where
  "ConnectPort c cfg0 =
     and_then (configured c cfg0) (\<lambda>cfg.
     and_then (reserveSession c (cc_SessionID cfg)) (\<lambda>n.
     releasing_unless_made n (open_session c cfg n)))"

text \<open>One poll of \<^verbatim>\<open>Watch\<close>, and \<^verbatim>\<open>Disconnect\<close>, which is also \<^verbatim>\<open>Close\<close> under a timeout of its own.\<close>

definition session_poll :: "('w, 'e, 'i) MClient \<Rightarrow> 'i MSession \<Rightarrow> 'w MBackend \<Rightarrow> (('e, unit) outcome \<times> 'i MSession \<times> 'w MBackend)" where
  "session_poll c s k =
     (case q_QueryConnect c (ms_id s) (k_client k) of
        (Fail e, w) \<Rightarrow> (Fail e, s, k\<lparr>k_client := w\<rparr>)
      | (Panic, w) \<Rightarrow> (Panic, s, k\<lparr>k_client := w\<rparr>)
      | (Ret state, w) \<Rightarrow>
          let s' = s\<lparr>ms_Connected := (state = ActivationStateActivated)\<rparr> in
          if ms_Connected s' then
            (case q_IPConfiguration c (ms_id s) w of
               (Ret ip, w') \<Rightarrow> (Ret (), s'\<lparr>ms_IP := ip\<rparr>, k\<lparr>k_client := w'\<rparr>)
             | (Fail e, w') \<Rightarrow> (Fail e, s', k\<lparr>k_client := w'\<rparr>)
             | (Panic, w') \<Rightarrow> (Panic, s', k\<lparr>k_client := w'\<rparr>))
          else (Ret (), s', k\<lparr>k_client := w\<rparr>))"

definition session_Disconnect :: "('w, 'e, 'i) MClient \<Rightarrow> 'i MSession \<Rightarrow> 'w MBackend \<Rightarrow> ('e mbim_error, unit) outcome \<times> 'i MSession \<times> 'w MBackend" where
  "session_Disconnect c s k =
     (if ms_closed s then (Ret (), s, k)
      else
        (case q_SetConnect c (deactivation (ms_id s)) (k_client k) of
           (Fail e, w) \<Rightarrow> (Fail (DisconnectFailed (ms_id s) e), s, k\<lparr>k_client := w\<rparr>)
         | (Panic, w) \<Rightarrow> (Panic, s, k\<lparr>k_client := w\<rparr>)
         | (Ret state, w) \<Rightarrow>
             (Ret (), s\<lparr>ms_closed := True, ms_Connected := False\<rparr>, releaseSession (ms_id s) (k\<lparr>k_client := w\<rparr>))))"

section \<open>Bearers over these sessions\<close>

definition mbim_bearer_Disconnect ::
  "('w, 'e, 'i) MClient \<Rightarrow> 'i MSession \<Rightarrow> Bearer \<Rightarrow> 'w MBackend \<Rightarrow> 'e mbim_error option \<times> Bearer \<times> 'i MSession \<times> 'w MBackend" where
  "mbim_bearer_Disconnect c = over_Disconnect (session_Disconnect c) ms_Connected"

definition mbim_bearer_Close ::
  "('w, 'e, 'i) MClient \<Rightarrow> 'i MSession \<Rightarrow> Bearer \<Rightarrow> 'w MBackend \<Rightarrow> 'e mbim_error list \<times> Bearer \<times> 'i MSession \<times> 'w MBackend" where
  "mbim_bearer_Close c = over_Close (session_Disconnect c) (session_Disconnect c) ms_Connected"

section \<open>Session numbers are kept\<close>

definition same_slots :: "('w, 'e, 'a) mbim_action \<Rightarrow> bool" where
  "same_slots m \<longleftrightarrow> (\<forall>k res k'. m k = Some (res, k') \<longrightarrow> k_slots k' = k_slots k)"

lemma same_slots_simple: "same_slots (done_with v)" "same_slots (raise e)"
  by (simp_all add: same_slots_def done_with_def raise_def)

lemma same_slots_panic: "same_slots (\<lambda>k. Some (Panic, k))"
  by (simp add: same_slots_def)

lemma same_slots_ask: "same_slots (map_action_err h (ask f))" "same_slots (attempt (ask f))"
  by (auto simp: same_slots_def map_action_err_def attempt_def ask_def split: prod.splits outcome.splits)

lemma same_slots_and_then: "same_slots m \<Longrightarrow> (\<And>v. same_slots (f v)) \<Longrightarrow> same_slots (and_then m f)"
  by (fastforce simp: same_slots_def and_then_def split: option.splits outcome.splits)

lemma same_slots_map: "(\<And>x. same_slots (f x)) \<Longrightarrow> same_slots (map_actions f xs)"
  by (induction xs) (auto intro!: same_slots_and_then same_slots_simple)

lemma same_slots_map_err: "same_slots m \<Longrightarrow> same_slots (map_action_err h m)"
  by (auto simp: same_slots_def map_action_err_def)

lemma same_slots_unless: "same_slots m \<Longrightarrow> same_slots (unless b e m)"
  by (simp add: unless_def same_slots_simple)

lemma same_slots_get: "(\<And>k. same_slots (f k)) \<Longrightarrow> same_slots (and_then get f)"
  by (simp add: same_slots_def and_then_def get_def)

lemma same_slots_cleanup: "same_slots (cleanup_one c n)"
  unfolding cleanup_one_def
  by (intro same_slots_and_then same_slots_ask) (auto intro!: same_slots_simple same_slots_and_then same_slots_ask split: outcome.splits)

lemma same_slots_prepare: "same_slots (prepareSessions c maximum)"
proof -
  have "same_slots (modify (\<lambda>k. k\<lparr>k_prepared := True\<rparr>))" by (simp add: same_slots_def modify_def)
  then show ?thesis
    unfolding prepareSessions_def cleanupStaleSessions_def
    by (intro same_slots_get) (auto intro!: same_slots_and_then same_slots_map_err same_slots_map same_slots_cleanup same_slots_simple)
qed

lemma same_slots_open: "same_slots (open_session c cfg n)"
  unfolding open_session_def
  by (intro same_slots_and_then same_slots_ask same_slots_unless)
    (auto intro!: same_slots_simple same_slots_and_then same_slots_ask same_slots_panic split: outcome.splits)

lemma same_slots_profile: "same_slots (find_profile c n)"
  unfolding find_profile_def by (intro same_slots_and_then same_slots_ask) (auto intro!: same_slots_simple split: option.splits)

lemma first_free_Some: "first_free maximum slots = Some n \<Longrightarrow> n \<notin> slots \<and> n < maximum"
  by (auto simp: first_free_def find_Some_iff word_less_nat_alt unsigned_of_nat take_bit_nat_eq_self order.strict_trans)

lemma first_free_None: "first_free maximum slots = None \<longleftrightarrow> (\<forall>n < maximum. n \<in> slots)"
proof -
  have "set (map of_nat [0..<unat maximum]) = {n. n < maximum}"
  proof (intro set_eqI iffI)
    fix n
    assume "n \<in> {n. n < maximum}"
    then show "n \<in> set (map of_nat [0..<unat maximum])"
      by (auto simp: word_less_nat_alt intro!: image_eqI [of _ _ "unat n"])
  qed (auto simp: word_less_nat_alt unsigned_of_nat take_bit_nat_eq_self order.strict_trans)
  then show ?thesis by (auto simp: first_free_def find_None_iff)
qed

definition reserved :: "u32 option \<Rightarrow> (u32 set) \<Rightarrow> ('f, u32) outcome \<Rightarrow> u32 set \<Rightarrow> bool" where
  "reserved requested before res after \<longleftrightarrow>
     (case res of Ret n \<Rightarrow> n \<notin> before \<and> after = insert n before \<and> requested \<in> {None, Some n} | _ \<Rightarrow> after = before)"

lemma reserveSessionID_reserved:
  "reserveSessionID maximum requested k = Some (res, k') \<Longrightarrow> reserved requested (k_slots k) res (k_slots k')"
  by (auto simp: reserveSessionID_def reserved_def dest: first_free_Some split: option.splits if_splits)

lemma same_slots_then:
  assumes "same_slots m" "\<And>v k res k'. f v k = Some (res, k') \<Longrightarrow> P (k_slots k) res (k_slots k')"
    and "\<And>e slots. P slots (Fail e) slots" "\<And>slots. P slots Panic slots"
    and "and_then m f k = Some (res, k')"
  shows "P (k_slots k) res (k_slots k')"
  using assms unfolding same_slots_def and_then_def by (auto split: option.splits outcome.splits prod.splits) metis

lemma reserved_other: "reserved requested slots (Fail e) slots" "reserved requested slots Panic slots"
  by (simp_all add: reserved_def)

lemma reserveSession_reserved: "reserveSession c requested k = Some (res, k') \<Longrightarrow> reserved requested (k_slots k) res (k_slots k')"
proof (unfold reserveSession_def Let_def, erule same_slots_then [rotated -1, where P = "reserved requested"], goal_cases)
  case (2 caps k res k')
  show ?case
    by (rule same_slots_then [where P = "reserved requested", OF same_slots_prepare _ _ _ 2]) (auto simp: reserved_other intro: reserveSessionID_reserved)
qed (auto simp: reserved_other same_slots_ask)

definition connected :: "u32 option \<Rightarrow> u32 set \<Rightarrow> ('f, 'i MSession) outcome \<Rightarrow> u32 set \<Rightarrow> bool" where
  "connected requested before res after \<longleftrightarrow>
     (case res of
        Ret s \<Rightarrow> ms_id s \<notin> before \<and> after = insert (ms_id s) before \<and> requested \<in> {None, Some (ms_id s)} \<and> ms_Connected s \<and> \<not> ms_closed s
      | _ \<Rightarrow> after = before)"

lemma connected_other: "connected requested slots (Fail e) slots" "connected requested slots Panic slots"
  by (simp_all add: connected_def)

lemma yields_panic: "yields (\<lambda>k. Some (Panic, k)) Q"
  by (simp add: yields_def)

lemma open_session_made: "yields (open_session c cfg n) (\<lambda>s. ms_id s = n \<and> ms_Connected s \<and> \<not> ms_closed s)"
  unfolding open_session_def
  by (intro yields_and_then [OF yields_True] yields_unless)
    (auto intro!: yields_done yields_and_then [OF yields_True] yields_raise yields_panic split: outcome.splits)

lemma reserve_then_open:
  assumes "and_then (reserveSession c requested) (\<lambda>n. releasing_unless_made n (open_session c cfg n)) k = Some (res, k')"
  shows "connected requested (k_slots k) res (k_slots k')"
proof -
  obtain r1 k1 where r1: "reserveSession c requested k = Some (r1, k1)"
    using assms by (auto simp: and_then_def split: option.splits)
  note kept = reserveSession_reserved [OF r1]
  show ?thesis
  proof (cases r1)
    case (Ret n)
    with assms r1 obtain r2 k2 where r2: "open_session c cfg n k1 = Some (r2, k2)"
      and res: "res = r2" "k' = (case r2 of Ret _ \<Rightarrow> k2 | _ \<Rightarrow> releaseSession n k2)"
      by (auto simp: and_then_def releasing_unless_made_def split: option.splits outcome.splits)
    have "k_slots k2 = k_slots k1" using same_slots_open r2 unfolding same_slots_def by blast
    moreover have "ms_id s = n \<and> ms_Connected s \<and> \<not> ms_closed s" if "r2 = Ret s" for s
      using open_session_made [of c cfg n] r2 that unfolding yields_def by blast
    ultimately show ?thesis
      using kept Ret res by (cases r2) (auto simp: connected_def reserved_def releaseSession_def)
  qed (use assms r1 kept in \<open>auto simp: and_then_def connected_def reserved_def\<close>)
qed

lemma with_profile_id [simp]: "cc_SessionID (with_profile p cfg) = cc_SessionID cfg"
  by (simp add: with_profile_def)

lemma same_slots_configured: "same_slots (configured c cfg)"
  unfolding configured_def by (auto intro!: same_slots_and_then same_slots_profile same_slots_simple)

lemma configured_id: "yields (configured c cfg) (\<lambda>cfg'. cc_SessionID cfg' = cc_SessionID cfg)"
  unfolding configured_def by (auto intro!: yields_and_then [OF yields_True] yields_done)

lemma ConnectPort_connected:
  assumes "ConnectPort c cfg k = Some (res, k')"
  shows "connected (cc_SessionID cfg) (k_slots k) res (k_slots k')"
proof -
  from assms obtain r1 k1 where r1: "configured c cfg k = Some (r1, k1)"
    unfolding ConnectPort_def by (auto simp: and_then_def split: option.splits)
  have slots: "k_slots k1 = k_slots k" using same_slots_configured r1 unfolding same_slots_def by blast
  show ?thesis
  proof (cases r1)
    case (Ret cfg')
    have "cc_SessionID cfg' = cc_SessionID cfg" using configured_id [of c cfg] r1 Ret unfolding yields_def by blast
    moreover have "and_then (reserveSession c (cc_SessionID cfg')) (\<lambda>n. releasing_unless_made n (open_session c cfg' n)) k1 = Some (res, k')"
      using assms r1 Ret unfolding ConnectPort_def by (simp add: and_then_def [of "configured c cfg"])
    ultimately show ?thesis using reserve_then_open slots by metis
  qed (use assms r1 slots in \<open>auto simp: ConnectPort_def and_then_def connected_def\<close>)
qed

lemma session_Disconnect_slots:
  assumes "session_Disconnect c s k = (Ret (), s', k')" "\<not> ms_closed s"
  shows "k_slots k' = k_slots k - {ms_id s} \<and> ms_closed s'"
  using assms by (auto simp: session_Disconnect_def releaseSession_def split: prod.splits outcome.splits)

lemma session_Disconnect_again: "ms_closed s \<Longrightarrow> session_Disconnect c s k = (Ret (), s, k)"
  by (simp add: session_Disconnect_def)

section \<open>Properties\<close>

text \<open>C24: session numbers are exact. \<^verbatim>\<open>ConnectPort\<close> gives a session with a number that was free
  and is now taken, the requested one if one was requested; if it fails, at whatever step, no number is taken.
  Disconnecting successfully frees the number again, and doing it twice changes nothing.\<close>

theorem mbim_session_numbers_exact:
  assumes "ConnectPort c cfg k = Some (res, k')"
  shows "case res of
      Ret s \<Rightarrow> ms_id s \<notin> k_slots k \<and> k_slots k' = insert (ms_id s) (k_slots k) \<and> cc_SessionID cfg \<in> {None, Some (ms_id s)} \<and>
        (\<forall>k1 s' k2. k_slots k1 = k_slots k' \<and> session_Disconnect c s k1 = (Ret (), s', k2) \<longrightarrow>
           k_slots k2 = k_slots k \<and> session_Disconnect c s' k2 = (Ret (), s', k2))
    | _ \<Rightarrow> k_slots k' = k_slots k"
proof (cases res)
  case (Ret s)
  have s: "ms_id s \<notin> k_slots k" "k_slots k' = insert (ms_id s) (k_slots k)" "cc_SessionID cfg \<in> {None, Some (ms_id s)}" "\<not> ms_closed s"
    using ConnectPort_connected [OF assms] Ret by (simp_all add: connected_def)
  have "k_slots k2 = k_slots k \<and> session_Disconnect c s' k2 = (Ret (), s', k2)"
    if "k_slots k1 = k_slots k' \<and> session_Disconnect c s k1 = (Ret (), s', k2)" for k1 s' k2
  proof -
    from that have "session_Disconnect c s k1 = (Ret (), s', k2)" by blast
    from session_Disconnect_slots [OF this s(4)] show ?thesis using s(1, 2) that by (simp add: session_Disconnect_again)
  qed
  then show ?thesis unfolding Ret outcome.case using s(1, 2, 3) by blast
qed (use ConnectPort_connected [OF assms] in \<open>simp_all add: connected_def\<close>)

text \<open>C26: a session the network has dropped keeps its number. When the modem answers every deactivation with an error,
  which is what it does when the context is not active any more, \<^verbatim>\<open>session.Disconnect\<close> leaves
  the number in \<^verbatim>\<open>slots\<close>, while \<^verbatim>\<open>Bearer.Close\<close> marks the bearer
  closed all the same, and from then on no call on the bearer reaches the session. Nothing frees the number
  until the process ends: on a modem with one session, \<^verbatim>\<open>Connect\<close> fails for good.
  (Cleaning up stale sessions treats the same answer as success.)\<close>

theorem mbim_dropped_session_keeps_number:
  assumes "\<And>w. fst (q_SetConnect c (deactivation (ms_id s)) w) = Fail e"
    and "\<not> ms_closed s" "ms_id s \<in> k_slots k" "\<not> br_closed b"
  shows "\<exists>errs b' k'. mbim_bearer_Close c s b k = (errs, b', s, k') \<and> br_closed b' \<and> k_slots k' = k_slots k \<and>
    (\<forall>k1. mbim_bearer_Close c s b' k1 = ([], b', s, k1) \<and> mbim_bearer_Disconnect c s b' k1 = (None, b', s, k1)) \<and>
    (k_slots k = {0} \<longrightarrow> reserveSessionID 1 None k' = Some (Fail (AllInUse 1), k'))"
proof -
  define w where "w v = snd (q_SetConnect c (deactivation (ms_id s)) v)" for v
  have stays: "session_Disconnect c s k1 = (Fail (DisconnectFailed (ms_id s) e), s, k1\<lparr>k_client := w (k_client k1)\<rparr>)" for k1
    using assms(1) [of "k_client k1"] assms(2) by (auto simp: session_Disconnect_def w_def split: prod.splits)
  obtain errs k' where close: "mbim_bearer_Close c s b k = (errs, closeDone (b\<lparr>br_closed := True\<rparr>), s, k')" "k_slots k' = k_slots k"
    using assms(4)
    by (cases "ms_Connected s")
      (simp_all add: mbim_bearer_Close_def over_Close_def over_Disconnect_def over_closeOwned_def stays bearer_Disconnect_def closeOwned_def closeDone_def)
  have full: "reserveSessionID 1 None k' = Some (Fail (AllInUse 1), k')" if "k_slots k = {0}"
    using first_free_None [of 1 "k_slots k'"] that close(2) by (simp add: reserveSessionID_def word_less_1)
  have "br_closed (closeDone (b\<lparr>br_closed := True\<rparr>))" by (simp add: closeDone_def)
  moreover from this have "mbim_bearer_Close c s (closeDone (b\<lparr>br_closed := True\<rparr>)) k1 = ([], closeDone (b\<lparr>br_closed := True\<rparr>), s, k1)"
    "mbim_bearer_Disconnect c s (closeDone (b\<lparr>br_closed := True\<rparr>)) k1 = (None, closeDone (b\<lparr>br_closed := True\<rparr>), s, k1)" for k1
    by (simp_all add: mbim_bearer_Close_def mbim_bearer_Disconnect_def over_Close_def over_Disconnect_def)
  ultimately show ?thesis using close full by blast
qed

text \<open>A modem with one session, which drops the context once it has been asked about it.\<close>

definition sample_client :: "(bool, unit, nat) MClient" where
  "sample_client =
     \<lparr>q_DeviceCaps = (\<lambda>w. (Ret 1, w)), q_Profiles = (\<lambda>w. (Ret [], w)),
      q_QueryConnect = (\<lambda>n w. if w then (Ret ActivationStateDeactivated, False) else (Fail (), w)),
      q_SetConnect = (\<lambda>r w. if mk_ActivationCommand r = ActivationCommandActivate then (Ret ActivationStateActivated, True) else (Fail (), w)),
      q_IPConfiguration = (\<lambda>n w. (Ret 7, w)), q_NotActivated = (\<lambda>e. True)\<rparr>"

definition sample_mbackend :: "bool MBackend" where
  "sample_mbackend = \<lparr>k_client = False, k_slots = {}, k_prepared = False\<rparr>"

definition sample_msession :: "nat MSession" where
  "sample_msession = \<lparr>ms_id = 0, ms_Connected = True, ms_ProfileID = 0, ms_APN = [], ms_Interface = [0x77], ms_IP = 7, ms_closed = False\<rparr>"

definition sample_mbackend' :: "bool MBackend" where
  "sample_mbackend' = \<lparr>k_client = True, k_slots = {0}, k_prepared = True\<rparr>"

lemma sample_mbim_connects:
  "ConnectPort sample_client (sample_config\<lparr>cc_Interface := [0x77]\<rparr>) sample_mbackend = Some (Ret sample_msession, sample_mbackend')"
  by (simp add: ConnectPort_def configured_def sample_config_def reserveSession_def prepareSessions_def cleanupStaleSessions_def cleanup_one_def
    and_then_def attempt_def ask_def map_action_err_def get_def modify_def done_with_def sample_client_def sample_mbackend_def sample_mbackend'_def
    reserveSessionID_def first_free_def releasing_unless_made_def open_session_def activation_def unless_def sample_msession_def)

theorem mbim_session_numbers_exact_witness:
  "ms_id sample_msession \<notin> k_slots sample_mbackend \<and> k_slots sample_mbackend' = insert (ms_id sample_msession) (k_slots sample_mbackend)"
  using mbim_session_numbers_exact [OF sample_mbim_connects, unfolded outcome.case] by (elim conjE) (intro conjI, assumption+)

theorem mbim_dropped_session_keeps_number_witness:
  "\<exists>errs b' k'. mbim_bearer_Close sample_client (sample_msession\<lparr>ms_Connected := False\<rparr>) sample_bearer sample_mbackend' =
     (errs, b', sample_msession\<lparr>ms_Connected := False\<rparr>, k') \<and> br_closed b' \<and>
     (reserveSessionID 1 None k' :: ((unit mbim_error, u32) outcome \<times> bool MBackend) option) = Some (Fail (AllInUse 1), k')"
  using mbim_dropped_session_keeps_number [of sample_client "sample_msession\<lparr>ms_Connected := False\<rparr>" "()" sample_mbackend' sample_bearer]
  by (auto simp: sample_client_def sample_msession_def sample_mbackend'_def sample_bearer_def deactivation_def)

end
