(* ===== verification/Modem_Qmi.thy ===== *)
theory Modem_Qmi
  imports Modem_Session
begin

text \<open>
  Data sessions of the QMI backend (\<^verbatim>\<open>modem/qmi/bearer.go\<close>, \<^verbatim>\<open>modem/qmi/rmnet.go\<close>): one packet data connection per
  address family over an optional rmnet link, their merged network configuration, and closing. Opening a
  connection, closing it, and preparing and deleting a link are parameters; connections and links are numbered in the
  order they are made, and the state says of which \<^verbatim>\<open>Close\<close> has not been called yet.
\<close>

section \<open>Addresses\<close>

text \<open>\<^verbatim>\<open>net.IP\<close> and \<^verbatim>\<open>netip.Addr\<close> are bytes, 4 or 16 of them for a valid address.\<close>

definition AddrFromSlice :: "bytes \<Rightarrow> bytes option" where
  "AddrFromSlice b = (if length b = 4 \<or> length b = 16 then Some b else None)"

definition mapped_prefix :: bytes where
  "mapped_prefix = replicate 10 0 @ [0xFF, 0xFF]"

definition Unmap :: "bytes \<Rightarrow> bytes" where
  "Unmap a = (if length a = 16 \<and> take 12 a = mapped_prefix then drop 12 a else a)"

definition To4 :: "bytes \<Rightarrow> bytes option" where
  "To4 ip = (if length ip = 4 then Some ip else if length ip = 16 \<and> take 12 ip = mapped_prefix then Some (drop 12 ip) else None)"

text \<open>The leading ones of a mask, if only zeros follow.\<close>

definition mask_bits :: "bytes \<Rightarrow> bool list" where
  "mask_bits m = concat (map (\<lambda>b. map (\<lambda>i. bit b (7 - i)) [0..<8]) m)"

definition mask_size :: "bytes \<Rightarrow> nat option" where
  "mask_size m =
     (let bits = mask_bits m; ones = length (takeWhile (\<lambda>x. x) bits)
      in if \<exists>x \<in> set (drop ones bits). x then None else Some ones)"

text \<open>\<^verbatim>\<open>netip.PrefixFrom\<close> keeps an out-of-range length as an invalid prefix.\<close>

definition PrefixFrom :: "bytes \<Rightarrow> nat \<Rightarrow> bytes \<times> nat option" where
  "PrefixFrom a bits = (a, if bits \<le> 8 * length a then Some bits else None)"

section \<open>Network configuration\<close>

record PDNInfo =
  pi_LocalIPv4 :: bytes
  pi_LocalIPv6 :: bytes
  pi_IPv4Gateway :: bytes
  pi_IPv4SubnetMask :: bytes
  pi_IPv6Gateway :: bytes
  pi_IPv6PrefixLength :: byte
  pi_DNS :: "bytes list"
  pi_MTU :: u32
  pi_PacketDataReady :: bool

record NetworkConfig =
  nc_Interface :: bytes
  nc_Addresses :: "(bytes \<times> nat option) list"
  nc_Gateways :: "bytes list"
  nc_DNS :: "bytes list"
  nc_MTU :: u32

definition address4 :: "PDNInfo \<Rightarrow> (bytes \<times> nat option) list" where
  "address4 info =
     (case AddrFromSlice (pi_LocalIPv4 info) of
        None \<Rightarrow> []
      | Some a \<Rightarrow>
          if length (Unmap a) = 4 then
            let prefix = (case To4 (pi_IPv4SubnetMask info) of
                            None \<Rightarrow> 32
                          | Some m \<Rightarrow> (case mask_size m of None \<Rightarrow> 32 | Some ones \<Rightarrow> ones))
            in [PrefixFrom (Unmap a) prefix]
          else [])"

definition address6 :: "PDNInfo \<Rightarrow> (bytes \<times> nat option) list" where
  "address6 info =
     (case AddrFromSlice (pi_LocalIPv6 info) of
        None \<Rightarrow> []
      | Some a \<Rightarrow> if length a = 16 then [PrefixFrom a (unat (pi_IPv6PrefixLength info))] else [])"

definition networkConfig :: "bytes \<Rightarrow> PDNInfo \<Rightarrow> NetworkConfig" where
  "networkConfig interface info =
     \<lparr>nc_Interface = interface, nc_Addresses = address4 info @ address6 info,
      nc_Gateways = map Unmap (List.map_filter AddrFromSlice [pi_IPv4Gateway info, pi_IPv6Gateway info]),
      nc_DNS = map Unmap (List.map_filter AddrFromSlice (pi_DNS info)), nc_MTU = pi_MTU info\<rparr>"

fun appendUnique :: "'a list \<Rightarrow> 'a list \<Rightarrow> 'a list" where
  "appendUnique values [] = values"
| "appendUnique values (x # xs) = appendUnique (if x \<in> set values then values else values @ [x]) xs"

definition merge_one :: "NetworkConfig \<Rightarrow> NetworkConfig \<Rightarrow> NetworkConfig" where
  "merge_one result config =
     result\<lparr>nc_Addresses := appendUnique (nc_Addresses result) (nc_Addresses config),
            nc_Gateways := appendUnique (nc_Gateways result) (nc_Gateways config),
            nc_DNS := appendUnique (nc_DNS result) (nc_DNS config),
            nc_MTU := (if nc_MTU config \<noteq> 0 \<and> (nc_MTU result = 0 \<or> nc_MTU config < nc_MTU result) then nc_MTU config else nc_MTU result)\<rparr>"

definition mergeNetworkConfigs :: "bytes \<Rightarrow> PDNInfo list \<Rightarrow> NetworkConfig" where
  "mergeNetworkConfigs interface infos =
     foldl (\<lambda>result info. merge_one result (networkConfig interface info))
       \<lparr>nc_Interface = interface, nc_Addresses = [], nc_Gateways = [], nc_DNS = [], nc_MTU = 0\<rparr> infos"

section \<open>Connections\<close>

datatype WDSIPPreference = WDSIPPreferenceDefault | WDSIPPreferenceIPv4 | WDSIPPreferenceIPv6

definition ipPreferences :: "byte \<Rightarrow> WDSIPPreference list" where
  "ipPreferences family =
     (if family = IPFamilyIPv4 then [WDSIPPreferenceIPv4]
      else if family = IPFamilyIPv6 then [WDSIPPreferenceIPv6]
      else if family = IPFamilyIPv4v6 then [WDSIPPreferenceIPv4, WDSIPPreferenceIPv6]
      else [WDSIPPreferenceDefault])"

record MuxDataPort =
  mx_EndpointType :: QMIEndpointType
  mx_InterfaceID :: u32
  mx_MuxID :: byte

record PDNConfig =
  pd_APN :: bytes
  pd_Authentication :: byte
  pd_Username :: bytes
  pd_Password :: bytes
  pd_IPPreference :: WDSIPPreference
  pd_ProfileIndex :: byte
  pd_MuxDataPort :: "MuxDataPort option"
  pd_LegacyMuxDataPort :: u16
  pd_LegacyMuxFallback :: "MuxDataPort option"

text \<open>The QMI mask of the methods of \<^verbatim>\<open>contract\<close> (PAP 2, CHAP 4, MSCHAPv2 8): CHAP serves MSCHAPv2 too.\<close>

definition authenticationMask :: "byte \<Rightarrow> byte" where
  "authenticationMask a = (if a AND 2 \<noteq> 0 then 1 else 0) OR (if a AND (4 OR 8) \<noteq> 0 then 2 else 0)"

definition pdnConfig :: "ConnectConfig \<Rightarrow> WDSIPPreference \<Rightarrow> Port \<Rightarrow> byte \<Rightarrow> PDNConfig" where
  "pdnConfig cfg preference port muxID =
     (let e = p_QMIEndpoint port;
          result = \<lparr>pd_APN = cc_APN cfg, pd_Authentication = authenticationMask (cc_Authentication cfg),
            pd_Username = cc_Username cfg, pd_Password = cc_Password cfg, pd_IPPreference = preference,
            pd_ProfileIndex = word_of_int (cc_ProfileID cfg), pd_MuxDataPort = None, pd_LegacyMuxDataPort = 0, pd_LegacyMuxFallback = None\<rparr>
      in if muxID \<noteq> 0 then
           result\<lparr>pd_MuxDataPort := Some \<lparr>mx_EndpointType = QMIEndpointEmbedded, mx_InterfaceID = e_InterfaceNumber e, mx_MuxID = muxID\<rparr>\<rparr>
         else if e_SIOPort e \<noteq> 0 then
           result\<lparr>pd_LegacyMuxDataPort := e_SIOPort e,
                  pd_LegacyMuxFallback :=
                    (if e_Type e = QMIEndpointBAMDMUX
                     then Some \<lparr>mx_EndpointType = QMIEndpointBAMDMUX, mx_InterfaceID = e_InterfaceNumber e, mx_MuxID = 0\<rparr> else None)\<rparr>
         else result)"

datatype 'e qmi_error =
    ProfileTooLarge int
  | LinkFailed 'e
  | PDNFailed WDSIPPreference 'e "('e qmi_error) list"
  | ClosingPDN nat 'e
  | DeletingLink 'e
  | JoinedClose "('e qmi_error) list"

record ('w, 'e) PDNClient =
  d_PrepareLink :: "Port \<Rightarrow> 'w \<Rightarrow> ('e, bytes \<times> byte) outcome \<times> 'w"
  d_OpenPDN :: "PDNConfig \<Rightarrow> 'w \<Rightarrow> ('e, PDNInfo) outcome \<times> 'w"
  d_ClosePDN :: "nat \<Rightarrow> 'w \<Rightarrow> 'e option \<times> 'w"
  d_DeleteLink :: "nat \<Rightarrow> 'w \<Rightarrow> 'e option \<times> 'w"

record 'w QBackend =
  qb_world :: 'w
  qb_pdns :: "bool list"
  qb_links :: "bool list"

definition close_pdn :: "('w, 'e) PDNClient \<Rightarrow> nat \<Rightarrow> 'w QBackend \<Rightarrow> 'e option \<times> 'w QBackend" where
  "close_pdn c p k =
     (case d_ClosePDN c p (qb_world k) of (err, w) \<Rightarrow> (err, k\<lparr>qb_world := w, qb_pdns := (qb_pdns k)[p := False]\<rparr>))"

text \<open>\<^verbatim>\<open>closeSessions\<close> closes every connection, whatever the others answer.\<close>

fun closeSessions :: "('w, 'e) PDNClient \<Rightarrow> nat \<Rightarrow> nat list \<Rightarrow> 'w QBackend \<Rightarrow> ('e qmi_error) list \<times> 'w QBackend" where
  "closeSessions c i [] k = ([], k)"
| "closeSessions c i (p # ps) k =
     (case close_pdn c p k of (err, k') \<Rightarrow>
      case closeSessions c (Suc i) ps k' of (errs, k'') \<Rightarrow>
        ((case err of None \<Rightarrow> errs | Some e \<Rightarrow> ClosingPDN i e # errs), k''))"

definition link_Close :: "('w, 'e) PDNClient \<Rightarrow> nat option \<Rightarrow> 'w QBackend \<Rightarrow> ('e qmi_error) list \<times> 'w QBackend" where
  "link_Close c link k =
     (case link of
        None \<Rightarrow> ([], k)
      | Some l \<Rightarrow>
          (case d_DeleteLink c l (qb_world k) of (err, w) \<Rightarrow>
             ((case err of None \<Rightarrow> [] | Some e \<Rightarrow> [DeletingLink e]), k\<lparr>qb_world := w, qb_links := (qb_links k)[l := False]\<rparr>)))"

record 'e QSession =
  qs_pdns :: "nat list"
  qs_link :: "nat option"
  qs_connected :: "bool list"
  qs_Connected :: bool
  qs_ProfileID :: int
  qs_APN :: bytes
  qs_Network :: NetworkConfig
  qs_once :: bool
  qs_closeErr :: "('e qmi_error) list"

fun open_pdns ::
  "('w, 'e) PDNClient \<Rightarrow> (WDSIPPreference \<Rightarrow> PDNConfig) \<Rightarrow> nat option \<Rightarrow> WDSIPPreference list \<Rightarrow> nat list \<Rightarrow> PDNInfo list \<Rightarrow> 'w QBackend \<Rightarrow>
   ('e qmi_error, nat list \<times> PDNInfo list) outcome \<times> 'w QBackend" where
  "open_pdns c mk link [] ss infos k = (Ret (ss, infos), k)"
| "open_pdns c mk link (p # ps) ss infos k =
     (case d_OpenPDN c (mk p) (qb_world k) of
        (Ret info, w) \<Rightarrow>
          open_pdns c mk link ps (ss @ [length (qb_pdns k)]) (infos @ [info]) (k\<lparr>qb_world := w, qb_pdns := qb_pdns k @ [True]\<rparr>)
      | (Fail e, w) \<Rightarrow>
          (case closeSessions c 0 ss (k\<lparr>qb_world := w\<rparr>) of (errs, k') \<Rightarrow>
           case link_Close c link k' of (errs', k'') \<Rightarrow> (Fail (PDNFailed p e (errs @ errs')), k''))
      | (Panic, w) \<Rightarrow> (Panic, k\<lparr>qb_world := w\<rparr>))"

definition prepare_link :: "('w, 'e) PDNClient \<Rightarrow> Port \<Rightarrow> 'w QBackend \<Rightarrow> ('e qmi_error, (nat \<times> bytes \<times> byte) option) outcome \<times> 'w QBackend" where
  "prepare_link c port k =
     (if e_Type (p_QMIEndpoint port) = QMIEndpointEmbedded then
        (case d_PrepareLink c port (qb_world k) of
           (Ret (name, mux), w) \<Rightarrow> (Ret (Some (length (qb_links k), name, mux)), k\<lparr>qb_world := w, qb_links := qb_links k @ [True]\<rparr>)
         | (Fail e, w) \<Rightarrow> (Fail (LinkFailed e), k\<lparr>qb_world := w\<rparr>)
         | (Panic, w) \<Rightarrow> (Panic, k\<lparr>qb_world := w\<rparr>))
      else (Ret None, k))"

definition qmi_ConnectPort :: "('w, 'e) PDNClient \<Rightarrow> ConnectConfig \<Rightarrow> Port \<Rightarrow> 'w QBackend \<Rightarrow> ('e qmi_error, 'e QSession) outcome \<times> 'w QBackend" where
  "qmi_ConnectPort c cfg port k =
     (if cc_ProfileID cfg > 255 then (Fail (ProfileTooLarge (cc_ProfileID cfg)), k)
      else
        (case prepare_link c port k of
           (Fail e, k') \<Rightarrow> (Fail e, k')
         | (Panic, k') \<Rightarrow> (Panic, k')
         | (Ret made, k') \<Rightarrow>
             let link = map_option fst made;
                 mux = (case made of None \<Rightarrow> 0 | Some (l, name, m) \<Rightarrow> m);
                 interface = (case made of None \<Rightarrow> cc_Interface cfg | Some (l, name, m) \<Rightarrow> name)
             in
             (case open_pdns c (\<lambda>p. pdnConfig cfg p port mux) link (ipPreferences (cc_IPFamily cfg)) [] [] k' of
                (Fail e, k'') \<Rightarrow> (Fail e, k'')
              | (Panic, k'') \<Rightarrow> (Panic, k'')
              | (Ret (ss, infos), k'') \<Rightarrow>
                  (Ret \<lparr>qs_pdns = ss, qs_link = link, qs_connected = map pi_PacketDataReady infos,
                        qs_Connected = (True \<in> set (map pi_PacketDataReady infos)), qs_ProfileID = cc_ProfileID cfg, qs_APN = cc_APN cfg,
                        qs_Network = mergeNetworkConfigs interface infos, qs_once = False, qs_closeErr = []\<rparr>, k''))))"

section \<open>Sessions\<close>

text \<open>One event of \<^verbatim>\<open>Watch\<close> for the connection at an index, with what the connections report now.\<close>

definition session_event :: "nat \<Rightarrow> bool \<Rightarrow> PDNInfo list \<Rightarrow> 'e QSession \<Rightarrow> 'e QSession" where
  "session_event i up infos s =
     (let conn = (qs_connected s)[i := up]
      in s\<lparr>qs_connected := conn, qs_Connected := (True \<in> set conn), qs_Network := mergeNetworkConfigs (nc_Interface (qs_Network s)) infos\<rparr>)"

text \<open>\<^verbatim>\<open>Disconnect\<close> is \<^verbatim>\<open>Close\<close>, which does its work once and keeps its error.\<close>

definition qmi_session_Close :: "('w, 'e) PDNClient \<Rightarrow> ('e QSession, 'w QBackend, 'e qmi_error) session_call" where
  "qmi_session_Close c s k =
     (let (s', k') =
        (if qs_once s then (s, k)
         else
           (case closeSessions c 0 (qs_pdns s) k of (errs, k1) \<Rightarrow>
            case link_Close c (qs_link s) k1 of (errs', k2) \<Rightarrow>
              (s\<lparr>qs_once := True, qs_closeErr := errs @ errs', qs_Connected := False, qs_connected := map (\<lambda>_. False) (qs_connected s)\<rparr>, k2)))
      in ((if qs_closeErr s' = [] then Ret () else Fail (JoinedClose (qs_closeErr s'))), s', k'))"

section \<open>What is open\<close>

lemma close_pdn_state:
  "close_pdn c p k = (err, k') \<Longrightarrow> qb_pdns k' = (qb_pdns k)[p := False] \<and> qb_links k' = qb_links k"
  by (auto simp: close_pdn_def split: prod.splits)

lemma cleared: "j < length bs \<Longrightarrow> bs[p := False] ! j \<longleftrightarrow> bs ! j \<and> j \<noteq> p"
  by (cases "p < length bs") (auto simp: nth_list_update list_update_beyond)

lemma closeSessions_state:
  "closeSessions c i ps k = (errs, k') \<Longrightarrow>
   qb_links k' = qb_links k \<and> length (qb_pdns k') = length (qb_pdns k) \<and>
   (\<forall>j < length (qb_pdns k). qb_pdns k' ! j \<longleftrightarrow> qb_pdns k ! j \<and> j \<notin> set ps)"
proof (induction ps arbitrary: i k errs)
  case (Cons p ps)
  obtain err k1 where 1: "close_pdn c p k = (err, k1)" by fastforce
  obtain errs' where 2: "closeSessions c (Suc i) ps k1 = (errs', k')" using Cons.prems 1 by (auto split: prod.splits)
  show ?case using Cons.IH [OF 2] close_pdn_state [OF 1] by (auto simp: cleared)
qed simp

lemma link_Close_state:
  "link_Close c link k = (errs, k') \<Longrightarrow>
   qb_pdns k' = qb_pdns k \<and> length (qb_links k') = length (qb_links k) \<and>
   (\<forall>j < length (qb_links k). qb_links k' ! j \<longleftrightarrow> qb_links k ! j \<and> link \<noteq> Some j)"
  by (auto simp: link_Close_def cleared split: option.splits prod.splits)

definition qmi_holds :: "'e QSession \<Rightarrow> 'w QBackend \<Rightarrow> bool" where
  "qmi_holds s k \<longleftrightarrow>
     (\<exists>p \<in> set (qs_pdns s). p < length (qb_pdns k) \<and> qb_pdns k ! p) \<or>
     (\<exists>l < length (qb_links k). qs_link s = Some l \<and> qb_links k ! l)"

definition qmi_usable :: "'e QSession \<Rightarrow> 'w QBackend \<Rightarrow> bool" where
  "qmi_usable s k \<longleftrightarrow> (qs_once s \<longrightarrow> \<not> qmi_holds s k)"

lemma qmi_session_Close_gives_back:
  assumes "qmi_usable s k" "qmi_session_Close c s k = (res, s', k')"
  shows "\<not> qmi_holds s' k' \<and> res \<noteq> Panic"
proof (cases "qs_once s")
  case True
  with assms show ?thesis by (auto simp: qmi_session_Close_def qmi_usable_def split: if_splits)
next
  case False
  obtain errs k1 where 1: "closeSessions c 0 (qs_pdns s) k = (errs, k1)" by fastforce
  obtain errs' k2 where 2: "link_Close c (qs_link s) k1 = (errs', k2)" by fastforce
  have s': "qs_pdns s' = qs_pdns s" "qs_link s' = qs_link s" "k' = k2" "res \<noteq> Panic"
    using assms(2) False by (auto simp: qmi_session_Close_def 1 2 split: if_splits)
  then show ?thesis
    using closeSessions_state [OF 1] link_Close_state [OF 2] by (auto simp: qmi_holds_def)
qed

lemma qmi_session_Close_usable: "qmi_usable s k \<Longrightarrow> qmi_session_Close c s k = (res, s', k') \<Longrightarrow> qmi_usable s' k'"
  using qmi_session_Close_gives_back [of s k c] by (simp add: qmi_usable_def)

interpretation qmi: session_contract "qmi_session_Close c" "qmi_session_Close c" qs_Connected qmi_holds qmi_usable
proof (unfold_locales, goal_cases)
  case (3 s k)
  then show ?case using qmi_session_Close_gives_back [of s k c] by (metis prod_cases3 fst_conv)
qed (simp_all add: qmi_session_Close_usable qmi_session_Close_gives_back)

section \<open>Connecting\<close>

lemma open_pdns_state:
  assumes "open_pdns c mk link ps ss infos k = (res, k')" "qb_pdns k = base @ replicate j True" "ss = [length base..<length base + j]"
  shows "case res of
      Ret (ss', infos') \<Rightarrow> ss' = [length base..<length base + j + length ps] \<and> qb_pdns k' = base @ replicate (j + length ps) True \<and> qb_links k' = qb_links k
    | Fail e \<Rightarrow> (\<exists>n. qb_pdns k' = base @ replicate n False) \<and> qb_links k' = (case link of None \<Rightarrow> qb_links k | Some l \<Rightarrow> (qb_links k)[l := False])
    | Panic \<Rightarrow> True"
  using assms
proof (induction ps arbitrary: ss infos k j)
  case (Cons p ps)
  obtain answer w where o: "d_OpenPDN c (mk p) (qb_world k) = (answer, w)" by fastforce
  show ?case
  proof (cases answer)
    case (Ret info)
    have "open_pdns c mk link ps (ss @ [length base + j]) (infos @ [info]) (k\<lparr>qb_world := w, qb_pdns := qb_pdns k @ [True]\<rparr>) = (res, k')"
      using Cons.prems(1, 2) o Ret by simp
    note again = Cons.IH [OF this, of "Suc j"]
    show ?thesis using again Cons.prems(2, 3) by (cases res; cases link) (auto simp: replicate_append_same)
  next
    case (Fail e)
    obtain errs k1 where 1: "closeSessions c 0 ss (k\<lparr>qb_world := w\<rparr>) = (errs, k1)" by fastforce
    obtain errs' k2 where 2: "link_Close c link k1 = (errs', k2)" by fastforce
    have res: "res = Fail (PDNFailed p e (errs @ errs'))" "k' = k2" using Cons.prems(1) o Fail 1 2 by simp_all
    have "qb_pdns k2 = base @ replicate j False"
    proof (rule nth_equalityI)
      show "length (qb_pdns k2) = length (base @ replicate j False)"
        using closeSessions_state [OF 1] link_Close_state [OF 2] Cons.prems(2) by simp
      fix i
      assume "i < length (qb_pdns k2)"
      then have i: "i < length base + j" using closeSessions_state [OF 1] link_Close_state [OF 2] Cons.prems(2) by simp
      then show "qb_pdns k2 ! i = (base @ replicate j False) ! i"
        using closeSessions_state [OF 1] link_Close_state [OF 2] Cons.prems(2, 3) by (auto simp: nth_append)
    qed
    moreover have "qb_links k2 = (case link of None \<Rightarrow> qb_links k | Some l \<Rightarrow> (qb_links k)[l := False])"
      using closeSessions_state [OF 1] 2 by (auto simp: link_Close_def split: option.splits prod.splits)
    ultimately show ?thesis using res by auto
  qed (use Cons.prems(1) o in simp)
qed auto

lemma ipPreferences_nonempty: "ipPreferences f \<noteq> []"
  by (simp add: ipPreferences_def)

section \<open>Properties\<close>



lemma appendUnique_spec: "set (appendUnique xs ys) = set xs \<union> set ys" "distinct xs \<Longrightarrow> distinct (appendUnique xs ys)"
  by (induction ys arbitrary: xs) auto

definition merged :: "NetworkConfig list \<Rightarrow> NetworkConfig \<Rightarrow> bool" where
  "merged cs r \<longleftrightarrow>
     set (nc_Addresses r) = (\<Union>c \<in> set cs. set (nc_Addresses c)) \<and> distinct (nc_Addresses r) \<and>
     set (nc_Gateways r) = (\<Union>c \<in> set cs. set (nc_Gateways c)) \<and> distinct (nc_Gateways r) \<and>
     set (nc_DNS r) = (\<Union>c \<in> set cs. set (nc_DNS c)) \<and> distinct (nc_DNS r) \<and>
     (if \<forall>c \<in> set cs. nc_MTU c = 0 then nc_MTU r = 0
      else nc_MTU r \<in> nc_MTU ` set cs \<and> nc_MTU r \<noteq> 0 \<and> (\<forall>c \<in> set cs. nc_MTU c = 0 \<or> nc_MTU r \<le> nc_MTU c))"

lemma merged_step: "merged cs r \<Longrightarrow> merged (cs @ [c]) (merge_one r c)"
  unfolding merged_def merge_one_def by (auto simp: appendUnique_spec split: if_splits)

text \<open>The merged configuration has every address, gateway and server of the connections, none twice, and the smallest
  MTU that any of them reports.\<close>

theorem qmi_network_merged: "merged (map (networkConfig interface) infos) (mergeNetworkConfigs interface infos)"
proof (induction infos rule: rev_induct)
  case (snoc info infos)
  then show ?case by (simp add: mergeNetworkConfigs_def merged_step)
qed (simp add: mergeNetworkConfigs_def merged_def)

text \<open>A modem that opens a first connection and refuses the second, behind an rmnet link.\<close>

definition sample_info :: PDNInfo where
  "sample_info = \<lparr>pi_LocalIPv4 = [10, 0, 0, 2], pi_LocalIPv6 = [], pi_IPv4Gateway = [10, 0, 0, 1], pi_IPv4SubnetMask = [255, 255, 255, 0],
     pi_IPv6Gateway = [], pi_IPv6PrefixLength = 0, pi_DNS = [[8, 8, 8, 8]], pi_MTU = 1400, pi_PacketDataReady = True\<rparr>"

definition sample_pdns :: "(nat, unit) PDNClient" where
  "sample_pdns = \<lparr>d_PrepareLink = (\<lambda>port w. (Ret ([0x72], 1), w)), d_OpenPDN = (\<lambda>cfg w. if w = 0 then (Ret sample_info, 1) else (Fail (), w)),
     d_ClosePDN = (\<lambda>p w. (Some (), w)), d_DeleteLink = (\<lambda>l w. (None, w))\<rparr>"

definition sample_embedded :: Port where
  "sample_embedded = (named_network_port [0x69])\<lparr>p_QMIEndpoint := \<lparr>e_Type = QMIEndpointEmbedded, e_InterfaceNumber = 1, e_SIOPort = 0\<rparr>\<rparr>"

definition sample_qbackend :: "nat QBackend" where
  "sample_qbackend = \<lparr>qb_world = 0, qb_pdns = [True], qb_links = []\<rparr>"

lemma sample_refused:
  "qmi_ConnectPort sample_pdns (sample_config\<lparr>cc_IPFamily := IPFamilyIPv4v6\<rparr>) sample_embedded sample_qbackend =
   (Fail (PDNFailed WDSIPPreferenceIPv6 () [ClosingPDN 0 ()]), \<lparr>qb_world = 1, qb_pdns = [True, False], qb_links = [False]\<rparr>)"
  by (simp add: qmi_ConnectPort_def prepare_link_def sample_pdns_def sample_embedded_def sample_qbackend_def sample_config_def ipPreferences_def
    IPFamilyIPv4v6_def IPFamilyIPv4_def IPFamilyIPv6_def close_pdn_def link_Close_def)


definition sample_qsession :: "unit QSession" where
  "sample_qsession = \<lparr>qs_pdns = [0], qs_link = None, qs_connected = [True], qs_Connected = True, qs_ProfileID = 0, qs_APN = [],
     qs_Network = mergeNetworkConfigs [] [sample_info], qs_once = False, qs_closeErr = []\<rparr>"


end
