(* ===== verification/Spec2Isabelle.thy ===== *)
theory Spec2Isabelle
  imports Prelude Apdu Qmi_Tlv Ber_Tlv Qmi_Wire Qmi_Subscription Qmi_Transport Qmi_Concurrency Qmi_Pool Utf16
    Mbim_Wire Mbim_Protocol Mbim_Fragment Mbim_Dispatch Sms_Text Sms_Pdu Sms_Roundtrip Sms_Assembler Sms_Delivery
    Utf8 Go_Strings Actions Sim_File Sim_Command Sim_Reader Sim_App At_Reader Qcom_Uim Qcom_Client Qcom_Cat Sim_Qcom
    Modem_Connect Modem_Bearers Modem_Guards Modem_Session Modem_Mbim Modem_Qmi
begin

text \<open>
  A verification development of wwan-go, a Go library that drives cellular modems. A program opens a control port
  of a modem that speaks QMI (over QMUX) or MBIM, sends requests and receives responses and indications, manages
  data connections, exchanges short messages, and talks to the SIM card, directly over AT commands or through the
  modem's card services.

  \<^bold>\<open>How the parts interact.\<close> At the bottom are the wire formats: TLV sequences, messages and frames. On top of each
  protocol runs a dispatcher that shares one connection among many callers: it numbers transactions, waits for
  answers, routes indications and fails everyone when the connection breaks; a pool shares the connection of a device
  among clients. The QMI client adds the client IDs of the QMI services and the services themselves. The SIM code
  has one interface for reading files and running commands on a card, with an APDU reader (over AT) and a QMI adapter
  behind it, and the application on top that loads a subscriber card and authenticates. The modem package puts a
  uniform interface over a QMI or MBIM backend, and its bearers own the data sessions.

  \<^bold>\<open>The model.\<close> Every definition translates code under \<^verbatim>\<open>src/\<close>. A Go call gives an \<open>outcome\<close>: a value, an error, or a
  panic (an index or slice out of range, a nil map written to), so that the absence of panics is proved and not
  assumed. Machine integers are words of their width. Code that keeps state is a function on a record, or an \<open>action\<close>
  (theory \<open>Actions\<close>) where state is threaded through many calls. Concurrent code is an inductive step relation whose steps
  are the critical sections of the code, so every interleaving of them is a run; sends on channels made after a
  lock is released are steps of their own. Strings are bytes; errors keep their cause and drop their message text.

  \<^bold>\<open>Theories.\<close>
  \<^item> \<open>Prelude\<close>, \<open>Actions\<close>, \<open>Go_Strings\<close>, \<open>Utf8\<close>, \<open>Utf16\<close>: outcomes, words, slices and readers; actions with their weakest
    preconditions; the parts of the Go standard library the code uses.
  \<^item> \<open>Apdu\<close> (\<^verbatim>\<open>apdu\<close>), \<open>Ber_Tlv\<close> (\<^verbatim>\<open>sim/tlv\<close>), \<open>Qmi_Tlv\<close> (\<^verbatim>\<open>qcom/tlv\<close>), \<open>Qmi_Wire\<close> (\<^verbatim>\<open>qcom/qmi/response.go\<close> and the encoder of
    \<^verbatim>\<open>qcom/qmi/transport.go\<close>), \<open>Mbim_Wire\<close> (\<^verbatim>\<open>mbim/wire.go\<close>), \<open>Mbim_Protocol\<close> (\<^verbatim>\<open>mbim/protocol.go\<close>): codecs. Encoders and decoders are
    inverse, the decoders accept exactly a reference layout and never panic, the stream and the slice decoder agree.
  \<^item> \<open>Qmi_Subscription\<close>, \<open>Qmi_Transport\<close>, \<open>Qmi_Concurrency\<close> (\<^verbatim>\<open>qcom/qmi/transport.go\<close>): the QMI transport core. Responses reach
    the caller that asked, no caller waits for ever, no send blocks, a lease that closes fails only its own requests, an
    interrupted write closes the core.
  \<^item> \<open>Qmi_Pool\<close> (\<^verbatim>\<open>qcom/qmi/pool.go\<close>): one connection per device in every interleaving, kept while it is leased.
  \<^item> \<open>Mbim_Fragment\<close> (\<^verbatim>\<open>mbim/fragment.go\<close>) and \<open>Mbim_Dispatch\<close> (\<^verbatim>\<open>mbim/dispatcher.go\<close>): fragments are reassembled exactly; the
    dispatcher never blocks or panics, routes responses, and its indication queue refines a bounded queue per key.
  \<^item> \<open>Sms_Text\<close>, \<open>Sms_Pdu\<close>, \<open>Sms_Roundtrip\<close>, \<open>Sms_Assembler\<close>, \<open>Sms_Delivery\<close> (\<^verbatim>\<open>modem/sms\<close>): text alphabets, PDUs and
    reassembly. A message survives encoding, decoding and reassembly in any order of its parts.
  \<^item> \<open>Sim_File\<close> (\<^verbatim>\<open>sim/simfile\<close>), \<open>Sim_Command\<close> (\<^verbatim>\<open>sim/command\<close>), \<open>Sim_Reader\<close> (\<^verbatim>\<open>sim/reader.go\<close>), \<open>Sim_App\<close> (\<^verbatim>\<open>sim/command/app.go\<close>,
    \<^verbatim>\<open>sim/card.go\<close>), \<open>At_Reader\<close> (\<^verbatim>\<open>at\<close>): the card. File contents decode without panics, a read comes from the requested
    file, a loaded card is consistent, an exchange over AT returns the answer of the device.
  \<^item> \<open>Qcom_Uim\<close> (\<^verbatim>\<open>qcom/file.go\<close>, \<^verbatim>\<open>authenticate.go\<close>, \<^verbatim>\<open>logical_channel.go\<close>, \<^verbatim>\<open>message.go\<close>), \<open>Qcom_Client\<close> (\<^verbatim>\<open>qcom/client.go\<close>,
    \<^verbatim>\<open>transport.go\<close>, \<^verbatim>\<open>control.go\<close>), \<open>Qcom_Cat\<close> (\<^verbatim>\<open>qcom/cat.go\<close>, \<^verbatim>\<open>cat_claim.go\<close>), \<open>Sim_Qcom\<close> (\<^verbatim>\<open>sim/qcom.go\<close>): the QMI client. Every
    client ID it allocated is released by \<^verbatim>\<open>Close\<close>, claiming toolkit events keeps them accounted for, and the card over
    QMI never panics.
  \<^item> \<open>Modem_Connect\<close>, \<open>Modem_Bearers\<close>, \<open>Modem_Guards\<close> (\<^verbatim>\<open>modem/modem.go\<close>, \<^verbatim>\<open>modem/network_interface.go\<close>), \<open>Modem_Session\<close>, \<open>Modem_Mbim\<close>
    (\<^verbatim>\<open>modem/mbim/bearer.go\<close>), \<open>Modem_Qmi\<close> (\<^verbatim>\<open>modem/qmi/bearer.go\<close>): the modem. \<^verbatim>\<open>Connect\<close> starts a session only when everything
    it needs has been seen, sends at most one PIN and ends with its context; no session is lost when \<^verbatim>\<open>Connect\<close>, \<^verbatim>\<open>Disconnect\<close>
    and \<^verbatim>\<open>Close\<close> race; a QMI connection is all or nothing; MBIM session numbers are exact.

  \<^bold>\<open>Interfaces.\<close> Locales state what one part relies on in another: writers and codecs (\<open>Prelude\<close>), the card interface
  (\<open>Sim_App\<close>), the requester and the transport of the QMI client (\<open>Qcom_Uim\<close>, \<open>Qcom_Client\<close>), the contract of a data session
  (\<open>Modem_Session\<close>). Each is interpreted on the definitions of the parts that provide it; the card interface both for the AT
  reader and, through \<open>Sim_Qcom\<close>, for the QMI client. The MBIM session does not meet the session contract: \<open>Modem_Mbim\<close>
  proves how a session number is lost.

  \<^bold>\<open>Parameters.\<close> Devices are arguments: the serial port, the transport below the QMI client, the MBIM client below its
  sessions, the protocol backend below \<^verbatim>\<open>Connect\<close>, the result of discovery. What a property needs of them is a hypothesis in
  its statement (for the QMI client: which client IDs a modem answers), and the witness gives a concrete device.

  \<^bold>\<open>Bounds and fuel.\<close> The reassembly loop runs on fuel 256, which its byte counter never exceeds. \<^verbatim>\<open>ListApplications\<close> over QMI
  returns with fuel 65537, one more than its counter has values. The AT reader and the record loop of \<^verbatim>\<open>LinearFixed\<close> take fuel as
  an argument, since the device decides their length, and the theorems say how much is enough. \<^verbatim>\<open>pollUntil\<close> takes
  fuel too: 30 polls end a power change, and for a context that ends the number of intervals up to its end. Bearers are
  numbered with 64 bits; their properties assume that fewer than \<open>2 ^ 64\<close> were made.

  \<^bold>\<open>Not modelled.\<close> Device nodes, sockets, PC/SC and sysfs (\<^verbatim>\<open>cdcwdm\<close>, \<^verbatim>\<open>qcom/qrtr\<close>, \<^verbatim>\<open>ccid\<close>, discovery, serial ports, dialers): system
  calls. The requests of the other QMI and MBIM services and the backends that translate them into the types of the modem:
  field by field over the modelled formats and dispatchers. The toolkit sessions and the watch streams: goroutines that
  copy from channel to channel. Message texts of errors, logging and \<^verbatim>\<open>String\<close> methods.
\<close>

end
